(* ===== verification/Leptos_Prelude.thy ===== *)
theory Leptos_Prelude
  imports Main
begin

text \<open>
  Shared material of the development: the result type of operations that can fail, the
  insertion-ordered set of the \<open>indexmap\<close> crate as far as the code uses it, and the
  collections of simplification rules the component theories extend.
\<close>

named_theorems frame_simps \<open>what an operation leaves unchanged\<close>
named_theorems node_simps \<open>lookups of one node after an update of one node\<close>

subsection \<open>Results of fallible code\<close>

text \<open>
  \<open>OutOfFuel\<close> is the value of a recursion that did not end within its fuel (the
  program would overflow its stack or hang), \<open>Panic\<close> is a Rust panic.
\<close>

datatype failure = OutOfFuel | Panic

type_synonym 'a result = "failure + 'a"

text \<open>\<open>for x in xs { f(x) }\<close> over a state, stopping at the first failure.\<close>

primrec foreach :: "('a \<Rightarrow> 's \<Rightarrow> 's result) \<Rightarrow> 'a list \<Rightarrow> 's \<Rightarrow> 's result" where
  "foreach f [] s = Inr s"
| "foreach f (x # xs) s = (case f x s of Inl e \<Rightarrow> Inl e | Inr s' \<Rightarrow> foreach f xs s')"

lemma foreach_append:
  "foreach f (xs @ ys) s =
     (case foreach f xs s of Inl e \<Rightarrow> Inl e | Inr s' \<Rightarrow> foreach f ys s')"
  by (induction xs arbitrary: s) (auto split: sum.split)

text \<open>An invariant kept by the body for every element is kept by the loop, which returns.\<close>

lemma foreach_total:
  assumes "I s"
    and "\<And>x s. x \<in> set xs \<Longrightarrow> I s \<Longrightarrow> \<exists>s'. f x s = Inr s' \<and> I s'"
  shows "\<exists>s'. foreach f xs s = Inr s' \<and> I s'"
  using assms
proof (induction xs arbitrary: s)
  case (Cons x xs)
  obtain s1 where "f x s = Inr s1" "I s1"
    using Cons.prems(1) Cons.prems(2) [of x s] by auto
  moreover have "\<exists>s'. foreach f xs s1 = Inr s' \<and> I s'"
    using Cons.IH [OF \<open>I s1\<close>] Cons.prems(2) by auto
  ultimately show ?case by auto
qed simp

text \<open>
  The same with a goal for each element: a relation that the body respects relates the
  states before and after the loop, and what was reached for one element is kept.
\<close>

lemma foreach_each:
  assumes "I s"
    and body: "\<And>x s. x \<in> set xs \<Longrightarrow> I s \<Longrightarrow> \<exists>s'. f x s = Inr s' \<and> I s' \<and> Q s s' \<and> G x s'"
    and Q: "\<And>s. Q s s" "\<And>s s' s''. Q s s' \<Longrightarrow> Q s' s'' \<Longrightarrow> Q s s''"
    and keep: "\<And>x s s'. x \<in> set xs \<Longrightarrow> G x s \<Longrightarrow> Q s s' \<Longrightarrow> G x s'"
  shows "\<exists>s'. foreach f xs s = Inr s' \<and> I s' \<and> Q s s' \<and> (\<forall>x\<in>set xs. G x s')"
  using assms(1) body keep
proof (induction xs arbitrary: s)
  case Nil
  then show ?case using Q(1) by auto
next
  case (Cons x xs)
  obtain s1 where s1: "f x s = Inr s1" "I s1" "Q s s1" "G x s1"
    using Cons.prems(1) Cons.prems(2) [of x s] by auto
  have body': "y \<in> set xs \<Longrightarrow> I t \<Longrightarrow> \<exists>t'. f y t = Inr t' \<and> I t' \<and> Q t t' \<and> G y t'" for y t
    using Cons.prems(2) [of y t] by simp
  have keep': "y \<in> set xs \<Longrightarrow> G y t \<Longrightarrow> Q t t' \<Longrightarrow> G y t'" for y t t'
    using Cons.prems(3) [of y t t'] by simp
  have "\<exists>s'. foreach f xs s1 = Inr s' \<and> I s' \<and> Q s1 s' \<and> (\<forall>y\<in>set xs. G y s')"
    using s1(2) body' keep' by (rule Cons.IH)
  then obtain s2 where s2: "foreach f xs s1 = Inr s2" "I s2" "Q s1 s2" "\<forall>y\<in>set xs. G y s2"
    by auto
  moreover have "Q s s2" using Q(2) [OF s1(3) s2(3)] .
  moreover have "G x s2" using Cons.prems(3) [OF _ s1(4) s2(3)] by simp
  ultimately show ?case using s1(1) by auto
qed

text \<open>An amount that the body raises by what the element is worth.\<close>

lemma foreach_account:
  fixes amount :: "'s \<Rightarrow> 'm::comm_monoid_add"
  assumes "foreach f xs s = Inr s'" "I s"
    and "\<And>x s s'. x \<in> set xs \<Longrightarrow> I s \<Longrightarrow> f x s = Inr s' \<Longrightarrow> I s' \<and> amount s' = amount s + worth x"
  shows "I s' \<and> amount s' = amount s + sum_list (map worth xs)"
  using assms
proof (induction xs arbitrary: s)
  case (Cons x xs)
  obtain s1 where s1: "f x s = Inr s1" "foreach f xs s1 = Inr s'"
    using Cons.prems(1) by (auto split: sum.splits)
  have one: "I s1" "amount s1 = amount s + worth x"
    using Cons.prems(3) [OF _ Cons.prems(2) s1(1)] by auto
  have step: "y \<in> set xs \<Longrightarrow> I t \<Longrightarrow> f y t = Inr t' \<Longrightarrow> I t' \<and> amount t' = amount t + worth y" for y t t'
    using Cons.prems(3) [of y t t'] by simp
  have rest: "I s' \<and> amount s' = amount s1 + sum_list (map worth xs)"
    using s1(2) one(1) step by (rule Cons.IH)
  then have "amount s' = amount s + worth x + sum_list (map worth xs)" unfolding one(2) by (rule conjunct2)
  then have "amount s' = amount s + sum_list (map worth (x # xs))" unfolding list.map sum_list.Cons add.assoc .
  with rest show ?case by (rule conjI [OF conjunct1])
qed simp

text \<open>Running one fallible step after another.\<close>

definition and_then :: "'a result \<Rightarrow> ('a \<Rightarrow> 'b result) \<Rightarrow> 'b result" where
  "and_then r f = (case r of Inl e \<Rightarrow> Inl e | Inr x \<Rightarrow> f x)"

lemma and_then_simps [simp]:
  "and_then (Inl e) f = Inl e"
  "and_then (Inr x) f = f x"
  by (simp_all add: and_then_def)

lemma and_then_Inr: "and_then r f = Inr y \<longleftrightarrow> (\<exists>x. r = Inr x \<and> f x = Inr y)"
  by (cases r) simp_all

text \<open>\<open>xs.into_iter().map(f).collect()\<close> where \<open>f\<close> works on a state, in order.\<close>

primrec map_state :: "('a \<Rightarrow> 's \<Rightarrow> ('b \<times> 's) result) \<Rightarrow> 'a list \<Rightarrow> 's \<Rightarrow> ('b list \<times> 's) result" where
  "map_state f [] s = Inr ([], s)"
| "map_state f (x # xs) s =
     and_then (f x s) (\<lambda>(y, s1). and_then (map_state f xs s1) (\<lambda>(ys, s2). Inr (y # ys, s2)))"

lemma foreach_cong [fundef_cong]:
  "xs = ys \<Longrightarrow> s = t \<Longrightarrow> (\<And>x s. x \<in> set ys \<Longrightarrow> f x s = g x s) \<Longrightarrow> foreach f xs s = foreach g ys t"
  by (induction ys arbitrary: xs s t) (auto split: sum.split)

lemma map_state_cong [fundef_cong]:
  "xs = ys \<Longrightarrow> s = t \<Longrightarrow> (\<And>x s. x \<in> set ys \<Longrightarrow> f x s = g x s) \<Longrightarrow> map_state f xs s = map_state g ys t"
  by (induction ys arbitrary: xs s t) (auto simp: and_then_def split: sum.split)

lemma and_then_cong:
  "r = r' \<Longrightarrow> (\<And>x. r' = Inr x \<Longrightarrow> f x = g x) \<Longrightarrow> and_then r f = and_then r' g"
  by (cases r') simp_all

subsection \<open>Insertion-ordered sets\<close>

text \<open>
  \<open>IndexSet::insert\<close> appends a new element and leaves a present one in place;
  \<open>shift_remove\<close> closes the gap, keeping the order of the others.
\<close>

definition index_insert :: "'a \<Rightarrow> 'a list \<Rightarrow> 'a list" where
  "index_insert x xs = (if x \<in> set xs then xs else xs @ [x])"

definition shift_remove :: "'a \<Rightarrow> 'a list \<Rightarrow> 'a list" where
  "shift_remove x xs = filter (\<lambda>y. y \<noteq> x) xs"

lemma set_index_insert [simp]: "set (index_insert x xs) = insert x (set xs)"
  by (auto simp: index_insert_def)

lemma distinct_index_insert [simp]: "distinct (index_insert x xs) = distinct xs"
  by (auto simp: index_insert_def)

lemma set_shift_remove [simp]: "set (shift_remove x xs) = set xs - {x}"
  by (auto simp: shift_remove_def)

lemma distinct_shift_remove [simp]: "distinct xs \<Longrightarrow> distinct (shift_remove x xs)"
  by (simp add: shift_remove_def)

lemma shift_remove_insert:
  "x \<notin> set xs \<Longrightarrow> shift_remove x (index_insert x xs) = xs"
  by (auto simp: shift_remove_def index_insert_def filter_id_conv)

subsection \<open>Searching a list\<close>

text \<open>\<open>iter().position(..)\<close>, and \<open>IndexSet::get_index_of\<close>.\<close>

fun find_index :: "('a \<Rightarrow> bool) \<Rightarrow> 'a list \<Rightarrow> nat option" where
  "find_index P [] = None"
| "find_index P (x # xs) = (if P x then Some 0 else map_option Suc (find_index P xs))"

definition get_index :: "'a list \<Rightarrow> nat \<Rightarrow> 'a option" where
  "get_index xs i = (if i < length xs then Some (xs ! i) else None)"

definition index_of :: "'a list \<Rightarrow> 'a \<Rightarrow> nat option" where
  "index_of xs x = find_index (\<lambda>y. y = x) xs"

lemma find_index_Some:
  "find_index P xs = Some i \<Longrightarrow> i < length xs \<and> P (xs ! i) \<and> (\<forall>j<i. \<not> P (xs ! j))"
proof (induction xs arbitrary: i)
  case (Cons x xs)
  then show ?case by (cases i) (auto simp: less_Suc_eq_0_disj split: if_splits)
qed simp

lemma find_index_None: "find_index P xs = None \<longleftrightarrow> (\<forall>x\<in>set xs. \<not> P x)"
  by (induction xs) auto

lemma index_of_nth: "distinct xs \<Longrightarrow> i < length xs \<Longrightarrow> index_of xs (xs ! i) = Some i"
proof -
  assume d: "distinct xs" "i < length xs"
  then obtain j where j: "index_of xs (xs ! i) = Some j"
    using find_index_None [of "\<lambda>y. y = xs ! i" xs] by (cases "index_of xs (xs ! i)") (auto simp: index_of_def)
  then have "j < length xs" "xs ! j = xs ! i" by (auto simp: index_of_def dest: find_index_Some)
  with d j show ?thesis using nth_eq_iff_index_eq [of xs j i] by simp
qed

lemma index_of_None: "index_of xs x = None \<longleftrightarrow> x \<notin> set xs"
  by (auto simp: index_of_def find_index_None)

lemma index_of_Some: "index_of xs x = Some i \<Longrightarrow> i < length xs \<and> xs ! i = x"
  by (auto simp: index_of_def dest: find_index_Some)

end
