(* ===== verification/Graph_Sets.thy ===== *)
theory Graph_Sets
  imports Leptos_Prelude
begin

text \<open>
  The sets of edges of the reactive graph
  (\<^verbatim>\<open>src/reactive_graph/src/graph/sets.rs\<close>). Both wrap an insertion-ordered
  \<open>IndexSet\<close>; a \<open>SubscriberSet\<close> prunes subscribers that were dropped when it is about to
  reallocate, so its capacity is part of the state. How much room an allocation of at
  least \<open>n\<close> entries really gets is up to the \<open>indexmap\<close> crate: it is the parameter
  \<open>grow\<close> of the operations.
\<close>

type_synonym node_id = nat

type_synonym source_set = "node_id list"

definition source_set_new :: source_set where
  "source_set_new = []"

definition source_set_insert :: "node_id \<Rightarrow> source_set \<Rightarrow> source_set" where
  "source_set_insert source self = index_insert source self"

definition source_set_remove :: "node_id \<Rightarrow> source_set \<Rightarrow> source_set" where
  "source_set_remove source self = shift_remove source self"

definition source_set_take :: "source_set \<Rightarrow> source_set \<times> source_set" where
  "source_set_take self = (self, [])"

record subscriber_set =
  items :: "node_id list"
  capacity :: nat

definition subscriber_set_new :: subscriber_set where
  "subscriber_set_new = \<lparr>items = [], capacity = 2\<rparr>"

text \<open>\<open>IndexSet::reserve\<close>: room for \<open>need\<close> elements, reallocating only when there is none.\<close>

definition reserve_to :: "(nat \<Rightarrow> nat) \<Rightarrow> nat \<Rightarrow> subscriber_set \<Rightarrow> subscriber_set" where
  "reserve_to grow need self =
     (if need \<le> capacity self then self else self\<lparr>capacity := grow need\<rparr>)"

definition raw_insert :: "(nat \<Rightarrow> nat) \<Rightarrow> node_id \<Rightarrow> subscriber_set \<Rightarrow> subscriber_set" where
  "raw_insert grow x self =
     (if x \<in> set (items self) then self
      else (reserve_to grow (length (items self) + 1) self)\<lparr>items := items self @ [x]\<rparr>)"

definition subscribe ::
  "(nat \<Rightarrow> nat) \<Rightarrow> (node_id \<Rightarrow> bool) \<Rightarrow> node_id \<Rightarrow> subscriber_set \<Rightarrow> subscriber_set" where
  "subscribe grow alive subscriber self =
     (let self = (if length (items self) = capacity self
                  then let pruned = self\<lparr>items := filter alive (items self)\<rparr>
                       in reserve_to grow (2 * length (items pruned)) pruned
                  else self)
      in raw_insert grow subscriber self)"

definition unsubscribe :: "node_id \<Rightarrow> subscriber_set \<Rightarrow> subscriber_set" where
  "unsubscribe subscriber self = self\<lparr>items := shift_remove subscriber (items self)\<rparr>"

text \<open>\<open>mem::take\<close> leaves \<open>Default::default()\<close>, an empty set without an allocation.\<close>

definition subscriber_set_take :: "subscriber_set \<Rightarrow> node_id list \<times> subscriber_set" where
  "subscriber_set_take self = (items self, \<lparr>items = [], capacity = 0\<rparr>)"

definition subscriber_set_len :: "subscriber_set \<Rightarrow> nat" where
  "subscriber_set_len self = length (items self)"

subsection \<open>What the graph relies on\<close>

text \<open>
  The client (the graph) only ever looks at the live members of a set and at their order.
  The interface says what the operations do to those, whatever the capacity was.
\<close>

locale ordered_subscribers =
  fixes sub :: "(nat \<Rightarrow> bool) \<Rightarrow> nat \<Rightarrow> 's \<Rightarrow> 's"
    and unsub :: "nat \<Rightarrow> 's \<Rightarrow> 's"
    and elems :: "'s \<Rightarrow> nat list"
  assumes sub_live:
      "alive x \<Longrightarrow> filter alive (elems (sub alive x s)) = index_insert x (filter alive (elems s))"
    and sub_subset: "set (elems (sub alive x s)) \<subseteq> insert x (set (elems s))"
    and sub_distinct: "distinct (elems s) \<Longrightarrow> distinct (elems (sub alive x s))"
    and unsub_elems: "elems (unsub x s) = shift_remove x (elems s)"
begin

lemma live_member_sub:
  assumes "alive x" "alive y"
  shows "y \<in> set (elems (sub alive x s)) \<longleftrightarrow> y = x \<or> y \<in> set (elems s)"
proof -
  have "y \<in> set (elems (sub alive x s)) \<longleftrightarrow> y \<in> set (filter alive (elems (sub alive x s)))"
    using assms by simp
  also have "\<dots> \<longleftrightarrow> y = x \<or> y \<in> set (elems s)"
    using assms by (auto simp: sub_live)
  finally show ?thesis .
qed

lemma member_unsub: "y \<in> set (elems (unsub x s)) \<longleftrightarrow> y \<noteq> x \<and> y \<in> set (elems s)"
  by (auto simp: unsub_elems)

text \<open>A new subscriber is notified after every live one that was there before.\<close>

lemma sub_appends:
  assumes "alive x" "x \<notin> set (elems s)"
  shows "filter alive (elems (sub alive x s)) = filter alive (elems s) @ [x]"
  using assms by (simp add: sub_live index_insert_def)

end

lemma items_reserve_to [simp]: "items (reserve_to grow n s) = items s"
  by (simp add: reserve_to_def)

lemma items_raw_insert [simp]: "items (raw_insert grow x s) = index_insert x (items s)"
  by (simp add: raw_insert_def index_insert_def)

lemma items_subscribe:
  "items (subscribe grow alive x s) =
     index_insert x (if length (items s) = capacity s then filter alive (items s) else items s)"
  by (simp add: subscribe_def Let_def)

lemma filter_index_insert:
  "P x \<Longrightarrow> filter P (index_insert x xs) = index_insert x (filter P xs)"
  by (simp add: index_insert_def)

interpretation subs: ordered_subscribers "subscribe grow" unsubscribe items
  by unfold_locales
    (auto simp: items_subscribe unsubscribe_def filter_index_insert)

subsection \<open>The capacity bounds the number of entries\<close>

definition subscriber_set_wf :: "subscriber_set \<Rightarrow> bool" where
  "subscriber_set_wf s \<longleftrightarrow> distinct (items s) \<and> length (items s) \<le> capacity s"

lemma length_shift_remove_le: "length (shift_remove x xs) \<le> length xs"
  by (simp add: shift_remove_def)

lemma wf_reserve_to:
  "subscriber_set_wf s \<Longrightarrow> (\<And>n. n \<le> grow n) \<Longrightarrow> subscriber_set_wf (reserve_to grow n s)"
  by (auto simp: subscriber_set_wf_def reserve_to_def) (meson nat_le_linear order_trans)

lemma wf_raw_insert:
  assumes "subscriber_set_wf s" "\<And>n. n \<le> grow n"
  shows "subscriber_set_wf (raw_insert grow x s)"
proof (cases "x \<in> set (items s)")
  case False
  have "Suc (length (items s)) \<le> capacity (reserve_to grow (Suc (length (items s))) s)"
    using assms(2) [of "Suc (length (items s))"] by (simp add: reserve_to_def)
  with False assms(1) show ?thesis
    by (auto simp: raw_insert_def subscriber_set_wf_def)
qed (use assms in \<open>simp add: raw_insert_def\<close>)

lemma wf_filter: "subscriber_set_wf s \<Longrightarrow> subscriber_set_wf (s\<lparr>items := filter P (items s)\<rparr>)"
  by (auto simp: subscriber_set_wf_def intro: le_trans [OF length_filter_le])

lemma wf_subscribe:
  assumes "subscriber_set_wf s" "\<And>n. n \<le> grow n"
  shows "subscriber_set_wf (subscribe grow alive x s)"
  using assms by (auto simp: subscribe_def Let_def intro!: wf_raw_insert wf_reserve_to wf_filter)

text \<open>
  While at most \<open>k\<close> subscribers of a set are alive at a time, its capacity stays below
  what one reallocation for \<open>2 * k + 1\<close> entries may give: pruning at the reallocation
  boundary bounds the number of dead entries.
\<close>

lemma capacity_subscribe_le:
  assumes "length (filter alive (items s)) \<le> k" "capacity s \<le> B" "length (items s) \<le> capacity s"
    and "\<And>n. n \<le> Suc (2 * k) \<Longrightarrow> grow n \<le> B"
  shows "capacity (subscribe grow alive x s) \<le> B"
proof (cases "length (items s) = capacity s")
  case True
  have "2 * length (filter alive (items s)) \<le> Suc (2 * k)"
    and "Suc (length (filter alive (items s))) \<le> Suc (2 * k)"
    using assms(1) by auto
  with assms show ?thesis
    by (auto simp: subscribe_def Let_def raw_insert_def reserve_to_def)
next
  case False
  with assms show ?thesis
    by (auto simp: subscribe_def Let_def raw_insert_def reserve_to_def)
qed

text \<open>A history of subscriptions, each made while some set of nodes is alive.\<close>

fun subscribe_all ::
  "(nat \<Rightarrow> nat) \<Rightarrow> ((node_id \<Rightarrow> bool) \<times> node_id) list \<Rightarrow> subscriber_set \<Rightarrow> subscriber_set" where
  "subscribe_all grow [] s = s"
| "subscribe_all grow ((alive, x) # ops) s = subscribe_all grow ops (subscribe grow alive x s)"

lemma subscribe_all_bound:
  assumes "\<And>n. n \<le> grow n" "\<And>n. n \<le> Suc (2 * k) \<Longrightarrow> grow n \<le> B"
    and "subscriber_set_wf s" "capacity s \<le> B"
    and "\<And>alive x xs. (alive, x) \<in> set ops \<Longrightarrow> distinct xs \<Longrightarrow> length (filter alive xs) \<le> k"
  shows "subscriber_set_wf (subscribe_all grow ops s) \<and> capacity (subscribe_all grow ops s) \<le> B"
  using assms(3,4,5)
proof (induction ops arbitrary: s)
  case (Cons op ops)
  obtain alive x where op: "op = (alive, x)" by (cases op)
  have "length (filter alive (items s)) \<le> k"
    using Cons.prems(1) Cons.prems(3) [of alive x "items s"] by (auto simp: op subscriber_set_wf_def)
  then have "capacity (subscribe grow alive x s) \<le> B"
    using capacity_subscribe_le [OF _ Cons.prems(2) _ assms(2)] Cons.prems(1)
    by (auto simp: subscriber_set_wf_def)
  moreover have "subscriber_set_wf (subscribe grow alive x s)"
    using Cons.prems(1) assms(1) by (rule wf_subscribe)
  moreover have "\<And>alive x xs. (alive, x) \<in> set ops \<Longrightarrow> distinct xs \<Longrightarrow> length (filter alive xs) \<le> k"
    using Cons.prems(3) by (meson list.set_intros(2))
  ultimately show ?case
    using Cons.IH by (simp add: op)
qed simp

end
