(* ===== verification/Reactive_Graph.thy ===== *)
theory Reactive_Graph
  imports Graph_Sets
begin

text \<open>
  The reactive graph of \<^verbatim>\<open>src/reactive_graph\<close>: signals, memos and effects as nodes
  of one store, the thread-local observer, and the push-pull update algorithm
  (\<open>mark_dirty\<close>, \<open>mark_check\<close>, \<open>update_if_necessary\<close>).

  A node identifier stands for the address behind an \<open>Arc\<close>; a missing entry is a node
  whose last strong reference is gone, so \<open>Weak::upgrade\<close> fails on it. A user closure is
  a tree of the reads and writes it makes (\<open>comp\<close>), which is all the graph sees of it.
  The recursion follows edges of a graph that may be cyclic, so it carries fuel; theory
  \<open>Reactive_Correct\<close> says how much is enough.
\<close>

subsection \<open>Nodes\<close>

datatype reactive_node_state = Clean | Check | Dirty

primrec state_rank :: "reactive_node_state \<Rightarrow> nat" where
  "state_rank Clean = 0"
| "state_rank Check = 1"
| "state_rank Dirty = 2"

lemma state_rank_inject [simp]: "state_rank a = state_rank b \<longleftrightarrow> a = b"
  by (cases a; cases b) simp_all

instantiation reactive_node_state :: linorder
begin

definition less_eq_reactive_node_state :: "reactive_node_state \<Rightarrow> reactive_node_state \<Rightarrow> bool" where
  "less_eq_reactive_node_state a b \<longleftrightarrow> state_rank a \<le> state_rank b"

definition less_reactive_node_state :: "reactive_node_state \<Rightarrow> reactive_node_state \<Rightarrow> bool" where
  "less_reactive_node_state a b \<longleftrightarrow> state_rank a < state_rank b"

instance
  by standard
    (auto simp: less_eq_reactive_node_state_def less_reactive_node_state_def)

end

text \<open>
  What a closure does to the graph: \<open>Get\<close> is \<open>x.get()\<close>, \<open>GetUntracked\<close> is
  \<open>x.get_untracked()\<close>, \<open>Untrack\<close> is \<open>untrack(|| x.get())\<close>, \<open>Write\<close> is
  \<open>x.set(v)\<close> on a signal, \<open>Ret\<close> the returned value.
\<close>

datatype ('v, 'r) comp =
    Ret 'r
  | Get node_id "'v \<Rightarrow> ('v, 'r) comp"
  | GetUntracked node_id "'v \<Rightarrow> ('v, 'r) comp"
  | Untrack node_id "'v \<Rightarrow> ('v, 'r) comp"
  | Write node_id 'v "('v, 'r) comp"

record 'v memo_inner =
  m_value :: "'v option"
  m_fun :: "'v option \<Rightarrow> ('v, 'v \<times> bool) comp"
  m_state :: reactive_node_state
  m_sources :: source_set
  m_subscribers :: subscriber_set

text \<open>
  An effect is its \<open>EffectInner\<close> (\<open>e_dirty\<close>, the flag of its channel \<open>e_notified\<close>,
  its sources) and the variables captured by its task (the function, the last value,
  \<open>first_run\<close>).
\<close>

record 'v effect_inner =
  e_dirty :: bool
  e_notified :: bool
  e_sources :: source_set
  e_fun :: "'v option \<Rightarrow> ('v, 'v) comp"
  e_value :: "'v option"
  e_first_run :: bool

datatype 'v node =
    SignalNode 'v subscriber_set
  | MemoNode "'v memo_inner"
  | EffectNode "'v effect_inner"

record 'v graph =
  nodes :: "node_id \<Rightarrow> 'v node option"
  observer :: "(node_id \<times> bool) option"
  allocator :: "nat \<Rightarrow> nat"

definition alive :: "'v graph \<Rightarrow> node_id \<Rightarrow> bool" where
  "alive g n \<longleftrightarrow> nodes g n \<noteq> None"

definition set_node :: "node_id \<Rightarrow> 'v node \<Rightarrow> 'v graph \<Rightarrow> 'v graph" where
  "set_node n x g = g\<lparr>nodes := (nodes g)(n \<mapsto> x)\<rparr>"

primrec node_sources :: "'v node \<Rightarrow> source_set" where
  "node_sources (SignalNode v ss) = []"
| "node_sources (MemoNode m) = m_sources m"
| "node_sources (EffectNode e) = e_sources e"

primrec node_subscribers :: "'v node \<Rightarrow> node_id list" where
  "node_subscribers (SignalNode v ss) = items ss"
| "node_subscribers (MemoNode m) = items (m_subscribers m)"
| "node_subscribers (EffectNode e) = []"

definition sources_of :: "'v graph \<Rightarrow> node_id \<Rightarrow> source_set" where
  "sources_of g n = (case nodes g n of None \<Rightarrow> [] | Some x \<Rightarrow> node_sources x)"

definition subscribers_of :: "'v graph \<Rightarrow> node_id \<Rightarrow> node_id list" where
  "subscribers_of g n = (case nodes g n of None \<Rightarrow> [] | Some x \<Rightarrow> node_subscribers x)"

subsection \<open>Creating and dropping nodes\<close>

definition new_signal :: "node_id \<Rightarrow> 'v \<Rightarrow> 'v graph \<Rightarrow> 'v graph" where
  "new_signal n v g = set_node n (SignalNode v subscriber_set_new) g"

definition new_owning :: "node_id \<Rightarrow> ('v option \<Rightarrow> ('v, 'v \<times> bool) comp) \<Rightarrow> 'v graph \<Rightarrow> 'v graph" where
  "new_owning n f g =
     set_node n (MemoNode \<lparr>m_value = None, m_fun = f, m_state = Dirty, m_sources = source_set_new,
                           m_subscribers = subscriber_set_new\<rparr>) g"

definition new_with_compare ::
  "node_id \<Rightarrow> ('v option \<Rightarrow> ('v, 'v) comp) \<Rightarrow> ('v option \<Rightarrow> 'v option \<Rightarrow> bool) \<Rightarrow> 'v graph \<Rightarrow> 'v graph" where
  "new_with_compare n f changed g =
     new_owning n (\<lambda>prev. map_comp (\<lambda>new_value. (new_value, changed prev (Some new_value))) (f prev)) g"

definition new_memo :: "node_id \<Rightarrow> ('v option \<Rightarrow> ('v, 'v) comp) \<Rightarrow> 'v graph \<Rightarrow> 'v graph" where
  "new_memo n f g = new_with_compare n f (\<lambda>lhs rhs. lhs \<noteq> rhs) g"

definition new_effect :: "node_id \<Rightarrow> ('v option \<Rightarrow> ('v, 'v) comp) \<Rightarrow> 'v graph \<Rightarrow> 'v graph" where
  "new_effect n f g =
     set_node n (EffectNode \<lparr>e_dirty = True, e_notified = True, e_sources = source_set_new,
                             e_fun = f, e_value = None, e_first_run = True\<rparr>) g"

definition drop_node :: "node_id \<Rightarrow> 'v graph \<Rightarrow> 'v graph" where
  "drop_node n g = g\<lparr>nodes := (nodes g)(n := None)\<rparr>"

subsection \<open>The observer\<close>

definition observer_get :: "'v graph \<Rightarrow> node_id option" where
  "observer_get g = (case observer g of None \<Rightarrow> None
     | Some (subscriber, untracked) \<Rightarrow> if untracked then None else Some subscriber)"

definition observer_is :: "node_id \<Rightarrow> 'v graph \<Rightarrow> bool" where
  "observer_is n g \<longleftrightarrow> map_option fst (observer g) = Some n"

definition observer_set :: "node_id option \<Rightarrow> 'v graph \<Rightarrow> 'v graph" where
  "observer_set s g = g\<lparr>observer := map_option (\<lambda>n. (n, False)) s\<rparr>"

text \<open>
  The guard \<open>SetObserverOnDrop\<close> returned by \<open>take\<close>, \<open>replace\<close> and
  \<open>replace_untracked\<close> keeps the subscriber of the previous observer only; dropping it
  installs that subscriber with \<open>observer_set\<close>.
\<close>

definition observer_take :: "'v graph \<Rightarrow> node_id option \<times> 'v graph" where
  "observer_take g = (map_option fst (observer g), g\<lparr>observer := None\<rparr>)"

definition observer_replace :: "node_id option \<Rightarrow> 'v graph \<Rightarrow> node_id option \<times> 'v graph" where
  "observer_replace s g =
     (map_option fst (observer g), g\<lparr>observer := map_option (\<lambda>n. (n, False)) s\<rparr>)"

definition observer_replace_untracked ::
  "node_id option \<Rightarrow> 'v graph \<Rightarrow> node_id option \<times> 'v graph" where
  "observer_replace_untracked s g =
     (map_option fst (observer g), g\<lparr>observer := map_option (\<lambda>n. (n, True)) s\<rparr>)"

type_synonym ('v, 'a) action = "'v graph \<Rightarrow> ('a \<times> 'v graph) result"

definition with_observer :: "node_id option \<Rightarrow> ('v, 'a) action \<Rightarrow> ('v, 'a) action" where
  "with_observer s f g =
     (let (prev, g1) = observer_replace s g
      in case f g1 of Inl e \<Rightarrow> Inl e | Inr (a, g2) \<Rightarrow> Inr (a, observer_set prev g2))"

definition with_observer_untracked :: "node_id option \<Rightarrow> ('v, 'a) action \<Rightarrow> ('v, 'a) action" where
  "with_observer_untracked s f g =
     (let (prev, g1) = observer_replace_untracked s g
      in case f g1 of Inl e \<Rightarrow> Inl e | Inr (a, g2) \<Rightarrow> Inr (a, observer_set prev g2))"

definition untrack :: "('v, 'a) action \<Rightarrow> ('v, 'a) action" where
  "untrack f g =
     (let (prev, g1) = observer_take g
      in case f g1 of Inl e \<Rightarrow> Inl e | Inr (a, g2) \<Rightarrow> Inr (a, observer_set prev g2))"

subsection \<open>Edges\<close>

definition add_subscriber :: "node_id \<Rightarrow> node_id \<Rightarrow> 'v graph \<Rightarrow> 'v graph" where
  "add_subscriber source subscriber g =
     (case nodes g source of
        Some (SignalNode v ss) \<Rightarrow>
          set_node source (SignalNode v (subscribe (allocator g) (alive g) subscriber ss)) g
      | Some (MemoNode m) \<Rightarrow>
          set_node source
            (MemoNode (m\<lparr>m_subscribers := subscribe (allocator g) (alive g) subscriber (m_subscribers m)\<rparr>)) g
      | _ \<Rightarrow> g)"

definition remove_subscriber :: "node_id \<Rightarrow> node_id \<Rightarrow> 'v graph \<Rightarrow> 'v graph" where
  "remove_subscriber source subscriber g =
     (case nodes g source of
        Some (SignalNode v ss) \<Rightarrow> set_node source (SignalNode v (unsubscribe subscriber ss)) g
      | Some (MemoNode m) \<Rightarrow>
          set_node source (MemoNode (m\<lparr>m_subscribers := unsubscribe subscriber (m_subscribers m)\<rparr>)) g
      | _ \<Rightarrow> g)"

definition clear_subscribers :: "node_id \<Rightarrow> 'v graph \<Rightarrow> 'v graph" where
  "clear_subscribers source g =
     (case nodes g source of
        Some (SignalNode v ss) \<Rightarrow> set_node source (SignalNode v (snd (subscriber_set_take ss))) g
      | Some (MemoNode m) \<Rightarrow>
          set_node source (MemoNode (m\<lparr>m_subscribers := snd (subscriber_set_take (m_subscribers m))\<rparr>)) g
      | _ \<Rightarrow> g)"

definition add_source :: "node_id \<Rightarrow> node_id \<Rightarrow> 'v graph \<Rightarrow> 'v graph" where
  "add_source subscriber source g =
     (case nodes g subscriber of
        Some (MemoNode m) \<Rightarrow>
          set_node subscriber (MemoNode (m\<lparr>m_sources := source_set_insert source (m_sources m)\<rparr>)) g
      | Some (EffectNode e) \<Rightarrow>
          set_node subscriber (EffectNode (e\<lparr>e_sources := source_set_insert source (e_sources e)\<rparr>)) g
      | _ \<Rightarrow> g)"

text \<open>\<open>SourceSet::clear_sources\<close>: the set is taken, then each source forgets the subscriber.\<close>

definition take_sources :: "node_id \<Rightarrow> 'v graph \<Rightarrow> source_set \<times> 'v graph" where
  "take_sources subscriber g =
     (case nodes g subscriber of
        Some (MemoNode m) \<Rightarrow>
          (let (old, new) = source_set_take (m_sources m)
           in (old, set_node subscriber (MemoNode (m\<lparr>m_sources := new\<rparr>)) g))
      | Some (EffectNode e) \<Rightarrow>
          (let (old, new) = source_set_take (e_sources e)
           in (old, set_node subscriber (EffectNode (e\<lparr>e_sources := new\<rparr>)) g))
      | _ \<Rightarrow> ([], g))"

definition clear_sources :: "node_id \<Rightarrow> 'v graph \<Rightarrow> 'v graph" where
  "clear_sources subscriber g =
     (let (old, g1) = take_sources subscriber g
      in fold (\<lambda>source. remove_subscriber source subscriber) old g1)"

definition track :: "node_id \<Rightarrow> 'v graph \<Rightarrow> 'v graph" where
  "track n g =
     (if \<not> alive g n then g
      else case observer_get g of
             None \<Rightarrow> g
           | Some subscriber \<Rightarrow> add_subscriber n subscriber (add_source subscriber n g))"

subsection \<open>Marking\<close>

text \<open>\<open>mark_check\<close> on a type-erased subscriber.\<close>

fun mark_check :: "nat \<Rightarrow> node_id \<Rightarrow> 'v graph \<Rightarrow> 'v graph result" where
  "mark_check 0 n g = Inl OutOfFuel"
| "mark_check (Suc k) n g =
     (case nodes g n of
        Some (MemoNode m) \<Rightarrow>
          foreach (mark_check k) (items (m_subscribers m))
            (set_node n (MemoNode (if m_state m \<noteq> Dirty then m\<lparr>m_state := Check\<rparr> else m)) g)
      | Some (EffectNode e) \<Rightarrow> Inr (set_node n (EffectNode (e\<lparr>e_notified := True\<rparr>)) g)
      | _ \<Rightarrow> Inr g)"

text \<open>\<open>mark_dirty\<close> on a type-erased subscriber.\<close>

definition mark_dirty :: "nat \<Rightarrow> node_id \<Rightarrow> 'v graph \<Rightarrow> 'v graph result" where
  "mark_dirty k n g =
     (case nodes g n of
        Some (MemoNode m) \<Rightarrow>
          foreach (mark_check k) (items (m_subscribers m))
            (set_node n (MemoNode (m\<lparr>m_state := Dirty\<rparr>)) g)
      | Some (EffectNode e) \<Rightarrow>
          Inr (set_node n (EffectNode (e\<lparr>e_dirty := True, e_notified := True\<rparr>)) g)
      | _ \<Rightarrow> Inr g)"

text \<open>\<open>mark_subscribers_check\<close>: a signal marks its subscribers dirty, a memo marks them check.\<close>

definition mark_subscribers_check :: "nat \<Rightarrow> node_id \<Rightarrow> 'v graph \<Rightarrow> 'v graph result" where
  "mark_subscribers_check k n g =
     (case nodes g n of
        Some (SignalNode v ss) \<Rightarrow> foreach (mark_dirty k) (items ss) g
      | Some (MemoNode m) \<Rightarrow> foreach (mark_check k) (items (m_subscribers m)) g
      | _ \<Rightarrow> Inr g)"

text \<open>\<open>Notify::notify\<close> of a signal is its \<open>mark_dirty\<close>, which is \<open>mark_subscribers_check\<close>.\<close>

definition notify :: "nat \<Rightarrow> node_id \<Rightarrow> 'v graph \<Rightarrow> 'v graph result" where
  "notify k n g = mark_subscribers_check k n g"

text \<open>
  \<open>set\<close> writes through a guard whose drop notifies; \<open>maybe_update\<close> untracks it on
  \<open>false\<close>. On a disposed signal there is no guard and nothing happens.
\<close>

definition maybe_update :: "nat \<Rightarrow> node_id \<Rightarrow> ('v \<Rightarrow> bool \<times> 'v) \<Rightarrow> 'v graph \<Rightarrow> 'v graph result" where
  "maybe_update k n f g =
     (case nodes g n of
        Some (SignalNode v ss) \<Rightarrow>
          (let (did_update, v') = f v; g' = set_node n (SignalNode v' ss) g
           in if did_update then notify k n g' else Inr g')
      | _ \<Rightarrow> Inr g)"

definition set_signal :: "nat \<Rightarrow> node_id \<Rightarrow> 'v \<Rightarrow> 'v graph \<Rightarrow> 'v graph result" where
  "set_signal k n v = maybe_update k n (\<lambda>_. (True, v))"

subsection \<open>Reading and running closures\<close>

definition memo_value :: "'v graph \<Rightarrow> node_id \<Rightarrow> 'v option" where
  "memo_value g n = (case nodes g n of Some (MemoNode m) \<Rightarrow> m_value m | _ \<Rightarrow> None)"

definition read_untracked :: "(node_id \<Rightarrow> ('v, bool) action) \<Rightarrow> node_id \<Rightarrow> ('v, 'v) action" where
  "read_untracked upd n g =
     (case nodes g n of
        Some (SignalNode v ss) \<Rightarrow> Inr (v, g)
      | Some (MemoNode m) \<Rightarrow>
          (case upd n g of
             Inl e \<Rightarrow> Inl e
           | Inr (changed, g') \<Rightarrow>
               (case memo_value g' n of None \<Rightarrow> Inl Panic | Some v \<Rightarrow> Inr (v, g')))
      | _ \<Rightarrow> Inl Panic)"

definition read_tracked :: "(node_id \<Rightarrow> ('v, bool) action) \<Rightarrow> node_id \<Rightarrow> ('v, 'v) action" where
  "read_tracked upd n g = read_untracked upd n (track n g)"

primrec run_comp ::
  "(node_id \<Rightarrow> ('v, bool) action) \<Rightarrow> (node_id \<Rightarrow> 'v \<Rightarrow> 'v graph \<Rightarrow> 'v graph result)
    \<Rightarrow> ('v, 'r) comp \<Rightarrow> ('v, 'r) action" where
  "run_comp upd wr (Ret r) = (\<lambda>g. Inr (r, g))"
| "run_comp upd wr (Get n c) = (\<lambda>g.
     case read_tracked upd n g of Inl e \<Rightarrow> Inl e | Inr (v, g') \<Rightarrow> run_comp upd wr (c v) g')"
| "run_comp upd wr (GetUntracked n c) = (\<lambda>g.
     case read_untracked upd n g of Inl e \<Rightarrow> Inl e | Inr (v, g') \<Rightarrow> run_comp upd wr (c v) g')"
| "run_comp upd wr (Untrack n c) = (\<lambda>g.
     case untrack (read_tracked upd n) g of Inl e \<Rightarrow> Inl e | Inr (v, g') \<Rightarrow> run_comp upd wr (c v) g')"
| "run_comp upd wr (Write n v c) = (\<lambda>g.
     case wr n v g of Inl e \<Rightarrow> Inl e | Inr g' \<Rightarrow> run_comp upd wr c g')"

subsection \<open>Updating\<close>

text \<open>
  \<open>sources.into_iter().any(|s| s.update_if_necessary() || ..)\<close>: the second disjunct of
  a memo re-reads its own state, an effect has none.
\<close>

primrec any_source ::
  "(node_id \<Rightarrow> ('v, bool) action) \<Rightarrow> ('v graph \<Rightarrow> bool) \<Rightarrow> node_id list \<Rightarrow> ('v, bool) action" where
  "any_source upd became_dirty [] = (\<lambda>g. Inr (False, g))"
| "any_source upd became_dirty (s # ss) = (\<lambda>g.
     case upd s g of
       Inl e \<Rightarrow> Inl e
     | Inr (changed, g') \<Rightarrow>
         if changed \<or> became_dirty g' then Inr (True, g')
         else any_source upd became_dirty ss g')"

definition memo_state :: "'v graph \<Rightarrow> node_id \<Rightarrow> reactive_node_state" where
  "memo_state g n = (case nodes g n of Some (MemoNode m) \<Rightarrow> m_state m | _ \<Rightarrow> Clean)"

definition needs_update :: "(node_id \<Rightarrow> ('v, bool) action) \<Rightarrow> node_id \<Rightarrow> 'v memo_inner \<Rightarrow> ('v, bool) action" where
  "needs_update upd n m g =
     (case m_state m of
        Clean \<Rightarrow> Inr (False, g)
      | Dirty \<Rightarrow> Inr (True, g)
      | Check \<Rightarrow> any_source upd (\<lambda>g'. memo_state g' n = Dirty) (m_sources m) g)"

definition upd_memo :: "node_id \<Rightarrow> ('v memo_inner \<Rightarrow> 'v memo_inner) \<Rightarrow> 'v graph \<Rightarrow> 'v graph" where
  "upd_memo n f g =
     (case nodes g n of Some (MemoNode m) \<Rightarrow> set_node n (MemoNode (f m)) g | _ \<Rightarrow> g)"

text \<open>Subscribers other than the current observer are marked dirty after a change.\<close>

definition notify_changed :: "nat \<Rightarrow> node_id \<Rightarrow> 'v graph \<Rightarrow> 'v graph result" where
  "notify_changed k n g =
     foreach (\<lambda>sub g. if observer_is sub g then Inr g else mark_dirty k sub g) (subscribers_of g n) g"

definition recompute ::
  "nat \<Rightarrow> (node_id \<Rightarrow> ('v, bool) action) \<Rightarrow> node_id \<Rightarrow> 'v memo_inner \<Rightarrow> ('v, bool) action" where
  "recompute k upd n m g =
     (let g1 = upd_memo n (\<lambda>m. m\<lparr>m_value := None\<rparr>) g;
          g2 = clear_sources n g1
      in case with_observer (Some n) (run_comp upd (set_signal k) (m_fun m (m_value m))) g2 of
           Inl e \<Rightarrow> Inl e
         | Inr ((new_value, changed), g3) \<Rightarrow>
             (let g4 = upd_memo n (\<lambda>m. m\<lparr>m_value := Some new_value, m_state := Clean\<rparr>) g3
              in if changed
                 then (case notify_changed k n g4 of Inl e \<Rightarrow> Inl e | Inr g5 \<Rightarrow> Inr (True, g5))
                 else Inr (False, g4)))"

fun update_if_necessary :: "nat \<Rightarrow> node_id \<Rightarrow> ('v, bool) action" where
  "update_if_necessary 0 n g = Inl OutOfFuel"
| "update_if_necessary (Suc k) n g =
     (case nodes g n of
        Some (MemoNode m) \<Rightarrow>
          (case needs_update (update_if_necessary k) n m g of
             Inl e \<Rightarrow> Inl e
           | Inr (needed, g') \<Rightarrow>
               if needed
               then (case nodes g' n of
                       Some (MemoNode m') \<Rightarrow> recompute k (update_if_necessary k) n m' g'
                     | _ \<Rightarrow> Inr (False, g'))
               else Inr (False, upd_memo n (\<lambda>m. m\<lparr>m_state := Clean\<rparr>) g'))
      | Some (EffectNode e) \<Rightarrow>
          if e_dirty e then Inr (True, set_node n (EffectNode (e\<lparr>e_dirty := False\<rparr>)) g)
          else any_source (update_if_necessary k) (\<lambda>_. False) (e_sources e) g
      | _ \<Rightarrow> Inr (False, g))"

text \<open>\<open>get\<close> and \<open>get_untracked\<close> from outside a closure.\<close>

definition get_value :: "nat \<Rightarrow> node_id \<Rightarrow> ('v, 'v) action" where
  "get_value k = read_tracked (update_if_necessary k)"

definition get_value_untracked :: "nat \<Rightarrow> node_id \<Rightarrow> ('v, 'v) action" where
  "get_value_untracked k = read_untracked (update_if_necessary k)"

subsection \<open>Running effects\<close>

definition upd_effect :: "node_id \<Rightarrow> ('v effect_inner \<Rightarrow> 'v effect_inner) \<Rightarrow> 'v graph \<Rightarrow> 'v graph" where
  "upd_effect n f g =
     (case nodes g n of Some (EffectNode e) \<Rightarrow> set_node n (EffectNode (f e)) g | _ \<Rightarrow> g)"

definition run_effect :: "nat \<Rightarrow> node_id \<Rightarrow> 'v effect_inner \<Rightarrow> 'v graph \<Rightarrow> 'v graph result" where
  "run_effect k n e g =
     (let g1 = upd_effect n (\<lambda>e. e\<lparr>e_first_run := False\<rparr>) g;
          g2 = upd_effect n (\<lambda>e. e\<lparr>e_value := None\<rparr>) (clear_sources n g1)
      in case with_observer (Some n)
                (run_comp (update_if_necessary k) (set_signal k) (e_fun e (e_value e))) g2 of
           Inl x \<Rightarrow> Inl x
         | Inr (new_value, g3) \<Rightarrow> Inr (upd_effect n (\<lambda>e. e\<lparr>e_value := Some new_value\<rparr>) g3))"

text \<open>
  One turn of the task of an effect: the channel yields when its flag is set (and clears
  it), then the body runs unless the owner is paused. A pending channel leaves the graph
  as it is.
\<close>

definition poll_effect :: "nat \<Rightarrow> bool \<Rightarrow> node_id \<Rightarrow> 'v graph \<Rightarrow> 'v graph result" where
  "poll_effect k paused n g =
     (case nodes g n of
        Some (EffectNode e) \<Rightarrow>
          if \<not> e_notified e then Inr g
          else let g0 = set_node n (EffectNode (e\<lparr>e_notified := False\<rparr>)) g
               in if paused then Inr g0
                  else (case with_observer (Some n) (update_if_necessary k n) g0 of
                          Inl x \<Rightarrow> Inl x
                        | Inr (changed, g1) \<Rightarrow>
                            (case nodes g1 n of
                               Some (EffectNode e1) \<Rightarrow>
                                 if changed \<or> e_first_run e1 then run_effect k n e1 g1 else Inr g1
                             | _ \<Rightarrow> Inr g1))
      | _ \<Rightarrow> Inr g)"

end
