(* ===== verification/Reactive_Frame.thy ===== *)
theory Reactive_Frame
  imports Reactive_Graph
begin

text \<open>
  Projections of the reactive graph and what each elementary operation does to them.
  The correctness proofs look at a graph only through these projections: the shape of a
  node (its kind and what no edge operation changes), its edges, the cached value and the
  state of a memo, the flags of an effect.
\<close>

subsection \<open>Projections\<close>

datatype 'v shape =
    SSignal 'v
  | SMemo "'v option \<Rightarrow> ('v, 'v \<times> bool) comp"
  | SEffect "'v option \<Rightarrow> ('v, 'v) comp" "'v option" bool

primrec node_shape :: "'v node \<Rightarrow> 'v shape" where
  "node_shape (SignalNode v ss) = SSignal v"
| "node_shape (MemoNode m) = SMemo (m_fun m)"
| "node_shape (EffectNode e) = SEffect (e_fun e) (e_value e) (e_first_run e)"

definition shape :: "'v graph \<Rightarrow> node_id \<Rightarrow> 'v shape option" where
  "shape g n = map_option node_shape (nodes g n)"

definition is_memo :: "'v graph \<Rightarrow> node_id \<Rightarrow> bool" where
  "is_memo g n \<longleftrightarrow> (\<exists>f. shape g n = Some (SMemo f))"

definition is_effect :: "'v graph \<Rightarrow> node_id \<Rightarrow> bool" where
  "is_effect g n \<longleftrightarrow> (\<exists>f v b. shape g n = Some (SEffect f v b))"

definition readable :: "'v graph \<Rightarrow> node_id \<Rightarrow> bool" where
  "readable g n \<longleftrightarrow> is_memo g n \<or> (\<exists>v. shape g n = Some (SSignal v))"

definition cached :: "'v graph \<Rightarrow> node_id \<Rightarrow> 'v option" where
  "cached g n = (case shape g n of Some (SSignal v) \<Rightarrow> Some v | _ \<Rightarrow> memo_value g n)"

definition clean :: "'v graph \<Rightarrow> node_id \<Rightarrow> bool" where
  "clean g n \<longleftrightarrow> readable g n \<and> memo_state g n = Clean"

definition dirty_of :: "'v graph \<Rightarrow> node_id \<Rightarrow> bool" where
  "dirty_of g n \<longleftrightarrow> (case nodes g n of Some (EffectNode e) \<Rightarrow> e_dirty e | _ \<Rightarrow> False)"

definition notified_of :: "'v graph \<Rightarrow> node_id \<Rightarrow> bool" where
  "notified_of g n \<longleftrightarrow> (case nodes g n of Some (EffectNode e) \<Rightarrow> e_notified e | _ \<Rightarrow> False)"

lemmas projection_defs =
  shape_def sources_of_def subscribers_of_def memo_value_def memo_state_def dirty_of_def notified_of_def

lemma nodes_set_node [simp]:
  "nodes (set_node n x g) = (nodes g)(n \<mapsto> x)"
  "observer (set_node n x g) = observer g"
  "allocator (set_node n x g) = allocator g"
  by (simp_all add: set_node_def)

lemma alive_shape: "alive g n \<longleftrightarrow> shape g n \<noteq> None"
  by (simp add: alive_def shape_def)

lemma is_memo_nodes: "is_memo g n \<longleftrightarrow> (\<exists>m. nodes g n = Some (MemoNode m))"
proof -
  have "node_shape x = SMemo f \<longleftrightarrow> (\<exists>m. x = MemoNode m \<and> f = m_fun m)" for x :: "'a node" and f
    by (cases x) auto
  then show ?thesis by (auto simp: is_memo_def shape_def)
qed

lemma is_effect_nodes: "is_effect g n \<longleftrightarrow> (\<exists>e. nodes g n = Some (EffectNode e))"
proof -
  have "node_shape x = SEffect f v b \<longleftrightarrow>
      (\<exists>e. x = EffectNode e \<and> f = e_fun e \<and> v = e_value e \<and> b = e_first_run e)"
    for x :: "'a node" and f v b
    by (cases x) auto
  then show ?thesis by (auto simp: is_effect_def shape_def)
qed

lemma node_cases:
  obtains (dead) "nodes g n = None"
  | (signal) v ss where "nodes g n = Some (SignalNode v ss)"
  | (memo) m where "nodes g n = Some (MemoNode m)"
  | (effect) e where "nodes g n = Some (EffectNode e)"
  by (metis node.exhaust not_Some_eq)

lemma signal_nodes: "shape g n = Some (SSignal v) \<longleftrightarrow> (\<exists>ss. nodes g n = Some (SignalNode v ss))"
  by (cases g n rule: node_cases) (auto simp: shape_def)

lemma not_memo_Clean [simp]: "\<not> is_memo g n \<Longrightarrow> memo_state g n = Clean"
  by (cases g n rule: node_cases) (auto simp: is_memo_nodes memo_state_def)

lemma subscribers_readable: "y \<in> set (subscribers_of g x) \<Longrightarrow> readable g x"
  by (cases g x rule: node_cases)
    (auto simp: subscribers_of_def readable_def is_memo_nodes signal_nodes)

lemma readable_alive: "readable g n \<Longrightarrow> alive g n"
  by (auto simp: readable_def is_memo_def alive_shape)

lemma memo_readable [intro]: "is_memo g n \<Longrightarrow> readable g n"
  by (simp add: readable_def)

lemma effect_not_memo: "is_effect g n \<Longrightarrow> \<not> is_memo g n"
  by (auto simp: is_effect_def is_memo_def)

subsection \<open>Writing one node\<close>

lemma upd_memo_set_node:
  "nodes g n = Some (MemoNode m) \<Longrightarrow> upd_memo n f g = set_node n (MemoNode (f m)) g"
  by (simp add: upd_memo_def)

lemma upd_memo_state [frame_simps]:
  "shape (upd_memo n (\<lambda>m. m\<lparr>m_state := f m\<rparr>) g) = shape g"
  "sources_of (upd_memo n (\<lambda>m. m\<lparr>m_state := f m\<rparr>) g) = sources_of g"
  "subscribers_of (upd_memo n (\<lambda>m. m\<lparr>m_state := f m\<rparr>) g) = subscribers_of g"
  "memo_value (upd_memo n (\<lambda>m. m\<lparr>m_state := f m\<rparr>) g) = memo_value g"
  "dirty_of (upd_memo n (\<lambda>m. m\<lparr>m_state := f m\<rparr>) g) = dirty_of g"
  "notified_of (upd_memo n (\<lambda>m. m\<lparr>m_state := f m\<rparr>) g) = notified_of g"
  by (auto simp: upd_memo_def projection_defs fun_eq_iff split: option.splits node.splits)

lemma upd_memo_value [frame_simps]:
  "shape (upd_memo n (\<lambda>m. m\<lparr>m_value := f m\<rparr>) g) = shape g"
  "sources_of (upd_memo n (\<lambda>m. m\<lparr>m_value := f m\<rparr>) g) = sources_of g"
  "subscribers_of (upd_memo n (\<lambda>m. m\<lparr>m_value := f m\<rparr>) g) = subscribers_of g"
  "memo_state (upd_memo n (\<lambda>m. m\<lparr>m_value := f m\<rparr>) g) = memo_state g"
  "dirty_of (upd_memo n (\<lambda>m. m\<lparr>m_value := f m\<rparr>) g) = dirty_of g"
  "notified_of (upd_memo n (\<lambda>m. m\<lparr>m_value := f m\<rparr>) g) = notified_of g"
  by (auto simp: upd_memo_def projection_defs fun_eq_iff split: option.splits node.splits)

lemma upd_memo_value_state [frame_simps]:
  "shape (upd_memo n (\<lambda>m. m\<lparr>m_value := u, m_state := s\<rparr>) g) = shape g"
  "sources_of (upd_memo n (\<lambda>m. m\<lparr>m_value := u, m_state := s\<rparr>) g) = sources_of g"
  "subscribers_of (upd_memo n (\<lambda>m. m\<lparr>m_value := u, m_state := s\<rparr>) g) = subscribers_of g"
  "dirty_of (upd_memo n (\<lambda>m. m\<lparr>m_value := u, m_state := s\<rparr>) g) = dirty_of g"
  "notified_of (upd_memo n (\<lambda>m. m\<lparr>m_value := u, m_state := s\<rparr>) g) = notified_of g"
  by (auto simp: upd_memo_def projection_defs fun_eq_iff split: option.splits node.splits)

lemma upd_memo_globals [frame_simps]:
  "observer (upd_memo n f g) = observer g" "allocator (upd_memo n f g) = allocator g"
  by (auto simp: upd_memo_def split: option.splits node.splits)

lemma memo_state_upd_memo:
  "is_memo g n \<Longrightarrow> memo_state (upd_memo n (\<lambda>m. m\<lparr>m_state := s\<rparr>) g) = (memo_state g)(n := s)"
  "is_memo g n \<Longrightarrow>
     memo_state (upd_memo n (\<lambda>m. m\<lparr>m_value := u, m_state := s\<rparr>) g) = (memo_state g)(n := s)"
  by (auto simp: upd_memo_def memo_state_def is_memo_nodes fun_eq_iff)

lemma memo_value_upd_memo:
  "is_memo g n \<Longrightarrow> memo_value (upd_memo n (\<lambda>m. m\<lparr>m_value := u\<rparr>) g) = (memo_value g)(n := u)"
  "is_memo g n \<Longrightarrow>
     memo_value (upd_memo n (\<lambda>m. m\<lparr>m_value := u, m_state := s\<rparr>) g) = (memo_value g)(n := u)"
  by (auto simp: upd_memo_def memo_value_def is_memo_nodes fun_eq_iff)

text \<open>Predicates that depend on the shape only.\<close>

lemma shape_cong:
  "shape g' = shape g \<Longrightarrow> is_memo g' = is_memo g"
  "shape g' = shape g \<Longrightarrow> is_effect g' = is_effect g"
  "shape g' = shape g \<Longrightarrow> readable g' = readable g"
  "shape g' = shape g \<Longrightarrow> alive g' = alive g"
  by (auto simp: is_memo_def is_effect_def readable_def alive_shape fun_eq_iff)

lemma cached_cong:
  "shape g' n = shape g n \<Longrightarrow> memo_value g' n = memo_value g n \<Longrightarrow> cached g' n = cached g n"
  by (simp add: cached_def split: option.split shape.split)

lemma cached_memo: "is_memo g n \<Longrightarrow> cached g n = memo_value g n"
  by (auto simp: cached_def is_memo_def)

subsection \<open>Writing edges\<close>

lemma add_source_frame [frame_simps]:
  "shape (add_source x s g) = shape g"
  "subscribers_of (add_source x s g) = subscribers_of g"
  "memo_value (add_source x s g) = memo_value g"
  "memo_state (add_source x s g) = memo_state g"
  "dirty_of (add_source x s g) = dirty_of g"
  "notified_of (add_source x s g) = notified_of g"
  "observer (add_source x s g) = observer g"
  "allocator (add_source x s g) = allocator g"
  by (auto simp: add_source_def projection_defs fun_eq_iff split: option.splits node.splits)

lemma sources_add_source:
  "is_memo g x \<or> is_effect g x \<Longrightarrow>
     sources_of (add_source x s g) = (sources_of g)(x := index_insert s (sources_of g x))"
  by (auto simp: add_source_def sources_of_def is_memo_nodes is_effect_nodes source_set_insert_def
      fun_eq_iff)

lemma add_subscriber_frame [frame_simps]:
  "shape (add_subscriber s x g) = shape g"
  "sources_of (add_subscriber s x g) = sources_of g"
  "memo_value (add_subscriber s x g) = memo_value g"
  "memo_state (add_subscriber s x g) = memo_state g"
  "dirty_of (add_subscriber s x g) = dirty_of g"
  "notified_of (add_subscriber s x g) = notified_of g"
  "observer (add_subscriber s x g) = observer g"
  "allocator (add_subscriber s x g) = allocator g"
  by (auto simp: add_subscriber_def projection_defs fun_eq_iff split: option.splits node.splits)

lemma subscribers_add_subscriber_other:
  "t \<noteq> s \<Longrightarrow> subscribers_of (add_subscriber s x g) t = subscribers_of g t"
  by (cases g s rule: node_cases) (auto simp: add_subscriber_def subscribers_of_def)

lemma subscribers_add_subscriber_same:
  "readable g s \<Longrightarrow> \<exists>ss. subscribers_of g s = items ss \<and>
     subscribers_of (add_subscriber s x g) s = items (subscribe (allocator g) (alive g) x ss)"
  by (cases g s rule: node_cases)
    (auto simp: add_subscriber_def subscribers_of_def readable_def is_memo_nodes signal_nodes)

lemma subscribers_add_subscriber_subset:
  "set (subscribers_of (add_subscriber s x g) t) \<subseteq> insert x (set (subscribers_of g t))"
proof (cases "t = s \<and> readable g s")
  case True
  then show ?thesis
    using subscribers_add_subscriber_same [of g s x] subs.sub_subset by metis
next
  case False
  moreover have "subscribers_of (add_subscriber s x g) s = subscribers_of g s" if "\<not> readable g s"
    using that by (cases g s rule: node_cases)
      (auto simp: add_subscriber_def readable_def is_memo_nodes signal_nodes)
  ultimately show ?thesis
    by (cases "t = s") (auto simp: subscribers_add_subscriber_other)
qed

text \<open>Adding a live subscriber adds exactly it, as far as live subscribers go.\<close>

lemma subscribers_add_subscriber:
  assumes "readable g s" "alive g x" "alive g y"
  shows "y \<in> set (subscribers_of (add_subscriber s x g) t) \<longleftrightarrow>
    (t = s \<and> y = x) \<or> y \<in> set (subscribers_of g t)"
proof (cases "t = s")
  case True
  then show ?thesis
    using subscribers_add_subscriber_same [OF assms(1), of x] assms(2,3)
    by (auto simp: subs.live_member_sub)
next
  case False
  then show ?thesis
    by (simp add: subscribers_add_subscriber_other)
qed

lemma remove_subscriber_frame [frame_simps]:
  "shape (remove_subscriber s x g) = shape g"
  "sources_of (remove_subscriber s x g) = sources_of g"
  "memo_value (remove_subscriber s x g) = memo_value g"
  "memo_state (remove_subscriber s x g) = memo_state g"
  "dirty_of (remove_subscriber s x g) = dirty_of g"
  "notified_of (remove_subscriber s x g) = notified_of g"
  "observer (remove_subscriber s x g) = observer g"
  "allocator (remove_subscriber s x g) = allocator g"
  by (auto simp: remove_subscriber_def projection_defs fun_eq_iff split: option.splits node.splits)

lemma subscribers_remove_subscriber_eq:
  "subscribers_of (remove_subscriber s x g) t =
     (if t = s then shift_remove x (subscribers_of g t) else subscribers_of g t)"
  by (cases g s rule: node_cases)
    (auto simp: remove_subscriber_def subscribers_of_def unsubscribe_def shift_remove_def)

lemma subscribers_remove_subscriber:
  "y \<in> set (subscribers_of (remove_subscriber s x g) t) \<longleftrightarrow>
     y \<in> set (subscribers_of g t) \<and> \<not> (t = s \<and> y = x)"
  by (auto simp: subscribers_remove_subscriber_eq)

lemma fold_frame: "(\<And>s g. f (h s g) = f g) \<Longrightarrow> f (fold h ss g) = f g"
  by (induction ss arbitrary: g) auto

lemma fold_remove_subscriber_frame [frame_simps]:
  "shape (fold (\<lambda>s. remove_subscriber s x) ss g) = shape g"
  "sources_of (fold (\<lambda>s. remove_subscriber s x) ss g) = sources_of g"
  "memo_value (fold (\<lambda>s. remove_subscriber s x) ss g) = memo_value g"
  "memo_state (fold (\<lambda>s. remove_subscriber s x) ss g) = memo_state g"
  "dirty_of (fold (\<lambda>s. remove_subscriber s x) ss g) = dirty_of g"
  "notified_of (fold (\<lambda>s. remove_subscriber s x) ss g) = notified_of g"
  "observer (fold (\<lambda>s. remove_subscriber s x) ss g) = observer g"
  "allocator (fold (\<lambda>s. remove_subscriber s x) ss g) = allocator g"
  by (rule fold_frame; simp add: frame_simps)+

lemma subscribers_fold_remove:
  "y \<in> set (subscribers_of (fold (\<lambda>s. remove_subscriber s x) ss g) t) \<longleftrightarrow>
     y \<in> set (subscribers_of g t) \<and> \<not> (t \<in> set ss \<and> y = x)"
  by (induction ss arbitrary: g) (auto simp: subscribers_remove_subscriber)

lemma take_sources_frame [frame_simps]:
  "shape (snd (take_sources x g)) = shape g"
  "subscribers_of (snd (take_sources x g)) = subscribers_of g"
  "memo_value (snd (take_sources x g)) = memo_value g"
  "memo_state (snd (take_sources x g)) = memo_state g"
  "dirty_of (snd (take_sources x g)) = dirty_of g"
  "notified_of (snd (take_sources x g)) = notified_of g"
  "observer (snd (take_sources x g)) = observer g"
  "allocator (snd (take_sources x g)) = allocator g"
  by (auto simp: take_sources_def projection_defs source_set_take_def fun_eq_iff
      split: option.splits node.splits)

lemma take_sources_result:
  "fst (take_sources x g) = sources_of g x"
  "sources_of (snd (take_sources x g)) = (sources_of g)(x := [])"
  by (auto simp: take_sources_def sources_of_def source_set_take_def fun_eq_iff
      split: option.splits node.splits)

lemma clear_sources_frame [frame_simps]:
  "shape (clear_sources x g) = shape g"
  "memo_value (clear_sources x g) = memo_value g"
  "memo_state (clear_sources x g) = memo_state g"
  "dirty_of (clear_sources x g) = dirty_of g"
  "notified_of (clear_sources x g) = notified_of g"
  "observer (clear_sources x g) = observer g"
  "allocator (clear_sources x g) = allocator g"
  by (simp_all add: clear_sources_def case_prod_beta frame_simps)

lemma sources_clear_sources [simp]: "sources_of (clear_sources x g) = (sources_of g)(x := [])"
  by (simp add: clear_sources_def case_prod_beta frame_simps take_sources_result)

lemma subscribers_clear_sources:
  "y \<in> set (subscribers_of (clear_sources x g) t) \<longleftrightarrow>
     y \<in> set (subscribers_of g t) \<and> \<not> (t \<in> set (sources_of g x) \<and> y = x)"
  by (simp add: clear_sources_def case_prod_beta frame_simps take_sources_result subscribers_fold_remove)

end
