(* ===== verification/Reactive_Mark.thy ===== *)
theory Reactive_Mark
  imports Reactive_Frame
begin

text \<open>
  What \<open>mark_check\<close>, \<open>mark_dirty\<close> and \<open>notify\<close> do: they only raise states and set flags,
  they return whenever the subscription edges lead from earlier to later nodes, and
  everything downstream of a node they raise is raised too.
\<close>

subsection \<open>Raising states\<close>

definition marks :: "'v graph \<Rightarrow> 'v graph \<Rightarrow> bool" where
  "marks g g' \<longleftrightarrow>
     shape g' = shape g \<and> sources_of g' = sources_of g \<and> subscribers_of g' = subscribers_of g \<and>
     memo_value g' = memo_value g \<and> observer g' = observer g \<and> allocator g' = allocator g \<and>
     (\<forall>x. memo_state g x \<le> memo_state g' x) \<and>
     (\<forall>x. dirty_of g x \<longrightarrow> dirty_of g' x) \<and> (\<forall>x. notified_of g x \<longrightarrow> notified_of g' x)"

definition stale :: "'v graph \<Rightarrow> node_id \<Rightarrow> bool" where
  "stale g x \<longleftrightarrow> memo_state g x \<noteq> Clean"

definition downclosed :: "'v graph \<Rightarrow> bool" where
  "downclosed g \<longleftrightarrow>
     (\<forall>x y. stale g x \<and> y \<in> set (subscribers_of g x) \<and> is_memo g y \<longrightarrow> stale g y)"

text \<open>\<open>reaches S g g'\<close>: marking the nodes of \<open>S\<close> in \<open>g\<close> gives \<open>g'\<close>.\<close>

definition reaches :: "node_id set \<Rightarrow> 'v graph \<Rightarrow> 'v graph \<Rightarrow> bool" where
  "reaches S g g' \<longleftrightarrow> marks g g' \<and>
     (\<forall>n\<in>S. (is_memo g n \<longrightarrow> stale g' n) \<and> (is_effect g n \<longrightarrow> notified_of g' n)) \<and>
     (\<forall>x y. is_memo g x \<and> (x \<in> S \<or> \<not> stale g x \<and> stale g' x) \<and>
        y \<in> set (subscribers_of g x) \<and> is_memo g y \<longrightarrow> stale g' y) \<and>
     (downclosed g \<and> (\<forall>n\<in>S. is_memo g n \<longrightarrow> stale g n) \<longrightarrow> (\<forall>x. stale g' x \<longrightarrow> stale g x))"

definition forward :: "'v graph \<Rightarrow> nat \<Rightarrow> bool" where
  "forward g K \<longleftrightarrow> (\<forall>x. alive g x \<longrightarrow> x < K) \<and>
     (\<forall>x y. y \<in> set (subscribers_of g x) \<and> alive g y \<longrightarrow> x < y)"

lemma Clean_le [simp]: "Clean \<le> s" "s \<le> Dirty"
  by (cases s; simp add: less_eq_reactive_node_state_def)+

lemma le_Clean [simp]: "s \<le> Clean \<longleftrightarrow> s = Clean"
  by (cases s) (simp_all add: less_eq_reactive_node_state_def)

lemma marks_refl [simp]: "marks g g"
  by (simp add: marks_def)

lemma marks_trans: "marks g h \<Longrightarrow> marks h k \<Longrightarrow> marks g k"
  by (auto simp: marks_def intro: order_trans)

lemma marksD:
  assumes "marks g h"
  shows "shape h = shape g" "sources_of h = sources_of g" "subscribers_of h = subscribers_of g"
    "memo_value h = memo_value g" "observer h = observer g" "allocator h = allocator g"
    "is_memo h = is_memo g" "is_effect h = is_effect g" "readable h = readable g"
    "alive h = alive g" "cached h = cached g"
proof -
  show sh: "shape h = shape g" "sources_of h = sources_of g" "subscribers_of h = subscribers_of g"
    "memo_value h = memo_value g" "observer h = observer g" "allocator h = allocator g"
    using assms by (simp_all add: marks_def)
  show "is_memo h = is_memo g" "is_effect h = is_effect g" "readable h = readable g" "alive h = alive g"
    by (rule shape_cong [OF sh(1)])+
  show "cached h = cached g"
    using sh(1,4) by (auto intro!: ext cached_cong)
qed

lemma marks_stale: "marks g h \<Longrightarrow> stale g x \<Longrightarrow> stale h x"
  by (auto simp: marks_def stale_def) (metis le_Clean)

lemma marks_forward: "marks g h \<Longrightarrow> forward h K = forward g K"
  by (simp add: forward_def marksD)

lemma reachesD:
  assumes "reaches S g h"
  shows "marks g h"
    and "n \<in> S \<Longrightarrow> is_memo g n \<Longrightarrow> stale h n"
    and "n \<in> S \<Longrightarrow> is_effect g n \<Longrightarrow> notified_of h n"
    and "is_memo g x \<Longrightarrow> x \<in> S \<or> \<not> stale g x \<and> stale h x \<Longrightarrow>
      y \<in> set (subscribers_of g x) \<Longrightarrow> is_memo g y \<Longrightarrow> stale h y"
    and "downclosed g \<Longrightarrow> (\<And>n. n \<in> S \<Longrightarrow> is_memo g n \<Longrightarrow> stale g n) \<Longrightarrow> stale h x \<longleftrightarrow> stale g x"
  using assms marks_stale unfolding reaches_def by blast+

lemma reachesI:
  assumes "marks g h"
    and "\<And>n. n \<in> S \<Longrightarrow> is_memo g n \<Longrightarrow> stale h n"
    and "\<And>n. n \<in> S \<Longrightarrow> is_effect g n \<Longrightarrow> notified_of h n"
    and "\<And>x y. is_memo g x \<Longrightarrow> x \<in> S \<or> \<not> stale g x \<and> stale h x \<Longrightarrow>
      y \<in> set (subscribers_of g x) \<Longrightarrow> is_memo g y \<Longrightarrow> stale h y"
    and "\<And>x. downclosed g \<Longrightarrow> \<forall>n\<in>S. is_memo g n \<longrightarrow> stale g n \<Longrightarrow> stale h x \<Longrightarrow> stale g x"
  shows "reaches S g h"
  using assms unfolding reaches_def by blast

lemmas reaches_marks = reachesD(1)

lemma reaches_refl [simp]: "reaches {} g g"
  by (simp add: reaches_def)

lemma downclosed_cong:
  assumes "marks g h" "\<And>x. stale h x \<longleftrightarrow> stale g x" "downclosed g"
  shows "downclosed h"
  using assms(3) unfolding downclosed_def marksD(3) [OF assms(1)] marksD(7) [OF assms(1)] assms(2) .

lemma reaches_trans:
  assumes gh: "reaches S g h" and hk: "reaches T h k"
  shows "reaches (S \<union> T) g k"
proof (rule reachesI)
  note m1 = reachesD(1) [OF gh] and m2 = reachesD(1) [OF hk]
  note kinds = marksD(7,8,3) [OF m1]
  note up = marks_stale [OF m2]
  show "marks g k" using m1 m2 by (rule marks_trans)
  show "stale k n" if "n \<in> S \<union> T" "is_memo g n" for n
    using that reachesD(2) [OF gh] reachesD(2) [OF hk] up by (auto simp: kinds)
  show "notified_of k n" if "n \<in> S \<union> T" "is_effect g n" for n
    using that reachesD(3) [OF gh] reachesD(3) [OF hk] m2 by (auto simp: kinds marks_def)
  show "stale k y" if "is_memo g x" "x \<in> S \<union> T \<or> \<not> stale g x \<and> stale k x"
    "y \<in> set (subscribers_of g x)" "is_memo g y" for x y
    using that reachesD(4) [OF gh, of x y] reachesD(4) [OF hk, of x y] up by (auto simp: kinds)
  show "stale g x" if "downclosed g" "\<forall>n\<in>S \<union> T. is_memo g n \<longrightarrow> stale g n" "stale k x" for x
  proof -
    have eq: "stale h z \<longleftrightarrow> stale g z" for z
      using reachesD(5) [OF gh] that(1,2) by auto
    have "stale k x \<longleftrightarrow> stale h x"
      using that(2) by (intro reachesD(5) [OF hk] downclosed_cong [OF m1 eq that(1)]) (auto simp: kinds eq)
    with that(3) eq show ?thesis by simp
  qed
qed

lemma reaches_root:
  assumes m1: "marks g g1" and same: "\<And>x. x \<noteq> n \<Longrightarrow> stale g1 x = stale g x"
    and memo: "is_memo g n \<Longrightarrow> stale g1 n" "\<not> is_memo g n \<Longrightarrow> subscribers_of g n = []"
    and eff: "is_effect g n \<Longrightarrow> notified_of g1 n"
    and gh: "reaches (set (subscribers_of g n)) g1 h"
  shows "reaches {n} g h"
proof (rule reachesI)
  note m2 = reachesD(1) [OF gh]
  note kinds = marksD(7,8,3) [OF m1]
  show "marks g h" using m1 m2 by (rule marks_trans)
  show "stale h n'" if "n' \<in> {n}" "is_memo g n'" for n'
    using that memo(1) marks_stale [OF m2] by auto
  show "notified_of h n'" if "n' \<in> {n}" "is_effect g n'" for n'
    using that eff m2 by (auto simp: marks_def)
  show "stale h y" if "is_memo g x" "x \<in> {n} \<or> \<not> stale g x \<and> stale h x"
    "y \<in> set (subscribers_of g x)" "is_memo g y" for x y
    using that reachesD(2) [OF gh, of y] reachesD(4) [OF gh, of x y] same
    by (cases "x = n") (auto simp: kinds)
  show "stale g x" if d: "downclosed g" "\<forall>n'\<in>{n}. is_memo g n' \<longrightarrow> stale g n'" "stale h x" for x
  proof -
    have not_memo: "\<not> is_memo g n \<Longrightarrow> \<not> stale g n \<and> \<not> stale g1 n"
      by (simp add: stale_def flip: kinds(1))
    have eq: "stale g1 z \<longleftrightarrow> stale g z" for z
      using same [of z] memo(1) d(2) not_memo by (cases "z = n"; cases "is_memo g n") auto
    have "stale h x \<longleftrightarrow> stale g1 x"
      using d(1,2) memo(2)
      by (intro reachesD(5) [OF gh] downclosed_cong [OF m1 eq d(1)])
        (cases "is_memo g n", auto simp: kinds eq downclosed_def)
    with d(3) eq show ?thesis by simp
  qed
qed

subsection \<open>The marking functions\<close>

text \<open>A loop of marks reaches the union of what its bodies reach.\<close>

lemma foreach_reaches:
  assumes "\<And>x h. x \<in> set xs \<Longrightarrow> marks g h \<Longrightarrow> \<exists>h'. f x h = Inr h' \<and> reaches (S x) h h' \<and> Q x h'"
    and "\<And>x h h'. Q x h \<Longrightarrow> marks h h' \<Longrightarrow> Q x h'"
  shows "\<exists>h. foreach f xs g = Inr h \<and> reaches (\<Union>x\<in>set xs. S x) g h \<and> (\<forall>x\<in>set xs. Q x h)"
  using assms(1)
proof (induction xs arbitrary: g)
  case (Cons x xs)
  obtain g1 where g1: "f x g = Inr g1" "reaches (S x) g g1" "Q x g1"
    using Cons.prems [of x g] by auto
  have "\<exists>h'. f y h = Inr h' \<and> reaches (S y) h h' \<and> Q y h'" if "y \<in> set xs" "marks g1 h" for y h
    using Cons.prems [of y h] that marks_trans [OF reachesD(1) [OF g1(2)]] by auto
  then obtain h where h: "foreach f xs g1 = Inr h" "reaches (\<Union>x\<in>set xs. S x) g1 h" "\<forall>y\<in>set xs. Q y h"
    using Cons.IH by blast
  moreover have "Q x h"
    using assms(2) [OF g1(3) reachesD(1) [OF h(2)]] .
  ultimately show ?case
    using g1 reaches_trans [OF g1(2) h(2)] by auto
qed simp

lemma foreach_mark_check:
  assumes "\<And>x h. x \<in> set xs \<Longrightarrow> marks g h \<Longrightarrow> \<exists>h'. mark_check k x h = Inr h' \<and> reaches {x} h h'"
  shows "\<exists>h. foreach (mark_check k) xs g = Inr h \<and> reaches (set xs) g h"
  using foreach_reaches [of xs g "mark_check k" "\<lambda>x. {x}" "\<lambda>_ _. True"] assms by simp

lemma marks_set_state:
  assumes "nodes g n = Some (MemoNode m)" "m_state m \<le> s"
  shows "marks g (set_node n (MemoNode (m\<lparr>m_state := s\<rparr>)) g)"
    and "memo_state (set_node n (MemoNode (m\<lparr>m_state := s\<rparr>)) g) = (memo_state g)(n := s)"
proof -
  have eq: "set_node n (MemoNode (m\<lparr>m_state := s\<rparr>)) g = upd_memo n (\<lambda>m. m\<lparr>m_state := s\<rparr>) g"
    using assms(1) by (simp add: upd_memo_set_node)
  have memo: "is_memo g n" using assms(1) by (auto simp: is_memo_nodes)
  show st: "memo_state (set_node n (MemoNode (m\<lparr>m_state := s\<rparr>)) g) = (memo_state g)(n := s)"
    by (simp only: eq memo_state_upd_memo [OF memo])
  have "memo_state g n = m_state m" using assms(1) by (simp add: memo_state_def)
  with assms(2) show "marks g (set_node n (MemoNode (m\<lparr>m_state := s\<rparr>)) g)"
    unfolding marks_def st unfolding eq by (simp add: frame_simps)
qed

lemma marks_set_effect:
  assumes "nodes g n = Some (EffectNode e)"
  shows "marks g (set_node n (EffectNode (e\<lparr>e_notified := True\<rparr>)) g)"
    and "marks g (set_node n (EffectNode (e\<lparr>e_dirty := True, e_notified := True\<rparr>)) g)"
  using assms by (auto simp: marks_def projection_defs fun_eq_iff)

lemma mark_check_spec:
  assumes "forward g K" "0 < k" "alive g n \<Longrightarrow> K < k + n"
  shows "\<exists>h. mark_check k n g = Inr h \<and> reaches {n} g h"
  using assms
proof (induction k arbitrary: n g)
  case (Suc k)
  show ?case
  proof (cases g n rule: node_cases)
    case (memo m)
    define s where "s = (if m_state m \<noteq> Dirty then Check else m_state m)"
    have le: "m_state m \<le> s" and ne: "s \<noteq> Clean"
      by (cases "m_state m"; simp add: s_def less_eq_reactive_node_state_def)+
    define g1 where "g1 = set_node n (MemoNode (m\<lparr>m_state := s\<rparr>)) g"
    have g1: "(if m_state m \<noteq> Dirty then m\<lparr>m_state := Check\<rparr> else m) = m\<lparr>m_state := s\<rparr>"
      by (simp add: s_def)
    have m1: "marks g g1" and st: "memo_state g1 = (memo_state g)(n := s)"
      unfolding g1_def by (rule marks_set_state [OF memo le])+
    have live: "alive g n" and subs: "subscribers_of g n = items (m_subscribers m)"
      using memo by (auto simp: alive_def subscribers_of_def)
    have body: "\<exists>h'. mark_check k y h = Inr h' \<and> reaches {y} h h'"
      if "y \<in> set (items (m_subscribers m))" "marks g1 h" for y h
    proof -
      have "marks g h" using m1 that(2) by (rule marks_trans)
      then have "forward h K" "alive h = alive g"
        using Suc.prems(1) by (simp_all add: marks_forward marksD)
      moreover have "alive g y \<Longrightarrow> n < y" "n < K"
        using Suc.prems(1) that(1) live subs by (auto simp: forward_def)
      moreover have "0 < k" using \<open>n < K\<close> Suc.prems(3) [OF live] by simp
      ultimately show ?thesis
        using Suc.IH [of h y] Suc.prems(3) [OF live] by fastforce
    qed
    obtain h where h: "foreach (mark_check k) (items (m_subscribers m)) g1 = Inr h"
      "reaches (set (items (m_subscribers m))) g1 h"
      using foreach_mark_check body by blast
    have "reaches {n} g h"
    proof (rule reaches_root [OF m1])
      show "reaches (set (subscribers_of g n)) g1 h" using h(2) by (simp add: subs)
    qed (use memo ne in \<open>auto simp: stale_def st is_memo_nodes is_effect_nodes\<close>)
    then show ?thesis
      using h(1) memo by (simp add: g1 flip: g1_def)
  next
    case (effect e)
    have "reaches {n} g (set_node n (EffectNode (e\<lparr>e_notified := True\<rparr>)) g)"
      by (rule reaches_root [OF marks_set_effect(1) [OF effect]])
        (use effect in \<open>auto simp: stale_def memo_state_def is_memo_nodes notified_of_def subscribers_of_def\<close>)
    with effect show ?thesis by simp
  qed (auto simp: reaches_def is_memo_nodes is_effect_nodes)
qed simp

definition was_marked_dirty :: "'v graph \<Rightarrow> node_id \<Rightarrow> bool" where
  "was_marked_dirty g n \<longleftrightarrow>
     (is_memo g n \<longrightarrow> memo_state g n = Dirty) \<and> (is_effect g n \<longrightarrow> dirty_of g n \<and> notified_of g n)"

lemma Dirty_le [simp]: "Dirty \<le> s \<longleftrightarrow> s = Dirty"
  by (cases s) (simp_all add: less_eq_reactive_node_state_def)

lemma was_marked_dirty_marks: "was_marked_dirty g n \<Longrightarrow> marks g h \<Longrightarrow> was_marked_dirty h n"
  unfolding was_marked_dirty_def marksD(7,8) by (metis Dirty_le marks_def marksD(7,8))

lemma mark_dirty_spec:
  assumes "forward g K" "K < k"
  shows "\<exists>h. mark_dirty k n g = Inr h \<and> reaches {n} g h \<and> was_marked_dirty h n"
proof (cases g n rule: node_cases)
  case (memo m)
  define g1 where "g1 = set_node n (MemoNode (m\<lparr>m_state := Dirty\<rparr>)) g"
  have m1: "marks g g1" and st: "memo_state g1 = (memo_state g)(n := Dirty)"
    unfolding g1_def by (rule marks_set_state [OF memo]; simp)+
  have subs: "subscribers_of g n = items (m_subscribers m)"
    using memo by (auto simp: subscribers_of_def)
  have body: "\<exists>h'. mark_check k y h = Inr h' \<and> reaches {y} h h'" if "marks g1 h" for y h
    using mark_check_spec [of h K k y] assms marks_forward [OF marks_trans [OF m1 that]] by auto
  obtain h where h: "foreach (mark_check k) (items (m_subscribers m)) g1 = Inr h"
    "reaches (set (items (m_subscribers m))) g1 h"
    using foreach_mark_check body by blast
  have "reaches {n} g h"
  proof (rule reaches_root [OF m1])
    show "reaches (set (subscribers_of g n)) g1 h" using h(2) by (simp add: subs)
  qed (use memo in \<open>auto simp: stale_def st is_memo_nodes is_effect_nodes\<close>)
  moreover have "was_marked_dirty g1 n"
    unfolding was_marked_dirty_def st using memo by (auto simp: g1_def is_effect_nodes)
  ultimately show ?thesis
    using h(1) memo was_marked_dirty_marks [OF _ reachesD(1) [OF h(2)]]
    by (auto simp: mark_dirty_def simp flip: g1_def)
next
  case (effect e)
  have "reaches {n} g (set_node n (EffectNode (e\<lparr>e_dirty := True, e_notified := True\<rparr>)) g)"
    by (rule reaches_root [OF marks_set_effect(2) [OF effect]])
      (use effect in \<open>auto simp: stale_def memo_state_def is_memo_nodes notified_of_def subscribers_of_def\<close>)
  with effect show ?thesis
    by (auto simp: mark_dirty_def was_marked_dirty_def is_memo_nodes dirty_of_def notified_of_def)
qed (auto simp: mark_dirty_def was_marked_dirty_def reaches_def is_memo_nodes is_effect_nodes)

end
