(* ===== verification/Reactive_Inv.thy ===== *)
theory Reactive_Inv
  imports Reactive_Mark
begin

text \<open>
  The invariant of the reactive graph. Nodes are numbered in the order of their creation;
  a closure reads only nodes that exist when it is created, so edges lead from smaller to
  larger identifiers. The invariant is stated for the middle of an update too: \<open>P\<close> is the
  set of nodes whose closures are running (the call stack), \<open>N\<close> the nodes that are being
  read at this moment, \<open>ov\<close> the values the running memos had before their run, and \<open>X\<close> a
  set of memos that are about to be marked.
\<close>

subsection \<open>Closures of memos\<close>

text \<open>
  The closures the correctness results are about: every read is tracked, nothing is
  written, and only nodes of \<open>P\<close> are read.
\<close>

primrec body_ok :: "(node_id \<Rightarrow> bool) \<Rightarrow> ('v, 'r) comp \<Rightarrow> bool" where
  "body_ok P (Ret r) = True"
| "body_ok P (Get n c) = (P n \<and> (\<forall>v. body_ok P (c v)))"
| "body_ok P (GetUntracked n c) = False"
| "body_ok P (Untrack n c) = False"
| "body_ok P (Write n v c) = False"

text \<open>\<open>replay env S c\<close>: the result of \<open>c\<close> when it reads from \<open>env\<close>, all reads in \<open>S\<close>.\<close>

primrec replay :: "(node_id \<Rightarrow> 'v option) \<Rightarrow> node_id set \<Rightarrow> ('v, 'r) comp \<Rightarrow> 'r option" where
  "replay env S (Ret r) = Some r"
| "replay env S (Get n c) =
     (if n \<in> S then (case env n of None \<Rightarrow> None | Some v \<Rightarrow> replay env S (c v)) else None)"
| "replay env S (GetUntracked n c) = None"
| "replay env S (Untrack n c) = None"
| "replay env S (Write n v c) = None"

text \<open>The function \<open>ArcMemo::new\<close> builds from a closure that does not look at the old value.\<close>

definition memo_fun :: "('v, 'v) comp \<Rightarrow> 'v option \<Rightarrow> ('v, 'v \<times> bool) comp" where
  "memo_fun c prev = map_comp (\<lambda>v. (v, prev \<noteq> Some v)) c"

lemma replay_cong: "(\<And>s. s \<in> S \<Longrightarrow> env s = env' s) \<Longrightarrow> replay env S c = replay env' S c"
  by (induction c) (auto split: option.split)

lemma body_ok_mono: "body_ok P c \<Longrightarrow> (\<And>n. P n \<Longrightarrow> Q n) \<Longrightarrow> body_ok Q c"
  by (induction c) auto

lemma body_ok_map_comp [simp]: "body_ok P (map_comp h c) = body_ok P c"
  by (induction c) auto

subsection \<open>The invariant\<close>

type_synonym 'v bodies = "node_id \<Rightarrow> ('v, 'v) comp option"

definition bodies_ok :: "'v bodies \<Rightarrow> 'v graph \<Rightarrow> bool" where
  "bodies_ok B g \<longleftrightarrow> (\<forall>n. is_memo g n \<longrightarrow>
     (\<exists>c. B n = Some c \<and> shape g n = Some (SMemo (memo_fun c)) \<and>
          body_ok (\<lambda>s. s < n \<and> readable g s) c))"

definition edges_ok :: "'v graph \<Rightarrow> bool" where
  "edges_ok g \<longleftrightarrow>
     (\<forall>n s. s \<in> set (sources_of g n) \<longrightarrow> s < n \<and> readable g s \<and> n \<in> set (subscribers_of g s)) \<and>
     (\<forall>n s. n \<in> set (subscribers_of g s) \<and> alive g n \<longrightarrow> s \<in> set (sources_of g n))"

definition past :: "node_id set \<Rightarrow> (node_id \<Rightarrow> 'v option) \<Rightarrow> 'v graph \<Rightarrow> node_id \<Rightarrow> 'v option" where
  "past P ov g s = (if s \<in> P then ov s else cached g s)"

definition cache_ok ::
  "'v bodies \<Rightarrow> node_id set \<Rightarrow> (node_id \<Rightarrow> 'v option) \<Rightarrow> node_id set \<Rightarrow> 'v graph \<Rightarrow> bool" where
  "cache_ok B P ov X g \<longleftrightarrow> (\<forall>n. is_memo g n \<and> n \<notin> P \<and> n \<notin> X \<and> memo_state g n \<noteq> Dirty \<longrightarrow>
     (\<exists>v. memo_value g n = Some v \<and>
        replay (past P ov g) (set (sources_of g n)) (the (B n)) = Some v))"

definition clean_ok :: "node_id set \<Rightarrow> 'v graph \<Rightarrow> bool" where
  "clean_ok P g \<longleftrightarrow> (\<forall>n. is_memo g n \<and> \<not> stale g n \<longrightarrow>
     n \<notin> P \<and> (\<forall>s\<in>set (sources_of g n). clean g s))"

definition pending_ok :: "node_id set \<Rightarrow> node_id set \<Rightarrow> 'v graph \<Rightarrow> bool" where
  "pending_ok P N g \<longleftrightarrow> (\<forall>n\<in>P. \<forall>s\<in>set (sources_of g n). clean g s \<or> s \<in> N)"

definition observer_ok :: "node_id set \<Rightarrow> 'v graph \<Rightarrow> bool" where
  "observer_ok P g \<longleftrightarrow>
     (\<forall>p u. observer g = Some (p, u) \<longrightarrow> \<not> u \<and> (p \<in> P \<or> \<not> is_memo g p))"

definition inv ::
  "'v bodies \<Rightarrow> node_id set \<Rightarrow> node_id set \<Rightarrow> (node_id \<Rightarrow> 'v option) \<Rightarrow> node_id set \<Rightarrow> 'v graph \<Rightarrow> bool" where
  "inv B P N ov X g \<longleftrightarrow> bodies_ok B g \<and> edges_ok g \<and> cache_ok B P ov X g \<and> clean_ok P g \<and>
     pending_ok P N g \<and> observer_ok P g"

definition bounded :: "nat \<Rightarrow> 'v graph \<Rightarrow> bool" where
  "bounded K g \<longleftrightarrow> (\<forall>x. alive g x \<longrightarrow> x < K)"

text \<open>What an update of nodes below \<open>R\<close> keeps of the graph.\<close>

definition keeps :: "nat \<Rightarrow> 'v graph \<Rightarrow> 'v graph \<Rightarrow> bool" where
  "keeps R g h \<longleftrightarrow> shape h = shape g \<and> allocator h = allocator g \<and> observer h = observer g \<and>
     (\<forall>x. clean g x \<longrightarrow> clean h x \<and> memo_value h x = memo_value g x \<and> sources_of h x = sources_of g x) \<and>
     (\<forall>x\<ge>R. sources_of h x = sources_of g x \<and> memo_value h x = memo_value g x \<and>
        (stale g x \<longrightarrow> stale h x)) \<and>
     (\<forall>x. dirty_of g x \<longrightarrow> dirty_of h x) \<and> (\<forall>x. notified_of g x \<longrightarrow> notified_of h x) \<and>
     (\<forall>x. set (subscribers_of h x) \<subseteq> set (subscribers_of g x) \<union> Collect (alive g))"

lemma keeps_refl [simp]: "keeps R g g"
  by (simp add: keeps_def)

lemma keeps_trans:
  assumes "keeps R g h" "keeps R' h k" "R \<le> Q" "R' \<le> Q"
  shows "keeps Q g k"
proof -
  have al: "alive h = alive g" using assms(1) by (intro shape_cong(4)) (simp add: keeps_def)
  have "set (subscribers_of k x) \<subseteq> set (subscribers_of g x) \<union> Collect (alive g)" for x
  proof -
    have "set (subscribers_of h x) \<subseteq> set (subscribers_of g x) \<union> Collect (alive g)"
      "set (subscribers_of k x) \<subseteq> set (subscribers_of h x) \<union> Collect (alive g)"
      using assms(1,2) by (simp_all add: keeps_def al)
    then show ?thesis by blast
  qed
  with assms show ?thesis by (simp add: keeps_def)
qed

lemma keeps_mono: "keeps R g h \<Longrightarrow> R \<le> Q \<Longrightarrow> keeps Q g h"
  by (auto simp: keeps_def)

lemma keepsD:
  assumes "keeps R g h"
  shows "shape h = shape g" "observer h = observer g"
    "is_memo h = is_memo g" "is_effect h = is_effect g" "readable h = readable g" "alive h = alive g"
    "bounded K h = bounded K g"
    and "clean g x \<Longrightarrow> clean h x" "clean g x \<Longrightarrow> cached h x = cached g x"
    and "clean g x \<Longrightarrow> sources_of h x = sources_of g x"
    and "R \<le> x \<Longrightarrow> sources_of h x = sources_of g x" "R \<le> x \<Longrightarrow> memo_value h x = memo_value g x"
    and "R \<le> x \<Longrightarrow> stale g x \<Longrightarrow> stale h x"
proof -
  show sh: "shape h = shape g" using assms by (simp add: keeps_def)
  show "is_memo h = is_memo g" "is_effect h = is_effect g" "readable h = readable g"
    by (rule shape_cong [OF sh])+
  show al: "alive h = alive g" by (rule shape_cong [OF sh])
  show "bounded K h = bounded K g" by (simp add: bounded_def al)
  show "clean g x \<Longrightarrow> cached h x = cached g x"
    using assms sh by (auto simp: keeps_def intro: cached_cong)
qed (use assms in \<open>auto simp: keeps_def\<close>)

lemma clean_stale: "clean g x \<longleftrightarrow> readable g x \<and> \<not> stale g x"
  by (simp add: clean_def stale_def)

lemma marks_keeps: "marks g h \<Longrightarrow> (\<And>x. stale h x \<Longrightarrow> stale g x) \<Longrightarrow> keeps R g h"
  by (simp add: keeps_def clean_stale marksD marks_stale) (auto simp: marks_def)

lemma inv_downclosed: "inv B P N ov X g \<Longrightarrow> downclosed g"
  unfolding inv_def downclosed_def clean_ok_def edges_ok_def clean_stale
  by (meson memo_readable readable_alive)

lemma inv_forward: "inv B P N ov X g \<Longrightarrow> bounded K g \<Longrightarrow> forward g K"
  by (auto simp: inv_def edges_ok_def forward_def bounded_def)

lemma inv_edges:
  assumes "inv B P N ov X g"
  shows "s \<in> set (sources_of g n) \<Longrightarrow> s < n" "s \<in> set (sources_of g n) \<Longrightarrow> readable g s"
    "s \<in> set (sources_of g n) \<Longrightarrow> n \<in> set (subscribers_of g s)"
    "n \<in> set (subscribers_of g s) \<Longrightarrow> alive g n \<Longrightarrow> s \<in> set (sources_of g n)"
  using assms unfolding inv_def edges_ok_def by blast+

text \<open>Marking memos that are stale already keeps the invariant.\<close>

lemma inv_reaches:
  assumes inv: "inv B P N ov X g" and r: "reaches S g h"
    and S: "\<And>n. n \<in> S \<Longrightarrow> is_memo g n \<Longrightarrow> stale g n"
  shows "inv B P N ov X h" and "keeps R g h"
proof -
  note m = reachesD(1) [OF r]
  have eq: "stale h x \<longleftrightarrow> stale g x" for x
    using reachesD(5) [OF r inv_downclosed [OF inv]] S by auto
  then show "keeps R g h" using m by (auto intro: marks_keeps)
  have clean: "clean h = clean g"
    by (auto simp: fun_eq_iff clean_stale eq marksD(9) [OF m])
  have past: "past P ov h = past P ov g"
    by (auto simp: fun_eq_iff past_def marksD(11) [OF m])
  have "memo_state h n \<noteq> Dirty \<Longrightarrow> memo_state g n \<noteq> Dirty" for n
    using m by (auto simp: marks_def) (metis Dirty_le)
  then have "cache_ok B P ov X h"
    using inv by (auto simp: inv_def cache_ok_def past marksD [OF m])
  moreover have "observer_ok P h"
    using inv by (auto simp: inv_def observer_ok_def marksD [OF m])
  ultimately show "inv B P N ov X h"
    using inv by (simp add: inv_def bodies_ok_def edges_ok_def clean_ok_def pending_ok_def
        eq clean marksD [OF m])
qed

lemma inv_pending: "inv B P (insert s N) ov X g \<Longrightarrow> clean g s \<Longrightarrow> inv B P N ov X g"
  by (auto simp: inv_def pending_ok_def)

subsection \<open>Tracking a read\<close>

lemma track_eq:
  assumes "observer g = Some (n, False)" "readable g s"
  shows "track s g = add_subscriber s n (add_source n s g)"
  using assms by (simp add: track_def observer_get_def readable_alive)

lemma inv_track:
  assumes inv: "inv B P N ov X g" and obs: "observer g = Some (n, False)" and n: "n \<in> P"
    and s: "readable g s" "s < n" and kind: "is_memo g n \<or> is_effect g n"
  shows "inv B P (insert s N) ov X (track s g)" and "keeps (Suc n) g (track s g)"
    and "sources_of (track s g) = (sources_of g)(n := index_insert s (sources_of g n))"
proof -
  let ?h = "track s g"
  have h: "?h = add_subscriber s n (add_source n s g)"
    using obs s(1) by (rule track_eq)
  have shape: "shape ?h = shape g" and state: "memo_state ?h = memo_state g"
    and val: "memo_value ?h = memo_value g" and obs': "observer ?h = observer g"
    and rest: "allocator ?h = allocator g" "dirty_of ?h = dirty_of g" "notified_of ?h = notified_of g"
    by (simp_all add: h frame_simps)
  note kinds = shape_cong [OF shape]
  have stale: "stale ?h = stale g" by (simp add: stale_def fun_eq_iff state)
  have clean: "clean ?h = clean g" by (simp add: clean_stale fun_eq_iff kinds stale)
  have past: "past P ov ?h = past P ov g"
    by (auto simp: fun_eq_iff past_def shape val intro: cached_cong)
  show src: "sources_of ?h = (sources_of g)(n := index_insert s (sources_of g n))"
    using kind by (simp add: h frame_simps sources_add_source)
  have live: "alive g n" using kind by (auto simp: is_memo_def is_effect_def alive_shape)
  have n_stale: "\<not> clean g n"
    using inv n kind by (auto simp: inv_def clean_ok_def clean_stale readable_def is_effect_def is_memo_def)
  moreover have "set (subscribers_of ?h x) \<subseteq> set (subscribers_of g x) \<union> Collect (alive g)" for x
    using subscribers_add_subscriber_subset [of s n "add_source n s g" x] live
    by (auto simp: h frame_simps)
  ultimately show "keeps (Suc n) g ?h"
    by (auto simp: keeps_def shape rest obs' clean val src stale)
  have subs: "y \<in> set (subscribers_of ?h t) \<longleftrightarrow> (t = s \<and> y = n) \<or> y \<in> set (subscribers_of g t)"
    if "alive g y" for y t
  proof -
    have al: "alive (add_source n s g) = alive g" "readable (add_source n s g) = readable g"
      by (rule shape_cong; simp add: frame_simps)+
    show ?thesis
      unfolding h using that s(1) live by (simp add: subscribers_add_subscriber al frame_simps)
  qed
  have edge_alive: "alive g x" if "t \<in> set (sources_of g x)" for x t
    using that by (cases "nodes g x") (simp_all add: sources_of_def alive_def)
  have "edges_ok ?h"
    unfolding edges_ok_def kinds
  proof (intro conjI allI impI)
    fix x t assume t: "t \<in> set (sources_of ?h x)"
    then have old: "(x = n \<and> t = s) \<or> t \<in> set (sources_of g x)"
      by (simp add: src split: if_splits)
    then have x: "alive g x" using live edge_alive by blast
    show "t < x" "readable g t" using old s inv by (auto simp: inv_def edges_ok_def)
    show "x \<in> set (subscribers_of ?h t)"
      using old inv by (auto simp: subs [OF x] inv_def edges_ok_def)
  next
    fix x t assume "x \<in> set (subscribers_of ?h t) \<and> alive g x"
    then have "(t = s \<and> x = n) \<or> t \<in> set (sources_of g x)"
      using subs inv by (auto simp: inv_def edges_ok_def)
    then show "t \<in> set (sources_of ?h x)" by (auto simp: src)
  qed
  moreover have "cache_ok B P ov X ?h"
    using inv n by (auto simp: inv_def cache_ok_def kinds state val past src)
  moreover have "clean_ok P ?h"
    using inv n by (auto simp: inv_def clean_ok_def kinds stale clean src)
  moreover have "pending_ok P (insert s N) ?h"
    using inv by (auto simp: inv_def pending_ok_def clean src)
  moreover have "bodies_ok B ?h"
    using inv by (simp add: inv_def bodies_ok_def kinds shape)
  moreover have "observer_ok P ?h"
    using inv by (auto simp: inv_def observer_ok_def kinds obs')
  ultimately show "inv B P (insert s N) ov X ?h"
    by (simp add: inv_def)
qed

end
