(* ===== verification/Reactive_Update.thy ===== *)
theory Reactive_Update
  imports Reactive_Inv
begin

text \<open>
  \<open>update_if_necessary\<close> returns, brings the node up to date and keeps the invariant:
  the induction over the fuel, one lemma for each phase of an update.
\<close>

definition updates_below :: "'v bodies \<Rightarrow> nat \<Rightarrow> nat \<Rightarrow> (node_id \<Rightarrow> ('v, bool) action) \<Rightarrow> bool" where
  "updates_below B K n upd \<longleftrightarrow> (\<forall>s P N ov g. s < n \<longrightarrow> inv B P N ov {} g \<longrightarrow> readable g s \<longrightarrow>
     (\<forall>p\<in>P. s < p) \<longrightarrow> bounded K g \<longrightarrow>
     (\<exists>b h. upd s g = Inr (b, h) \<and> inv B P N ov {} h \<and> keeps (Suc s) g h \<and> clean h s))"

lemma updates_belowD:
  assumes "updates_below B K n upd" "s < n" "inv B P N ov {} g" "readable g s" "\<And>p. p \<in> P \<Longrightarrow> s < p"
    "bounded K g"
  obtains b h where "upd s g = Inr (b, h)" "inv B P N ov {} h" "keeps (Suc s) g h" "clean h s"
  using assms unfolding updates_below_def by blast

lemma clean_cached:
  assumes "inv B P N ov {} g" "clean g s"
  shows "\<exists>v. cached g s = Some v"
proof (cases "is_memo g s")
  case True
  with assms show ?thesis
    by (auto simp: inv_def cache_ok_def clean_ok_def clean_def stale_def cached_memo)
next
  case False
  with assms(2) show ?thesis
    by (auto simp: clean_def readable_def cached_def)
qed

subsection \<open>Running a closure\<close>

lemma read_untracked_ok:
  assumes upd: "updates_below B K n upd" and s: "s < n" "readable g s" "\<And>p. p \<in> P \<Longrightarrow> s < p"
    and inv: "inv B P N ov {} g" and bound: "bounded K g"
  shows "\<exists>v h. read_untracked upd s g = Inr (v, h) \<and> inv B P N ov {} h \<and> keeps (Suc s) g h \<and>
    clean h s \<and> cached h s = Some v"
proof (cases "is_memo g s")
  case True
  then obtain m where m: "nodes g s = Some (MemoNode m)" by (auto simp: is_memo_nodes)
  obtain b h where h: "upd s g = Inr (b, h)" "inv B P N ov {} h" "keeps (Suc s) g h" "clean h s"
    using updates_belowD [OF upd s(1) inv s(2,3) bound] .
  obtain v where v: "cached h s = Some v" using clean_cached [OF h(2,4)] by blast
  moreover have "memo_value h s = cached h s"
    using True by (simp add: cached_memo keepsD(3) [OF h(3)])
  ultimately show ?thesis
    using m h by (auto simp: read_untracked_def)
next
  case False
  with s(2) obtain v ss where "nodes g s = Some (SignalNode v ss)"
    by (auto simp: readable_def signal_nodes)
  moreover from this have "cached g s = Some v" "clean g s"
    using s(2) by (auto simp: cached_def shape_def clean_def memo_state_def)
  ultimately show ?thesis
    using inv by (auto simp: read_untracked_def)
qed

lemma run_comp_ok:
  assumes upd: "updates_below B K n upd" and n: "n \<in> P" "\<And>p. p \<in> P \<Longrightarrow> n \<le> p"
    and "inv B P N ov {} g" "observer g = Some (n, False)" "is_memo g n \<or> is_effect g n"
    "body_ok (\<lambda>s. s < n \<and> readable g s) c" "bounded K g" "\<And>s. s \<in> set (sources_of g n) \<Longrightarrow> clean g s"
  shows "\<exists>v h. run_comp upd wr (map_comp f c) g = Inr (f v, h) \<and> inv B P N ov {} h \<and>
    keeps (Suc n) g h \<and> (\<forall>s\<in>set (sources_of h n). clean h s) \<and>
    set (sources_of g n) \<subseteq> set (sources_of h n) \<and>
    replay (cached h) (set (sources_of h n)) c = Some v"
  using assms(4-)
proof (induction c arbitrary: g)
  case (Ret r)
  then show ?case by auto
next
  case (Get s c)
  have s: "s < n" "readable g s" and body: "body_ok (\<lambda>s. s < n \<and> readable g s) (c v)" for v
    using Get.prems(4) by auto
  let ?g1 = "track s g"
  note tr = inv_track [OF Get.prems(1,2) n(1) s(2,1) Get.prems(3)]
  note k1 = tr(2)
  have "s < p" if "p \<in> P" for p using n(2) [OF that] s(1) by simp
  then obtain v g2 where g2: "read_untracked upd s ?g1 = Inr (v, g2)" "inv B P (insert s N) ov {} g2"
    "keeps (Suc s) ?g1 g2" "clean g2 s" "cached g2 s = Some v"
    using read_untracked_ok [OF upd s(1) _ _ tr(1)] s(2) Get.prems(5) keepsD(5,7) [OF k1] by metis
  have inv2: "inv B P N ov {} g2" using g2(2,4) by (rule inv_pending)
  have k2: "keeps (Suc n) g g2" using k1 g2(3) by (rule keeps_trans) (use s(1) in simp_all)
  have src2: "set (sources_of g2 n) = insert s (set (sources_of g n))"
    using keepsD(11) [OF g2(3), of n] s(1) by (simp add: tr(3))
  have clean2: "clean g2 t" if "t \<in> set (sources_of g2 n)" for t
    using that src2 g2(4) Get.prems(6) keepsD(8) [OF k2] by auto
  have "\<exists>w h. run_comp upd wr (map_comp f (c v)) g2 = Inr (f w, h) \<and> inv B P N ov {} h \<and>
      keeps (Suc n) g2 h \<and> (\<forall>s\<in>set (sources_of h n). clean h s) \<and>
      set (sources_of g2 n) \<subseteq> set (sources_of h n) \<and>
      replay (cached h) (set (sources_of h n)) (c v) = Some w"
    using Get.prems(2,3,5) body inv2 clean2 keepsD(2,3,4,5,7) [OF k2]
    by (intro Get.IH) (simp_all add: rangeI)
  then obtain w h where h: "run_comp upd wr (map_comp f (c v)) g2 = Inr (f w, h)"
    "inv B P N ov {} h" "keeps (Suc n) g2 h" "\<forall>s\<in>set (sources_of h n). clean h s"
    "set (sources_of g2 n) \<subseteq> set (sources_of h n)"
    "replay (cached h) (set (sources_of h n)) (c v) = Some w" by blast
  have "cached h s = Some v" using keepsD(9) [OF h(3) g2(4)] g2(5) by simp
  moreover have "s \<in> set (sources_of h n)" using h(5) src2 by auto
  ultimately show ?case
    using g2(1) h src2 keeps_trans [OF k2 h(3)]
    by (intro exI [of _ w] exI [of _ h]) (auto simp: read_tracked_def)
qed simp_all

subsection \<open>Recomputing a memo\<close>

lemma observer_update_frame [frame_simps]:
  "shape (g\<lparr>observer := p\<rparr>) = shape g"
  "sources_of (g\<lparr>observer := p\<rparr>) = sources_of g"
  "subscribers_of (g\<lparr>observer := p\<rparr>) = subscribers_of g"
  "memo_value (g\<lparr>observer := p\<rparr>) = memo_value g"
  "memo_state (g\<lparr>observer := p\<rparr>) = memo_state g"
  "dirty_of (g\<lparr>observer := p\<rparr>) = dirty_of g"
  "notified_of (g\<lparr>observer := p\<rparr>) = notified_of g"
  "nodes (g\<lparr>observer := p\<rparr>) = nodes g"
  by (simp_all add: projection_defs fun_eq_iff)

lemma observer_update_stale [frame_simps]:
  "stale (g\<lparr>observer := p\<rparr>) = stale g" "clean (g\<lparr>observer := p\<rparr>) = clean g"
  "is_memo (g\<lparr>observer := p\<rparr>) = is_memo g" "is_effect (g\<lparr>observer := p\<rparr>) = is_effect g"
  "readable (g\<lparr>observer := p\<rparr>) = readable g" "alive (g\<lparr>observer := p\<rparr>) = alive g"
  "cached (g\<lparr>observer := p\<rparr>) = cached g" "bounded K (g\<lparr>observer := p\<rparr>) = bounded K g"
  by (simp_all add: stale_def clean_def fun_eq_iff is_memo_def is_effect_def readable_def alive_shape
      cached_def bounded_def frame_simps split: option.split shape.split)

lemma clear_sources_kinds [frame_simps]:
  "is_memo (clear_sources n g) = is_memo g" "is_effect (clear_sources n g) = is_effect g"
  "readable (clear_sources n g) = readable g" "alive (clear_sources n g) = alive g"
  by (rule shape_cong; simp add: frame_simps)+

lemma clear_sources_stale [frame_simps]:
  "stale (clear_sources n g) = stale g" "clean (clear_sources n g) = clean g"
  by (auto simp: stale_def clean_def fun_eq_iff frame_simps)

lemma keeps_observer:
  "keeps R (g\<lparr>observer := p\<rparr>) h \<Longrightarrow> keeps R g (h\<lparr>observer := observer g\<rparr>)"
  by (simp add: keeps_def frame_simps)

text \<open>Taking the value and clearing the sources puts the memo on the stack of running nodes.\<close>

definition start_run :: "node_id \<Rightarrow> 'v graph \<Rightarrow> 'v graph" where
  "start_run n g =
     (clear_sources n (upd_memo n (\<lambda>m. m\<lparr>m_value := None\<rparr>) g))\<lparr>observer := Some (n, False)\<rparr>"

lemma start_run_frame [frame_simps]:
  "shape (start_run n g) = shape g" "memo_state (start_run n g) = memo_state g"
  "dirty_of (start_run n g) = dirty_of g" "notified_of (start_run n g) = notified_of g"
  "allocator (start_run n g) = allocator g" "observer (start_run n g) = Some (n, False)"
  "sources_of (start_run n g) = (sources_of g)(n := [])"
  "is_memo g n \<Longrightarrow> memo_value (start_run n g) = (memo_value g)(n := None)"
  by (simp_all add: start_run_def frame_simps memo_value_upd_memo)

lemma start_run_kinds [frame_simps]:
  "is_memo (start_run n g) = is_memo g" "is_effect (start_run n g) = is_effect g"
  "readable (start_run n g) = readable g" "alive (start_run n g) = alive g"
  "stale (start_run n g) = stale g" "clean (start_run n g) = clean g"
  "bounded K (start_run n g) = bounded K g"
  by (simp_all add: stale_def clean_def fun_eq_iff is_memo_def is_effect_def readable_def alive_shape
      bounded_def frame_simps)

lemma subscribers_start_run:
  "y \<in> set (subscribers_of (start_run n g) t) \<longleftrightarrow>
     y \<in> set (subscribers_of g t) \<and> \<not> (t \<in> set (sources_of g n) \<and> y = n)"
  by (simp add: start_run_def frame_simps subscribers_clear_sources)

lemma edges_start_run: "edges_ok g \<Longrightarrow> edges_ok (start_run n g)"
  by (auto simp: edges_ok_def frame_simps subscribers_start_run)

lemma inv_start_run:
  assumes inv: "inv B P N ov {} g" and n: "is_memo g n" "stale g n" "n \<notin> P"
  shows "inv B (insert n P) N (ov(n := memo_value g n)) {} (start_run n g)"
    and "keeps (Suc n) (g\<lparr>observer := Some (n, False)\<rparr>) (start_run n g)"
proof -
  have past: "past (insert n P) (ov(n := memo_value g n)) (start_run n g) = past P ov g"
    using n(1,3) by (auto simp: past_def fun_eq_iff cached_memo frame_simps intro: cached_cong)
  have "cache_ok B (insert n P) (ov(n := memo_value g n)) {} (start_run n g)"
    using inv n(1) by (auto simp: inv_def cache_ok_def past frame_simps)
  moreover have "clean_ok (insert n P) (start_run n g)"
    using inv n by (auto simp: inv_def clean_ok_def frame_simps)
  moreover have "pending_ok (insert n P) N (start_run n g)"
    using inv by (auto simp: inv_def pending_ok_def frame_simps)
  moreover have "observer_ok (insert n P) (start_run n g)"
    by (simp add: observer_ok_def frame_simps)
  ultimately show "inv B (insert n P) N (ov(n := memo_value g n)) {} (start_run n g)"
    using inv by (simp add: inv_def bodies_ok_def edges_start_run frame_simps)
  show "keeps (Suc n) (g\<lparr>observer := Some (n, False)\<rparr>) (start_run n g)"
    using n(1,2) by (auto simp: keeps_def frame_simps clean_stale subscribers_start_run)
qed

text \<open>Storing the result takes the memo off the stack; its readers may see another value now.\<close>

definition finish_run :: "node_id \<Rightarrow> 'v \<Rightarrow> (node_id \<times> bool) option \<Rightarrow> 'v graph \<Rightarrow> 'v graph" where
  "finish_run n v p g =
     upd_memo n (\<lambda>m. m\<lparr>m_value := Some v, m_state := Clean\<rparr>) (g\<lparr>observer := p\<rparr>)"

lemma finish_run_frame [frame_simps]:
  "shape (finish_run n v p g) = shape g" "dirty_of (finish_run n v p g) = dirty_of g"
  "notified_of (finish_run n v p g) = notified_of g" "allocator (finish_run n v p g) = allocator g"
  "observer (finish_run n v p g) = p" "sources_of (finish_run n v p g) = sources_of g"
  "subscribers_of (finish_run n v p g) = subscribers_of g"
  "is_memo g n \<Longrightarrow> memo_value (finish_run n v p g) = (memo_value g)(n := Some v)"
  "is_memo g n \<Longrightarrow> memo_state (finish_run n v p g) = (memo_state g)(n := Clean)"
  by (simp_all add: finish_run_def frame_simps memo_value_upd_memo memo_state_upd_memo)

lemma finish_run_kinds [frame_simps]:
  "is_memo (finish_run n v p g) = is_memo g" "is_effect (finish_run n v p g) = is_effect g"
  "readable (finish_run n v p g) = readable g" "alive (finish_run n v p g) = alive g"
  "bounded K (finish_run n v p g) = bounded K g"
  "is_memo g n \<Longrightarrow> stale (finish_run n v p g) x \<longleftrightarrow> x \<noteq> n \<and> stale g x"
  "is_memo g n \<Longrightarrow> clean (finish_run n v p g) x \<longleftrightarrow> x = n \<or> clean g x"
  "x \<noteq> n \<Longrightarrow> is_memo g n \<Longrightarrow> cached (finish_run n v p g) x = cached g x"
  by (auto simp: stale_def clean_def fun_eq_iff is_memo_def is_effect_def readable_def alive_shape
      bounded_def frame_simps cached_def split: option.split shape.split)

lemma cached_finish_run [frame_simps]:
  "is_memo g n \<Longrightarrow> cached (finish_run n v p g) n = Some v"
  by (simp add: cached_memo frame_simps)

lemma inv_finish_run:
  assumes inv: "inv B (insert n P) N ov {} g" and n: "is_memo g n" "\<And>p. p \<in> P \<Longrightarrow> n < p"
    and clean: "\<And>s. s \<in> set (sources_of g n) \<Longrightarrow> clean g s"
    and run: "replay (cached g) (set (sources_of g n)) (the (B n)) = Some v"
    and obs: "\<And>q u. p = Some (q, u) \<Longrightarrow> \<not> u \<and> (q \<in> P \<or> \<not> is_memo g q)"
  shows "inv B P N ov (if ov n = Some v then {} else {x. n \<in> set (sources_of g x)}) (finish_run n v p g)"
    (is "inv B P N ov ?X ?h")
proof -
  have nP: "n \<notin> P" using n(2) by blast
  have below: "s < x" if "s \<in> set (sources_of g x)" for s x
    using inv that by (auto simp: inv_def edges_ok_def)
  have "cache_ok B P ov ?X ?h"
    unfolding cache_ok_def
  proof (intro allI impI, elim conjE)
    fix x assume x: "is_memo ?h x" "x \<notin> P" "x \<notin> ?X" "memo_state ?h x \<noteq> Dirty"
    show "\<exists>w. memo_value ?h x = Some w \<and>
        replay (past P ov ?h) (set (sources_of ?h x)) (the (B x)) = Some w"
    proof (cases "x = n")
      case True
      have "replay (past P ov ?h) (set (sources_of g n)) (the (B n)) =
          replay (cached g) (set (sources_of g n)) (the (B n))"
      proof (rule replay_cong)
        fix s assume "s \<in> set (sources_of g n)"
        then have "s < n" by (rule below)
        then have "s \<notin> P" "s \<noteq> n" using n(2) [of s] by auto
        then show "past P ov ?h s = cached g s"
          using n(1) by (simp add: past_def frame_simps)
      qed
      with True run n(1) show ?thesis by (simp add: frame_simps)
    next
      case False
      with x n(1) inv obtain w where w: "memo_value g x = Some w"
        "replay (past (insert n P) ov g) (set (sources_of g x)) (the (B x)) = Some w"
        by (auto simp: inv_def cache_ok_def frame_simps)
      have "replay (past P ov ?h) (set (sources_of g x)) (the (B x)) =
          replay (past (insert n P) ov g) (set (sources_of g x)) (the (B x))"
        using x(3) n(1) nP by (intro replay_cong) (auto simp: past_def frame_simps split: if_splits)
      with w False n(1) show ?thesis by (simp add: frame_simps)
    qed
  qed
  moreover have "clean_ok P ?h"
    using inv n clean nP by (auto simp: inv_def clean_ok_def frame_simps)
  moreover have "pending_ok P N ?h"
    using inv n(1) by (auto simp: inv_def pending_ok_def frame_simps)
  moreover have "observer_ok P ?h"
    using obs by (auto simp: observer_ok_def frame_simps)
  moreover have "edges_ok ?h"
    using inv by (simp add: inv_def edges_ok_def frame_simps)
  ultimately show ?thesis
    using inv by (simp add: inv_def bodies_ok_def frame_simps)
qed

lemma notify_changed_ok:
  assumes "forward g K" "K < k"
  shows "\<exists>h. notify_changed k n g = Inr h \<and>
    reaches {x \<in> set (subscribers_of g n). \<not> observer_is x g} g h \<and>
    (\<forall>x\<in>set (subscribers_of g n). \<not> observer_is x g \<longrightarrow> was_marked_dirty h x)"
proof -
  let ?S = "\<lambda>x. if observer_is x g then {} else {x}"
  let ?Q = "\<lambda>x h. \<not> observer_is x g \<longrightarrow> was_marked_dirty h x"
  have body: "\<exists>h'. (if observer_is x h then Inr h else mark_dirty k x h) = Inr h' \<and> reaches (?S x) h h' \<and> ?Q x h'"
    if m: "marks g h" for x h
  proof -
    have "observer_is x h = observer_is x g" by (simp add: observer_is_def marksD [OF m])
    moreover have "forward h K" using m assms(1) by (simp add: marks_forward)
    ultimately show ?thesis using mark_dirty_spec [of h K k x] assms(2) by auto
  qed
  have "\<exists>h. notify_changed k n g = Inr h \<and> reaches (\<Union>x\<in>set (subscribers_of g n). ?S x) g h \<and>
      (\<forall>x\<in>set (subscribers_of g n). ?Q x h)"
    unfolding notify_changed_def
    by (rule foreach_reaches) (use body was_marked_dirty_marks in blast)+
  moreover have "(\<Union>x\<in>set (subscribers_of g n). ?S x) =
      {x \<in> set (subscribers_of g n). \<not> observer_is x g}" by auto
  ultimately show ?thesis by simp
qed

lemma inv_marked:
  assumes "inv B P N ov X g" "\<And>x. x \<in> X \<Longrightarrow> is_memo g x \<Longrightarrow> x \<notin> P \<Longrightarrow> memo_state g x = Dirty"
  shows "inv B P N ov {} g"
  using assms by (auto simp: inv_def cache_ok_def)

lemma inv_past_cong:
  assumes "inv B P N ov X g" "\<And>p. p \<in> P \<Longrightarrow> ov' p = ov p"
  shows "inv B P N ov' X g"
proof -
  have "past P ov' g = past P ov g" using assms(2) by (auto simp: past_def fun_eq_iff)
  with assms(1) show ?thesis by (simp add: inv_def cache_ok_def)
qed

lemma readers_stale:
  assumes "inv B P N ov X g" "stale g n" "n \<in> set (sources_of g x)" "is_memo g x"
  shows "stale g x"
  using assms by (auto simp: inv_def clean_ok_def clean_stale)

lemma with_observer_run:
  assumes "f (g\<lparr>observer := Some (n, False)\<rparr>) = Inr (a, h)" "\<And>q u. observer g = Some (q, u) \<Longrightarrow> \<not> u"
  shows "with_observer (Some n) f g = Inr (a, h\<lparr>observer := observer g\<rparr>)"
proof -
  have "map_option (\<lambda>m. (m, False)) (map_option fst (observer g)) = observer g"
    using assms(2) by (cases "observer g") auto
  with assms(1) show ?thesis
    by (simp add: with_observer_def observer_replace_def observer_set_def)
qed

lemma recompute_ok:
  assumes upd: "updates_below B K n upd" and inv: "inv B P N ov {} g"
    and m: "nodes g n = Some (MemoNode m)" and st: "stale g n" and P: "\<And>p. p \<in> P \<Longrightarrow> n < p"
    and bound: "bounded K g" and k: "K < k"
  shows "\<exists>b h. recompute k upd n m g = Inr (b, h) \<and> inv B P N ov {} h \<and> keeps (Suc n) g h \<and> clean h n"
proof -
  let ?P = "insert n P" and ?ov = "ov(n := memo_value g n)" and ?g3 = "start_run n g"
  have memo: "is_memo g n" and nP: "n \<notin> P" and old: "memo_value g n = m_value m"
    using m P by (auto simp: is_memo_nodes memo_value_def)
  obtain c where c: "B n = Some c" "m_fun m = memo_fun c" "body_ok (\<lambda>s. s < n \<and> readable g s) c"
    using inv memo m by (auto simp: inv_def bodies_ok_def shape_def)
  note sr = inv_start_run [OF inv memo st nP]
  have "\<exists>v g5. run_comp upd (set_signal k) (map_comp (\<lambda>v. (v, m_value m \<noteq> Some v)) c) ?g3 =
      Inr ((v, m_value m \<noteq> Some v), g5) \<and> inv B ?P N ?ov {} g5 \<and> keeps (Suc n) ?g3 g5 \<and>
      (\<forall>s\<in>set (sources_of g5 n). clean g5 s) \<and> set (sources_of ?g3 n) \<subseteq> set (sources_of g5 n) \<and>
      replay (cached g5) (set (sources_of g5 n)) c = Some v"
    using P c(3) bound memo by (intro run_comp_ok [OF upd _ _ sr(1)]) (auto simp: frame_simps dest: less_imp_le)
  then obtain v g5 where g5:
    "run_comp upd (set_signal k) (m_fun m (m_value m)) ?g3 = Inr ((v, m_value m \<noteq> Some v), g5)"
    "inv B ?P N ?ov {} g5" "keeps (Suc n) ?g3 g5" "\<And>s. s \<in> set (sources_of g5 n) \<Longrightarrow> clean g5 s"
    "replay (cached g5) (set (sources_of g5 n)) c = Some v"
    by (auto simp: c(2) memo_fun_def)
  let ?g6 = "finish_run n v (observer g) g5"
  have obs: "\<not> u \<and> (q \<in> P \<or> \<not> is_memo g q)" if "observer g = Some (q, u)" for q u
    using inv that by (auto simp: inv_def observer_ok_def)
  have memo5: "is_memo g5 = is_memo g" using keepsD(3) [OF g5(3)] by (simp add: frame_simps)
  define X where "X = (if m_value m = Some v then {} else {x. n \<in> set (sources_of g5 x)})"
  have inv6: "inv B P N ov X ?g6"
  proof (rule inv_past_cong)
    have "inv B P N ?ov (if ?ov n = Some v then {} else {x. n \<in> set (sources_of g5 x)}) ?g6"
      using memo obs g5(5) c(1) memo5 by (intro inv_finish_run [OF g5(2) _ P g5(4)]) auto
    then show "inv B P N ?ov X ?g6"
      by (simp add: X_def old split: if_splits)
  qed (use nP in auto)
  have "keeps (Suc n) g (g5\<lparr>observer := observer g\<rparr>)"
    using keeps_observer [OF keeps_trans [OF sr(2) g5(3)]] by simp
  then have k6: "keeps (Suc n) g ?g6"
    using memo memo5 st by (auto simp: keeps_def frame_simps clean_stale)
  have clean6: "clean ?g6 n" using memo memo5 by (simp add: frame_simps)
  let ?g2 = "clear_sources n (upd_memo n (\<lambda>m. m\<lparr>m_value := None\<rparr>) g)"
  have obs2: "observer ?g2 = observer g" by (simp add: frame_simps)
  have wo: "with_observer (Some n) (run_comp upd (set_signal k) (m_fun m (m_value m))) ?g2 =
      Inr ((v, m_value m \<noteq> Some v), g5\<lparr>observer := observer g\<rparr>)"
    using with_observer_run [where g = ?g2 and n = n and
        f = "run_comp upd (set_signal k) (m_fun m (m_value m))", unfolded obs2]
      g5(1) [unfolded start_run_def] obs by blast
  have eq: "recompute k upd n m g =
      (if m_value m \<noteq> Some v
       then (case notify_changed k n ?g6 of Inl e \<Rightarrow> Inl e | Inr h \<Rightarrow> Inr (True, h)) else Inr (False, ?g6))"
    using wo by (simp add: recompute_def finish_run_def Let_def)
  show ?thesis
  proof (cases "m_value m = Some v")
    case True
    then show ?thesis using eq inv6 k6 clean6 by (auto simp: X_def)
  next
    case False
    have "forward ?g6 K"
      using inv_forward [OF inv6] bound keepsD(7) [OF k6] by simp
    then obtain h where h: "notify_changed k n ?g6 = Inr h"
      "reaches {x \<in> set (subscribers_of ?g6 n). \<not> observer_is x ?g6} ?g6 h"
      "\<forall>x\<in>set (subscribers_of ?g6 n). \<not> observer_is x ?g6 \<longrightarrow> was_marked_dirty h x"
      using notify_changed_ok [OF _ k] by blast
    note m6 = reachesD(1) [OF h(2)]
    have roots: "stale ?g6 x" if "x \<in> set (subscribers_of ?g6 n)" "is_memo ?g6 x" for x
    proof -
      have src: "n \<in> set (sources_of ?g6 x)"
        using inv_edges(4) [OF inv6 that(1)] that(2) by (blast intro: readable_alive)
      then have x: "Suc n \<le> x" using inv_edges(1) [OF inv6] by (simp add: Suc_leI)
      have "stale g x"
        using src that(2) keepsD(11) [OF k6 x] keepsD(3) [OF k6] by (intro readers_stale [OF inv st]) auto
      then show ?thesis by (rule keepsD(13) [OF k6 x])
    qed
    note r = inv_reaches [OF inv6 h(2)]
    have "inv B P N ov {} h"
    proof (rule inv_marked)
      show "inv B P N ov X h" using r(1) roots by blast
      fix x assume x: "x \<in> X" "is_memo h x" "x \<notin> P"
      then have "x \<in> set (subscribers_of ?g6 n)"
        using inv6 by (auto simp: X_def inv_def edges_ok_def frame_simps split: if_splits)
      moreover have "\<not> observer_is x ?g6"
        using x obs keepsD(3) [OF k6] by (auto simp: observer_is_def frame_simps marksD [OF m6])
      ultimately show "memo_state h x = Dirty"
        using h(3) x(2) by (auto simp: was_marked_dirty_def)
    qed
    moreover have "keeps (Suc n) ?g6 h" using r(2) roots by blast
    ultimately show ?thesis
      using False eq h(1) keeps_trans [OF k6] keepsD(8) [of "Suc n" ?g6 h n] clean6 by auto
  qed
qed

subsection \<open>Updating a memo\<close>

lemma any_source_ok:
  assumes upd: "updates_below B K n upd" and P: "\<And>p. p \<in> P \<Longrightarrow> n < p"
    and "inv B P N ov {} g" "bounded K g" "\<And>s. s \<in> set ss \<Longrightarrow> s < n \<and> readable g s"
    "\<not> stop g"
  shows "\<exists>b h. any_source upd stop ss g = Inr (b, h) \<and> inv B P N ov {} h \<and> keeps n g h \<and>
    (\<not> b \<longrightarrow> \<not> stop h \<and> (\<forall>s\<in>set ss. clean h s))"
  using assms(3-)
proof (induction ss arbitrary: g)
  case (Cons s ss)
  have "s < n" "readable g s" using Cons.prems(3) by auto
  then obtain b h where h: "upd s g = Inr (b, h)" "inv B P N ov {} h" "keeps (Suc s) g h" "clean h s"
    using updates_belowD [OF upd _ Cons.prems(1) _ _ Cons.prems(2)] P by (metis less_trans)
  have kn: "keeps n g h" using h(3) \<open>s < n\<close> by (auto intro: keeps_mono)
  show ?case
  proof (cases "b \<or> stop h")
    case True
    then show ?thesis using h(1,2) kn by auto
  next
    case False
    have "\<exists>b' h'. any_source upd stop ss h = Inr (b', h') \<and> inv B P N ov {} h' \<and> keeps n h h' \<and>
        (\<not> b' \<longrightarrow> \<not> stop h' \<and> (\<forall>s\<in>set ss. clean h' s))"
      using Cons.prems(2,3) False keepsD(5,7) [OF kn] h(2) by (intro Cons.IH) auto
    then obtain b' h' where h': "any_source upd stop ss h = Inr (b', h')" "inv B P N ov {} h'"
      "keeps n h h'" "\<not> b' \<longrightarrow> \<not> stop h' \<and> (\<forall>s\<in>set ss. clean h' s)" by blast
    then show ?thesis
      using False h(1,4) keeps_trans [OF kn h'(3)] keepsD(8) [OF h'(3), of s] by auto
  qed
qed auto

lemma needs_update_ok:
  assumes upd: "updates_below B K n upd" and inv: "inv B P N ov {} g" and P: "\<And>p. p \<in> P \<Longrightarrow> n < p"
    and bound: "bounded K g" and m: "nodes g n = Some (MemoNode m)"
  shows "\<exists>b h. needs_update upd n m g = Inr (b, h) \<and> inv B P N ov {} h \<and> keeps n g h \<and>
    (b \<longrightarrow> stale h n) \<and>
    (\<not> b \<longrightarrow> memo_state h n \<noteq> Dirty \<and> (\<forall>s\<in>set (sources_of h n). clean h s))"
proof -
  have st: "memo_state g n = m_state m" and src: "sources_of g n = m_sources m" and memo: "is_memo g n"
    using m by (auto simp: memo_state_def sources_of_def is_memo_nodes)
  show ?thesis
  proof (cases "m_state m")
    case Clean
    then show ?thesis
      using inv memo st by (auto simp: needs_update_def inv_def clean_ok_def stale_def)
  next
    case Dirty
    then show ?thesis using inv st by (auto simp: needs_update_def stale_def)
  next
    case Check
    have "\<exists>b h. any_source upd (\<lambda>g'. memo_state g' n = Dirty) (m_sources m) g = Inr (b, h) \<and>
        inv B P N ov {} h \<and> keeps n g h \<and>
        (\<not> b \<longrightarrow> \<not> memo_state h n = Dirty \<and> (\<forall>s\<in>set (m_sources m). clean h s))"
    proof (rule any_source_ok [OF upd P inv bound])
      show "s < n \<and> readable g s" if "s \<in> set (m_sources m)" for s
        using inv that unfolding inv_def edges_ok_def src [symmetric] by blast
    qed (use st Check in auto)
    then obtain b h where h: "any_source upd (\<lambda>g'. memo_state g' n = Dirty) (m_sources m) g = Inr (b, h)"
      "inv B P N ov {} h" "keeps n g h"
      "\<not> b \<longrightarrow> \<not> memo_state h n = Dirty \<and> (\<forall>s\<in>set (m_sources m). clean h s)" by blast
    have "stale h n" "sources_of h n = m_sources m"
      using keepsD(11,13) [OF h(3), of n] st src Check by (auto simp: stale_def)
    then show ?thesis using h Check by (auto simp: needs_update_def)
  qed
qed

lemma inv_set_clean:
  assumes inv: "inv B P N ov {} g" and n: "is_memo g n" "n \<notin> P" "memo_state g n \<noteq> Dirty"
    and src: "\<And>s. s \<in> set (sources_of g n) \<Longrightarrow> clean g s"
  shows "inv B P N ov {} (upd_memo n (\<lambda>m. m\<lparr>m_state := Clean\<rparr>) g)" (is "inv _ _ _ _ _ ?h")
    and "keeps (Suc n) g (upd_memo n (\<lambda>m. m\<lparr>m_state := Clean\<rparr>) g)"
    and "clean (upd_memo n (\<lambda>m. m\<lparr>m_state := Clean\<rparr>) g) n"
proof -
  have sh: "shape ?h = shape g" by (simp add: frame_simps)
  note kinds = shape_cong [OF sh]
  have st: "memo_state ?h = (memo_state g)(n := Clean)" by (rule memo_state_upd_memo) (rule n(1))
  have stale: "stale ?h x \<longleftrightarrow> x \<noteq> n \<and> stale g x" for x by (simp add: stale_def st)
  have clean: "clean ?h x \<longleftrightarrow> x = n \<or> clean g x" for x
    using n(1) by (auto simp: clean_stale kinds stale)
  have past: "past P ov ?h = past P ov g"
    by (auto simp: fun_eq_iff past_def frame_simps intro: cached_cong)
  show "clean ?h n" by (simp add: clean)
  show "keeps (Suc n) g ?h" by (auto simp: keeps_def frame_simps clean stale)
  have "cache_ok B P ov {} ?h"
    using inv n by (auto simp: inv_def cache_ok_def kinds frame_simps past st)
  moreover have "clean_ok P ?h"
    using inv n src by (auto simp: inv_def clean_ok_def kinds frame_simps clean stale)
  moreover have "pending_ok P N ?h"
    using inv by (auto simp: inv_def pending_ok_def frame_simps clean)
  moreover have "observer_ok P ?h"
    using inv by (auto simp: inv_def observer_ok_def frame_simps kinds)
  ultimately show "inv B P N ov {} ?h"
    using inv by (simp add: inv_def bodies_ok_def edges_ok_def frame_simps kinds)
qed

text \<open>
  Fuel: one unit per step down the sources (at most \<open>n\<close>), and what marking needs.
\<close>

lemma update_below: "Suc (K + n) < k \<Longrightarrow> updates_below B K (Suc n) (update_if_necessary k)"
proof (induction k arbitrary: n)
  case (Suc k)
  show ?case
    unfolding updates_below_def
  proof (intro allI impI)
    fix s P N ov and g :: "'a graph"
    assume s: "s < Suc n" and inv: "inv B P N ov {} g" and rd: "readable g s"
      and P: "\<forall>p\<in>P. s < p" and bound: "bounded K g"
    have kk: "K < k" using Suc.prems by simp
    have below: "updates_below B K s (update_if_necessary k)"
    proof (cases s)
      case (Suc t)
      with s Suc.prems have "updates_below B K (Suc t) (update_if_necessary k)"
        by (intro Suc.IH) simp
      with Suc show ?thesis by simp
    qed (simp add: updates_below_def)
    show "\<exists>b h. update_if_necessary (Suc k) s g = Inr (b, h) \<and> inv B P N ov {} h \<and> keeps (Suc s) g h \<and> clean h s"
    proof (cases "is_memo g s")
      case False
      then obtain v ss where sig: "nodes g s = Some (SignalNode v ss)"
        using rd by (auto simp: readable_def signal_nodes)
      with False rd inv show ?thesis by (auto simp: clean_def)
    next
      case True
      then obtain m where m: "nodes g s = Some (MemoNode m)" by (auto simp: is_memo_nodes)
      obtain b g1 where g1: "needs_update (update_if_necessary k) s m g = Inr (b, g1)"
        "inv B P N ov {} g1" "keeps s g g1" "b \<Longrightarrow> stale g1 s"
        "\<not> b \<Longrightarrow> memo_state g1 s \<noteq> Dirty \<and> (\<forall>x\<in>set (sources_of g1 s). clean g1 x)"
        using needs_update_ok [OF below inv _ bound m] P by blast
      have memo1: "is_memo g1 s" and bound1: "bounded K g1"
        using True bound keepsD(3,7) [OF g1(3)] by auto
      then obtain m1 where m1: "nodes g1 s = Some (MemoNode m1)" by (auto simp: is_memo_nodes)
      show ?thesis
      proof (cases b)
        case True
        obtain b' h where "recompute k (update_if_necessary k) s m1 g1 = Inr (b', h)"
          "inv B P N ov {} h" "keeps (Suc s) g1 h" "clean h s"
          using recompute_ok [OF below g1(2) m1 g1(4) [OF True] _ bound1 kk] P by blast
        with True m g1(1) m1 keeps_trans [OF g1(3)] show ?thesis by auto
      next
        case False
        have "s \<notin> P" using P by blast
        note sc = inv_set_clean [OF g1(2) memo1 this]
        show ?thesis
          using False m g1(1,5) sc keeps_trans [OF g1(3)] by auto
      qed
    qed
  qed
qed simp

end
