(* ===== verification/Reactive_Spec.thy ===== *)
theory Reactive_Spec
  imports Reactive_Update
begin

text \<open>
  An abstract specification of the reactive system and its refinement by the graph. A
  program is the list of the nodes created so far; the value of a memo is what its
  closure computes from scratch out of the current values of the signals. Reading a memo
  from the graph, after any sequence of operations, gives that value.
\<close>

subsection \<open>The specification\<close>

datatype 'v ndef =
    ASignal 'v
  | AMemo "('v, 'v) comp"
  | AEffect "('v, 'v) comp"
  | AGone

type_synonym 'v program = "'v ndef list"

primrec spec_upto :: "'v program \<Rightarrow> nat \<Rightarrow> node_id \<Rightarrow> 'v option" where
  "spec_upto D 0 = (\<lambda>_. None)"
| "spec_upto D (Suc n) = (spec_upto D n)(n :=
     if n < length D
     then (case D ! n of ASignal v \<Rightarrow> Some v | AMemo c \<Rightarrow> replay (spec_upto D n) UNIV c | _ \<Rightarrow> None)
     else None)"

definition spec_value :: "'v program \<Rightarrow> node_id \<Rightarrow> 'v option" where
  "spec_value D n = spec_upto D (Suc n) n"

definition readable_in :: "'v program \<Rightarrow> node_id \<Rightarrow> bool" where
  "readable_in D s \<longleftrightarrow>
     s < length D \<and> (case D ! s of ASignal v \<Rightarrow> True | AMemo c \<Rightarrow> True | _ \<Rightarrow> False)"

definition closure_ok :: "'v program \<Rightarrow> nat \<Rightarrow> ('v, 'v) comp \<Rightarrow> bool" where
  "closure_ok D n c \<longleftrightarrow> body_ok (\<lambda>s. s < n \<and> readable_in D s) c"

datatype 'v op =
    NewSignal 'v
  | NewMemo "('v, 'v) comp"
  | NewEffect "('v, 'v) comp"
  | SetSignal node_id 'v
  | GetValue node_id
  | PollEffect node_id bool
  | DropEffect node_id

primrec valid_op :: "'v program \<Rightarrow> 'v op \<Rightarrow> bool" where
  "valid_op D (NewSignal v) = True"
| "valid_op D (NewMemo c) = closure_ok D (length D) c"
| "valid_op D (NewEffect c) = closure_ok D (length D) c"
| "valid_op D (SetSignal n v) = (n < length D \<and> (\<exists>w. D ! n = ASignal w))"
| "valid_op D (GetValue n) = readable_in D n"
| "valid_op D (PollEffect n paused) = (n < length D)"
| "valid_op D (DropEffect n) = (n < length D \<and> (\<exists>c. D ! n = AEffect c))"

primrec spec_step :: "'v program \<Rightarrow> 'v op \<Rightarrow> 'v option list \<times> 'v program" where
  "spec_step D (NewSignal v) = ([], D @ [ASignal v])"
| "spec_step D (NewMemo c) = ([], D @ [AMemo c])"
| "spec_step D (NewEffect c) = ([], D @ [AEffect c])"
| "spec_step D (SetSignal n v) = ([], D[n := ASignal v])"
| "spec_step D (GetValue n) = ([spec_value D n], D)"
| "spec_step D (PollEffect n paused) = ([], D)"
| "spec_step D (DropEffect n) = ([], D[n := AGone])"

primrec spec_outputs :: "'v program \<Rightarrow> 'v op list \<Rightarrow> 'v option list" where
  "spec_outputs D [] = []"
| "spec_outputs D (x # xs) = (case spec_step D x of (out, D') \<Rightarrow> out @ spec_outputs D' xs)"

primrec valid_ops :: "'v program \<Rightarrow> 'v op list \<Rightarrow> bool" where
  "valid_ops D [] = True"
| "valid_ops D (x # xs) = (valid_op D x \<and> valid_ops (snd (spec_step D x)) xs)"

text \<open>The graph executes the same operations; \<open>n\<close> is the identifier the next node gets.\<close>

primrec exec_step :: "nat \<Rightarrow> nat \<Rightarrow> 'v op \<Rightarrow> 'v graph \<Rightarrow> ('v list \<times> nat \<times> 'v graph) result" where
  "exec_step k n (NewSignal v) g = Inr ([], Suc n, new_signal n v g)"
| "exec_step k n (NewMemo c) g = Inr ([], Suc n, new_memo n (\<lambda>_. c) g)"
| "exec_step k n (NewEffect c) g = Inr ([], Suc n, new_effect n (\<lambda>_. c) g)"
| "exec_step k n (SetSignal s v) g =
     (case set_signal k s v g of Inl e \<Rightarrow> Inl e | Inr h \<Rightarrow> Inr ([], n, h))"
| "exec_step k n (GetValue s) g =
     (case get_value k s g of Inl e \<Rightarrow> Inl e | Inr (v, h) \<Rightarrow> Inr ([v], n, h))"
| "exec_step k n (PollEffect s paused) g =
     (case poll_effect k paused s g of Inl e \<Rightarrow> Inl e | Inr h \<Rightarrow> Inr ([], n, h))"
| "exec_step k n (DropEffect s) g = Inr ([], n, drop_node s g)"

primrec exec_ops :: "nat \<Rightarrow> nat \<Rightarrow> 'v op list \<Rightarrow> 'v graph \<Rightarrow> ('v list \<times> 'v graph) result" where
  "exec_ops k n [] g = Inr ([], g)"
| "exec_ops k n (x # xs) g =
     (case exec_step k n x g of
        Inl e \<Rightarrow> Inl e
      | Inr (out, n', h) \<Rightarrow>
          (case exec_ops k n' xs h of Inl e \<Rightarrow> Inl e | Inr (out', h') \<Rightarrow> Inr (out @ out', h')))"

definition empty_graph :: "(nat \<Rightarrow> nat) \<Rightarrow> 'v graph" where
  "empty_graph a = \<lparr>nodes = Map.empty, observer = None, allocator = a\<rparr>"

subsection \<open>The abstraction\<close>

definition bodies_of :: "'v program \<Rightarrow> 'v bodies" where
  "bodies_of D n = (if n < length D then (case D ! n of AMemo c \<Rightarrow> Some c | _ \<Rightarrow> None) else None)"

definition rep :: "'v program \<Rightarrow> node_id \<Rightarrow> 'v shape option \<Rightarrow> bool" where
  "rep D n s \<longleftrightarrow> (case s of
     None \<Rightarrow> n < length D \<longrightarrow> D ! n = AGone
   | Some (SSignal v) \<Rightarrow> n < length D \<and> D ! n = ASignal v
   | Some (SMemo f) \<Rightarrow> n < length D \<and> (\<exists>c. D ! n = AMemo c \<and> f = memo_fun c \<and> closure_ok D n c)
   | Some (SEffect f v b) \<Rightarrow> n < length D \<and> (\<exists>c. D ! n = AEffect c \<and> f = (\<lambda>_. c) \<and> closure_ok D n c))"

definition good :: "'v program \<Rightarrow> 'v graph \<Rightarrow> bool" where
  "good D g \<longleftrightarrow> (\<forall>n. rep D n (shape g n)) \<and> inv (bodies_of D) {} {} (\<lambda>_. None) {} g \<and>
     observer g = None \<and> (\<forall>s. set (subscribers_of g s) \<subseteq> {..<length D})"

lemma good_rep: "good D g \<Longrightarrow> rep D n (shape g n)"
  by (simp add: good_def)

lemma rep_readable:
  assumes "\<And>n. rep D n (shape g n)"
  shows "readable g n \<longleftrightarrow> readable_in D n"
proof (cases "shape g n")
  case None
  then show ?thesis
    using assms [of n] by (auto simp: rep_def readable_def is_memo_def readable_in_def)
next
  case (Some a)
  then show ?thesis
    using assms [of n]
    by (cases a) (auto simp: rep_def readable_def is_memo_def readable_in_def)
qed


lemma good_facts:
  assumes "good D g"
  shows "readable g n \<longleftrightarrow> readable_in D n" "bounded (length D) g"
    "inv (bodies_of D) {} {} (\<lambda>_. None) {} g" "observer g = None"
proof -
  have r: "\<And>n. rep D n (shape g n)" using assms by (simp add: good_def)
  show "readable g n \<longleftrightarrow> readable_in D n" using r by (rule rep_readable)
  have "alive g x \<Longrightarrow> x < length D" for x
    using r [of x] by (cases "shape g x") (auto simp: alive_shape rep_def split: shape.splits)
  then show "bounded (length D) g" by (simp add: bounded_def)
qed (use assms in \<open>simp_all add: good_def\<close>)

lemma bodies_of_rep:
  assumes "\<And>n. rep D n (shape g n)"
  shows "bodies_ok (bodies_of D) g"
  unfolding bodies_ok_def
proof (intro allI impI)
  fix n assume "is_memo g n"
  then obtain c where c: "shape g n = Some (SMemo (memo_fun c))" "n < length D" "D ! n = AMemo c"
    "closure_ok D n c"
    using assms [of n] by (auto simp: is_memo_def rep_def)
  then have "body_ok (\<lambda>s. s < n \<and> readable g s) c"
    by (simp add: closure_ok_def rep_readable [OF assms])
  with c show "\<exists>c. bodies_of D n = Some c \<and> shape g n = Some (SMemo (memo_fun c)) \<and>
      body_ok (\<lambda>s. s < n \<and> readable g s) c"
    by (simp add: bodies_of_def)
qed

subsection \<open>Up-to-date memos hold the specified value\<close>

lemma spec_upto_below: "s < n \<Longrightarrow> spec_upto D n s = spec_value D s"
  by (induction n) (auto simp: spec_value_def less_Suc_eq)

lemma spec_upto_above: "n \<le> s \<Longrightarrow> spec_upto D n s = None"
  by (induction n) auto

lemma replay_UNIV:
  "replay env S c = Some v \<Longrightarrow> (\<And>s. s \<in> S \<Longrightarrow> env' s = env s) \<Longrightarrow> replay env' UNIV c = Some v"
  by (induction c) (auto split: option.splits if_splits)

lemma clean_spec:
  assumes good: "good D g" and "clean g n"
  shows "cached g n = spec_value D n"
  using assms(2)
proof (induction n rule: less_induct)
  case (less n)
  note inv = good_facts(3) [OF good]
  show ?case
  proof (cases "is_memo g n")
    case False
    then obtain v where v: "shape g n = Some (SSignal v)"
      using less.prems by (auto simp: clean_def readable_def)
    then have "n < length D" "D ! n = ASignal v"
      using good_rep [OF good, of n] by (auto simp: rep_def)
    with v show ?thesis by (simp add: cached_def spec_value_def)
  next
    case True
    then obtain c where c: "n < length D" "D ! n = AMemo c"
      using good_rep [OF good, of n] by (auto simp: rep_def is_memo_def)
    have st: "memo_state g n \<noteq> Dirty" "\<not> stale g n"
      using less.prems by (auto simp: clean_def stale_def)
    then obtain v where v: "memo_value g n = Some v"
      "replay (past {} (\<lambda>_. None) g) (set (sources_of g n)) c = Some v"
      using inv True c by (auto simp: inv_def cache_ok_def bodies_of_def)
    have "replay (spec_upto D n) UNIV c = Some v"
    proof (rule replay_UNIV [OF v(2)])
      fix s assume s: "s \<in> set (sources_of g n)"
      then have "s < n" by (rule inv_edges(1) [OF inv])
      moreover have "clean g s" using inv True st(2) s by (auto simp: inv_def clean_ok_def)
      ultimately show "spec_upto D n s = past {} (\<lambda>_. None) g s"
        using less.IH by (simp add: spec_upto_below past_def)
    qed
    with c v(1) True show ?thesis by (simp add: cached_memo spec_value_def)
  qed
qed

subsection \<open>Every operation keeps the abstraction\<close>

lemma good_keeps:
  assumes good: "good D g" and k: "keeps R g h" and inv: "inv (bodies_of D) {} {} (\<lambda>_. None) {} h"
  shows "good D h"
proof -
  have "set (subscribers_of h s) \<subseteq> {..<length D}" for s
  proof -
    have "set (subscribers_of h s) \<subseteq> set (subscribers_of g s) \<union> Collect (alive g)"
      using k by (simp add: keeps_def)
    then show ?thesis
      using good good_facts(2) [OF good] by (force simp: good_def bounded_def)
  qed
  with good inv show ?thesis by (simp add: good_def keepsD(1,2) [OF k])
qed

lemma get_value_ok:
  assumes good: "good D g" and n: "readable_in D n" and k: "2 * length D < k"
  shows "\<exists>v h. get_value k n g = Inr (v, h) \<and> good D h \<and> keeps (Suc n) g h \<and>
    clean h n \<and> spec_value D n = Some v"
proof -
  note facts = good_facts [OF good]
  have rd: "readable g n" using n by (simp add: facts(1))
  have "n < length D" using n by (simp add: readable_in_def)
  then have "updates_below (bodies_of D) (length D) (Suc n) (update_if_necessary k)"
    using k by (intro update_below) simp
  from read_untracked_ok [OF this _ rd _ facts(3,2)]
  obtain v h where h: "read_untracked (update_if_necessary k) n g = Inr (v, h)"
    "inv (bodies_of D) {} {} (\<lambda>_. None) {} h" "keeps (Suc n) g h" "clean h n" "cached h n = Some v"
    by auto
  have "track n g = g" by (simp add: track_def observer_get_def facts(4))
  moreover have gh: "good D h" using good h(3,2) by (rule good_keeps)
  ultimately show ?thesis
    using h clean_spec [OF gh h(4)] by (auto simp: get_value_def read_tracked_def)
qed

end
