(* ===== verification/Reactive_Correct.thy ===== *)
theory Reactive_Correct
  imports Reactive_Spec
begin

text \<open>
  The remaining operations keep the abstraction: creating nodes, setting signals, polling
  and dropping effects. The properties of the reactive graph are at the end.
\<close>

subsection \<open>New nodes\<close>

lemma closure_ok_append: "closure_ok D n c \<Longrightarrow> closure_ok (D @ [d]) n c"
  unfolding closure_ok_def by (erule body_ok_mono) (auto simp: readable_in_def nth_append)

lemma rep_append: "rep D n s \<Longrightarrow> n < length D \<Longrightarrow> rep (D @ [d]) n s"
  by (auto simp: rep_def nth_append closure_ok_append split: option.splits shape.splits)

text \<open>A fresh node has no edges; a fresh memo is dirty.\<close>

lemma good_new_node:
  assumes good: "good D g" and rep: "rep (D @ [d]) (length D) (Some (node_shape x))"
    and x: "node_sources x = []" "node_subscribers x = []" "\<And>m. x = MemoNode m \<Longrightarrow> m_state m = Dirty"
  shows "good (D @ [d]) (set_node (length D) x g)"
proof -
  let ?n = "length D" and ?h = "set_node (length D) x g"
  note inv = good_facts(3) [OF good]
  have dead: "nodes g ?n = None"
    using good_facts(2) [OF good] by (auto simp: bounded_def alive_def)
  then have sh: "shape ?h = (shape g)(?n \<mapsto> node_shape x)" and src: "sources_of ?h = sources_of g"
    and subs: "subscribers_of ?h = subscribers_of g"
    using x by (auto simp: shape_def sources_of_def subscribers_of_def fun_eq_iff)
  have other: "is_memo ?h y = is_memo g y" "readable ?h y = readable g y" "alive ?h y = alive g y"
    "memo_state ?h y = memo_state g y" "memo_value ?h y = memo_value g y" "cached ?h y = cached g y"
    if "y \<noteq> ?n" for y
    using that by (auto simp: is_memo_def readable_def alive_def sh cached_def memo_state_def memo_value_def
        split: option.split shape.split)
  have no_edge: "?n \<notin> set (sources_of g y)" "?n \<notin> set (subscribers_of g y)" "sources_of g ?n = []" for y
    using good good_facts(2) [OF good] inv_edges(2) [OF inv, of ?n y] dead
    by (auto simp: good_def readable_def is_memo_def shape_def sources_of_def)
  have new_stale: "is_memo ?h ?n \<Longrightarrow> memo_state ?h ?n = Dirty"
    using x(3) by (cases x) (auto simp: is_memo_nodes memo_state_def)
  have clean: "clean ?h y = clean g y" if "y \<noteq> ?n" for y
    using that by (simp add: clean_def other)
  have reps: "rep (D @ [d]) y (shape ?h y)" for y
    using rep good_rep [OF good, of y] good_facts(2) [OF good]
    by (cases "y < ?n") (auto simp: sh rep_append, auto simp: rep_def bounded_def alive_shape shape_def
        split: option.split)
  have bodies: "bodies_of (D @ [d]) y = bodies_of D y" if "y \<noteq> ?n" for y
    using that by (auto simp: bodies_of_def nth_append)
  have "cache_ok (bodies_of (D @ [d])) {} (\<lambda>_. None) {} ?h"
    unfolding cache_ok_def
  proof (intro allI impI, elim conjE)
    fix y assume y: "is_memo ?h y" "memo_state ?h y \<noteq> Dirty"
    then have ne: "y \<noteq> ?n" using new_stale by auto
    with y inv obtain v where "memo_value g y = Some v"
      "replay (past {} (\<lambda>_. None) g) (set (sources_of g y)) (the (bodies_of D y)) = Some v"
      by (auto simp: inv_def cache_ok_def other)
    moreover have "replay (past {} (\<lambda>_. None) ?h) (set (sources_of g y)) (the (bodies_of D y)) =
        replay (past {} (\<lambda>_. None) g) (set (sources_of g y)) (the (bodies_of D y))"
      using no_edge by (intro replay_cong) (metis empty_iff other(6) past_def)
    ultimately show "\<exists>v. memo_value ?h y = Some v \<and>
        replay (past {} (\<lambda>_. None) ?h) (set (sources_of ?h y)) (the (bodies_of (D @ [d]) y)) = Some v"
      using ne by (simp add: other src bodies)
  qed
  moreover have "clean_ok {} ?h"
    unfolding clean_ok_def
  proof (intro allI impI conjI ballI)
    fix y s assume y: "is_memo ?h y \<and> \<not> stale ?h y" and s: "s \<in> set (sources_of ?h y)"
    then have "y \<noteq> ?n" "s \<noteq> ?n" using new_stale no_edge by (auto simp: stale_def src)
    with y s inv show "clean ?h s"
      by (auto simp: inv_def clean_ok_def other clean src stale_def)
  qed simp
  moreover have "edges_ok ?h"
    unfolding edges_ok_def src subs
    using inv_edges [OF inv] other no_edge by metis
  ultimately have "inv (bodies_of (D @ [d])) {} {} (\<lambda>_. None) {} ?h"
    using bodies_of_rep [OF reps] good
    by (simp add: inv_def pending_ok_def observer_ok_def good_def)
  moreover have "set (subscribers_of ?h s) \<subseteq> {..<length (D @ [d])}" for s
    using good by (fastforce simp: subs good_def)
  ultimately show ?thesis
    using reps good by (simp add: good_def)
qed

lemma good_empty: "good [] (empty_graph a)"
  by (simp add: good_def rep_def shape_def empty_graph_def inv_def bodies_ok_def edges_ok_def cache_ok_def
      clean_ok_def pending_ok_def observer_ok_def is_memo_def sources_of_def subscribers_of_def)

lemma good_new_signal: "good D g \<Longrightarrow> good (D @ [ASignal v]) (new_signal (length D) v g)"
  unfolding new_signal_def
  by (rule good_new_node) (auto simp: rep_def subscriber_set_new_def)

lemma good_new_memo:
  "good D g \<Longrightarrow> closure_ok D (length D) c \<Longrightarrow> good (D @ [AMemo c]) (new_memo (length D) (\<lambda>_. c) g)"
  unfolding new_memo_def new_with_compare_def new_owning_def
  by (rule good_new_node)
    (auto simp: rep_def subscriber_set_new_def source_set_new_def memo_fun_def fun_eq_iff closure_ok_append)

lemma good_new_effect:
  "good D g \<Longrightarrow> closure_ok D (length D) c \<Longrightarrow> good (D @ [AEffect c]) (new_effect (length D) (\<lambda>_. c) g)"
  unfolding new_effect_def
  by (rule good_new_node) (auto simp: rep_def source_set_new_def closure_ok_append)

subsection \<open>Setting a signal\<close>

lemma set_value_frame:
  assumes "nodes g n = Some (SignalNode v ss)"
  shows "sources_of (set_node n (SignalNode w ss) g) = sources_of g"
    "subscribers_of (set_node n (SignalNode w ss) g) = subscribers_of g"
    "memo_value (set_node n (SignalNode w ss) g) = memo_value g"
    "memo_state (set_node n (SignalNode w ss) g) = memo_state g"
    "shape (set_node n (SignalNode w ss) g) = (shape g)(n \<mapsto> SSignal w)"
    "is_memo (set_node n (SignalNode w ss) g) = is_memo g"
    "is_effect (set_node n (SignalNode w ss) g) = is_effect g"
    "readable (set_node n (SignalNode w ss) g) = readable g"
    "alive (set_node n (SignalNode w ss) g) = alive g"
    "x \<noteq> n \<Longrightarrow> cached (set_node n (SignalNode w ss) g) x = cached g x"
proof -
  let ?h = "set_node n (SignalNode w ss) g"
  show fr: "sources_of ?h = sources_of g" "subscribers_of ?h = subscribers_of g"
    "memo_value ?h = memo_value g" "memo_state ?h = memo_state g" "alive ?h = alive g"
    and sh: "shape ?h = (shape g)(n \<mapsto> SSignal w)"
    using assms by (auto simp: projection_defs fun_eq_iff alive_def)
  have "shape g n = Some (SSignal v)" using assms by (simp add: shape_def)
  then show "is_memo ?h = is_memo g" "is_effect ?h = is_effect g" "readable ?h = readable g"
    by (auto simp: is_memo_def is_effect_def readable_def sh fun_eq_iff)
  show "x \<noteq> n \<Longrightarrow> cached ?h x = cached g x"
    by (intro cached_cong) (simp_all add: sh fr)
qed

text \<open>Marking everything downstream of a set that contains all memos with a wrong cache.\<close>

lemma inv_after_marks:
  assumes inv: "inv B {} {} ov X g" and r: "reaches S g h"
    and X: "\<And>x. x \<in> X \<Longrightarrow> is_memo g x \<Longrightarrow> memo_state h x = Dirty"
  shows "inv B {} {} ov {} h"
proof -
  note m = reachesD(1) [OF r]
  have past: "past {} ov h = past {} ov g"
    by (auto simp: fun_eq_iff past_def marksD(11) [OF m])
  have dirty: "memo_state h n \<noteq> Dirty \<Longrightarrow> memo_state g n \<noteq> Dirty" for n
    using m by (auto simp: marks_def) (metis Dirty_le)
  have "cache_ok B {} ov {} h"
    using inv X dirty by (auto simp: inv_def cache_ok_def past marksD [OF m])
  moreover have "clean_ok {} h"
    unfolding clean_ok_def
  proof (intro allI impI conjI ballI)
    fix n s assume n: "is_memo h n \<and> \<not> stale h n" and s: "s \<in> set (sources_of h n)"
    then have n': "is_memo g n" "\<not> stale g n" "s \<in> set (sources_of g n)"
      using marks_stale [OF m] by (auto simp: marksD [OF m])
    then have "clean g s" using inv by (auto simp: inv_def clean_ok_def)
    moreover have "\<not> stale h s"
      using reachesD(4) [OF r, of s n] n n' inv_edges(3) [OF inv n'(3)] \<open>clean g s\<close>
      by (auto simp: clean_stale marksD [OF m]) (metis not_memo_Clean marksD(7) [OF m] stale_def)
    ultimately show "clean h s" by (simp add: clean_stale marksD [OF m])
  qed simp
  moreover have "observer_ok {} h"
    using inv by (auto simp: inv_def observer_ok_def marksD [OF m])
  ultimately show ?thesis
    using inv by (simp add: inv_def bodies_ok_def edges_ok_def pending_ok_def marksD [OF m])
qed

lemma foreach_mark_dirty:
  assumes "forward g K" "K < k"
  shows "\<exists>h. foreach (mark_dirty k) xs g = Inr h \<and> reaches (set xs) g h \<and> (\<forall>x\<in>set xs. was_marked_dirty h x)"
proof -
  have "\<exists>h. foreach (mark_dirty k) xs g = Inr h \<and> reaches (\<Union>x\<in>set xs. {x}) g h \<and> (\<forall>x\<in>set xs. was_marked_dirty h x)"
    by (rule foreach_reaches)
      (use assms mark_dirty_spec marks_forward was_marked_dirty_marks in blast)+
  then show ?thesis by simp
qed

lemma closure_ok_update: "D ! n = ASignal w \<Longrightarrow> closure_ok (D[n := ASignal v]) m c = closure_ok D m c"
proof -
  assume "D ! n = ASignal w"
  then have "readable_in (D[n := ASignal v]) s = readable_in D s" for s
    by (cases "s = n") (auto simp: readable_in_def nth_list_update)
  then show ?thesis by (simp add: closure_ok_def)
qed

lemma rep_update:
  assumes "rep D m s" "D ! n = ASignal w" "n < length D"
  shows "rep (D[n := ASignal v]) m (if m = n then Some (SSignal v) else s)"
  using assms by (auto simp: rep_def closure_ok_update nth_list_update split: option.splits shape.splits)

lemma set_signal_ok:
  assumes good: "good D g" and n: "n < length D" "D ! n = ASignal w" and k: "length D < k"
  shows "\<exists>h. set_signal k n v g = Inr h \<and> good (D[n := ASignal v]) h \<and>
    shape h = (shape g)(n \<mapsto> SSignal v) \<and> sources_of h = sources_of g \<and>
    (\<forall>x\<in>set (subscribers_of g n). was_marked_dirty h x)"
proof -
  let ?D = "D[n := ASignal v]"
  have "shape g n = Some (SSignal w)"
    using good_rep [OF good, of n] n by (auto simp: rep_def split: option.splits shape.splits)
  then obtain ss where sig: "nodes g n = Some (SignalNode w ss)" by (auto simp: signal_nodes)
  let ?g1 = "set_node n (SignalNode v ss) g"
  note inv = good_facts(3) [OF good] and fr = set_value_frame [OF sig, where w = v]
  have stale: "stale ?g1 = stale g" "clean ?g1 = clean g"
    by (auto simp: stale_def clean_def fun_eq_iff fr)
  have reps: "rep ?D m (shape ?g1 m)" for m
    using rep_update [OF good_rep [OF good, of m] n(2,1), where v = v] by (simp add: fr split: if_splits)
  have bodies: "bodies_of ?D = bodies_of D"
    using n by (auto simp: bodies_of_def fun_eq_iff nth_list_update)
  have "cache_ok (bodies_of D) {} (\<lambda>_. None) {x. n \<in> set (sources_of g x)} ?g1"
    unfolding cache_ok_def
  proof (intro allI impI, elim conjE)
    fix x assume x: "is_memo ?g1 x" "x \<notin> {x. n \<in> set (sources_of g x)}" "memo_state ?g1 x \<noteq> Dirty"
    with inv obtain u where "memo_value g x = Some u"
      "replay (past {} (\<lambda>_. None) g) (set (sources_of g x)) (the (bodies_of D x)) = Some u"
      by (auto simp: inv_def cache_ok_def fr)
    moreover have "replay (past {} (\<lambda>_. None) ?g1) (set (sources_of g x)) (the (bodies_of D x)) =
        replay (past {} (\<lambda>_. None) g) (set (sources_of g x)) (the (bodies_of D x))"
    proof (rule replay_cong)
      fix s assume "s \<in> set (sources_of g x)"
      with x(2) have "s \<noteq> n" by auto
      then show "past {} (\<lambda>_. None) ?g1 s = past {} (\<lambda>_. None) g s" by (simp add: past_def fr(10))
    qed
    ultimately show "\<exists>u. memo_value ?g1 x = Some u \<and>
        replay (past {} (\<lambda>_. None) ?g1) (set (sources_of ?g1 x)) (the (bodies_of D x)) = Some u"
      by (simp add: fr)
  qed
  then have inv1: "inv (bodies_of ?D) {} {} (\<lambda>_. None) {x. n \<in> set (sources_of g x)} ?g1"
    using bodies_of_rep [OF reps] inv good_facts(4) [OF good]
    by (simp add: inv_def edges_ok_def clean_ok_def pending_ok_def observer_ok_def fr stale bodies)
  have "bounded (length D) ?g1" using good_facts(2) [OF good] by (simp add: bounded_def fr)
  then obtain h where h: "foreach (mark_dirty k) (items ss) ?g1 = Inr h" "reaches (set (items ss)) ?g1 h"
    "\<forall>x\<in>set (items ss). was_marked_dirty h x"
    using foreach_mark_dirty [OF inv_forward [OF inv1] k] by blast
  have subs: "subscribers_of g n = items ss" using sig by (simp add: subscribers_of_def)
  note m = reachesD(1) [OF h(2)]
  have "inv (bodies_of ?D) {} {} (\<lambda>_. None) {} h"
  proof (rule inv_after_marks [OF inv1 h(2)])
    fix x assume "x \<in> {x. n \<in> set (sources_of g x)}" "is_memo ?g1 x"
    then show "memo_state h x = Dirty"
      using h(3) inv_edges(3) [OF inv, of n x] by (auto simp: subs was_marked_dirty_def marksD [OF m])
  qed
  then have "good ?D h"
    using reps good by (simp add: good_def fr marksD [OF m])
  moreover have "set_signal k n v g = Inr h"
    using sig h(1) by (simp add: set_signal_def maybe_update_def notify_def mark_subscribers_check_def)
  ultimately show ?thesis
    using h(3) by (auto simp: fr marksD [OF m] subs)
qed

end
