(* ===== verification/Reactive_Effects.thy ===== *)
theory Reactive_Effects
  imports Reactive_Correct
begin

text \<open>
  Effects: polling one keeps the abstraction, a poll that runs the effect leaves the value
  its closure has in the specification, and dropping an effect is harmless to the rest.
\<close>

subsection \<open>Writing the fields of an effect\<close>

lemma set_effect_frame:
  assumes "nodes g n = Some (EffectNode e)" "e_sources e' = e_sources e"
  shows "sources_of (set_node n (EffectNode e') g) = sources_of g"
    "subscribers_of (set_node n (EffectNode e') g) = subscribers_of g"
    "memo_value (set_node n (EffectNode e') g) = memo_value g"
    "memo_state (set_node n (EffectNode e') g) = memo_state g"
    "shape (set_node n (EffectNode e') g) = (shape g)(n \<mapsto> node_shape (EffectNode e'))"
    "is_memo (set_node n (EffectNode e') g) = is_memo g"
    "is_effect (set_node n (EffectNode e') g) = is_effect g"
    "readable (set_node n (EffectNode e') g) = readable g"
    "alive (set_node n (EffectNode e') g) = alive g"
    "cached (set_node n (EffectNode e') g) = cached g"
proof -
  let ?h = "set_node n (EffectNode e') g"
  show fr: "sources_of ?h = sources_of g" "subscribers_of ?h = subscribers_of g"
    "memo_value ?h = memo_value g" "memo_state ?h = memo_state g" "alive ?h = alive g"
    and sh: "shape ?h = (shape g)(n \<mapsto> node_shape (EffectNode e'))"
    using assms by (auto simp: projection_defs fun_eq_iff alive_def)
  have "shape g n = Some (SEffect (e_fun e) (e_value e) (e_first_run e))" using assms by (simp add: shape_def)
  then show "is_memo ?h = is_memo g" "is_effect ?h = is_effect g" "readable ?h = readable g"
    "cached ?h = cached g"
    by (auto simp: is_memo_def is_effect_def readable_def cached_def sh fr fun_eq_iff
        split: option.split shape.split)
qed

lemma inv_set_effect:
  assumes "nodes g n = Some (EffectNode e)" "e_sources e' = e_sources e" "inv B P N ov X g"
  shows "inv B P N ov X (set_node n (EffectNode e') g)"
proof -
  let ?h = "set_node n (EffectNode e') g"
  note fr = set_effect_frame [OF assms(1,2)]
  have "past P ov ?h = past P ov g" "stale ?h = stale g" "clean ?h = clean g"
    by (simp_all add: past_def fun_eq_iff fr stale_def clean_def)
  moreover have "shape ?h x = shape g x" if "is_memo g x" for x
    using that assms(1) by (auto simp: fr is_memo_nodes)
  ultimately show ?thesis
    using assms(3)
    by (auto simp: inv_def bodies_ok_def edges_ok_def cache_ok_def clean_ok_def pending_ok_def
        observer_ok_def fr)
qed

lemma good_set_effect:
  assumes "nodes g n = Some (EffectNode e)" "e_sources e' = e_sources e" "e_fun e' = e_fun e" "good D g"
  shows "good D (set_node n (EffectNode e') g)"
proof -
  note fr = set_effect_frame [OF assms(1,2)]
  have "rep D m (shape (set_node n (EffectNode e') g) m)" for m
    using good_rep [OF assms(4), of m] assms(1,3) by (auto simp: fr rep_def shape_def)
  then show ?thesis
    using inv_set_effect [OF assms(1,2)] assms(4) by (simp add: good_def fr)
qed

subsection \<open>Putting an effect on the stack and taking it off\<close>

lemma past_effect:
  assumes "inv B P N ov X g" "is_effect g n"
  shows "s \<in> set (sources_of g x) \<Longrightarrow> past (insert n P) ov g s = past P ov g s"
  using inv_edges(2) [OF assms(1), of s x] assms(2)
  by (auto simp: past_def readable_def is_memo_def is_effect_def)

lemma inv_effect_start:
  assumes inv: "inv B {} {} ov {} g" and n: "is_effect g n"
  shows "inv B {n} {} ov {} ((clear_sources n g)\<lparr>observer := Some (n, False)\<rparr>)" (is "inv _ _ _ _ _ ?h")
proof -
  have not_memo: "\<not> is_memo g n" using n by (rule effect_not_memo)
  have sh: "shape ?h = shape g" by (simp add: frame_simps)
  note kinds = shape_cong [OF sh]
  have st: "stale ?h = stale g" "clean ?h = clean g"
    by (auto simp: stale_def clean_def fun_eq_iff frame_simps kinds)
  have past: "past {n} ov ?h = past {n} ov g"
    by (auto simp: past_def fun_eq_iff frame_simps intro: cached_cong)
  have "cache_ok B {n} ov {} ?h"
    unfolding cache_ok_def
  proof (intro allI impI, elim conjE)
    fix x assume x: "is_memo ?h x" "x \<notin> {n}" "memo_state ?h x \<noteq> Dirty"
    with inv obtain v where "memo_value g x = Some v"
      "replay (past {} ov g) (set (sources_of g x)) (the (B x)) = Some v"
      by (auto simp: inv_def cache_ok_def kinds frame_simps)
    moreover have "replay (past {n} ov g) (set (sources_of g x)) (the (B x)) =
        replay (past {} ov g) (set (sources_of g x)) (the (B x))"
      using past_effect [OF inv n, of _ x] by (rule replay_cong)
    ultimately show "\<exists>v. memo_value ?h x = Some v \<and>
        replay (past {n} ov ?h) (set (sources_of ?h x)) (the (B x)) = Some v"
      using x(2) by (simp add: frame_simps past)
  qed
  moreover have "edges_ok ?h"
    unfolding edges_ok_def kinds
    using inv by (auto simp: inv_def edges_ok_def frame_simps subscribers_clear_sources)
  moreover have "clean_ok {n} ?h"
    using inv not_memo by (auto simp: inv_def clean_ok_def kinds st frame_simps)
  moreover have "bodies_ok B ?h" using inv by (simp add: inv_def bodies_ok_def kinds sh)
  ultimately show ?thesis
    by (simp add: inv_def pending_ok_def observer_ok_def frame_simps)
qed

lemma inv_effect_finish:
  assumes inv: "inv B {n} {} ov {} g" and n: "is_effect g n"
  shows "inv B {} {} ov {} (g\<lparr>observer := None\<rparr>)"
proof -
  have past: "past {} ov (g\<lparr>observer := None\<rparr>) = past {} ov g"
    by (simp add: past_def fun_eq_iff frame_simps)
  have not_memo: "\<not> is_memo g n" using n by (rule effect_not_memo)
  have "past {n} ov g s = past {} ov g s" if "s \<in> set (sources_of g x)" for s x
    using inv_edges(2) [OF inv that] n by (auto simp: past_def readable_def is_memo_def is_effect_def)
  then have "replay (past {} ov g) (set (sources_of g x)) c = replay (past {n} ov g) (set (sources_of g x)) c"
    for x and c :: "('a, 'a) comp"
    by (intro replay_cong) simp
  moreover have "\<forall>x. is_memo g x \<and> x \<notin> {n} \<and> memo_state g x \<noteq> Dirty \<longrightarrow> (\<exists>v. memo_value g x = Some v \<and>
        replay (past {n} ov g) (set (sources_of g x)) (the (B x)) = Some v)"
    using inv by (simp add: inv_def cache_ok_def)
  ultimately have "cache_ok B {} ov {} (g\<lparr>observer := None\<rparr>)"
    using not_memo by (auto simp: cache_ok_def frame_simps past)
  with inv show ?thesis
    by (simp add: inv_def bodies_ok_def edges_ok_def clean_ok_def pending_ok_def observer_ok_def frame_simps)
qed

lemma updates_below_Suc: "updates_below B K (Suc n) upd \<Longrightarrow> updates_below B K n upd"
  by (auto simp: updates_below_def)

subsection \<open>Polling\<close>

lemma good_updates:
  "good D g \<Longrightarrow> n < length D \<Longrightarrow> 2 * length D < k \<Longrightarrow>
     updates_below (bodies_of D) (length D) n (update_if_necessary k)"
  by (rule updates_below_Suc, rule update_below) simp

lemma good_observer:
  assumes "good D g" "is_effect g n"
  shows "inv (bodies_of D) {} {} (\<lambda>_. None) {} (g\<lparr>observer := Some (n, False)\<rparr>)"
proof -
  have "past {} (\<lambda>_. None) (g\<lparr>observer := Some (n, False)\<rparr>) = past {} (\<lambda>_. None) g"
    by (simp add: past_def fun_eq_iff frame_simps)
  with good_facts(3) [OF assms(1)] effect_not_memo [OF assms(2)] show ?thesis
    by (simp add: inv_def bodies_ok_def edges_ok_def cache_ok_def clean_ok_def pending_ok_def
        observer_ok_def frame_simps)
qed

lemma effect_check_ok:
  assumes good: "good D g" and e: "nodes g n = Some (EffectNode e)" and k: "Suc (2 * length D) < k"
  shows "\<exists>b h. with_observer (Some n) (update_if_necessary k n) g = Inr (b, h) \<and> good D h \<and>
    shape h = shape g \<and> (e_dirty e \<longrightarrow> b)"
proof -
  let ?go = "g\<lparr>observer := Some (n, False)\<rparr>"
  obtain k' where k': "k = Suc k'" using k by (cases k) auto
  have eff: "is_effect g n" using e by (auto simp: is_effect_nodes)
  have n: "n < length D" using good_facts(2) [OF good] e by (auto simp: bounded_def alive_def)
  note obs = good_facts(4) [OF good] and inv = good_observer [OF good eff]
  have eo: "nodes ?go n = Some (EffectNode e)" using e by (simp add: frame_simps)
  show ?thesis
  proof (cases "e_dirty e")
    case True
    let ?h = "set_node n (EffectNode (e\<lparr>e_dirty := False\<rparr>)) g"
    have "update_if_necessary k n ?go = Inr (True, ?h\<lparr>observer := Some (n, False)\<rparr>)"
      using True e by (simp add: k' set_node_def)
    then have "with_observer (Some n) (update_if_necessary k n) g = Inr (True, ?h)"
      using with_observer_run [where f = "update_if_necessary k n" and g = g and n = n] obs by (simp add: set_node_def)
    moreover have "good D ?h" by (rule good_set_effect [OF e _ _ good]) simp_all
    moreover have "shape ?h = shape g" using e by (auto simp: shape_def fun_eq_iff)
    ultimately show ?thesis by blast
  next
    case False
    have "\<exists>b h. any_source (update_if_necessary k') (\<lambda>_. False) (e_sources e) ?go = Inr (b, h) \<and>
        inv (bodies_of D) {} {} (\<lambda>_. None) {} h \<and> keeps n ?go h \<and>
        (\<not> b \<longrightarrow> \<not> False \<and> (\<forall>s\<in>set (e_sources e). clean h s))"
    proof (rule any_source_ok)
      show "updates_below (bodies_of D) (length D) n (update_if_necessary k')"
        using k k' by (intro good_updates [OF good n]) simp
      show "inv (bodies_of D) {} {} (\<lambda>_. None) {} ?go" by (rule inv)
      show "bounded (length D) ?go" using good_facts(2) [OF good] by (simp add: frame_simps)
      show "s < n \<and> readable ?go s" if "s \<in> set (e_sources e)" for s
        using inv_edges(1,2) [OF inv, of s n] that e by (simp add: sources_of_def frame_simps)
    qed simp_all
    then obtain b h where h: "any_source (update_if_necessary k') (\<lambda>_. False) (e_sources e) ?go = Inr (b, h)"
      "inv (bodies_of D) {} {} (\<lambda>_. None) {} h" "keeps n ?go h" by blast
    have up: "update_if_necessary k n ?go = Inr (b, h)"
      using False eo h(1) by (simp add: k' frame_simps)
    have "with_observer (Some n) (update_if_necessary k n) g = Inr (b, h\<lparr>observer := observer g\<rparr>)"
      by (rule with_observer_run) (use up obs in simp_all)
    moreover have kp: "keeps n g (h\<lparr>observer := observer g\<rparr>)"
      using h(3) by (rule keeps_observer)
    moreover have "inv (bodies_of D) {} {} (\<lambda>_. None) {} (h\<lparr>observer := observer g\<rparr>)"
    proof -
      have "past {} (\<lambda>_. None) (h\<lparr>observer := None\<rparr>) = past {} (\<lambda>_. None) h"
        by (simp add: past_def fun_eq_iff frame_simps)
      with h(2) show ?thesis
        by (simp add: obs inv_def bodies_ok_def edges_ok_def cache_ok_def clean_ok_def pending_ok_def
            observer_ok_def frame_simps)
    qed
    ultimately show ?thesis
      using False good_keeps [OF good kp] keepsD(1) [OF kp] by blast
  qed
qed

lemma run_effect_ok:
  assumes good: "good D g" and e: "nodes g n = Some (EffectNode e)" and c: "D ! n = AEffect c"
    and k: "2 * length D < k"
  shows "\<exists>v h. run_effect k n e g = Inr h \<and> good D h \<and> shape h n = Some (SEffect (\<lambda>_. c) (Some v) False) \<and>
    (\<forall>x. x \<noteq> n \<longrightarrow> shape h x = shape g x) \<and> replay (spec_value D) UNIV c = Some v"
proof -
  have n: "n < length D" using good_facts(2) [OF good] e by (auto simp: bounded_def alive_def)
  have cl: "e_fun e = (\<lambda>_. c)" "closure_ok D n c"
    using good_rep [OF good, of n] e c by (auto simp: rep_def shape_def)
  let ?g1 = "set_node n (EffectNode (e\<lparr>e_first_run := False\<rparr>)) g"
  have good1: "good D ?g1" by (rule good_set_effect [OF e _ _ good]) simp_all
  have eff1: "is_effect ?g1 n" by (auto simp: is_effect_nodes)
  let ?c = "clear_sources n ?g1"
  have sh1: "shape ?c n = Some (SEffect (\<lambda>_. c) (e_value e) False)"
    by (simp add: frame_simps) (simp add: shape_def cl(1))
  then obtain e2 where e2: "nodes ?c n = Some (EffectNode e2)" "e_fun e2 = (\<lambda>_. c)" "e_first_run e2 = False"
    using is_effect_nodes [of ?c n] by (auto simp: is_effect_def shape_def)
  let ?g2 = "set_node n (EffectNode (e2\<lparr>e_value := None\<rparr>)) ?c"
  let ?g3 = "?g2\<lparr>observer := Some (n, False)\<rparr>"
  have obs2: "observer ?g2 = None" using good_facts(4) [OF good] by (simp add: frame_simps)
  have g3: "?g3 = set_node n (EffectNode (e2\<lparr>e_value := None\<rparr>)) (?c\<lparr>observer := Some (n, False)\<rparr>)"
    by (simp add: set_node_def)
  have inv3: "inv (bodies_of D) {n} {} (\<lambda>_. None) {} ?g3"
    unfolding g3 using e2(1)
    by (intro inv_set_effect [OF _ _ inv_effect_start [OF good_facts(3) [OF good1] eff1]])
      (simp_all add: frame_simps)
  note fr = set_effect_frame [OF e2(1), of "e2\<lparr>e_value := None\<rparr>", simplified]
  have shape3: "shape ?g3 = (shape g)(n \<mapsto> SEffect (\<lambda>_. c) None False)"
    by (simp add: frame_simps fr e2) (simp add: shape_def fun_eq_iff)
  have eff3: "is_effect ?g3 n" by (simp only: is_effect_def shape3) auto
  have rd3: "readable ?g3 = readable g"
    using e by (auto simp: readable_def is_memo_def shape3 fun_eq_iff shape_def)
  have bd3: "bounded (length D) ?g3"
    using good_facts(2) [OF good] n by (auto simp: bounded_def alive_shape shape3)
  have src3: "sources_of ?g3 n = []" by (simp add: frame_simps fr)
  have "\<exists>v h. run_comp (update_if_necessary k) (set_signal k) (map_comp (\<lambda>x. x) c) ?g3 = Inr (v, h) \<and>
      inv (bodies_of D) {n} {} (\<lambda>_. None) {} h \<and> keeps (Suc n) ?g3 h \<and> (\<forall>s\<in>set (sources_of h n). clean h s) \<and>
      set (sources_of ?g3 n) \<subseteq> set (sources_of h n) \<and> replay (cached h) (set (sources_of h n)) c = Some v"
  proof (rule run_comp_ok [OF good_updates [OF good n k]])
    show "body_ok (\<lambda>s. s < n \<and> readable ?g3 s) c"
      using cl(2) by (simp add: closure_ok_def rd3 good_facts(1) [OF good])
  qed (use inv3 bd3 src3 eff3 in auto)
  then obtain v g5 where g5: "run_comp (update_if_necessary k) (set_signal k) c ?g3 = Inr (v, g5)"
    "inv (bodies_of D) {n} {} (\<lambda>_. None) {} g5" "keeps (Suc n) ?g3 g5" "\<And>s. s \<in> set (sources_of g5 n) \<Longrightarrow> clean g5 s"
    "replay (cached g5) (set (sources_of g5 n)) c = Some v"
    by (auto simp: comp.map_ident)
  let ?g6 = "g5\<lparr>observer := None\<rparr>"
  have shape5: "shape g5 = (shape g)(n \<mapsto> SEffect (\<lambda>_. c) None False)"
    using keepsD(1) [OF g5(3)] shape3 by simp
  then have eff5: "is_effect g5 n" by (auto simp: is_effect_def)
  then obtain e5 where e5: "nodes g5 n = Some (EffectNode e5)" by (auto simp: is_effect_nodes)
  then have e5': "e_fun e5 = (\<lambda>_. c)" "e_first_run e5 = False"
    using shape5 by (auto simp: shape_def dest: fun_cong [where x = n])
  have good6: "good D ?g6"
  proof -
    have "rep D m (shape g5 m)" for m
      using good_rep [OF good, of m] n c cl(2) by (auto simp: shape5 rep_def)
    moreover have "set (subscribers_of g5 s) \<subseteq> {..<length D}" for s
    proof -
      have "set (subscribers_of g5 s) \<subseteq> set (subscribers_of ?g3 s) \<union> Collect (alive ?g3)"
        using g5(3) by (simp add: keeps_def)
      moreover have "set (subscribers_of ?g3 s) \<subseteq> {..<length D}"
        using good1 by (fastforce simp: frame_simps fr subscribers_clear_sources good_def split: if_splits)
      ultimately show ?thesis using bd3 by (auto simp: bounded_def)
    qed
    ultimately show ?thesis
      using inv_effect_finish [OF g5(2) eff5] by (simp add: good_def frame_simps)
  qed
  let ?h = "set_node n (EffectNode (e5\<lparr>e_value := Some v\<rparr>)) ?g6"
  have "run_effect k n e g = Inr ?h"
  proof -
    have "with_observer (Some n) (run_comp (update_if_necessary k) (set_signal k) c) ?g2 =
        Inr (v, g5\<lparr>observer := observer ?g2\<rparr>)"
      by (rule with_observer_run) (use g5(1) obs2 in auto)
    then show ?thesis
      using e e2 e5 obs2 by (simp add: run_effect_def upd_effect_def cl(1) frame_simps)
  qed
  moreover have "good D ?h"
    by (rule good_set_effect [OF _ _ _ good6]) (simp_all add: e5 frame_simps)
  moreover have "shape ?h n = Some (SEffect (\<lambda>_. c) (Some v) False)"
    by (simp add: shape_def e5')
  moreover have "\<forall>x. x \<noteq> n \<longrightarrow> shape ?h x = shape g x"
    using shape5 by (simp add: shape_def fun_eq_iff)
  moreover have "replay (spec_value D) UNIV c = Some v"
  proof (rule replay_UNIV [OF g5(5)])
    fix s assume "s \<in> set (sources_of g5 n)"
    then have "clean ?g6 s" using g5(4) by (simp add: frame_simps)
    then show "spec_value D s = cached g5 s"
      using clean_spec [OF good6] by (simp add: frame_simps)
  qed
  ultimately show ?thesis by blast
qed

lemma poll_effect_ok:
  assumes good: "good D g" and k: "Suc (2 * length D) < k"
  shows "\<exists>h. poll_effect k paused n g = Inr h \<and> good D h"
    and "nodes g n = Some (EffectNode e) \<Longrightarrow> e_notified e \<Longrightarrow> e_dirty e \<or> e_first_run e \<Longrightarrow> \<not> paused \<Longrightarrow>
      D ! n = AEffect c \<Longrightarrow>
      \<exists>v h. poll_effect k paused n g = Inr h \<and> good D h \<and> shape h n = Some (SEffect (\<lambda>_. c) (Some v) False) \<and>
        replay (spec_value D) UNIV c = Some v"
proof -
  have main: "\<exists>h. poll_effect k paused n g = Inr h \<and> good D h \<and>
      (\<forall>c. e_notified e \<and> (e_dirty e \<or> e_first_run e) \<and> \<not> paused \<and> D ! n = AEffect c \<longrightarrow>
         (\<exists>v. shape h n = Some (SEffect (\<lambda>_. c) (Some v) False) \<and> replay (spec_value D) UNIV c = Some v))"
    if e: "nodes g n = Some (EffectNode e)" for e
  proof -
    let ?g0 = "set_node n (EffectNode (e\<lparr>e_notified := False\<rparr>)) g"
    have good0: "good D ?g0" by (rule good_set_effect [OF e _ _ good]) simp_all
    show ?thesis
    proof (cases "e_notified e \<and> \<not> paused")
      case False
      then show ?thesis using e good good0 by (auto simp: poll_effect_def)
    next
      case True
      obtain b g1 where g1: "with_observer (Some n) (update_if_necessary k n) ?g0 = Inr (b, g1)" "good D g1"
        "shape g1 = shape ?g0" "e_dirty e \<longrightarrow> b"
        using effect_check_ok [OF good0, of n "e\<lparr>e_notified := False\<rparr>", OF _ k] by auto
      have "is_effect g1 n" using g1(3) by (simp add: is_effect_def shape_def)
      then obtain e1 where e1: "nodes g1 n = Some (EffectNode e1)" by (auto simp: is_effect_nodes)
      have fr: "e_first_run e1 = e_first_run e"
        using fun_cong [OF g1(3), of n] e1 by (simp add: shape_def)
      have nD: "n < length D" using good_facts(2) [OF good] e by (auto simp: bounded_def alive_def)
      obtain c where c: "D ! n = AEffect c" using good_rep [OF good, of n] e by (auto simp: rep_def shape_def)
      obtain v h where h: "run_effect k n e1 g1 = Inr h" "good D h"
        "shape h n = Some (SEffect (\<lambda>_. c) (Some v) False)" "replay (spec_value D) UNIV c = Some v"
        using run_effect_ok [OF g1(2) e1 c, of k] k by fastforce
      show ?thesis
        using True e g1 e1 fr h c by (cases "b \<or> e_first_run e1") (auto simp: poll_effect_def)
    qed
  qed
  show "\<exists>h. poll_effect k paused n g = Inr h \<and> good D h"
    using main good by (cases g n rule: node_cases) (auto simp: poll_effect_def)
  show "\<exists>v h. poll_effect k paused n g = Inr h \<and> good D h \<and> shape h n = Some (SEffect (\<lambda>_. c) (Some v) False) \<and>
        replay (spec_value D) UNIV c = Some v"
    if "nodes g n = Some (EffectNode e)" "e_notified e" "e_dirty e \<or> e_first_run e" "\<not> paused" "D ! n = AEffect c"
    using main [OF that(1)] that by blast
qed

subsection \<open>Dropping an effect\<close>

lemma closure_ok_gone: "D ! n = AEffect c' \<Longrightarrow> closure_ok (D[n := AGone]) m c = closure_ok D m c"
proof -
  assume "D ! n = AEffect c'"
  then have "readable_in (D[n := AGone]) s = readable_in D s" for s
    by (cases "s = n") (auto simp: readable_in_def nth_list_update)
  then show ?thesis by (simp add: closure_ok_def)
qed

lemma good_drop_effect:
  assumes good: "good D g" and n: "n < length D" "D ! n = AEffect c"
  shows "good (D[n := AGone]) (drop_node n g)"
proof -
  let ?h = "drop_node n g" and ?D = "D[n := AGone]"
  note inv = good_facts(3) [OF good]
  have sh: "shape ?h = (shape g)(n := None)" by (auto simp: drop_node_def shape_def fun_eq_iff)
  have kind: "\<not> readable g n" using n by (simp add: good_facts(1) [OF good] readable_in_def)
  then have memo: "is_memo ?h = is_memo g" "readable ?h = readable g"
    by (auto simp: is_memo_def readable_def sh fun_eq_iff)
  have not_memo: "\<not> is_memo g n" using kind by (simp add: readable_def)
  have src: "sources_of ?h = (sources_of g)(n := [])"
    by (auto simp: drop_node_def sources_of_def fun_eq_iff)
  have subs: "subscribers_of ?h = subscribers_of g"
  proof
    fix x show "subscribers_of ?h x = subscribers_of g x"
      using kind by (cases g n rule: node_cases)
        (auto simp: drop_node_def subscribers_of_def readable_def is_memo_nodes signal_nodes)
  qed
  have val: "memo_value ?h = memo_value g" "memo_state ?h = memo_state g"
    using not_memo by (auto simp: drop_node_def memo_value_def memo_state_def fun_eq_iff is_memo_nodes
        split: option.split node.split)
  have other: "cached ?h s = cached g s" if "readable g s" for s
    using that kind by (intro cached_cong) (auto simp: sh val)
  have st: "stale ?h = stale g" "clean ?h = clean g"
    by (auto simp: stale_def clean_def fun_eq_iff val memo)
  have al: "alive ?h y \<longleftrightarrow> y \<noteq> n \<and> alive g y" for y by (simp add: alive_shape sh)
  have bodies: "bodies_of ?D = bodies_of D"
    using n by (auto simp: bodies_of_def fun_eq_iff nth_list_update)
  have reps: "rep ?D m (shape ?h m)" for m
    using good_rep [OF good, of m] n
    by (auto simp: sh rep_def closure_ok_gone nth_list_update split: option.splits shape.splits)
  have "cache_ok (bodies_of D) {} (\<lambda>_. None) {} ?h"
    unfolding cache_ok_def
  proof (intro allI impI, elim conjE)
    fix x assume x: "is_memo ?h x" "memo_state ?h x \<noteq> Dirty"
    with inv obtain u where u: "memo_value g x = Some u"
      "replay (past {} (\<lambda>_. None) g) (set (sources_of g x)) (the (bodies_of D x)) = Some u"
      by (auto simp: inv_def cache_ok_def memo val)
    have "replay (past {} (\<lambda>_. None) ?h) (set (sources_of g x)) (the (bodies_of D x)) =
        replay (past {} (\<lambda>_. None) g) (set (sources_of g x)) (the (bodies_of D x))"
      using inv_edges(2) [OF inv, of _ x] other by (intro replay_cong) (auto simp: past_def)
    with u x not_memo show "\<exists>u. memo_value ?h x = Some u \<and>
        replay (past {} (\<lambda>_. None) ?h) (set (sources_of ?h x)) (the (bodies_of D x)) = Some u"
      by (auto simp: val src memo)
  qed
  moreover have "edges_ok ?h"
    using inv by (auto simp: inv_def edges_ok_def src subs memo al)
  moreover have "clean_ok {} ?h"
    using inv by (auto simp: inv_def clean_ok_def src memo st)
  ultimately have "inv (bodies_of ?D) {} {} (\<lambda>_. None) {} ?h"
    using bodies_of_rep [OF reps] good
    by (simp add: inv_def pending_ok_def observer_ok_def good_def bodies drop_node_def)
  then show ?thesis
    using reps good by (simp add: good_def subs) (simp add: drop_node_def)
qed

subsection \<open>Every sequence of operations\<close>

lemma exec_step_ok:
  assumes good: "good D g" and valid: "valid_op D x" and k: "Suc (2 * length D) < k"
  shows "\<exists>out h. exec_step k (length D) x g = Inr (out, length (snd (spec_step D x)), h) \<and>
    good (snd (spec_step D x)) h \<and> map Some out = fst (spec_step D x)"
proof (cases x)
  case (SetSignal n v)
  then obtain w where "n < length D" "D ! n = ASignal w" using valid by auto
  then show ?thesis using SetSignal set_signal_ok [OF good, of n w k v] k by auto
next
  case (GetValue n)
  then show ?thesis using get_value_ok [OF good, of n k] valid k by force
next
  case (PollEffect n paused)
  then show ?thesis using poll_effect_ok(1) [OF good k, of paused n] by auto
next
  case (DropEffect n)
  then show ?thesis using good_drop_effect [OF good] valid by auto
qed (use good valid in \<open>auto simp: good_new_signal good_new_memo good_new_effect\<close>)

lemma length_spec_step: "length (snd (spec_step D x)) \<le> Suc (length D)"
  by (cases x) auto

lemma exec_ops_ok:
  assumes "good D g" "valid_ops D xs" "Suc (2 * (length D + length xs)) < k"
  shows "\<exists>outs h. exec_ops k (length D) xs g = Inr (outs, h) \<and> map Some outs = spec_outputs D xs"
  using assms
proof (induction xs arbitrary: D g)
  case (Cons x xs)
  have valid: "valid_op D x" and rest: "valid_ops (snd (spec_step D x)) xs" using Cons.prems(2) by auto
  have k: "Suc (2 * length D) < k" using Cons.prems(3) by simp
  obtain out h where h: "exec_step k (length D) x g = Inr (out, length (snd (spec_step D x)), h)"
    "good (snd (spec_step D x)) h" "map Some out = fst (spec_step D x)"
    using exec_step_ok [OF Cons.prems(1) valid k] by blast
  have "Suc (2 * (length (snd (spec_step D x)) + length xs)) < k"
    using length_spec_step [of D x] Cons.prems(3) by simp
  then obtain outs h' where "exec_ops k (length (snd (spec_step D x))) xs h = Inr (outs, h')"
    "map Some outs = spec_outputs (snd (spec_step D x)) xs"
    using Cons.IH [OF h(2) rest] by blast
  with h(1,3) show ?case by (auto simp: case_prod_beta)
qed simp

end
