(* ===== verification/Reactive_Props.thy ===== *)
theory Reactive_Props
  imports Reactive_Effects
begin

text \<open>
  The properties of the reactive graph: consistency of every read with a recomputation
  from scratch, the reaction of effects, what marking and caching do, the edge sets, and
  two places where the update algorithm loses or adds a dependency.
\<close>

subsection \<open>Consistency\<close>

text \<open>
  C1: starting from an empty graph, every sequence of creations, signal writes, reads,
  effect polls and effect disposals in which closures read, with tracking, signals and memos
  created before them and write nothing runs to the end without a panic, and each read returns the value that
  recomputing everything from the current signals gives (no glitches, no stale caches).
  The fuel needed is linear in the number of operations.
\<close>

theorem reads_are_consistent:
  assumes "valid_ops [] ops" "Suc (2 * length ops) < k"
  shows "\<exists>outs h. exec_ops k 0 ops (empty_graph a) = Inr (outs, h) \<and> map Some outs = spec_outputs [] ops"
  using exec_ops_ok [OF good_empty assms(1)] assms(2) by simp

definition diamond_ops :: "int op list" where
  "diamond_ops =
     [NewSignal 1, NewMemo (Get 0 (\<lambda>x. Ret (x * 2))), NewMemo (Get 0 (\<lambda>x. Ret (x * 3))),
      NewMemo (Get 1 (\<lambda>x. Get 2 (\<lambda>y. Ret (x + y)))), GetValue 3, SetSignal 0 10, GetValue 3]"

lemma diamond_valid: "valid_ops [] diamond_ops"
  by (simp add: diamond_ops_def closure_ok_def readable_in_def)

theorem reads_are_consistent_witness:
  "\<exists>outs h. exec_ops 20 0 diamond_ops (empty_graph (\<lambda>n. n)) = Inr (outs, h) \<and> map Some outs = [Some 5, Some 50]"
proof -
  have "spec_outputs [] diamond_ops = [Some 5, Some 50]"
    by (simp add: diamond_ops_def spec_value_def numeral_eq_Suc)
  then show ?thesis
    using reads_are_consistent [OF diamond_valid, of 20 "\<lambda>n. n"] by (simp add: diamond_ops_def)
qed

text \<open>
  C13: in a graph that implements a program, setting a signal and then polling an effect
  that is subscribed to it succeeds, leaves a graph that implements the changed program,
  and the effect has been run: its last value is what its closure computes from scratch
  out of the new signal values.
\<close>

theorem subscribed_effect_reacts:
  assumes "good D g" "s < length D" "D ! s = ASignal w" "n \<in> set (subscribers_of g s)"
    and "D ! n = AEffect c" "is_effect g n" "Suc (2 * length D) < k"
  shows "\<exists>h h' u. set_signal k s v g = Inr h \<and> poll_effect k False n h = Inr h' \<and>
    good (D[s := ASignal v]) h' \<and> replay (spec_value (D[s := ASignal v])) UNIV c = Some u \<and>
    shape h' n = Some (SEffect (\<lambda>_. c) (Some u) False)"
proof -
  let ?D = "D[s := ASignal v]"
  obtain h where h: "set_signal k s v g = Inr h" "good ?D h" "shape h = (shape g)(s \<mapsto> SSignal v)"
    "was_marked_dirty h n"
    using set_signal_ok [OF assms(1-3), of k v] assms(4,7) by auto
  have "s \<noteq> n" using assms(3,5) by auto
  then have "is_effect h n" using assms(6) by (simp add: is_effect_def h(3))
  then obtain e where e: "nodes h n = Some (EffectNode e)" by (auto simp: is_effect_nodes)
  then have "e_dirty e" "e_notified e"
    using h(4) \<open>is_effect h n\<close> by (auto simp: was_marked_dirty_def dirty_of_def notified_of_def)
  moreover have "?D ! n = AEffect c" using assms(5) \<open>s \<noteq> n\<close> by simp
  ultimately show ?thesis
    using poll_effect_ok(2) [OF h(2) _ e, of k False c] h(1) assms(7) by auto
qed

definition reading_effect_graph :: "int graph result" where
  "reading_effect_graph =
     poll_effect 20 False 1 (new_effect 1 (\<lambda>_. Get 0 Ret) (new_signal 0 1 (empty_graph (\<lambda>n. n))))"

lemma reading_effect_good:
  "\<exists>g. reading_effect_graph = Inr g \<and> good [ASignal 1, AEffect (Get 0 Ret)] g"
proof -
  have "good [ASignal 1] (new_signal 0 1 (empty_graph (\<lambda>n. n)))"
    using good_new_signal [OF good_empty, of 1 "\<lambda>n. n"] by simp
  then have "good [ASignal 1, AEffect (Get 0 Ret)]
      (new_effect 1 (\<lambda>_. Get 0 Ret) (new_signal 0 1 (empty_graph (\<lambda>n. n))))"
    using good_new_effect [of "[ASignal 1]" _ "Get 0 Ret"] by (simp add: closure_ok_def readable_in_def)
  then show ?thesis
    unfolding reading_effect_graph_def by (rule poll_effect_ok(1)) simp
qed

lemma reading_effect_edges:
  "case reading_effect_graph of Inl e \<Rightarrow> False
   | Inr g \<Rightarrow> subscribers_of g 0 = [1] \<and> map_option node_sources (nodes g 1) = Some [0]"
  by code_simp

theorem subscribed_effect_reacts_witness:
  "\<exists>g h h'. reading_effect_graph = Inr g \<and> set_signal 20 0 5 g = Inr h \<and> poll_effect 20 False 1 h = Inr h' \<and>
     shape h' 1 = Some (SEffect (\<lambda>_. Get 0 Ret) (Some 5) False)"
proof -
  obtain g where g: "reading_effect_graph = Inr g" "good [ASignal 1, AEffect (Get 0 Ret)] g"
    using reading_effect_good by blast
  have edges: "subscribers_of g 0 = [1]" "map_option node_sources (nodes g 1) = Some [0]"
    using reading_effect_edges by (simp_all add: g(1))
  then have sub: "1 \<in> set (subscribers_of g 0)" and src: "nodes g 1 \<noteq> None" by auto
  have "is_effect g 1"
    using good_rep [OF g(2), of 1] src by (auto simp: rep_def is_effect_def shape_def split: shape.splits)
  moreover have "replay (spec_value [ASignal 5, AEffect (Get 0 Ret)]) UNIV (Get 0 Ret) = Some (5::int)"
    by (simp add: spec_value_def)
  ultimately show ?thesis
    using subscribed_effect_reacts [OF g(2), of 0 1 1 "Get 0 Ret" 20 5] sub g(1) by auto
qed

text \<open>
  Setting a signal invalidates everything downstream of it. Every memo that reads the
  signal, directly or through other memos, is afterwards not clean, so its next read
  re-examines its sources; no cached value and no dependency edge has been touched.
\<close>

theorem set_signal_invalidates:
  assumes "good D g" "s < length D" "D ! s = ASignal w" "length D < k"
    and "(s, y) \<in> {(x, y). x \<in> set (sources_of g y)}\<^sup>+" "is_memo g y"
  shows "\<exists>h. set_signal k s v g = Inr h \<and> memo_state h y \<noteq> Clean \<and> sources_of h = sources_of g"
proof -
  obtain h where h: "set_signal k s v g = Inr h" "good (D[s := ASignal v]) h"
    "shape h = (shape g)(s \<mapsto> SSignal v)" "sources_of h = sources_of g"
    "\<forall>x\<in>set (subscribers_of g s). was_marked_dirty h x"
    using set_signal_ok [OF assms(1-4), of v] by blast
  note inv = good_facts(3) [OF assms(1)] and inv' = good_facts(3) [OF h(2)]
  have "\<not> is_memo g s"
    using good_rep [OF assms(1), of s] assms(2,3) by (auto simp: rep_def is_memo_def)
  then have memo: "is_memo h x \<longleftrightarrow> is_memo g x" for x by (auto simp: is_memo_def h(3))
  have "sources_of g y \<noteq> [] \<and> (is_memo g y \<longrightarrow> stale h y)" using assms(5)
  proof (induction rule: trancl_induct)
    case (base y)
    then have "is_memo g y \<Longrightarrow> y \<in> set (subscribers_of g s)"
      using inv_edges(3) [OF inv, of s y] by simp
    with base show ?case using h(5) memo by (auto simp: was_marked_dirty_def stale_def)
  next
    case (step y z)
    have "readable g y" using inv_edges(2) [OF inv, of y z] step.hyps(2) by simp
    then have "is_memo g y" using step.IH by (auto simp: readable_def signal_nodes sources_of_def)
    then show ?case
      using step inv' memo by (fastforce simp: inv_def clean_ok_def h(4) clean_def stale_def)
  qed
  then show ?thesis using h(1,4) assms(6) by (auto simp: stale_def)
qed

definition memo_chain_graph :: "(int \<times> int graph) result" where
  "memo_chain_graph =
     get_value 20 2 (new_memo 2 (\<lambda>_. Get 1 Ret) (new_memo 1 (\<lambda>_. Get 0 Ret) (new_signal 0 1 (empty_graph (\<lambda>n. n)))))"

lemma memo_chain_good:
  "\<exists>v g. memo_chain_graph = Inr (v, g) \<and> good [ASignal 1, AMemo (Get 0 Ret), AMemo (Get 1 Ret)] g"
proof -
  have "good [ASignal 1] (new_signal 0 1 (empty_graph (\<lambda>n. n)))"
    using good_new_signal [OF good_empty, of 1 "\<lambda>n. n"] by simp
  then have "good [ASignal 1, AMemo (Get 0 Ret)] (new_memo 1 (\<lambda>_. Get 0 Ret) (new_signal 0 1 (empty_graph (\<lambda>n. n))))"
    using good_new_memo [of "[ASignal 1]" _ "Get 0 Ret"] by (simp add: closure_ok_def readable_in_def)
  then have "good [ASignal 1, AMemo (Get 0 Ret), AMemo (Get 1 Ret)]
     (new_memo 2 (\<lambda>_. Get 1 Ret) (new_memo 1 (\<lambda>_. Get 0 Ret) (new_signal 0 1 (empty_graph (\<lambda>n. n)))))"
    using good_new_memo [of "[ASignal 1, AMemo (Get 0 Ret)]" _ "Get 1 Ret"]
    by (simp add: closure_ok_def readable_in_def numeral_2_eq_2)
  from get_value_ok [OF this, of 2 20] show ?thesis
    unfolding memo_chain_graph_def by (auto simp: readable_in_def)
qed

lemma memo_chain_edges:
  "case memo_chain_graph of Inl e \<Rightarrow> False | Inr (v, g) \<Rightarrow> sources_of g 1 = [0] \<and> sources_of g 2 = [1]"
  by code_simp

theorem set_signal_invalidates_witness:
  "\<exists>v g h. memo_chain_graph = Inr (v, g) \<and> set_signal 20 0 7 g = Inr h \<and> memo_state h 2 \<noteq> Clean"
proof -
  obtain v g where g: "memo_chain_graph = Inr (v, g)" "good [ASignal 1, AMemo (Get 0 Ret), AMemo (Get 1 Ret)] g"
    using memo_chain_good by blast
  have src: "sources_of g 1 = [0]" "sources_of g 2 = [1]"
    using memo_chain_edges by (simp_all add: g(1))
  have "(0, 2) \<in> {(x, y). x \<in> set (sources_of g y)}\<^sup>+"
    by (rule trancl_trans [of _ 1]) (simp_all add: src r_into_trancl del: One_nat_def)
  moreover have "is_memo g 2"
    using good_rep [OF g(2), of 2] src(2)
    by (auto simp: rep_def is_memo_def shape_def sources_of_def split: option.splits shape.splits)
  ultimately show ?thesis
    using set_signal_invalidates [OF g(2), of 0 1 20 2 7] g(1) by auto
qed

subsection \<open>Caching\<close>

text \<open>
  Reading a memo twice runs its closure once. After a successful read in a graph that
  implements a program the memo is clean, and a second read returns the same value and
  leaves the whole graph, including every state, edge and cache, exactly as it was.
\<close>

theorem second_read_is_cached:
  assumes "good D g" "readable_in D n" "2 * length D < k"
  shows "\<exists>v h. get_value k n g = Inr (v, h) \<and> spec_value D n = Some v \<and> get_value k n h = Inr (v, h)"
proof -
  obtain v h where h: "get_value k n g = Inr (v, h)" "good D h" "clean h n" "spec_value D n = Some v"
    using get_value_ok [OF assms] by blast
  have v: "cached h n = Some v" using clean_spec [OF h(2,3)] h(4) by simp
  obtain k' where k': "k = Suc k'" using assms(3) by (cases k) auto
  have "track n h = h" by (simp add: track_def observer_get_def good_facts(4) [OF h(2)])
  then have "get_value k n h = Inr (v, h)"
    using h(3) v
    by (cases h n rule: node_cases)
      (auto simp: get_value_def read_tracked_def read_untracked_def clean_def readable_def k' needs_update_def
        memo_state_def memo_value_def cached_def shape_def upd_memo_def set_node_def is_memo_def map_upd_triv)
  with h show ?thesis by blast
qed

theorem second_read_is_cached_witness:
  "\<exists>v g h. memo_chain_graph = Inr (v, g) \<and> get_value 20 2 g = Inr (1, h) \<and> get_value 20 2 h = Inr (1, h)"
proof -
  obtain v g where g: "memo_chain_graph = Inr (v, g)" "good [ASignal 1, AMemo (Get 0 Ret), AMemo (Get 1 Ret)] g"
    using memo_chain_good by blast
  have "spec_value [ASignal 1, AMemo (Get 0 Ret), AMemo (Get 1 Ret)] 2 = Some (1::int)"
    by (simp add: spec_value_def numeral_2_eq_2)
  then show ?thesis
    using second_read_is_cached [OF g(2), of 2 20] g(1) by (auto simp: readable_in_def)
qed

subsection \<open>Marking\<close>

text \<open>
  \<open>mark_dirty\<close> on any graph whose subscriptions lead from older to newer nodes ends,
  leaves the node dirty, never lowers the state or clears a flag of any node, and
  touches neither values, nor edges, nor the observer.
\<close>

lemma mark_dirty_only_raises:
  assumes "forward g K" "K < k"
  shows "\<exists>h. mark_dirty k n g = Inr h \<and> was_marked_dirty h n \<and>
    (\<forall>x. memo_state g x \<le> memo_state h x) \<and> (\<forall>x. notified_of g x \<longrightarrow> notified_of h x) \<and>
    memo_value h = memo_value g \<and> sources_of h = sources_of g \<and> subscribers_of h = subscribers_of g \<and>
    observer h = observer g"
  using mark_dirty_spec [OF assms, of n] by (auto simp: reaches_def marks_def)

subsection \<open>The edge sets\<close>

text \<open>
  Subscribing a live node keeps the order in which the live subscribers of a set are
  notified and puts a new one last, whether or not the set was pruned on the way.
\<close>

lemma subscribe_keeps_order:
  assumes "live x"
  shows "filter live (items (subscribe grow live x s)) = index_insert x (filter live (items s))"
  using assms by (rule subs.sub_live)

text \<open>
  Pruning at the reallocation boundary bounds a subscriber set. However many
  subscriptions are made, if at most \<open>k\<close> nodes are alive at a time then a set never
  allocates more than one allocation for \<open>2 * k + 1\<close> entries gives: it cannot grow
  with the number of dropped subscribers. (\<open>grow\<close> is the allocation policy of the
  \<open>IndexSet\<close>; all that is used is that it gives at least what was asked for.)
\<close>

theorem subscriber_set_bounded:
  assumes "\<And>n. n \<le> grow n" "\<And>n. n \<le> Suc (2 * k) \<Longrightarrow> grow n \<le> B" "2 \<le> B"
    and "\<And>live x xs. (live, x) \<in> set ops \<Longrightarrow> distinct xs \<Longrightarrow> length (filter live xs) \<le> k"
  shows "length (items (subscribe_all grow ops subscriber_set_new)) \<le> B"
proof -
  have "subscriber_set_wf subscriber_set_new" "capacity subscriber_set_new \<le> B"
    using assms(3) by (simp_all add: subscriber_set_wf_def subscriber_set_new_def)
  then have "subscriber_set_wf (subscribe_all grow ops subscriber_set_new) \<and>
      capacity (subscribe_all grow ops subscriber_set_new) \<le> B"
    using assms(1,2,4) by (intro subscribe_all_bound [where k = k]) blast+
  then show ?thesis by (auto simp: subscriber_set_wf_def)
qed

lemma one_alive: "distinct xs \<Longrightarrow> length (filter ((=) x) xs) \<le> Suc 0"
  by (induction xs) (auto simp: filter_empty_conv)

theorem subscriber_set_bounded_witness:
  "length (items (subscribe_all (\<lambda>n. n) (map (\<lambda>x. ((=) x, x)) [0..<1000]) subscriber_set_new)) \<le> 3"
  by (rule subscriber_set_bounded [where k = 1]) (auto simp: one_alive)

subsection \<open>Where dependencies get lost or appear\<close>

text \<open>
  An effect that reads a coarse memo and then a fine memo: node 1 is computed from signal 0 by
  \<open>fine\<close>, node 2 from node 1 by \<open>coarse\<close>, and effect 3 reads node 2 and then node 1.
\<close>

definition coarse_then_fine :: "('v \<Rightarrow> 'v) \<Rightarrow> ('v \<Rightarrow> 'v) \<Rightarrow> ('v \<Rightarrow> 'v \<Rightarrow> 'v) \<Rightarrow> 'v \<Rightarrow> 'v graph" where
  "coarse_then_fine fine coarse use v =
     new_effect 3 (\<lambda>_. Get 2 (\<lambda>x. Get 1 (\<lambda>y. Ret (use x y))))
       (new_memo 2 (\<lambda>_. Get 1 (\<lambda>x. Ret (coarse x)))
         (new_memo 1 (\<lambda>_. Get 0 (\<lambda>x. Ret (fine x))) (new_signal 0 v (empty_graph (\<lambda>n. n)))))"

text \<open>The effect runs, the signal is set, and the executor polls the effect twice more.\<close>

definition poll_set_poll :: "nat \<Rightarrow> 'v \<Rightarrow> 'v graph \<Rightarrow> 'v graph result" where
  "poll_set_poll k v g =
     (case poll_effect k False 3 g of Inl e \<Rightarrow> Inl e
      | Inr g1 \<Rightarrow> (case set_signal k 0 v g1 of Inl e \<Rightarrow> Inl e
         | Inr g2 \<Rightarrow> (case poll_effect k False 3 g2 of Inl e \<Rightarrow> Inl e
            | Inr g3 \<Rightarrow> poll_effect k False 3 g3)))"

definition effect_seen :: "'v graph \<Rightarrow> node_id \<Rightarrow> ('v option \<times> bool \<times> bool) option" where
  "effect_seen g n = (case nodes g n of
     Some (EffectNode e) \<Rightarrow> Some (e_value e, e_dirty e, e_notified e) | _ \<Rightarrow> None)"

text \<open>The operations of the graph, unfolded to run a small graph.\<close>

lemmas graph_steps =
  new_effect_def new_memo_def new_with_compare_def new_owning_def new_signal_def empty_graph_def set_node_def
  poll_effect_def with_observer_def observer_replace_def observer_set_def observer_get_def observer_is_def
  run_effect_def upd_effect_def upd_memo_def clear_sources_def take_sources_def source_set_take_def
  source_set_new_def source_set_insert_def read_tracked_def read_untracked_def track_def alive_def
  add_subscriber_def add_source_def remove_subscriber_def subscribe_def unsubscribe_def raw_insert_def
  reserve_to_def subscriber_set_new_def index_insert_def shift_remove_def recompute_def needs_update_def
  memo_value_def memo_state_def notify_changed_def subscribers_of_def mark_dirty_def set_signal_def
  maybe_update_def notify_def mark_subscribers_check_def get_value_def Let_def all_bool_eq ex_bool_eq

text \<open>
  C35: an effect can miss a change. Let an effect read a coarse memo of a fine memo of a signal and then
  the fine memo itself, and let the signal change so that the fine memo changes and the coarse one
  does not. Once the effect has run, the signal has been set and the effect has been polled twice, the
  effect still holds the value from before, it is neither dirty nor notified, and polling it again, any
  number of times, changes nothing, while a read of the fine memo gives its new value.

  While the effect checks its sources it is the observer, so when checking the coarse memo
  recomputes the fine one, \<open>update_if_necessary\<close> of the fine memo skips marking the effect dirty; the
  coarse memo did not change and the fine memo is clean by the time its turn comes, so the effect does
  not run.
\<close>

theorem effect_misses_update:
  assumes "fine v \<noteq> fine v'" "coarse (fine v) = coarse (fine v')" "4 \<le> k"
  shows "\<exists>g. poll_set_poll k v' (coarse_then_fine fine coarse use v) = Inr g \<and>
    effect_seen g 3 = Some (Some (use (coarse (fine v)) (fine v)), False, False) \<and>
    (\<forall>j paused. poll_effect j paused 3 g = Inr g) \<and> map_sum id fst (get_value k 1 g) = Inr (fine v')"
proof -
  obtain j where k: "k = Suc (Suc (Suc (Suc j)))" using le_Suc_ex [OF assms(3)] by (auto simp: numeral_eq_Suc)
  show ?thesis using assms(1,2)
    by (simp add: k poll_set_poll_def effect_seen_def coarse_then_fine_def graph_steps)
qed

theorem effect_misses_update_witness:
  "\<exists>g. poll_set_poll 20 2 (coarse_then_fine (\<lambda>x. x) (\<lambda>x. x div 100) (\<lambda>x y. y) 1) = Inr g \<and>
    effect_seen g 3 = Some (Some (1 :: int), False, False) \<and> map_sum id fst (get_value 20 1 g) = Inr 2"
  using effect_misses_update [of "\<lambda>x. x" "1 :: int" 2 "\<lambda>x. x div 100" 20 "\<lambda>x y. y"] by auto

lemma track_subscribes:
  assumes "nodes g n = Some (SignalNode v ss)" "observer g = Some (e, False)"
  shows "e \<in> set (subscribers_of (track n g) n)"
proof -
  have "nodes (add_source e n g) n = Some (SignalNode v ss)"
    using assms(1) by (auto simp: add_source_def split: option.split node.split)
  then show ?thesis
    using assms by (simp add: track_def alive_def observer_get_def add_subscriber_def subscribers_of_def
        items_subscribe index_insert_def)
qed

text \<open>
  Restoring the observer forgets that it was untracked. Inside
  \<open>with_observer_untracked\<close> a read subscribes nobody, but after any nested \<open>untrack\<close>
  (here of the empty closure) the same read subscribes the observer: the guard
  \<open>SetObserverOnDrop\<close> keeps only the subscriber and reinstates it as a tracking one.
\<close>

theorem untrack_reenables_tracking:
  assumes "nodes g n = Some (SignalNode v ss)"
  shows "(\<exists>h. with_observer_untracked (Some e) (\<lambda>g. Inr ((), track n g)) g = Inr ((), h) \<and>
      subscribers_of h n = subscribers_of g n) \<and>
    (\<exists>h. with_observer_untracked (Some e)
        (\<lambda>g. case untrack (\<lambda>g. Inr ((), g)) g of Inl x \<Rightarrow> Inl x | Inr (u, g') \<Rightarrow> Inr ((), track n g')) g
        = Inr ((), h) \<and> e \<in> set (subscribers_of h n))"
  using assms track_subscribes [of "g\<lparr>observer := Some (e, False)\<rparr>" n v ss e]
  by (simp add: with_observer_untracked_def observer_replace_untracked_def untrack_def observer_take_def
      observer_set_def track_def [of n "g\<lparr>observer := Some (e, True)\<rparr>"] observer_get_def subscribers_of_def)

theorem untrack_reenables_tracking_witness:
  "\<exists>h. with_observer_untracked (Some 1)
      (\<lambda>g. case untrack (\<lambda>g. Inr ((), g)) g of Inl x \<Rightarrow> Inl x | Inr (u, g') \<Rightarrow> Inr ((), track 0 g'))
      (new_signal 0 (5::int) (empty_graph (\<lambda>n. n))) = Inr ((), h) \<and> 1 \<in> set (subscribers_of h 0)"
  using untrack_reenables_tracking [of "new_signal 0 (5::int) (empty_graph (\<lambda>n. n))" 0 5 subscriber_set_new 1]
  by (simp add: new_signal_def set_node_def)

end
