(* ===== verification/Vec_Model.thy ===== *)
theory Vec_Model
  imports Leptos_Prelude
begin

text \<open>
  \<open>Vec\<close> of the standard library with its capacity, as far as the ownership tree looks at
  it: an allocation grows to at least twice its size and to at least four elements
  (\<open>RawVec::grow_amortized\<close> for elements of 2 to 1024 bytes), and never shrinks. Two lists of
  an owner prune dead entries when they are about to reallocate; the interface
  \<open>pruned_vec\<close> says why that bounds them.
\<close>

record 'a vec =
  elems :: "'a list"
  cap :: nat

definition vec_new :: "'a vec" where
  "vec_new = \<lparr>elems = [], cap = 0\<rparr>"

definition grow_amortized :: "nat \<Rightarrow> nat \<Rightarrow> nat" where
  "grow_amortized cap' required = max (max (2 * cap') required) 4"

definition vec_reserve :: "nat \<Rightarrow> 'a vec \<Rightarrow> 'a vec" where
  "vec_reserve additional v =
     (if additional \<le> cap v - length (elems v) then v
      else v\<lparr>cap := grow_amortized (cap v) (length (elems v) + additional)\<rparr>)"

definition vec_push :: "'a \<Rightarrow> 'a vec \<Rightarrow> 'a vec" where
  "vec_push x v = (let v = vec_reserve 1 v in v\<lparr>elems := elems v @ [x]\<rparr>)"

definition vec_retain :: "('a \<Rightarrow> bool) \<Rightarrow> 'a vec \<Rightarrow> 'a vec" where
  "vec_retain P v = v\<lparr>elems := filter P (elems v)\<rparr>"

text \<open>\<open>mem::take\<close>: the elements, and a vector without an allocation in their place.\<close>

definition vec_take :: "'a vec \<Rightarrow> 'a list \<times> 'a vec" where
  "vec_take v = (elems v, vec_new)"

definition vec_ok :: "'a vec \<Rightarrow> bool" where
  "vec_ok v \<longleftrightarrow> length (elems v) \<le> cap v"

lemma vec_new_simps [simp]: "elems vec_new = []" "cap vec_new = 0" "vec_ok vec_new"
  by (simp_all add: vec_new_def vec_ok_def)

lemma elems_reserve [simp]: "elems (vec_reserve n v) = elems v"
  by (simp add: vec_reserve_def)

lemma elems_push [simp]: "elems (vec_push x v) = elems v @ [x]"
  by (simp add: vec_push_def Let_def)

lemma retain_simps [simp]: "elems (vec_retain P v) = filter P (elems v)" "cap (vec_retain P v) = cap v"
  by (simp_all add: vec_retain_def)

lemma vec_ok_retain: "vec_ok v \<Longrightarrow> vec_ok (vec_retain P v)"
  unfolding vec_ok_def retain_simps using length_filter_le [of P "elems v"] by (rule order_trans)

lemma vec_ok_reserve: "vec_ok v \<Longrightarrow> vec_ok (vec_reserve n v)"
  by (auto simp: vec_ok_def vec_reserve_def grow_amortized_def)

lemma vec_ok_push: "vec_ok v \<Longrightarrow> vec_ok (vec_push x v)"
  by (auto simp: vec_ok_def vec_push_def vec_reserve_def grow_amortized_def Let_def)

lemma cap_push: "vec_ok v \<Longrightarrow> cap (vec_push x v) = (if length (elems v) < cap v then cap v else max (2 * cap v) 4)"
  by (auto simp: vec_ok_def vec_push_def vec_reserve_def grow_amortized_def Let_def)

lemma cap_reserve_le: "cap (vec_reserve n v) \<le> max (cap v) (max (max (2 * cap v) (length (elems v) + n)) 4)"
  by (auto simp: vec_reserve_def grow_amortized_def)

text \<open>
  A vector that drops its dead entries when it is full. The laws say that adding keeps
  every live entry and appends the new one, and that the allocation only grows past the
  limit given by the live entries when it was already there.
\<close>

locale pruned_vec =
  fixes add :: "('a \<Rightarrow> bool) \<Rightarrow> 'a \<Rightarrow> 'a vec \<Rightarrow> 'a vec"
    and limit :: "nat \<Rightarrow> nat"
  assumes add_live: "filter alive (elems (add alive x v)) = filter alive (elems v @ [x])"
    and add_subset: "set (elems (add alive x v)) \<subseteq> insert x (set (elems v))"
    and add_ok: "vec_ok v \<Longrightarrow> vec_ok (add alive x v)"
    and add_limit: "vec_ok v \<Longrightarrow> length (filter alive (elems v)) \<le> k \<Longrightarrow>
      cap (add alive x v) \<le> max (cap v) (limit k)"
begin

text \<open>
  Any history of additions, in which between two additions entries may die but at most
  \<open>k\<close> are alive at each, stays within the limit.
\<close>

lemma history_bounded:
  assumes "vec_ok v" "cap v \<le> limit k"
    and "\<forall>i<length hist. length (filter (fst (hist ! i)) (elems (fold (\<lambda>(alive, x). add alive x) (take i hist) v))) \<le> k"
  shows "vec_ok (fold (\<lambda>(alive, x). add alive x) hist v) \<and>
    cap (fold (\<lambda>(alive, x). add alive x) hist v) \<le> limit k"
  using assms
proof (induction hist arbitrary: v)
  case (Cons h hist)
  obtain alive x where h: "h = (alive, x)" by fastforce
  have "length (filter alive (elems v)) \<le> k" using Cons.prems(3) [rule_format, of 0] by (simp add: h)
  then have "vec_ok (add alive x v)" "cap (add alive x v) \<le> limit k"
    using add_ok [OF Cons.prems(1), of alive x] add_limit [OF Cons.prems(1), of alive k x] Cons.prems(2) by auto
  moreover have "\<forall>i<length hist. length (filter (fst (hist ! i))
      (elems (fold (\<lambda>(alive, x). add alive x) (take i hist) (add alive x v)))) \<le> k"
  proof (intro allI impI)
    fix i assume "i < length hist"
    then show "length (filter (fst (hist ! i)) (elems (fold (\<lambda>(alive, x). add alive x) (take i hist) (add alive x v)))) \<le> k"
      using Cons.prems(3) [rule_format, of "Suc i"] by (simp add: h)
  qed
  ultimately show ?case using Cons.IH [of "add alive x v"] by (simp add: h)
qed simp

lemma live_after_add: "alive y \<Longrightarrow> y \<in> set (elems (add alive x v)) \<longleftrightarrow> y = x \<or> y \<in> set (elems v)"
proof -
  assume a: "alive y"
  then have "y \<in> set (elems (add alive x v)) \<longleftrightarrow> y \<in> set (filter alive (elems (add alive x v)))" by simp
  also have "\<dots> \<longleftrightarrow> y = x \<or> y \<in> set (elems v)" unfolding add_live using a by auto
  finally show ?thesis .
qed

end

end
