(* ===== verification/Owner_Tree.thy ===== *)
theory Owner_Tree
  imports Vec_Model
begin

text \<open>
  The ownership tree (\<^verbatim>\<open>src/reactive_graph/src/owner.rs\<close>, \<^verbatim>\<open>owner/arena.rs\<close>,
  \<^verbatim>\<open>owner/arena_item.rs\<close>) in the configuration without sandboxed arenas.

  An \<open>Arc<RwLock<OwnerInner>>\<close> is an identifier with a strong count; \<open>Weak::upgrade\<close> is the
  lookup of the identifier among the owners that are alive. The arena is a \<open>SlotMap\<close>,
  whose keys are never given out twice. A boxed value of the arena is a plain value, a
  value wrapped for one thread, or a value that holds a handle of an owner, so that
  dropping it may drop that owner. A cleanup function is the list of what it does:
  observable events, disposals of arena items, and calls that look at the current owner
  (\<open>use_context\<close>, \<open>Owner::current\<close> and the like). The current owner is in a \<open>RefCell\<close>: looking
  at it while it is mutably borrowed panics.
\<close>

type_synonym owner_id = nat
type_synonym arena_key = nat
type_synonym thread_id = nat

text \<open>\<open>TypeId\<close> and \<open>Box<dyn Any>\<close>: a type is a base type or \<open>Option\<close> of a type.\<close>

datatype type_id = Base nat | OptionOf type_id

datatype any_value = Prim nat nat | NoneOf type_id | SomeOf any_value

fun type_id_of :: "any_value \<Rightarrow> type_id" where
  "type_id_of (Prim t n) = Base t"
| "type_id_of (NoneOf t) = OptionOf t"
| "type_id_of (SomeOf v) = OptionOf (type_id_of v)"

datatype boxed = SyncBox any_value | LocalBox thread_id any_value | OwnerBox owner_id

datatype cleanup_action = Emit nat | DisposeItem arena_key | UseCurrent

type_synonym cleanup_fn = "cleanup_action list"

record owner_inner =
  parent :: "owner_id option"
  nodes :: "arena_key vec"
  contexts :: "type_id \<rightharpoonup> any_value"
  cleanups :: "cleanup_fn list"
  children :: "owner_id vec"
  paused :: bool

record runtime =
  owners :: "owner_id \<rightharpoonup> owner_inner"
  strong :: "owner_id \<Rightarrow> nat"
  next_owner :: nat
  arena :: "arena_key \<rightharpoonup> boxed"
  next_key :: nat
  current :: "owner_id option"
  borrowed :: bool
  events :: "nat list"

definition empty_runtime :: runtime where
  "empty_runtime = \<lparr>owners = Map.empty, strong = (\<lambda>_. 0), next_owner = 0, arena = Map.empty,
     next_key = 0, current = None, borrowed = False, events = []\<rparr>"

text \<open>\<open>Weak::upgrade\<close>.\<close>

definition upgrade :: "runtime \<Rightarrow> owner_id option \<Rightarrow> owner_id option" where
  "upgrade s w = (case w of None \<Rightarrow> None | Some i \<Rightarrow> if owners s i = None then None else Some i)"

definition upd_owner :: "owner_id \<Rightarrow> (owner_inner \<Rightarrow> owner_inner) \<Rightarrow> runtime \<Rightarrow> runtime" where
  "upd_owner i f s = s\<lparr>owners := (owners s)(i := map_option f (owners s i))\<rparr>"

subsection \<open>Creating owners\<close>

definition new_inner :: "owner_id option \<Rightarrow> bool \<Rightarrow> owner_inner" where
  "new_inner p b = \<lparr>parent = p, nodes = vec_new, contexts = Map.empty, cleanups = [],
     children = vec_new, paused = b\<rparr>"

definition push_child_vec :: "(owner_id \<Rightarrow> bool) \<Rightarrow> owner_id \<Rightarrow> owner_id vec \<Rightarrow> owner_id vec" where
  "push_child_vec is_alive c v =
     vec_push c
       (if elems v \<noteq> [] \<and> length (elems v) = cap v
        then let v = vec_retain is_alive v in vec_reserve (length (elems v)) v
        else v)"

definition push_child :: "owner_id \<Rightarrow> owner_id \<Rightarrow> runtime \<Rightarrow> runtime" where
  "push_child i c s =
     upd_owner i (\<lambda>inner. inner\<lparr>children := push_child_vec (\<lambda>j. owners s j \<noteq> None) c (children inner)\<rparr>) s"

definition alloc_owner :: "owner_inner \<Rightarrow> runtime \<Rightarrow> owner_id \<times> runtime" where
  "alloc_owner inner s =
     (let i = next_owner s
      in (i, s\<lparr>owners := (owners s)(i \<mapsto> inner), strong := (strong s)(i := 1), next_owner := i + 1\<rparr>))"

definition owner_new :: "runtime \<Rightarrow> owner_id \<times> runtime" where
  "owner_new s =
     (let p = upgrade s (current s);
          (i, s) = alloc_owner (new_inner p False) s
      in case upgrade s p of None \<Rightarrow> (i, s) | Some j \<Rightarrow> (i, push_child j i s))"

definition set_owner :: "owner_id \<Rightarrow> runtime \<Rightarrow> runtime" where
  "set_owner i s = s\<lparr>current := Some i\<rparr>"

definition new_root :: "runtime \<Rightarrow> owner_id \<times> runtime" where
  "new_root s = (let (i, s) = alloc_owner (new_inner None False) s in (i, set_owner i s))"

definition owner_child :: "owner_id \<Rightarrow> runtime \<Rightarrow> owner_id \<times> runtime" where
  "owner_child i s =
     (case owners s i of
        None \<Rightarrow> (i, s)
      | Some inner \<Rightarrow>
          (let (c, s) = alloc_owner (new_inner (Some i) (paused inner)) s in (c, push_child i c s)))"

definition owner_parent :: "runtime \<Rightarrow> owner_id \<Rightarrow> owner_id option" where
  "owner_parent s i = (case owners s i of None \<Rightarrow> None | Some inner \<Rightarrow> upgrade s (parent inner))"

text \<open>The loop of \<open>ancestry\<close>; owners are created after their parents, so it ends.\<close>

fun ancestry_loop :: "nat \<Rightarrow> runtime \<Rightarrow> owner_id option \<Rightarrow> owner_id list result" where
  "ancestry_loop 0 s p = Inl OutOfFuel"
| "ancestry_loop (Suc k) s None = Inr []"
| "ancestry_loop (Suc k) s (Some i) = map_sum id ((#) i) (ancestry_loop k s (owner_parent s i))"

definition ancestry :: "nat \<Rightarrow> runtime \<Rightarrow> owner_id \<Rightarrow> owner_id list result" where
  "ancestry k s i = ancestry_loop k s (owner_parent s i)"

definition current_owner :: "runtime \<Rightarrow> owner_id option" where
  "current_owner s = upgrade s (current s)"

definition with_owner :: "owner_id \<Rightarrow> (runtime \<Rightarrow> ('a \<times> runtime) result) \<Rightarrow> runtime \<Rightarrow> ('a \<times> runtime) result" where
  "with_owner i body s =
     (let prev = current s
      in and_then (body (s\<lparr>current := Some i\<rparr>)) (\<lambda>(val, s). Inr (val, s\<lparr>current := prev\<rparr>)))"

definition on_cleanup :: "cleanup_fn \<Rightarrow> runtime \<Rightarrow> runtime" where
  "on_cleanup f s =
     (case current_owner s of
        None \<Rightarrow> s
      | Some i \<Rightarrow> upd_owner i (\<lambda>inner. inner\<lparr>cleanups := cleanups inner @ [f]\<rparr>) s)"

subsection \<open>The arena\<close>

definition register_vec :: "(arena_key \<Rightarrow> bool) \<Rightarrow> arena_key \<Rightarrow> arena_key vec \<Rightarrow> arena_key vec" where
  "register_vec in_arena n v =
     vec_push n (if elems v \<noteq> [] \<and> length (elems v) = cap v then vec_retain in_arena v else v)"

definition register :: "owner_id \<Rightarrow> arena_key \<Rightarrow> runtime \<Rightarrow> runtime" where
  "register i n s =
     upd_owner i (\<lambda>inner. inner\<lparr>nodes := register_vec (\<lambda>m. arena s m \<noteq> None) n (nodes inner)\<rparr>) s"

definition item_new :: "boxed \<Rightarrow> runtime \<Rightarrow> arena_key \<times> runtime" where
  "item_new b s =
     (let n = next_key s;
          s = s\<lparr>arena := (arena s)(n \<mapsto> b), next_key := n + 1\<rparr>
      in case current_owner s of None \<Rightarrow> (n, s) | Some i \<Rightarrow> (n, register i n s))"

definition is_disposed :: "runtime \<Rightarrow> arena_key \<Rightarrow> bool" where
  "is_disposed s n \<longleftrightarrow> arena s n = None"

definition arena_remove :: "arena_key \<Rightarrow> runtime \<Rightarrow> boxed option \<times> runtime" where
  "arena_remove n s = (arena s n, s\<lparr>arena := (arena s)(n := None)\<rparr>)"

text \<open>The loop that moves the values of a list of keys out of the arena, in order.\<close>

fun remove_all :: "arena_key list \<Rightarrow> runtime \<Rightarrow> boxed list \<times> runtime" where
  "remove_all [] s = ([], s)"
| "remove_all (n # ns) s =
     (let (b, s) = arena_remove n s; (bs, s) = remove_all ns s
      in (case b of None \<Rightarrow> bs | Some b \<Rightarrow> b # bs, s))"

subsection \<open>Cleaning up and dropping\<close>

text \<open>
  What the drop of a value does, given how a handle of an owner is dropped
  (\<open>drop_handle\<close>); and what a cleanup function does.
\<close>

definition drop_box :: "(owner_id \<Rightarrow> runtime \<Rightarrow> runtime result) \<Rightarrow> boxed \<Rightarrow> runtime \<Rightarrow> runtime result" where
  "drop_box drop_handle b s = (case b of OwnerBox i \<Rightarrow> drop_handle i s | _ \<Rightarrow> Inr s)"

definition dispose_with ::
  "(owner_id \<Rightarrow> runtime \<Rightarrow> runtime result) \<Rightarrow> arena_key \<Rightarrow> runtime \<Rightarrow> runtime result" where
  "dispose_with drop_handle n s =
     (let (b, s) = arena_remove n s in case b of None \<Rightarrow> Inr s | Some b \<Rightarrow> drop_box drop_handle b s)"

fun run_action ::
  "(owner_id \<Rightarrow> runtime \<Rightarrow> runtime result) \<Rightarrow> cleanup_action \<Rightarrow> runtime \<Rightarrow> runtime result" where
  "run_action drop_handle (Emit e) s = Inr (s\<lparr>events := events s @ [e]\<rparr>)"
| "run_action drop_handle (DisposeItem n) s = dispose_with drop_handle n s"
| "run_action drop_handle UseCurrent s = (if borrowed s then Inl Panic else Inr s)"

text \<open>\<open>if let Some(child) = child.upgrade() { child.cleanup() }\<close>: the upgraded handle is dropped at the end.\<close>

definition cleanup_child ::
  "(owner_id \<Rightarrow> runtime \<Rightarrow> runtime result) \<Rightarrow> (owner_id \<Rightarrow> runtime \<Rightarrow> runtime result) \<Rightarrow>
   owner_id \<Rightarrow> runtime \<Rightarrow> runtime result" where
  "cleanup_child clean drop_handle c s =
     (case upgrade s (Some c) of
        None \<Rightarrow> Inr s
      | Some c \<Rightarrow> and_then (clean c (s\<lparr>strong := (strong s)(c := strong s c + 1)\<rparr>)) (drop_handle c))"

text \<open>Children first, then the cleanup functions, then the values of the arena.\<close>

definition release_owned ::
  "(owner_id \<Rightarrow> runtime \<Rightarrow> runtime result) \<Rightarrow> (owner_id \<Rightarrow> runtime \<Rightarrow> runtime result) \<Rightarrow>
   owner_inner \<Rightarrow> runtime \<Rightarrow> runtime result" where
  "release_owned clean drop_handle inner s =
     and_then (foreach (cleanup_child clean drop_handle) (elems (children inner)) s) (\<lambda>s.
     and_then (foreach (foreach (run_action drop_handle)) (cleanups inner) s) (\<lambda>s.
       let (bs, s) = remove_all (elems (nodes inner)) s
       in foreach (drop_box drop_handle) bs s))"

definition take_owned :: "owner_inner \<Rightarrow> owner_inner" where
  "take_owned inner = inner\<lparr>cleanups := [], nodes := vec_new, children := vec_new\<rparr>"

text \<open>
  \<open>cleanup\<close> is \<open>Cleanup::cleanup\<close> of the locked owner; \<open>drop_handle\<close> drops one strong handle
  and, with the last one, runs the \<open>Drop\<close> of \<open>OwnerInner\<close>. Each calls the other through the
  children and through the values of the arena; the fuel bounds the depth.
\<close>

fun cleanup :: "nat \<Rightarrow> owner_id \<Rightarrow> runtime \<Rightarrow> runtime result"
  and drop_handle :: "nat \<Rightarrow> owner_id \<Rightarrow> runtime \<Rightarrow> runtime result"
where
  "cleanup 0 i s = Inl OutOfFuel"
| "cleanup (Suc k) i s =
     (case owners s i of
        None \<Rightarrow> Inr s
      | Some inner \<Rightarrow> release_owned (cleanup k) (drop_handle k) inner (upd_owner i take_owned s))"
| "drop_handle 0 i s = Inl OutOfFuel"
| "drop_handle (Suc k) i s =
     (if 1 < strong s i then Inr (s\<lparr>strong := (strong s)(i := strong s i - 1)\<rparr>)
      else case owners s i of
        None \<Rightarrow> Inr s
      | Some inner \<Rightarrow>
          release_owned (cleanup k) (drop_handle k) inner
            (s\<lparr>owners := (owners s)(i := None), strong := (strong s)(i := 0)\<rparr>))"

definition item_dispose :: "nat \<Rightarrow> arena_key \<Rightarrow> runtime \<Rightarrow> runtime result" where
  "item_dispose k n s = dispose_with (drop_handle k) n s"

definition with_cleanup ::
  "nat \<Rightarrow> owner_id \<Rightarrow> (runtime \<Rightarrow> ('a \<times> runtime) result) \<Rightarrow> runtime \<Rightarrow> ('a \<times> runtime) result" where
  "with_cleanup k i body s = and_then (cleanup k i s) (with_owner i body)"

text \<open>
  The handle is moved into the comparison, and the temporaries of a condition are dropped
  before the block is entered: the handle is dropped while \<open>OWNER\<close> is mutably borrowed.
\<close>

definition unset :: "nat \<Rightarrow> owner_id \<Rightarrow> runtime \<Rightarrow> runtime result" where
  "unset k i s =
     (let is_current = (upgrade s (current s) = Some i)
      in and_then (drop_handle k i (s\<lparr>borrowed := True\<rparr>)) (\<lambda>s.
           Inr (s\<lparr>borrowed := False, current := if is_current then None else current s\<rparr>)))"

definition unset_with_forced_cleanup :: "nat \<Rightarrow> owner_id \<Rightarrow> runtime \<Rightarrow> runtime result" where
  "unset_with_forced_cleanup k i s =
     (let s = (if upgrade s (current s) = Some i then s\<lparr>current := None\<rparr> else s)
      in and_then (cleanup k i s) (drop_handle k i))"

subsection \<open>Pausing\<close>

text \<open>The stack is a list whose end is its top.\<close>

fun set_paused_loop :: "nat \<Rightarrow> bool \<Rightarrow> owner_id list \<Rightarrow> runtime \<Rightarrow> runtime result" where
  "set_paused_loop 0 b stack s = Inl OutOfFuel"
| "set_paused_loop (Suc k) b stack s =
     (if stack = [] then Inr s
      else let curr = last stack; stack = butlast stack
           in case owners s curr of
                None \<Rightarrow> set_paused_loop k b stack s
              | Some inner \<Rightarrow>
                  set_paused_loop k b (stack @ elems (children inner))
                    (upd_owner curr (\<lambda>inner. inner\<lparr>paused := b\<rparr>) s))"

definition pause :: "nat \<Rightarrow> owner_id \<Rightarrow> runtime \<Rightarrow> runtime result" where
  "pause k i s = set_paused_loop k True [i] s"

definition resume :: "nat \<Rightarrow> owner_id \<Rightarrow> runtime \<Rightarrow> runtime result" where
  "resume k i s = set_paused_loop k False [i] s"

definition is_paused :: "runtime \<Rightarrow> owner_id \<Rightarrow> bool" where
  "is_paused s i \<longleftrightarrow> (case owners s i of None \<Rightarrow> False | Some inner \<Rightarrow> paused inner)"

end
