(* ===== verification/Owner_Cleanup.thy ===== *)
theory Owner_Cleanup
  imports Owner_Tree "HOL-Library.Multiset"
begin

text \<open>
  What cleaning up an owner releases. \<open>owns s i x\<close> says that the owner \<open>i\<close> or one of its
  live descendants is responsible for the resource \<open>x\<close>, an arena item to be disposed or an
  event of a cleanup function to be run. The relation \<open>evolves\<close> is what every step of a
  cleanup or a drop respects: nothing is revived, and a resource is only given up by being
  released. The interface \<open>releasing\<close> states the contract of the two mutually recursive
  operations; it is proved for every fuel by induction and interpreted below.
\<close>

datatype resource = Item arena_key | Event nat

fun released :: "runtime \<Rightarrow> resource \<Rightarrow> bool" where
  "released s (Item n) = is_disposed s n"
| "released s (Event e) = (e \<in> set (events s))"

definition owned :: "owner_inner \<Rightarrow> resource set" where
  "owned inner = Item ` set (elems (nodes inner)) \<union> {Event e |e. \<exists>f\<in>set (cleanups inner). Emit e \<in> set f}"

inductive owns :: "runtime \<Rightarrow> owner_id \<Rightarrow> resource \<Rightarrow> bool" for s where
  itself: "owners s i = Some inner \<Longrightarrow> x \<in> owned inner \<Longrightarrow> owns s i x"
| child: "owners s i = Some inner \<Longrightarrow> c \<in> set (elems (children inner)) \<Longrightarrow> owns s c x \<Longrightarrow> owns s i x"

definition fin :: "runtime \<Rightarrow> bool" where
  "fin s \<longleftrightarrow> finite (dom (owners s)) \<and> finite (dom (arena s))"

definition child_links :: "runtime \<Rightarrow> nat" where
  "child_links s = (\<Sum>i\<in>dom (owners s). length (elems (children (the (owners s i)))))"

definition weight :: "runtime \<Rightarrow> nat" where
  "weight s = card (dom (arena s)) + card (dom (owners s)) + child_links s"

text \<open>Owners only disappear or lose all they own; what else they hold is kept.\<close>

definition shrinks :: "runtime \<Rightarrow> runtime \<Rightarrow> bool" where
  "shrinks s s' \<longleftrightarrow> next_owner s' = next_owner s \<and> next_key s' = next_key s \<and>
     (\<forall>i inner'. owners s' i = Some inner' \<longrightarrow>
        (\<exists>inner. owners s i = Some inner \<and> (inner' = inner \<or> inner' = take_owned inner)))"

lemma take_owned_idem [simp]: "take_owned (take_owned inner) = take_owned inner"
  by (simp add: take_owned_def)

lemma shrinks_same: "owners s' = owners s \<Longrightarrow> next_owner s' = next_owner s \<Longrightarrow> next_key s' = next_key s \<Longrightarrow> shrinks s s'"
  by (simp add: shrinks_def)

lemma shrinks_trans: "shrinks s s' \<Longrightarrow> shrinks s' s'' \<Longrightarrow> shrinks s s''"
  unfolding shrinks_def by (metis take_owned_idem)

definition evolves :: "runtime \<Rightarrow> runtime \<Rightarrow> bool" where
  "evolves s s' \<longleftrightarrow>
     (fin s \<longrightarrow> fin s' \<and> weight s' \<le> weight s) \<and> shrinks s s' \<and>
     borrowed s' = borrowed s \<and> current s' = current s \<and>
     (\<forall>x. released s x \<longrightarrow> released s' x) \<and>
     (\<forall>i x. owns s i x \<longrightarrow> released s' x \<or> owns s' i x)"

lemma evolves_refl: "evolves s s"
  by (simp add: evolves_def shrinks_same)

lemma evolves_trans: "evolves s s' \<Longrightarrow> evolves s' s'' \<Longrightarrow> evolves s s''"
  using shrinks_trans [of s s' s''] unfolding evolves_def by (metis order_trans)

lemma owns_alive: "owns s i x \<Longrightarrow> owners s i \<noteq> None"
  by (erule owns.cases) auto

lemma owns_cong:
  assumes "owners s' = owners s" shows "owns s' i x = owns s i x"
proof -
  have "owns s i x \<Longrightarrow> owns s' i x" if "owners s' = owners s" for s s'
    by (induction rule: owns.induct) (auto intro: owns.intros simp: that)
  then show ?thesis using assms by metis
qed

text \<open>Steps that leave the tree of owners alone.\<close>

lemma evolves_strong [simp]: "evolves s (s\<lparr>strong := f\<rparr>)"
proof -
  have "released (s\<lparr>strong := f\<rparr>) x = released s x" for x by (cases x) (auto simp: is_disposed_def)
  then show ?thesis
    using owns_cong [of "s\<lparr>strong := f\<rparr>" s] by (simp add: evolves_def fin_def weight_def child_links_def shrinks_same)
qed

lemma evolves_event: "evolves s (s\<lparr>events := events s @ [e]\<rparr>)"
proof -
  have "released s x \<Longrightarrow> released (s\<lparr>events := events s @ [e]\<rparr>) x" for x
    by (cases x) (auto simp: is_disposed_def)
  then show ?thesis
    using owns_cong [of "s\<lparr>events := events s @ [e]\<rparr>" s] by (auto simp: evolves_def fin_def weight_def child_links_def shrinks_same)
qed

lemma arena_remove_facts:
  assumes "arena_remove n s = (b, s')"
  shows "evolves s s'" "released s' (Item n)"
    "fin s \<Longrightarrow> b \<noteq> None \<Longrightarrow> weight s' < weight s"
proof -
  have s': "s' = s\<lparr>arena := (arena s)(n := None)\<rparr>" and b: "b = arena s n"
    using assms by (auto simp: arena_remove_def)
  have "released s x \<Longrightarrow> released s' x" for x by (cases x) (auto simp: s' is_disposed_def)
  moreover have "fin s \<Longrightarrow> fin s' \<and> weight s' \<le> weight s"
    by (auto simp: s' fin_def weight_def child_links_def intro: card_mono)
  ultimately show "evolves s s'" using owns_cong [of s' s] by (simp add: evolves_def s' shrinks_same)
  show "released s' (Item n)" by (simp add: s' is_disposed_def)
  show "weight s' < weight s" if "fin s" "b \<noteq> None"
  proof -
    have "n \<in> dom (arena s)" "finite (dom (arena s))" using that b by (auto simp: fin_def)
    then have "card (dom (arena s) - {n}) < card (dom (arena s))" by (rule card_Diff1_less [rotated])
    then show ?thesis by (simp add: s' weight_def child_links_def)
  qed
qed

text \<open>Taking what an owner owns, in a cleanup or in a drop, hands it over to the caller.\<close>

lemma owns_taken:
  assumes "owns s k x" "owners s i = Some inner"
    and "\<And>j. j \<noteq> i \<Longrightarrow> owners s1 j = owners s j"
  shows "owns s1 k x \<or> x \<in> owned inner \<or> (\<exists>c\<in>set (elems (children inner)). owns s1 c x)"
  using assms(1)
proof (induction rule: owns.induct)
  case (itself k inner' x)
  then show ?case using assms(2,3) by (cases "k = i") (auto intro: owns.itself)
next
  case (child k inner' c x)
  then show ?case using assms(2,3) by (cases "k = i") (auto intro: owns.child)
qed

lemma child_links_split:
  assumes "finite (dom (owners s))" "owners s i = Some inner"
  shows "child_links s = length (elems (children inner)) +
    (\<Sum>j\<in>dom (owners s) - {i}. length (elems (children (the (owners s j)))))"
  unfolding child_links_def using assms by (subst sum.remove [of _ i]) auto

lemma take_weight:
  assumes "fin s" "owners s i = Some inner"
  shows "fin (upd_owner i take_owned s)"
    "weight (upd_owner i take_owned s) + length (elems (children inner)) = weight s"
proof -
  let ?s1 = "upd_owner i take_owned s"
  have d: "dom (owners ?s1) = dom (owners s)" using assms(2) by (auto simp: upd_owner_def)
  show "fin ?s1" using assms(1) d by (simp add: fin_def upd_owner_def)
  have f: "finite (dom (owners s))" "owners ?s1 i = Some (take_owned inner)"
    using assms by (auto simp: fin_def upd_owner_def)
  have "child_links ?s1 = (\<Sum>j\<in>dom (owners s) - {i}. length (elems (children (the (owners s j)))))"
    using child_links_split [of ?s1 i "take_owned inner"] f d by (simp add: take_owned_def upd_owner_def)
  then show "weight ?s1 + length (elems (children inner)) = weight s"
    using child_links_split [OF f(1) assms(2)] d by (simp add: weight_def upd_owner_def)
qed

lemma drop_weight:
  assumes "fin s" "owners s i = Some inner"
    and s1: "s1 = s\<lparr>owners := (owners s)(i := None), strong := f\<rparr>"
  shows "fin s1" "weight s1 + length (elems (children inner)) + 1 = weight s"
proof -
  have f: "finite (dom (owners s))" "i \<in> dom (owners s)" using assms by (auto simp: fin_def)
  have d: "dom (owners s1) = dom (owners s) - {i}" by (simp add: s1)
  show "fin s1" using assms(1) by (simp add: fin_def s1)
  have "child_links s1 = (\<Sum>j\<in>dom (owners s) - {i}. length (elems (children (the (owners s j)))))"
    unfolding child_links_def d by (rule sum.cong) (auto simp: s1)
  moreover have "card (dom (owners s)) = Suc (card (dom (owners s) - {i}))"
    using f by (rule card.remove)
  ultimately show "weight s1 + length (elems (children inner)) + 1 = weight s"
    using child_links_split [OF f(1) assms(2)] by (simp add: weight_def d) (simp add: s1)
qed

subsection \<open>The contract of cleanup and drop\<close>

text \<open>
  Cleanup functions can run: the current owner is not borrowed, or no cleanup function that is
  registered looks at it.
\<close>

definition no_lookup :: "owner_inner \<Rightarrow> bool" where
  "no_lookup inner \<longleftrightarrow> (\<forall>f\<in>set (cleanups inner). UseCurrent \<notin> set f)"

definition calm :: "runtime \<Rightarrow> bool" where
  "calm s \<longleftrightarrow> borrowed s \<longrightarrow> (\<forall>i inner. owners s i = Some inner \<longrightarrow> no_lookup inner)"

lemma calm_evolves: "calm s \<Longrightarrow> evolves s s' \<Longrightarrow> calm s'"
  unfolding calm_def evolves_def shrinks_def by (fastforce simp: no_lookup_def take_owned_def)

text \<open>A runtime that is light enough for a recursive call.\<close>

definition room :: "nat \<Rightarrow> runtime \<Rightarrow> bool" where
  "room w s \<longleftrightarrow> fin s \<and> calm s \<and> weight s \<le> w"

lemma room_evolves: "room w s \<Longrightarrow> evolves s s' \<Longrightarrow> room w s'"
  using calm_evolves by (auto simp: room_def evolves_def)

lemma evolves_released: "released s x \<Longrightarrow> evolves s s' \<Longrightarrow> released s' x"
  by (simp add: evolves_def)

locale releasing =
  fixes clean dropper :: "owner_id \<Rightarrow> runtime \<Rightarrow> runtime result"
    and bound :: nat
  assumes clean_ok: "fin s \<Longrightarrow> calm s \<Longrightarrow> weight s < bound \<Longrightarrow>
      \<exists>s'. clean i s = Inr s' \<and> evolves s s' \<and> (\<forall>x. owns s i x \<longrightarrow> released s' x)"
    and drop_ok: "fin s \<Longrightarrow> calm s \<Longrightarrow> weight s < bound \<Longrightarrow>
      \<exists>s'. dropper i s = Inr s' \<and> evolves s s'"
begin

lemma drop_box_ok:
  assumes "room w s" "w < bound"
  shows "\<exists>s'. drop_box dropper b s = Inr s' \<and> evolves s s'"
  using assms drop_ok by (cases b) (auto simp: drop_box_def room_def evolves_refl)

lemma dispose_ok:
  assumes "room w s" "w \<le> bound"
  shows "\<exists>s'. dispose_with dropper n s = Inr s' \<and> evolves s s' \<and> released s' (Item n)"
proof -
  obtain b s1 where s1: "arena_remove n s = (b, s1)" by fastforce
  note facts = arena_remove_facts [OF s1]
  show ?thesis
  proof (cases b)
    case None
    then show ?thesis using facts(1,2) by (simp add: dispose_with_def s1)
  next
    case (Some b')
    then have "room (weight s1) s1" "weight s1 < bound"
      using assms facts(3) room_evolves [OF assms(1) facts(1)] by (auto simp: room_def)
    then obtain s2 where s2: "drop_box dropper b' s1 = Inr s2" "evolves s1 s2"
      using drop_box_ok by blast
    then show ?thesis
      using evolves_released [OF facts(2) s2(2)] evolves_trans [OF facts(1) s2(2)] Some
      by (simp add: dispose_with_def s1)
  qed
qed

lemma run_action_ok:
  assumes "room w s" "w \<le> bound" "borrowed s \<Longrightarrow> a \<noteq> UseCurrent"
  shows "\<exists>s'. run_action dropper a s = Inr s' \<and> room w s' \<and> evolves s s' \<and> (\<forall>e. a = Emit e \<longrightarrow> released s' (Event e))"
proof (cases a)
  case (Emit e)
  then show ?thesis using evolves_event [of s e] room_evolves [OF assms(1) evolves_event] by simp
next
  case (DisposeItem n)
  then show ?thesis using dispose_ok [OF assms(1,2), of n] room_evolves [OF assms(1)] by auto
next
  case UseCurrent
  then show ?thesis using assms by (auto simp: evolves_refl)
qed

lemma run_cleanups_ok:
  assumes "room w s" "w \<le> bound" "borrowed s \<Longrightarrow> \<forall>f\<in>set fs. UseCurrent \<notin> set f"
  shows "\<exists>s'. foreach (foreach (run_action dropper)) fs s = Inr s' \<and> room w s' \<and> evolves s s' \<and>
    (\<forall>f\<in>set fs. \<forall>e. Emit e \<in> set f \<longrightarrow> released s' (Event e))"
proof -
  let ?I = "\<lambda>t. room w t \<and> evolves s t"
  have "\<exists>s'. foreach (foreach (run_action dropper)) fs s = Inr s' \<and> ?I s' \<and> evolves s s' \<and>
    (\<forall>f\<in>set fs. \<forall>e. Emit e \<in> set f \<longrightarrow> released s' (Event e))"
  proof (rule foreach_each [where I = ?I and Q = evolves])
    fix f t assume f: "f \<in> set fs" and t: "?I t"
    have "\<exists>t'. foreach (run_action dropper) f t = Inr t' \<and> ?I t' \<and> evolves t t' \<and>
        (\<forall>a\<in>set f. \<forall>e. a = Emit e \<longrightarrow> released t' (Event e))"
    proof (rule foreach_each [where I = ?I and Q = evolves])
      fix a u assume a: "a \<in> set f" and u: "?I u"
      have "borrowed u \<Longrightarrow> a \<noteq> UseCurrent" using u assms(3) f a by (auto simp: evolves_def)
      then show "\<exists>u'. run_action dropper a u = Inr u' \<and> ?I u' \<and> evolves u u' \<and> (\<forall>e. a = Emit e \<longrightarrow> released u' (Event e))"
        using run_action_ok [OF conjunct1 [OF u] assms(2), of a] evolves_trans [OF conjunct2 [OF u]] by blast
    qed (use t evolves_refl in \<open>auto simp del: released.simps intro: evolves_trans evolves_released\<close>)
    then show "\<exists>t'. foreach (run_action dropper) f t = Inr t' \<and> ?I t' \<and> evolves t t' \<and>
        (\<forall>e. Emit e \<in> set f \<longrightarrow> released t' (Event e))" by blast
  qed (use assms(1) evolves_refl in \<open>auto simp del: released.simps intro: evolves_trans evolves_released\<close>)
  then show ?thesis by blast
qed

lemma remove_all_ok:
  assumes "remove_all ns s = (bs, s')" "room w s"
  shows "evolves s s' \<and> room w s' \<and> (bs \<noteq> [] \<longrightarrow> weight s' < weight s) \<and> (\<forall>n\<in>set ns. released s' (Item n))"
  using assms
proof (induction ns arbitrary: s bs)
  case (Cons n ns)
  obtain b s1 where s1: "arena_remove n s = (b, s1)" by fastforce
  obtain bs1 where bs1: "remove_all ns s1 = (bs1, s')" and bs: "bs = (case b of None \<Rightarrow> bs1 | Some b \<Rightarrow> b # bs1)"
    using Cons.prems(1) by (auto simp: s1 split: prod.splits)
  note facts = arena_remove_facts [OF s1]
  have "room w s1" using room_evolves [OF Cons.prems(2) facts(1)] .
  note IH = Cons.IH [OF bs1 this]
  moreover have "fin s" using Cons.prems(2) by (simp add: room_def)
  then have "bs \<noteq> [] \<Longrightarrow> weight s' < weight s"
    using IH facts(3) facts(1) unfolding evolves_def bs by (cases b) fastforce+
  ultimately show ?case
    using evolves_trans [OF facts(1)] evolves_released [OF facts(2)] by auto
qed (simp add: evolves_refl)

lemma cleanup_child_ok:
  assumes "room w s" "w < bound"
  shows "\<exists>s'. cleanup_child clean dropper c s = Inr s' \<and> evolves s s' \<and> (\<forall>x. owns s c x \<longrightarrow> released s' x)"
proof (cases "owners s c")
  case None
  then show ?thesis using owns_alive [of s c] by (auto simp: cleanup_child_def upgrade_def evolves_refl)
next
  case (Some inner)
  let ?s = "s\<lparr>strong := (strong s)(c := strong s c + 1)\<rparr>"
  have r: "room w ?s" using room_evolves [OF assms(1) evolves_strong] .
  then obtain s1 where s1: "clean c ?s = Inr s1" "evolves ?s s1" "\<forall>x. owns ?s c x \<longrightarrow> released s1 x"
    using clean_ok [of ?s c] assms(2) by (auto simp: room_def)
  moreover obtain s2 where s2: "dropper c s1 = Inr s2" "evolves s1 s2"
    using drop_ok [of s1 c] room_evolves [OF r s1(2)] assms(2) by (auto simp: room_def)
  moreover have "evolves s s2" using evolves_trans [OF evolves_trans [OF evolves_strong s1(2)] s2(2)] .
  ultimately show ?thesis
    using Some owns_cong [of ?s s c] by (auto simp: cleanup_child_def upgrade_def evolves_released)
qed

lemma release_ok:
  assumes "room w s" "w \<le> bound" "elems (children inner) \<noteq> [] \<Longrightarrow> w < bound" "borrowed s \<Longrightarrow> no_lookup inner"
  shows "\<exists>s'. release_owned clean dropper inner s = Inr s' \<and> evolves s s' \<and>
    (\<forall>x\<in>owned inner. released s' x) \<and> (\<forall>c\<in>set (elems (children inner)). \<forall>x. owns s c x \<longrightarrow> released s' x)"
proof -
  have "\<exists>s1. foreach (cleanup_child clean dropper) (elems (children inner)) s = Inr s1 \<and>
      (room w s1 \<and> evolves s s1) \<and> evolves s s1 \<and> (\<forall>c\<in>set (elems (children inner)). \<forall>x. owns s c x \<longrightarrow> released s1 x)"
  proof (rule foreach_each [where I = "\<lambda>t. room w t \<and> evolves s t" and Q = evolves])
    fix c t assume c: "c \<in> set (elems (children inner))" and t: "room w t \<and> evolves s t"
    have "elems (children inner) \<noteq> []" using c by auto
    then have "w < bound" by (rule assms(3))
    then obtain t' where t': "cleanup_child clean dropper c t = Inr t'" "evolves t t'" "\<forall>x. owns t c x \<longrightarrow> released t' x"
      using cleanup_child_ok [of w t c] t by auto
    have "\<forall>x. owns s c x \<longrightarrow> released t' x"
      using t t'(2,3) unfolding evolves_def by metis
    then show "\<exists>t'. cleanup_child clean dropper c t = Inr t' \<and> (room w t' \<and> evolves s t') \<and> evolves t t' \<and>
        (\<forall>x. owns s c x \<longrightarrow> released t' x)"
      using t' t room_evolves evolves_trans by blast
  qed (use assms(1) evolves_refl in \<open>auto simp del: released.simps intro: evolves_trans evolves_released\<close>)
  then obtain s1 where s1: "foreach (cleanup_child clean dropper) (elems (children inner)) s = Inr s1"
    "room w s1" "evolves s s1" "\<forall>c\<in>set (elems (children inner)). \<forall>x. owns s c x \<longrightarrow> released s1 x" by auto
  obtain s2 where s2: "foreach (foreach (run_action dropper)) (cleanups inner) s1 = Inr s2" "room w s2" "evolves s1 s2"
    "\<forall>f\<in>set (cleanups inner). \<forall>e. Emit e \<in> set f \<longrightarrow> released s2 (Event e)"
    using run_cleanups_ok [OF s1(2) assms(2), of "cleanups inner"] assms(4) s1(3) by (auto simp: no_lookup_def evolves_def)
  obtain bs s3 where s3: "remove_all (elems (nodes inner)) s2 = (bs, s3)" by fastforce
  note s3' = remove_all_ok [OF s3 s2(2)]
  have "\<exists>s4. foreach (drop_box dropper) bs s3 = Inr s4 \<and> (room (weight s3) s4) \<and> evolves s3 s4 \<and> (\<forall>b\<in>set bs. True)"
  proof (rule foreach_each [where I = "room (weight s3)" and Q = evolves])
    fix b t assume "b \<in> set bs" "room (weight s3) t"
    moreover have "weight s3 < bound"
      using s3' s2(2) assms(2) calculation(1) by (cases bs) (auto simp: room_def)
    ultimately show "\<exists>t'. drop_box dropper b t = Inr t' \<and> room (weight s3) t' \<and> evolves t t' \<and> True"
      using drop_box_ok [of "weight s3" t b] room_evolves by blast
  qed (use s3' evolves_refl in \<open>auto simp: room_def intro: evolves_trans\<close>)
  then obtain s4 where s4: "foreach (drop_box dropper) bs s3 = Inr s4" "evolves s3 s4" by auto
  have "evolves s2 s4" "evolves s1 s4" using s2(3) s3' s4(2) evolves_trans by blast+
  moreover have "\<forall>n\<in>set (elems (nodes inner)). released s4 (Item n)" using s3' s4(2) evolves_released by blast
  ultimately have "\<forall>x\<in>owned inner. released s4 x" "\<forall>c\<in>set (elems (children inner)). \<forall>x. owns s c x \<longrightarrow> released s4 x" "evolves s s4"
    using s2(4) s1(3,4) evolves_released evolves_trans unfolding owned_def by blast+
  then show ?thesis by (simp add: release_owned_def s1(1) s2(1) s3 s4(1))
qed

end

text \<open>Every fuel gives operations that meet the contract on runtimes lighter than the fuel.\<close>

lemma evolves_by_taking:
  assumes "owners s i = Some inner" "fin s \<Longrightarrow> fin s1 \<and> weight s1 \<le> weight s"
    and "\<And>j. j \<noteq> i \<Longrightarrow> owners s1 j = owners s j"
    and "owners s1 i = None \<or> owners s1 i = Some (take_owned inner)"
    and "next_owner s1 = next_owner s" "next_key s1 = next_key s"
    and "arena s1 = arena s" "events s1 = events s" "borrowed s1 = borrowed s" "current s1 = current s"
    and "evolves s1 s'" "\<forall>x\<in>owned inner. released s' x"
    and "\<forall>c\<in>set (elems (children inner)). \<forall>x. owns s1 c x \<longrightarrow> released s' x"
  shows "evolves s s'"
proof -
  have "shrinks s s1" using assms(1,3-6) unfolding shrinks_def by (metis option.distinct(1) option.inject)
  then have "shrinks s s'" using assms(11) shrinks_trans by (simp add: evolves_def)
  moreover have "released s x \<Longrightarrow> released s1 x" for x using assms(7,8) by (cases x) (auto simp: is_disposed_def)
  moreover have "owns s k x \<Longrightarrow> released s' x \<or> owns s' k x" for k x
    using owns_taken [OF _ assms(1,3), of k x] assms(11-13) unfolding evolves_def by blast
  ultimately show ?thesis using assms(2,9,10,11) unfolding evolves_def by (metis order_trans)
qed

lemma cleanup_step:
  assumes "releasing (cleanup k) (drop_handle k) k" "fin s" "calm s" "weight s < Suc k"
  shows "\<exists>s'. cleanup (Suc k) i s = Inr s' \<and> evolves s s' \<and> (\<forall>x. owns s i x \<longrightarrow> released s' x)"
proof (cases "owners s i")
  case None
  then show ?thesis using owns_alive [of s i] by (auto simp: evolves_refl)
next
  case (Some inner)
  let ?s1 = "upd_owner i take_owned s"
  note w = take_weight [OF assms(2) Some]
  have "calm ?s1" using assms(3) Some by (auto simp: calm_def upd_owner_def no_lookup_def take_owned_def)
  then have r: "room (weight ?s1) ?s1" "weight ?s1 \<le> k" "elems (children inner) \<noteq> [] \<Longrightarrow> weight ?s1 < k"
    "borrowed ?s1 \<Longrightarrow> no_lookup inner"
    using w assms(3,4) Some length_greater_0_conv [of "elems (children inner)"]
    by (auto simp: room_def upd_owner_def calm_def simp del: length_greater_0_conv)
  obtain s' where s': "release_owned (cleanup k) (drop_handle k) inner ?s1 = Inr s'" "evolves ?s1 s'"
    "\<forall>x\<in>owned inner. released s' x" "\<forall>c\<in>set (elems (children inner)). \<forall>x. owns ?s1 c x \<longrightarrow> released s' x"
    using releasing.release_ok [OF assms(1) r] by blast
  have o1: "j \<noteq> i \<Longrightarrow> owners ?s1 j = owners s j" for j by (simp add: upd_owner_def)
  have "evolves s s'"
    by (rule evolves_by_taking [OF Some _ o1 _ _ _ _ _ _ _ s'(2-4)]) (use w Some in \<open>auto simp: upd_owner_def\<close>)
  moreover have "\<not> owns ?s1 i x" for x
  proof
    assume "owns ?s1 i x"
    then show False by (rule owns.cases) (auto simp: upd_owner_def take_owned_def owned_def Some)
  qed
  then have "owns s i x \<longrightarrow> released s' x" for x
    using owns_taken [OF _ Some o1, of i x] s'(3,4) by blast
  ultimately show ?thesis using s'(1) Some by simp
qed

lemma drop_step:
  assumes "releasing (cleanup k) (drop_handle k) k" "fin s" "calm s" "weight s < Suc k"
  shows "\<exists>s'. drop_handle (Suc k) i s = Inr s' \<and> evolves s s'"
proof (cases "1 < strong s i \<or> owners s i = None")
  case True
  then show ?thesis by (auto simp: evolves_refl)
next
  case False
  then obtain inner where Some: "owners s i = Some inner" by auto
  let ?s1 = "s\<lparr>owners := (owners s)(i := None), strong := (strong s)(i := 0)\<rparr>"
  note w = drop_weight [OF assms(2) Some refl, of "(strong s)(i := 0)"]
  have "calm ?s1" using assms(3) by (auto simp: calm_def)
  then have r: "room (weight ?s1) ?s1" "weight ?s1 \<le> k" "elems (children inner) \<noteq> [] \<Longrightarrow> weight ?s1 < k"
    "borrowed ?s1 \<Longrightarrow> no_lookup inner"
    using w assms(3,4) Some by (auto simp: room_def calm_def)
  obtain s' where s': "release_owned (cleanup k) (drop_handle k) inner ?s1 = Inr s'" "evolves ?s1 s'"
    "\<forall>x\<in>owned inner. released s' x" "\<forall>c\<in>set (elems (children inner)). \<forall>x. owns ?s1 c x \<longrightarrow> released s' x"
    using releasing.release_ok [OF assms(1) r] by blast
  have "evolves s s'"
    by (rule evolves_by_taking [OF Some _ _ _ _ _ _ _ _ _ s'(2-4)]) (use w in auto)
  then show ?thesis using s'(1) Some False by simp
qed

lemma releasing_all: "releasing (cleanup k) (drop_handle k) k"
proof (induction k)
  case 0
  show ?case by unfold_locales auto
next
  case (Suc k)
  show ?case
    by (rule releasing.intro) (use cleanup_step [OF Suc] drop_step [OF Suc] in blast)+
qed

interpretation own: releasing "cleanup k" "drop_handle k" k for k
  by (rule releasing_all)

subsection \<open>Every cleanup function runs once\<close>

text \<open>
  The events that ran, together with those of the cleanup functions that are still
  registered with a live owner, are conserved: nothing is run twice or forgotten.
\<close>

definition emits :: "cleanup_fn \<Rightarrow> nat multiset" where
  "emits f = mset (concat (map (\<lambda>a. case a of Emit e \<Rightarrow> [e] | _ \<Rightarrow> []) f))"

definition pending_of :: "owner_inner \<Rightarrow> nat multiset" where
  "pending_of inner = sum_list (map emits (cleanups inner))"

definition pending :: "runtime \<Rightarrow> nat multiset" where
  "pending s = (\<Sum>i\<in>dom (owners s). pending_of (the (owners s i)))"

definition account :: "runtime \<Rightarrow> nat multiset" where
  "account s = mset (events s) + pending s"

lemma emits_simps [simp]:
  "emits [] = {#}"
  "emits (a # f) = (case a of Emit e \<Rightarrow> {#e#} | _ \<Rightarrow> {#}) + emits f"
  by (auto simp: emits_def split: cleanup_action.split)

lemma emits_sum: "emits f = sum_list (map (\<lambda>a. case a of Emit e \<Rightarrow> {#e#} | _ \<Rightarrow> {#}) f)"
  by (induction f) auto

lemma account_cong: "owners s' = owners s \<Longrightarrow> events s' = events s \<Longrightarrow> account s' = account s"
  by (simp add: account_def pending_def)

lemma pending_split:
  assumes "finite (dom (owners s))" "owners s i = Some inner"
  shows "pending s = pending_of inner + (\<Sum>j\<in>dom (owners s) - {i}. pending_of (the (owners s j)))"
  unfolding pending_def using assms by (subst sum.remove [of _ i]) auto

lemma account_take:
  assumes "fin s" "owners s i = Some inner"
  shows "account (upd_owner i take_owned s) + pending_of inner = account s"
proof -
  let ?s1 = "upd_owner i take_owned s"
  have d: "dom (owners ?s1) = dom (owners s)" using assms(2) by (auto simp: upd_owner_def)
  have f: "finite (dom (owners s))" "owners ?s1 i = Some (take_owned inner)"
    using assms by (auto simp: fin_def upd_owner_def)
  have "pending ?s1 = (\<Sum>j\<in>dom (owners s) - {i}. pending_of (the (owners s j)))"
    using pending_split [of ?s1 i "take_owned inner"] f d
    by (simp add: take_owned_def upd_owner_def pending_of_def)
  then show ?thesis using pending_split [OF f(1) assms(2)] by (simp add: account_def upd_owner_def)
qed

lemma account_gone:
  assumes "fin s" "owners s i = Some inner"
    and s1: "s1 = s\<lparr>owners := (owners s)(i := None), strong := f\<rparr>"
  shows "account s1 + pending_of inner = account s"
proof -
  have f: "finite (dom (owners s))" using assms by (auto simp: fin_def)
  have "pending s1 = (\<Sum>j\<in>dom (owners s) - {i}. pending_of (the (owners s j)))"
    unfolding pending_def by (rule sum.cong) (auto simp: s1)
  then show ?thesis using pending_split [OF f assms(2)] by (simp add: account_def s1)
qed

locale conserving =
  fixes clean dropper :: "owner_id \<Rightarrow> runtime \<Rightarrow> runtime result"
  assumes clean_account: "fin s \<Longrightarrow> clean i s = Inr s' \<Longrightarrow> fin s' \<and> account s' = account s"
    and drop_account: "fin s \<Longrightarrow> dropper i s = Inr s' \<Longrightarrow> fin s' \<and> account s' = account s"
begin

lemma drop_box_account: "fin s \<Longrightarrow> drop_box dropper b s = Inr s' \<Longrightarrow> fin s' \<and> account s' = account s"
  by (cases b) (auto simp: drop_box_def drop_account)

lemma remove_account: "fin s \<Longrightarrow> arena_remove n s = (b, s') \<Longrightarrow> fin s' \<and> account s' = account s"
  by (auto simp: arena_remove_def fin_def intro: account_cong)

lemma action_account:
  assumes "fin s" "run_action dropper a s = Inr s'"
  shows "fin s' \<and> account s' = account s + (case a of Emit e \<Rightarrow> {#e#} | _ \<Rightarrow> {#})"
proof (cases a)
  case (Emit e)
  then show ?thesis using assms by (auto simp: account_def pending_def fin_def)
next
  case (DisposeItem n)
  obtain b s1 where s1: "arena_remove n s = (b, s1)" by fastforce
  note f = remove_account [OF assms(1) s1]
  then show ?thesis using assms(2) drop_box_account [of s1 _ s'] DisposeItem s1
    by (cases b) (auto simp: dispose_with_def)
next
  case UseCurrent
  then show ?thesis using assms by (auto split: if_splits)
qed

lemma remove_all_account: "fin s \<Longrightarrow> remove_all ns s = (bs, s') \<Longrightarrow> fin s' \<and> account s' = account s"
proof (induction ns arbitrary: s bs)
  case (Cons n ns)
  then show ?case using remove_account [OF Cons.prems(1), of n] by (auto split: prod.splits)
qed simp

lemma child_account:
  assumes "fin s" "cleanup_child clean dropper c s = Inr s'"
  shows "fin s' \<and> account s' = account s + {#}"
proof (cases "owners s c")
  case (Some inner)
  let ?s = "s\<lparr>strong := (strong s)(c := strong s c + 1)\<rparr>"
  have "fin ?s" "account ?s = account s" using assms(1) by (auto simp: fin_def intro: account_cong)
  then show ?thesis
    using assms(2) Some clean_account [of ?s c] drop_account [of _ c s']
    by (auto simp: cleanup_child_def upgrade_def and_then_Inr)
qed (use assms in \<open>simp add: cleanup_child_def upgrade_def\<close>)

lemma release_account:
  assumes "fin s" "release_owned clean dropper inner s = Inr s'"
  shows "fin s' \<and> account s' = account s + pending_of inner"
proof -
  obtain s1 s2 bs s3 where
    s1: "foreach (cleanup_child clean dropper) (elems (children inner)) s = Inr s1"
    and s2: "foreach (foreach (run_action dropper)) (cleanups inner) s1 = Inr s2"
    and s3: "remove_all (elems (nodes inner)) s2 = (bs, s3)"
    and s4: "foreach (drop_box dropper) bs s3 = Inr s'"
    using assms(2) unfolding release_owned_def and_then_Inr Let_def case_prod_beta by (metis prod.collapse)
  have a1: "fin s1 \<and> account s1 = account s + sum_list (map (\<lambda>_. {#}) (elems (children inner)))"
    by (rule foreach_account [OF s1, where I = fin]) (use assms(1) child_account in auto)
  have a2: "fin s2 \<and> account s2 = account s1 + sum_list (map emits (cleanups inner))"
  proof (rule foreach_account [OF s2, where I = fin])
    fix f t t' assume t: "fin t" "foreach (run_action dropper) f t = Inr t'"
    show "fin t' \<and> account t' = account t + emits f"
      unfolding emits_sum by (rule foreach_account [OF t(2), where I = fin]) (use t(1) action_account in auto)
  qed (use a1 in simp)
  have a3: "fin s3 \<and> account s3 = account s2" using remove_all_account [OF _ s3] a2 by simp
  have "fin s' \<and> account s' = account s3 + sum_list (map (\<lambda>_. {#}) bs)"
    by (rule foreach_account [OF s4, where I = fin]) (use a3 drop_box_account in auto)
  with a1 a2 a3 show ?thesis by (simp add: pending_of_def sum_list_triv)
qed

end

lemma conserving_all: "conserving (cleanup k) (drop_handle k)"
proof (induction k)
  case 0
  show ?case by unfold_locales auto
next
  case (Suc k)
  note release = conserving.release_account [OF Suc]
  show ?case
  proof
    fix s i s' assume s: "fin s" "cleanup (Suc k) i s = Inr s'"
    show "fin s' \<and> account s' = account s"
    proof (cases "owners s i")
      case (Some inner)
      have "release_owned (cleanup k) (drop_handle k) inner (upd_owner i take_owned s) = Inr s'"
        using s(2) Some by simp
      then show ?thesis
        using release [OF take_weight(1) [OF s(1) Some]] account_take [OF s(1) Some] by simp
    qed (use s in simp)
  next
    fix s i s' assume s: "fin s" "drop_handle (Suc k) i s = Inr s'"
    show "fin s' \<and> account s' = account s"
    proof (cases "1 < strong s i \<or> owners s i = None")
      case True
      then show ?thesis using s by (auto simp: fin_def intro: account_cong split: if_splits)
    next
      case False
      then obtain inner where Some: "owners s i = Some inner" by auto
      let ?s1 = "s\<lparr>owners := (owners s)(i := None), strong := (strong s)(i := 0)\<rparr>"
      have "release_owned (cleanup k) (drop_handle k) inner ?s1 = Inr s'"
        using s(2) Some False by simp
      then show ?thesis
        using release [OF drop_weight(1) [OF s(1) Some refl]] account_gone [OF s(1) Some refl, of "(strong s)(i := 0)"]
        by simp
    qed
  qed
qed

interpretation once: conserving "cleanup k" "drop_handle k" for k
  by (rule conserving_all)

end
