(* ===== verification/Owner_Context.thy ===== *)
theory Owner_Context
  imports Owner_Tree
begin

text \<open>
  Context values (\<^verbatim>\<open>src/reactive_graph/src/owner/context.rs\<close>) and the storage of arena
  items (\<^verbatim>\<open>owner/storage.rs\<close>, \<^verbatim>\<open>owner/arena_item.rs\<close>). A context is keyed by the type of
  the value, so the type at which a lookup is instantiated is an argument of its model.
\<close>

subsection \<open>Context\<close>

definition owner_provide_context :: "owner_id \<Rightarrow> any_value \<Rightarrow> runtime \<Rightarrow> runtime" where
  "owner_provide_context i v s = upd_owner i (\<lambda>inner. inner\<lparr>contexts := (contexts inner)(type_id_of v \<mapsto> v)\<rparr>) s"

text \<open>
  The three loops up the chain of parents. The handle \<open>next\<close> is strong, so the lookup of
  the owner never fails. A value found under its own type can always be downcast to it.
\<close>

fun with_context_loop :: "nat \<Rightarrow> type_id \<Rightarrow> owner_id option \<Rightarrow> runtime \<Rightarrow> any_value option result" where
  "with_context_loop 0 ty next s = Inl OutOfFuel"
| "with_context_loop (Suc k) ty None s = Inr None"
| "with_context_loop (Suc k) ty (Some i) s =
     (case owners s i of
        None \<Rightarrow> Inr None
      | Some inner \<Rightarrow>
          (case contexts inner ty of
             Some v \<Rightarrow> Inr (Some v)
           | None \<Rightarrow> with_context_loop k ty (upgrade s (parent inner)) s))"

definition with_context :: "nat \<Rightarrow> type_id \<Rightarrow> (any_value \<Rightarrow> 'r) \<Rightarrow> owner_id \<Rightarrow> runtime \<Rightarrow> 'r option result" where
  "with_context k ty cb i s = map_sum id (map_option cb) (with_context_loop k ty (Some i) s)"

definition owner_use_context :: "nat \<Rightarrow> type_id \<Rightarrow> owner_id \<Rightarrow> runtime \<Rightarrow> any_value option result" where
  "owner_use_context k ty i s = with_context k ty (\<lambda>v. v) i s"

fun take_context_loop :: "nat \<Rightarrow> type_id \<Rightarrow> owner_id option \<Rightarrow> runtime \<Rightarrow> (any_value option \<times> runtime) result" where
  "take_context_loop 0 ty next s = Inl OutOfFuel"
| "take_context_loop (Suc k) ty None s = Inr (None, s)"
| "take_context_loop (Suc k) ty (Some i) s =
     (case owners s i of
        None \<Rightarrow> Inr (None, s)
      | Some inner \<Rightarrow>
          (case contexts inner ty of
             Some v \<Rightarrow> Inr (Some v, upd_owner i (\<lambda>inner. inner\<lparr>contexts := (contexts inner)(ty := None)\<rparr>) s)
           | None \<Rightarrow> take_context_loop k ty (upgrade s (parent inner)) s))"

definition owner_take_context :: "nat \<Rightarrow> type_id \<Rightarrow> owner_id \<Rightarrow> runtime \<Rightarrow> (any_value option \<times> runtime) result" where
  "owner_take_context k ty i s = take_context_loop k ty (Some i) s"

fun update_context_loop ::
  "nat \<Rightarrow> type_id \<Rightarrow> (any_value \<Rightarrow> 'r \<times> any_value) \<Rightarrow> owner_id option \<Rightarrow> runtime \<Rightarrow> ('r option \<times> runtime) result" where
  "update_context_loop 0 ty cb next s = Inl OutOfFuel"
| "update_context_loop (Suc k) ty cb None s = Inr (None, s)"
| "update_context_loop (Suc k) ty cb (Some i) s =
     (case owners s i of
        None \<Rightarrow> Inr (None, s)
      | Some inner \<Rightarrow>
          (case contexts inner ty of
             Some v \<Rightarrow>
               (let (r, v) = cb v
                in Inr (Some r, upd_owner i (\<lambda>inner. inner\<lparr>contexts := (contexts inner)(ty \<mapsto> v)\<rparr>) s))
           | None \<Rightarrow> update_context_loop k ty cb (upgrade s (parent inner)) s))"

definition owner_update_context ::
  "nat \<Rightarrow> type_id \<Rightarrow> (any_value \<Rightarrow> 'r \<times> any_value) \<Rightarrow> owner_id \<Rightarrow> runtime \<Rightarrow> ('r option \<times> runtime) result" where
  "owner_update_context k ty cb i s = update_context_loop k ty cb (Some i) s"

text \<open>The breadth-first search of \<open>find_context_in_children\<close>.\<close>

fun find_in_children_loop :: "nat \<Rightarrow> type_id \<Rightarrow> owner_id list \<Rightarrow> runtime \<Rightarrow> any_value option result" where
  "find_in_children_loop 0 ty to_search s = Inl OutOfFuel"
| "find_in_children_loop (Suc k) ty [] s = Inr None"
| "find_in_children_loop (Suc k) ty (next # to_search) s =
     (case owners s next of
        None \<Rightarrow> find_in_children_loop k ty to_search s
      | Some inner \<Rightarrow>
          (case contexts inner ty of
             Some v \<Rightarrow> Inr (Some v)
           | None \<Rightarrow> find_in_children_loop k ty (to_search @ elems (children inner)) s))"

definition find_context_in_children :: "nat \<Rightarrow> type_id \<Rightarrow> owner_id \<Rightarrow> runtime \<Rightarrow> any_value option result" where
  "find_context_in_children k ty i s =
     (case owners s i of
        None \<Rightarrow> Inr None
      | Some inner \<Rightarrow> find_in_children_loop k ty (elems (children inner)) s)"

text \<open>
  \<open>self.use_context().unwrap_or_else(..)\<close> returns an \<open>Option<T>\<close>, so \<open>use_context\<close> is
  instantiated at the type \<open>Option<T>\<close>.
\<close>

fun as_option :: "any_value \<Rightarrow> any_value option" where
  "as_option (SomeOf v) = Some v"
| "as_option _ = None"

definition use_context_bidirectional :: "nat \<Rightarrow> type_id \<Rightarrow> owner_id \<Rightarrow> runtime \<Rightarrow> any_value option result" where
  "use_context_bidirectional k ty i s =
     and_then (owner_use_context k (OptionOf ty) i s) (\<lambda>found.
       case found of
         Some v \<Rightarrow> Inr (as_option v)
       | None \<Rightarrow> find_context_in_children k ty i s)"

text \<open>The free functions act on the current owner.\<close>

definition provide_context :: "any_value \<Rightarrow> runtime \<Rightarrow> runtime" where
  "provide_context v s = (case current_owner s of None \<Rightarrow> s | Some i \<Rightarrow> owner_provide_context i v s)"

definition use_context :: "nat \<Rightarrow> type_id \<Rightarrow> runtime \<Rightarrow> any_value option result" where
  "use_context k ty s = (case current_owner s of None \<Rightarrow> Inr None | Some i \<Rightarrow> owner_use_context k ty i s)"

definition expect_context :: "nat \<Rightarrow> type_id \<Rightarrow> runtime \<Rightarrow> any_value result" where
  "expect_context k ty s =
     and_then (use_context k ty s) (\<lambda>r. case r of None \<Rightarrow> Inl Panic | Some v \<Rightarrow> Inr v)"

definition take_context :: "nat \<Rightarrow> type_id \<Rightarrow> runtime \<Rightarrow> (any_value option \<times> runtime) result" where
  "take_context k ty s = (case current_owner s of None \<Rightarrow> Inr (None, s) | Some i \<Rightarrow> owner_take_context k ty i s)"

definition update_context ::
  "nat \<Rightarrow> type_id \<Rightarrow> (any_value \<Rightarrow> 'r \<times> any_value) \<Rightarrow> runtime \<Rightarrow> ('r option \<times> runtime) result" where
  "update_context k ty cb s =
     (case current_owner s of None \<Rightarrow> Inr (None, s) | Some i \<Rightarrow> owner_update_context k ty cb i s)"

subsection \<open>Storage of arena items\<close>

definition sync_wrap :: "thread_id \<Rightarrow> any_value \<Rightarrow> boxed" where
  "sync_wrap t v = SyncBox v"

definition sync_get :: "thread_id \<Rightarrow> type_id \<Rightarrow> arena_key \<Rightarrow> runtime \<Rightarrow> any_value option" where
  "sync_get t ty n s =
     (case arena s n of
        Some (SyncBox v) \<Rightarrow> if type_id_of v = ty then Some v else None
      | _ \<Rightarrow> None)"

definition sync_try_with :: "thread_id \<Rightarrow> type_id \<Rightarrow> arena_key \<Rightarrow> (any_value \<Rightarrow> 'u) \<Rightarrow> runtime \<Rightarrow> 'u option" where
  "sync_try_with t ty n f s = map_option f (sync_get t ty n s)"

definition sync_try_with_mut ::
  "thread_id \<Rightarrow> type_id \<Rightarrow> arena_key \<Rightarrow> (any_value \<Rightarrow> 'u \<times> any_value) \<Rightarrow> runtime \<Rightarrow> 'u option \<times> runtime" where
  "sync_try_with_mut t ty n f s =
     (case sync_get t ty n s of
        None \<Rightarrow> (None, s)
      | Some v \<Rightarrow> let (u, v) = f v in (Some u, s\<lparr>arena := (arena s)(n \<mapsto> SyncBox v)\<rparr>))"

definition sync_try_set :: "thread_id \<Rightarrow> type_id \<Rightarrow> arena_key \<Rightarrow> any_value \<Rightarrow> runtime \<Rightarrow> any_value option \<times> runtime" where
  "sync_try_set t ty n v s =
     (case sync_get t ty n s of
        Some _ \<Rightarrow> (None, s\<lparr>arena := (arena s)(n \<mapsto> SyncBox v)\<rparr>)
      | None \<Rightarrow> (Some v, s))"

text \<open>The entry is removed even if it cannot be cast; the value of another type is dropped.\<close>

definition sync_take :: "nat \<Rightarrow> thread_id \<Rightarrow> type_id \<Rightarrow> arena_key \<Rightarrow> runtime \<Rightarrow> (any_value option \<times> runtime) result" where
  "sync_take k t ty n s =
     (let (m, s') = arena_remove n s
      in case m of
           None \<Rightarrow> Inr (None, s')
         | Some b \<Rightarrow>
             (case sync_get t ty n s of
                Some v \<Rightarrow> Inr (Some v, s')
              | None \<Rightarrow> and_then (drop_box (drop_handle k) b s') (\<lambda>s. Inr (None, s))))"

definition local_wrap :: "thread_id \<Rightarrow> any_value \<Rightarrow> boxed" where
  "local_wrap t v = LocalBox t v"

definition local_get :: "thread_id \<Rightarrow> type_id \<Rightarrow> arena_key \<Rightarrow> runtime \<Rightarrow> any_value option" where
  "local_get t ty n s =
     (case arena s n of
        Some (LocalBox t' v) \<Rightarrow> if type_id_of v = ty \<and> t' = t then Some v else None
      | _ \<Rightarrow> None)"

definition local_try_with :: "thread_id \<Rightarrow> type_id \<Rightarrow> arena_key \<Rightarrow> (any_value \<Rightarrow> 'u) \<Rightarrow> runtime \<Rightarrow> 'u option" where
  "local_try_with t ty n f s = map_option f (local_get t ty n s)"

definition local_try_with_mut ::
  "thread_id \<Rightarrow> type_id \<Rightarrow> arena_key \<Rightarrow> (any_value \<Rightarrow> 'u \<times> any_value) \<Rightarrow> runtime \<Rightarrow> 'u option \<times> runtime" where
  "local_try_with_mut t ty n f s =
     (case local_get t ty n s of
        None \<Rightarrow> (None, s)
      | Some v \<Rightarrow> let (u, v) = f v in (Some u, s\<lparr>arena := (arena s)(n \<mapsto> LocalBox t v)\<rparr>))"

definition local_try_set :: "thread_id \<Rightarrow> type_id \<Rightarrow> arena_key \<Rightarrow> any_value \<Rightarrow> runtime \<Rightarrow> any_value option \<times> runtime" where
  "local_try_set t ty n v s =
     (case local_get t ty n s of
        Some _ \<Rightarrow> (None, s\<lparr>arena := (arena s)(n \<mapsto> LocalBox t v)\<rparr>)
      | None \<Rightarrow> (Some v, s))"

text \<open>Here the entry stays when it cannot be taken on this thread.\<close>

definition local_take :: "nat \<Rightarrow> thread_id \<Rightarrow> type_id \<Rightarrow> arena_key \<Rightarrow> runtime \<Rightarrow> (any_value option \<times> runtime) result" where
  "local_take k t ty n s =
     (case local_get t ty n s of
        None \<Rightarrow> Inr (None, s)
      | Some v \<Rightarrow> Inr (Some v, snd (arena_remove n s)))"

text \<open>
  What \<open>ArenaItem\<close> relies on in a storage: a value just stored can be read back on its
  thread, a successful write is read back, a failed write gives the value back and changes
  nothing, and taking returns what a read would have returned.
\<close>

locale storage =
  fixes wrap :: "thread_id \<Rightarrow> any_value \<Rightarrow> boxed"
    and get :: "thread_id \<Rightarrow> type_id \<Rightarrow> arena_key \<Rightarrow> runtime \<Rightarrow> any_value option"
    and try_set :: "thread_id \<Rightarrow> type_id \<Rightarrow> arena_key \<Rightarrow> any_value \<Rightarrow> runtime \<Rightarrow> any_value option \<times> runtime"
    and take_item :: "nat \<Rightarrow> thread_id \<Rightarrow> type_id \<Rightarrow> arena_key \<Rightarrow> runtime \<Rightarrow> (any_value option \<times> runtime) result"
  assumes get_wrap: "arena s n = Some (wrap t v) \<Longrightarrow> get t (type_id_of v) n s = Some v"
    and get_typed: "get t ty n s = Some v \<Longrightarrow> type_id_of v = ty"
    and set_ok: "get t ty n s = Some u \<Longrightarrow> try_set t ty n v s = (None, s\<lparr>arena := (arena s)(n \<mapsto> wrap t v)\<rparr>)"
    and set_fails: "get t ty n s = None \<Longrightarrow> try_set t ty n v s = (Some v, s)"
    and take_some: "get t ty n s = Some v \<Longrightarrow> take_item k t ty n s = Inr (Some v, s\<lparr>arena := (arena s)(n := None)\<rparr>)"
    and get_gone: "arena s n = None \<Longrightarrow> get t ty n s = None"
begin

lemma set_then_get:
  assumes "get t ty n s = Some u" "type_id_of v = ty" "try_set t ty n v s = (r, s')"
  shows "r = None \<and> get t ty n s' = Some v \<and> (\<forall>m. m \<noteq> n \<longrightarrow> arena s' m = arena s m)"
  using set_ok [OF assms(1), of v] assms(2,3) get_wrap [of s' n t v] by auto

lemma take_then_gone:
  assumes "get t ty n s = Some v" "take_item k t ty n s = Inr (r, s')"
  shows "r = Some v \<and> is_disposed s' n \<and> try_set t ty n w s' = (Some w, s')"
  using take_some [OF assms(1)] assms(2) get_gone [of s' n] set_fails [of t ty n s' w] by (auto simp: is_disposed_def)

end

interpretation sync: storage sync_wrap sync_get sync_try_set sync_take
proof
  fix s n t v ty k
  show "sync_get t ty n s = Some v \<Longrightarrow> sync_take k t ty n s = Inr (Some v, s\<lparr>arena := (arena s)(n := None)\<rparr>)"
    by (auto simp: sync_take_def sync_get_def arena_remove_def split: option.splits boxed.splits if_splits)
qed (auto simp: sync_wrap_def sync_get_def sync_try_set_def split: option.splits boxed.splits if_splits)

interpretation local: storage local_wrap local_get local_try_set local_take
  by unfold_locales
    (auto simp: local_wrap_def local_get_def local_try_set_def local_take_def arena_remove_def
      split: option.splits boxed.splits if_splits)

end
