(* ===== verification/Owner_Props.thy ===== *)
theory Owner_Props
  imports Owner_Cleanup Owner_Context
begin

text \<open>
  The properties of the ownership tree: well-formedness along any history of operations,
  what a cleanup releases, the scope of context values, pausing, and the bounds on the
  lists of an owner.
\<close>

subsection \<open>The lists of an owner stay proportional to what is alive\<close>

interpretation nodes_vec: pruned_vec register_vec "\<lambda>k. max 4 (2 * k)"
proof
  fix P :: "arena_key \<Rightarrow> bool" and x :: arena_key and v :: "arena_key vec" and k :: nat
  show "filter P (elems (register_vec P x v)) = filter P (elems v @ [x])"
    by (simp add: register_vec_def)
  show "set (elems (register_vec P x v)) \<subseteq> insert x (set (elems v))"
    by (auto simp: register_vec_def)
  show "vec_ok v \<Longrightarrow> vec_ok (register_vec P x v)"
    by (simp add: register_vec_def vec_ok_push vec_ok_retain)
  show "cap (register_vec P x v) \<le> max (cap v) (max 4 (2 * k))" if "vec_ok v" "length (filter P (elems v)) \<le> k"
    using that vec_ok_retain [OF that(1), of P]
    by (auto simp: register_vec_def cap_push vec_ok_def le_max_iff_disj)
qed

lemma cap_push_child:
  assumes "vec_ok v" "length (filter P (elems v)) \<le> k"
  shows "cap (push_child_vec P x v) \<le> max (cap v) (max 4 (4 * k))"
proof (cases "elems v \<noteq> [] \<and> length (elems v) = cap v")
  case False
  then show ?thesis using assms(1) by (auto simp: push_child_vec_def cap_push vec_ok_def)
next
  case True
  let ?r = "vec_retain P v"
  let ?w = "vec_reserve (length (elems ?r)) ?r"
  have ok: "vec_ok ?w" using assms(1) by (intro vec_ok_reserve vec_ok_retain)
  have "0 < cap v" using True by (metis length_greater_0_conv)
  then have "length (elems ?w) < cap ?w"
    by (auto simp: vec_reserve_def grow_amortized_def)
  then have "cap (push_child_vec P x v) = cap ?w"
    using True cap_push [OF ok, of x] by (simp add: push_child_vec_def Let_def)
  also have "\<dots> \<le> max (cap v) (max 4 (4 * k))"
    using assms(2) by (auto simp: vec_reserve_def grow_amortized_def)
  finally show ?thesis .
qed

interpretation child_vec: pruned_vec push_child_vec "\<lambda>k. max 4 (4 * k)"
proof
  fix P :: "owner_id \<Rightarrow> bool" and x :: owner_id and v :: "owner_id vec" and k :: nat
  show "filter P (elems (push_child_vec P x v)) = filter P (elems v @ [x])"
    by (simp add: push_child_vec_def Let_def)
  show "set (elems (push_child_vec P x v)) \<subseteq> insert x (set (elems v))"
    by (auto simp: push_child_vec_def Let_def)
  show "vec_ok v \<Longrightarrow> vec_ok (push_child_vec P x v)"
    by (simp add: push_child_vec_def Let_def vec_ok_push vec_ok_retain vec_ok_reserve)
qed (rule cap_push_child)

subsection \<open>Well-formed trees\<close>

definition wf_inner :: "nat \<Rightarrow> owner_id \<Rightarrow> owner_inner \<Rightarrow> bool" where
  "wf_inner n i inner \<longleftrightarrow> i < n \<and> (\<forall>p. parent inner = Some p \<longrightarrow> p < i) \<and>
     (\<forall>c\<in>set (elems (children inner)). i < c \<and> c < n) \<and>
     (\<forall>ty v. contexts inner ty = Some v \<longrightarrow> type_id_of v = ty) \<and>
     vec_ok (nodes inner) \<and> vec_ok (children inner)"

definition wf_tree :: "runtime \<Rightarrow> bool" where
  "wf_tree s \<longleftrightarrow> (\<forall>i inner. owners s i = Some inner \<longrightarrow> wf_inner (next_owner s) i inner)"

lemma wf_tree_upd:
  assumes "wf_tree s" "\<And>inner. owners s i = Some inner \<Longrightarrow> wf_inner (next_owner s) i inner \<Longrightarrow> wf_inner (next_owner s) i (f inner)"
  shows "wf_tree (upd_owner i f s)"
  using assms by (auto simp: wf_tree_def upd_owner_def)

lemma wf_tree_shrinks:
  assumes "wf_tree s" "shrinks s s'"
  shows "wf_tree s'"
  unfolding wf_tree_def
proof (intro allI impI)
  fix i inner' assume "owners s' i = Some inner'"
  then obtain inner where i: "owners s i = Some inner" "inner' = inner \<or> inner' = take_owned inner"
    using assms(2) unfolding shrinks_def by blast
  then have "wf_inner (next_owner s) i inner'" using assms(1) by (auto simp: wf_tree_def wf_inner_def take_owned_def)
  then show "wf_inner (next_owner s') i inner'" using assms(2) by (simp add: shrinks_def)
qed

lemma wf_inner_mono: "wf_inner n i inner \<Longrightarrow> n \<le> m \<Longrightarrow> wf_inner m i inner"
  by (auto simp: wf_inner_def)

lemma wf_tree_alloc:
  assumes "wf_tree s" "alloc_owner (new_inner p b) s = (i, s')" "\<And>q. p = Some q \<Longrightarrow> q < next_owner s"
  shows "wf_tree s'" "i = next_owner s" "next_owner s' = Suc i" "owners s' i = Some (new_inner p b)"
    "\<And>j. j \<noteq> i \<Longrightarrow> owners s' j = owners s j"
proof -
  have s': "i = next_owner s" "s' = s\<lparr>owners := (owners s)(i \<mapsto> new_inner p b), strong := (strong s)(i := 1), next_owner := i + 1\<rparr>"
    using assms(2) by (auto simp: alloc_owner_def Let_def)
  then show "i = next_owner s" "next_owner s' = Suc i" "owners s' i = Some (new_inner p b)"
    "\<And>j. j \<noteq> i \<Longrightarrow> owners s' j = owners s j" by auto
  have "wf_inner (Suc (next_owner s)) (next_owner s) (new_inner p b)"
    using assms(3) by (auto simp: wf_inner_def new_inner_def)
  then show "wf_tree s'"
    using assms(1) s' wf_inner_mono [of "next_owner s" _ _ "Suc (next_owner s)"] by (auto simp: wf_tree_def)
qed

lemma wf_push_child:
  assumes "wf_tree s" "i < c" "c < next_owner s"
  shows "wf_tree (push_child i c s)"
  unfolding push_child_def
proof (rule wf_tree_upd [OF assms(1)])
  fix inner assume w: "wf_inner (next_owner s) i inner"
  let ?v = "push_child_vec (\<lambda>j. owners s j \<noteq> None) c (children inner)"
  have "vec_ok ?v" using w child_vec.add_ok by (simp add: wf_inner_def)
  moreover have "\<forall>d\<in>set (elems ?v). i < d \<and> d < next_owner s"
    using w assms(2,3) child_vec.add_subset [of "\<lambda>j. owners s j \<noteq> None" c "children inner"]
    unfolding wf_inner_def by blast
  ultimately show "wf_inner (next_owner s) i (inner\<lparr>children := ?v\<rparr>)" using w by (simp add: wf_inner_def)
qed

lemma wf_register: "wf_tree s \<Longrightarrow> wf_tree (register i n s)"
  unfolding register_def by (rule wf_tree_upd) (auto simp: wf_inner_def nodes_vec.add_ok)

lemma upgrade_Some: "upgrade s w = Some i \<longleftrightarrow> w = Some i \<and> owners s i \<noteq> None"
  by (auto simp: upgrade_def split: option.splits)

lemma wf_owner_new:
  assumes "wf_tree s" "owner_new s = (i, s')" shows "wf_tree s'"
proof -
  let ?p = "upgrade s (current s)"
  obtain s1 where s1: "alloc_owner (new_inner ?p False) s = (next_owner s, s1)" by (simp add: alloc_owner_def Let_def)
  have p: "q < next_owner s" if "?p = Some q" for q
    using that assms(1) by (auto simp: upgrade_Some wf_tree_def wf_inner_def)
  note a = wf_tree_alloc [OF assms(1) s1 p]
  have "s' = (case upgrade s1 ?p of None \<Rightarrow> s1 | Some j \<Rightarrow> push_child j (next_owner s) s1)"
    using assms(2) by (auto simp: owner_new_def Let_def s1 split: option.splits)
  then show ?thesis
    using a(1,3) p wf_push_child [OF a(1), of _ "next_owner s"] by (auto simp: upgrade_Some split: option.splits)
qed

lemma wf_owner_child:
  assumes "wf_tree s" "owner_child i s = (c, s')" shows "wf_tree s'"
proof (cases "owners s i")
  case (Some inner)
  obtain s1 where s1: "alloc_owner (new_inner (Some i) (paused inner)) s = (next_owner s, s1)"
    by (simp add: alloc_owner_def Let_def)
  have i: "i < next_owner s" using Some assms(1) by (auto simp: wf_tree_def wf_inner_def)
  note a = wf_tree_alloc [OF assms(1) s1]
  have "s' = push_child i (next_owner s) s1" using assms(2) Some by (auto simp: owner_child_def s1)
  then show ?thesis using a i wf_push_child [of s1 i "next_owner s"] by auto
qed (use assms in \<open>simp add: owner_child_def\<close>)

subsection \<open>Any history of operations\<close>

datatype owner_op =
    New | NewRoot | Child owner_id | SetCurrent owner_id | CloneHandle owner_id | DropHandle owner_id
  | Provide owner_id any_value | Take owner_id type_id | Update owner_id type_id "any_value \<Rightarrow> any_value"
  | NewItem boxed | Dispose arena_key | OnCleanup cleanup_fn | Cleanup owner_id
  | Unset owner_id | ForceUnset owner_id | Pause owner_id | Resume owner_id

definition owner_step :: "nat \<Rightarrow> owner_op \<Rightarrow> runtime \<Rightarrow> runtime result" where
  "owner_step k a s = (case a of
     New \<Rightarrow> Inr (snd (owner_new s))
   | NewRoot \<Rightarrow> Inr (snd (new_root s))
   | Child i \<Rightarrow> Inr (snd (owner_child i s))
   | SetCurrent i \<Rightarrow> Inr (set_owner i s)
   | CloneHandle i \<Rightarrow> Inr (s\<lparr>strong := (strong s)(i := strong s i + 1)\<rparr>)
   | DropHandle i \<Rightarrow> drop_handle k i s
   | Provide i v \<Rightarrow> Inr (owner_provide_context i v s)
   | Take i ty \<Rightarrow> map_sum id snd (owner_take_context k ty i s)
   | Update i ty cb \<Rightarrow> map_sum id snd (owner_update_context k ty (\<lambda>v. ((), cb v)) i s)
   | NewItem b \<Rightarrow> Inr (snd (item_new b s))
   | Dispose n \<Rightarrow> item_dispose k n s
   | OnCleanup f \<Rightarrow> Inr (on_cleanup f s)
   | Cleanup i \<Rightarrow> cleanup k i s
   | Unset i \<Rightarrow> unset k i s
   | ForceUnset i \<Rightarrow> unset_with_forced_cleanup k i s
   | Pause i \<Rightarrow> pause k i s
   | Resume i \<Rightarrow> resume k i s)"

text \<open>No owner is registered twice as a child.\<close>

definition child_list :: "runtime \<Rightarrow> owner_id \<Rightarrow> owner_id list" where
  "child_list s i = (case owners s i of None \<Rightarrow> [] | Some inner \<Rightarrow> elems (children inner))"

definition links_once :: "runtime \<Rightarrow> bool" where
  "links_once s \<longleftrightarrow> (\<forall>i. distinct (child_list s i)) \<and>
     (\<forall>i j. i \<noteq> j \<longrightarrow> set (child_list s i) \<inter> set (child_list s j) = {})"

text \<open>\<open>b\<close> tells whether cleanup functions may not look at the current owner.\<close>

definition quiet :: "bool \<Rightarrow> runtime \<Rightarrow> bool" where
  "quiet b s \<longleftrightarrow> b \<longrightarrow> (\<forall>i inner. owners s i = Some inner \<longrightarrow> no_lookup inner)"

definition tidy :: "bool \<Rightarrow> nat \<Rightarrow> runtime \<Rightarrow> bool" where
  "tidy b w s \<longleftrightarrow> wf_tree s \<and> fin s \<and> weight s \<le> w \<and> next_owner s \<le> w \<and> links_once s \<and> quiet b s"

definition sane :: "bool \<Rightarrow> nat \<Rightarrow> runtime \<Rightarrow> bool" where
  "sane b w s \<longleftrightarrow> tidy b w s \<and> \<not> borrowed s"

lemma links_fewer: "links_once s \<Longrightarrow> (\<And>i. child_list s' i = child_list s i \<or> child_list s' i = []) \<Longrightarrow> links_once s'"
  unfolding links_once_def by (metis distinct.simps(1) empty_set inf_bot_left inf_bot_right)

lemma shrinks_children: "shrinks s s' \<Longrightarrow> child_list s' i = child_list s i \<or> child_list s' i = []"
  unfolding shrinks_def child_list_def by (cases "owners s' i") (fastforce simp: take_owned_def)+

lemma shrinks_quiet: "quiet b s \<Longrightarrow> shrinks s s' \<Longrightarrow> quiet b s'"
  unfolding quiet_def shrinks_def by (fastforce simp: no_lookup_def take_owned_def)

lemma tidy_evolves: "tidy b w s \<Longrightarrow> evolves s s' \<Longrightarrow> tidy b w s'"
  using wf_tree_shrinks [of s s'] links_fewer [of s s'] shrinks_children [of s s'] shrinks_quiet [of b s s']
  by (auto simp: tidy_def evolves_def shrinks_def)

lemma sane_evolves: "sane b w s \<Longrightarrow> evolves s s' \<Longrightarrow> sane b w s'"
  using tidy_evolves [of b w s s'] by (auto simp: sane_def evolves_def)

lemma sane_mono: "sane b w s \<Longrightarrow> w \<le> w' \<Longrightarrow> sane b w' s"
  by (auto simp: sane_def tidy_def)

lemma saneD: "sane b w s \<Longrightarrow> wf_tree s" "sane b w s \<Longrightarrow> fin s" "sane b w s \<Longrightarrow> weight s \<le> w" "sane b w s \<Longrightarrow> next_owner s \<le> w"
  "sane b w s \<Longrightarrow> links_once s" "sane b w s \<Longrightarrow> quiet b s" "sane b w s \<Longrightarrow> \<not> borrowed s" "sane b w s \<Longrightarrow> calm s"
  by (auto simp: sane_def tidy_def calm_def)

lemma upd_owner_simps [simp]:
  "dom (owners (upd_owner i f s)) = dom (owners s)"
  "arena (upd_owner i f s) = arena s" "borrowed (upd_owner i f s) = borrowed s"
  "next_owner (upd_owner i f s) = next_owner s" "strong (upd_owner i f s) = strong s"
  "current (upd_owner i f s) = current s" "events (upd_owner i f s) = events s"
  by (auto simp: upd_owner_def dom_def)

lemma links_upd:
  assumes "finite (dom (owners s))"
    and "\<And>inner. owners s i = Some inner \<Longrightarrow> length (elems (children (f inner))) \<le> length (elems (children inner)) + d"
  shows "child_links (upd_owner i f s) \<le> child_links s + d"
proof (cases "owners s i")
  case None
  then have "upd_owner i f s = s" by (simp add: upd_owner_def fun_upd_idem)
  then show ?thesis by simp
next
  case (Some inner)
  have "owners (upd_owner i f s) i = Some (f inner)" using Some by (simp add: upd_owner_def)
  moreover have "(\<Sum>j\<in>dom (owners s) - {i}. length (elems (children (the (owners (upd_owner i f s) j))))) =
      (\<Sum>j\<in>dom (owners s) - {i}. length (elems (children (the (owners s j)))))"
    by (rule sum.cong) (auto simp: upd_owner_def)
  ultimately show ?thesis
    using child_links_split [of "upd_owner i f s" i "f inner"] child_links_split [OF assms(1) Some] assms(1) assms(2) [OF Some]
    by simp
qed

lemma weight_upd:
  assumes "fin s"
    and "\<And>inner. owners s i = Some inner \<Longrightarrow> length (elems (children (f inner))) \<le> length (elems (children inner)) + d"
  shows "fin (upd_owner i f s)" "weight (upd_owner i f s) \<le> weight s + d"
proof -
  have "finite (dom (owners s))" using assms(1) by (simp add: fin_def)
  then have "child_links (upd_owner i f s) \<le> child_links s + d" using assms(2) by (rule links_upd)
  then show "fin (upd_owner i f s)" "weight (upd_owner i f s) \<le> weight s + d"
    using assms(1) by (auto simp: fin_def weight_def)
qed

lemma length_push_child: "length (elems (push_child_vec P c v)) \<le> length (elems v) + 1"
  by (simp add: push_child_vec_def Let_def) (metis length_filter_le)

lemma links_push:
  assumes "links_once s" "\<And>i. c \<notin> set (child_list s i)"
  shows "links_once (push_child j c s)"
proof -
  let ?s = "push_child j c s"
  let ?P = "\<lambda>j. owners s j \<noteq> None"
  have new: "child_list ?s i = (if i = j \<and> owners s i \<noteq> None
      then elems (push_child_vec ?P c (children (the (owners s i)))) else child_list s i)" for i
    by (auto simp: child_list_def push_child_def upd_owner_def split: option.split)
  have sub: "set (child_list ?s i) \<subseteq> set (child_list s i) \<union> (if i = j then {c} else {})" for i
    using child_vec.add_subset [of ?P c "children (the (owners s i))"] unfolding new by (auto simp: child_list_def)
  have old: "distinct (child_list s i)" "c \<notin> set (child_list s i)" for i using assms by (auto simp: links_once_def)
  have "distinct (elems (push_child_vec ?P c v))" if "distinct (elems v)" "c \<notin> set (elems v)" for v
    using that by (simp add: push_child_vec_def Let_def)
  then have "distinct (child_list ?s i)" for i
    unfolding new using old [of i] by (auto simp: child_list_def)
  moreover have "set (child_list ?s i) \<inter> set (child_list ?s i') = {}" if "i \<noteq> i'" for i i'
  proof -
    have "set (child_list s i) \<inter> set (child_list s i') = {}" using assms(1) that by (simp add: links_once_def)
    then show ?thesis using sub [of i] sub [of i'] assms(2) [of i] assms(2) [of i'] that by (auto split: if_splits)
  qed
  ultimately show ?thesis by (simp add: links_once_def)
qed

lemma alloc_frame:
  assumes "sane b w s" "alloc_owner (new_inner p q) s = (i, s1)"
  shows "fin s1" "weight s1 \<le> w + 1" "child_list s1 = child_list s" "quiet b s1" "borrowed s1 = borrowed s"
    "c \<in> set (child_list s1 j) \<Longrightarrow> c < next_owner s"
proof -
  have s1: "i = next_owner s" "s1 = s\<lparr>owners := (owners s)(i \<mapsto> new_inner p q), strong := (strong s)(i := 1), next_owner := i + 1\<rparr>"
    using assms(2) by (auto simp: alloc_owner_def Let_def)
  have wf: "wf_tree s" and f: "finite (dom (owners s))" "finite (dom (arena s))" "weight s \<le> w"
    using saneD(1-3) [OF assms(1)] by (auto simp: fin_def)
  have new: "owners s i = None" using wf s1(1) by (cases "owners s i") (auto simp: wf_tree_def wf_inner_def)
  have "i \<notin> dom (owners s)" using new by auto
  then have "child_links s1 = child_links s"
    unfolding child_links_def s1(2) using f by (simp add: new_inner_def) (rule sum.cong, auto)
  moreover have "card (dom (owners s1)) \<le> card (dom (owners s)) + 1" unfolding s1(2) by (simp add: card_insert_if f)
  ultimately show "fin s1" "weight s1 \<le> w + 1" using f by (simp_all add: fin_def weight_def s1(2))
  show ch: "child_list s1 = child_list s" using new by (auto simp: child_list_def s1(2) new_inner_def fun_eq_iff)
  show "quiet b s1" using saneD(6) [OF assms(1)] by (auto simp: quiet_def s1(2) new_inner_def no_lookup_def)
  show "borrowed s1 = borrowed s" by (simp add: s1(2))
  show "c < next_owner s" if "c \<in> set (child_list s1 j)"
    using that wf unfolding ch by (cases "owners s j") (auto simp: child_list_def wf_tree_def wf_inner_def)
qed

lemma sane_new:
  assumes "sane b w s" "s1 = snd (alloc_owner (new_inner p q) s)" "\<And>r. p = Some r \<Longrightarrow> r < next_owner s"
  shows "sane b (w + 1) s1" "wf_tree (push_child j (next_owner s) s1) \<Longrightarrow> sane b (w + 2) (push_child j (next_owner s) s1)"
proof -
  have s1: "alloc_owner (new_inner p q) s = (next_owner s, s1)" using assms(2) by (simp add: alloc_owner_def Let_def)
  note a = wf_tree_alloc [OF saneD(1) [OF assms(1)] s1 assms(3)] and al = alloc_frame [OF assms(1) s1]
  have n: "next_owner s \<le> w" "links_once s1"
    using saneD(4,5) [OF assms(1)] al(3) by (auto simp: links_once_def)
  then show one: "sane b (w + 1) s1" using a(1,3) al(1,2,4,5) saneD(7) [OF assms(1)] by (simp add: sane_def tidy_def)
  let ?s = "push_child j (next_owner s) s1"
  have "fin ?s" "weight ?s \<le> weight s1 + 1"
    unfolding push_child_def
    by (rule weight_upd [OF al(1), where d = 1], simp add: length_push_child [simplified])+
  moreover have "links_once ?s" using n(2) al(6) by (intro links_push) auto
  moreover have "quiet b ?s" using al(4) by (auto simp: quiet_def push_child_def upd_owner_def no_lookup_def split: if_splits)
  moreover assume "wf_tree ?s"
  ultimately show "sane b (w + 2) ?s" using a(3) al(2,5) n(1) saneD(7) [OF assms(1)] by (simp add: sane_def tidy_def push_child_def)
qed

lemma sane_owner_new:
  assumes "sane b w s" shows "sane b (w + 2) (snd (owner_new s))"
proof -
  let ?p = "upgrade s (current s)"
  obtain s1 where s1: "alloc_owner (new_inner ?p False) s = (next_owner s, s1)" by (simp add: alloc_owner_def Let_def)
  have p: "r < next_owner s" if "?p = Some r" for r
    using that saneD(1) [OF assms] by (auto simp: upgrade_Some wf_tree_def wf_inner_def)
  have wf: "wf_tree (snd (owner_new s))" using wf_owner_new [OF saneD(1) [OF assms]] by (metis prod.collapse)
  note n = sane_new [OF assms, of s1 ?p False, OF _ p]
  show ?thesis
  proof (cases "upgrade s1 ?p")
    case None
    then show ?thesis using n(1) s1 sane_mono [of b "w + 1" s1 "w + 2"] by (simp add: owner_new_def Let_def)
  next
    case (Some j)
    then show ?thesis using n(2) [of j] s1 wf by (simp add: owner_new_def Let_def)
  qed
qed

lemma sane_owner_child:
  assumes "sane b w s" shows "sane b (w + 2) (snd (owner_child i s))"
proof (cases "owners s i")
  case None
  then show ?thesis using sane_mono [OF assms, of "w + 2"] by (simp add: owner_child_def)
next
  case (Some inner)
  obtain s1 where s1: "alloc_owner (new_inner (Some i) (paused inner)) s = (next_owner s, s1)" by (simp add: alloc_owner_def Let_def)
  have i: "i < next_owner s" using Some saneD(1) [OF assms] by (auto simp: wf_tree_def wf_inner_def)
  have "wf_tree (snd (owner_child i s))" using wf_owner_child [OF saneD(1) [OF assms]] by (metis prod.collapse)
  then show ?thesis
    using sane_new(2) [OF assms, of s1 "Some i" "paused inner" i] s1 Some i by (simp add: owner_child_def)
qed

lemma sane_upd:
  assumes "sane b w s" "\<And>inner. children (f inner) = children inner" "\<And>inner. parent (f inner) = parent inner"
    and "\<And>inner. vec_ok (nodes inner) \<Longrightarrow> vec_ok (nodes (f inner))"
    and "\<And>inner ty v. (\<And>ty v. contexts inner ty = Some v \<Longrightarrow> type_id_of v = ty) \<Longrightarrow>
      contexts (f inner) ty = Some v \<Longrightarrow> type_id_of v = ty"
    and "\<And>inner. b \<Longrightarrow> no_lookup inner \<Longrightarrow> no_lookup (f inner)"
  shows "sane b w (upd_owner i f s)"
proof -
  have "wf_tree (upd_owner i f s)"
  proof (rule wf_tree_upd)
    fix inner assume "wf_inner (next_owner s) i inner"
    then show "wf_inner (next_owner s) i (f inner)"
      unfolding wf_inner_def assms(2,3) using assms(4) [of inner] assms(5) [of inner] by blast
  qed (rule saneD(1) [OF assms(1)])
  moreover have "fin (upd_owner i f s)" "weight (upd_owner i f s) \<le> weight s + 0"
    by (rule weight_upd [OF saneD(2) [OF assms(1)]]; simp add: assms(2))+
  moreover have "child_list (upd_owner i f s) = child_list s"
    using assms(2) by (auto simp: child_list_def upd_owner_def fun_eq_iff split: option.split)
  then have "links_once (upd_owner i f s)" using saneD(5) [OF assms(1)] by (simp add: links_once_def)
  moreover have "quiet b (upd_owner i f s)"
    using saneD(6) [OF assms(1)] assms(6) by (auto simp: quiet_def upd_owner_def)
  ultimately show ?thesis using assms(1) by (auto simp: sane_def tidy_def)
qed

lemma take_context_state:
  assumes "take_context_loop k ty p s = Inr (r, s')"
  shows "s' = s \<or> (\<exists>i. s' = upd_owner i (\<lambda>inner. inner\<lparr>contexts := (contexts inner)(ty := None)\<rparr>) s)"
  using assms
  by (induction k ty p s rule: take_context_loop.induct) (auto split: option.splits)

lemma update_context_state:
  assumes "update_context_loop k ty cb p s = Inr (r, s')"
  shows "s' = s \<or> (\<exists>i inner v. owners s i = Some inner \<and> contexts inner ty = Some v \<and>
    s' = upd_owner i (\<lambda>inner. inner\<lparr>contexts := (contexts inner)(ty \<mapsto> snd (cb v))\<rparr>) s)"
  using assms
proof (induction k ty cb p s rule: update_context_loop.induct)
  case (3 k ty cb i s)
  show ?case
  proof (cases "owners s i")
    case (Some inner)
    show ?thesis
    proof (cases "contexts inner ty")
      case (Some v)
      then have "s' = upd_owner i (\<lambda>inner. inner\<lparr>contexts := (contexts inner)(ty \<mapsto> snd (cb v))\<rparr>) s"
        using 3(2) \<open>owners s i = Some inner\<close> by (cases "cb v") simp
      then show ?thesis using Some \<open>owners s i = Some inner\<close> by blast
    qed (use 3 Some in simp)
  qed (use 3 in simp)
qed auto

text \<open>A chain of parents is shorter than the number of owners ever created.\<close>

lemma chain_fuel:
  assumes "wf_tree s" "\<And>i. p = Some i \<Longrightarrow> i + 2 \<le> k" "0 < k"
  shows "\<exists>r. take_context_loop k ty p s = Inr r" "\<exists>r. with_context_loop k ty p s = Inr r"
    "\<exists>r. update_context_loop k ty cb p s = Inr r" "\<exists>r. ancestry_loop k s p = Inr r"
proof -
  have up: "upgrade s (parent inner) = Some j \<Longrightarrow> owners s i = Some inner \<Longrightarrow> j < i" for i j inner
    using assms(1) by (auto simp: upgrade_Some wf_tree_def wf_inner_def)
  have "(\<exists>r. take_context_loop k ty p s = Inr r) \<and> (\<exists>r. with_context_loop k ty p s = Inr r) \<and>
    (\<exists>r. update_context_loop k ty cb p s = Inr r) \<and> (\<exists>r. ancestry_loop k s p = Inr r)"
    using assms(2,3)
  proof (induction k arbitrary: p)
    case (Suc k)
    show ?case
    proof (cases p)
      case (Some i)
      show ?thesis
      proof (cases "owners s i")
        case None
        then show ?thesis using Some Suc.prems Suc.IH [of None] by (auto simp: owner_parent_def)
      next
        case (Some inner)
        have "\<And>j. upgrade s (parent inner) = Some j \<Longrightarrow> j + 2 \<le> k" "0 < k"
          using up [OF _ Some] Suc.prems \<open>p = Some i\<close> by fastforce+
        note IH = Suc.IH [of "upgrade s (parent inner)", OF this, simplified]
        then obtain anc where "ancestry_loop k s (upgrade s (parent inner)) = Inr anc" by blast
        with IH show ?thesis
          using Some \<open>p = Some i\<close> by (auto simp: owner_parent_def Let_def split: option.splits prod.splits)
      qed
    qed auto
  qed simp
  then show "\<exists>r. take_context_loop k ty p s = Inr r" "\<exists>r. with_context_loop k ty p s = Inr r"
    "\<exists>r. update_context_loop k ty cb p s = Inr r" "\<exists>r. ancestry_loop k s p = Inr r" by auto
qed

lemma chain_enough:
  assumes "sane b w s" "w + 1 < k"
  shows "\<exists>r. take_context_loop k ty (Some i) s = Inr r" "\<exists>r. update_context_loop k ty cb (Some i) s = Inr r"
proof -
  have "(\<exists>r. take_context_loop k ty (Some i) s = Inr r) \<and> (\<exists>r. update_context_loop k ty cb (Some i) s = Inr r)"
  proof (cases "owners s i")
    case None
    then show ?thesis using assms by (cases k) auto
  next
    case (Some inner)
    then have "i < next_owner s" using saneD(1) [OF assms(1)] by (auto simp: wf_tree_def wf_inner_def)
    then have "i + 2 \<le> k" "0 < k" using saneD(4) [OF assms(1)] assms(2) by auto
    then show ?thesis using chain_fuel [of s "Some i" k] saneD(1) [OF assms(1)] by auto
  qed
  then show "\<exists>r. take_context_loop k ty (Some i) s = Inr r" "\<exists>r. update_context_loop k ty cb (Some i) s = Inr r" by auto
qed

lemma sane_take:
  assumes "sane b w s" "w + 1 < k"
  shows "\<exists>r s'. owner_take_context k ty i s = Inr (r, s') \<and> sane b w s'"
proof -
  obtain r s' where r: "take_context_loop k ty (Some i) s = Inr (r, s')" using chain_enough(1) [OF assms, of ty i] by auto
  moreover have "sane b w (upd_owner j (\<lambda>inner. inner\<lparr>contexts := (contexts inner)(ty := None)\<rparr>) s)" for j
    using assms(1) by (rule sane_upd) (auto simp: no_lookup_def split: if_splits)
  ultimately show ?thesis
    using take_context_state [OF r] assms(1) by (auto simp: owner_take_context_def)
qed

lemma sane_update:
  assumes "sane b w s" "w + 1 < k" "\<And>v. type_id_of (cb v) = type_id_of v"
  shows "\<exists>r s'. owner_update_context k ty (\<lambda>v. ((), cb v)) i s = Inr (r, s') \<and> sane b w s'"
proof -
  obtain r s' where r: "update_context_loop k ty (\<lambda>v. ((), cb v)) (Some i) s = Inr (r, s')"
    using chain_enough(2) [OF assms(1,2)] by (metis surj_pair)
  moreover have "sane b w (upd_owner j (\<lambda>inner. inner\<lparr>contexts := (contexts inner)(ty \<mapsto> cb v)\<rparr>) s)" if "type_id_of v = ty" for j v
    using assms(1) by (rule sane_upd) (auto simp: assms(3) that no_lookup_def split: if_splits)
  ultimately show ?thesis
    using update_context_state [OF r] saneD(1) [OF assms(1)] assms(1)
    by (auto simp: owner_update_context_def wf_tree_def wf_inner_def)
qed

lemma sane_globals: "sane b w s \<Longrightarrow> sane b w (s\<lparr>current := c\<rparr>)" "sane b w s \<Longrightarrow> sane b w (s\<lparr>strong := f\<rparr>)"
  by (auto simp: sane_def tidy_def wf_tree_def fin_def weight_def child_links_def quiet_def links_once_def child_list_def)

lemma sane_item_new:
  assumes "sane b w s" shows "sane b (w + 2) (snd (item_new x s))"
proof -
  let ?s = "s\<lparr>arena := (arena s)(next_key s \<mapsto> x), next_key := next_key s + 1\<rparr>"
  have "card (insert (next_key s) (dom (arena s))) \<le> Suc (card (dom (arena s)))"
    by (rule card_insert_le_m1) simp_all
  then have "sane b (w + 2) ?s"
    using assms by (auto simp: sane_def tidy_def fin_def weight_def child_links_def wf_tree_def quiet_def links_once_def child_list_def)
  moreover from this have "sane b (w + 2) (register i (next_key s) ?s)" for i
    unfolding register_def by (rule sane_upd) (auto simp: nodes_vec.add_ok no_lookup_def)
  ultimately show ?thesis by (auto simp: item_new_def Let_def split: option.splits)
qed

lemma sane_dropped:
  assumes "sane b w s" "w < k"
  shows "\<exists>s'. cleanup k i s = Inr s' \<and> sane b w s'" "\<exists>s'. drop_handle k i s = Inr s' \<and> sane b w s'"
    "\<exists>s'. item_dispose k n s = Inr s' \<and> sane b w s'"
proof -
  have r: "fin s" "calm s" "weight s < k" "room w s" using saneD [OF assms(1)] assms(2) by (auto simp: room_def)
  show "\<exists>s'. cleanup k i s = Inr s' \<and> sane b w s'"
    using own.clean_ok [OF r(1-3)] sane_evolves [OF assms(1)] by blast
  show "\<exists>s'. drop_handle k i s = Inr s' \<and> sane b w s'"
    using own.drop_ok [OF r(1-3)] sane_evolves [OF assms(1)] by blast
  show "\<exists>s'. item_dispose k n s = Inr s' \<and> sane b w s'"
    using own.dispose_ok [OF r(4), of k n] assms(2) sane_evolves [OF assms(1)] by (auto simp: item_dispose_def)
qed

lemma sane_unset:
  assumes "sane True w s" "w < k"
  shows "\<exists>s'. unset k i s = Inr s' \<and> sane True w s'"
proof -
  let ?s = "s\<lparr>borrowed := True\<rparr>"
  have t: "tidy True w ?s"
    using assms(1) by (auto simp: sane_def tidy_def wf_tree_def fin_def weight_def child_links_def quiet_def links_once_def child_list_def)
  then have "fin ?s" "calm ?s" "weight ?s < k" using assms(2) by (auto simp: tidy_def calm_def quiet_def)
  then obtain s1 where s1: "drop_handle k i ?s = Inr s1" "evolves ?s s1" using own.drop_ok by blast
  have "tidy True w s1" using tidy_evolves [OF t s1(2)] .
  then have "sane True w (s1\<lparr>borrowed := False, current := c\<rparr>)" for c
    by (auto simp: sane_def tidy_def wf_tree_def fin_def weight_def child_links_def quiet_def links_once_def child_list_def)
  then show ?thesis using s1(1) by (auto simp: unset_def Let_def)
qed

subsubsection \<open>Pausing ends\<close>

definition same_links :: "runtime \<Rightarrow> runtime \<Rightarrow> bool" where
  "same_links s t \<longleftrightarrow> (\<forall>j. map_option children (owners t j) = map_option children (owners s j))"

lemma same_links_paused: "same_links s t \<Longrightarrow> same_links s (upd_owner i (\<lambda>inner. inner\<lparr>paused := b\<rparr>) t)"
  by (auto simp: same_links_def upd_owner_def option.map_comp comp_def)

text \<open>
  \<open>V\<close> are the owners that were visited: every owner on the stack is the first one or a child of
  one of them, so no owner is pushed twice, and every step uses up a link or shortens the stack.
\<close>

lemma set_paused_ends:
  assumes "wf_tree s" "links_once s" "finite (dom (owners s))"
    and "same_links s t" "distinct stack" "set stack \<inter> V = {}"
    and "\<forall>y\<in>set stack \<union> V. r \<le> y \<and> (y = r \<or> (\<exists>v\<in>V. y \<in> set (child_list s v)))"
    and "length stack + (\<Sum>j\<in>dom (owners s) - V. length (child_list s j)) < k"
  shows "\<exists>t'. set_paused_loop k b stack t = Inr t'"
  using assms(4-8)
proof (induction k arbitrary: stack V t)
  case (Suc k)
  show ?case
  proof (cases stack rule: rev_cases)
    case (snoc st c)
    have c: "c \<notin> V" "c \<notin> set st" "r \<le> c" "distinct st" "set st \<inter> V = {}" using Suc.prems snoc by auto
    show ?thesis
    proof (cases "owners t c")
      case None
      then show ?thesis using Suc.IH [of t st V] Suc.prems snoc by auto
    next
      case (Some inner)
      then obtain inner' where i: "owners s c = Some inner'" "children inner' = children inner"
        using Suc.prems(1) by (cases "owners s c") (auto simp: same_links_def dest!: spec [of _ c])
      then have ch: "elems (children inner) = child_list s c" by (simp add: child_list_def)
      have fresh: "y \<notin> set st \<union> insert c V \<and> r \<le> y" if y: "y \<in> set (child_list s c)" for y
      proof -
        have "c < y" using y assms(1) i(1) by (auto simp: child_list_def wf_tree_def wf_inner_def)
        then have "y \<noteq> r" "y \<noteq> c" "r \<le> y" using c(3) by auto
        moreover have "y \<notin> set (child_list s v)" if "v \<in> V" for v
          using y that c(1) assms(2) unfolding links_once_def by (metis disjoint_iff)
        ultimately show ?thesis using Suc.prems(4) snoc by auto
      qed
      let ?V = "insert c V" and ?st = "st @ child_list s c"
      have "distinct ?st" "set ?st \<inter> ?V = {}"
        using fresh c assms(2) unfolding links_once_def by auto
      moreover have "\<forall>y\<in>set ?st \<union> ?V. r \<le> y \<and> (y = r \<or> (\<exists>v\<in>?V. y \<in> set (child_list s v)))"
        using Suc.prems(4) snoc fresh by auto
      moreover have "(\<Sum>j\<in>dom (owners s) - V. length (child_list s j)) =
          length (child_list s c) + (\<Sum>j\<in>dom (owners s) - V - {c}. length (child_list s j))"
        using i(1) c(1) assms(3) by (intro sum.remove) auto
      moreover have "dom (owners s) - V - {c} = dom (owners s) - ?V" by auto
      ultimately show ?thesis
        using Suc.IH [of "upd_owner c (\<lambda>inner. inner\<lparr>paused := b\<rparr>) t" ?st ?V] same_links_paused [OF Suc.prems(1)] Suc.prems(5) snoc Some ch
        by simp
    qed
  qed simp
qed simp

lemma set_paused_sane: "set_paused_loop k c stack t = Inr t' \<Longrightarrow> sane b w t \<Longrightarrow> sane b w t'"
proof (induction k c stack t rule: set_paused_loop.induct)
  case (2 k c stack t)
  have "sane b w (upd_owner i (\<lambda>inner. inner\<lparr>paused := c\<rparr>) t)" for i
    using "2.prems"(2) by (rule sane_upd) (auto simp: no_lookup_def)
  then show ?case using 2 by (auto simp: Let_def split: if_splits option.splits)
qed simp

lemma sane_paused:
  assumes "sane b w s" "w + 1 < k"
  shows "\<exists>s'. set_paused_loop k c [i] s = Inr s' \<and> sane b w s'"
proof -
  have "child_links s = (\<Sum>j\<in>dom (owners s). length (child_list s j))"
    unfolding child_links_def by (rule sum.cong) (auto simp: child_list_def)
  then have "length [i] + (\<Sum>j\<in>dom (owners s) - {}. length (child_list s j)) < k"
    using saneD(3) [OF assms(1)] assms(2) by (simp add: weight_def)
  then have "\<exists>s'. set_paused_loop k c [i] s = Inr s'"
    using saneD(1,2,5) [OF assms(1)] by (intro set_paused_ends [where r = i and V = "{}"]) (auto simp: fin_def same_links_def)
  then show ?thesis using set_paused_sane assms(1) by blast
qed

subsubsection \<open>Steps and histories\<close>

text \<open>
  What the program guarantees of an operation: an update of a context value keeps its type, and, if \<open>b\<close>,
  cleanup functions do not look at the current owner. Without the latter nothing is unset.
\<close>

definition op_ok :: "bool \<Rightarrow> owner_op \<Rightarrow> bool" where
  "op_ok b a = (case a of
     Update i ty cb \<Rightarrow> (\<forall>v. type_id_of (cb v) = type_id_of v)
   | OnCleanup f \<Rightarrow> b \<longrightarrow> UseCurrent \<notin> set f
   | Unset i \<Rightarrow> b
   | _ \<Rightarrow> True)"

lemma owner_step_ok:
  assumes "sane b w s" "w + 1 < k" "op_ok b a"
  shows "\<exists>s'. owner_step k a s = Inr s' \<and> sane b (w + 2) s'"
proof -
  have k: "w < k" using assms(2) by simp
  note more = sane_mono [of b w _ "w + 2"]
  show ?thesis
  proof (cases a)
    case New
    then show ?thesis using sane_owner_new [OF assms(1)] by (simp add: owner_step_def)
  next
    case NewRoot
    obtain s1 where "alloc_owner (new_inner None False) s = (next_owner s, s1)" by (simp add: alloc_owner_def Let_def)
    then show ?thesis using NewRoot sane_new(1) [OF assms(1), of s1 None False] sane_mono [of b "w + 1" _ "w + 2"]
      by (simp add: owner_step_def new_root_def set_owner_def sane_globals)
  next
    case (Child i)
    then show ?thesis using sane_owner_child [OF assms(1)] by (simp add: owner_step_def)
  next
    case (SetCurrent i)
    then show ?thesis using assms(1) more by (simp add: owner_step_def set_owner_def sane_globals)
  next
    case (CloneHandle i)
    then show ?thesis using assms(1) more by (simp add: owner_step_def sane_globals)
  next
    case (DropHandle i)
    then show ?thesis using sane_dropped(2) [OF assms(1) k] more by (auto simp: owner_step_def)
  next
    case (Provide i v)
    have "sane b w (owner_provide_context i v s)"
      unfolding owner_provide_context_def using assms(1) by (rule sane_upd) (auto simp: no_lookup_def split: if_splits)
    then show ?thesis using Provide more by (simp add: owner_step_def)
  next
    case (Take i ty)
    then show ?thesis using sane_take [OF assms(1,2), of ty i] more by (auto simp: owner_step_def)
  next
    case (Update i ty cb)
    then show ?thesis using sane_update [OF assms(1,2), of cb ty i] assms(3) more by (auto simp: owner_step_def op_ok_def)
  next
    case (NewItem x)
    then show ?thesis using sane_item_new [OF assms(1)] by (simp add: owner_step_def)
  next
    case (Dispose n)
    then show ?thesis using sane_dropped(3) [OF assms(1) k] more by (auto simp: owner_step_def)
  next
    case (OnCleanup f)
    have "sane b w (upd_owner i (\<lambda>inner. inner\<lparr>cleanups := cleanups inner @ [f]\<rparr>) s)" for i
      using assms(1) by (rule sane_upd) (use assms(3) OnCleanup in \<open>auto simp: no_lookup_def op_ok_def\<close>)
    then show ?thesis using OnCleanup assms(1) more by (auto simp: owner_step_def on_cleanup_def split: option.split)
  next
    case (Cleanup i)
    then show ?thesis using sane_dropped(1) [OF assms(1) k] more by (auto simp: owner_step_def)
  next
    case (Unset i)
    then show ?thesis using sane_unset [of w s k i] assms(1,3) k more by (auto simp: owner_step_def op_ok_def)
  next
    case (ForceUnset i)
    let ?s = "if upgrade s (current s) = Some i then s\<lparr>current := None\<rparr> else s"
    have "sane b w ?s" using assms(1) by (simp add: sane_globals)
    then obtain s1 where "cleanup k i ?s = Inr s1" "sane b w s1" using sane_dropped(1) [OF _ k] by blast
    then show ?thesis using sane_dropped(2) [OF _ k, of b s1 i] ForceUnset more
      by (auto simp: owner_step_def unset_with_forced_cleanup_def Let_def)
  next
    case (Pause i)
    then show ?thesis using sane_paused [OF assms(1,2), of True i] more by (auto simp: owner_step_def pause_def)
  next
    case (Resume i)
    then show ?thesis using sane_paused [OF assms(1,2), of False i] more by (auto simp: owner_step_def resume_def)
  qed
qed

lemma owner_steps_ok:
  assumes "sane b w s" "w + 2 * length ops < k" "\<forall>a\<in>set ops. op_ok b a"
  shows "\<exists>s'. foreach (owner_step k) ops s = Inr s' \<and> sane b (w + 2 * length ops) s'"
  using assms
proof (induction ops arbitrary: w s)
  case (Cons a ops)
  obtain s1 where "owner_step k a s = Inr s1" "sane b (w + 2) s1"
    using owner_step_ok [OF Cons.prems(1), of k a] Cons.prems(2,3) by auto
  then show ?case using Cons.IH [of "w + 2" s1] Cons.prems(2,3) by (auto simp: algebra_simps)
qed simp

lemma sane_empty: "sane b 0 empty_runtime"
  by (simp add: sane_def tidy_def wf_tree_def fin_def weight_def child_links_def empty_runtime_def quiet_def links_once_def child_list_def)

text \<open>
  C16: any sequence of operations on owners and arena items (creating, cloning, setting, dropping, unsetting,
  cleaning up, disposing, pausing, resuming, providing, taking and updating context) from the empty runtime
  ends without a panic and leaves a well-formed tree: parents are older than their children,
  no owner is registered twice as a child, and context values have the type they are stored
  under. Two things are assumed: updates keep the type of a value, as the types of the program
  ensure, and, if the sequence has an \<open>unset\<close>, no cleanup function of it looks at the current owner (\<open>unset_panics\<close>
  below shows that this panics otherwise). The fuel is linear in the number of operations.
\<close>

theorem owner_history_wf:
  assumes "2 * length ops < k"
    and "\<forall>i ty cb. Update i ty cb \<in> set ops \<longrightarrow> (\<forall>v. type_id_of (cb v) = type_id_of v)"
    and "\<forall>i f. Unset i \<in> set ops \<longrightarrow> OnCleanup f \<in> set ops \<longrightarrow> UseCurrent \<notin> set f"
  shows "\<exists>s. foreach (owner_step k) ops empty_runtime = Inr s \<and> wf_tree s \<and> links_once s \<and> fin s \<and> \<not> borrowed s"
proof -
  let ?b = "\<exists>i. Unset i \<in> set ops"
  have "op_ok ?b a" if "a \<in> set ops" for a using assms(2,3) that by (cases a) (auto simp: op_ok_def)
  then show ?thesis using owner_steps_ok [OF sane_empty, of ops k ?b] assms(1) saneD by fastforce
qed

definition small_tree :: "owner_op list" where
  "small_tree = [NewRoot, Child 0, SetCurrent 1, NewItem (SyncBox (Prim 0 5)), OnCleanup [Emit 7, UseCurrent],
     SetCurrent 0, NewItem (OwnerBox 1), OnCleanup [Emit 8, DisposeItem 0]]"

lemma owner_history_wf_witness:
  "(\<exists>s. foreach (owner_step 20) small_tree empty_runtime = Inr s \<and> wf_tree s \<and> fin s) \<and>
   (\<exists>s. foreach (owner_step 20) [NewRoot, Provide 0 (Prim 4 1), Child 0, OnCleanup [Emit 7], Update 1 (Base 4) (\<lambda>v. v), Pause 0, Unset 0]
      empty_runtime = Inr s \<and> wf_tree s)"
proof
  show "\<exists>s. foreach (owner_step 20) small_tree empty_runtime = Inr s \<and> wf_tree s \<and> fin s"
    using owner_history_wf [of small_tree 20] by (auto simp: small_tree_def)
  show "\<exists>s. foreach (owner_step 20) [NewRoot, Provide 0 (Prim 4 1), Child 0, OnCleanup [Emit 7], Update 1 (Base 4) (\<lambda>v. v), Pause 0, Unset 0]
      empty_runtime = Inr s \<and> wf_tree s"
    using owner_history_wf [of "[NewRoot, Provide 0 (Prim 4 1), Child 0, OnCleanup [Emit 7], Update 1 (Base 4) (\<lambda>v. v), Pause 0, Unset 0]" 20]
    by (auto simp del: foreach.simps)
qed

text \<open>
  C7: cleaning up an owner returns, disposes of every arena item and runs every cleanup
  function that belongs to it or to a live descendant, and no cleanup function anywhere is
  run twice or lost: the events so far with those still registered are the same before and
  after.
\<close>

theorem cleanup_releases:
  assumes "fin s" "\<not> borrowed s" "weight s < k"
  shows "\<exists>s'. cleanup k i s = Inr s' \<and>
    (\<forall>n. owns s i (Item n) \<longrightarrow> is_disposed s' n) \<and>
    (\<forall>e. owns s i (Event e) \<longrightarrow> e \<in> set (events s')) \<and>
    mset (events s') + pending s' = mset (events s) + pending s \<and> current s' = current s"
proof -
  obtain s' where s': "cleanup k i s = Inr s'" "evolves s s'" "\<forall>x. owns s i x \<longrightarrow> released s' x"
    using own.clean_ok [OF assms(1) _ assms(3)] assms(2) by (auto simp: calm_def)
  moreover have "account s' = account s" using once.clean_account [OF assms(1) s'(1)] by simp
  moreover have "owns s i (Item n) \<longrightarrow> is_disposed s' n" "owns s i (Event e) \<longrightarrow> e \<in> set (events s')" for n e
    using s'(3) released.simps by blast+
  ultimately show ?thesis by (auto simp: account_def evolves_def)
qed

definition small_state :: runtime where
  "small_state = \<lparr>owners =
      [1 \<mapsto> \<lparr>parent = Some 0, nodes = \<lparr>elems = [0], cap = 4\<rparr>, contexts = Map.empty,
             cleanups = [[Emit 7, UseCurrent]], children = \<lparr>elems = [], cap = 0\<rparr>, paused = False\<rparr>,
       0 \<mapsto> \<lparr>parent = None, nodes = \<lparr>elems = [1], cap = 4\<rparr>, contexts = Map.empty,
             cleanups = [[Emit 8, DisposeItem 0]], children = \<lparr>elems = [1], cap = 4\<rparr>, paused = False\<rparr>],
     strong = (\<lambda>_. 0)(0 := 1, 1 := 1), next_owner = 2,
     arena = [0 \<mapsto> SyncBox (Prim 0 5), 1 \<mapsto> OwnerBox 1], next_key = 2,
     current = Some 0, borrowed = False, events = []\<rparr>"

lemmas run_defs = small_tree_def empty_runtime_def owner_step_def new_root_def alloc_owner_def new_inner_def
  owner_child_def set_owner_def item_new_def on_cleanup_def current_owner_def upgrade_def register_def
  register_vec_def push_child_def push_child_vec_def upd_owner_def vec_push_def vec_reserve_def
  vec_retain_def grow_amortized_def vec_new_def Let_def

lemma small_run: "foreach (owner_step 20) small_tree empty_runtime = Inr small_state"
  by (simp add: run_defs small_state_def numeral_2_eq_2)

lemma small_sane: "sane False 16 small_state"
  using owner_steps_ok [OF sane_empty, of small_tree 20 False] small_run by (simp add: small_tree_def op_ok_def)

lemma small_owns: "owns small_state 0 (Item 0)" "owns small_state 0 (Event 7)" "owns small_state 0 (Event 8)"
proof -
  have "owns small_state 1 (Item 0)" "owns small_state 1 (Event 7)"
    by (rule owns.itself, simp add: small_state_def, simp add: owned_def)+
  then show "owns small_state 0 (Item 0)" "owns small_state 0 (Event 7)"
    by - (rule owns.child [where c = 1], simp add: small_state_def, simp, assumption)+
  show "owns small_state 0 (Event 8)" by (rule owns.itself, simp add: small_state_def, simp add: owned_def)
qed

lemma cleanup_releases_witness:
  "\<exists>s'. cleanup 17 0 small_state = Inr s' \<and> is_disposed s' 0 \<and> 7 \<in> set (events s') \<and> 8 \<in> set (events s')"
proof -
  have "fin small_state" "\<not> borrowed small_state" "weight small_state < 17"
    using saneD [OF small_sane] by auto
  from cleanup_releases [OF this, of 0] show ?thesis using small_owns by blast
qed

subsection \<open>The scope of a context value\<close>

text \<open>
  \<open>in_scope s ty j i\<close>: going up from \<open>j\<close>, the owner \<open>i\<close> is met before any owner that
  provides a value of the type.
\<close>

inductive in_scope :: "runtime \<Rightarrow> type_id \<Rightarrow> owner_id \<Rightarrow> owner_id \<Rightarrow> bool" for s ty i where
  here: "owners s i \<noteq> None \<Longrightarrow> in_scope s ty i i"
| below: "owners s j = Some inner \<Longrightarrow> contexts inner ty = None \<Longrightarrow> upgrade s (parent inner) = Some p \<Longrightarrow>
    in_scope s ty i p \<Longrightarrow> in_scope s ty i j"

inductive_cases in_scopeE: "in_scope s ty i j"

lemma provide_simps:
  "owners (owner_provide_context i v s) j =
     (if j = i then map_option (\<lambda>inner. inner\<lparr>contexts := (contexts inner)(type_id_of v \<mapsto> v)\<rparr>) (owners s i) else owners s j)"
  "upgrade (owner_provide_context i v s) w = upgrade s w"
  by (auto simp: owner_provide_context_def upd_owner_def upgrade_def split: option.splits)

lemma with_context_loop_provide:
  assumes "wf_tree s" "j + 2 \<le> k"
  shows "with_context_loop k ty (Some j) (owner_provide_context i v s) =
    (if ty = type_id_of v \<and> in_scope s ty i j then Inr (Some v) else with_context_loop k ty (Some j) s)"
  using assms(2)
proof (induction k arbitrary: j)
  case (Suc k)
  show ?case
  proof (cases "owners s j")
    case None
    then have "\<not> in_scope s ty i j" by (auto elim: in_scopeE)
    then show ?thesis using None by (auto simp: provide_simps)
  next
    case (Some inner)
    have up: "upgrade s (parent inner) = Some p \<Longrightarrow> p + 2 \<le> k" for p
      using assms(1) Some Suc.prems by (fastforce simp: wf_tree_def wf_inner_def upgrade_Some)
    have k: "\<exists>n. k = Suc n" using Suc.prems by (cases k) auto
    show ?thesis
    proof (cases "j = i \<and> ty = type_id_of v")
      case True
      then show ?thesis using Some by (auto simp: provide_simps intro: in_scope.here)
    next
      case False
      show ?thesis
      proof (cases "contexts inner ty")
        case None
        have "ty = type_id_of v \<Longrightarrow> in_scope s ty i j \<longleftrightarrow> (\<exists>p. upgrade s (parent inner) = Some p \<and> in_scope s ty i p)"
          using False Some None by (auto elim: in_scopeE intro: in_scope.below)
        then show ?thesis
          using Suc.IH up Some None False k
          by (cases "upgrade s (parent inner)") (auto simp: provide_simps)
      next
        case (Some w)
        then have "ty = type_id_of v \<Longrightarrow> \<not> in_scope s ty i j"
          using False \<open>owners s j = Some inner\<close> by (auto elim: in_scopeE)
        then show ?thesis using Some False \<open>owners s j = Some inner\<close> by (auto simp: provide_simps)
      qed
    qed
  qed
qed simp

text \<open>
  C23: a context value has the scope of a variable. After an owner provides a value, a
  lookup from any owner sees it exactly if, on the way up, no other value of the type comes
  first; every other lookup, of this or another type, returns what it returned before.
\<close>

theorem context_scope:
  assumes "wf_tree s" "j < next_owner s" "next_owner s < k"
  shows "owner_use_context k ty j (owner_provide_context i v s) =
    (if ty = type_id_of v \<and> in_scope s ty i j then Inr (Some v) else owner_use_context k ty j s)"
  using with_context_loop_provide [OF assms(1), of j k ty i v] assms(2,3)
  by (auto simp: owner_use_context_def with_context_def)

lemma context_scope_witness:
  "owner_use_context 3 (Base 4) 1 (owner_provide_context 0 (Prim 4 9) small_state) = Inr (Some (Prim 4 9))"
proof -
  have "wf_tree small_state" "1 < next_owner small_state" "next_owner small_state < 3"
    using saneD(1) [OF small_sane] by (auto simp: small_state_def)
  moreover have "in_scope small_state (Base 4) 0 1"
    by (rule in_scope.below [where p = 0])
      (auto simp: small_state_def upgrade_def intro!: in_scope.here)
  ultimately show ?thesis using context_scope [of small_state 1 3 "Base 4" 0 "Prim 4 9"] by simp
qed

text \<open>
  \<open>use_context_bidirectional\<close> does not find what an ancestor provides. Its upward search
  is instantiated at \<open>Option<T>\<close>; for an owner without children the result is nothing, even
  if the owner itself or its parent provides a value of type \<open>T\<close>, as \<open>use_context\<close> sees.
\<close>

theorem bidirectional_misses_ancestors:
  assumes "owners s i = Some inner" "elems (children inner) = []" "0 < k"
    and "owner_use_context k (OptionOf ty) i s = Inr None"
  shows "use_context_bidirectional k ty i s = Inr None"
  using assms by (cases k) (auto simp: use_context_bidirectional_def find_context_in_children_def)

lemma bidirectional_misses_ancestors_witness:
  "let s = owner_provide_context 0 (Prim 4 9) small_state
   in owner_use_context 5 (Base 4) 1 s = Inr (Some (Prim 4 9)) \<and> use_context_bidirectional 5 (Base 4) 1 s = Inr None"
proof -
  let ?s = "owner_provide_context 0 (Prim 4 9) small_state"
  have "owner_use_context 5 (Base 4) 1 ?s = Inr (Some (Prim 4 9))"
    by (simp add: eval_nat_numeral owner_use_context_def with_context_def owner_provide_context_def upd_owner_def small_state_def upgrade_def)
  moreover have "owner_use_context 5 (OptionOf (Base 4)) 1 ?s = Inr None"
    by (simp add: eval_nat_numeral owner_use_context_def with_context_def owner_provide_context_def upd_owner_def small_state_def upgrade_def)
  moreover obtain inner where "owners ?s 1 = Some inner" "elems (children inner) = []"
    by (simp add: owner_provide_context_def upd_owner_def small_state_def)
  ultimately show ?thesis using bidirectional_misses_ancestors [of ?s 1 _ 5 "Base 4"] by simp
qed

text \<open>
  \<open>Owner::unset\<close> on the last handle of an owner drops it while the current owner is
  mutably borrowed, so a cleanup function that looks at the current owner panics.
\<close>

theorem unset_panics:
  assumes "owners s i = Some inner" "strong s i = 1" "elems (children inner) = []"
    and "cleanups inner = (UseCurrent # f) # fs"
  shows "unset (Suc k) i s = Inl Panic"
  using assms by (simp add: unset_def release_owned_def)

lemma unset_panics_witness:
  "unset 6 0 (on_cleanup [UseCurrent] (snd (new_root empty_runtime))) = Inl Panic \<and>
   (\<exists>s. unset_with_forced_cleanup 6 0 (on_cleanup [UseCurrent] (snd (new_root empty_runtime))) = Inr s)"
proof -
  let ?s = "on_cleanup [UseCurrent] (snd (new_root empty_runtime))"
  obtain inner where "owners ?s 0 = Some inner" "strong ?s 0 = 1" "elems (children inner) = []" "cleanups inner = [[UseCurrent]]"
    by (simp add: run_defs)
  moreover have "sane False 4 ?s"
    using owner_steps_ok [OF sane_empty, of "[NewRoot, OnCleanup [UseCurrent]]" 6 False] by (simp add: owner_step_def op_ok_def)
  from owner_step_ok [OF this, of 6 "ForceUnset 0"]
  have "\<exists>s. unset_with_forced_cleanup 6 0 ?s = Inr s" by (auto simp: owner_step_def op_ok_def)
  ultimately show ?thesis using unset_panics [of ?s 0 inner "[]" "[]" 5] by simp
qed

subsection \<open>Pausing reaches the whole subtree\<close>

inductive descends :: "runtime \<Rightarrow> owner_id \<Rightarrow> owner_id \<Rightarrow> bool" for s where
  self: "owners s i \<noteq> None \<Longrightarrow> descends s i i"
| child: "owners s i = Some inner \<Longrightarrow> c \<in> set (elems (children inner)) \<Longrightarrow> descends s c j \<Longrightarrow> descends s i j"

inductive_cases descendsE: "descends s i j"

definition set_flags :: "bool \<Rightarrow> owner_id set \<Rightarrow> runtime \<Rightarrow> runtime" where
  "set_flags b D s = s\<lparr>owners := \<lambda>j. if j \<in> D then map_option (\<lambda>inner. inner\<lparr>paused := b\<rparr>) (owners s j) else owners s j\<rparr>"

lemma same_links_flags [simp]: "same_links s (set_flags b D t) = same_links s t"
  by (simp add: same_links_def set_flags_def option.map_comp comp_def)

lemma set_flags_simps [simp]: "set_flags b {} t = t" "set_flags b D (set_flags b E t) = set_flags b (D \<union> E) t"
  by (auto simp: set_flags_def option.map_comp comp_def fun_eq_iff)

lemma pause_one:
  assumes "wf_tree s"
  shows "\<exists>n. \<forall>k stack t. same_links s t \<longrightarrow>
    set_paused_loop (n + k) b (stack @ [i]) t = set_paused_loop k b stack (set_flags b {j. descends s i j} t)"
proof (induction "next_owner s - i" arbitrary: i rule: less_induct)
  case less
  show ?case
  proof (cases "owners s i")
    case None
    then have e: "{j. descends s i j} = {}" by (auto elim: descendsE)
    have "owners t i = None" if "same_links s t" for t
      using that None by (auto simp: same_links_def dest!: spec [of _ i])
    then show ?thesis unfolding e by (auto intro!: exI [of _ 1])
  next
    case (Some inner)
    have many: "\<exists>n. \<forall>k stack t. same_links s t \<longrightarrow>
        set_paused_loop (n + k) b (stack @ cs) t =
        set_paused_loop k b stack (set_flags b (\<Union>c\<in>set cs. {j. descends s c j}) t)"
      if "set cs \<subseteq> set (elems (children inner))" for cs
      using that
    proof (induction cs rule: rev_induct)
      case Nil
      show ?case by (auto intro!: exI [of _ 0])
    next
      case (snoc c cs)
      obtain n where n: "\<forall>k stack t. same_links s t \<longrightarrow> set_paused_loop (n + k) b (stack @ cs) t =
          set_paused_loop k b stack (set_flags b (\<Union>c\<in>set cs. {j. descends s c j}) t)"
        using snoc by auto
      have "i < c" "c < next_owner s" using snoc.prems Some assms by (auto simp: wf_tree_def wf_inner_def)
      then have "next_owner s - c < next_owner s - i" by (simp add: diff_less_mono2)
      then obtain m where m: "\<forall>k stack t. same_links s t \<longrightarrow> set_paused_loop (m + k) b (stack @ [c]) t =
          set_paused_loop k b stack (set_flags b {j. descends s c j} t)"
        using less [of c] by blast
      have "set_paused_loop ((m + n) + k) b (stack @ cs @ [c]) t =
          set_paused_loop k b stack (set_flags b (\<Union>c\<in>set (cs @ [c]). {j. descends s c j}) t)" if "same_links s t" for k stack t
        using m [rule_format, OF that, of "n + k" "stack @ cs"] n [rule_format, of "set_flags b {j. descends s c j} t" k stack] that
        by (simp add: add.assoc Un_commute)
      then show ?case by auto
    qed
    obtain n where n: "\<forall>k stack t. same_links s t \<longrightarrow> set_paused_loop (n + k) b (stack @ elems (children inner)) t =
        set_paused_loop k b stack (set_flags b (\<Union>c\<in>set (elems (children inner)). {j. descends s c j}) t)"
      using many [of "elems (children inner)"] by auto
    have D: "{j. descends s i j} = (\<Union>c\<in>set (elems (children inner)). {j. descends s c j}) \<union> {i}"
      using Some by (auto elim: descendsE intro: descends.intros)
    have "set_paused_loop (Suc n + k) b (stack @ [i]) t = set_paused_loop k b stack (set_flags b {j. descends s i j} t)"
      if t: "same_links s t" for k stack t
    proof -
      obtain inner' where i: "owners t i = Some inner'" "children inner' = children inner"
        using t Some by (auto simp: same_links_def dest!: spec [of _ i])
      have "upd_owner i (\<lambda>inner. inner\<lparr>paused := b\<rparr>) t = set_flags b {i} t"
        by (auto simp: upd_owner_def set_flags_def fun_eq_iff)
      then show ?thesis using i n t by (simp add: D)
    qed
    then show ?thesis by blast
  qed
qed

text \<open>
  Pausing ends, and pauses exactly the owner and its live descendants; resuming them
  then clears the flag of all of them.
\<close>

theorem pause_reaches_descendants:
  assumes "wf_tree s"
  shows "\<exists>n. \<forall>k\<ge>n. \<exists>t u. pause k i s = Inr t \<and> resume k i t = Inr u \<and>
    (\<forall>j. is_paused t j = (owners s j \<noteq> None \<and> descends s i j \<or> is_paused s j)) \<and>
    (\<forall>j. is_paused u j = (is_paused s j \<and> \<not> descends s i j))"
proof -
  let ?D = "{j. descends s i j}"
  have refl: "same_links s s" by (simp add: same_links_def)
  obtain n m where n: "\<forall>k stack t. same_links s t \<longrightarrow> set_paused_loop (n + k) True (stack @ [i]) t = set_paused_loop k True stack (set_flags True ?D t)"
    and m: "\<forall>k stack t. same_links s t \<longrightarrow> set_paused_loop (m + k) False (stack @ [i]) t = set_paused_loop k False stack (set_flags False ?D t)"
    using pause_one [OF assms] by metis
  show ?thesis
  proof (intro exI [of _ "n + m + 1"] allI impI)
    fix k assume "n + m + 1 \<le> k"
    then have k: "n + Suc (k - n - 1) = k" "m + Suc (k - m - 1) = k" by auto
    have "pause k i s = Inr (set_flags True ?D s)"
      using n [rule_format, OF refl, of "Suc (k - n - 1)" "[]"] by (simp only: k pause_def append_Nil) simp
    moreover have "resume k i (set_flags True ?D s) = Inr (set_flags False ?D (set_flags True ?D s))"
      using m [rule_format, of "set_flags True ?D s" "Suc (k - m - 1)" "[]"] refl by (simp only: k resume_def append_Nil same_links_flags) simp
    ultimately show "\<exists>t u. pause k i s = Inr t \<and> resume k i t = Inr u \<and>
        (\<forall>j. is_paused t j = (owners s j \<noteq> None \<and> descends s i j \<or> is_paused s j)) \<and>
        (\<forall>j. is_paused u j = (is_paused s j \<and> \<not> descends s i j))"
      by (auto simp: is_paused_def set_flags_def split: option.splits)
  qed
qed

lemma pause_reaches_descendants_witness:
  "\<exists>k t. pause k 0 small_state = Inr t \<and> is_paused t 1"
proof -
  have "wf_tree small_state" using saneD(1) [OF small_sane] .
  then obtain n where "\<forall>k\<ge>n. \<exists>t u. pause k 0 small_state = Inr t \<and> resume k 0 t = Inr u \<and>
      (\<forall>j. is_paused t j = (owners small_state j \<noteq> None \<and> descends small_state 0 j \<or> is_paused small_state j)) \<and>
      (\<forall>j. is_paused u j = (is_paused small_state j \<and> \<not> descends small_state 0 j))"
    using pause_reaches_descendants [of small_state 0] by blast
  moreover have "descends small_state 0 1"
    by (rule descends.child [where c = 1]) (auto simp: small_state_def intro!: descends.self)
  moreover have "owners small_state 1 \<noteq> None" by (simp add: small_state_def)
  ultimately show ?thesis by (metis order_refl)
qed

text \<open>
  An owner that registers arena items while at most \<open>k\<close> of its registered items are in
  the arena at any time never allocates room for more than \<open>max 4 (2k)\<close> keys, however many
  were disposed; and one that creates children, at most \<open>k\<close> alive at any time, never for
  more than \<open>max 4 (4k)\<close>.
\<close>

lemma owner_lists_bounded:
  assumes "\<forall>i<length hist. length (filter (fst (hist ! i)) (elems (fold (\<lambda>(P, x). register_vec P x) (take i hist) vec_new))) \<le> k"
    and "\<forall>i<length hist'. length (filter (fst (hist' ! i)) (elems (fold (\<lambda>(P, x). push_child_vec P x) (take i hist') vec_new))) \<le> k"
  shows "length (elems (fold (\<lambda>(P, x). register_vec P x) hist vec_new)) \<le> max 4 (2 * k) \<and>
    length (elems (fold (\<lambda>(P, x). push_child_vec P x) hist' vec_new)) \<le> max 4 (4 * k)"
proof -
  have "vec_ok (fold (\<lambda>(P, x). register_vec P x) hist vec_new) \<and> cap (fold (\<lambda>(P, x). register_vec P x) hist vec_new) \<le> max 4 (2 * k)"
    by (rule nodes_vec.history_bounded) (use assms(1) in simp_all)
  moreover have "vec_ok (fold (\<lambda>(P, x). push_child_vec P x) hist' vec_new) \<and> cap (fold (\<lambda>(P, x). push_child_vec P x) hist' vec_new) \<le> max 4 (4 * k)"
    by (rule child_vec.history_bounded) (use assms(2) in simp_all)
  ultimately show ?thesis unfolding vec_ok_def by linarith
qed

end
