(* ===== verification/Route_Segments.thy ===== *)
theory Route_Segments
  imports Leptos_Prelude
begin

text \<open>
  Matching the segments of a route against a path
  (\<^verbatim>\<open>src/router/src/matching/horizontal\<close>). A path is a list of bytes, as the source
  scans it; slicing a \<open>str\<close> panics out of range or inside a character, so every
  operation that slices returns a result.
\<close>

subsection \<open>Slices\<close>

abbreviation slash :: char where
  "slash \<equiv> CHR ''/''"

text \<open>A continuation byte of UTF-8 has the top bits \<open>10\<close>.\<close>

definition continuation :: "char \<Rightarrow> bool" where
  "continuation c \<longleftrightarrow> of_char c div (64 :: nat) = 2"

definition is_char_boundary :: "string \<Rightarrow> nat \<Rightarrow> bool" where
  "is_char_boundary s i \<longleftrightarrow>
     i \<le> length s \<and> (i = 0 \<or> i = length s \<or> \<not> continuation (s ! i))"

definition split_at :: "string \<Rightarrow> nat \<Rightarrow> (string \<times> string) result" where
  "split_at s n = (if is_char_boundary s n then Inr (take n s, drop n s) else Inl Panic)"

definition slice_to :: "string \<Rightarrow> nat \<Rightarrow> string result" where
  "slice_to s n = (if is_char_boundary s n then Inr (take n s) else Inl Panic)"

definition slice :: "string \<Rightarrow> nat \<Rightarrow> nat \<Rightarrow> string result" where
  "slice s a b =
     (if a \<le> b \<and> is_char_boundary s a \<and> is_char_boundary s b then Inr (take (b - a) (drop a s))
      else Inl Panic)"

definition starts_with :: "string \<Rightarrow> char \<Rightarrow> bool" where
  "starts_with s c \<longleftrightarrow> (case s of [] \<Rightarrow> False | x # xs \<Rightarrow> x = c)"

subsection \<open>Segments\<close>

type_synonym params = "(string \<times> string) list"

record partial_path_match =
  remaining :: string
  params :: params
  matched :: string

text \<open>\<open>Tuple\<close> is a tuple of segments: empty is \<open>()\<close>, one element is \<open>(A,)\<close>.\<close>

datatype segment =
    StaticSegment string
  | ParamSegment string
  | WildcardSegment string
  | OptionalParamSegment string
  | Tuple "segment list"

datatype path_segment =
    PUnit
  | PStatic string
  | PParam string
  | POptionalParam string
  | PSplat string

type_synonym match_result = "partial_path_match option result"

subsection \<open>Static segments\<close>

text \<open>
  The loop over the bytes of the path after an initial slash: the remaining path, the
  remaining segment (\<open>seg[seg_idx..]\<close>, with how far \<open>seg_idx\<close> has run past its end
  being irrelevant) and the matched length. \<open>None\<close> is an early \<open>return None\<close>.
\<close>

fun static_loop :: "string \<Rightarrow> string \<Rightarrow> string \<Rightarrow> nat \<Rightarrow> bool \<Rightarrow> (string \<times> nat \<times> bool) option" where
  "static_loop segment [] seg matched_len has_matched = Some (seg, matched_len, has_matched)"
| "static_loop segment (byte # bytes) seg matched_len has_matched =
     (if byte = slash then (if seg \<noteq> [] then None else Some ([], matched_len, has_matched))
      else case seg of
             [] \<Rightarrow> if segment = [] \<or> segment = [slash] then Some ([], matched_len, has_matched) else None
           | expected # seg' \<Rightarrow>
               if byte = expected then static_loop segment bytes seg' (matched_len + 1) True
               else None)"

definition static_test :: "string \<Rightarrow> string \<Rightarrow> match_result" where
  "static_test segment path =
     (let has_matched = (segment = [] \<or> segment = [slash]) in
      if \<not> starts_with path slash \<and> path \<noteq> [] then Inr None
      else
        let lead = starts_with path slash;
            bytes = (if lead then tl path else path);
            matched_len = (if lead \<and> segment \<noteq> [] then 1 else 0);
            seg = (if lead \<and> starts_with segment slash then tl segment else segment)
        in case static_loop segment bytes seg matched_len has_matched of
             None \<Rightarrow> Inr None
           | Some (seg', len, has) \<Rightarrow>
               if seg' \<noteq> [] then Inr None
               else if len = 1 \<and> lead
                    then Inr (if has then Some \<lparr>remaining = path, params = [], matched = [slash]\<rparr> else None)
                    else (case split_at path len of
                            Inl e \<Rightarrow> Inl e
                          | Inr (m, r) \<Rightarrow>
                              Inr (if has then Some \<lparr>remaining = r, params = [], matched = m\<rparr> else None)))"

subsection \<open>Parameters\<close>

text \<open>\<open>bytes[offset..].iter().position(|b| b == '/').unwrap_or(bytes.len() - offset)\<close>.\<close>

definition param_length :: "string \<Rightarrow> nat \<Rightarrow> nat" where
  "param_length bytes offset = length (takeWhile (\<lambda>b. b \<noteq> slash) (drop offset bytes))"

definition param_test :: "string \<Rightarrow> string \<Rightarrow> match_result" where
  "param_test name path =
     (let lead = starts_with path slash in
      if \<not> lead \<and> path \<noteq> [] then Inr None
      else
        let offset = (if lead then 1 else 0);
            param_len = param_length path offset;
            matched_len = offset + param_len
        in if matched_len = 0 \<or> matched_len = 1 \<and> lead then Inr None
           else (case (split_at path matched_len, slice path offset (param_len + offset)) of
                   (Inr (m, r), Inr v) \<Rightarrow> Inr (Some \<lparr>remaining = r, params = [(name, v)], matched = m\<rparr>)
                 | _ \<Rightarrow> Inl Panic))"

definition wildcard_test :: "string \<Rightarrow> string \<Rightarrow> match_result" where
  "wildcard_test name path =
     (let lead = starts_with path slash in
      if \<not> lead \<and> path \<noteq> [] then Inr None
      else
        let offset = (if lead then 1 else 0);
            param_len = length path - offset;
            matched_len = offset + param_len
        in case (split_at path matched_len, slice path offset (param_len + offset)) of
             (Inr (m, r), Inr v) \<Rightarrow> Inr (Some \<lparr>remaining = r, params = [(name, v)], matched = m\<rparr>)
           | _ \<Rightarrow> Inl Panic)"

definition optional_param_test :: "string \<Rightarrow> string \<Rightarrow> match_result" where
  "optional_param_test name path =
     (let lead = starts_with path slash in
      if \<not> lead \<and> path \<noteq> [] then Inr (Some \<lparr>remaining = path, params = [], matched = []\<rparr>)
      else
        let offset = (if lead then 1 else 0);
            param_len = param_length path offset;
            matched_len = (if offset + param_len = 1 \<and> lead then 0 else offset + param_len)
        in case split_at path matched_len of
             Inl e \<Rightarrow> Inl e
           | Inr (m, r) \<Rightarrow>
               if matched_len > 0
               then (case slice path offset (param_len + offset) of
                       Inl e \<Rightarrow> Inl e
                     | Inr v \<Rightarrow> Inr (Some \<lparr>remaining = r, params = [(name, v)], matched = m\<rparr>))
               else Inr (Some \<lparr>remaining = r, params = [], matched = m\<rparr>))"

subsection \<open>Tuples\<close>

type_synonym field = "bool \<times> (string \<Rightarrow> match_result)"

datatype pass = Matched string nat params | NoMatch | Retry | Failed failure

text \<open>
  One pass of the loop of the tuple macro over the fields: \<open>first\<close> marks the first one,
  which gives up at once when it fails.
\<close>

fun tuple_pass ::
  "nat \<Rightarrow> bool \<Rightarrow> field list \<Rightarrow> nat \<Rightarrow> nat \<Rightarrow> string \<Rightarrow> params \<Rightarrow> pass" where
  "tuple_pass include_optionals first [] nth_field matched_len r p = Matched r matched_len p"
| "tuple_pass include_optionals first ((opt, t) # fs) nth_field matched_len r p =
     (let nth_field = (if opt then nth_field + 1 else nth_field) in
      if \<not> opt \<or> nth_field \<le> include_optionals
      then (case t r of
              Inl e \<Rightarrow> Failed e
            | Inr None \<Rightarrow>
                if first \<or> opt \<or> include_optionals = 0 then NoMatch else Retry
            | Inr (Some m) \<Rightarrow>
                tuple_pass include_optionals False fs nth_field (matched_len + length (matched m))
                  (remaining m) (p @ params m))
      else tuple_pass include_optionals False fs nth_field matched_len r p)"

fun tuple_loop :: "nat \<Rightarrow> field list \<Rightarrow> string \<Rightarrow> match_result" where
  "tuple_loop include_optionals fs path =
     (case tuple_pass include_optionals True fs 0 0 path [] of
        Failed e \<Rightarrow> Inl e
      | NoMatch \<Rightarrow> Inr None
      | Retry \<Rightarrow>
          (case include_optionals of 0 \<Rightarrow> Inr None | Suc n \<Rightarrow> tuple_loop n fs path)
      | Matched r len p \<Rightarrow>
          (case slice_to path len of
             Inl e \<Rightarrow> Inl e
           | Inr m \<Rightarrow> Inr (Some \<lparr>remaining = r, params = p, matched = m\<rparr>)))"

declare tuple_loop.simps [simp del]

definition tuple_test :: "field list \<Rightarrow> string \<Rightarrow> match_result" where
  "tuple_test fs path =
     (case fs of
        [] \<Rightarrow> Inr (Some \<lparr>remaining = path, params = [], matched = []\<rparr>)
      | [(opt, t)] \<Rightarrow>
          (case t path of
             Inl e \<Rightarrow> Inl e
           | Inr None \<Rightarrow> Inr None
           | Inr (Some m) \<Rightarrow>
               (case slice_to path (length (matched m)) of
                  Inl e \<Rightarrow> Inl e
                | Inr s \<Rightarrow> Inr (Some (m\<lparr>matched := s\<rparr>))))
      | _ \<Rightarrow> tuple_loop (length (filter fst fs)) fs path)"

fun optional_seg :: "segment \<Rightarrow> bool" where
  "optional_seg (OptionalParamSegment n) = True"
| "optional_seg (Tuple ss) = (\<exists>s\<in>set ss. optional_seg s)"
| "optional_seg s = False"

fun seg_test :: "segment \<Rightarrow> string \<Rightarrow> match_result" where
  "seg_test (StaticSegment s) = static_test s"
| "seg_test (ParamSegment n) = param_test n"
| "seg_test (WildcardSegment n) = wildcard_test n"
| "seg_test (OptionalParamSegment n) = optional_param_test n"
| "seg_test (Tuple ss) = tuple_test (map (\<lambda>s. (optional_seg s, seg_test s)) ss)"

fun generate_path :: "segment \<Rightarrow> path_segment list \<Rightarrow> path_segment list" where
  "generate_path (StaticSegment s) path = path @ [PStatic s]"
| "generate_path (ParamSegment n) path = path @ [PParam n]"
| "generate_path (WildcardSegment n) path = path @ [PSplat n]"
| "generate_path (OptionalParamSegment n) path = path @ [POptionalParam n]"
| "generate_path (Tuple ss) path = fold generate_path ss path"

subsection \<open>Text as the language guarantees it\<close>

text \<open>
  A \<open>str\<close> is valid UTF-8; all that matters here is that a continuation byte is never
  the first byte and never follows an ASCII byte.
\<close>

definition ascii :: "char \<Rightarrow> bool" where
  "ascii c \<longleftrightarrow> of_char c < (128 :: nat)"

fun str_ok_after :: "bool \<Rightarrow> string \<Rightarrow> bool" where
  "str_ok_after multi [] = True"
| "str_ok_after multi (c # cs) = ((continuation c \<longrightarrow> multi) \<and> str_ok_after (\<not> ascii c) cs)"

definition str_ok :: "string \<Rightarrow> bool" where
  "str_ok s \<longleftrightarrow> str_ok_after False s"

definition at_segment :: "string \<Rightarrow> bool" where
  "at_segment s \<longleftrightarrow> s = [] \<or> starts_with s slash"

lemma not_continuation_slash [simp]: "\<not> continuation slash"
  by (simp add: continuation_def)

lemma ascii_slash [simp]: "ascii slash"
  by (simp add: ascii_def)

lemma at_segment_simps [simp]: "at_segment []" "at_segment (c # s) \<longleftrightarrow> c = slash"
  by (auto simp: at_segment_def starts_with_def)

lemma starts_with_simps [simp]: "\<not> starts_with [] c" "starts_with (x # s) c \<longleftrightarrow> x = c"
  by (simp_all add: starts_with_def)

lemma boundary_at_segment:
  "p = x @ y \<Longrightarrow> at_segment y \<Longrightarrow> is_char_boundary p (length x)"
  by (cases y) (auto simp: is_char_boundary_def nth_append)

lemma boundary_0 [simp]: "is_char_boundary p 0"
  by (simp add: is_char_boundary_def)

lemma boundary_length [simp]: "is_char_boundary p (length p)"
  by (simp add: is_char_boundary_def)

lemma boundary_1:
  assumes "str_ok (slash # p)"
  shows "is_char_boundary (slash # p) (Suc 0)"
  using assms by (cases p) (auto simp: is_char_boundary_def str_ok_def)

lemma str_ok_after_append: "str_ok_after b (x @ y) \<Longrightarrow> \<exists>b'. str_ok_after b' y"
  by (induction x arbitrary: b) auto

lemma str_ok_suffix: "str_ok (x @ y) \<Longrightarrow> at_segment y \<Longrightarrow> str_ok y"
  unfolding str_ok_def using str_ok_after_append by (cases y) fastforce+

lemma take_drop_While:
  "take (length (takeWhile P xs)) xs = takeWhile P xs" "drop (length (takeWhile P xs)) xs = dropWhile P xs"
  by (induction xs) auto

lemma at_segment_dropWhile: "at_segment (dropWhile (\<lambda>b. b \<noteq> slash) s)"
  by (induction s) auto

subsection \<open>What the single segments match\<close>

definition static_spec :: "string \<Rightarrow> string \<Rightarrow> partial_path_match option" where
  "static_spec segment path =
     (if segment = [] then (if at_segment path then Some \<lparr>remaining = path, params = [], matched = []\<rparr> else None)
      else if segment = [slash]
      then (if starts_with path slash then Some \<lparr>remaining = path, params = [], matched = [slash]\<rparr> else None)
      else let t = (if starts_with segment slash then tl segment else segment); n = Suc (length t)
           in if slash \<notin> set t \<and> take n path = slash # t \<and> at_segment (drop n path)
              then Some \<lparr>remaining = drop n path, params = [], matched = slash # t\<rparr> else None)"

lemma static_loop_spec:
  assumes "segment \<noteq> []" "segment \<noteq> [slash]"
  shows "(case static_loop segment bytes seg len has of
            Some (seg', l, h) \<Rightarrow> if seg' = [] then Some (l, h) else None | None \<Rightarrow> None) =
    (if slash \<notin> set seg \<and> take (length seg) bytes = seg \<and> at_segment (drop (length seg) bytes)
     then Some (len + length seg, has \<or> seg \<noteq> []) else None)"
  using assms
  by (induction segment bytes seg len has rule: static_loop.induct)
    (auto split: list.splits option.splits prod.splits if_splits)

lemma static_test_spec: "static_test segment path = Inr (static_spec segment path)"
proof (cases "segment = [] \<or> segment = [slash]")
  case True
  have loop: "static_loop [] bytes [] len True = Some ([], len, True)"
    "static_loop [slash] bytes [] len True = Some ([], len, True)" for bytes len
    by (cases bytes; simp)+
  show ?thesis using True
    by (cases path) (auto simp: static_test_def static_spec_def loop Let_def split_at_def)
next
  case False
  show ?thesis
  proof (cases path)
    case Nil
    then show ?thesis using False by (auto simp: static_test_def static_spec_def Let_def)
  next
    case (Cons c bytes)
    define t where "t = (if starts_with segment slash then tl segment else segment)"
    have t: "t \<noteq> []" using False by (cases segment) (auto simp: t_def)
    have bd: "at_segment (drop (length t) bytes) \<Longrightarrow> length t \<le> length bytes \<Longrightarrow>
        is_char_boundary (c # bytes) (Suc (length t))"
      using boundary_at_segment [of "c # bytes" "c # take (length t) bytes" "drop (length t) bytes"] by simp
    have len: "take (length t) bytes = t \<Longrightarrow> length t \<le> length bytes"
      by (metis length_take min.absorb_iff2 min.commute)
    show ?thesis
      using static_loop_spec [of segment bytes t 1 False] False Cons t bd len
      by (cases "static_loop segment bytes t 1 False")
        (auto simp: static_test_def static_spec_def Let_def split_at_def simp flip: t_def split: if_splits)
  qed
qed

text \<open>A parameter is a slash and the non-empty text up to the next slash.\<close>

definition param_spec :: "string \<Rightarrow> string \<Rightarrow> partial_path_match option" where
  "param_spec name path =
     (case path of
        [] \<Rightarrow> None
      | c # rest \<Rightarrow>
          let v = takeWhile (\<lambda>b. b \<noteq> slash) rest
          in if c = slash \<and> v \<noteq> []
             then Some \<lparr>remaining = dropWhile (\<lambda>b. b \<noteq> slash) rest, params = [(name, v)], matched = slash # v\<rparr>
             else None)"

lemma boundary_param:
  "is_char_boundary (slash # rest) (Suc (length (takeWhile (\<lambda>b. b \<noteq> slash) rest)))"
  using boundary_at_segment [of "slash # rest" "slash # takeWhile (\<lambda>b. b \<noteq> slash) rest"
      "dropWhile (\<lambda>b. b \<noteq> slash) rest"] at_segment_dropWhile by simp

lemma param_test_spec:
  assumes "str_ok path"
  shows "param_test name path = Inr (param_spec name path)"
proof (cases "path = [] \<or> \<not> starts_with path slash")
  case True
  then show ?thesis by (cases path) (auto simp: param_test_def param_spec_def param_length_def)
next
  case False
  then obtain rest where p: "path = slash # rest" by (cases path) auto
  then have "is_char_boundary (slash # rest) (Suc 0)" using assms boundary_1 by simp
  with p boundary_param show ?thesis
    by (auto simp: param_test_def param_spec_def param_length_def Let_def split_at_def slice_def take_drop_While)
qed

lemma wildcard_test_spec:
  assumes "str_ok path"
  shows "wildcard_test name path =
    Inr (if at_segment path then Some \<lparr>remaining = [], params = [(name, tl path)], matched = path\<rparr> else None)"
proof (cases path)
  case (Cons c rest)
  show ?thesis
  proof (cases "c = slash")
    case True
    then have "is_char_boundary (slash # rest) (Suc 0)" using assms boundary_1 Cons by simp
    with Cons True boundary_length [of "slash # rest"] show ?thesis
      by (simp add: wildcard_test_def split_at_def slice_def)
  qed (simp add: Cons wildcard_test_def)
qed (simp add: wildcard_test_def split_at_def slice_def)

lemma optional_param_test_spec:
  assumes "str_ok path"
  shows "optional_param_test name path =
    Inr (Some (case param_spec name path of Some m \<Rightarrow> m | None \<Rightarrow> \<lparr>remaining = path, params = [], matched = []\<rparr>))"
proof (cases "path = [] \<or> \<not> starts_with path slash")
  case True
  then show ?thesis
    by (cases path) (auto simp: optional_param_test_def param_spec_def param_length_def split_at_def)
next
  case False
  then obtain rest where p: "path = slash # rest" by (cases path) auto
  then have "is_char_boundary (slash # rest) (Suc 0)" using assms boundary_1 by simp
  with p boundary_param show ?thesis
    by (auto simp: optional_param_test_def param_spec_def param_length_def Let_def split_at_def slice_def
        take_drop_While)
qed

subsection \<open>The contract of a segment\<close>

text \<open>
  What a tuple relies on in its fields: at the start of a segment the test returns, and
  a match cuts the path in two, the rest again starting a segment. Every segment keeps
  it but the static segment \<open>/\<close>, which reports a match it does not consume.
\<close>

locale splitting_segment =
  fixes test :: "string \<Rightarrow> match_result"
  assumes total: "str_ok p \<Longrightarrow> at_segment p \<Longrightarrow> \<exists>m. test p = Inr m"
    and splits: "str_ok p \<Longrightarrow> at_segment p \<Longrightarrow> test p = Inr (Some m) \<Longrightarrow>
      matched m @ remaining m = p \<and> at_segment (remaining m)"
begin

lemma result:
  assumes "str_ok p" "at_segment p"
  obtains (fails) "test p = Inr None"
  | (matches) m where "test p = Inr (Some m)" "p = matched m @ remaining m" "at_segment (remaining m)"
      "str_ok (remaining m)"
proof -
  obtain r where r: "test p = Inr r" using total [OF assms] by blast
  show thesis
  proof (cases r)
    case (Some m)
    with r splits [OF assms] have "matched m @ remaining m = p \<and> at_segment (remaining m)" by simp
    then show ?thesis using matches r Some str_ok_suffix assms(1) by metis
  qed (use r fails in simp)
qed

end

interpretation param: splitting_segment "param_test name"
  by unfold_locales (auto simp: param_test_spec param_spec_def Let_def at_segment_dropWhile split: list.splits if_splits)

interpretation wildcard: splitting_segment "wildcard_test name"
  by unfold_locales (auto simp: wildcard_test_spec)

interpretation optional: splitting_segment "optional_param_test name"
  by unfold_locales
    (auto simp: optional_param_test_spec param_spec_def Let_def at_segment_dropWhile split: list.splits if_splits option.splits)

lemma take_eq_append: "take n p = c # t \<Longrightarrow> c # t @ drop n p = p"
  by (metis append_Cons append_take_drop_id)

lemma splitting_static: "segment \<noteq> [slash] \<Longrightarrow> splitting_segment (static_test segment)"
  by unfold_locales (auto simp: static_test_spec static_spec_def Let_def take_eq_append split: if_splits)

subsection \<open>Tuples of splitting segments split\<close>

definition pass_ok :: "nat \<Rightarrow> string \<Rightarrow> nat \<Rightarrow> pass \<Rightarrow> bool" where
  "pass_ok inc r len x \<longleftrightarrow> (case x of
      Failed e \<Rightarrow> False
    | NoMatch \<Rightarrow> True
    | Retry \<Rightarrow> inc \<noteq> 0
    | Matched r' len' p' \<Rightarrow> at_segment r' \<and> (\<exists>c. r = c @ r' \<and> len' = len + length c))"

lemma pass_ok_append: "pass_ok inc r (len + length c) x \<Longrightarrow> pass_ok inc (c @ r) len x"
  by (cases x) (auto simp: pass_ok_def)

lemma tuple_pass_splits:
  assumes "\<And>opt t. (opt, t) \<in> set fs \<Longrightarrow> splitting_segment t" "str_ok r" "at_segment r"
  shows "pass_ok inc r len (tuple_pass inc first fs k len r p)"
  using assms
proof (induction fs arbitrary: first k len r p)
  case (Cons f fs)
  obtain opt t where f: "f = (opt, t)" by (cases f)
  have t: "splitting_segment t" and fs: "\<And>opt t. (opt, t) \<in> set fs \<Longrightarrow> splitting_segment t"
    using Cons.prems(1) by (auto simp: f)
  note IH = Cons.IH [OF fs]
  show ?case
  proof (cases rule: splitting_segment.result [OF t Cons.prems(2,3), case_names fails matches])
    case fails
    then show ?thesis using IH [OF _ Cons.prems(2,3)] by (simp add: f Let_def pass_ok_def [of _ _ _ NoMatch] pass_ok_def [of _ _ _ Retry])
  next
    case (matches m)
    have "pass_ok inc r len (tuple_pass inc False fs j (len + length (matched m)) (remaining m) q)" for j q
      using pass_ok_append [OF IH [OF _ matches(4,3)]] matches(2) by simp
    then show ?thesis using IH [OF _ Cons.prems(2,3)] matches(1) by (simp add: f Let_def)
  qed
qed (simp add: pass_ok_def)

lemma tuple_loop_splits:
  assumes "\<And>opt t. (opt, t) \<in> set fs \<Longrightarrow> splitting_segment t" "str_ok p" "at_segment p"
  shows "\<exists>m. tuple_loop inc fs p = Inr m \<and>
    (\<forall>x. m = Some x \<longrightarrow> matched x @ remaining x = p \<and> at_segment (remaining x))"
proof -
  have pass: "pass_ok inc p 0 (tuple_pass inc True fs 0 0 p [])" for inc
    using assms by (blast intro: tuple_pass_splits)
  show ?thesis
  proof (induction inc)
    case (Suc inc)
    then show ?case
      using pass [of "Suc inc"] by (cases "tuple_pass (Suc inc) True fs 0 0 p []")
        (auto simp: tuple_loop.simps [of "Suc inc"] pass_ok_def slice_to_def boundary_at_segment)
  next
    case 0
    show ?case
      using pass [of 0] by (cases "tuple_pass 0 True fs 0 0 p []")
        (auto simp: tuple_loop.simps pass_ok_def slice_to_def boundary_at_segment)
  qed
qed

lemma splitting_tuple:
  assumes "\<And>opt t. (opt, t) \<in> set fs \<Longrightarrow> splitting_segment t"
  shows "splitting_segment (tuple_test fs)"
proof -
  have "\<exists>m. tuple_test fs p = Inr m \<and> (\<forall>x. m = Some x \<longrightarrow> matched x @ remaining x = p \<and> at_segment (remaining x))"
    if p: "str_ok p" "at_segment p" for p
  proof (cases "\<exists>opt t. fs = [(opt, t)]")
    case True
    then obtain opt t where t: "fs = [(opt, t)]" by blast
    then have "splitting_segment t" using assms by simp
    then show ?thesis
      by (cases rule: splitting_segment.result [OF _ p])
        (auto simp: t tuple_test_def slice_to_def boundary_at_segment)
  next
    case False
    then have "fs = [] \<or> tuple_test fs p = tuple_loop (length (filter fst fs)) fs p"
      by (auto simp: tuple_test_def split: list.split prod.split)
    then show ?thesis
      using tuple_loop_splits [OF assms p] p by (auto simp: tuple_test_def)
  qed
  then show ?thesis by unfold_locales fastforce+
qed

fun no_root :: "segment \<Rightarrow> bool" where
  "no_root (StaticSegment s) = (s \<noteq> [slash])"
| "no_root (Tuple ss) = (\<forall>s\<in>set ss. no_root s)"
| "no_root s = True"

lemma splitting_seg_test: "no_root s \<Longrightarrow> splitting_segment (seg_test s)"
proof (induction s)
  case (Tuple ss)
  then show ?case by (auto intro!: splitting_tuple)
qed (auto intro: splitting_static param.splitting_segment_axioms wildcard.splitting_segment_axioms
    optional.splitting_segment_axioms)

subsection \<open>Printing a path and matching it\<close>

text \<open>A route of plain static segments and parameters, and the path it stands for.\<close>

fun plain_route :: "segment list \<Rightarrow> string list \<Rightarrow> bool" where
  "plain_route [] vs = (vs = [])"
| "plain_route (StaticSegment s # ss) vs = (s \<noteq> [] \<and> slash \<notin> set s \<and> plain_route ss vs)"
| "plain_route (ParamSegment n # ss) (v # vs) = (v \<noteq> [] \<and> slash \<notin> set v \<and> plain_route ss vs)"
| "plain_route _ _ = False"

fun render_path :: "segment list \<Rightarrow> string list \<Rightarrow> string" where
  "render_path (StaticSegment s # ss) vs = slash # s @ render_path ss vs"
| "render_path (ParamSegment n # ss) (v # vs) = slash # v @ render_path ss vs"
| "render_path _ _ = []"

fun render_params :: "segment list \<Rightarrow> string list \<Rightarrow> params" where
  "render_params (StaticSegment s # ss) vs = render_params ss vs"
| "render_params (ParamSegment n # ss) (v # vs) = (n, v) # render_params ss vs"
| "render_params _ _ = []"

lemma at_segment_render: "plain_route ss vs \<Longrightarrow> at_segment t \<Longrightarrow> at_segment (render_path ss vs @ t)"
  by (cases "(ss, vs)" rule: plain_route.cases) auto

lemma static_test_plain:
  assumes "s \<noteq> []" "slash \<notin> set s" "at_segment t"
  shows "static_test s (slash # s @ t) = Inr (Some \<lparr>remaining = t, params = [], matched = slash # s\<rparr>)"
proof -
  have "s \<noteq> [slash]" "\<not> starts_with s slash" using assms by (cases s; auto)+
  with assms show ?thesis by (simp add: static_test_spec static_spec_def)
qed

lemma takeWhile_slash:
  "slash \<notin> set v \<Longrightarrow> at_segment t \<Longrightarrow> takeWhile (\<lambda>b. b \<noteq> slash) (v @ t) = v \<and> dropWhile (\<lambda>b. b \<noteq> slash) (v @ t) = t"
  by (induction v) (cases t, auto)+

lemma param_test_plain:
  assumes "v \<noteq> []" "slash \<notin> set v" "at_segment t" "str_ok (slash # v @ t)"
  shows "param_test n (slash # v @ t) = Inr (Some \<lparr>remaining = t, params = [(n, v)], matched = slash # v\<rparr>)"
  using assms by (simp add: param_test_spec param_spec_def Let_def takeWhile_slash)

lemma tuple_pass_render:
  assumes "plain_route ss vs" "at_segment t" "str_ok (render_path ss vs @ t)"
  shows "tuple_pass inc first (map (\<lambda>s. (optional_seg s, seg_test s)) ss) k len (render_path ss vs @ t) p =
    Matched t (len + length (render_path ss vs)) (p @ render_params ss vs)"
  using assms
proof (induction ss vs arbitrary: first len p rule: plain_route.induct)
  case (2 s ss vs)
  let ?t = "render_path ss vs @ t"
  have rest: "at_segment ?t" "str_ok ?t"
    using "2.prems" at_segment_render str_ok_suffix [of "slash # s" ?t] by auto
  then show ?case
    using "2.prems" "2.IH" [of False "len + Suc (length s)" p] static_test_plain [of s ?t]
    by (simp add: Let_def)
next
  case (3 n ss v vs)
  let ?t = "render_path ss vs @ t"
  have rest: "at_segment ?t" "str_ok ?t"
    using "3.prems" at_segment_render str_ok_suffix [of "slash # v" ?t] by auto
  then show ?case
    using "3.prems" "3.IH" [of False "len + Suc (length v)" "p @ [(n, v)]"] param_test_plain [of v ?t n]
    by (simp add: Let_def)
qed auto

lemma tuple_test_by_pass:
  assumes "tuple_pass (length (filter fst fs)) True fs 0 0 (x @ t) [] = Matched t (length x) ps"
    and "at_segment t" "fs \<noteq> []"
  shows "tuple_test fs (x @ t) = Inr (Some \<lparr>remaining = t, params = ps, matched = x\<rparr>)"
proof -
  have bd: "is_char_boundary (x @ t) (length x)" using boundary_at_segment assms(2) by blast
  show ?thesis
  proof (cases "\<exists>opt f. fs = [(opt, f)]")
    case True
    then show ?thesis using assms(1) bd
      by (auto simp: tuple_test_def slice_to_def split: sum.splits option.splits if_splits)
  next
    case False
    then have "tuple_test fs (x @ t) = tuple_loop (length (filter fst fs)) fs (x @ t)"
      using assms(3) by (auto simp: tuple_test_def split: list.split prod.split)
    then show ?thesis using assms(1) bd by (simp add: tuple_loop.simps slice_to_def)
  qed
qed

lemma render_matches:
  assumes "plain_route ss vs" "at_segment t" "str_ok (render_path ss vs @ t)"
  shows "seg_test (Tuple ss) (render_path ss vs @ t) =
    Inr (Some \<lparr>remaining = t, params = render_params ss vs, matched = render_path ss vs\<rparr>)"
proof (cases "ss = []")
  case True
  then show ?thesis using assms(1) by (auto simp: tuple_test_def)
next
  case False
  then show ?thesis
    using tuple_test_by_pass [OF _ assms(2)] tuple_pass_render [OF assms] by simp
qed

end
