(* ===== verification/Route_Nested.thy ===== *)
theory Route_Nested
  imports Route_Segments "HOL-Library.Word"
begin

text \<open>
  Nested routes (\<^verbatim>\<open>src/router/src/matching/nested\<close> and \<open>RouteDefs\<close> of
  \<^verbatim>\<open>src/router/src/matching/mod.rs\<close>): matching a path against a tree of routes and
  listing the routes of the tree.
\<close>

subsection \<open>Rendering modes\<close>

text \<open>The two closures of a static route are known by their addresses.\<close>

record static_route =
  prerender_params :: "nat option"
  regenerate :: "nat option"

datatype ssr_mode = OutOfOrder | PartiallyBlocked | InOrder | Async | StaticMode static_route

text \<open>The derived order goes by variant; two static routes compare equal.\<close>

primrec ssr_rank :: "ssr_mode \<Rightarrow> nat" where
  "ssr_rank OutOfOrder = 0"
| "ssr_rank PartiallyBlocked = 1"
| "ssr_rank InOrder = 2"
| "ssr_rank Async = 3"
| "ssr_rank (StaticMode r) = 4"

definition ssr_gt :: "ssr_mode \<Rightarrow> ssr_mode \<Rightarrow> bool" where
  "ssr_gt a b \<longleftrightarrow> ssr_rank a > ssr_rank b"

datatype http_method = MethodGet | MethodPost | MethodPut | MethodDelete | MethodPatch

record generated_route =
  segments :: "path_segment list"
  ssr_mode :: ssr_mode
  methods :: "http_method set"
  regenerates :: "nat list"

subsection \<open>Trees of routes\<close>

type_synonym route_id = "16 word"

text \<open>
  \<open>UnitRoute\<close> is \<open>()\<close>, \<open>OneOf\<close> a tuple of two or more alternatives (whose match is
  wrapped in an \<open>Either\<close>), \<open>ListOf\<close> a \<open>StaticVec\<close>; \<open>'v\<close> is the view.
\<close>

datatype 'v routes =
    UnitRoute
  | NestedRoute route_id segment "'v routes option" 'v "http_method set" ssr_mode
  | OneOf "'v routes list"
  | ListOf "'v routes list"

datatype 'v route_match =
    UnitMatch
  | NestedMatch route_id string params "'v route_match option" 'v
  | EitherMatch nat "'v route_match"

text \<open>\<open>NestedRoute::new\<close> takes the next identifier of the 16-bit counter \<open>ROUTE_ID\<close>.\<close>

definition new_route :: "route_id \<Rightarrow> segment \<Rightarrow> 'v \<Rightarrow> 'v routes \<times> route_id" where
  "new_route counter path view = (NestedRoute counter path None view {MethodGet} OutOfOrder, counter + 1)"

fun with_child :: "'v routes \<Rightarrow> 'v routes \<Rightarrow> 'v routes" where
  "with_child child (NestedRoute i segs c view ms mode) = NestedRoute i segs (Some child) view ms mode"
| "with_child child r = r"

fun with_ssr_mode :: "ssr_mode \<Rightarrow> 'v routes \<Rightarrow> 'v routes" where
  "with_ssr_mode mode (NestedRoute i segs c view ms mode') = NestedRoute i segs c view ms mode"
| "with_ssr_mode mode r = r"

fun as_id :: "'v route_match \<Rightarrow> route_id" where
  "as_id UnitMatch = 0"
| "as_id (NestedMatch i m ps c v) = i"
| "as_id (EitherMatch k m) = as_id m"

fun as_matched :: "'v route_match \<Rightarrow> string" where
  "as_matched UnitMatch = []"
| "as_matched (NestedMatch i m ps c v) = m"
| "as_matched (EitherMatch k m) = as_matched m"

fun to_params :: "'v route_match \<Rightarrow> params" where
  "to_params UnitMatch = []"
| "to_params (NestedMatch i m ps c v) = ps"
| "to_params (EitherMatch k m) = to_params m"

subsection \<open>Matching\<close>

definition complete :: "string \<Rightarrow> bool" where
  "complete r \<longleftrightarrow> r = [] \<or> r = [slash]"

text \<open>\<open>trim_end_matches\<close> with a string pattern: every repetition at the end is cut off.\<close>

function trim_end_matches :: "string \<Rightarrow> string \<Rightarrow> string" where
  "trim_end_matches pat s =
     (if pat \<noteq> [] \<and> length pat \<le> length s \<and> drop (length s - length pat) s = pat
      then trim_end_matches pat (take (length s - length pat) s) else s)"
  by pat_completeness auto
termination
  by (relation "measure (\<lambda>(pat, s). length s)") (auto simp: min_def)

declare trim_end_matches.simps [simp del]

type_synonym 'v nested_result = "((route_id \<times> 'v route_match) option \<times> string) result"

text \<open>The alternatives of a tuple or a list, in order.\<close>

fun first_match ::
  "(nat \<Rightarrow> 'v route_match \<Rightarrow> 'v route_match) \<Rightarrow> nat \<Rightarrow> (string \<Rightarrow> 'v nested_result) list \<Rightarrow> string \<Rightarrow> 'v nested_result" where
  "first_match wrap k [] path = Inr (None, path)"
| "first_match wrap k (f # fs) path =
     (case f path of
        Inl e \<Rightarrow> Inl e
      | Inr (Some (i, m), r) \<Rightarrow> Inr (Some (i, wrap k m), r)
      | Inr (None, r) \<Rightarrow> first_match wrap (Suc k) fs path)"

text \<open>
  The function \<open>inner\<close> of \<open>NestedRoute::match_nested\<close>: the children are matched against
  what the segments left, or, when the segments are optional and that fails, against the
  whole path, in which case the parameters are parsed again from the part before the child.
\<close>

definition nested_inner ::
  "bool \<Rightarrow> string \<Rightarrow> string \<Rightarrow> (string \<Rightarrow> match_result) \<Rightarrow> (string \<Rightarrow> 'v nested_result) option \<Rightarrow> params
     \<Rightarrow> ('v route_match option \<times> string \<times> params) option result" where
  "nested_inner this_was_optional path rest test children ps =
     (let chosen =
        (case children of
           None \<Rightarrow> Inr (Some (None, rest, False))
         | Some f \<Rightarrow>
             (case f rest of
                Inl e \<Rightarrow> Inl e
              | Inr (Some (i, child), r) \<Rightarrow> Inr (Some (Some child, r, False))
              | Inr (None, r) \<Rightarrow>
                  if this_was_optional
                  then (case f path of
                          Inl e \<Rightarrow> Inl e
                        | Inr (Some (i, child), r') \<Rightarrow> Inr (Some (Some child, r', True))
                        | Inr (None, r') \<Rightarrow> Inr None)
                  else Inr None))
      in case chosen of
           Inl e \<Rightarrow> Inl e
         | Inr None \<Rightarrow> Inr None
         | Inr (Some (child, r, was_optional_fallback)) \<Rightarrow>
             if complete r
             then let child_params = (case child of None \<Rightarrow> [] | Some c \<Rightarrow> to_params c)
                  in if was_optional_fallback
                     then let m = (case child of None \<Rightarrow> [] | Some c \<Rightarrow> as_matched c)
                          in (case test (trim_end_matches (m @ r) path) of
                                Inl e \<Rightarrow> Inl e
                              | Inr None \<Rightarrow> Inr None
                              | Inr (Some p) \<Rightarrow> Inr (Some (child, r, params p @ child_params)))
                     else Inr (Some (child, r, ps @ child_params))
             else Inr None)"

fun match_nested :: "'v routes \<Rightarrow> string \<Rightarrow> 'v nested_result" where
  "match_nested UnitRoute path = Inr (Some (0, UnitMatch), path)"
| "match_nested (NestedRoute i segs children view ms mode) path =
     (case seg_test segs path of
        Inl e \<Rightarrow> Inl e
      | Inr None \<Rightarrow> Inr (None, path)
      | Inr (Some p) \<Rightarrow>
          (case nested_inner (optional_seg segs) path (remaining p) (seg_test segs)
                  (map_option match_nested children) (params p) of
             Inl e \<Rightarrow> Inl e
           | Inr None \<Rightarrow> Inr (None, path)
           | Inr (Some (child, r, ps)) \<Rightarrow> Inr (Some (i, NestedMatch i (matched p) ps child view), r)))"
| "match_nested (OneOf rs) path =
     (case rs of
        [r] \<Rightarrow> match_nested r path
      | _ \<Rightarrow> first_match EitherMatch 0 (map match_nested rs) path)"
| "match_nested (ListOf rs) path = first_match (\<lambda>k m. m) 0 (map match_nested rs) path"

fun optional_routes :: "'v routes \<Rightarrow> bool" where
  "optional_routes UnitRoute = False"
| "optional_routes (NestedRoute i segs children view ms mode) =
     (optional_seg segs \<and> (case children of None \<Rightarrow> True | Some c \<Rightarrow> optional_routes c))"
| "optional_routes (OneOf rs) = (\<forall>r\<in>set rs. optional_routes r)"
| "optional_routes (ListOf rs) = (\<forall>r\<in>set rs. optional_routes r)"

subsection \<open>Listing the routes\<close>

definition mode_regenerate :: "ssr_mode \<Rightarrow> nat list" where
  "mode_regenerate mode =
     (case mode of StaticMode r \<Rightarrow> (case regenerate r of None \<Rightarrow> [] | Some f \<Rightarrow> [f]) | _ \<Rightarrow> [])"

fun generate_routes :: "'v routes \<Rightarrow> generated_route list" where
  "generate_routes UnitRoute =
     [\<lparr>segments = [PUnit], ssr_mode = OutOfOrder, methods = {}, regenerates = []\<rparr>]"
| "generate_routes (NestedRoute i segs children view ms mode) =
     (let segment_routes = generate_path segs [] in
      case children of
        None \<Rightarrow> [\<lparr>segments = segment_routes, ssr_mode = mode, methods = ms, regenerates = mode_regenerate mode\<rparr>]
      | Some c \<Rightarrow>
          map (\<lambda>child.
             \<lparr>segments = segment_routes @ segments child,
              ssr_mode = (if ssr_gt (ssr_mode child) mode then ssr_mode child else mode),
              methods = ms \<union> methods child,
              regenerates = mode_regenerate mode @ regenerates child\<rparr>) (generate_routes c))"
| "generate_routes (OneOf rs) = concat (map generate_routes rs)"
| "generate_routes (ListOf rs) = concat (map generate_routes rs)"

subsection \<open>Route definitions with a base path\<close>

record 'v route_defs =
  base :: "string option"
  children :: "'v routes"

definition trim_matches :: "char \<Rightarrow> string \<Rightarrow> string" where
  "trim_matches c s = rev (dropWhile (\<lambda>x. x = c) (rev (dropWhile (\<lambda>x. x = c) s)))"

definition trim_start_matches :: "char \<Rightarrow> string \<Rightarrow> string" where
  "trim_start_matches c s = dropWhile (\<lambda>x. x = c) s"

definition strip_prefix :: "string \<Rightarrow> string \<Rightarrow> string option" where
  "strip_prefix pre s = (if take (length pre) s = pre then Some (drop (length pre) s) else None)"

definition strip_base :: "string option \<Rightarrow> string \<Rightarrow> string option" where
  "strip_base b path =
     (case b of
        None \<Rightarrow> Some path
      | Some b' \<Rightarrow>
          let b' = trim_matches slash b'
          in if b' = [] then Some path
             else (case strip_prefix b' (trim_start_matches slash path) of
                     None \<Rightarrow> None
                   | Some rest \<Rightarrow> if rest = [] \<or> starts_with rest slash then Some rest else None))"

definition match_route :: "'v route_defs \<Rightarrow> string \<Rightarrow> 'v route_match option result" where
  "match_route defs path =
     (case strip_base (base defs) path of
        None \<Rightarrow> Inr None
      | Some path \<Rightarrow>
          (case match_nested (children defs) path of
             Inl e \<Rightarrow> Inl e
           | Inr (None, r) \<Rightarrow> Inr None
           | Inr (Some (i, m), r) \<Rightarrow> Inr (if complete r then Some m else None)))"

subsection \<open>Identifiers and priority\<close>

lemma first_match_first:
  assumes "first_match wrap k fs path = Inr (Some (i, m), r)"
  shows "\<exists>j m'. j < length fs \<and> (fs ! j) path = Inr (Some (i, m'), r) \<and> m = wrap (k + j) m' \<and>
    (\<forall>l<j. \<exists>r'. (fs ! l) path = Inr (None, r'))"
  using assms
proof (induction fs arbitrary: k)
  case (Cons f fs)
  consider (here) m' where "f path = Inr (Some (i, m'), r)" "m = wrap k m'"
    | (later) r' where "f path = Inr (None, r')" "first_match wrap (Suc k) fs path = Inr (Some (i, m), r)"
    using Cons.prems by (auto split: sum.splits option.splits prod.splits)
  then show ?case
  proof cases
    case here
    then show ?thesis by (intro exI [of _ 0] exI [of _ m']) simp
  next
    case later
    then obtain j m' where j: "j < length fs" "(fs ! j) path = Inr (Some (i, m'), r)" "m = wrap (Suc k + j) m'"
      "\<forall>l<j. \<exists>r'. (fs ! l) path = Inr (None, r')"
      using Cons.IH by blast
    then show ?thesis
      using later(1) by (intro exI [of _ "Suc j"] exI [of _ m']) (auto simp: less_Suc_eq_0_disj)
  qed
qed simp

lemma match_nested_OneOf:
  "(\<nexists>x. rs = [x]) \<Longrightarrow> match_nested (OneOf rs) path = first_match EitherMatch 0 (map match_nested rs) path"
  by (auto simp del: first_match.simps split: list.split)

lemma match_nested_id: "match_nested rs path = Inr (Some (i, m), r) \<Longrightarrow> as_id m = i"
proof (induction rs arbitrary: path i m r)
  case (OneOf rs)
  show ?case
  proof (cases "\<exists>x. rs = [x]")
    case True
    then show ?thesis using OneOf by auto
  next
    case False
    then have "first_match EitherMatch 0 (map match_nested rs) path = Inr (Some (i, m), r)"
      using OneOf.prems match_nested_OneOf by metis
    from first_match_first [OF this] show ?thesis using OneOf.IH by auto (metis nth_mem)
  qed
next
  case (ListOf rs)
  then have "first_match (\<lambda>k m. m) 0 (map match_nested rs) path = Inr (Some (i, m), r)" by simp
  from first_match_first [OF this] show ?case using ListOf.IH by auto (metis nth_mem)
qed (auto split: sum.splits option.splits prod.splits)

subsection \<open>Matching returns\<close>

text \<open>
  What a nested route relies on in its segments: at the start of a segment the test
  returns, and what is left of the path is a suffix that starts a segment. Splitting
  segments do that, and so does the static segment \<open>/\<close> on its own.
\<close>

locale returning_segment =
  fixes test :: "string \<Rightarrow> match_result"
  assumes returns: "str_ok p \<Longrightarrow> at_segment p \<Longrightarrow>
    \<exists>m. test p = Inr m \<and> (\<forall>x. m = Some x \<longrightarrow> at_segment (remaining x) \<and> (\<exists>c. p = c @ remaining x))"
begin

lemma cases_of:
  assumes "str_ok p" "at_segment p"
  obtains "test p = Inr None"
  | m where "test p = Inr (Some m)" "at_segment (remaining m)" "str_ok (remaining m)"
proof -
  obtain m where m: "test p = Inr m"
    "\<forall>x. m = Some x \<longrightarrow> at_segment (remaining x) \<and> (\<exists>c. p = c @ remaining x)"
    using returns [OF assms] by blast
  show thesis
  proof (cases m)
    case (Some x)
    with m(2) obtain c where "at_segment (remaining x)" "p = c @ remaining x" by blast
    then show ?thesis using that(2) m(1) Some str_ok_suffix assms(1) by blast
  qed (use m that(1) in simp)
qed

end

sublocale splitting_segment \<subseteq> returning_segment test
proof
  fix p assume p: "str_ok p" "at_segment p"
  show "\<exists>m. test p = Inr m \<and> (\<forall>x. m = Some x \<longrightarrow> at_segment (remaining x) \<and> (\<exists>c. p = c @ remaining x))"
    by (cases rule: result [OF p]) auto
qed

context splitting_segment
begin

lemma is_returning: "returning_segment test"
  by unfold_locales

end

lemma suffix_drop [simp]: "\<exists>c. p = c @ drop n p"
  by (metis append_take_drop_id)

interpretation static: returning_segment "static_test s"
  by unfold_locales (auto simp: static_test_spec static_spec_def Let_def
      split: if_splits)

text \<open>Routes whose tuples of segments contain no static segment \<open>/\<close>.\<close>

fun root_safe :: "segment \<Rightarrow> bool" where
  "root_safe (StaticSegment s) = True"
| "root_safe s = no_root s"

fun routes_safe :: "'v routes \<Rightarrow> bool" where
  "routes_safe UnitRoute = True"
| "routes_safe (NestedRoute i segs sub view ms mode) =
     (root_safe segs \<and> (case sub of None \<Rightarrow> True | Some c \<Rightarrow> routes_safe c))"
| "routes_safe (OneOf rs) = (\<forall>r\<in>set rs. routes_safe r)"
| "routes_safe (ListOf rs) = (\<forall>r\<in>set rs. routes_safe r)"

lemma returning_seg_test:
  assumes "root_safe s"
  shows "returning_segment (seg_test s)"
proof (cases "\<exists>x. s = StaticSegment x")
  case True
  then show ?thesis using static.returning_segment_axioms by auto
next
  case False
  then have "no_root s" using assms by (cases s) auto
  then show ?thesis by (intro splitting_segment.is_returning splitting_seg_test)
qed

lemma trim_end_prefix: "\<exists>n. trim_end_matches pat s = take n s"
proof (induction pat s rule: trim_end_matches.induct)
  case (1 pat s)
  show ?case
  proof (cases "pat \<noteq> [] \<and> length pat \<le> length s \<and> drop (length s - length pat) s = pat")
    case True
    then have "trim_end_matches pat s = trim_end_matches pat (take (length s - length pat) s)"
      by (subst trim_end_matches.simps) auto
    then show ?thesis using "1.IH" [OF True] by (auto simp: min_def split: if_splits)
  next
    case False
    then have "trim_end_matches pat s = s" by (subst trim_end_matches.simps) auto
    then show ?thesis by (intro exI [of _ "length s"]) simp
  qed
qed

lemma str_ok_after_take: "str_ok_after b s \<Longrightarrow> str_ok_after b (take n s)"
  by (induction s arbitrary: b n) (auto simp: take_Cons' )

lemma trim_end_ok:
  assumes "str_ok s" "at_segment s"
  shows "str_ok (trim_end_matches pat s)" "at_segment (trim_end_matches pat s)"
proof -
  obtain n where n: "trim_end_matches pat s = take n s" using trim_end_prefix by blast
  show "str_ok (trim_end_matches pat s)" using assms(1) by (simp add: n str_ok_def str_ok_after_take)
  show "at_segment (trim_end_matches pat s)" unfolding n using assms(2) by (cases s; cases n) auto
qed

lemma nested_inner_returns:
  assumes "returning_segment test" "str_ok path" "at_segment path" "str_ok rest" "at_segment rest"
    and "\<And>f p. sub = Some f \<Longrightarrow> str_ok p \<Longrightarrow> at_segment p \<Longrightarrow> \<exists>x. f p = Inr x"
  shows "\<exists>x. nested_inner opt path rest test sub ps = Inr x"
proof -
  have t: "\<exists>x. test (trim_end_matches pat path) = Inr x" for pat
    using returning_segment.returns [OF assms(1) trim_end_ok [OF assms(2,3)]] by blast
  show ?thesis
  proof (cases sub)
    case (Some f)
    obtain x where "f rest = Inr x" using assms(4-6) Some by blast
    moreover obtain y where "f path = Inr y" using assms(2,3,6) Some by blast
    ultimately show ?thesis using t Some
      by (cases x; cases y) (auto simp: nested_inner_def Let_def split: option.splits sum.splits; metis Inl_Inr_False)
  qed (simp add: nested_inner_def Let_def)
qed

lemma first_match_returns: "(\<And>f. f \<in> set fs \<Longrightarrow> \<exists>x. f path = Inr x) \<Longrightarrow> \<exists>x. first_match wrap k fs path = Inr x"
proof (induction fs arbitrary: k)
  case (Cons f fs)
  obtain m r where "f path = Inr (m, r)" using Cons.prems by fastforce
  then show ?case using Cons by (auto split: option.split)
qed simp

lemma match_nested_returns:
  assumes "routes_safe rs" "str_ok path" "at_segment path"
  shows "\<exists>x. match_nested rs path = Inr x"
  using assms
proof (induction rs arbitrary: path)
  case (NestedRoute i segs sub view ms mode)
  have seg: "returning_segment (seg_test segs)" using NestedRoute.prems(1) by (simp add: returning_seg_test)
  show ?case
  proof (cases rule: returning_segment.cases_of [OF seg NestedRoute.prems(2,3), case_names fails matches])
    case (matches m)
    have "\<exists>x. nested_inner (optional_seg segs) path (remaining m) (seg_test segs)
        (map_option match_nested sub) (params m) = Inr x"
      by (rule nested_inner_returns [OF seg]) (use NestedRoute matches in auto)
    with matches(1) show ?thesis by (auto split: option.split)
  qed simp
next
  case (OneOf rs)
  then have "\<exists>x. f path = Inr x" if "f \<in> set (map match_nested rs)" for f using that by auto
  then have "\<exists>x. first_match EitherMatch 0 (map match_nested rs) path = Inr x" by (rule first_match_returns)
  then show ?case using OneOf match_nested_OneOf [of rs path] by (cases "\<exists>x. rs = [x]") auto
next
  case (ListOf rs)
  then have "\<exists>x. f path = Inr x" if "f \<in> set (map match_nested rs)" for f using that by auto
  then have "\<exists>x. first_match (\<lambda>k m. m) 0 (map match_nested rs) path = Inr x" by (rule first_match_returns)
  then show ?case by simp
qed simp

subsection \<open>A match accounts for the whole path\<close>

fun full_matched :: "'v route_match \<Rightarrow> string" where
  "full_matched UnitMatch = []"
| "full_matched (NestedMatch i m ps c v) = m @ (case c of None \<Rightarrow> [] | Some c \<Rightarrow> full_matched c)"
| "full_matched (EitherMatch k m) = full_matched m"

text \<open>Trees without optional parameters and without the static segment \<open>/\<close>.\<close>

fun plain_routes :: "'v routes \<Rightarrow> bool" where
  "plain_routes UnitRoute = True"
| "plain_routes (NestedRoute i segs sub view ms mode) =
     (no_root segs \<and> \<not> optional_seg segs \<and> (case sub of None \<Rightarrow> True | Some c \<Rightarrow> plain_routes c))"
| "plain_routes (OneOf rs) = (\<forall>r\<in>set rs. plain_routes r)"
| "plain_routes (ListOf rs) = (\<forall>r\<in>set rs. plain_routes r)"

lemma match_nested_covers:
  assumes "plain_routes rs" "str_ok path" "at_segment path" "match_nested rs path = Inr (Some (i, m), r)"
  shows "full_matched m @ r = path"
  using assms
proof (induction rs arbitrary: path i m r)
  case (NestedRoute i' segs sub view ms mode)
  have seg: "splitting_segment (seg_test segs)" using NestedRoute.prems(1) by (simp add: splitting_seg_test)
  show ?case
  proof (cases rule: splitting_segment.result [OF seg NestedRoute.prems(2,3), case_names fails matches])
    case fails
    then show ?thesis using NestedRoute.prems(4) by simp
  next
    case (matches p)
    have opt: "\<not> optional_seg segs" using NestedRoute.prems(1) by simp
    obtain child ps where inner: "nested_inner False path (remaining p) (seg_test segs)
        (map_option match_nested sub) (params p) = Inr (Some (child, r, ps))"
      and m: "m = NestedMatch i' (matched p) ps child view"
      using NestedRoute.prems(4) matches(1) opt by (auto split: sum.splits option.splits prod.splits)
    have "(case child of None \<Rightarrow> [] | Some c \<Rightarrow> full_matched c) @ r = remaining p"
    proof (cases sub)
      case None
      then show ?thesis using inner by (auto simp: nested_inner_def Let_def split: if_splits)
    next
      case (Some c)
      then obtain j ch where ch: "match_nested c (remaining p) = Inr (Some (j, ch), r)" "child = Some ch"
        using inner by (auto simp: nested_inner_def Let_def split: sum.splits option.splits prod.splits if_splits)
      then show ?thesis using NestedRoute.IH [of c] NestedRoute.prems(1) Some matches(3,4) by auto
    qed
    then show ?thesis using matches(2) by (simp add: m)
  qed
next
  case (OneOf rs)
  show ?case
  proof (cases "\<exists>x. rs = [x]")
    case True
    then show ?thesis using OneOf by auto
  next
    case False
    then have "first_match EitherMatch 0 (map match_nested rs) path = Inr (Some (i, m), r)"
      using OneOf.prems(4) match_nested_OneOf by metis
    from first_match_first [OF this] show ?thesis
      using OneOf.IH [OF nth_mem _ OneOf.prems(2,3)] OneOf.prems(1) by auto
  qed
next
  case (ListOf rs)
  then have "first_match (\<lambda>k m. m) 0 (map match_nested rs) path = Inr (Some (i, m), r)" by simp
  from first_match_first [OF this] show ?case
    using ListOf.IH [OF nth_mem _ ListOf.prems(2,3)] ListOf.prems(1) by auto
qed auto

subsection \<open>Modes of the generated routes\<close>

text \<open>The modes on the way from the root of the tree to each leaf.\<close>

fun route_modes :: "'v routes \<Rightarrow> ssr_mode list list" where
  "route_modes UnitRoute = [[OutOfOrder]]"
| "route_modes (NestedRoute i segs sub view ms mode) =
     (case sub of None \<Rightarrow> [[mode]] | Some c \<Rightarrow> map ((#) mode) (route_modes c))"
| "route_modes (OneOf rs) = concat (map route_modes rs)"
| "route_modes (ListOf rs) = concat (map route_modes rs)"

lemma route_modes_nonempty: "ch \<in> set (route_modes rs) \<Longrightarrow> ch \<noteq> []"
  by (induction rs arbitrary: ch) (auto split: option.splits)

lemma Max_chain:
  "ch \<in> set (route_modes rs) \<Longrightarrow> Max (insert (a::nat) (f ` set ch)) = max a (Max (f ` set ch))"
  using route_modes_nonempty [of ch rs] by (subst Max_insert) auto

lemma rank_choice: "ssr_rank (if ssr_gt a b then a else b) = max (ssr_rank b) (ssr_rank a)"
  by (simp add: ssr_gt_def)

lemma generated_mode:
  "map (\<lambda>g. ssr_rank (ssr_mode g)) (generate_routes rs) = map (\<lambda>ch. Max (ssr_rank ` set ch)) (route_modes rs)"
proof (induction rs)
  case (NestedRoute i segs sub view ms mode)
  show ?case
  proof (cases sub)
    case (Some c)
    have "map (\<lambda>g. max (ssr_rank mode) (ssr_rank (ssr_mode g))) (generate_routes c) =
        map (max (ssr_rank mode)) (map (\<lambda>g. ssr_rank (ssr_mode g)) (generate_routes c))" by simp
    also have "\<dots> = map (\<lambda>ch. Max (ssr_rank ` set (mode # ch))) (route_modes c)"
      using NestedRoute.IH [of c] Some by (simp add: Max_chain cong: map_cong)
    finally show ?thesis
      by (simp add: Some Let_def o_def rank_choice)
  qed simp
qed (simp_all add: map_concat o_def cong: map_cong)

end
