(* ===== verification/Route_Paths.thy ===== *)
theory Route_Paths
  imports Route_Nested
begin

text \<open>
  What the router does with paths besides matching them: expanding optional parameters
  (\<^verbatim>\<open>matching/path_segment.rs\<close>), resolving links (\<^verbatim>\<open>matching/resolve_path.rs\<close>),
  the paths of statically generated routes (\<^verbatim>\<open>static_routes.rs\<close>), parameter maps
  (\<^verbatim>\<open>params.rs\<close>), URLs and clicks on links (\<^verbatim>\<open>location/mod.rs\<close>,
  \<^verbatim>\<open>location/server.rs\<close>), all under \<^verbatim>\<open>src/router/src\<close>.
\<close>

subsection \<open>Expanding optional parameters\<close>

fun as_raw_str :: "path_segment \<Rightarrow> string" where
  "as_raw_str PUnit = []"
| "as_raw_str (PStatic i) = i"
| "as_raw_str (PParam i) = i"
| "as_raw_str (POptionalParam i) = i"
| "as_raw_str (PSplat i) = i"

text \<open>The inner loop: the first optional parameter, with its two variants.\<close>

fun split_optional :: "path_segment list \<Rightarrow> (path_segment list \<times> path_segment list) option" where
  "split_optional [] = None"
| "split_optional (POptionalParam n # ss) = Some (ss, PParam n # ss)"
| "split_optional (s # ss) = map_option (\<lambda>(u, p). (s # u, s # p)) (split_optional ss)"

fun count_optional :: "path_segment list \<Rightarrow> nat" where
  "count_optional [] = 0"
| "count_optional (POptionalParam n # ss) = Suc (count_optional ss)"
| "count_optional (s # ss) = count_optional ss"

definition stack_weight :: "path_segment list list \<Rightarrow> nat" where
  "stack_weight st = sum_list (map (\<lambda>ss. 2 ^ Suc (count_optional ss) - 1) st)"

lemma split_optional_count:
  "split_optional ss = Some (u, p) \<Longrightarrow>
     count_optional ss = Suc (count_optional u) \<and> count_optional p = count_optional u"
  by (induction ss arbitrary: u p rule: split_optional.induct) fastforce+

lemma weight_split:
  assumes "split_optional ss = Some (u, p)"
  shows "stack_weight (p # u # st) < stack_weight (ss # st)"
proof -
  have c: "count_optional ss = Suc (count_optional u)" "count_optional p = count_optional u"
    using split_optional_count [OF assms] by auto
  obtain x where "(2::nat) ^ count_optional u = Suc x" by (metis not0_implies_Suc power_not_zero zero_neq_numeral)
  then show ?thesis by (simp add: stack_weight_def c)
qed

lemma weight_pop: "stack_weight st < stack_weight (ss # st)"
proof -
  have "0 < (2::nat) ^ count_optional ss" by simp
  then have "0 < 2 * 2 ^ count_optional ss - (1::nat)" by linarith
  then show ?thesis by (simp add: stack_weight_def)
qed

text \<open>The outer loop over the stack \<open>segments\<close> (its top is the head of the list).\<close>

function expand_loop :: "path_segment list list \<Rightarrow> path_segment list list \<Rightarrow> path_segment list list" where
  "expand_loop [] checked = checked"
| "expand_loop (next_to_check # st) checked =
     (case split_optional next_to_check of
        Some (unit_variant, param_variant) \<Rightarrow> expand_loop (param_variant # unit_variant # st) checked
      | None \<Rightarrow> expand_loop st (checked @ [next_to_check]))"
  by pat_completeness auto
termination
  by (relation "measure (\<lambda>(st, checked). stack_weight st)") (auto simp: weight_split weight_pop)

definition expand_optionals :: "path_segment list \<Rightarrow> path_segment list list" where
  "expand_optionals self = expand_loop [self] []"

text \<open>Expansion from left to right, with the parameter present before it is absent.\<close>

fun expand_spec :: "path_segment list \<Rightarrow> path_segment list list" where
  "expand_spec [] = [[]]"
| "expand_spec (POptionalParam n # ss) = map ((#) (PParam n)) (expand_spec ss) @ expand_spec ss"
| "expand_spec (s # ss) = map ((#) s) (expand_spec ss)"

lemma expand_spec_split:
  "expand_spec ss = (case split_optional ss of None \<Rightarrow> [ss] | Some (u, p) \<Rightarrow> expand_spec p @ expand_spec u)"
  by (induction ss rule: split_optional.induct) (auto split: option.splits)

lemma expand_loop_spec: "expand_loop st checked = checked @ concat (map expand_spec st)"
proof (induction st checked rule: expand_loop.induct)
  case (2 ss st checked)
  then show ?case by (cases "split_optional ss") (auto simp: expand_spec_split [of ss])
qed simp

lemma expand_spec_plain: "ys \<in> set (expand_spec ss) \<Longrightarrow> count_optional ys = 0"
  by (induction ss arbitrary: ys rule: expand_spec.induct) auto

lemma expand_spec_length: "length (expand_spec ss) = 2 ^ count_optional ss"
  by (induction ss rule: expand_spec.induct) auto

subsection \<open>Resolving links\<close>

definition ascii_alphabetic :: "char \<Rightarrow> bool" where
  "ascii_alphabetic c \<longleftrightarrow>
     (let n = of_char c :: nat in 97 \<le> n \<and> n \<le> 122 \<or> 65 \<le> n \<and> n \<le> 90)"

definition ascii_digit :: "char \<Rightarrow> bool" where
  "ascii_digit c \<longleftrightarrow> (let n = of_char c :: nat in 48 \<le> n \<and> n \<le> 57)"

definition split_once :: "char \<Rightarrow> string \<Rightarrow> (string \<times> string) option" where
  "split_once c s =
     (if c \<in> set s then Some (takeWhile (\<lambda>x. x \<noteq> c) s, tl (dropWhile (\<lambda>x. x \<noteq> c) s)) else None)"

definition has_scheme :: "string \<Rightarrow> bool" where
  "has_scheme path \<longleftrightarrow>
     (if take 2 path = [slash, slash] then True
      else case split_once CHR '':'' path of
             None \<Rightarrow> False
           | Some (scheme, r) \<Rightarrow>
               (case scheme of
                  [] \<Rightarrow> False
                | first # chars \<Rightarrow> ascii_alphabetic first \<and>
                    list_all (\<lambda>c. ascii_alphabetic c \<or> ascii_digit c \<or> c \<in> {CHR ''+'', CHR ''-'', CHR ''.''}) chars))"

definition begins_with_query_or_hash :: "string \<Rightarrow> bool" where
  "begins_with_query_or_hash text \<longleftrightarrow>
     (case text of [] \<Rightarrow> False | c # cs \<Rightarrow> c = CHR ''#'' \<or> c = CHR ''?'')"

text \<open>All trailing slashes but one are cut off (\<open>saturating_sub\<close> is subtraction on \<open>nat\<close>).\<close>

definition normalize :: "string \<Rightarrow> bool \<Rightarrow> string" where
  "normalize path omit_slash =
     (let s = trim_start_matches slash path;
          trim_end = length (takeWhile (\<lambda>c. c = slash) (rev s)) - 1;
          s = take (length s - trim_end) s
      in if s = [] \<or> omit_slash \<or> begins_with_query_or_hash s then s else slash # s)"

definition resolve_path :: "string \<Rightarrow> string \<Rightarrow> string option \<Rightarrow> string" where
  "resolve_path base_str path from =
     (if has_scheme path then path
      else
        let base_path = normalize base_str False;
            result =
              (case from of
                 None \<Rightarrow> base_path
               | Some f \<Rightarrow>
                   let from_path = normalize f False
                   in if starts_with path slash then base_path
                      else if take (length base_path) from_path \<noteq> base_path then base_path @ from_path
                      else from_path);
            prefix = (if result = [] then [slash] else result)
        in prefix @ normalize path (result = []))"

subsection \<open>Paths of static routes\<close>

type_synonym static_params_map = "(string \<times> string list) list"

fun static_params_insert :: "string \<Rightarrow> string list \<Rightarrow> static_params_map \<Rightarrow> static_params_map" where
  "static_params_insert key val [] = [(key, val)]"
| "static_params_insert key val ((k, v) # rest) =
     (if k = key then (k, val) # rest else (k, v) # static_params_insert key val rest)"

definition static_params_get :: "static_params_map \<Rightarrow> string \<Rightarrow> string list option" where
  "static_params_get m key = map_of m key"

definition push_value :: "string \<Rightarrow> string \<Rightarrow> string" where
  "push_value path val = (if starts_with val slash then path @ val else path @ slash # val)"

fun into_paths_step :: "static_params_map option \<Rightarrow> path_segment \<Rightarrow> string list \<Rightarrow> string list" where
  "into_paths_step ps PUnit paths = paths"
| "into_paths_step ps (PStatic s) paths =
     map (\<lambda>p. if starts_with s slash \<or> s = [] then p @ s else p @ slash # s) paths"
| "into_paths_step ps (PParam name) paths =
     (case ps of
        None \<Rightarrow> []
      | Some m \<Rightarrow> concat (map (\<lambda>p. case static_params_get m name of None \<Rightarrow> [] | Some vs \<Rightarrow> map (push_value p) vs) paths))"
| "into_paths_step ps (PSplat name) paths =
     (case ps of
        None \<Rightarrow> []
      | Some m \<Rightarrow> concat (map (\<lambda>p. case static_params_get m name of None \<Rightarrow> [] | Some vs \<Rightarrow> map (push_value p) vs) paths))"
| "into_paths_step ps (POptionalParam name) paths =
     concat (map (\<lambda>p. p # (case Option.bind ps (\<lambda>m. static_params_get m name) of
                             None \<Rightarrow> [] | Some vs \<Rightarrow> map (push_value p) vs)) paths)"

definition into_paths :: "path_segment list \<Rightarrow> static_params_map option \<Rightarrow> string list" where
  "into_paths segs ps = fold (into_paths_step ps) segs [[]]"

subsection \<open>Parameter maps\<close>

text \<open>Percent-decoding and encoding are the browser's or those of \<open>percent_encoding\<close>.\<close>

type_synonym params_map = "(string \<times> string list) list"

fun insert_decoded :: "string \<Rightarrow> string \<Rightarrow> params_map \<Rightarrow> params_map" where
  "insert_decoded key val [] = [(key, [val])]"
| "insert_decoded key val ((k, vs) # rest) =
     (if k = key then (k, vs @ [val]) # rest else (k, vs) # insert_decoded key val rest)"

definition params_insert :: "(string \<Rightarrow> string) \<Rightarrow> string \<Rightarrow> string \<Rightarrow> params_map \<Rightarrow> params_map" where
  "params_insert unescape key val self = insert_decoded key (unescape val) self"

fun replace_decoded :: "string \<Rightarrow> string \<Rightarrow> params_map \<Rightarrow> params_map" where
  "replace_decoded key val [] = [(key, [val])]"
| "replace_decoded key val ((k, vs) # rest) =
     (if k = key then (k, [val]) # rest else (k, vs) # replace_decoded key val rest)"

definition params_replace :: "(string \<Rightarrow> string) \<Rightarrow> string \<Rightarrow> string \<Rightarrow> params_map \<Rightarrow> params_map" where
  "params_replace unescape key val self = replace_decoded key (unescape val) self"

definition get_all :: "params_map \<Rightarrow> string \<Rightarrow> string list option" where
  "get_all self key = map_of self key"

fun get_str :: "params_map \<Rightarrow> string \<Rightarrow> string option" where
  "get_str [] key = None"
| "get_str ((k, vs) # rest) key =
     (if k = key \<and> vs \<noteq> [] then Some (last vs) else get_str rest key)"

definition latest_values :: "params_map \<Rightarrow> (string \<times> string) list" where
  "latest_values self = map (\<lambda>(k, vs). (k, last vs)) (filter (\<lambda>(k, vs). vs \<noteq> []) self)"

text \<open>\<open>Vec::swap_remove\<close> moves the last entry into the gap.\<close>

definition swap_remove :: "'a list \<Rightarrow> nat \<Rightarrow> 'a list" where
  "swap_remove xs i = (if Suc i = length xs then butlast xs else (butlast xs)[i := last xs])"

definition params_remove :: "string \<Rightarrow> params_map \<Rightarrow> string list option \<times> params_map" where
  "params_remove key self =
     (case find_index (\<lambda>(k, vs). k = key) self of
        None \<Rightarrow> (None, self)
      | Some i \<Rightarrow> (Some (snd (self ! i)), swap_remove self i))"

definition to_query_string :: "(string \<Rightarrow> string) \<Rightarrow> params_map \<Rightarrow> string" where
  "to_query_string escape self =
     (if self = [] then []
      else let buf = CHR ''?'' # concat (map (\<lambda>(k, vs). concat (map (\<lambda>v. escape k @ CHR ''='' # escape v @ ''&'') vs)) self)
           in if length buf > 1 then butlast buf else buf)"

definition params_from_iter :: "(string \<Rightarrow> string) \<Rightarrow> (string \<times> string) list \<Rightarrow> params_map" where
  "params_from_iter unescape xs = fold (\<lambda>(k, v). params_insert unescape k v) xs []"

definition params_into_iter :: "params_map \<Rightarrow> (string \<times> string) list" where
  "params_into_iter self = concat (map (\<lambda>(k, vs). map (Pair k) vs) self)"

subsection \<open>URLs\<close>

record url =
  origin :: string
  path :: string
  search :: string
  search_params :: params_map
  hash :: string

definition to_full_path :: "url \<Rightarrow> string" where
  "to_full_path u =
     path u @ (if search u = [] then [] else CHR ''?'' # search u)
       @ (if hash u = [] then [] else if starts_with (hash u) CHR ''#'' then hash u else CHR ''#'' # hash u)"

text \<open>
  \<open>RequestUrl::parse\<close>: \<open>url::Url::parse\<close> and \<open>form_urlencoded::parse\<close> are parameters;
  an absolute URL is given by its origin, path, query and decoded query pairs.
\<close>

datatype url_error = RelativeUrlWithoutBase | OtherUrlError

type_synonym absolute_url = "string \<times> string \<times> string option \<times> (string \<times> string) list"

definition from_absolute :: "absolute_url \<Rightarrow> url" where
  "from_absolute a = (case a of (orig, p, q, pairs) \<Rightarrow>
     \<lparr>origin = orig, path = p, search = (case q of None \<Rightarrow> [] | Some q \<Rightarrow> q),
      search_params = fold (\<lambda>(k, v). insert_decoded k v) pairs [], hash = []\<rparr>)"

definition parse_relative :: "(string \<Rightarrow> (string \<times> string) list) \<Rightarrow> string \<Rightarrow> url" where
  "parse_relative form_parse req =
     (let (p, query) = (case split_once CHR ''?'' req of Some pq \<Rightarrow> pq | None \<Rightarrow> (req, []));
          p = (if p = [] then [slash] else if starts_with p slash then p else slash # p)
      in \<lparr>origin = [], path = p, search = query,
          search_params = fold (\<lambda>(k, v). insert_decoded k v) (form_parse query) [], hash = []\<rparr>)"

definition request_url_parse ::
  "(string \<Rightarrow> url_error + absolute_url) \<Rightarrow> (string \<Rightarrow> (string \<times> string) list) \<Rightarrow> string \<Rightarrow> url_error + url" where
  "request_url_parse url_parse form_parse req =
     (case url_parse req of
        Inr a \<Rightarrow> Inr (from_absolute a)
      | Inl RelativeUrlWithoutBase \<Rightarrow> Inr (parse_relative form_parse req)
      | Inl e \<Rightarrow> Inl e)"

subsection \<open>Clicks on links\<close>

text \<open>
  The event and the anchor element as the handler reads them; \<open>state_prop\<close> is the
  property \<open>state\<close> unless undefined. The result is an error of \<open>parse_with_base\<close>,
  nothing (the browser follows the link), or the navigation that replaces it.
\<close>

record 'js click_anchor =
  href :: string
  link_target :: string
  rel :: string
  attributes :: "string set"
  state_prop :: "'js option"
  replace_prop :: "bool option"

record 'js click =
  default_prevented :: bool
  button :: int
  meta_key :: bool
  alt_key :: bool
  ctrl_key :: bool
  shift_key :: bool
  anchor :: "'js click_anchor option"

record 'js location_change =
  change_value :: string
  change_replace :: bool
  change_scroll :: bool
  change_state :: "'js option"

fun split_words :: "string \<Rightarrow> string list" where
  "split_words [] = [[]]"
| "split_words (c # cs) =
     (if c = CHR '' '' \<or> c = CHR 0x09 then [] # split_words cs
      else case split_words cs of [] \<Rightarrow> [[c]] | w # ws \<Rightarrow> (c # w) # ws)"

definition handle_anchor_click ::
  "string option \<Rightarrow> (string \<Rightarrow> string \<Rightarrow> 'e + url) \<Rightarrow> (string \<Rightarrow> string) \<Rightarrow> string \<Rightarrow> 'js click
     \<Rightarrow> 'e + (url \<times> 'js location_change) option" where
  "handle_anchor_click router_base parse_with_base unescape_minimal orig ev =
     (let rbase = (case router_base of None \<Rightarrow> [] | Some b \<Rightarrow> b) in
      if default_prevented ev \<or> button ev \<noteq> 0 \<or> meta_key ev \<or> alt_key ev \<or> ctrl_key ev \<or> shift_key ev
      then Inr None
      else case anchor ev of
        None \<Rightarrow> Inr None
      | Some a \<Rightarrow>
          if link_target a \<noteq> [] \<or> href a = [] \<and> ''state'' \<notin> attributes a then Inr None
          else if ''download'' \<in> attributes a \<or> ''external'' \<in> set (split_words (rel a)) then Inr None
          else (case parse_with_base (href a) orig of
                  Inl e \<Rightarrow> Inl e
                | Inr u \<Rightarrow>
                    let path_name = unescape_minimal (path u)
                    in if origin u \<noteq> orig \<or>
                          rbase \<noteq> [] \<and> path_name \<noteq> [] \<and> take (length rbase) path_name \<noteq> rbase
                       then Inr None
                       else Inr (Some (u, \<lparr>change_value = path_name @ (if search u = [] then [] else ''?'') @ search u @ hash u,
                                  change_replace = (case replace_prop a of None \<Rightarrow> False | Some b \<Rightarrow> b),
                                  change_scroll = (''noscroll'' \<notin> attributes a \<and> ''data-noscroll'' \<notin> attributes a),
                                  change_state = state_prop a\<rparr>))))"

end
