(* ===== verification/Route_Props.thy ===== *)
theory Route_Props
  imports Route_Paths
begin

text \<open>The properties of the router: segments, nested routes, links, static paths, parameters.\<close>

subsection \<open>Segments\<close>

text \<open>
  C19: matching the segments of a route, tuples nested in any way and optional parameters
  included, never panics and never loses or repeats a byte: a match splits the path into
  what was matched and what remains, provided no static segment is \<open>/\<close> itself.
\<close>

theorem segments_split_the_path:
  assumes "no_root s" "str_ok p" "at_segment p"
  shows "\<exists>m. seg_test s p = Inr m \<and> (\<forall>x. m = Some x \<longrightarrow> matched x @ remaining x = p)"
  by (cases rule: splitting_segment.result [OF splitting_seg_test [OF assms(1)] assms(2,3)]) auto

theorem segments_split_the_path_witness:
  "\<exists>m. seg_test (Tuple [OptionalParamSegment ''a'', Tuple [StaticSegment ''b'', WildcardSegment ''c'']]) ''/b/x/y'' = Inr m \<and>
     (\<forall>x. m = Some x \<longrightarrow> matched x @ remaining x = ''/b/x/y'')"
  by (rule segments_split_the_path)
    (simp_all add: str_ok_def continuation_def ascii_def at_segment_def starts_with_def)

text \<open>
  The byte loop of a static segment accepts exactly the paths in which the segment,
  less a leading slash of its own, is followed by a slash or by nothing; the segments
  \<open>''\<close> and \<open>/\<close> match any path and consume nothing. It never slices inside a character.
\<close>

theorem static_segment_matches: "static_test segment p = Inr (static_spec segment p)"
  by (rule static_test_spec)

text \<open>
  C18: printing and matching are inverse. The path printed for a tuple of plain static
  segments and parameters is matched by that tuple, up to where the segments end, and
  the match returns the parameters that were printed.
\<close>

theorem rendered_path_matches:
  assumes "plain_route ss vs" "at_segment t" "str_ok (render_path ss vs @ t)"
  shows "seg_test (Tuple ss) (render_path ss vs @ t) =
    Inr (Some \<lparr>remaining = t, params = render_params ss vs, matched = render_path ss vs\<rparr>)"
  using assms by (rule render_matches)

theorem rendered_path_matches_witness:
  "seg_test (Tuple [StaticSegment ''post'', ParamSegment ''id'', StaticSegment ''edit'']) ''/post/42/edit/'' =
     Inr (Some \<lparr>remaining = ''/'', params = [(''id'', ''42'')], matched = ''/post/42/edit''\<rparr>)"
  using rendered_path_matches [of "[StaticSegment ''post'', ParamSegment ''id'', StaticSegment ''edit'']" "[''42'']" "''/''"]
  by (simp add: str_ok_def continuation_def ascii_def)

text \<open>
  A static segment \<open>/\<close> inside a tuple makes matching panic. It reports the slash as
  matched and leaves it in the path, so the next field matches it again, the lengths add
  up to more than the path, and slicing the path by their sum is out of range.
\<close>

theorem root_in_tuple_panics:
  assumes "v \<noteq> []" "slash \<notin> set v" "str_ok (slash # v)"
  shows "seg_test (Tuple [StaticSegment ''/'', ParamSegment name]) (slash # v) = Inl Panic"
proof -
  have "static_test ''/'' (slash # v) = Inr (Some \<lparr>remaining = slash # v, params = [], matched = ''/''\<rparr>)"
    by (simp add: static_test_spec static_spec_def)
  then show ?thesis
    using param_test_plain [of v "[]" name] assms
    by (simp add: tuple_test_def tuple_loop.simps slice_to_def is_char_boundary_def)
qed

theorem root_in_tuple_panics_witness:
  "seg_test (Tuple [StaticSegment ''/'', ParamSegment ''id'']) ''/x'' = Inl Panic"
  by (rule root_in_tuple_panics) (simp_all add: str_ok_def continuation_def ascii_def)

subsection \<open>Nested routes\<close>

lemma strip_base_ok:
  assumes "strip_base b p = Some p'" "str_ok p" "at_segment p"
  shows "str_ok p' \<and> at_segment p'"
proof (cases "\<exists>b'. b = Some b' \<and> trim_matches slash b' \<noteq> []")
  case True
  then obtain b' where b: "b = Some b'" "trim_matches slash b' \<noteq> []" by blast
  let ?b = "trim_matches slash b'" and ?t = "trim_start_matches slash p"
  have p': "take (length ?b) ?t = ?b" "p' = drop (length ?b) ?t" "at_segment p'"
    using assms(1) b by (auto simp: strip_base_def Let_def strip_prefix_def at_segment_def split: if_splits)
  have "p = takeWhile (\<lambda>x. x = slash) p @ take (length ?b) ?t @ p'"
    unfolding p'(2) trim_start_matches_def by simp
  then have "p = (takeWhile (\<lambda>x. x = slash) p @ take (length ?b) ?t) @ p'" by simp
  then show ?thesis using assms(2) p'(3) str_ok_suffix by metis
next
  case False
  then show ?thesis using assms by (auto simp: strip_base_def Let_def split: option.splits if_splits)
qed

text \<open>
  C28: matching a URL path (empty, or beginning with a slash) against route definitions always returns, whatever the base,
  the nesting, the alternatives and the optional parameters, as long as \<open>/\<close> occurs only as
  the sole segment of a route.
\<close>

theorem match_route_returns:
  assumes "routes_safe (children defs)" "str_ok p" "at_segment p"
  shows "\<exists>m. match_route defs p = Inr m"
proof (cases "strip_base (base defs) p")
  case (Some p')
  then obtain x r where "match_nested (children defs) p' = Inr (x, r)"
    using match_nested_returns [OF assms(1)] strip_base_ok [OF Some assms(2,3)] by fastforce
  then show ?thesis using Some by (simp add: match_route_def split: option.split)
qed (simp add: match_route_def)

definition blog_routes :: "nat route_defs" where
  "blog_routes =
     \<lparr>base = Some ''/app'',
      children = OneOf
        [NestedRoute 1 (StaticSegment ''/'') (Some (OneOf
           [NestedRoute 2 (StaticSegment '''') None 2 {MethodGet} OutOfOrder,
            NestedRoute 3 (StaticSegment ''about'') None 3 {MethodGet} Async])) 1 {MethodGet} InOrder,
         NestedRoute 4 (StaticSegment ''/blog'') (Some
           (NestedRoute 5 (Tuple [StaticSegment ''post'', ParamSegment ''id'']) None 5 {MethodGet} OutOfOrder)) 4
           {MethodGet} OutOfOrder]\<rparr>"

theorem match_route_returns_witness: "\<exists>m. match_route blog_routes ''/app/blog/post/42'' = Inr m"
  by (rule match_route_returns)
    (simp_all add: blog_routes_def str_ok_def continuation_def ascii_def at_segment_def starts_with_def)

text \<open>
  C17: a match accounts for the whole path. Without a base path, in a tree without optional
  parameters and without the static segment \<open>/\<close>, what the matched route and the chain of its children
  matched, one after the other, is the path up to at most a trailing slash.
\<close>

theorem match_accounts_for_path:
  assumes "plain_routes rs" "str_ok p" "at_segment p"
    and "match_route \<lparr>base = None, children = rs\<rparr> p = Inr (Some m)"
  shows "full_matched m = p \<or> full_matched m @ ''/'' = p"
proof -
  obtain i r where "match_nested rs p = Inr (Some (i, m), r)" "complete r"
    using assms(4) by (auto simp: match_route_def strip_base_def split: sum.splits option.splits prod.splits if_splits)
  then show ?thesis using match_nested_covers [OF assms(1-3)] by (auto simp: complete_def)
qed

definition user_routes :: "nat routes" where
  "user_routes =
     NestedRoute 1 (StaticSegment ''users'') (Some
       (NestedRoute 2 (ParamSegment ''id'') None 2 {MethodGet} OutOfOrder)) 1 {MethodGet} OutOfOrder"

lemma user_routes_match:
  "match_route \<lparr>base = None, children = user_routes\<rparr> ''/users/7/'' =
     Inr (Some (NestedMatch 1 ''/users'' [(''id'', ''7'')] (Some (NestedMatch 2 ''/7'' [(''id'', ''7'')] None 2)) 1))"
  by code_simp

theorem match_accounts_for_path_witness:
  "full_matched (NestedMatch 1 ''/users'' [(''id'', ''7'')] (Some (NestedMatch 2 ''/7'' [(''id'', ''7'')] None (2::nat))) 1) = ''/users/7/'' \<or>
   full_matched (NestedMatch 1 ''/users'' [(''id'', ''7'')] (Some (NestedMatch 2 ''/7'' [(''id'', ''7'')] None (2::nat))) 1) @ ''/'' = ''/users/7/''"
  by (rule match_accounts_for_path [of user_routes])
    (simp_all only: user_routes_match, simp_all add: user_routes_def str_ok_def continuation_def ascii_def)

text \<open>
  The first matching alternative wins and keeps its identity. When a tuple of two or
  more routes matches a path, the match is that of an alternative before which every
  other one failed, wrapped with its position, and the identifier returned is the
  alternative's own.
\<close>

lemma first_alternative_wins:
  assumes "match_nested (OneOf rs) p = Inr (Some (i, m), r)" "2 \<le> length rs"
  shows "\<exists>j m'. j < length rs \<and> m = EitherMatch j m' \<and> match_nested (rs ! j) p = Inr (Some (i, m'), r) \<and>
    as_id m = i \<and> (\<forall>l<j. \<exists>r'. match_nested (rs ! l) p = Inr (None, r'))"
proof -
  have "first_match EitherMatch 0 (map match_nested rs) p = Inr (Some (i, m), r)"
    using assms match_nested_OneOf [of rs p] by (cases "\<exists>x. rs = [x]") auto
  from first_match_first [OF this] obtain j m' where j: "j < length rs" "m = EitherMatch j m'"
      "match_nested (rs ! j) p = Inr (Some (i, m'), r)" "\<forall>l<j. \<exists>r'. match_nested (rs ! l) p = Inr (None, r')"
    by auto
  moreover have "as_id m = i" using assms(1) by (rule match_nested_id)
  ultimately show ?thesis by blast
qed

lemma two_routes_match:
  "match_nested (OneOf [NestedRoute 7 (StaticSegment ''property-api'') None (1::nat) {} OutOfOrder,
       NestedRoute 9 (StaticSegment ''property'') None 2 {} OutOfOrder]) ''/property'' =
     Inr (Some (9, EitherMatch 1 (NestedMatch 9 ''/property'' [] None 2)), [])"
  by code_simp

lemma trim_base:
  assumes "b \<noteq> []" "hd b \<noteq> slash" "last b \<noteq> slash"
  shows "trim_matches slash b = b" "trim_matches slash (slash # b) = b"
    "trim_start_matches slash (slash # b @ p) = b @ p"
proof -
  have "dropWhile (\<lambda>x. x = slash) (rev b) = rev b"
    using assms(1,3) by (cases b rule: rev_cases) auto
  with assms show "trim_matches slash b = b" "trim_matches slash (slash # b) = b"
    by (cases b; auto simp: trim_matches_def)+
  show "trim_start_matches slash (slash # b @ p) = b @ p"
    using assms(1,2) by (cases b) (auto simp: trim_start_matches_def)
qed

text \<open>
  A base path is a mount point. With a base \<open>b\<close> (given without surrounding slashes)
  the path \<open>/b\<close> followed by a segment boundary is matched as its rest would be without
  the base, and a path that continues \<open>/b\<close> inside the segment is not matched at all.
\<close>

theorem base_mounts_routes:
  assumes "b \<noteq> []" "hd b \<noteq> slash" "last b \<noteq> slash"
  shows "match_route \<lparr>base = Some b, children = rs\<rparr> (slash # b @ p) =
    (if at_segment p then match_route \<lparr>base = None, children = rs\<rparr> p else Inr None)"
  using trim_base [OF assms] assms(1)
  by (auto simp: match_route_def strip_base_def strip_prefix_def at_segment_def)

theorem base_mounts_routes_witness:
  "match_route \<lparr>base = Some ''app'', children = user_routes\<rparr> ''/application'' = Inr None"
  using base_mounts_routes [of "''app''" user_routes "''lication''"] by simp

text \<open>
  Listing the routes of a tree gives each leaf the most restrictive rendering mode
  on the way to it, in the order of the enumeration.
\<close>

theorem generated_routes_most_restrictive:
  "map (\<lambda>g. ssr_rank (ssr_mode g)) (generate_routes rs) = map (\<lambda>ch. Max (ssr_rank ` set ch)) (route_modes rs)"
  by (rule generated_mode)

subsection \<open>Paths and links\<close>

text \<open>
  C29: the stack loop of \<open>expand_optionals\<close> ends and produces, in order, every choice of
  leaving each optional parameter out or turning it into a parameter: two to the power of
  their number, none of them with an optional parameter left.
\<close>

theorem expand_optionals_correct:
  "expand_optionals ss = expand_spec ss \<and> length (expand_optionals ss) = 2 ^ count_optional ss \<and>
    list_all (\<lambda>ys. count_optional ys = 0) (expand_optionals ss)"
  using expand_spec_length [of ss] expand_spec_plain [of _ ss]
  by (simp add: expand_optionals_def expand_loop_spec list_all_iff)

lemma normalize_no_slash: "\<not> starts_with (normalize q True) slash"
proof -
  have "\<not> starts_with (take n (dropWhile (\<lambda>x. x = slash) q)) slash" for n
    by (induction q) (auto simp: take_Cons')
  then show ?thesis by (simp add: normalize_def Let_def trim_start_matches_def)
qed

lemma resolve_path_prefix:
  assumes "\<not> has_scheme p"
  shows "resolve_path b p from = slash # normalize p True \<or>
    (\<exists>q z. resolve_path b p from = normalize q False @ z \<and> normalize q False \<noteq> [])"
proof -
  define r where "r = (case from of
       None \<Rightarrow> normalize b False
     | Some f \<Rightarrow>
         let from_path = normalize f False
         in if starts_with p slash then normalize b False
            else if take (length (normalize b False)) from_path \<noteq> normalize b False
                 then normalize b False @ from_path else from_path)"
  have res: "resolve_path b p from = (if r = [] then [slash] else r) @ normalize p (r = [])"
    using assms by (simp add: resolve_path_def r_def Let_def)
  have "r = [] \<or> (\<exists>q z. r = normalize q False @ z \<and> normalize q False \<noteq> [])"
    by (cases "normalize b False = []") (auto simp: r_def Let_def split: option.split)
  then consider "r = []" | q z where "r = normalize q False @ z" "normalize q False \<noteq> []" by blast
  then show ?thesis
  proof cases
    case 2
    then have "resolve_path b p from = normalize q False @ (z @ normalize p False)" by (simp add: res)
    with 2(2) show ?thesis by blast
  qed (simp add: res)
qed

text \<open>
  Resolving a link never makes up a protocol-relative URL: unless the link itself has
  a scheme or starts with two slashes, the resolved path does not start with \<open>//\<close>,
  whatever the base and the page the link is on.
\<close>

theorem resolve_path_stays_on_host:
  assumes "\<not> has_scheme p"
  shows "take 2 (resolve_path b p from) \<noteq> [slash, slash]"
proof -
  define norm where "norm q = normalize q False" for q
  have norm: "norm q = [] \<or> \<not> starts_with (norm q) slash \<or> (\<exists>c cs. norm q = slash # c # cs \<and> c \<noteq> slash)" for q
    using normalize_no_slash [of q]
    by (cases "normalize q True") (auto simp: norm_def normalize_def Let_def split: if_splits)
  have head: "take 2 (norm q @ z) = [slash, slash] \<Longrightarrow> norm q = []" for q z
    using norm [of q] by (cases "norm q") auto
  have root: "take 2 (slash # normalize p True) \<noteq> [slash, slash]"
    using normalize_no_slash [of p] by (cases "normalize p True") auto
  from resolve_path_prefix [OF assms, of b "from"] show ?thesis
  proof (elim disjE exE conjE)
    fix q z assume "resolve_path b p from = normalize q False @ z" "normalize q False \<noteq> []"
    then show ?thesis using head [of q z] by (auto simp: norm_def)
  qed (use root in simp)
qed

theorem resolve_path_stays_on_host_witness:
  "take 2 (resolve_path ''//base'' ''evil.com'' (Some ''//'')) \<noteq> [slash, slash]"
  by (rule resolve_path_stays_on_host) (simp add: has_scheme_def split_once_def)

subsection \<open>Statically generated paths\<close>

fun plain_segments :: "static_params_map \<Rightarrow> segment list \<Rightarrow> bool" where
  "plain_segments m [] = True"
| "plain_segments m (StaticSegment s # ss) = (s \<noteq> [] \<and> slash \<notin> set s \<and> plain_segments m ss)"
| "plain_segments m (ParamSegment n # ss) =
     ((case static_params_get m n of None \<Rightarrow> True | Some vs \<Rightarrow> list_all (\<lambda>v. v \<noteq> [] \<and> slash \<notin> set v) vs) \<and>
      plain_segments m ss)"
| "plain_segments m _ = False"

lemma generated_paths_rendered:
  assumes "plain_segments m ss" "q \<in> set (fold (into_paths_step (Some m)) (fold generate_path ss acc) [[]])"
  shows "\<exists>p\<in>set (fold (into_paths_step (Some m)) acc [[]]). \<exists>vs. plain_route ss vs \<and> q = p @ render_path ss vs"
  using assms
proof (induction m ss arbitrary: acc rule: plain_segments.induct)
  case (2 m s ss)
  let ?X = "fold (into_paths_step (Some m)) acc [[]]"
  have s: "s \<noteq> []" "slash \<notin> set s" "\<not> starts_with s slash" using "2.prems"(1) by (cases s; auto)+
  obtain p vs where p: "p \<in> set (fold (into_paths_step (Some m)) (acc @ [PStatic s]) [[]])"
    "plain_route ss vs" "q = p @ render_path ss vs"
    using "2.IH" [of "acc @ [PStatic s]"] "2.prems" by (simp del: fold_append) blast
  then obtain p0 where "p0 \<in> set ?X" "p = p0 @ slash # s" using s by auto
  then show ?case using p s by (intro bexI [of _ p0] exI [of _ vs]) auto
next
  case (3 m n ss)
  let ?X = "fold (into_paths_step (Some m)) acc [[]]"
  obtain p vs where p: "p \<in> set (fold (into_paths_step (Some m)) (acc @ [PParam n]) [[]])"
    "plain_route ss vs" "q = p @ render_path ss vs"
    using "3.IH" [of "acc @ [PParam n]"] "3.prems" by (simp del: fold_append) blast
  then obtain p0 ws v where v: "p0 \<in> set ?X" "static_params_get m n = Some ws" "v \<in> set ws" "p = push_value p0 v"
    by (cases "static_params_get m n") auto
  then have "v \<noteq> []" "slash \<notin> set v" "\<not> starts_with v slash"
    using "3.prems"(1) by (cases v; auto simp: list_all_iff)+
  then show ?case using p v by (intro bexI [of _ p0] exI [of _ "v # vs"]) (auto simp: push_value_def)
qed auto

text \<open>
  Every path that static generation lists for a route of plain static segments and
  parameters is matched completely by that route, and the parameters found are the ones
  the path was generated from.
\<close>

theorem generated_static_paths_match:
  assumes "plain_segments m ss" "q \<in> set (into_paths (generate_path (Tuple ss) []) (Some m))" "str_ok q"
  shows "\<exists>vs. plain_route ss vs \<and>
    seg_test (Tuple ss) q = Inr (Some \<lparr>remaining = [], params = render_params ss vs, matched = q\<rparr>)"
proof -
  obtain vs where "plain_route ss vs" "q = render_path ss vs"
    using generated_paths_rendered [OF assms(1), of q "[]"] assms(2) by (auto simp: into_paths_def)
  then show ?thesis using render_matches [of ss vs "[]"] assms(3) by auto
qed

theorem generated_static_paths_match_witness:
  "\<exists>vs. plain_route [StaticSegment ''post'', ParamSegment ''slug''] vs \<and>
    seg_test (Tuple [StaticSegment ''post'', ParamSegment ''slug'']) ''/post/second'' =
      Inr (Some \<lparr>remaining = [], params = render_params [StaticSegment ''post'', ParamSegment ''slug''] vs,
        matched = ''/post/second''\<rparr>)"
  by (rule generated_static_paths_match [of "[(''slug'', [''first'', ''second''])]"])
    (simp_all add: static_params_get_def into_paths_def push_value_def str_ok_def continuation_def ascii_def)

subsection \<open>Parameter maps\<close>

text \<open>The keys are distinct and every key has a value.\<close>

definition params_wf :: "params_map \<Rightarrow> bool" where
  "params_wf m \<longleftrightarrow> distinct (map fst m) \<and> list_all (\<lambda>(k, vs). vs \<noteq> []) m"

text \<open>
  What the rest of the router relies on in a parameter map: a multimap in which values
  are added at the end, and whose latest value is what a lookup returns.
\<close>

locale multimap =
  fixes wf :: "'m \<Rightarrow> bool" and add :: "'k \<Rightarrow> 'v \<Rightarrow> 'm \<Rightarrow> 'm" and every :: "'m \<Rightarrow> 'k \<Rightarrow> 'v list option"
    and latest :: "'m \<Rightarrow> 'k \<Rightarrow> 'v option"
  assumes wf_add: "wf m \<Longrightarrow> wf (add k v m)"
    and every_add: "every (add k v m) j =
      (if j = k then Some (case every m k of None \<Rightarrow> [v] | Some vs \<Rightarrow> vs @ [v]) else every m j)"
    and latest_every: "wf m \<Longrightarrow> latest m j = map_option last (every m j)"
begin

lemma latest_add: "wf m \<Longrightarrow> latest (add k v m) j = (if j = k then Some v else latest m j)"
  using latest_every [of "add k v m" j] latest_every [of m j] wf_add
  by (auto simp: every_add split: option.split)

lemma every_fold:
  "every (fold (\<lambda>(k, v). add k v) xs m) j =
    (let ws = map snd (filter (\<lambda>x. fst x = j) xs)
     in case every m j of None \<Rightarrow> if ws = [] then None else Some ws | Some vs \<Rightarrow> Some (vs @ ws))"
proof (induction xs arbitrary: m)
  case (Cons x xs)
  obtain k v where "x = (k, v)" by (cases x)
  then show ?case using Cons by (cases "every m j"; cases "k = j") (auto simp: every_add Let_def)
qed (simp split: option.split)

end

lemma keys_insert_decoded:
  "set (map fst (insert_decoded k v m)) = insert k (set (map fst m))"
  by (induction k v m rule: insert_decoded.induct) auto

lemma wf_insert_decoded: "params_wf m \<Longrightarrow> params_wf (insert_decoded k v m)"
proof (induction k v m rule: insert_decoded.induct)
  case (2 key val k vs rest)
  have "k \<notin> fst ` set (insert_decoded key val rest)" if "k \<noteq> key"
    using keys_insert_decoded [of key val rest] that "2.prems" by (auto simp: params_wf_def)
  with 2 show ?case by (auto simp: params_wf_def)
qed (simp add: params_wf_def)

lemma get_str_get_all: "params_wf m \<Longrightarrow> get_str m k = map_option last (get_all m k)"
  by (induction m k rule: get_str.induct) (auto simp: params_wf_def get_all_def)

interpretation pm: multimap params_wf insert_decoded get_all get_str
proof
  show "params_wf (insert_decoded k v m)" if "params_wf m" for m k v using that by (rule wf_insert_decoded)
  show "get_all (insert_decoded k v m) j =
      (if j = k then Some (case get_all m k of None \<Rightarrow> [v] | Some vs \<Rightarrow> vs @ [v]) else get_all m j)" for k v m j
    by (induction k v m rule: insert_decoded.induct) (auto simp: get_all_def)
  show "get_str m j = map_option last (get_all m j)" if "params_wf m" for m j
    using that by (rule get_str_get_all)
qed

text \<open>
  Parsing a query into a parameter map keeps, for every key, all its values in the
  order of the query, and looking a key up returns the last of them; nothing else is
  in the map.
\<close>

lemma query_params_complete:
  "get_all (fold (\<lambda>(k, v). insert_decoded k v) pairs []) j =
     (let ws = map snd (filter (\<lambda>x. fst x = j) pairs) in if ws = [] then None else Some ws) \<and>
   get_str (fold (\<lambda>(k, v). insert_decoded k v) pairs []) j =
     (let ws = map snd (filter (\<lambda>x. fst x = j) pairs) in if ws = [] then None else Some (last ws))"
proof -
  let ?m = "fold (\<lambda>(k, v). insert_decoded k v) pairs []"
  have all: "get_all ?m j = (let ws = map snd (filter (\<lambda>x. fst x = j) pairs) in if ws = [] then None else Some ws)"
    using pm.every_fold [of pairs "[]" j] by (simp add: get_all_def)
  have "params_wf m \<Longrightarrow> params_wf (fold (\<lambda>(k, v). insert_decoded k v) pairs m)" for m
    by (induction pairs arbitrary: m) (auto simp: wf_insert_decoded)
  then have "params_wf ?m" by (simp add: params_wf_def)
  then show ?thesis using pm.latest_every [of ?m j] all by (simp add: Let_def)
qed

text \<open>
  A relative request URL cannot choose its origin: whatever it contains, two leading
  slashes included, the parsed URL has an empty origin and a path that starts with a
  slash; the path and the query are those of the request, separated at the first
  question mark.
\<close>

lemma relative_request_keeps_origin:
  assumes "url_parse req = Inl RelativeUrlWithoutBase"
  shows "\<exists>u. request_url_parse url_parse form_parse req = Inr u \<and> origin u = [] \<and> starts_with (path u) slash \<and>
    (case split_once CHR ''?'' req of
       None \<Rightarrow> search u = [] \<and> (path u = req \<or> path u = slash # req)
     | Some (p, q) \<Rightarrow> search u = q \<and> (path u = p \<or> path u = slash # p))"
  using assms by (auto simp: request_url_parse_def parse_relative_def Let_def split: option.split prod.split)

text \<open>
  A click on a link into a sibling of the base path is taken over by the router
  although no route can match it. The handler compares the path with the base as a
  string, so with the base \<open>/app\<close> a link to \<open>/application\<close> on the same origin is
  prevented from loading and navigated on the client, where \<open>match_route\<close> requires a
  segment boundary after the base and finds nothing.
\<close>

theorem click_leaves_base:
  assumes "b \<noteq> []" "hd b \<noteq> slash" "last b \<noteq> slash" "\<not> at_segment rest"
    and "parse (href a) orig = Inr u" "unescape (path u) = slash # b @ rest" "origin u = orig"
    and "href a \<noteq> []" "link_target a = []" "attributes a = {}" "rel a = []"
  shows "(\<exists>change. handle_anchor_click (Some (slash # b)) parse unescape orig
      \<lparr>default_prevented = False, button = 0, meta_key = False, alt_key = False, ctrl_key = False,
       shift_key = False, anchor = Some a\<rparr> = Inr (Some (u, change))) \<and>
    match_route \<lparr>base = Some (slash # b), children = rs\<rparr> (slash # b @ rest) = Inr None"
  using assms trim_base [OF assms(1-3)]
  by (auto simp: handle_anchor_click_def Let_def match_route_def strip_base_def strip_prefix_def at_segment_def)

theorem click_leaves_base_witness:
  "match_route \<lparr>base = Some ''/app'', children = user_routes\<rparr> ''/application'' = Inr None \<and>
   (\<exists>change. handle_anchor_click (Some ''/app'') (\<lambda>h orig. Inr \<lparr>origin = orig, path = h, search = [], search_params = [], hash = []\<rparr> :: unit + url)
      (\<lambda>p. p) ''https://x.org''
      \<lparr>default_prevented = False, button = 0, meta_key = False, alt_key = False, ctrl_key = False, shift_key = False,
       anchor = Some \<lparr>href = ''/application'', link_target = [], rel = [], attributes = {}, state_prop = None :: unit option, replace_prop = None\<rparr>\<rparr>
    = Inr (Some (\<lparr>origin = ''https://x.org'', path = ''/application'', search = [], search_params = [], hash = []\<rparr>, change)))"
  using click_leaves_base [of "''app''" "''lication''"
      "\<lambda>h orig. Inr \<lparr>origin = orig, path = h, search = [], search_params = [], hash = []\<rparr> :: unit + url"
      "\<lparr>href = ''/application'', link_target = [], rel = [], attributes = {}, state_prop = None :: unit option, replace_prop = None\<rparr>"
      "''https://x.org''" "\<lparr>origin = ''https://x.org'', path = ''/application'', search = [], search_params = [], hash = []\<rparr>"
      "\<lambda>p. p" user_routes]
  by simp

end
