(* ===== verification/Keyed_Diff.thy ===== *)
theory Keyed_Diff
  imports Leptos_Prelude "HOL-Library.Word"
begin

text \<open>
  Keyed lists (\<^verbatim>\<open>src/tachys/src/view/keyed.rs\<close>): the difference between the old and the
  new keys, and its application to the rendered items and to the DOM.

  A rendered item is the index its index setter last stored and the DOM node of its view;
  each view is taken to be one node. The DOM is the list of the nodes of the keyed list
  under its parent, in front of the marker; \<open>'n\<close> are nodes, \<open>'k\<close> keys, \<open>'t\<close> items.
\<close>

subsection \<open>The difference\<close>

datatype add_mode = Normal | Append

record diff_op_move =
  mv_from :: nat
  mv_len :: nat
  mv_to :: nat
  move_in_dom :: bool

record diff_cmds =
  removed :: "nat list"
  moved :: "diff_op_move list"
  items_to_move :: nat
  added :: "(nat \<times> add_mode) list"
  clear :: bool

definition no_diff :: diff_cmds where
  "no_diff = \<lparr>removed = [], moved = [], items_to_move = 0, added = [], clear = False\<rparr>"

type_synonym diff_state = "nat list \<times> diff_op_move list \<times> (nat \<times> add_mode) list"

text \<open>
  One turn of the loop of \<open>diff\<close>. The distances are computed as \<open>i32\<close>, which wraps in
  a release build.
\<close>

definition diff_step :: "'k list \<Rightarrow> 'k list \<Rightarrow> nat \<Rightarrow> diff_state \<Rightarrow> diff_state" where
  "diff_step from to index st =
     (case st of (rem, mov, add) \<Rightarrow>
        let from_item = get_index from index; to_item = get_index to index
        in if from_item = to_item then st
           else
             let rem = (case from_item of Some f \<Rightarrow> if f \<notin> set to then rem @ [index] else rem | None \<Rightarrow> rem);
                 add = (case to_item of Some t \<Rightarrow> if t \<notin> set from then add @ [(index, Normal)] else add | None \<Rightarrow> add);
                 mov = (case from_item of
                          None \<Rightarrow> mov
                        | Some f \<Rightarrow>
                            (case index_of to f of
                               None \<Rightarrow> mov
                             | Some j \<Rightarrow>
                                 let moves_forward_by = (of_nat j :: 32 word) - of_nat index;
                                     in_dom = (moves_forward_by \<noteq> of_nat (length add) - of_nat (length rem))
                                 in mov @ [\<lparr>mv_from = index, mv_len = 1, mv_to = j, move_in_dom = in_dom\<rparr>]))
             in (rem, mov, add))"

definition adjacent :: "diff_op_move \<Rightarrow> diff_op_move \<Rightarrow> bool" where
  "adjacent m p \<longleftrightarrow> mv_from m = mv_from p + mv_len p \<and> mv_to m = mv_to p + mv_len p \<and>
     move_in_dom m = move_in_dom p"

fun group_loop :: "diff_op_move option \<Rightarrow> diff_op_move list \<Rightarrow> diff_op_move list \<Rightarrow> diff_op_move list" where
  "group_loop prev [] new_moved = (case prev of None \<Rightarrow> new_moved | Some p \<Rightarrow> new_moved @ [p])"
| "group_loop prev (m # ms) new_moved =
     (case prev of
        None \<Rightarrow> group_loop (Some m) ms new_moved
      | Some p \<Rightarrow>
          if adjacent m p then group_loop (Some (p\<lparr>mv_len := mv_len p + 1\<rparr>)) ms new_moved
          else group_loop (Some m) ms (new_moved @ [p]))"

definition group_adjacent_moves :: "diff_op_move list \<Rightarrow> diff_op_move list" where
  "group_adjacent_moves ms = group_loop None ms []"

definition diff :: "'k list \<Rightarrow> 'k list \<Rightarrow> diff_cmds" where
  "diff from to =
     (if from = [] \<and> to = [] then no_diff
      else if to = [] then no_diff\<lparr>clear := True\<rparr>
      else if from = [] then no_diff\<lparr>added := map (\<lambda>at. (at, Append)) [0..<length to]\<rparr>
      else
        case fold (diff_step from to) [0..<max (length from) (length to)] ([], [], []) of
          (rem, mov, add) \<Rightarrow>
            let mov = group_adjacent_moves mov
            in \<lparr>removed = rem, moved = mov, items_to_move = sum_list (map mv_len mov), added = add, clear = False\<rparr>)"

text \<open>\<open>unpack_moves\<close>: the loop over \<open>i\<close> with its three iterators.\<close>

fun unpack_loop ::
  "nat list \<Rightarrow> nat list \<Rightarrow> (nat \<times> add_mode) list \<Rightarrow> diff_op_move list \<Rightarrow> diff_op_move list \<Rightarrow> (nat \<times> add_mode) list
     \<Rightarrow> diff_op_move list \<times> (nat \<times> add_mode) list" where
  "unpack_loop [] removes adds_it moves_it moves adds = (moves, adds)"
| "unpack_loop (i # rest) removes adds_it moves_it moves adds =
     (if removes \<noteq> [] \<and> i = hd removes then unpack_loop rest (tl removes) adds_it moves_it moves adds
      else case (adds_it, moves_it) of
        (a # adds_it', m # moves_it') \<Rightarrow>
          if fst a = i then unpack_loop rest removes adds_it' moves_it moves (adds @ [a])
          else unpack_loop rest removes adds_it
                 (if mv_len m - 1 = 0 then moves_it'
                  else m\<lparr>mv_len := mv_len m - 1, mv_from := mv_from m + 1, mv_to := mv_to m + 1\<rparr> # moves_it')
                 (moves @ [m\<lparr>mv_len := 1\<rparr>]) adds
      | (a # adds_it', []) \<Rightarrow> unpack_loop rest removes adds_it' [] moves (adds @ [a])
      | ([], m # moves_it') \<Rightarrow>
          unpack_loop rest removes []
            (if mv_len m - 1 = 0 then moves_it'
             else m\<lparr>mv_len := mv_len m - 1, mv_from := mv_from m + 1, mv_to := mv_to m + 1\<rparr> # moves_it')
            (moves @ [m\<lparr>mv_len := 1\<rparr>]) adds
      | ([], []) \<Rightarrow> (moves, adds))"

definition unpack_moves :: "diff_cmds \<Rightarrow> diff_op_move list \<times> (nat \<times> add_mode) list" where
  "unpack_moves d =
     unpack_loop [0..<items_to_move d + length (added d) + length (removed d)] (removed d) (added d) (moved d) [] []"

subsection \<open>Applying it\<close>

type_synonym 'n child = "nat \<times> 'n"

record 'n keyed_dom =
  slots :: "'n child option list"
  doc :: "'n list"

text \<open>\<open>insert_before_this\<close> moves a node that is in the document already.\<close>

definition insert_before :: "'n \<Rightarrow> 'n \<Rightarrow> 'n list \<Rightarrow> 'n list" where
  "insert_before ref n ns =
     (let ns' = filter (\<lambda>x. x \<noteq> n) ns
      in takeWhile (\<lambda>x. x \<noteq> ref) ns' @ n # dropWhile (\<lambda>x. x \<noteq> ref) ns')"

definition mount_at_marker :: "'n \<Rightarrow> 'n list \<Rightarrow> 'n list" where
  "mount_at_marker n ns = filter (\<lambda>x. x \<noteq> n) ns @ [n]"

definition unmount :: "'n \<Rightarrow> 'n list \<Rightarrow> 'n list" where
  "unmount n ns = filter (\<lambda>x. x \<noteq> n) ns"

fun next_mounted :: "'a option list \<Rightarrow> 'a option" where
  "next_mounted [] = None"
| "next_mounted (None # xs) = next_mounted xs"
| "next_mounted (Some x # xs) = Some x"

text \<open>The node is put in front of the closest later item that is mounted.\<close>

definition place :: "bool \<Rightarrow> nat \<Rightarrow> 'n \<Rightarrow> 'n keyed_dom \<Rightarrow> 'n list" where
  "place mounted at n s =
     (if mounted
      then (case next_mounted (drop at (slots s)) of
              Some (i, ref) \<Rightarrow> insert_before ref n (doc s)
            | None \<Rightarrow> mount_at_marker n (doc s))
      else doc s)"

definition apply_remove :: "nat \<Rightarrow> 'n keyed_dom \<Rightarrow> 'n keyed_dom result" where
  "apply_remove at s =
     (case get_index (slots s) at of
        Some (Some (i, n)) \<Rightarrow> Inr \<lparr>slots = (slots s)[at := None], doc = unmount n (doc s)\<rparr>
      | _ \<Rightarrow> Inl Panic)"

fun take_moved :: "diff_op_move list \<Rightarrow> 'n child option list \<Rightarrow> ('n child option list \<times> 'n child option list) result" where
  "take_moved [] ch = Inr ([], ch)"
| "take_moved (m # ms) ch =
     (case get_index ch (mv_from m) of
        None \<Rightarrow> Inl Panic
      | Some c \<Rightarrow>
          (case take_moved ms (ch[mv_from m := None]) of
             Inl e \<Rightarrow> Inl e
           | Inr (cs, ch') \<Rightarrow> Inr (c # cs, ch')))"

definition move_in_storage :: "diff_op_move \<times> 'n child option \<Rightarrow> 'n keyed_dom \<Rightarrow> 'n keyed_dom result" where
  "move_in_storage mc s =
     (case mc of (m, c) \<Rightarrow>
        if mv_to m < length (slots s)
        then Inr (s\<lparr>slots := (slots s)[mv_to m := map_option (\<lambda>(i, n). (mv_to m, n)) c]\<rparr>)
        else Inl Panic)"

definition move_in_document :: "bool \<Rightarrow> diff_op_move \<times> 'n child option \<Rightarrow> 'n keyed_dom \<Rightarrow> 'n keyed_dom result" where
  "move_in_document mounted mc s =
     (case mc of
        (m, None) \<Rightarrow> Inl Panic
      | (m, Some (i, n)) \<Rightarrow>
          if mv_to m < length (slots s)
          then Inr \<lparr>slots = (slots s)[mv_to m := Some (mv_to m, n)], doc = place mounted (mv_to m) n s\<rparr>
          else Inl Panic)"

definition apply_add :: "bool \<Rightarrow> (nat \<Rightarrow> 't \<Rightarrow> 'n) \<Rightarrow> 't list \<Rightarrow> nat \<times> add_mode \<Rightarrow> 'n keyed_dom \<Rightarrow> 'n keyed_dom result" where
  "apply_add mounted view_fn items am s =
     (case am of (at, mode) \<Rightarrow>
        (case get_index items at of
           None \<Rightarrow> Inl Panic
         | Some t \<Rightarrow>
             let n = view_fn at t
             in if at < length (slots s)
                then Inr \<lparr>slots = (slots s)[at := Some (at, n)],
                          doc = (case mode of Normal \<Rightarrow> place mounted at n s
                                 | Append \<Rightarrow> if mounted then mount_at_marker n (doc s) else doc s)\<rparr>
                else Inl Panic))"

text \<open>
  \<open>items[at].take().unwrap()\<close> takes each item once; the positions of the additions are
  distinct, so the items are a plain list here.
\<close>

definition apply_diff ::
  "bool \<Rightarrow> diff_cmds \<Rightarrow> (nat \<Rightarrow> 't \<Rightarrow> 'n) \<Rightarrow> 't list \<Rightarrow> 'n keyed_dom \<Rightarrow> 'n keyed_dom result" where
  "apply_diff mounted d view_fn items s =
     (let s1 = (if clear d
                then \<lparr>slots = [], doc = fold (\<lambda>c ns. case c of None \<Rightarrow> ns | Some (i, n) \<Rightarrow> unmount n ns) (slots s) (doc s)\<rparr>
                else s)
      in if clear d \<and> added d = [] then Inr s1
         else case foreach apply_remove (removed d) s1 of
           Inl e \<Rightarrow> Inl e
         | Inr s2 \<Rightarrow>
             (case unpack_moves d of (move_cmds, add_cmds) \<Rightarrow>
               (case take_moved move_cmds (slots s2) of
                  Inl e \<Rightarrow> Inl e
                | Inr (moved_children, ch) \<Rightarrow>
                    let s3 = s2\<lparr>slots := ch @ replicate (length (added d)) None\<rparr>;
                        cmds = zip move_cmds moved_children
                    in (case foreach move_in_storage (filter (\<lambda>(m, c). \<not> move_in_dom m) cmds) s3 of
                          Inl e \<Rightarrow> Inl e
                        | Inr s4 \<Rightarrow>
                            (case foreach (move_in_document mounted) (filter (\<lambda>(m, c). move_in_dom m) cmds) s4 of
                               Inl e \<Rightarrow> Inl e
                             | Inr s5 \<Rightarrow>
                                 (case foreach (apply_add mounted view_fn items) add_cmds s5 of
                                    Inl e \<Rightarrow> Inl e
                                  | Inr s6 \<Rightarrow> Inr (s6\<lparr>slots := filter (\<lambda>c. c \<noteq> None) (slots s6)\<rparr>)))))))"

record ('k, 'n) keyed_state =
  hashed_items :: "'k list"
  rendered :: "'n keyed_dom"
  mounted :: bool

definition keyed_build :: "('t \<Rightarrow> 'k) \<Rightarrow> (nat \<Rightarrow> 't \<Rightarrow> 'n) \<Rightarrow> 't list \<Rightarrow> ('k, 'n) keyed_state" where
  "keyed_build key_fn view_fn items =
     \<lparr>hashed_items = fold (\<lambda>t. index_insert (key_fn t)) items [],
      rendered = \<lparr>slots = map (\<lambda>(i, t). Some (i, view_fn i t)) (zip [0..<length items] items), doc = []\<rparr>,
      mounted = False\<rparr>"

definition keyed_mount :: "('k, 'n) keyed_state \<Rightarrow> ('k, 'n) keyed_state" where
  "keyed_mount s = s\<lparr>mounted := True,
     rendered := (rendered s)\<lparr>doc := fold (\<lambda>c ns. case c of None \<Rightarrow> ns | Some (i, n) \<Rightarrow> mount_at_marker n ns)
       (slots (rendered s)) (doc (rendered s))\<rparr>\<rparr>"

definition keyed_rebuild ::
  "('t \<Rightarrow> 'k) \<Rightarrow> (nat \<Rightarrow> 't \<Rightarrow> 'n) \<Rightarrow> 't list \<Rightarrow> ('k, 'n) keyed_state \<Rightarrow> ('k, 'n) keyed_state result" where
  "keyed_rebuild key_fn view_fn items s =
     (let new_hashed_items = fold (\<lambda>t. index_insert (key_fn t)) items []
      in case apply_diff (mounted s) (diff (hashed_items s) new_hashed_items) view_fn items (rendered s) of
           Inl e \<Rightarrow> Inl e
         | Inr r \<Rightarrow> Inr (s\<lparr>hashed_items := new_hashed_items, rendered := r\<rparr>))"

end
