(* ===== verification/Keyed_Correct.thy ===== *)
theory Keyed_Correct
  imports Keyed_Diff
begin

text \<open>
  Correctness of keyed lists: what the difference contains, that grouping and unpacking
  the moves loses none of them, what the rendered items and the document are after
  applying it.
\<close>

subsection \<open>What the difference contains\<close>

definition rem_upto :: "'k list \<Rightarrow> 'k list \<Rightarrow> nat \<Rightarrow> nat list" where
  "rem_upto F T n = filter (\<lambda>i. i < length F \<and> F ! i \<notin> set T) [0..<n]"

definition add_upto :: "'k list \<Rightarrow> 'k list \<Rightarrow> nat \<Rightarrow> nat list" where
  "add_upto F T n = filter (\<lambda>i. i < length T \<and> T ! i \<notin> set F) [0..<n]"

definition moves_at :: "'k list \<Rightarrow> 'k list \<Rightarrow> nat \<Rightarrow> bool" where
  "moves_at F T i \<longleftrightarrow> i < length F \<and> F ! i \<in> set T \<and> get_index T i \<noteq> Some (F ! i)"

definition the_move :: "'k list \<Rightarrow> 'k list \<Rightarrow> nat \<Rightarrow> diff_op_move" where
  "the_move F T i =
     (let j = the (index_of T (F ! i))
      in \<lparr>mv_from = i, mv_len = 1, mv_to = j,
          move_in_dom = ((of_nat j :: 32 word) - of_nat i \<noteq>
            of_nat (length (add_upto F T (Suc i))) - of_nat (length (rem_upto F T (Suc i))))\<rparr>)"

definition mov_upto :: "'k list \<Rightarrow> 'k list \<Rightarrow> nat \<Rightarrow> diff_op_move list" where
  "mov_upto F T n = map (the_move F T) (filter (moves_at F T) [0..<n])"

lemma diff_step_upto:
  "diff_step F T n (rem_upto F T n, mov_upto F T n, map (\<lambda>i. (i, Normal)) (add_upto F T n)) =
     (rem_upto F T (Suc n), mov_upto F T (Suc n), map (\<lambda>i. (i, Normal)) (add_upto F T (Suc n)))"
proof (cases "get_index F n = get_index T n")
  case True
  then have "\<not> (n < length F \<and> F ! n \<notin> set T)" "\<not> (n < length T \<and> T ! n \<notin> set F)" "\<not> moves_at F T n"
    by (auto simp: get_index_def moves_at_def split: if_splits) (metis nth_mem)
  then show ?thesis
    using True by (simp add: diff_step_def rem_upto_def add_upto_def mov_upto_def)
next
  case False
  have idx: "index_of T (F ! n) = None \<longleftrightarrow> F ! n \<notin> set T" by (rule index_of_None)
  have mv: "moves_at F T n \<longleftrightarrow> n < length F \<and> F ! n \<in> set T"
    using False by (auto simp: moves_at_def get_index_def)
  show ?thesis
    using False idx
    by (auto simp: diff_step_def rem_upto_def add_upto_def mov_upto_def mv the_move_def get_index_def Let_def
        split: option.splits)
qed

lemma diff_fold:
  "fold (diff_step F T) [0..<n] ([], [], []) =
     (rem_upto F T n, mov_upto F T n, map (\<lambda>i. (i, Normal)) (add_upto F T n))"
proof (induction n)
  case (Suc n)
  then show ?case using diff_step_upto by simp
qed (simp add: rem_upto_def add_upto_def mov_upto_def)

subsection \<open>Grouping and unpacking moves\<close>

definition expand_move :: "diff_op_move \<Rightarrow> diff_op_move list" where
  "expand_move m = map (\<lambda>k. m\<lparr>mv_len := 1, mv_from := mv_from m + k, mv_to := mv_to m + k\<rparr>) [0..<mv_len m]"

lemma expand_single: "mv_len m = 1 \<Longrightarrow> expand_move m = [m]"
  by (cases m) (simp add: expand_move_def)

lemma expand_snoc:
  assumes "adjacent m p" "mv_len m = 1"
  shows "expand_move (p\<lparr>mv_len := mv_len p + 1\<rparr>) = expand_move p @ [m]"
  using assms by (cases m; cases p) (auto simp: expand_move_def adjacent_def)

lemma expand_uncons:
  assumes "0 < mv_len m"
  shows "expand_move m = m\<lparr>mv_len := 1\<rparr> #
    (if mv_len m - 1 = 0 then []
     else expand_move (m\<lparr>mv_len := mv_len m - 1, mv_from := mv_from m + 1, mv_to := mv_to m + 1\<rparr>))"
proof -
  obtain k where k: "mv_len m = Suc k" using assms by (cases "mv_len m") auto
  show ?thesis
    unfolding expand_move_def k map_upt_Suc by (cases m) (auto simp: k)
qed

lemma group_loop_expand:
  assumes "\<forall>m\<in>set ms. mv_len m = 1"
  shows "concat (map expand_move (group_loop prev ms acc)) =
    concat (map expand_move acc) @ (case prev of None \<Rightarrow> [] | Some p \<Rightarrow> expand_move p) @ ms"
  using assms
  by (induction prev ms acc rule: group_loop.induct)
    (auto simp: expand_single expand_snoc [simplified] split: option.splits)

lemma group_loop_positive:
  assumes "\<forall>m\<in>set ms. 0 < mv_len m" "\<forall>m\<in>set acc. 0 < mv_len m" "case prev of None \<Rightarrow> True | Some p \<Rightarrow> 0 < mv_len p"
  shows "\<forall>m\<in>set (group_loop prev ms acc). 0 < mv_len m"
  using assms
  by (induction prev ms acc rule: group_loop.induct) (auto split: option.splits)

lemma expand_length: "length (concat (map expand_move ms)) = sum_list (map mv_len ms)"
  by (induction ms) (auto simp: expand_move_def)

lemma unpack_loop_all:
  assumes "\<forall>m\<in>set moves_it. 0 < mv_len m"
    and "sum_list (map mv_len moves_it) + length adds_it + length removes \<le> length is"
  shows "unpack_loop is removes adds_it moves_it moves adds =
    (moves @ concat (map expand_move moves_it), adds @ adds_it)"
  using assms
proof (induction "is" removes adds_it moves_it moves adds rule: unpack_loop.induct)
  case (1 removes adds_it moves_it moves adds)
  then show ?case by (cases moves_it) auto
next
  case (2 i rest removes adds_it moves_it moves adds)
  show ?case
  proof (cases "removes \<noteq> [] \<and> i = hd removes")
    case True
    then show ?thesis using 2 by (cases removes) auto
  next
    case False
    show ?thesis
    proof (cases moves_it)
      case Nil
      then show ?thesis using 2 False by (cases adds_it) auto
    next
      case (Cons m ms)
      have m: "0 < mv_len m" using "2.prems"(1) Cons by simp
      note e = expand_uncons [OF m]
      show ?thesis
        using 2 False Cons m by (cases adds_it; cases "mv_len m - 1 = 0") (auto simp: e)
    qed
  qed
qed

text \<open>So \<open>unpack_moves\<close>, after grouping, yields every move and every addition in order.\<close>

lemma unpack_diff:
  assumes "F \<noteq> []" "T \<noteq> []"
  defines "n \<equiv> max (length F) (length T)"
  shows "unpack_moves (diff F T) = (mov_upto F T n, map (\<lambda>i. (i, Normal)) (add_upto F T n))"
    and "removed (diff F T) = rem_upto F T n" "length (added (diff F T)) = length (add_upto F T n)"
    "clear (diff F T) = False"
proof -
  let ?g = "group_adjacent_moves (mov_upto F T n)" and ?adds = "map (\<lambda>i. (i, Normal)) (add_upto F T n)"
  have d: "diff F T = \<lparr>removed = rem_upto F T n, moved = ?g, items_to_move = sum_list (map mv_len ?g),
      added = ?adds, clear = False\<rparr>"
    using assms(1,2) by (simp add: diff_def diff_fold n_def Let_def)
  then show "removed (diff F T) = rem_upto F T n" "length (added (diff F T)) = length (add_upto F T n)"
    "clear (diff F T) = False" by simp_all
  have one: "\<forall>m\<in>set (mov_upto F T n). mv_len m = 1" by (auto simp: mov_upto_def the_move_def Let_def)
  then have pos: "\<forall>m\<in>set ?g. 0 < mv_len m"
    unfolding group_adjacent_moves_def by (intro group_loop_positive) auto
  have "concat (map expand_move ?g) = mov_upto F T n"
    unfolding group_adjacent_moves_def using group_loop_expand [OF one] by simp
  then show "unpack_moves (diff F T) = (mov_upto F T n, ?adds)"
    using unpack_loop_all [OF pos] by (simp add: unpack_moves_def d)
qed

subsection \<open>The rendered items\<close>

definition slots_inv :: "(nat \<Rightarrow> 'n) \<Rightarrow> nat \<Rightarrow> nat set \<Rightarrow> 'n child option list \<Rightarrow> bool" where
  "slots_inv node N P L \<longleftrightarrow> length L = N \<and> (\<forall>j<N. L ! j = (if j \<in> P then Some (j, node j) else None))"

lemma slots_inv_update:
  "slots_inv node N P L \<Longrightarrow> j < N \<Longrightarrow> slots_inv node N (insert j P) (L[j := Some (j, node j)])"
  by (auto simp: slots_inv_def nth_list_update)

lemma foreach_apply_remove:
  assumes "distinct ats" "\<forall>i\<in>set ats. i < length (slots s) \<and> slots s ! i = Some (i, old i)"
  shows "\<exists>h. foreach apply_remove ats s = Inr h \<and>
    slots h = map (\<lambda>i. if i \<in> set ats then None else slots s ! i) [0..<length (slots s)] \<and>
    doc h = filter (\<lambda>n. n \<notin> old ` set ats) (doc s)"
  using assms
proof (induction ats arbitrary: s)
  case Nil
  then show ?case by (auto simp: map_nth)
next
  case (Cons a ats)
  let ?s = "\<lparr>slots = (slots s)[a := None], doc = unmount (old a) (doc s)\<rparr>"
  have step: "apply_remove a s = Inr ?s"
    using Cons.prems(2) by (simp add: apply_remove_def get_index_def)
  have "\<forall>i\<in>set ats. i < length (slots ?s) \<and> slots ?s ! i = Some (i, old i)"
    using Cons.prems by (auto simp: nth_list_update)
  then obtain h where h: "foreach apply_remove ats ?s = Inr h"
    "slots h = map (\<lambda>i. if i \<in> set ats then None else slots ?s ! i) [0..<length (slots ?s)]"
    "doc h = filter (\<lambda>n. n \<notin> old ` set ats) (doc ?s)"
    using Cons.IH [of ?s] Cons.prems(1) by auto
  have "slots h = map (\<lambda>i. if i \<in> set (a # ats) then None else slots s ! i) [0..<length (slots s)]"
    unfolding h(2) using Cons.prems(2) by (auto simp: nth_list_update)
  moreover have "doc h = filter (\<lambda>n. n \<notin> old ` set (a # ats)) (doc s)"
    unfolding h(3) by (auto simp: unmount_def conj_commute intro: filter_cong)
  ultimately show ?case using step h(1) by auto
qed

lemma take_moved_all:
  assumes "distinct (map mv_from ms)" "\<forall>m\<in>set ms. mv_from m < length ch"
  shows "take_moved ms ch = Inr (map (\<lambda>m. ch ! mv_from m) ms,
    map (\<lambda>i. if i \<in> mv_from ` set ms then None else ch ! i) [0..<length ch])"
  using assms
proof (induction ms arbitrary: ch)
  case (Cons m ms)
  let ?ch = "ch[mv_from m := None]"
  have "take_moved ms ?ch = Inr (map (\<lambda>x. ?ch ! mv_from x) ms,
      map (\<lambda>i. if i \<in> mv_from ` set ms then None else ?ch ! i) [0..<length ch])"
    using Cons.IH [of ?ch] Cons.prems by auto
  moreover have "map (\<lambda>x. ?ch ! mv_from x) ms = map (\<lambda>x. ch ! mv_from x) ms"
    using Cons.prems(1) by (auto simp: image_iff intro!: nth_list_update_neq)
  moreover have "map (\<lambda>i. if i \<in> mv_from ` set ms then None else ?ch ! i) [0..<length ch] =
      map (\<lambda>i. if i \<in> mv_from ` set (m # ms) then None else ch ! i) [0..<length ch]"
    using Cons.prems(2) by (auto simp: nth_list_update)
  ultimately show ?case using Cons.prems(2) by (simp add: get_index_def)
qed (simp add: map_nth)

subsection \<open>The document\<close>

text \<open>The nodes of the positions in \<open>P\<close> are in the document in the order of the positions.\<close>

definition dom_inv :: "(nat \<Rightarrow> 'n) \<Rightarrow> nat \<Rightarrow> nat set \<Rightarrow> 'n list \<Rightarrow> bool" where
  "dom_inv node len P d \<longleftrightarrow> filter (\<lambda>n. n \<in> node ` P) d = map node (filter (\<lambda>j. j \<in> P) [0..<len])"

lemma filter_split_first:
  "filter Q ns = A @ x # B \<Longrightarrow> x \<notin> set A \<Longrightarrow>
     filter Q (takeWhile (\<lambda>y. y \<noteq> x) ns) = A \<and> filter Q (dropWhile (\<lambda>y. y \<noteq> x) ns) = x # B"
proof (induction ns arbitrary: A)
  case (Cons y ns)
  have Qx: "Q x" using Cons.prems(1) by (metis filter_eq_ConsD in_set_conv_decomp mem_Collect_eq set_filter)
  consider "y = x" | "y \<noteq> x" "\<not> Q y" | "y \<noteq> x" "Q y" by blast
  then show ?case
  proof cases
    case 1
    then show ?thesis using Cons.prems Qx by (cases A) auto
  next
    case 2
    then show ?thesis using Cons by simp
  next
    case 3
    then obtain A' where "A = y # A'" using Cons.prems by (cases A) auto
    then show ?thesis using Cons 3 by auto
  qed
qed simp

lemma next_mounted_slots:
  assumes "slots_inv node N P L" "j \<le> N"
  shows "next_mounted (drop j L) = (case filter (\<lambda>k. k \<in> P) [j..<N] of [] \<Rightarrow> None | k # ks \<Rightarrow> Some (k, node k))"
  using assms(2)
proof (induction "N - j" arbitrary: j)
  case (Suc n)
  then have j: "j < N" "length L = N" using assms(1) by (auto simp: slots_inv_def)
  have "drop j L = L ! j # drop (Suc j) L" using j by (simp add: Cons_nth_drop_Suc)
  moreover have "[j..<N] = j # [Suc j..<N]" using j by (simp add: upt_conv_Cons)
  ultimately show ?case
    using Suc.hyps(1) [of "Suc j"] Suc.hyps(2) j assms(1) by (auto simp: slots_inv_def)
qed (use assms(1) in \<open>simp add: slots_inv_def\<close>)

lemma filter_insert_upt:
  assumes "j < len" "j \<notin> P"
  shows "filter (\<lambda>k. k \<in> insert j P) [0..<len] = filter (\<lambda>k. k \<in> P) [0..<j] @ j # filter (\<lambda>k. k \<in> P) [j..<len]"
    and "filter (\<lambda>k. k \<in> P) [0..<len] = filter (\<lambda>k. k \<in> P) [0..<j] @ filter (\<lambda>k. k \<in> P) [j..<len]"
proof -
  have split: "[0..<len] = [0..<j] @ j # [Suc j..<len]"
    using assms(1) by (metis le0 less_imp_le_nat upt_add_eq_append upt_conv_Cons le_add_diff_inverse)
  have "[j..<len] = j # [Suc j..<len]" using assms(1) by (simp add: upt_conv_Cons)
  moreover have "filter (\<lambda>k. k \<in> insert j P) [0..<j] = filter (\<lambda>k. k \<in> P) [0..<j]"
    "filter (\<lambda>k. k \<in> insert j P) [Suc j..<len] = filter (\<lambda>k. k \<in> P) [Suc j..<len]"
    by (auto intro!: filter_cong)
  ultimately show "filter (\<lambda>k. k \<in> insert j P) [0..<len] = filter (\<lambda>k. k \<in> P) [0..<j] @ j # filter (\<lambda>k. k \<in> P) [j..<len]"
    "filter (\<lambda>k. k \<in> P) [0..<len] = filter (\<lambda>k. k \<in> P) [0..<j] @ filter (\<lambda>k. k \<in> P) [j..<len]"
    using assms(2) by (simp_all add: split)
qed

lemma place_dom_inv:
  assumes "slots_inv node N P (slots s)" "inj_on node {..<len}" "P \<subseteq> {..<len}" "len \<le> N" "j < len" "j \<notin> P"
    and inv: "dom_inv node len P (doc s)"
  shows "dom_inv node len (insert j P) (place True j (node j) s)"
proof -
  let ?ns = "filter (\<lambda>x. x \<noteq> node j) (doc s)" and ?Q = "\<lambda>n. n \<in> node ` P"
  let ?A = "map node (filter (\<lambda>k. k \<in> P) [0..<j])" and ?K = "filter (\<lambda>k. k \<in> P) [j..<len]"
  have new: "node j \<notin> node ` P" using assms(2,3,5,6) by (auto simp: inj_on_def subset_iff)
  have ns: "filter ?Q ?ns = ?A @ map node ?K"
    using inv new filter_insert_upt(2) [OF assms(5,6)] by (simp add: dom_inv_def) (smt (verit) filter_cong)
  have Q: "filter (\<lambda>n. n \<in> node ` insert j P) xs = filter ?Q xs" if "node j \<notin> set xs" for xs
    using that by (auto intro!: filter_cong)
  have nj: "node j \<notin> set ?ns" by simp
  have K: "filter (\<lambda>k. k \<in> P) [j..<N] = ?K"
  proof -
    have "[j..<N] = [j..<len] @ [len..<N]" using assms(4,5) by (metis less_imp_le_nat upt_add_eq_append le_add_diff_inverse)
    moreover have "filter (\<lambda>k. k \<in> P) [len..<N] = []" using assms(3) by (auto simp: filter_empty_conv)
    ultimately show ?thesis by simp
  qed
  have goal: "dom_inv node len (insert j P) d \<longleftrightarrow> filter (\<lambda>n. n \<in> node ` insert j P) d = ?A @ node j # map node ?K" for d
    by (simp add: dom_inv_def filter_insert_upt(1) [OF assms(5,6)] del: insert_iff)
  show ?thesis
  proof (cases ?K)
    case Nil
    then have "place True j (node j) s = ?ns @ [node j]"
      using next_mounted_slots [OF assms(1)] K assms(4,5) by (simp add: place_def mount_at_marker_def)
    then show ?thesis unfolding goal using ns Nil Q [OF nj] by simp
  next
    case (Cons k ks)
    have k: "k \<in> P" "j \<le> k" "k < len" using arg_cong [OF Cons, where f = set] by auto
    have "node k \<noteq> node x" if "x < j" for x
      using inj_onD [OF assms(2), of k x] that k by auto
    then have notin: "node k \<notin> set ?A" by auto
    have pl: "place True j (node j) s = takeWhile (\<lambda>x. x \<noteq> node k) ?ns @ node j # dropWhile (\<lambda>x. x \<noteq> node k) ?ns"
      using next_mounted_slots [OF assms(1)] K Cons assms(4,5) by (simp add: place_def insert_before_def Let_def)
    have f: "filter ?Q (takeWhile (\<lambda>x. x \<noteq> node k) ?ns) = ?A"
      "filter ?Q (dropWhile (\<lambda>x. x \<noteq> node k) ?ns) = node k # map node ks"
      using filter_split_first [OF _ notin, of ?Q ?ns "map node ks"] ns Cons by auto
    have "node j \<notin> set (takeWhile (\<lambda>x. x \<noteq> node k) ?ns)" "node j \<notin> set (dropWhile (\<lambda>x. x \<noteq> node k) ?ns)"
      using nj by (auto dest: set_takeWhileD set_dropWhileD)
    then show ?thesis unfolding goal pl using f Cons Q by simp
  qed
qed

subsection \<open>Applying all commands\<close>

lemma foreach_storage:
  assumes "slots_inv node N P (slots s)" "\<forall>(m, c)\<in>set cmds. mv_to m < N \<and> (\<exists>i. c = Some (i, node (mv_to m)))"
  shows "\<exists>h. foreach move_in_storage cmds s = Inr h \<and> doc h = doc s \<and>
    slots_inv node N (P \<union> (mv_to \<circ> fst) ` set cmds) (slots h)"
  using assms
proof (induction cmds arbitrary: s P)
  case (Cons mc cmds)
  obtain m i where mc: "mc = (m, Some (i, node (mv_to m)))" "mv_to m < N"
    using Cons.prems(2) by (cases mc) auto
  let ?s = "s\<lparr>slots := (slots s)[mv_to m := Some (mv_to m, node (mv_to m))]\<rparr>"
  have step: "move_in_storage mc s = Inr ?s"
    using mc Cons.prems(1) by (simp add: move_in_storage_def slots_inv_def)
  have "slots_inv node N (insert (mv_to m) P) (slots ?s)"
    using slots_inv_update [OF Cons.prems(1) mc(2)] by simp
  from Cons.IH [OF this] Cons.prems(2) obtain h where "foreach move_in_storage cmds ?s = Inr h" "doc h = doc s"
    "slots_inv node N (insert (mv_to m) P \<union> (mv_to \<circ> fst) ` set cmds) (slots h)"
    by auto
  then show ?case using step mc by auto
qed auto

lemma set_place: "set (place mtd j n s) \<subseteq> insert n (set (doc s))"
proof -
  have "set (insert_before ref n ns) \<subseteq> insert n (set ns)" for ref ns
    by (auto simp: insert_before_def Let_def dest: set_takeWhileD set_dropWhileD)
  then show ?thesis by (auto simp: place_def mount_at_marker_def split: option.split)
qed

lemma foreach_document:
  assumes "slots_inv node N P (slots s)" "\<forall>(m, c)\<in>set cmds. mv_to m < len \<and> (\<exists>i. c = Some (i, node (mv_to m)))"
    and "distinct (map (mv_to \<circ> fst) cmds)" "\<forall>(m, c)\<in>set cmds. mv_to m \<notin> P"
    and "P \<subseteq> {..<len}" "len \<le> N"
  shows "\<exists>h. foreach (move_in_document mtd) cmds s = Inr h \<and>
    slots_inv node N (P \<union> (mv_to \<circ> fst) ` set cmds) (slots h) \<and>
    set (doc h) \<subseteq> set (doc s) \<union> node ` (mv_to \<circ> fst) ` set cmds \<and>
    (mtd \<and> inj_on node {..<len} \<and> dom_inv node len P (doc s) \<longrightarrow> dom_inv node len (P \<union> (mv_to \<circ> fst) ` set cmds) (doc h))"
  using assms(1-5)
proof (induction cmds arbitrary: s P)
  case (Cons mc cmds)
  obtain m i where mc: "mc = (m, Some (i, node (mv_to m)))" "mv_to m < len"
    using Cons.prems(2) by (cases mc) auto
  let ?j = "mv_to m"
  let ?s = "\<lparr>slots = (slots s)[?j := Some (?j, node ?j)], doc = place mtd ?j (node ?j) s\<rparr>"
  have j: "?j \<notin> P" using Cons.prems(4) mc by auto
  have step: "move_in_document mtd mc s = Inr ?s"
    using mc Cons.prems(1) assms(6) by (simp add: move_in_document_def slots_inv_def)
  have inv: "slots_inv node N (insert ?j P) (slots ?s)"
    using slots_inv_update [OF Cons.prems(1)] mc(2) assms(6) by simp
  have dinv: "mtd \<and> inj_on node {..<len} \<and> dom_inv node len P (doc s) \<longrightarrow> dom_inv node len (insert ?j P) (doc ?s)"
    using place_dom_inv [OF Cons.prems(1) _ Cons.prems(5) assms(6) mc(2) j] by auto
  have "\<exists>h. foreach (move_in_document mtd) cmds ?s = Inr h \<and>
    slots_inv node N (insert ?j P \<union> (mv_to \<circ> fst) ` set cmds) (slots h) \<and>
    set (doc h) \<subseteq> set (doc ?s) \<union> node ` (mv_to \<circ> fst) ` set cmds \<and>
    (mtd \<and> inj_on node {..<len} \<and> dom_inv node len (insert ?j P) (doc ?s) \<longrightarrow> dom_inv node len (insert ?j P \<union> (mv_to \<circ> fst) ` set cmds) (doc h))"
    by (rule Cons.IH [OF inv]) (use Cons.prems mc in \<open>auto simp: image_iff\<close>)
  then obtain h where h: "foreach (move_in_document mtd) cmds ?s = Inr h"
    "slots_inv node N (insert ?j P \<union> (mv_to \<circ> fst) ` set cmds) (slots h)"
    "set (doc h) \<subseteq> set (doc ?s) \<union> node ` (mv_to \<circ> fst) ` set cmds"
    "mtd \<and> inj_on node {..<len} \<and> dom_inv node len (insert ?j P) (doc ?s) \<longrightarrow> dom_inv node len (insert ?j P \<union> (mv_to \<circ> fst) ` set cmds) (doc h)"
    by blast
  have sub: "set (doc h) \<subseteq> set (doc s) \<union> node ` (mv_to \<circ> fst) ` set (mc # cmds)"
    using h(3) set_place [of mtd ?j "node ?j" s] mc(1) by (simp add: subset_iff) blast
  have tgt: "insert ?j P \<union> (mv_to \<circ> fst) ` set cmds = P \<union> (mv_to \<circ> fst) ` set (mc # cmds)" using mc(1) by auto
  have "foreach (move_in_document mtd) (mc # cmds) s = Inr h" using step h(1) by simp
  then show ?case using h(2,4) sub dinv unfolding tgt by blast
qed auto

lemma foreach_apply_add:
  assumes "slots_inv node N P (slots s)" "\<forall>j\<in>set js. j < len \<and> node j = view_fn j (items ! j)"
    and "distinct js" "\<forall>j\<in>set js. j \<notin> P" "P \<subseteq> {..<len}" "len \<le> N" "len = length items"
  shows "\<exists>h. foreach (apply_add mtd view_fn items) (map (\<lambda>j. (j, Normal)) js) s = Inr h \<and>
    slots_inv node N (P \<union> set js) (slots h) \<and> set (doc h) \<subseteq> set (doc s) \<union> node ` set js \<and>
    (mtd \<and> inj_on node {..<len} \<and> dom_inv node len P (doc s) \<longrightarrow> dom_inv node len (P \<union> set js) (doc h))"
  using assms(1-5)
proof (induction js arbitrary: s P)
  case (Cons j js)
  have j: "j < len" "j \<notin> P" "view_fn j (items ! j) = node j" using Cons.prems by auto
  let ?s = "\<lparr>slots = (slots s)[j := Some (j, node j)], doc = place mtd j (node j) s\<rparr>"
  have step: "apply_add mtd view_fn items (j, Normal) s = Inr ?s"
    using j Cons.prems(1) assms(6,7) by (simp add: apply_add_def slots_inv_def get_index_def Let_def)
  have inv: "slots_inv node N (insert j P) (slots ?s)"
    using slots_inv_update [OF Cons.prems(1)] j(1) assms(6) by simp
  have dinv: "mtd \<and> inj_on node {..<len} \<and> dom_inv node len P (doc s) \<longrightarrow> dom_inv node len (insert j P) (doc ?s)"
    using place_dom_inv [OF Cons.prems(1) _ Cons.prems(5) assms(6) j(1,2)] by auto
  have "\<exists>h. foreach (apply_add mtd view_fn items) (map (\<lambda>j. (j, Normal)) js) ?s = Inr h \<and>
    slots_inv node N (insert j P \<union> set js) (slots h) \<and> set (doc h) \<subseteq> set (doc ?s) \<union> node ` set js \<and>
    (mtd \<and> inj_on node {..<len} \<and> dom_inv node len (insert j P) (doc ?s) \<longrightarrow> dom_inv node len (insert j P \<union> set js) (doc h))"
    by (rule Cons.IH [OF inv]) (use Cons.prems j in auto)
  then obtain h where h: "foreach (apply_add mtd view_fn items) (map (\<lambda>j. (j, Normal)) js) ?s = Inr h"
    "slots_inv node N (insert j P \<union> set js) (slots h)" "set (doc h) \<subseteq> set (doc ?s) \<union> node ` set js"
    "mtd \<and> inj_on node {..<len} \<and> dom_inv node len (insert j P) (doc ?s) \<longrightarrow> dom_inv node len (insert j P \<union> set js) (doc h)"
    by blast
  have sub: "set (doc h) \<subseteq> set (doc s) \<union> node ` set (j # js)"
    using h(3) set_place [of mtd j "node j" s] by (simp add: subset_iff) blast
  have tgt: "insert j P \<union> set js = P \<union> set (j # js)" by auto
  have "foreach (apply_add mtd view_fn items) (map (\<lambda>j. (j, Normal)) (j # js)) s = Inr h" using step h(1) by simp
  then show ?case using h(2,4) sub dinv unfolding tgt by blast
qed auto

subsection \<open>The result of a rebuild\<close>

text \<open>The node an item of the new list gets: the old one of its key, or a new one.\<close>

definition new_node :: "'k list \<Rightarrow> 'k list \<Rightarrow> (nat \<Rightarrow> 'n) \<Rightarrow> (nat \<Rightarrow> 't \<Rightarrow> 'n) \<Rightarrow> 't list \<Rightarrow> nat \<Rightarrow> 'n" where
  "new_node F T old view_fn items j =
     (case index_of F (T ! j) of Some i \<Rightarrow> old i | None \<Rightarrow> view_fn j (items ! j))"

text \<open>Positions whose node is not moved in the document, and those at the same index.\<close>

definition same_place :: "'k list \<Rightarrow> 'k list \<Rightarrow> nat set" where
  "same_place F T = {i. i < length F \<and> i < length T \<and> F ! i = T ! i}"

definition stays :: "'k list \<Rightarrow> 'k list \<Rightarrow> nat set" where
  "stays F T = same_place F T \<union>
     {mv_to (the_move F T i) | i. moves_at F T i \<and> \<not> move_in_dom (the_move F T i)}"

lemma the_move_facts:
  assumes "distinct F" "distinct T" "moves_at F T i"
  shows "mv_from (the_move F T i) = i" "mv_to (the_move F T i) < length T" "T ! mv_to (the_move F T i) = F ! i"
    "new_node F T old view_fn items (mv_to (the_move F T i)) = old i" "mv_to (the_move F T i) \<notin> same_place F T"
proof -
  have i: "i < length F" "F ! i \<in> set T" "get_index T i \<noteq> Some (F ! i)" using assms(3) by (auto simp: moves_at_def)
  then obtain j where j: "index_of T (F ! i) = Some j" using index_of_None [of T "F ! i"] by (cases "index_of T (F ! i)") auto
  then have mv: "mv_to (the_move F T i) = j" by (simp add: the_move_def Let_def)
  show "mv_from (the_move F T i) = i" by (simp add: the_move_def Let_def)
  show "mv_to (the_move F T i) < length T" "T ! mv_to (the_move F T i) = F ! i"
    using index_of_Some [OF j] by (simp_all add: mv)
  then show "new_node F T old view_fn items (mv_to (the_move F T i)) = old i"
    using index_of_nth [OF assms(1) i(1)] by (simp add: new_node_def)
  show "mv_to (the_move F T i) \<notin> same_place F T"
    using index_of_Some [OF j] i assms(1) by (auto simp: mv same_place_def get_index_def nth_eq_iff_index_eq)
qed

lemma all_targets:
  assumes "distinct F" "distinct T"
  shows "same_place F T \<union> (\<lambda>i. mv_to (the_move F T i)) ` Collect (moves_at F T) = {j. j < length T \<and> T ! j \<in> set F}"
proof (intro set_eqI iffI)
  fix j assume "j \<in> same_place F T \<union> (\<lambda>i. mv_to (the_move F T i)) ` Collect (moves_at F T)"
  then show "j \<in> {j. j < length T \<and> T ! j \<in> set F}"
  proof
    assume "j \<in> same_place F T"
    then show ?thesis by (auto simp: same_place_def) (metis nth_mem)
  next
    assume "j \<in> (\<lambda>i. mv_to (the_move F T i)) ` Collect (moves_at F T)"
    then show ?thesis using the_move_facts(2,3) [OF assms] by (auto simp: moves_at_def)
  qed
next
  fix j assume "j \<in> {j. j < length T \<and> T ! j \<in> set F}"
  then obtain i where i: "i < length F" "F ! i = T ! j" "j < length T" by (auto simp: in_set_conv_nth)
  show "j \<in> same_place F T \<union> (\<lambda>i. mv_to (the_move F T i)) ` Collect (moves_at F T)"
  proof (cases "i = j")
    case True
    then show ?thesis using i by (auto simp: same_place_def)
  next
    case False
    then have m: "moves_at F T i"
      using i assms(2) by (auto simp: moves_at_def get_index_def nth_eq_iff_index_eq)
    then have "mv_to (the_move F T i) = j"
      using the_move_facts(2,3) [OF assms m] i assms(2) by (simp add: nth_eq_iff_index_eq)
    then show ?thesis using m by auto
  qed
qed

lemma length_adds:
  assumes "length T \<le> n"
  shows "length (add_upto F T n) = length (filter (\<lambda>x. x \<notin> set F) T)"
proof -
  have "[0..<n] = [0..<length T] @ [length T..<n]" using assms by (metis le_add_diff_inverse upt_add_eq_append le0)
  then have "add_upto F T n = filter (\<lambda>i. T ! i \<notin> set F) [0..<length T]"
    by (auto simp: add_upto_def filter_empty_conv intro!: filter_cong)
  moreover have "filter (\<lambda>x. x \<notin> set F) T = map ((!) T) (filter (\<lambda>i. T ! i \<notin> set F) [0..<length T])"
    by (metis (no_types, lifting) comp_apply filter_cong filter_map map_nth)
  ultimately show ?thesis by simp
qed

lemma room_for_all:
  assumes "distinct T" "length T \<le> n"
  shows "length T \<le> length F + length (add_upto F T n)"
proof -
  have "length (filter (\<lambda>x. x \<in> set F) T) = card (set (filter (\<lambda>x. x \<in> set F) T))"
    using assms(1) by (simp add: distinct_card del: set_filter)
  also have "\<dots> \<le> card (set F)" by (intro card_mono) auto
  also have "\<dots> \<le> length F" by (rule card_length)
  finally show ?thesis
    using sum_length_filter_compl [of "\<lambda>x. x \<in> set F" T] by (simp add: length_adds [OF assms(2)])
qed

lemma filter_slots:
  assumes "slots_inv node N {..<len} L" "len \<le> N"
  shows "filter (\<lambda>c. c \<noteq> None) L = map (\<lambda>j. Some (j, node j)) [0..<len]"
proof -
  have L: "L = map (\<lambda>j. if j < len then Some (j, node j) else None) [0..<N]"
    using assms(1) by (intro nth_equalityI) (auto simp: slots_inv_def)
  have "[0..<N] = [0..<len] @ [len..<N]" using assms(2) by (metis le_add_diff_inverse upt_add_eq_append le0)
  then have "L = map (\<lambda>j. Some (j, node j)) [0..<len] @ map (\<lambda>j. None) [len..<N]"
    unfolding L by (auto simp: map_append)
  then show ?thesis by (simp add: filter_empty_conv filter_map o_def)
qed

lemma moved_out:
  assumes "distinct F" "distinct T" "slots s = map (\<lambda>i. Some (i, old i)) [0..<length F]"
    and "max (length F) (length T) = n"
  shows "\<exists>s2 ch. foreach apply_remove (rem_upto F T n) s = Inr s2 \<and>
    doc s2 = filter (\<lambda>x. x \<notin> old ` set (rem_upto F T n)) (doc s) \<and>
    take_moved (mov_upto F T n) (slots s2) = Inr (map (\<lambda>m. Some (mv_from m, old (mv_from m))) (mov_upto F T n), ch) \<and>
    slots_inv (new_node F T old view_fn items) (length F + k) (same_place F T) (ch @ replicate k None)"
proof -
  have "\<forall>i\<in>set (rem_upto F T n). i < length (slots s) \<and> slots s ! i = Some (i, old i)"
    by (auto simp: rem_upto_def assms(3))
  moreover have "distinct (rem_upto F T n)" by (simp add: rem_upto_def)
  ultimately obtain s2 where s2: "foreach apply_remove (rem_upto F T n) s = Inr s2"
    "slots s2 = map (\<lambda>i. if i \<in> set (rem_upto F T n) then None else slots s ! i) [0..<length (slots s)]"
    "doc s2 = filter (\<lambda>x. x \<notin> old ` set (rem_upto F T n)) (doc s)"
    using foreach_apply_remove by blast
  let ?M = "mov_upto F T n"
  have froms: "map mv_from ?M = filter (moves_at F T) [0..<n]"
    by (simp add: mov_upto_def o_def the_move_def Let_def)
  have len: "length (slots s2) = length F" by (simp add: s2(2) assms(3))
  have "distinct (map mv_from ?M)" by (simp add: froms)
  moreover have "\<forall>m\<in>set ?M. mv_from m < length (slots s2)"
    by (auto simp: mov_upto_def the_move_def Let_def moves_at_def len)
  ultimately have taken: "take_moved ?M (slots s2) = Inr (map (\<lambda>m. slots s2 ! mv_from m) ?M,
      map (\<lambda>i. if i \<in> mv_from ` set ?M then None else slots s2 ! i) [0..<length (slots s2)])"
    by (rule take_moved_all)
  have "slots s2 ! mv_from m = Some (mv_from m, old (mv_from m))" if "m \<in> set ?M" for m
    using that by (auto simp: mov_upto_def the_move_def Let_def moves_at_def s2(2) assms(3) rem_upto_def)
  then have cs: "map (\<lambda>m. slots s2 ! mv_from m) ?M = map (\<lambda>m. Some (mv_from m, old (mv_from m))) ?M" by simp
  let ?ch = "map (\<lambda>i. if i \<in> mv_from ` set ?M then None else slots s2 ! i) [0..<length (slots s2)]"
  have fs: "mv_from ` set ?M = {i. i < n \<and> moves_at F T i}" using arg_cong [OF froms, where f = set] by auto
  have "?ch ! i = (if i \<in> same_place F T then Some (i, new_node F T old view_fn items i) else None)"
    if i: "i < length F" for i
  proof -
    have "i < n" using i assms(4) by auto
    moreover have "i \<in> same_place F T \<Longrightarrow> new_node F T old view_fn items i = old i"
      using index_of_nth [OF assms(1) i] by (auto simp: same_place_def new_node_def)
    moreover have "i \<in> same_place F T \<longleftrightarrow> \<not> moves_at F T i \<and> F ! i \<in> set T"
      using i by (auto simp: same_place_def moves_at_def get_index_def split: if_splits)
    ultimately show ?thesis using i by (auto simp: len fs s2(2) assms(3) rem_upto_def)
  qed
  then have "slots_inv (new_node F T old view_fn items) (length F + k) (same_place F T) (?ch @ replicate k None)"
    by (auto simp: slots_inv_def len nth_append) (auto simp: same_place_def)
  then show ?thesis using s2(1,3) taken cs by auto
qed

lemma union_steps: "A \<subseteq> B \<union> X \<Longrightarrow> B \<subseteq> C \<union> Y \<Longrightarrow> X \<subseteq> Z \<Longrightarrow> Y \<subseteq> Z \<Longrightarrow> A \<subseteq> C \<union> Z"
  by blast

lemma apply_diff_ok:
  assumes F: "distinct F" "F \<noteq> []" and T: "distinct T" "T \<noteq> []" and items: "length items = length T"
    and s: "slots s = map (\<lambda>i. Some (i, old i)) [0..<length F]"
    and node_def: "node = new_node F T old view_fn items"
  shows "\<exists>h. apply_diff mtd (diff F T) view_fn items s = Inr h \<and>
    slots h = map (\<lambda>j. Some (j, node j)) [0..<length T] \<and>
    set (doc h) \<subseteq> set (filter (\<lambda>x. x \<notin> old ` {i. i < length F \<and> F ! i \<notin> set T}) (doc s)) \<union> node ` {..<length T} \<and>
    (mtd \<and> inj_on node {..<length T} \<and>
     dom_inv node (length T) (stays F T) (filter (\<lambda>x. x \<notin> old ` {i. i < length F \<and> F ! i \<notin> set T}) (doc s)) \<longrightarrow>
     dom_inv node (length T) {..<length T} (doc h))"
proof -
  define n where "n = max (length F) (length T)"
  let ?M = "mov_upto F T n" and ?js = "add_upto F T n" and ?len = "length T"
  let ?N = "length F + length ?js"
  have N: "?len \<le> ?N" using room_for_all [OF T(1)] by (simp add: n_def)
  note d = unpack_diff [OF F(2) T(2), folded n_def]
  have rem: "set (rem_upto F T n) = {i. i < length F \<and> F ! i \<notin> set T}" by (auto simp: rem_upto_def n_def)
  obtain s2 ch where s2: "foreach apply_remove (rem_upto F T n) s = Inr s2"
    "doc s2 = filter (\<lambda>x. x \<notin> old ` {i. i < length F \<and> F ! i \<notin> set T}) (doc s)"
    "take_moved ?M (slots s2) = Inr (map (\<lambda>m. Some (mv_from m, old (mv_from m))) ?M, ch)"
    "slots_inv node ?N (same_place F T) (ch @ replicate (length ?js) None)"
    using moved_out [OF F(1) T(1) s n_def [symmetric], of view_fn items "length ?js"] by (auto simp: node_def rem)
  let ?cmds = "zip ?M (map (\<lambda>m. Some (mv_from m, old (mv_from m))) ?M)"
  let ?st = "filter (\<lambda>(m, c). \<not> move_in_dom m) ?cmds" and ?dm = "filter (\<lambda>(m, c). move_in_dom m) ?cmds"
  have cmds: "?cmds = map (\<lambda>m. (m, Some (mv_from m, old (mv_from m)))) ?M" by (simp add: zip_map2 zip_same_conv_map)
  have M: "set ?M = the_move F T ` {i. i < n \<and> moves_at F T i}" by (auto simp: mov_upto_def)
  have all: "{i. i < n \<and> moves_at F T i} = Collect (moves_at F T)" by (auto simp: moves_at_def n_def)
  note mv = the_move_facts [OF F(1) T(1)]
  have ok: "\<forall>(m, c)\<in>set ?cmds. mv_to m < ?len \<and> (\<exists>i. c = Some (i, node (mv_to m)))"
    using mv(2) mv(1) mv(4) [of _ old view_fn items] by (auto simp: cmds M node_def)
  have tgts: "distinct (map (mv_to \<circ> fst) ?cmds)"
  proof -
    have "inj_on (\<lambda>i. mv_to (the_move F T i)) (Collect (moves_at F T))"
    proof (rule inj_onI)
      fix x y assume "x \<in> Collect (moves_at F T)" "y \<in> Collect (moves_at F T)"
        "mv_to (the_move F T x) = mv_to (the_move F T y)"
      then have "F ! x = F ! y" "x < length F" "y < length F" using mv(3) by (auto simp: moves_at_def) metis
      then show "x = y" using F(1) by (simp add: nth_eq_iff_index_eq)
    qed
    then have "inj_on (\<lambda>i. mv_to (the_move F T i)) (set (filter (moves_at F T) [0..<n]))"
      by (rule inj_on_subset) auto
    moreover have "map (mv_to \<circ> fst) ?cmds = map (\<lambda>i. mv_to (the_move F T i)) (filter (moves_at F T) [0..<n])"
      unfolding cmds by (simp add: mov_upto_def)
    ultimately show ?thesis by (simp only: distinct_map) simp
  qed
  have stT: "(mv_to \<circ> fst) ` set ?st = {mv_to (the_move F T i) | i. moves_at F T i \<and> \<not> move_in_dom (the_move F T i)}"
    unfolding cmds using all by (auto simp: M image_iff) blast
  have "\<forall>(m, c)\<in>set ?st. mv_to m < ?N \<and> (\<exists>i. c = Some (i, node (mv_to m)))" using ok N by fastforce
  from foreach_storage [OF _ this, of "same_place F T" "s2\<lparr>slots := ch @ replicate (length ?js) None\<rparr>"] s2(4)
  obtain s4 where s4: "foreach move_in_storage ?st (s2\<lparr>slots := ch @ replicate (length ?js) None\<rparr>) = Inr s4"
    "doc s4 = doc s2" "slots_inv node ?N (stays F T) (slots s4)"
    unfolding stays_def stT by auto
  have P1: "stays F T \<subseteq> {..<?len}" using mv(2) by (auto simp: stays_def same_place_def)
  have dm: "\<forall>(m, c)\<in>set ?dm. mv_to m \<notin> stays F T"
  proof -
    have "mv_to (the_move F T i) \<notin> stays F T" if i: "moves_at F T i" "move_in_dom (the_move F T i)" for i
    proof
      assume "mv_to (the_move F T i) \<in> stays F T"
      then obtain x where x: "moves_at F T x" "\<not> move_in_dom (the_move F T x)" "mv_to (the_move F T i) = mv_to (the_move F T x)"
        using mv(5) [OF i(1)] by (auto simp: stays_def)
      then have "F ! i = F ! x" "i < length F" "x < length F" using mv(3) i(1) by (auto simp: moves_at_def) metis
      then show False using F(1) x(2) i(2) by (simp add: nth_eq_iff_index_eq)
    qed
    then show ?thesis by (auto simp: cmds M)
  qed
  have "\<forall>(m, c)\<in>set ?dm. mv_to m < ?len \<and> (\<exists>i. c = Some (i, node (mv_to m)))" using ok by auto
  moreover have "distinct (map (mv_to \<circ> fst) ?dm)" using tgts by (rule distinct_map_filter)
  ultimately obtain s5 where s5: "foreach (move_in_document mtd) ?dm s4 = Inr s5"
    "slots_inv node ?N (stays F T \<union> (mv_to \<circ> fst) ` set ?dm) (slots s5)"
    "set (doc s5) \<subseteq> set (doc s4) \<union> node ` (mv_to \<circ> fst) ` set ?dm"
    "mtd \<and> inj_on node {..<?len} \<and> dom_inv node ?len (stays F T) (doc s4) \<longrightarrow>
      dom_inv node ?len (stays F T \<union> (mv_to \<circ> fst) ` set ?dm) (doc s5)"
    using foreach_document [OF s4(3) _ _ dm P1 N] by blast
  let ?P = "stays F T \<union> (mv_to \<circ> fst) ` set ?dm"
  have dmT: "(mv_to \<circ> fst) ` set ?dm = {mv_to (the_move F T i) | i. moves_at F T i \<and> move_in_dom (the_move F T i)}"
    unfolding cmds using all by (auto simp: M image_iff) blast
  have P: "?P = {j. j < ?len \<and> T ! j \<in> set F}"
  proof -
    have "?P = same_place F T \<union> (\<lambda>i. mv_to (the_move F T i)) ` Collect (moves_at F T)"
      unfolding dmT stays_def by auto
    also have "\<dots> = {j. j < ?len \<and> T ! j \<in> set F}"
      by (rule all_targets [OF F(1) T(1)])
    finally show ?thesis .
  qed
  have js: "\<forall>j\<in>set ?js. j < ?len \<and> node j = view_fn j (items ! j)" "\<forall>j\<in>set ?js. j \<notin> ?P" "distinct ?js"
    "?P \<union> set ?js = {..<?len}" "?P \<subseteq> {..<?len}"
    unfolding P by (auto simp: add_upto_def node_def new_node_def index_of_None [THEN iffD2] n_def)
  obtain s6 where s6: "foreach (apply_add mtd view_fn items) (map (\<lambda>j. (j, Normal)) ?js) s5 = Inr s6"
    "slots_inv node ?N {..<?len} (slots s6)" "set (doc s6) \<subseteq> set (doc s5) \<union> node ` set ?js"
    "mtd \<and> inj_on node {..<?len} \<and> dom_inv node ?len ?P (doc s5) \<longrightarrow> dom_inv node ?len {..<?len} (doc s6)"
    using foreach_apply_add [where view_fn = view_fn and items = items, OF s5(2) js(1,3,2,5) N items [symmetric], of mtd] unfolding js(4) by blast
  let ?h = "s6\<lparr>slots := filter (\<lambda>c. c \<noteq> None) (slots s6)\<rparr>"
  have "apply_diff mtd (diff F T) view_fn items s = Inr ?h"
    using s2(1,3) s4(1) s5(1) s6(1) by (simp add: apply_diff_def d Let_def)
  moreover have "slots ?h = map (\<lambda>j. Some (j, node j)) [0..<?len]" using filter_slots [OF s6(2) N] by simp
  moreover have "set (doc ?h) \<subseteq> set (filter (\<lambda>x. x \<notin> old ` {i. i < length F \<and> F ! i \<notin> set T}) (doc s)) \<union> node ` {..<?len}"
  proof -
    have "node ` set ?js \<subseteq> node ` {..<?len}" "node ` (mv_to \<circ> fst) ` set ?dm \<subseteq> node ` {..<?len}"
      using js(4) by blast+
    from union_steps [OF s6(3) s5(3) this] show ?thesis unfolding s4(2) s2(2) by simp
  qed
  moreover have "mtd \<and> inj_on node {..<?len} \<and>
     dom_inv node ?len (stays F T) (filter (\<lambda>x. x \<notin> old ` {i. i < length F \<and> F ! i \<notin> set T}) (doc s)) \<longrightarrow>
     dom_inv node ?len {..<?len} (doc ?h)"
    using s6(4) s5(4) unfolding s4(2) s2(2) by simp
  ultimately show ?thesis by blast
qed

text \<open>From an empty list every item is appended, to an empty list everything is cleared.\<close>

lemma foreach_add_append:
  assumes "slots_inv node len {..<k} (slots s)" "k \<le> len" "len = length items" "\<forall>j<len. node j = view_fn j (items ! j)"
  shows "\<exists>h. foreach (apply_add mtd view_fn items) (map (\<lambda>j. (j, Append)) [k..<len]) s = Inr h \<and>
    slots_inv node len {..<len} (slots h) \<and>
    (mtd \<and> inj_on node {..<len} \<and> set (doc s) \<inter> node ` {k..<len} = {} \<longrightarrow> doc h = doc s @ map node [k..<len])"
  using assms(1,2)
proof (induction "len - k" arbitrary: k s)
  case 0
  then show ?case by simp
next
  case (Suc d)
  then have k: "k < len" "[k..<len] = k # [Suc k..<len]" by (simp_all add: upt_conv_Cons)
  let ?s = "\<lparr>slots = (slots s)[k := Some (k, node k)], doc = if mtd then mount_at_marker (node k) (doc s) else doc s\<rparr>"
  have step: "apply_add mtd view_fn items (k, Append) s = Inr ?s"
    using k(1) Suc.prems(1) assms(3,4) by (simp add: apply_add_def slots_inv_def get_index_def Let_def)
  have inv: "slots_inv node len {..<Suc k} (slots ?s)"
    using slots_inv_update [OF Suc.prems(1) k(1)] by (simp add: lessThan_Suc)
  obtain h where h: "foreach (apply_add mtd view_fn items) (map (\<lambda>j. (j, Append)) [Suc k..<len]) ?s = Inr h"
    "slots_inv node len {..<len} (slots h)"
    "mtd \<and> inj_on node {..<len} \<and> set (doc ?s) \<inter> node ` {Suc k..<len} = {} \<longrightarrow> doc h = doc ?s @ map node [Suc k..<len]"
  proof -
    have "d = len - Suc k" "Suc k \<le> len" using Suc.hyps(2) k(1) by auto
    from Suc.hyps(1) [OF this(1) inv this(2)] show thesis using that by blast
  qed
  have "doc h = doc s @ map node [k..<len]"
    if c: "mtd" "inj_on node {..<len}" "set (doc s) \<inter> node ` {k..<len} = {}"
  proof -
    have "node k \<notin> set (doc s)" using c(3) k(1) by auto
    then have "filter (\<lambda>x. x \<noteq> node k) (doc s) = doc s" by (intro filter_True) auto
    then have ds: "doc ?s = doc s @ [node k]" using c(1) by (simp add: mount_at_marker_def)
    have "node k \<notin> node ` {Suc k..<len}" using inj_onD [OF c(2), of k] k(1) by fastforce
    moreover have "set (doc s) \<inter> node ` {Suc k..<len} = {}" using c(3) by auto
    ultimately have "set (doc ?s) \<inter> node ` {Suc k..<len} = {}" unfolding ds by auto
    then show ?thesis using h(3) c(1,2) ds k(2) by simp
  qed
  then show ?case using step h(1,2) k(2) by (intro exI [of _ h]) auto
qed

lemma apply_diff_from_empty:
  assumes "length items = length T" "slots s = []" "T \<noteq> []"
    and node_def: "node = (\<lambda>j. view_fn j (items ! j))"
  shows "\<exists>h. apply_diff mtd (diff [] T) view_fn items s = Inr h \<and> slots h = map (\<lambda>j. Some (j, node j)) [0..<length T] \<and>
    (mtd \<and> inj_on node {..<length T} \<and> set (doc s) \<inter> node ` {..<length T} = {} \<longrightarrow> doc h = doc s @ map node [0..<length T])"
proof -
  let ?s = "s\<lparr>slots := replicate (length T) None\<rparr>" and ?adds = "map (\<lambda>at. (at, Append)) [0..<length T]"
  have d: "diff [] T = no_diff\<lparr>added := ?adds\<rparr>" using assms(3) by (simp add: diff_def)
  have u: "unpack_moves (diff [] T) = ([], ?adds)"
    using unpack_loop_all [of "[]" ?adds "[]" "[0..<length T]"] by (simp add: unpack_moves_def d no_diff_def)
  have "slots_inv node (length T) {..<0} (slots ?s)" by (simp add: slots_inv_def)
  moreover have "\<forall>j<length T. node j = view_fn j (items ! j)" by (simp add: node_def)
  ultimately obtain h where h: "foreach (apply_add mtd view_fn items) ?adds ?s = Inr h"
    "slots_inv node (length T) {..<length T} (slots h)"
    "mtd \<and> inj_on node {..<length T} \<and> set (doc ?s) \<inter> node ` {0..<length T} = {} \<longrightarrow> doc h = doc ?s @ map node [0..<length T]"
    using foreach_add_append [of node "length T" 0 ?s items view_fn mtd] assms(1) [symmetric] by blast
  have "apply_diff mtd (diff [] T) view_fn items s = Inr (h\<lparr>slots := filter (\<lambda>c. c \<noteq> None) (slots h)\<rparr>)"
  proof -
    have "clear (diff [] T) = False" "added (diff [] T) = ?adds" "removed (diff [] T) = []"
      by (simp_all add: d no_diff_def)
    then show ?thesis using h(1) assms(2) by (simp add: apply_diff_def u Let_def)
  qed
  moreover have "filter (\<lambda>c. c \<noteq> None) (slots h) = map (\<lambda>j. Some (j, node j)) [0..<length T]"
    using filter_slots [OF h(2)] by simp
  ultimately show ?thesis using h(3) by (auto simp: lessThan_atLeast0)
qed

lemma index_insert_distinct: "distinct (xs @ map f ts) \<Longrightarrow> fold (\<lambda>t. index_insert (f t)) ts xs = xs @ map f ts"
proof (induction ts arbitrary: xs)
  case (Cons t ts)
  then have "f t \<notin> set xs" by auto
  moreover have "distinct ((xs @ [f t]) @ map f ts)" using Cons.prems by auto
  ultimately show ?case using Cons.IH [of "xs @ [f t]"] by (simp add: index_insert_def)
qed simp

definition keyed_wf :: "('k, 'n) keyed_state \<Rightarrow> bool" where
  "keyed_wf s \<longleftrightarrow> distinct (hashed_items s) \<and>
     (\<exists>old. slots (rendered s) = map (\<lambda>i. Some (i, old i)) [0..<length (hashed_items s)])"

definition node_at :: "('k, 'n) keyed_state \<Rightarrow> nat \<Rightarrow> 'n" where
  "node_at s i = snd (the (slots (rendered s) ! i))"

lemma keyed_wf_slots:
  assumes "keyed_wf s"
  shows "slots (rendered s) = map (\<lambda>i. Some (i, node_at s i)) [0..<length (hashed_items s)]"
proof -
  obtain old where "slots (rendered s) = map (\<lambda>i. Some (i, old i)) [0..<length (hashed_items s)]"
    using assms by (auto simp: keyed_wf_def)
  then show ?thesis by (auto simp: node_at_def intro!: nth_equalityI)
qed

lemma clear_doc:
  "fold (\<lambda>c ns. case c of None \<Rightarrow> ns | Some (i, n) \<Rightarrow> unmount n ns) (map (\<lambda>i. Some (i, old i)) is) d =
     filter (\<lambda>x. x \<notin> old ` set is) d"
  by (induction "is" arbitrary: d) (auto simp: unmount_def intro: filter_cong)

lemma rebuild_ok:
  assumes wf: "keyed_wf s" and keys: "distinct (map key_fn items)"
    and F: "F = hashed_items s" and T: "T = map key_fn items"
    and node: "node = new_node F T (node_at s) view_fn items"
    and old: "old = filter (\<lambda>x. x \<notin> node_at s ` {i. i < length F \<and> F ! i \<notin> set T}) (doc (rendered s))"
  shows "\<exists>h. keyed_rebuild key_fn view_fn items s = Inr h \<and> hashed_items h = T \<and> mounted h = mounted s \<and>
    slots (rendered h) = map (\<lambda>j. Some (j, node j)) [0..<length T] \<and>
    (mounted s \<and> inj_on node {..<length T} \<and> set (doc (rendered s)) = node_at s ` {..<length F} \<and>
     dom_inv node (length T) (stays F T) old \<longrightarrow> doc (rendered h) = map node [0..<length T])"
proof -
  let ?d = "doc (rendered s)" and ?r = "rendered s"
  note sl = keyed_wf_slots [OF wf, folded F]
  have dF: "distinct F" and dT: "distinct T" using wf keys by (auto simp: keyed_wf_def F T)
  have len: "length items = length T" by (simp add: T)
  have reb: "keyed_rebuild key_fn view_fn items s =
      (case apply_diff (mounted s) (diff F T) view_fn items ?r of Inl e \<Rightarrow> Inl e
       | Inr r \<Rightarrow> Inr (s\<lparr>hashed_items := T, rendered := r\<rparr>))"
  proof -
    have new: "fold (\<lambda>t. index_insert (key_fn t)) items [] = T"
      using index_insert_distinct [of "[]" key_fn items] keys by (simp add: T)
    show ?thesis unfolding keyed_rebuild_def F Let_def new by (rule refl)
  qed
  have "\<exists>r. apply_diff (mounted s) (diff F T) view_fn items ?r = Inr r \<and>
      slots r = map (\<lambda>j. Some (j, node j)) [0..<length T] \<and>
      (mounted s \<and> inj_on node {..<length T} \<and> set ?d = node_at s ` {..<length F} \<and>
       dom_inv node (length T) (stays F T) old \<longrightarrow> doc r = map node [0..<length T])"
  proof (cases "F = [] \<or> T = []")
    case False
    then have ne: "F \<noteq> []" "T \<noteq> []" by auto
    obtain r where r: "apply_diff (mounted s) (diff F T) view_fn items ?r = Inr r"
      "slots r = map (\<lambda>j. Some (j, node j)) [0..<length T]" "set (doc r) \<subseteq> set old \<union> node ` {..<length T}"
      "mounted s \<and> inj_on node {..<length T} \<and> dom_inv node (length T) (stays F T) old \<longrightarrow>
        dom_inv node (length T) {..<length T} (doc r)"
      using apply_diff_ok [OF dF ne(1) dT ne(2) len sl node, of "mounted s"] unfolding old by blast
    have kept: "set old \<subseteq> node ` {..<length T}" if d: "set ?d = node_at s ` {..<length F}"
    proof
      fix x assume "x \<in> set old"
      then have "x \<in> node_at s ` {..<length F}" "x \<notin> node_at s ` {i. i < length F \<and> F ! i \<notin> set T}"
        using d by (auto simp: old)
      then obtain i where i: "i < length F" "x = node_at s i" "F ! i \<in> set T" by blast
      then obtain j where "j < length T" "T ! j = F ! i" by (auto simp: in_set_conv_nth)
      then show "x \<in> node ` {..<length T}" using i index_of_nth [OF dF i(1)] by (auto simp: node new_node_def image_iff intro!: bexI [of _ j])
    qed
    have "doc r = map node [0..<length T]" if "dom_inv node (length T) {..<length T} (doc r)" "set (doc r) \<subseteq> node ` {..<length T}"
    proof -
      have "filter (\<lambda>n. n \<in> node ` {..<length T}) (doc r) = doc r" using that(2) by (intro filter_True) auto
      then show ?thesis using that(1) by (simp add: dom_inv_def)
    qed
    then show ?thesis using r kept by blast
  next
    case True
    then consider "F = []" "T \<noteq> []" | "T = []" "F \<noteq> []" | "F = []" "T = []" by blast
    then show ?thesis
    proof cases
      case 1
      have nd: "node = (\<lambda>j. view_fn j (items ! j))" by (simp add: node new_node_def index_of_def 1(1) fun_eq_iff)
      have "slots ?r = []" using sl by (simp add: 1(1))
      from apply_diff_from_empty [where view_fn = view_fn and items = items, OF len this 1(2) nd, of "mounted s"] show ?thesis by (auto simp: 1(1))
    next
      case 2
      then have d: "diff F T = no_diff\<lparr>clear := True\<rparr>" by (simp add: diff_def)
      have "apply_diff (mounted s) (diff F T) view_fn items ?r =
          Inr \<lparr>slots = [], doc = filter (\<lambda>x. x \<notin> node_at s ` set [0..<length F]) ?d\<rparr>"
        unfolding apply_diff_def d sl clear_doc by (simp add: no_diff_def)
      then show ?thesis by (auto simp: 2(1) filter_empty_conv lessThan_atLeast0)
    next
      case 3
      have "apply_diff (mounted s) (diff F T) view_fn items ?r = Inr (?r\<lparr>slots := []\<rparr>)"
        using sl by (simp add: apply_diff_def diff_def 3 no_diff_def unpack_moves_def)
      then show ?thesis by (simp add: 3)
    qed
  qed
  then show ?thesis unfolding reb by auto
qed

subsection \<open>Lists whose kept keys keep their order\<close>

lemma filter_nth: "filter P xs = map ((!) xs) (filter (\<lambda>i. P (xs ! i)) [0..<length xs])"
  by (metis (no_types, lifting) comp_apply filter_cong filter_map map_nth)

lemma kept_in_order:
  assumes "distinct F" "distinct T" "filter (\<lambda>x. x \<in> set T) F = filter (\<lambda>x. x \<in> set F) T"
    and node: "node = new_node F T old_node view_fn items" and inj: "inj_on node {..<length T}"
    and "inj_on old_node {..<length F}"
  shows "dom_inv node (length T) (stays F T)
    (filter (\<lambda>x. x \<notin> old_node ` {i. i < length F \<and> F ! i \<notin> set T}) (map old_node [0..<length F]))"
proof -
  let ?KF = "filter (\<lambda>i. F ! i \<in> set T) [0..<length F]" and ?KT = "filter (\<lambda>j. T ! j \<in> set F) [0..<length T]"
  define g where "g x = old_node (the (index_of F x))" for x
  have "filter (\<lambda>x. x \<notin> old_node ` {i. i < length F \<and> F ! i \<notin> set T}) (map old_node [0..<length F]) = map old_node ?KF"
    unfolding filter_map o_def using inj_onD [OF assms(6)]
    by (intro arg_cong [where f = "map old_node"] filter_cong refl) (fastforce simp: image_iff)
  also have "map old_node ?KF = map g (map ((!) F) ?KF)"
    using index_of_nth [OF assms(1)] by (simp add: g_def)
  also have "\<dots> = map g (map ((!) T) ?KT)"
    using assms(3) filter_nth [of "\<lambda>x. x \<in> set T" F] filter_nth [of "\<lambda>x. x \<in> set F" T] by metis
  also have "\<dots> = map node ?KT"
    using index_of_None [of F] by (auto simp: node new_node_def g_def split: option.split)
  finally have old: "filter (\<lambda>x. x \<notin> old_node ` {i. i < length F \<and> F ! i \<notin> set T}) (map old_node [0..<length F]) = map node ?KT" .
  have sub: "stays F T \<subseteq> {j. j < length T \<and> T ! j \<in> set F}"
    using all_targets [OF assms(1,2)] by (auto simp: stays_def)
  have "filter (\<lambda>n. n \<in> node ` stays F T) (map node ?KT) = map node (filter (\<lambda>j. j \<in> stays F T) ?KT)"
    unfolding filter_map o_def using inj_onD [OF inj] sub
    by (intro arg_cong [where f = "map node"] filter_cong refl) (fastforce simp: image_iff)
  also have "filter (\<lambda>j. j \<in> stays F T) ?KT = filter (\<lambda>j. j \<in> stays F T) [0..<length T]"
    using sub by (auto intro!: filter_cong)
  finally show ?thesis by (simp add: dom_inv_def old)
qed

subsection \<open>Properties\<close>

text \<open>
  C8: rebuilding a keyed list with distinct keys never panics and leaves exactly the new
  items: the keys are the new ones in order, every item whose key was there before keeps
  its rendered state, every other one is built, and each index setter holds the position.
\<close>

theorem keyed_rebuild_items:
  assumes "keyed_wf s" "distinct (map key_fn items)"
  shows "\<exists>h. keyed_rebuild key_fn view_fn items s = Inr h \<and> keyed_wf h \<and> hashed_items h = map key_fn items \<and>
    slots (rendered h) =
      map (\<lambda>j. Some (j, new_node (hashed_items s) (map key_fn items) (node_at s) view_fn items j)) [0..<length items]"
  using rebuild_ok [OF assms refl refl refl refl, of view_fn] assms(2) by (fastforce simp: keyed_wf_def)

theorem keyed_rebuild_items_witness:
  "\<exists>h. keyed_rebuild id (\<lambda>i t. t) [4, 1, 2] (keyed_build id (\<lambda>i t. t) [1, 2, 3 :: nat]) = Inr h \<and>
     hashed_items h = [4, 1, 2] \<and> slots (rendered h) = [Some (0, 4), Some (1, 1), Some (2, 2)]"
proof -
  have wf: "keyed_wf (keyed_build id (\<lambda>i t. t) [1, 2, 3 :: nat])"
    by (auto simp: keyed_wf_def keyed_build_def index_insert_def upt_conv_Cons intro!: exI [of _ Suc])
  obtain h where h: "keyed_rebuild id (\<lambda>i t. t) [4, 1, 2] (keyed_build id (\<lambda>i t. t) [1, 2, 3 :: nat]) = Inr h"
    "hashed_items h = [4, 1, 2]"
    using keyed_rebuild_items [OF wf, of id "[4, 1, 2]" "\<lambda>i t. t"] by auto
  moreover have "case keyed_rebuild id (\<lambda>i t. t) [4, 1, 2] (keyed_build id (\<lambda>i t. t) [1, 2, 3 :: nat]) of
      Inl e \<Rightarrow> False | Inr h \<Rightarrow> slots (rendered h) = [Some (0, 4), Some (1, 1), Some (2, 2)]"
    by code_simp
  ultimately show ?thesis by simp
qed

text \<open>
  C22: when the keys that stay keep their relative order, the document ends up in the
  order of the new list, whatever was added, removed or shifted. (Each view is one node,
  and the nodes of new items are new.)
\<close>

theorem keyed_rebuild_document:
  assumes "keyed_wf s" "distinct (map key_fn items)" "mounted s"
    and "doc (rendered s) = map (node_at s) [0..<length (hashed_items s)]" "inj_on (node_at s) {..<length (hashed_items s)}"
    and "filter (\<lambda>x. x \<in> key_fn ` set items) (hashed_items s) = filter (\<lambda>x. x \<in> set (hashed_items s)) (map key_fn items)"
    and "inj_on (new_node (hashed_items s) (map key_fn items) (node_at s) view_fn items) {..<length items}"
  shows "\<exists>h. keyed_rebuild key_fn view_fn items s = Inr h \<and>
    doc (rendered h) = map (new_node (hashed_items s) (map key_fn items) (node_at s) view_fn items) [0..<length items]"
proof -
  let ?F = "hashed_items s" and ?T = "map key_fn items"
  let ?node = "new_node ?F ?T (node_at s) view_fn items"
  have "distinct ?F" using assms(1) by (simp add: keyed_wf_def)
  then have "dom_inv ?node (length ?T) (stays ?F ?T)
      (filter (\<lambda>x. x \<notin> node_at s ` {i. i < length ?F \<and> ?F ! i \<notin> set ?T}) (doc (rendered s)))"
    using kept_in_order [of ?F ?T ?node "node_at s" view_fn items] assms(2,4-7) by simp
  moreover have "set (doc (rendered s)) = node_at s ` {..<length ?F}" using assms(4) by (simp add: lessThan_atLeast0)
  ultimately show ?thesis
    using rebuild_ok [OF assms(1,2) refl refl refl refl, of view_fn] assms(3,7) by auto
qed

definition shopping :: "(nat, nat) keyed_state" where
  "shopping = keyed_mount (keyed_build id (\<lambda>i t. t) [1, 2, 3])"

lemma shopping_state:
  "shopping = \<lparr>hashed_items = [1, 2, 3], rendered = \<lparr>slots = [Some (0, 1), Some (1, 2), Some (2, 3)], doc = [1, 2, 3]\<rparr>,
     mounted = True\<rparr>"
  by (simp add: shopping_def keyed_mount_def keyed_build_def index_insert_def mount_at_marker_def upt_conv_Cons)

theorem keyed_rebuild_document_witness:
  "\<exists>h. keyed_rebuild id (\<lambda>i t. t) [5, 1, 6, 3] shopping = Inr h \<and>
     doc (rendered h) = [5, 1, 6, 3]"
proof -
  have n: "node_at shopping 0 = 1" "node_at shopping (Suc 0) = 2" "node_at shopping (Suc (Suc 0)) = 3"
    by (simp_all add: shopping_state node_at_def)
  have h: "hashed_items shopping = [1, 2, 3]" "mounted shopping" "doc (rendered shopping) = [1, 2, 3]"
    by (simp_all add: shopping_state)
  have wf: "keyed_wf shopping"
    by (auto simp: shopping_state keyed_wf_def upt_conv_Cons intro!: exI [of _ Suc])
  have d: "doc (rendered shopping) = map (node_at shopping) [0..<length (hashed_items shopping)]"
    using n by (simp add: h upt_conv_Cons)
  have i: "inj_on (node_at shopping) {..<length (hashed_items shopping)}"
    using n by (auto simp: h inj_on_def less_Suc_eq)
  have j: "inj_on (new_node (hashed_items shopping) (map id [5, 1, 6, 3]) (node_at shopping) (\<lambda>i t. t) [5, 1, 6, 3])
      {..<length [5, 1, 6, 3 :: nat]}"
    using n by (auto simp: h new_node_def index_of_def inj_on_def less_Suc_eq)
  show ?thesis
    using keyed_rebuild_document [OF wf _ h(2) d i _ j] by (simp add: h n new_node_def index_of_def)
qed

text \<open>
  When kept keys change their order, the document can end up in the wrong order. Two
  items are put in front of \<open>[0, 1, 2]\<close> while it is reversed: the item \<open>1\<close> moves forward
  by two, as many places as items were added before it, so it is not moved in the
  document although \<open>2\<close> no longer follows it. The rendered items are in the new order,
  the document is not.
\<close>

theorem keyed_document_out_of_order:
  "map_sum id (\<lambda>h. (map (map_option snd) (slots (rendered h)), doc (rendered h)))
     (keyed_rebuild id (\<lambda>i t. t) [3, 4, 2, 1, 0] (keyed_mount (keyed_build id (\<lambda>i t. t) [0, 1, 2 :: nat]))) =
   Inr ([Some 3, Some 4, Some 2, Some 1, Some 0], [1, 3, 4, 2, 0])"
  by code_simp

end
