(* ===== verification/Hot_Reload.thy ===== *)
theory Hot_Reload
  imports Leptos_Prelude "HOL-Library.AList"
begin

text \<open>
  Hot reloading of views (\<^verbatim>\<open>src/leptos_hot_reload/src/node.rs\<close>,
  \<^verbatim>\<open>src/leptos_hot_reload/src/diff.rs\<close> and \<open>ViewMacros::patch\<close> of \<^verbatim>\<open>lib.rs\<close>): the
  templates of the view macros of a file are compared and the difference is sent to the
  browser as a list of patches. Parsing Rust source into templates is left to \<open>syn\<close> and
  \<open>rstml\<close> and is not modelled.
\<close>

subsection \<open>Templates\<close>

datatype lattribute = Boolean | Static string | Dynamic | Noop

datatype lnode =
    Fragment "lnode list"
  | Text string
  | Element string "(string \<times> lattribute) list" "lnode list"
  | Component string "(string \<times> string) list" "lnode list"
  | DynChild string

definition attr_html :: "string \<times> lattribute \<Rightarrow> string" where
  "attr_html a = (case a of (name, value) \<Rightarrow>
     (case value of
        Boolean \<Rightarrow> name @ '' ''
      | Static v \<Rightarrow> name @ ''='' @ [CHR 0x22] @ v @ [CHR 0x22] @ '' ''
      | _ \<Rightarrow> []))"

fun to_html :: "lnode \<Rightarrow> string" where
  "to_html (Fragment frag) = concat (map to_html frag)"
| "to_html (Text t) = t"
| "to_html (Component name props cs) =
     ''<!--<'' @ name @ ''>--><pre>&lt;'' @ name @ ''/&gt; will load once Rust code has been compiled.</pre><!--</'' @ name @ ''>-->''"
| "to_html (DynChild d) =
     ''<!--<DynChild>--><pre>Dynamic content will load once Rust code has been compiled.</pre><!--</DynChild>-->''"
| "to_html (Element name attrs cs) =
     (if cs = [] then ''<'' @ name @ '' '' @ concat (map attr_html attrs) @ ''/>''
      else ''<'' @ name @ '' '' @ concat (map attr_html attrs) @ ''>'' @ concat (map to_html cs) @ ''</'' @ name @ ''>'')"

subsection \<open>Patches\<close>

datatype replacement =
    Html string
  | Path "nat list"
  | RFragment "replacement list"
  | RElement string "(string \<times> string) list" "replacement list"

datatype patch_action =
    ReplaceWith replacement
  | ChangeTagName string
  | RemoveAttribute string
  | SetAttribute string string
  | SetText string
  | ClearChildren
  | AppendChildren "replacement list"
  | RemoveChild nat
  | InsertChild nat replacement
  | InsertChildAfter nat replacement

record patch =
  at_path :: "nat list"
  action :: patch_action

subsection \<open>Where dynamic content was before\<close>

type_synonym old_children = "(lnode \<times> nat list) list"

fun add_old_children :: "lnode \<Rightarrow> nat list \<Rightarrow> old_children \<Rightarrow> old_children"
  and add_all_children :: "lnode list \<Rightarrow> nat \<Rightarrow> nat list \<Rightarrow> old_children \<Rightarrow> old_children" where
  "add_old_children (Fragment frag) p pos = add_all_children frag 0 p pos"
| "add_old_children (Element name attrs cs) p pos = add_all_children cs 0 p pos"
| "add_old_children (DynChild d) p pos = AList.update (DynChild d) p pos"
| "add_old_children (Component name props cs) p pos =
     add_all_children cs 0 p (AList.update (Component name props cs) p pos)"
| "add_old_children (Text t) p pos = pos"
| "add_all_children [] idx p pos = pos"
| "add_all_children (c # cs) idx p pos = add_all_children cs (Suc idx) p (add_old_children c (p @ [idx]) pos)"

definition replacement_attr :: "string \<times> lattribute \<Rightarrow> (string \<times> string) option" where
  "replacement_attr a = (case a of (name, value) \<Rightarrow>
     (case value of Boolean \<Rightarrow> Some (name, name) | Static v \<Rightarrow> Some (name, v) | _ \<Rightarrow> None))"

fun to_replacement_node :: "old_children \<Rightarrow> lnode \<Rightarrow> replacement" where
  "to_replacement_node oc n =
     (case map_of oc n of
        Some p \<Rightarrow> Path p
      | None \<Rightarrow>
          (case n of
             Fragment frag \<Rightarrow> RFragment (map (to_replacement_node oc) frag)
           | Element name attrs cs \<Rightarrow>
               RElement name (List.map_filter replacement_attr attrs) (map (to_replacement_node oc) cs)
           | _ \<Rightarrow> Html (to_html n)))"

declare to_replacement_node.simps [simp del]

subsection \<open>Attributes\<close>

definition added_attr :: "(string \<times> lattribute) list \<Rightarrow> string \<times> lattribute \<Rightarrow> (string \<times> string) option" where
  "added_attr old a = (case a of (name, new_value) \<Rightarrow>
     (let replace = (case map_of old name of None \<Rightarrow> True | Some old_value \<Rightarrow> old_value \<noteq> new_value)
      in if replace
         then (case new_value of Boolean \<Rightarrow> Some (name, []) | Static s \<Rightarrow> Some (name, s) | _ \<Rightarrow> None)
         else None))"

definition diff_attrs :: "nat list \<Rightarrow> (string \<times> lattribute) list \<Rightarrow> (string \<times> lattribute) list \<Rightarrow> patch list" where
  "diff_attrs p old new =
     map (\<lambda>(name, value). \<lparr>at_path = p, action = SetAttribute name value\<rparr>) (List.map_filter (added_attr old) new) @
     List.map_filter (\<lambda>(name, value).
       if name \<in> fst ` set new then None
       else Some \<lparr>at_path = p, action = RemoveAttribute name\<rparr>) old"

subsection \<open>Children\<close>

text \<open>
  The table of edit distances, one row of \<open>width\<close> entries after the other, filled by the
  loops of the code.
\<close>

definition init_table :: "nat \<Rightarrow> nat \<Rightarrow> nat list" where
  "init_table width height =
     fold (\<lambda>i mat. mat[i * width := i]) [1..<height]
       (fold (\<lambda>i mat. mat[i := i]) [1..<width] (replicate (width * height) 0))"

definition table_entry :: "'a list \<Rightarrow> 'a list \<Rightarrow> nat \<Rightarrow> nat \<Rightarrow> nat \<Rightarrow> nat list \<Rightarrow> nat" where
  "table_entry old new width j i mat =
     (if old ! (i - 1) = new ! (j - 1) then mat ! ((j - 1) * width + (i - 1))
      else min (min (mat ! ((j - 1) * width + i) + 1) (mat ! (j * width + (i - 1)) + 1))
             (mat ! ((j - 1) * width + (i - 1)) + 1))"

definition fill_row :: "'a list \<Rightarrow> 'a list \<Rightarrow> nat \<Rightarrow> nat \<Rightarrow> nat list \<Rightarrow> nat list" where
  "fill_row old new width j mat =
     fold (\<lambda>i mat. mat[j * width + i := table_entry old new width j i mat]) [1..<width] mat"

definition edit_table :: "'a list \<Rightarrow> 'a list \<Rightarrow> nat list" where
  "edit_table old new =
     (let width = length old + 1; height = length new + 1
      in fold (fill_row old new width) [1..<height] (init_table width height))"

text \<open>
  The walk back through the table. \<open>child_diff i j p\<close> are the patches that turn the old
  child \<open>i\<close> at the path \<open>p\<close> into the new child \<open>j\<close>. The last branch is \<open>unreachable!()\<close>.
\<close>

function walk_back ::
  "(nat \<Rightarrow> nat \<Rightarrow> nat list \<Rightarrow> patch list result) \<Rightarrow> old_children \<Rightarrow> lnode list \<Rightarrow> lnode list \<Rightarrow> nat list
     \<Rightarrow> nat list \<Rightarrow> nat \<Rightarrow> nat \<Rightarrow> patch list result" where
  "walk_back child_diff oc old new mat p i j =
     (if i = 0 \<and> j = 0 then Inr []
      else if i > 0 \<and> j > 0 \<and> old ! (i - 1) = new ! (j - 1)
      then walk_back child_diff oc old new mat p (i - 1) (j - 1)
      else
        if i > 0 \<and> j > 0 \<and> mat ! ((j - 1) * (length old + 1) + i - 1) + 1 = mat ! (j * (length old + 1) + i)
           then (case child_diff (i - 1) (j - 1) (p @ [i - 1]) of
                   Inl e \<Rightarrow> Inl e
                 | Inr diffs \<Rightarrow> map_sum id ((@) diffs) (walk_back child_diff oc old new mat p (i - 1) (j - 1)))
           else if i > 0 \<and> mat ! (j * (length old + 1) + i - 1) + 1 = mat ! (j * (length old + 1) + i)
           then map_sum id ((#) \<lparr>at_path = p, action = RemoveChild (i - 1)\<rparr>)
                  (walk_back child_diff oc old new mat p (i - 1) j)
           else if j > 0 \<and> mat ! ((j - 1) * (length old + 1) + i) + 1 = mat ! (j * (length old + 1) + i)
           then map_sum id ((#) \<lparr>at_path = p, action = InsertChild i (to_replacement_node oc (new ! (j - 1)))\<rparr>)
                  (walk_back child_diff oc old new mat p i (j - 1))
           else Inl Panic)"
  by pat_completeness auto
termination by (relation "measure (\<lambda>(_, _, _, _, _, _, i, j). i + j)") auto

declare walk_back.simps [simp del]

definition diff_children ::
  "(nat \<Rightarrow> nat \<Rightarrow> nat list \<Rightarrow> patch list result) \<Rightarrow> nat list \<Rightarrow> lnode list \<Rightarrow> lnode list \<Rightarrow> old_children
     \<Rightarrow> patch list result" where
  "diff_children child_diff p old new oc =
     (if old = [] \<and> new = [] then Inr []
      else if old = [] then Inr [\<lparr>at_path = p, action = AppendChildren (map (\<lambda>n. Html (to_html n)) new)\<rparr>]
      else if new = [] then Inr [\<lparr>at_path = p, action = ClearChildren\<rparr>]
      else walk_back child_diff oc old new (edit_table old new) p (length old) (length new))"

subsection \<open>Nodes\<close>

text \<open>The recursive calls for children are guarded by the bounds that the walk respects.\<close>

function diff_at :: "lnode \<Rightarrow> lnode \<Rightarrow> nat list \<Rightarrow> old_children \<Rightarrow> patch list result" where
  "diff_at this other p oc =
     (case (this, other) of
        (Fragment old, Fragment new) \<Rightarrow>
          diff_children (\<lambda>i j q. if i < length old \<and> j < length new then diff_at (old ! i) (new ! j) q oc else Inl Panic)
            p old new oc
      | (Text _, Text new) \<Rightarrow> Inr [\<lparr>at_path = p, action = SetText new\<rparr>]
      | (Element old_name old_attrs old, Element new_name new_attrs new) \<Rightarrow>
          and_then
            (diff_children (\<lambda>i j q. if i < length old \<and> j < length new then diff_at (old ! i) (new ! j) q oc else Inl Panic)
              p old new oc)
            (\<lambda>children_patch. Inr (diff_attrs p old_attrs new_attrs @
               (if old_name \<noteq> new_name then [\<lparr>at_path = p, action = ChangeTagName new_name\<rparr>] else []) @
               children_patch))
      | (Component old_name _ old, Component new_name _ new) \<Rightarrow>
          if old_name = new_name
          then diff_children (\<lambda>i j q. if i < length old \<and> j < length new then diff_at (old ! i) (new ! j) q oc else Inl Panic)
                 (p @ [0, 0]) old new oc
          else Inr []
      | (DynChild _, DynChild _) \<Rightarrow> Inr []
      | _ \<Rightarrow> Inr [\<lparr>at_path = p, action = ReplaceWith (to_replacement_node oc other)\<rparr>])"
  by pat_completeness auto
termination
proof (relation "measure (\<lambda>(this, _). size this)")
qed (auto simp: less_Suc_eq_le intro!: size_list_estimation' [OF nth_mem])

declare diff_at.simps [simp del]

definition lnode_diff :: "lnode \<Rightarrow> lnode \<Rightarrow> patch list result" where
  "lnode_diff this other = diff_at this other [] (add_old_children this [] [])"

subsection \<open>The views of a file\<close>

record macro_invocation =
  ident :: string
  template :: lnode

text \<open>
  \<open>ViewMacros::patch\<close> on the current views of a path, given the result of parsing the
  file: the patches to send, and the views to remember.
\<close>

fun diff_views :: "macro_invocation list \<Rightarrow> macro_invocation list \<Rightarrow> (string \<times> patch list) list result" where
  "diff_views (c # cs) (n # ns) =
     and_then (if ident c = ident n \<and> template c \<noteq> template n
               then map_sum id (\<lambda>ps. [(ident c, ps)]) (lnode_diff (template c) (template n))
               else Inr []) (\<lambda>d. map_sum id ((@) d) (diff_views cs ns))"
| "diff_views _ _ = Inr []"

definition views_patch ::
  "string \<Rightarrow> macro_invocation list \<Rightarrow> (string \<rightharpoonup> macro_invocation list)
     \<Rightarrow> ((string \<times> patch list) list option \<times> (string \<rightharpoonup> macro_invocation list)) result" where
  "views_patch file new_views views =
     (case views file of
        None \<Rightarrow> Inr (None, views)
      | Some current_views \<Rightarrow>
          if length current_views = length new_views
          then map_sum id (\<lambda>diffs. (Some diffs, views(file \<mapsto> new_views))) (diff_views current_views new_views)
          else Inr (None, views(file \<mapsto> new_views)))"

text \<open>\<open>span_to_stable_id\<close> with the line printed in decimal.\<close>

definition span_to_stable_id :: "(nat \<Rightarrow> string) \<Rightarrow> string \<Rightarrow> nat \<Rightarrow> string" where
  "span_to_stable_id show_nat file line =
     map (\<lambda>c. if c = CHR ''/'' \<or> c = CHR 0x5C then CHR ''-'' else c) file @ ''-'' @ show_nat line"

end
