(* ===== verification/Hot_Reload_Client.thy ===== *)
theory Hot_Reload_Client
  imports Hot_Reload
begin

text \<open>
  The client that applies the patches of a hot reload (\<^verbatim>\<open>src/leptos_hot_reload/src/patch.js\<close>) to one
  instance of a view: the nodes between its two comments. The documents are made of elements and
  texts; the comments that mark components, dynamic content and fragments, and replacements
  that move existing nodes by their path, are not modelled. How the browser parses HTML is the
  parameter \<open>parse\<close>. An exception, which ends all patching, is \<open>None\<close>.
\<close>

datatype live_dom = DText string | DElem string "string \<rightharpoonup> string" "live_dom list"

text \<open>
  In an HTML document \<^verbatim>\<open>createElement\<close>, \<^verbatim>\<open>setAttribute\<close> and \<^verbatim>\<open>removeAttribute\<close> convert names to lower case.
\<close>

definition ascii_lower :: "char \<Rightarrow> char" where
  "ascii_lower c = (let n = (of_char c :: nat) in if 65 \<le> n \<and> n \<le> 90 then char_of (n + 32) else c)"

definition set_attrs :: "(string \<times> string) list \<Rightarrow> (string \<rightharpoonup> string) \<Rightarrow> (string \<rightharpoonup> string)" where
  "set_attrs as m = fold (\<lambda>(k, v) m. m(map ascii_lower k \<mapsto> v)) as m"

text \<open>
  \<open>fromReplacementNode\<close>. An empty string is false in a condition, so that empty HTML is taken for
  a path, which it does not have.
\<close>

fun from_replacement_node :: "(string \<Rightarrow> live_dom list) \<Rightarrow> replacement \<Rightarrow> live_dom list option" where
  "from_replacement_node parse (Html s) = (if s = [] then None else Some (parse s))"
| "from_replacement_node parse (RFragment rs) = map_option concat (those (map (from_replacement_node parse) rs))"
| "from_replacement_node parse (RElement n as rs) =
     map_option (\<lambda>xs. [DElem (map ascii_lower n) (set_attrs as Map.empty) (concat xs)])
       (those (map (from_replacement_node parse) rs))"
| "from_replacement_node parse (Path p) = None"

text \<open>
  Moving the children to a new element iterates over a list that loses each child as it is moved, so
  that every second one is skipped.
\<close>

fun every_other :: "'a list \<Rightarrow> 'a list" where
  "every_other [] = []"
| "every_other [x] = [x]"
| "every_other (x # y # xs) = x # every_other xs"

definition insert_at :: "nat \<Rightarrow> 'a list \<Rightarrow> 'a list \<Rightarrow> 'a list" where
  "insert_at i new xs = take i xs @ new @ drop i xs"

text \<open>
  What an action does to the node it is for: the nodes that take its place. An action with an empty
  string matches no case and is skipped with a warning.
\<close>

fun apply_action :: "(string \<Rightarrow> live_dom list) \<Rightarrow> patch_action \<Rightarrow> live_dom \<Rightarrow> live_dom list option" where
  "apply_action parse (ReplaceWith r) d = from_replacement_node parse r"
| "apply_action parse (SetText t) d =
     Some [if t = [] then d else case d of DText _ \<Rightarrow> DText t | DElem n a cs \<Rightarrow> DElem n a [DText t]]"
| "apply_action parse ClearChildren d = Some [case d of DText _ \<Rightarrow> DText [] | DElem n a cs \<Rightarrow> DElem n a []]"
| "apply_action parse (ChangeTagName n) d =
     (if n = [] then Some [d]
      else case d of DText _ \<Rightarrow> None | DElem _ a cs \<Rightarrow> Some [DElem (map ascii_lower n) a (every_other cs)])"
| "apply_action parse (RemoveAttribute k) d =
     (if k = [] then Some [d]
      else case d of DText _ \<Rightarrow> None | DElem n a cs \<Rightarrow> Some [DElem n (a(map ascii_lower k := None)) cs])"
| "apply_action parse (SetAttribute k v) d =
     (case d of DText _ \<Rightarrow> None | DElem n a cs \<Rightarrow> Some [DElem n (set_attrs [(k, v)] a) cs])"
| "apply_action parse (AppendChildren rs) d =
     (case d of DText _ \<Rightarrow> None
      | DElem n a cs \<Rightarrow> map_option (\<lambda>xs. [DElem n a (cs @ concat xs)]) (those (map (from_replacement_node parse) rs)))"
| "apply_action parse (RemoveChild i) d =
     (case d of DText _ \<Rightarrow> None
      | DElem n a cs \<Rightarrow> if i < length cs then Some [DElem n a (take i cs @ drop (Suc i) cs)] else None)"
| "apply_action parse (InsertChild i r) d =
     (case d of DText _ \<Rightarrow> None
      | DElem n a cs \<Rightarrow> map_option (\<lambda>x. [DElem n a (insert_at i x cs)]) (from_replacement_node parse r))"
| "apply_action parse (InsertChildAfter i r) d =
     (case d of DText _ \<Rightarrow> None
      | DElem n a cs \<Rightarrow> map_option (\<lambda>x. [DElem n a (insert_at (Suc i) x cs)]) (from_replacement_node parse r))"

text \<open>An action on a view of several nodes as a whole, which have no node of their own in common.\<close>

fun apply_to_range :: "(string \<Rightarrow> live_dom list) \<Rightarrow> patch_action \<Rightarrow> live_dom list \<Rightarrow> live_dom list option" where
  "apply_to_range parse (ReplaceWith r) ds = from_replacement_node parse r"
| "apply_to_range parse ClearChildren ds = Some []"
| "apply_to_range parse (SetText t) ds = (if t = [] then Some ds else None)"
| "apply_to_range parse (ChangeTagName n) ds = (if n = [] then Some ds else None)"
| "apply_to_range parse (RemoveAttribute k) ds = (if k = [] then Some ds else None)"
| "apply_to_range parse (SetAttribute k v) ds = None"
| "apply_to_range parse (AppendChildren rs) ds = None"
| "apply_to_range parse (RemoveChild i) ds = (if i < length ds then Some (take i ds @ drop (Suc i) ds) else None)"
| "apply_to_range parse (InsertChild i r) ds = map_option (\<lambda>x. insert_at i x ds) (from_replacement_node parse r)"
| "apply_to_range parse (InsertChildAfter i r) ds = None"

text \<open>
  \<open>childAtPath\<close>, and the change of what it finds: a path that leads below a text ends at the text, with
  a warning; a path to a child that does not exist is an exception.
\<close>

fun edit_at :: "(live_dom \<Rightarrow> live_dom list option) \<Rightarrow> nat list \<Rightarrow> live_dom \<Rightarrow> live_dom list option" where
  "edit_at f [] d = f d"
| "edit_at f (i # p) (DText t) = f (DText t)"
| "edit_at f (i # p) (DElem n a cs) =
     (if i < length cs
      then map_option (\<lambda>ds. [DElem n a (take i cs @ ds @ drop (Suc i) cs)]) (edit_at f p (cs ! i)) else None)"

definition apply_patch :: "(string \<Rightarrow> live_dom list) \<Rightarrow> patch \<Rightarrow> live_dom list \<Rightarrow> live_dom list option" where
  "apply_patch parse p ds =
     (case ds of
        [] \<Rightarrow> None
      | [d] \<Rightarrow> edit_at (apply_action parse (action p)) (at_path p) d
      | _ \<Rightarrow> (case at_path p of
          [] \<Rightarrow> apply_to_range parse (action p) ds
        | i # q \<Rightarrow> if i < length ds
            then map_option (\<lambda>xs. take i ds @ xs @ drop (Suc i) ds) (edit_at (apply_action parse (action p)) q (ds ! i))
            else None))"

fun apply_all :: "(string \<Rightarrow> live_dom list) \<Rightarrow> patch list \<Rightarrow> live_dom list \<Rightarrow> live_dom list option" where
  "apply_all parse [] ds = Some ds"
| "apply_all parse (p # ps) ds = Option.bind (apply_patch parse p ds) (apply_all parse ps)"

end
