(* ===== verification/Hot_Reload_Correct.thy ===== *)
theory Hot_Reload_Correct
  imports Hot_Reload_Client
begin

text \<open>
  Correctness of the hot-reload patches: the loops compute the edit distance, the walk
  back never reaches the branch marked unreachable, and the patches, applied by the client,
  turn the old view into the new one, unless they change the name of an element.
\<close>

subsection \<open>The table holds edit distances\<close>

fun lev :: "'a list \<Rightarrow> 'a list \<Rightarrow> nat \<Rightarrow> nat \<Rightarrow> nat" where
  "lev old new 0 j = j"
| "lev old new (Suc i) 0 = Suc i"
| "lev old new (Suc i) (Suc j) =
     (if old ! i = new ! j then lev old new i j
      else min (min (lev old new (Suc i) j + 1) (lev old new i (Suc j) + 1)) (lev old new i j + 1))"

lemma lev_0 [simp]: "lev old new i 0 = i"
  by (cases i) auto

lemma cell_inject:
  fixes w :: nat
  assumes "i < w" "i' < w"
  shows "j * w + i = j' * w + i' \<longleftrightarrow> j = j' \<and> i = i'"
proof
  assume e: "j * w + i = j' * w + i'"
  have "(j * w + i) div w = j" "(j' * w + i') div w = j'" using assms by auto
  with e have "j = j'" by metis
  with e show "j = j' \<and> i = i'" by simp
qed simp

lemma cell_bound:
  fixes w :: nat
  assumes "i < w" "j < h" shows "j * w + i < w * h"
proof -
  have "j * w + i < Suc j * w" using assms(1) by simp
  also have "\<dots> \<le> h * w" using assms(2) by (intro mult_le_mono1) simp
  finally show ?thesis by (simp add: mult.commute)
qed

text \<open>The cells of the first row and column, and of the first \<open>J\<close> rows, are right.\<close>

definition rows_ok :: "'a list \<Rightarrow> 'a list \<Rightarrow> nat \<Rightarrow> nat list \<Rightarrow> bool" where
  "rows_ok old new J mat \<longleftrightarrow> length mat = (length old + 1) * (length new + 1) \<and>
     (\<forall>j\<le>length new. \<forall>i\<le>length old. i = 0 \<or> j < J \<longrightarrow> mat ! (j * (length old + 1) + i) = lev old new i j)"

lemma fold_update_length [simp]: "length (fold (\<lambda>i m. m[f i := g i m]) is m) = length m"
  by (induction "is" arbitrary: m) auto

lemma fold_update_other: "k \<notin> f ` set is \<Longrightarrow> fold (\<lambda>i m. m[f i := g i]) is m ! k = m ! k"
  by (induction "is" arbitrary: m) auto

lemma fold_update_hit:
  assumes "inj_on f (set is)" "i \<in> set is" "f i < length m" "distinct is"
  shows "fold (\<lambda>i m. m[f i := g i]) is m ! f i = g i"
  using assms
proof (induction "is" arbitrary: m)
  case (Cons x xs)
  show ?case
  proof (cases "i = x")
    case True
    then have "f i \<notin> f ` set xs" using Cons.prems(1,4) by (auto simp: inj_on_def)
    then show ?thesis using True Cons.prems(3) fold_update_other [of "f i" f xs g] by simp
  next
    case False
    then show ?thesis using Cons by (auto simp: inj_on_def)
  qed
qed simp

lemma init_table_nth:
  assumes "i < w" "j < h" "i = 0 \<or> j = 0"
  shows "init_table w h ! (j * w + i) = (if j = 0 then i else j)" "length (init_table w h) = w * h"
proof -
  define m0 where "m0 = fold (\<lambda>i mat. mat[i := i]) [1..<w] (replicate (w * h) (0::nat))"
  have len: "length m0 = w * h" by (simp add: m0_def)
  have tab: "init_table w h = fold (\<lambda>i mat. mat[i * w := i]) [1..<h] m0" by (simp add: init_table_def m0_def)
  then show "length (init_table w h) = w * h" using len by simp
  show "init_table w h ! (j * w + i) = (if j = 0 then i else j)"
  proof (cases "j = 0")
    case False
    then have "i = 0" "j \<in> set [1..<h]" "j * w < length m0"
      using assms cell_bound [of 0 w j h] len by auto
    then show ?thesis
      using fold_update_hit [of "\<lambda>i. i * w" "[1..<h]" j m0 "\<lambda>i. i"] False assms(1) by (simp add: tab inj_on_def)
  next
    case True
    have "i \<notin> (\<lambda>i. i * w) ` set [1..<h]" using assms(1) by auto
    then have "init_table w h ! i = m0 ! i" unfolding tab by (rule fold_update_other)
    moreover have "m0 ! i = i"
    proof (cases "i = 0")
      case True
      then have "m0 ! i = replicate (w * h) 0 ! i" unfolding m0_def by (intro fold_update_other [of _ "\<lambda>i. i"]) auto
      then show ?thesis using True assms cell_bound [of 0 w 0 h] by simp
    next
      case False
      then show ?thesis unfolding m0_def
        using assms cell_bound [of i w 0 h] by (intro fold_update_hit [of "\<lambda>i. i"]) auto
    qed
    ultimately show ?thesis using True by simp
  qed
qed

lemma init_rows_ok: "rows_ok old new 1 (init_table (length old + 1) (length new + 1))"
  using init_table_nth [of _ "length old + 1" _ "length new + 1"] by (auto simp: rows_ok_def)

lemma fill_row_ok:
  assumes "rows_ok old new J mat" "1 \<le> J" "J \<le> length new"
  shows "rows_ok old new (Suc J) (fill_row old new (length old + 1) J mat)"
proof -
  define w h where wh: "w = length old + 1" "h = length new + 1"
  let ?row = "\<lambda>n. fold (\<lambda>i mat. mat[J * w + i := table_entry old new w J i mat]) [1..<n] mat"
  have len: "length (?row n) = w * h" for n using assms(1) by (simp add: rows_ok_def wh)
  have row: "(\<forall>i<n. ?row n ! (J * w + i) = lev old new i J) \<and>
      (\<forall>j\<le>length new. \<forall>i\<le>length old. j \<noteq> J \<longrightarrow> ?row n ! (j * w + i) = mat ! (j * w + i))"
    if "1 \<le> n" "n \<le> w" for n
    using that
  proof (induction n rule: nat_induct_at_least)
    case base
    show ?case using assms by (auto simp: rows_ok_def wh)
  next
    case (Suc n)
    then have n: "1 \<le> n" "n < w" and IH: "\<forall>i<n. ?row n ! (J * w + i) = lev old new i J"
      "\<forall>j\<le>length new. \<forall>i\<le>length old. j \<noteq> J \<longrightarrow> ?row n ! (j * w + i) = mat ! (j * w + i)" by auto
    obtain i' j' where ij: "n = Suc i'" "J = Suc j'" using n(1) assms(2) by (metis Suc_le_D One_nat_def)
    have step: "?row (Suc n) = (?row n)[J * w + n := table_entry old new w J n (?row n)]"
      using n(1) by (simp add: upt_Suc_append)
    have prev: "?row n ! (j' * w + i) = lev old new i j'" if "i \<le> length old" for i
      using IH(2) [rule_format, of j' i] assms ij that by (simp add: rows_ok_def wh)
    have "table_entry old new w J n (?row n) = lev old new n J"
      using prev [of i'] prev [of n] IH(1) n ij by (simp add: table_entry_def wh)
    moreover have "J * w + n < length (?row n)" using cell_bound [of n w J h] n assms(3) len by (simp add: wh)
    moreover have "(J * w + n = j * w + i) = (j = J \<and> i = n)" if "i < w" for i j
      using cell_inject [OF n(2) that, of J j] by auto
    ultimately have new: "?row (Suc n) ! (j * w + i) = (if j = J \<and> i = n then lev old new n J else ?row n ! (j * w + i))"
      if "i < w" for i j using that unfolding step by (simp add: nth_list_update)
    show ?case
    proof (intro conjI allI impI)
      fix i assume "i < Suc n"
      then show "?row (Suc n) ! (J * w + i) = lev old new i J" using new [of i J] IH(1) n(2) by auto
    next
      fix j i assume "j \<le> length new" "i \<le> length old" "j \<noteq> J"
      then show "?row (Suc n) ! (j * w + i) = mat ! (j * w + i)" using new [of i j] IH(2) by (simp add: wh)
    qed
  qed
  then have "\<forall>i\<le>length old. fill_row old new w J mat ! (J * w + i) = lev old new i J"
    "\<forall>j\<le>length new. \<forall>i\<le>length old. j \<noteq> J \<longrightarrow> fill_row old new w J mat ! (j * w + i) = mat ! (j * w + i)"
    unfolding fill_row_def using row [of w] by (auto simp: wh)
  moreover have "length (fill_row old new w J mat) = w * h" unfolding fill_row_def by (rule len)
  ultimately show ?thesis
    using assms(1) unfolding rows_ok_def wh by (metis less_antisym)
qed

lemma edit_table_ok:
  assumes "i \<le> length old" "j \<le> length new"
  shows "edit_table old new ! (j * (length old + 1) + i) = lev old new i j"
proof -
  have "rows_ok old new n (fold (fill_row old new (length old + 1)) [1..<n] (init_table (length old + 1) (length new + 1)))"
    if "1 \<le> n" "n \<le> length new + 1" for n
    using that
  proof (induction n rule: nat_induct_at_least)
    case base
    then show ?case using init_rows_ok [of old new] by simp
  next
    case (Suc n)
    then show ?case using fill_row_ok [of old new n] by (simp add: upt_Suc_append)
  qed
  from this [of "length new + 1"] show ?thesis
    using assms by (simp add: rows_ok_def edit_table_def Let_def)
qed

subsection \<open>The walk back\<close>

lemma walk_back_cases:
  fixes cd oc p
  assumes "i \<le> length old" "j \<le> length new"
  defines "walk \<equiv> walk_back cd oc old new (edit_table old new) p"
  obtains (finished) "i = 0" "j = 0" "walk i j = Inr []"
  | (equal) i' j' where "i = Suc i'" "j = Suc j'" "old ! i' = new ! j'" "walk i j = walk i' j'"
  | (replace) i' j' where "i = Suc i'" "j = Suc j'"
      "walk i j = (case cd i' j' (p @ [i']) of Inl e \<Rightarrow> Inl e | Inr diffs \<Rightarrow> map_sum id ((@) diffs) (walk i' j'))"
  | (remove) i' where "i = Suc i'"
      "walk i j = map_sum id ((#) \<lparr>at_path = p, action = RemoveChild i'\<rparr>) (walk i' j)"
  | (insert) j' where "j = Suc j'"
      "walk i j = map_sum id ((#) \<lparr>at_path = p, action = InsertChild i (to_replacement_node oc (new ! j'))\<rparr>) (walk i j')"
proof -
  let ?w = "length old + 1"
  let ?mat = "edit_table old new"
  consider (a) "i = 0" "j = 0" | (b) i' where "i = Suc i'" "j = 0" | (c) j' where "i = 0" "j = Suc j'"
    | (d) i' j' where "i = Suc i'" "j = Suc j'" by (metis old.nat.exhaust)
  then show thesis
  proof cases
    case a
    then show thesis by (intro finished) (simp_all add: walk_def walk_back.simps [of _ _ _ _ _ _ 0 0])
  next
    case b
    have "walk i j = map_sum id ((#) \<lparr>at_path = p, action = RemoveChild i'\<rparr>) (walk i' j)"
      unfolding walk_def using edit_table_ok [of i' old 0 new] edit_table_ok [of i old 0 new] assms(1,2) b
      by (subst walk_back.simps) simp
    then show thesis using b remove by blast
  next
    case c
    have "walk i j = map_sum id ((#) \<lparr>at_path = p, action = InsertChild i (to_replacement_node oc (new ! j'))\<rparr>) (walk i j')"
      unfolding walk_def using edit_table_ok [of 0 old j' new] edit_table_ok [of 0 old j new] assms(1,2) c
      by (subst walk_back.simps) simp
    then show thesis using c insert by blast
  next
    case d
    have cells: "?mat ! (j' * ?w + i') = lev old new i' j'" "?mat ! (j * ?w + i) = lev old new i j"
      "?mat ! (j * ?w + i') = lev old new i' j" "?mat ! (j' * ?w + i) = lev old new i j'"
      by (rule edit_table_ok; use assms(1,2) d in simp)+
    show thesis
    proof (cases "old ! i' = new ! j'")
      case True
      then have "walk i j = walk i' j'" unfolding walk_def using d by (subst walk_back.simps) simp
      then show thesis using d True equal by blast
    next
      case False
      then have "lev old new i j = min (min (lev old new i j' + 1) (lev old new i' j + 1)) (lev old new i' j' + 1)"
        using d by simp
      then have "lev old new i j' + 1 = lev old new i j \<or> lev old new i' j + 1 = lev old new i j \<or>
          lev old new i' j' + 1 = lev old new i j" by (metis min_def)
      then consider (x) "lev old new i' j' + 1 = lev old new i j"
        | (y) "lev old new i' j' + 1 \<noteq> lev old new i j" "lev old new i' j + 1 = lev old new i j"
        | (z) "lev old new i' j' + 1 \<noteq> lev old new i j" "lev old new i' j + 1 \<noteq> lev old new i j" "lev old new i j' + 1 = lev old new i j"
        by blast
      then show thesis
      proof cases
        case x
        have "walk i j = (case cd i' j' (p @ [i']) of Inl e \<Rightarrow> Inl e | Inr diffs \<Rightarrow> map_sum id ((@) diffs) (walk i' j'))"
          unfolding walk_def using False d x cells by (subst walk_back.simps) (simp del: lev.simps split: sum.split)
        then show thesis using d replace by blast
      next
        case y
        have "walk i j = map_sum id ((#) \<lparr>at_path = p, action = RemoveChild i'\<rparr>) (walk i' j)"
          unfolding walk_def using False d y cells by (subst walk_back.simps) (simp del: lev.simps)
        then show thesis using d remove by blast
      next
        case z
        have "walk i j = map_sum id ((#) \<lparr>at_path = p, action = InsertChild i (to_replacement_node oc (new ! j'))\<rparr>) (walk i j')"
          unfolding walk_def using False d z cells by (subst walk_back.simps) (simp del: lev.simps)
        then show thesis using d insert by blast
      qed
    qed
  qed
qed

lemma walk_back_returns:
  assumes "\<And>i j q. i < length old \<Longrightarrow> j < length new \<Longrightarrow> \<exists>ps. cd i j q = Inr ps"
    and "i \<le> length old" "j \<le> length new"
  shows "\<exists>ps. walk_back cd oc old new (edit_table old new) p i j = Inr ps"
  using assms(2,3)
proof (induction "i + j" arbitrary: i j rule: less_induct)
  case less
  note IH = less.hyps
  show ?case
  proof (cases rule: walk_back_cases [OF less.prems, of cd oc p, case_names finished equal replace remove insert])
    case (replace i' j')
    then show ?thesis
      using assms(1) [of i' j' "p @ [i']"] IH [of i' j'] less.prems by (auto split: sum.split)
  qed (use IH less.prems in \<open>fastforce+\<close>)
qed

lemma diff_children_returns:
  assumes "\<And>i j q. i < length old \<Longrightarrow> j < length new \<Longrightarrow> \<exists>ps. cd i j q = Inr ps"
  shows "\<exists>ps. diff_children cd p old new oc = Inr ps"
  using walk_back_returns [of old new cd "length old" "length new" oc p] assms by (auto simp: diff_children_def)

lemma diff_at_returns: "\<exists>ps. diff_at this other p oc = Inr ps"
proof (induction this other p oc rule: diff_at.induct)
  case (1 this other p oc)
  note IH = "1.IH"
  have kids: "\<exists>ps. diff_children (\<lambda>i j q. if i < length old \<and> j < length new then diff_at (old ! i) (new ! j) q oc else Inl Panic) q' old new oc = Inr ps"
    if "\<And>i j q. i < length old \<Longrightarrow> j < length new \<Longrightarrow> \<exists>ps. diff_at (old ! i) (new ! j) q oc = Inr ps" for old new q'
    using that by (intro diff_children_returns) simp
  show ?case
  proof (cases this)
    case (Fragment old)
    then show ?thesis using kids [of old] IH(1) by (subst diff_at.simps) (cases other; simp)
  next
    case (Text t)
    then show ?thesis by (subst diff_at.simps) (cases other; simp)
  next
    case (Element n as old)
    show ?thesis
    proof (cases other)
      case (Element n' as' new)
      obtain ps where "diff_children (\<lambda>i j q. if i < length old \<and> j < length new then diff_at (old ! i) (new ! j) q oc else Inl Panic) p old new oc = Inr ps"
        using kids [of old new p] IH(2) [OF refl] \<open>this = Element n as old\<close> Element by blast
      then show ?thesis using \<open>this = Element n as old\<close> Element by (subst diff_at.simps) simp
    qed (use \<open>this = Element n as old\<close> in \<open>subst diff_at.simps, simp\<close>)+
  next
    case (Component n ps old)
    then show ?thesis using kids [of old] IH(3) by (subst diff_at.simps) (cases other; simp)
  next
    case (DynChild d)
    then show ?thesis by (subst diff_at.simps) (cases other; simp)
  qed
qed

subsection \<open>What the patches do\<close>

fun get_at :: "nat list \<Rightarrow> live_dom \<Rightarrow> live_dom option" where
  "get_at [] d = Some d"
| "get_at (i # p) (DElem n a cs) = (if i < length cs then get_at p (cs ! i) else None)"
| "get_at (i # p) (DText t) = None"

fun put_at :: "nat list \<Rightarrow> live_dom \<Rightarrow> live_dom \<Rightarrow> live_dom" where
  "put_at [] x d = x"
| "put_at (i # p) x (DElem n a cs) = DElem n a (cs[i := put_at p x (cs ! i)])"
| "put_at (i # p) x (DText t) = DText t"

text \<open>
  Views without dynamic parts, and the document they stand for. Names are in lower case, and texts
  and names are not empty.
\<close>

definition plain_name :: "string \<Rightarrow> bool" where
  "plain_name n \<longleftrightarrow> n \<noteq> [] \<and> map ascii_lower n = n"

definition static_attr :: "string \<times> lattribute \<Rightarrow> bool" where
  "static_attr a = (plain_name (fst a) \<and> (case snd a of Static _ \<Rightarrow> True | _ \<Rightarrow> False))"

fun static_tree :: "lnode \<Rightarrow> bool" where
  "static_tree (Text t) = (t \<noteq> [])"
| "static_tree (Element n as cs) =
     (plain_name n \<and> list_all static_attr as \<and> distinct (map fst as) \<and> (\<forall>c\<in>set cs. static_tree c))"
| "static_tree _ = False"

definition attr_dom :: "string \<times> lattribute \<Rightarrow> string \<times> string" where
  "attr_dom a = (fst a, case snd a of Static v \<Rightarrow> v | _ \<Rightarrow> [])"

fun to_dom :: "lnode \<Rightarrow> live_dom" where
  "to_dom (Element n as cs) = DElem n (map_of (map attr_dom as)) (map to_dom cs)"
| "to_dom (Text t) = DText t"
| "to_dom _ = DText []"

text \<open>The browser reads back the HTML of the node and of everything in it.\<close>

fun reads_back :: "(string \<Rightarrow> live_dom list) \<Rightarrow> lnode \<Rightarrow> bool" where
  "reads_back parse (Element n as cs) =
     (parse (to_html (Element n as cs)) = [to_dom (Element n as cs)] \<and> (\<forall>c\<in>set cs. reads_back parse c))"
| "reads_back parse n = (parse (to_html n) = [to_dom n])"

lemma reads_back_self: "reads_back parse n \<Longrightarrow> parse (to_html n) = [to_dom n]"
  by (cases n) auto

lemma to_html_nonempty: "static_tree n \<Longrightarrow> to_html n \<noteq> []"
  by (cases n) auto

subsubsection \<open>Paths\<close>

lemma get_put [simp]: "get_at p d \<noteq> None \<Longrightarrow> get_at p (put_at p x d) = Some x"
  by (induction p d rule: get_at.induct) (auto split: if_splits)

lemma put_put [simp]: "put_at p x (put_at p y d) = put_at p x d"
proof (induction p y d rule: put_at.induct)
  case (2 i p y n a cs)
  then show ?case by (cases "i < length cs") (auto simp: list_update_beyond)
qed auto

lemma put_same: "get_at p d = Some x \<Longrightarrow> put_at p x d = d"
  by (induction p d rule: get_at.induct) (auto split: if_splits)

lemma get_child: "get_at p d = Some (DElem n a cs) \<Longrightarrow> i < length cs \<Longrightarrow> get_at (p @ [i]) d = Some (cs ! i)"
  by (induction p d rule: get_at.induct) (auto split: if_splits)

lemma put_child:
  "get_at p d = Some (DElem n a cs) \<Longrightarrow> put_at (p @ [i]) y d = put_at p (DElem n a (cs[i := y])) d"
  by (induction p d rule: get_at.induct) (auto split: if_splits)

lemma apply_all_append: "apply_all parse (ps @ qs) d = Option.bind (apply_all parse ps d) (apply_all parse qs)"
  by (induction ps arbitrary: d) (auto intro: bind_option_cong)

lemma edit_at_put: "get_at p d = Some x \<Longrightarrow> f x = Some [y] \<Longrightarrow> edit_at f p d = Some [put_at p y d]"
  by (induction f p d rule: edit_at.induct) (auto simp: upd_conv_take_nth_drop split: if_splits)

text \<open>\<open>turns parse ps p x y\<close>: wherever \<open>x\<close> is at the path \<open>p\<close>, the patches put \<open>y\<close> there.\<close>

definition turns :: "(string \<Rightarrow> live_dom list) \<Rightarrow> patch list \<Rightarrow> nat list \<Rightarrow> live_dom \<Rightarrow> live_dom \<Rightarrow> bool" where
  "turns parse ps p x y \<longleftrightarrow> (\<forall>d. get_at p d = Some x \<longrightarrow> apply_all parse ps [d] = Some [put_at p y d])"

lemma turns_Nil: "turns parse [] p x x"
  by (simp add: turns_def put_same)

lemma turns_trans: "turns parse ps p x y \<Longrightarrow> turns parse qs p y z \<Longrightarrow> turns parse (ps @ qs) p x z"
  by (simp add: turns_def apply_all_append)

lemma turns_one: "apply_action parse act x = Some [y] \<Longrightarrow> turns parse [\<lparr>at_path = p, action = act\<rparr>] p x y"
  by (auto simp: turns_def apply_patch_def edit_at_put)

lemma turns_Cons:
  assumes "apply_action parse act x = Some [y]" "turns parse qs p y z"
  shows "turns parse (\<lparr>at_path = p, action = act\<rparr> # qs) p x z"
  using turns_trans [OF turns_one [OF assms(1)] assms(2)] by simp

lemma turns_child:
  assumes "turns parse ps (p @ [i]) (cs ! i) y" "i < length cs"
  shows "turns parse ps p (DElem n a cs) (DElem n a (cs[i := y]))"
  using assms by (auto simp: turns_def get_child put_child)

subsubsection \<open>Attributes, replacements and children\<close>

lemma fold_map_of:
  assumes "distinct (map fst as)"
  shows "fold (\<lambda>(k, v) m. m(k \<mapsto> v)) as m = m ++ map_of as"
  using assms
proof (induction as arbitrary: m)
  case (Cons a as)
  obtain k v where a: "a = (k, v)" by fastforce
  have "map_of as k = None" using Cons.prems a by (auto simp: map_of_eq_None_iff)
  then show ?case using Cons a by (auto simp: map_add_def fun_eq_iff split: option.splits)
qed simp

lemma set_attrs_plain: "\<forall>a\<in>set as. plain_name (fst a) \<Longrightarrow> set_attrs as m = fold (\<lambda>(k, v) m. m(k \<mapsto> v)) as m"
  unfolding set_attrs_def by (rule fold_cong) (auto simp: plain_name_def)

lemma those_singles: "\<forall>x\<in>set xs. f x = Some [g x] \<Longrightarrow> those (map f xs) = Some (map (\<lambda>x. [g x]) xs)"
  by (induction xs) auto

lemma concat_singles [simp]: "concat (map (\<lambda>x. [g x]) xs) = map g xs"
  by (induction xs) auto

lemma build_replacement:
  assumes "static_tree n" "reads_back parse n" "\<And>m. static_tree m \<Longrightarrow> map_of oc m = None"
  shows "from_replacement_node parse (to_replacement_node oc n) = Some [to_dom n]"
  using assms(1,2)
proof (induction n)
  case (Text t)
  then show ?case using assms(3) [of "Text t"] by (simp add: to_replacement_node.simps)
next
  case (Element n as cs)
  have "List.map_filter replacement_attr as = map attr_dom as"
    using Element.prems(1)
    by (induction as) (auto simp: static_attr_def replacement_attr_def attr_dom_def List.map_filter_simps split: lattribute.splits)
  moreover have "set_attrs (map attr_dom as) Map.empty = map_of (map attr_dom as)"
    using fold_map_of [of "map attr_dom as" Map.empty] set_attrs_plain [of "map attr_dom as"] Element.prems(1)
    by (auto simp: comp_def attr_dom_def static_attr_def list_all_iff)
  moreover have "those (map (\<lambda>c. from_replacement_node parse (to_replacement_node oc c)) cs) = Some (map (\<lambda>c. [to_dom c]) cs)"
    using Element by (intro those_singles) simp
  ultimately show ?case
    using assms(3) [OF Element.prems(1)] Element.prems(1) by (subst to_replacement_node.simps) (simp add: comp_def plain_name_def)
qed auto

lemma added_attr_fst: "added_attr old a = Some b \<Longrightarrow> fst b = fst a"
  by (cases a) (auto simp: added_attr_def Let_def split: if_splits lattribute.splits)

lemma distinct_map_filter:
  assumes "distinct (map fst xs)" "\<And>a b. f a = Some b \<Longrightarrow> fst b = fst a"
  shows "distinct (map fst (List.map_filter f xs))"
proof -
  have sub: "fst ` set (List.map_filter f ys) \<subseteq> fst ` set ys" for ys
    by (induction ys) (auto simp: List.map_filter_simps dest: assms(2) split: option.splits)
  show ?thesis
    using assms(1)
  proof (induction xs)
    case (Cons a xs)
    show ?case
    proof (cases "f a")
      case (Some b)
      then have "fst b \<notin> fst ` set (List.map_filter f xs)" using sub [of xs] Cons.prems assms(2) [OF Some] by auto
      then show ?thesis using Some Cons by (simp add: List.map_filter_simps)
    qed (use Cons in \<open>simp add: List.map_filter_simps\<close>)
  qed (simp add: List.map_filter_simps)
qed

lemma turns_attrs:
  assumes "list_all static_attr old" "list_all static_attr new" "distinct (map fst new)"
  shows "turns parse (diff_attrs p old new) p (DElem n (map_of (map attr_dom old)) cs) (DElem n (map_of (map attr_dom new)) cs)"
proof -
  define adds where "adds = List.map_filter (added_attr old) new"
  define rems where "rems = filter (\<lambda>k. k \<notin> fst ` set new) (map fst old)"
  have names: "\<forall>a\<in>set adds. plain_name (fst a)" "\<forall>k\<in>set rems. plain_name k"
  proof -
    have "plain_name (fst b)" if "a \<in> set new" "added_attr old a = Some b" for a b
      using that assms(2) added_attr_fst [OF that(2)] by (auto simp: list_all_iff static_attr_def)
    then show "\<forall>a\<in>set adds. plain_name (fst a)" by (auto simp: adds_def List.map_filter_def)
    show "\<forall>k\<in>set rems. plain_name k" using assms(1) by (auto simp: rems_def list_all_iff static_attr_def)
  qed
  have set_all: "turns parse (map (\<lambda>(k, v). \<lparr>at_path = p, action = SetAttribute k v\<rparr>) as) p (DElem n a cs)
      (DElem n (fold (\<lambda>(k, v) m. m(k \<mapsto> v)) as a) cs)" if "\<forall>a\<in>set as. plain_name (fst a)" for as a
    using that by (induction as arbitrary: a) (auto simp: set_attrs_plain intro: turns_Nil turns_Cons)
  have rem_all: "turns parse (map (\<lambda>k. \<lparr>at_path = p, action = RemoveAttribute k\<rparr>) ks) p (DElem n a cs)
      (DElem n (fold (\<lambda>k m. m(k := None)) ks a) cs)" if "\<forall>k\<in>set ks. plain_name k" for ks a
    using that by (induction ks arbitrary: a) (auto simp: plain_name_def intro: turns_Nil turns_Cons)
  have shape: "diff_attrs p old new = map (\<lambda>(k, v). \<lparr>at_path = p, action = SetAttribute k v\<rparr>) adds @
      map (\<lambda>k. \<lparr>at_path = p, action = RemoveAttribute k\<rparr>) rems"
  proof -
    have "List.map_filter (\<lambda>(name, value). if name \<in> N then None else Some \<lparr>at_path = p, action = RemoveAttribute name\<rparr>) xs =
        map (\<lambda>k. \<lparr>at_path = p, action = RemoveAttribute k\<rparr>) (filter (\<lambda>k. k \<notin> N) (map fst xs))" for N and xs :: "(string \<times> lattribute) list"
      by (induction xs) (auto simp: List.map_filter_simps)
    then show ?thesis by (simp add: diff_attrs_def adds_def rems_def)
  qed
  have fold_none: "fold (\<lambda>k m. m(k := None)) ks (a :: string \<rightharpoonup> string) = (\<lambda>k. if k \<in> set ks then None else a k)" for ks a
    by (induction ks arbitrary: a) (auto simp: fun_eq_iff)
  have look: "map_of (map attr_dom xs) k = map_option (\<lambda>v. case v of Static s \<Rightarrow> s | _ \<Rightarrow> []) (map_of xs k)" for xs k
    by (induction xs) (auto simp: attr_dom_def)
  have stat: "map_of xs k = Some v \<Longrightarrow> list_all static_attr xs \<Longrightarrow> \<exists>s. v = Static s" for xs k v
    by (induction xs) (auto simp: static_attr_def split: if_splits lattribute.splits)
  have adds: "map_of adds k = (case map_of new k of None \<Rightarrow> None
      | Some v \<Rightarrow> if map_of old k = Some v then None else Some (case v of Static s \<Rightarrow> s | _ \<Rightarrow> []))" for k
    unfolding adds_def using assms(2,3)
  proof (induction new)
    case (Cons a new)
    obtain k' v where a: "a = (k', v)" by fastforce
    have "map_of new k' = None" using Cons.prems(2) a by (auto simp: map_of_eq_None_iff)
    then show ?case using Cons a
      by (auto simp: List.map_filter_simps added_attr_def static_attr_def Let_def split: option.splits lattribute.splits)
  qed (simp add: List.map_filter_simps)
  have "distinct (map fst adds)"
    unfolding adds_def using assms(3) added_attr_fst by (rule distinct_map_filter)
  then have set_adds: "fold (\<lambda>(k, v) m. m(k \<mapsto> v)) adds a = a ++ map_of adds" for a by (rule fold_map_of)
  have "fold (\<lambda>k m. m(k := None)) rems (fold (\<lambda>(k, v) m. m(k \<mapsto> v)) adds (map_of (map attr_dom old))) =
      map_of (map attr_dom new)"
    unfolding fold_none
  proof (intro ext)
    fix k
    have "k \<in> set rems \<longleftrightarrow> map_of new k = None \<and> map_of old k \<noteq> None"
      by (auto simp: rems_def map_of_eq_None_iff)
    then show "(if k \<in> set rems then None else fold (\<lambda>(k, v) m. m(k \<mapsto> v)) adds (map_of (map attr_dom old)) k) =
        map_of (map attr_dom new) k"
      unfolding set_adds by (auto simp: look map_add_def adds split: option.splits)
  qed
  then show ?thesis using turns_trans [OF set_all [OF names(1), of "map_of (map attr_dom old)"] rem_all [OF names(2)]] by (simp add: shape)
qed

text \<open>Patches that do not change the name of an element.\<close>

definition no_rename :: "patch list \<Rightarrow> bool" where
  "no_rename ps \<longleftrightarrow> (\<forall>p\<in>set ps. \<forall>n. action p \<noteq> ChangeTagName n)"

lemma no_rename_simps [simp]:
  "no_rename []" "no_rename (p # ps) \<longleftrightarrow> (\<forall>n. action p \<noteq> ChangeTagName n) \<and> no_rename ps"
  "no_rename (ps @ qs) \<longleftrightarrow> no_rename ps \<and> no_rename qs"
  by (auto simp: no_rename_def)

lemma turns_walk:
  assumes "\<And>i j q. i < length old \<Longrightarrow> j < length new \<Longrightarrow>
      \<exists>ps. cd i j q = Inr ps \<and> (no_rename ps \<longrightarrow> turns parse ps q (to_dom (old ! i)) (to_dom (new ! j)))"
    and "\<And>j. j < length new \<Longrightarrow> from_replacement_node parse (to_replacement_node oc (new ! j)) = Some [to_dom (new ! j)]"
    and "i \<le> length old" "j \<le> length new"
  shows "\<exists>ps. walk_back cd oc old new (edit_table old new) p i j = Inr ps \<and> (no_rename ps \<longrightarrow>
    turns parse ps p (DElem n a (map to_dom (take i old @ drop j new))) (DElem n a (map to_dom new)))"
  using assms(3,4)
proof (induction "i + j" arbitrary: i j rule: less_induct)
  case less
  note IH = less.hyps
  show ?case
  proof (cases rule: walk_back_cases [OF less.prems, of cd oc p, case_names finished equal replace remove insert])
    case finished
    then show ?thesis using turns_Nil by simp
  next
    case (equal i' j')
    then have "take i old @ drop j new = take i' old @ drop j' new"
      using less.prems by (simp add: take_Suc_conv_app_nth Cons_nth_drop_Suc [symmetric])
    then show ?thesis using IH [of i' j'] equal less.prems by simp
  next
    case (replace i' j')
    obtain ps where ps: "cd i' j' (p @ [i']) = Inr ps" "no_rename ps \<longrightarrow> turns parse ps (p @ [i']) (to_dom (old ! i')) (to_dom (new ! j'))"
      using assms(1) [of i' j'] replace(1,2) less.prems by fastforce
    obtain qs where qs: "walk_back cd oc old new (edit_table old new) p i' j' = Inr qs"
      "no_rename qs \<longrightarrow> turns parse qs p (DElem n a (map to_dom (take i' old @ drop j' new))) (DElem n a (map to_dom new))"
      using IH [of i' j'] replace(1,2) less.prems by auto
    let ?cs = "map to_dom (take i old @ drop j new)"
    have "?cs ! i' = to_dom (old ! i')" "i' < length ?cs"
      using replace(1) less.prems(1) by (auto simp: nth_append)
    moreover have "?cs[i' := to_dom (new ! j')] = map to_dom (take i' old @ drop j' new)"
      using replace(1,2) less.prems
      by (simp add: take_Suc_conv_app_nth Cons_nth_drop_Suc [symmetric] list_update_append)
    ultimately have "turns parse (ps @ qs) p (DElem n a ?cs) (DElem n a (map to_dom new))" if "no_rename (ps @ qs)"
      using turns_trans [OF turns_child [of parse ps p i' ?cs "to_dom (new ! j')" n a]] ps(2) qs(2) that by simp
    then show ?thesis using replace(3) ps(1) qs(1) by simp
  next
    case (remove i')
    obtain qs where qs: "walk_back cd oc old new (edit_table old new) p i' j = Inr qs"
      "no_rename qs \<longrightarrow> turns parse qs p (DElem n a (map to_dom (take i' old @ drop j new))) (DElem n a (map to_dom new))"
      using IH [of i' j] remove(1) less.prems by auto
    have "apply_action parse (RemoveChild i') (DElem n a (map to_dom (take i old @ drop j new))) =
        Some [DElem n a (map to_dom (take i' old @ drop j new))]"
      using remove(1) less.prems(1) by (simp add: take_map take_Suc_conv_app_nth)
    then show ?thesis using remove(2) qs turns_Cons by fastforce
  next
    case (insert j')
    obtain qs where qs: "walk_back cd oc old new (edit_table old new) p i j' = Inr qs"
      "no_rename qs \<longrightarrow> turns parse qs p (DElem n a (map to_dom (take i old @ drop j' new))) (DElem n a (map to_dom new))"
      using IH [of i j'] insert(1) less.prems by auto
    have "apply_action parse (InsertChild i (to_replacement_node oc (new ! j'))) (DElem n a (map to_dom (take i old @ drop j new))) =
        Some [DElem n a (map to_dom (take i old @ drop j' new))]"
      using insert(1) less.prems assms(2) [of j'] by (simp add: insert_at_def Cons_nth_drop_Suc [symmetric])
    then show ?thesis using insert(2) qs turns_Cons by fastforce
  qed
qed

lemma turns_children:
  assumes kids: "\<And>i j q. i < length old \<Longrightarrow> j < length new \<Longrightarrow>
      \<exists>ps. cd i j q = Inr ps \<and> (no_rename ps \<longrightarrow> turns parse ps q (to_dom (old ! i)) (to_dom (new ! j)))"
    and new: "\<And>c. c \<in> set new \<Longrightarrow> static_tree c \<and> reads_back parse c"
    and oc: "\<And>m. static_tree m \<Longrightarrow> map_of oc m = None"
  shows "\<exists>ps. diff_children cd p old new oc = Inr ps \<and>
    (no_rename ps \<longrightarrow> turns parse ps p (DElem n a (map to_dom old)) (DElem n a (map to_dom new)))"
proof -
  have "\<forall>c\<in>set new. from_replacement_node parse (Html (to_html c)) = Some [to_dom c]"
    using new reads_back_self to_html_nonempty by simp
  then have html: "those (map (from_replacement_node parse) (map (\<lambda>n. Html (to_html n)) new)) = Some (map (\<lambda>c. [to_dom c]) new)"
    using those_singles [of new "\<lambda>c. from_replacement_node parse (Html (to_html c))" to_dom] by (simp add: comp_def)
  have walk: "\<exists>ps. walk_back cd oc old new (edit_table old new) p (length old) (length new) = Inr ps \<and>
      (no_rename ps \<longrightarrow> turns parse ps p (DElem n a (map to_dom old)) (DElem n a (map to_dom new)))"
    using turns_walk [of old new cd parse oc "length old" "length new" p n a] kids new build_replacement [OF _ _ oc]
    by (simp add: nth_mem)
  consider "old = []" "new = []" | "old = []" "new \<noteq> []" | "old \<noteq> []" "new = []" | "old \<noteq> []" "new \<noteq> []" by blast
  then show ?thesis
  proof cases
    case 1
    then show ?thesis using turns_Nil by (simp add: diff_children_def)
  next
    case 2
    then show ?thesis
      using turns_one [of parse "AppendChildren (map (\<lambda>n. Html (to_html n)) new)" "DElem n a []" "DElem n a (map to_dom new)" p] html
      by (simp add: diff_children_def del: map_map)
  next
    case 3
    then show ?thesis
      using turns_one [of parse ClearChildren "DElem n a (map to_dom old)" "DElem n a []" p] by (simp add: diff_children_def)
  next
    case 4
    then show ?thesis using walk by (simp add: diff_children_def)
  qed
qed

lemma diff_at_turns:
  assumes "static_tree this" "static_tree other" "reads_back parse other" "\<And>m. static_tree m \<Longrightarrow> map_of oc m = None"
  shows "\<exists>ps. diff_at this other p oc = Inr ps \<and> (no_rename ps \<longrightarrow> turns parse ps p (to_dom this) (to_dom other))"
  using assms
proof (induction this other p oc rule: diff_at.induct)
  case (1 this other p oc)
  note oc = "1.prems"(4)
  have r: "turns parse [\<lparr>at_path = p, action = ReplaceWith (to_replacement_node oc other)\<rparr>] p (to_dom this) (to_dom other)"
    using build_replacement [OF "1.prems"(2,3) oc] by (intro turns_one) simp
  consider (tt) t t' where "this = Text t" "other = Text t'"
    | (te) t n as cs where "this = Text t" "other = Element n as cs"
    | (et) t n as cs where "this = Element n as cs" "other = Text t"
    | (ee) n as cs n' as' cs' where "this = Element n as cs" "other = Element n' as' cs'"
    using "1.prems"(1,2) by (cases this; cases other) auto
  then show ?case
  proof cases
    case tt
    then show ?thesis using "1.prems"(2) by (subst diff_at.simps) (simp add: turns_one)
  next
    case te
    then show ?thesis using r by (subst diff_at.simps) simp
  next
    case et
    then show ?thesis using r by (subst diff_at.simps) simp
  next
    case ee
    let ?cd = "\<lambda>i j q. if i < length cs \<and> j < length cs' then diff_at (cs ! i) (cs' ! j) q oc else Inl Panic"
    have kids: "\<exists>ps. ?cd i j q = Inr ps \<and> (no_rename ps \<longrightarrow> turns parse ps q (to_dom (cs ! i)) (to_dom (cs' ! j)))"
      if "i < length cs" "j < length cs'" for i j q
      using "1.IH"(2) [OF refl ee, of i j q] that "1.prems" ee by simp
    obtain ps where ps: "diff_children ?cd p cs cs' oc = Inr ps"
      "no_rename ps \<longrightarrow> turns parse ps p (DElem n' (map_of (map attr_dom as')) (map to_dom cs)) (to_dom other)"
      using turns_children [of cs cs' ?cd parse oc p n' "map_of (map attr_dom as')", OF kids _ oc] "1.prems" ee by auto
    have attrs: "turns parse (diff_attrs p as as') p (to_dom this) (DElem n (map_of (map attr_dom as')) (map to_dom cs))"
      using turns_attrs [of as as' parse p n "map to_dom cs"] "1.prems"(1,2) ee by simp
    show ?thesis using ps turns_trans [OF attrs] ee by (subst diff_at.simps) auto
  qed
qed

lemma static_no_old:
  "static_tree n \<Longrightarrow> add_old_children n p pos = pos"
  "(\<forall>c\<in>set cs. static_tree c) \<Longrightarrow> add_all_children cs idx p pos = pos"
  by (induction n p pos and cs idx p pos rule: add_old_children_add_all_children.induct) auto

text \<open>
  Comparing two views never reaches the branch of the walk through the edit table that
  is marked unreachable, and never indexes out of bounds: it always returns a list of patches.
\<close>

lemma hot_reload_never_panics: "\<exists>ps. lnode_diff a b = Inr ps"
  unfolding lnode_diff_def by (rule diff_at_returns)

text \<open>
  C12: for views that are one element or text, made of elements and non-empty texts with static
  attributes and names in lower case, the patches, applied by the client of the repository to the document of the
  old view, give the document of the new view, given that the browser reads back the HTML of
  the new nodes, and that no patch changes the name of an element (the next theorem
  shows what happens then).
\<close>

theorem hot_reload_patches_correct:
  assumes "static_tree a" "static_tree b" "reads_back parse b"
  shows "\<exists>ps. lnode_diff a b = Inr ps \<and>
    ((\<forall>p\<in>set ps. \<forall>n. action p \<noteq> ChangeTagName n) \<longrightarrow> apply_all parse ps [to_dom a] = Some [to_dom b])"
  using diff_at_turns [OF assms, of "[]" "[]"] static_no_old(1) [OF assms(1)]
  by (auto simp: lnode_diff_def turns_def no_rename_def)

definition counter_old :: lnode where
  "counter_old = Element ''div'' [(''class'', Static ''a'')] [Text ''zero'', Element ''button'' [] [Text ''more'']]"

definition counter_new :: lnode where
  "counter_new = Element ''div'' [(''id'', Static ''c'')] [Element ''button'' [] [Text ''less''], Text ''one'', Element ''button'' [] [Text ''more'']]"

lemma counter_diff:
  "lnode_diff counter_old counter_new =
     Inr [\<lparr>at_path = [], action = SetAttribute ''id'' ''c''\<rparr>, \<lparr>at_path = [], action = RemoveAttribute ''class''\<rparr>,
       \<lparr>at_path = [0], action = SetText ''one''\<rparr>,
       \<lparr>at_path = [], action = InsertChild 0 (RElement ''button'' [] [Html ''less''])\<rparr>]"
  by code_simp

lemma hot_reload_patches_correct_witness:
  "\<exists>parse ps. lnode_diff counter_old counter_new = Inr ps \<and> apply_all parse ps [to_dom counter_old] = Some [to_dom counter_new]"
proof -
  let ?parse = "\<lambda>s. the (map_of (map (\<lambda>n. (to_html n, [to_dom n]))
    [counter_new, Element ''button'' [] [Text ''less''], Text ''less'', Text ''one'', Element ''button'' [] [Text ''more''], Text ''more'']) s)"
  have "static_tree counter_old" "static_tree counter_new"
    by (simp_all add: counter_old_def counter_new_def static_attr_def plain_name_def ascii_lower_def)
  moreover have "reads_back ?parse counter_new" by (simp add: counter_new_def attr_html_def attr_dom_def)
  ultimately show ?thesis using hot_reload_patches_correct [of counter_old counter_new ?parse] counter_diff by auto
qed

text \<open>
  Changing the name of an element loses every second child: the patches for two views that differ
  in the name of an element alone are one patch, which the client applies to the children that
  are left by its loop over a list that changes under it.
\<close>

lemma walk_same: "i \<le> length cs \<Longrightarrow> walk_back cd oc cs cs mat p i i = Inr []"
proof (induction i)
  case (Suc i)
  then show ?case by (subst walk_back.simps) simp
qed (simp add: walk_back.simps)

lemma diff_attrs_same:
  assumes "distinct (map fst as)" shows "diff_attrs p as as = []"
proof -
  have "map_of as (fst a) = Some (snd a)" if "a \<in> set as" for a
    using that assms by (intro map_of_is_SomeI) simp_all
  then have "List.map_filter (added_attr as) as = []"
    by (auto simp: List.map_filter_def added_attr_def Let_def filter_empty_conv split: prod.splits)
  moreover have "List.map_filter (\<lambda>(name, value). if name \<in> fst ` set as then None
       else Some \<lparr>at_path = p, action = RemoveAttribute name\<rparr>) as = []"
    by (force simp: List.map_filter_def filter_empty_conv split: if_splits)
  ultimately show ?thesis by (simp add: diff_attrs_def)
qed

theorem rename_loses_children:
  assumes "static_tree (Element n as cs)" "static_tree (Element m as cs)" "n \<noteq> m"
  shows "\<exists>ps. lnode_diff (Element n as cs) (Element m as cs) = Inr ps \<and>
    apply_all parse ps [to_dom (Element n as cs)] = Some [DElem m (map_of (map attr_dom as)) (every_other (map to_dom cs))]"
proof -
  have "diff_attrs [] as as = []" using assms(1) by (intro diff_attrs_same) simp
  then have "lnode_diff (Element n as cs) (Element m as cs) = Inr [\<lparr>at_path = [], action = ChangeTagName m\<rparr>]"
    using assms(3) walk_same [of "length cs" cs]
    by (simp add: lnode_diff_def diff_at.simps [of "Element n as cs"] diff_children_def)
  then show ?thesis using assms(2) by (simp add: apply_patch_def plain_name_def)
qed

theorem rename_loses_children_witness:
  "\<exists>ps. lnode_diff (Element ''ul'' [] [Text ''a'', Text ''b'', Text ''c'']) (Element ''ol'' [] [Text ''a'', Text ''b'', Text ''c'']) = Inr ps \<and>
     apply_all (\<lambda>s. []) ps [DElem ''ul'' Map.empty [DText ''a'', DText ''b'', DText ''c'']] =
       Some [DElem ''ol'' Map.empty [DText ''a'', DText ''c'']]"
  using rename_loses_children [of "''ul''" "[]" "[Text ''a'', Text ''b'', Text ''c'']" "''ol''" "\<lambda>s. []"]
  by (simp add: plain_name_def ascii_lower_def)

end
