(* ===== verification/Ssr_Stream.thy ===== *)
theory Ssr_Stream
  imports Leptos_Prelude "HOL-Library.Word" "HOL-Library.Sublist"
begin

text \<open>
  The stream of HTML chunks of a server-rendered page
  (\<^verbatim>\<open>src/tachys/src/ssr/mod.rs\<close>). A future is the number of times it answers
  \<open>Pending\<close> before it is ready, with the value it is then ready with. Rendering a view into
  a builder is an argument of the operations that do it.
\<close>

subsection \<open>Chunks and the builder\<close>

datatype chunk =
    is_Sync: Sync string
  | Async nat "chunk list"
  | OutOfOrder nat ooo_chunk
and ooo_chunk = OooChunk (ooo_id: string) (ooo_chunks: "chunk list") (ooo_replace: bool) (ooo_nonce: "string option")

type_synonym chunk_id = "16 word list"

record builder =
  sync_buf :: string
  chunks :: "chunk list"
  pending :: "(nat \<times> chunk list) option"
  pending_ooo :: "(nat \<times> ooo_chunk) list"
  id_path :: "chunk_id option"

definition builder_new :: "chunk_id option \<Rightarrow> builder" where
  "builder_new i = \<lparr>sync_buf = [], chunks = [], pending = None, pending_ooo = [], id_path = i\<rparr>"

definition push_sync :: "string \<Rightarrow> builder \<Rightarrow> builder" where
  "push_sync s b = b\<lparr>sync_buf := sync_buf b @ s\<rparr>"

definition flush_sync :: "builder \<Rightarrow> builder" where
  "flush_sync b =
     (if sync_buf b = [] then b else b\<lparr>chunks := chunks b @ [Sync (sync_buf b)], sync_buf := []\<rparr>)"

definition push_async :: "nat \<Rightarrow> chunk list \<Rightarrow> builder \<Rightarrow> builder" where
  "push_async n cs b = (let b = flush_sync b in b\<lparr>chunks := chunks b @ [Async n cs]\<rparr>)"

definition take_chunks :: "builder \<Rightarrow> chunk list \<times> builder" where
  "take_chunks b = (let b = flush_sync b in (chunks b, b\<lparr>chunks := []\<rparr>))"

definition builder_append :: "builder \<Rightarrow> builder \<Rightarrow> builder" where
  "builder_append other b =
     (let b = flush_sync b in b\<lparr>chunks := chunks b @ chunks other, sync_buf := sync_buf b @ sync_buf other\<rparr>)"

definition finish :: "builder \<Rightarrow> builder" where
  "finish b =
     (if sync_buf b = [] then b
      else if chunks b \<noteq> [] \<and> is_Sync (last (chunks b))
      then b\<lparr>chunks := butlast (chunks b) @
               [Sync ((case last (chunks b) of Sync s \<Rightarrow> s | _ \<Rightarrow> []) @ sync_buf b)], sync_buf := []\<rparr>
      else b\<lparr>chunks := chunks b @ [Sync (sync_buf b)], sync_buf := []\<rparr>)"

text \<open>\<open>*last += 1\<close> on a \<open>u16\<close>, as a release build does it (a debug build panics at 65535).\<close>

definition next_id :: "builder \<Rightarrow> builder" where
  "next_id b =
     (case id_path b of
        None \<Rightarrow> b
      | Some ids \<Rightarrow> if ids = [] then b else b\<lparr>id_path := Some (butlast ids @ [last ids + 1])\<rparr>)"

definition child_id :: "builder \<Rightarrow> chunk_id option" where
  "child_id b = map_option (\<lambda>ids. ids @ [0]) (id_path b)"

text \<open>The number of a piece in decimal digits.\<close>

fun digits :: "nat \<Rightarrow> string" where
  "digits n = (if n < 10 then [char_of (48 + n)] else digits (n div 10) @ [char_of (48 + n mod 10)])"

declare digits.simps [simp del]

definition id_string :: "chunk_id \<Rightarrow> string" where
  "id_string ids = concat (map (\<lambda>piece. digits (unat piece) @ ''-'') ids)"

definition write_chunk_marker :: "bool \<Rightarrow> builder \<Rightarrow> builder" where
  "write_chunk_marker opening b =
     (case id_path b of
        None \<Rightarrow> b
      | Some ids \<Rightarrow>
          push_sync (''<!--s-'' @ id_string ids @ (if opening then ''o-->'' else ''c-->'')) b)"

definition push_fallback :: "string \<Rightarrow> builder \<Rightarrow> builder" where
  "push_fallback fallback b = write_chunk_marker False (push_sync fallback (write_chunk_marker True b))"

text \<open>
  The block of \<open>push_async_out_of_order_with_nonce\<close>: it waits for the view, renders it into
  a new builder, and then waits for the asynchronous chunks of that builder in turn. The
  loop returns how often it is pending, and the flattened chunks.
\<close>

fun await_chunks :: "chunk list \<Rightarrow> nat \<times> chunk list" where
  "await_chunks [] = (0, [])"
| "await_chunks (c # cs) =
     (let (n, rest) = await_chunks cs
      in case c of Async m inner \<Rightarrow> (m + n, inner @ rest) | _ \<Rightarrow> (n, c # rest))"

definition push_async_out_of_order ::
  "nat \<Rightarrow> bool \<Rightarrow> (builder \<Rightarrow> builder) \<Rightarrow> string option \<Rightarrow> builder \<Rightarrow> builder" where
  "push_async_out_of_order view_delay is_some render nonce b =
     (let oid = (case id_path b of None \<Rightarrow> [] | Some ids \<Rightarrow> id_string ids);
          sub = builder_new (child_id b);
          cs = fst (take_chunks (finish (render sub)));
          (n, flattened) = await_chunks cs
      in b\<lparr>chunks := chunks b @ [OutOfOrder (view_delay + n) (OooChunk oid flattened is_some nonce)]\<rparr>)"

subsection \<open>Out-of-order chunks in the output\<close>

definition push_start :: "string \<Rightarrow> string \<Rightarrow> string" where
  "push_start oid buf = buf @ ''<template id='' @ [CHR 0x22] @ oid @ ''f'' @ [CHR 0x22] @ ''>''"

definition push_end_with_nonce :: "bool \<Rightarrow> string \<Rightarrow> string option \<Rightarrow> string \<Rightarrow> string" where
  "push_end_with_nonce replace oid nonce buf =
     buf @ ''</template>'' @
     (case nonce of
        Some n \<Rightarrow> ''<script nonce='' @ [CHR 0x22] @ n @ [CHR 0x22] @ ''>(function() { let id = '' @ [CHR 0x22]
      | None \<Rightarrow> ''<script>(function() { let id = '' @ [CHR 0x22]) @
     oid @ [CHR 0x22] @
     '';let open = undefined;let close = undefined;let walker = document.createTreeWalker(document.body, NodeFilter.SHOW_COMMENT);while(walker.nextNode()) {if(walker.currentNode.textContent == '' @
     [CHR 0x60] @ ''s-${id}o'' @ [CHR 0x60] @
     ''){ open=walker.currentNode; } else if(walker.currentNode.textContent == '' @
     [CHR 0x60] @ ''s-${id}c'' @ [CHR 0x60] @
     '') { close = walker.currentNode;}}let range = new Range(); range.setStartBefore(open); range.setEndBefore(close);'' @
     (if replace
      then ''range.deleteContents(); let tpl = document.getElementById('' @ [CHR 0x60] @ ''${id}f'' @ [CHR 0x60] @
           ''); close.parentNode.insertBefore(tpl.content.cloneNode(true), close);close.remove();''
      else ''close.remove();open.remove();'') @
     ''})()</script>''"

text \<open>\<open>str::find\<close>: the first position of a pattern.\<close>

fun find_str :: "string \<Rightarrow> string \<Rightarrow> nat option" where
  "find_str pat s =
     (if prefix pat s then Some 0
      else case s of [] \<Rightarrow> None | c # s' \<Rightarrow> map_option Suc (find_str pat s'))"

declare find_str.simps [simp del]

definition ready_text :: "chunk list \<Rightarrow> string" where
  "ready_text cs = concat (map (\<lambda>c. case c of Sync s \<Rightarrow> s | _ \<Rightarrow> []) cs)"

definition held :: "chunk list \<Rightarrow> chunk list" where
  "held cs = filter (\<lambda>c. case c of Sync s \<Rightarrow> False | _ \<Rightarrow> True) cs"

definition open_marker :: "string \<Rightarrow> string" where
  "open_marker oid = ''<!--s-'' @ oid @ ''o-->''"

definition close_marker :: "string \<Rightarrow> string" where
  "close_marker oid = ''<!--s-'' @ oid @ ''c-->''"

text \<open>An out-of-order chunk that is ready: in place if its placeholder is still in the buffer.\<close>

definition insert_ooo :: "ooo_chunk \<Rightarrow> builder \<Rightarrow> builder result" where
  "insert_ooo oc b =
     (let oid = ooo_id oc
      in case find_str (open_marker oid) (sync_buf b) of
           Some start \<Rightarrow>
             (case find_str (close_marker oid) (drop start (sync_buf b)) of
                None \<Rightarrow> Inl Panic
              | Some len \<Rightarrow>
                  Inr (b\<lparr>sync_buf := take start (sync_buf b) @ ready_text (ooo_chunks oc) @
                           drop (start + len + length (open_marker oid)) (sync_buf b),
                         chunks := held (ooo_chunks oc) @ chunks b\<rparr>))
         | None \<Rightarrow>
             Inr (b\<lparr>sync_buf := push_end_with_nonce (ooo_replace oc) oid (ooo_nonce oc)
                                (push_start oid (sync_buf b) @ ready_text (ooo_chunks oc)),
                    chunks := held (ooo_chunks oc) @ chunks b\<rparr>))"

definition poll_ooo :: "nat \<times> ooo_chunk \<Rightarrow> builder \<Rightarrow> builder result" where
  "poll_ooo f b =
     (case f of
        (0, oc) \<Rightarrow> insert_ooo oc b
      | (Suc n, oc) \<Rightarrow> Inr (b\<lparr>pending_ooo := pending_ooo b @ [(n, oc)]\<rparr>))"

subsection \<open>Polling the stream\<close>

datatype poll = Pending | Ready "string option"

text \<open>The inner loop after a synchronous chunk: further synchronous chunks are joined.\<close>

fun join_sync :: "chunk list \<Rightarrow> builder \<Rightarrow> builder" where
  "join_sync [] b = b\<lparr>chunks := []\<rparr>"
| "join_sync (Async n cs # rest) b = b\<lparr>chunks := Async n cs # rest\<rparr>"
| "join_sync (OutOfOrder n oc # rest) b = b\<lparr>chunks := rest, pending_ooo := pending_ooo b @ [(n, oc)]\<rparr>"
| "join_sync (Sync s # rest) b = join_sync rest (push_sync s b)"

fun weight_chunk :: "chunk \<Rightarrow> nat" and weight_ooo :: "ooo_chunk \<Rightarrow> nat" where
  "weight_chunk (Sync s) = 2"
| "weight_chunk (Async n cs) = n + 2 + sum_list (map weight_chunk cs)"
| "weight_chunk (OutOfOrder n oc) = n + 3 + weight_ooo oc"
| "weight_ooo (OooChunk i cs r nonce) = sum_list (map weight_chunk cs)"

definition weight_chunks :: "chunk list \<Rightarrow> nat" where
  "weight_chunks cs = sum_list (map weight_chunk cs)"

definition core_weight :: "builder \<Rightarrow> nat" where
  "core_weight b =
     weight_chunks (chunks b) +
     (case pending b of None \<Rightarrow> 0 | Some (n, cs) \<Rightarrow> n + 1 + weight_chunks cs) +
     sum_list (map (\<lambda>(n, oc). n + 2 + weight_ooo oc) (pending_ooo b))"

definition stream_weight :: "builder \<Rightarrow> nat" where
  "stream_weight b = core_weight b + (if sync_buf b = [] then 0 else 1)"

definition emit :: "builder \<Rightarrow> poll \<times> builder" where
  "emit b = (Ready (Some (sync_buf b)), b\<lparr>sync_buf := []\<rparr>)"

lemma core_weight_simps [simp]: "core_weight (b\<lparr>sync_buf := s\<rparr>) = core_weight b"
  by (simp add: core_weight_def)

lemma weight_chunks_simps [simp]:
  "weight_chunks [] = 0" "weight_chunks (c # cs) = weight_chunk c + weight_chunks cs"
  "weight_chunks (cs @ ds) = weight_chunks cs + weight_chunks ds"
  by (simp_all add: weight_chunks_def)

lemma weight_join_sync: "core_weight (join_sync cs b) \<le> weight_chunks cs + core_weight (b\<lparr>chunks := []\<rparr>)"
proof (induction cs b rule: join_sync.induct)
  case (4 s rest b)
  then show ?case by (simp add: push_sync_def core_weight_def)
qed (auto simp: core_weight_def)

lemma join_sync_less:
  assumes "chunks b = Sync v # rest"
  shows "core_weight (join_sync rest (push_sync v b)) < core_weight b"
proof -
  have "weight_chunks rest + core_weight ((push_sync v b)\<lparr>chunks := []\<rparr>) < core_weight b"
    using assms by (simp add: core_weight_def push_sync_def)
  then show ?thesis using weight_join_sync [of rest "push_sync v b"] by simp
qed

function poll_next :: "builder \<Rightarrow> (poll \<times> builder) result" where
  "poll_next b =
     (case pending b of
        Some (Suc n, cs) \<Rightarrow> Inr (Pending, b\<lparr>pending := Some (n, cs)\<rparr>)
      | Some (0, cs) \<Rightarrow> poll_next (b\<lparr>pending := None, chunks := cs @ chunks b\<rparr>)
      | None \<Rightarrow>
          (case chunks b of
             [] \<Rightarrow>
               if pending_ooo b = []
               then Inr (if sync_buf b = [] then (Ready None, b) else emit b)
               else (case foreach poll_ooo (pending_ooo b) (b\<lparr>pending_ooo := []\<rparr>) of
                       Inl e \<Rightarrow> Inl e
                     | Inr b \<Rightarrow> Inr (if sync_buf b = [] then (Pending, b) else emit b))
           | Sync value # rest \<Rightarrow> poll_next (join_sync rest (push_sync value b))
           | Async n cs # rest \<Rightarrow>
               (let b = b\<lparr>chunks := rest, pending := Some (n, cs)\<rparr>
                in if sync_buf b = [] then poll_next b else Inr (emit b))
           | OutOfOrder n oc # rest \<Rightarrow>
               (let b = b\<lparr>chunks := rest, pending_ooo := pending_ooo b @ [(n, oc)]\<rparr>
                in if sync_buf b = [] then poll_next b else Inr (emit b))))"
  by pat_completeness auto
termination
  by (relation "measure core_weight")
    (auto simp: join_sync_less, auto simp: core_weight_def weight_chunks_def)

declare poll_next.simps [simp del]

text \<open>Polling until the stream ends; the fuel bounds the number of polls.\<close>

fun drain :: "nat \<Rightarrow> builder \<Rightarrow> string result" where
  "drain 0 b = Inl OutOfFuel"
| "drain (Suc k) b =
     (case poll_next b of
        Inl e \<Rightarrow> Inl e
      | Inr (Pending, b) \<Rightarrow> drain k b
      | Inr (Ready None, b) \<Rightarrow> Inr []
      | Inr (Ready (Some html), b) \<Rightarrow> map_sum id ((@) html) (drain k b))"

text \<open>The text of chunks in document order, where nothing is out of order.\<close>

fun in_order :: "chunk \<Rightarrow> bool" where
  "in_order (Sync s) = True"
| "in_order (Async n cs) = (\<forall>c\<in>set cs. in_order c)"
| "in_order (OutOfOrder n oc) = False"

fun chunk_text :: "chunk \<Rightarrow> string" where
  "chunk_text (Sync s) = s"
| "chunk_text (Async n cs) = concat (map chunk_text cs)"
| "chunk_text (OutOfOrder n oc) = []"

definition text_of :: "chunk list \<Rightarrow> string" where
  "text_of cs = concat (map chunk_text cs)"

definition builder_text :: "builder \<Rightarrow> string" where
  "builder_text b = sync_buf b @ (case pending b of None \<Rightarrow> [] | Some (n, cs) \<Rightarrow> text_of cs) @ text_of (chunks b)"

definition builder_in_order :: "builder \<Rightarrow> bool" where
  "builder_in_order b \<longleftrightarrow> (\<forall>c\<in>set (chunks b). in_order c) \<and> pending_ooo b = [] \<and>
     (case pending b of None \<Rightarrow> True | Some (n, cs) \<Rightarrow> sync_buf b = [] \<and> (\<forall>c\<in>set cs. in_order c))"

lemma text_of_simps [simp]:
  "text_of [] = []" "text_of (c # cs) = chunk_text c @ text_of cs" "text_of (cs @ ds) = text_of cs @ text_of ds"
  by (simp_all add: text_of_def)

end
