(* ===== verification/Ssr_Correct.thy ===== *)
theory Ssr_Correct
  imports Ssr_Stream
begin

text \<open>
  The stream ends, and in-order streaming delivers the text that was pushed into the
  builder, in that order, however long the futures take. A stream machine, in which every
  answer but the last makes progress, is the interface \<open>progressing\<close>; the builder is an
  instance of it.
\<close>

subsection \<open>Streams that make progress\<close>

text \<open>What one poll takes from the text that is still to come.\<close>

definition delivers :: "string \<Rightarrow> poll \<Rightarrow> string \<Rightarrow> bool" where
  "delivers t p t' \<longleftrightarrow>
     (case p of Pending \<Rightarrow> t = t' | Ready None \<Rightarrow> t = [] | Ready (Some html) \<Rightarrow> t = html @ t')"

locale progressing =
  fixes step :: "'s \<Rightarrow> (poll \<times> 's) result"
    and size_of :: "'s \<Rightarrow> nat"
    and run :: "nat \<Rightarrow> 's \<Rightarrow> string result"
  assumes progress: "step s = Inr (p, s') \<Longrightarrow> p \<noteq> Ready None \<Longrightarrow> size_of s' < size_of s"
    and step_error: "step s \<noteq> Inl OutOfFuel"
    and run_0: "run 0 s = Inl OutOfFuel"
    and run_Suc: "run (Suc k) s =
      (case step s of
         Inl e \<Rightarrow> Inl e
       | Inr (Pending, s') \<Rightarrow> run k s'
       | Inr (Ready None, s') \<Rightarrow> Inr []
       | Inr (Ready (Some html), s') \<Rightarrow> map_sum id ((@) html) (run k s'))"
begin

lemma run_ends: "size_of s < k \<Longrightarrow> run k s \<noteq> Inl OutOfFuel"
proof (induction k arbitrary: s)
  case (Suc k)
  show ?case
  proof (cases "step s")
    case (Inl e)
    then show ?thesis using step_error [of s] by (simp add: run_Suc)
  next
    case (Inr r)
    obtain p s' where r: "r = (p, s')" by fastforce
    have IH: "p \<noteq> Ready None \<Longrightarrow> run k s' \<noteq> Inl OutOfFuel"
      using Suc progress [of s p s'] Inr r by fastforce
    show ?thesis
    proof (cases p)
      case Pending
      then show ?thesis using IH Inr r by (simp add: run_Suc)
    next
      case (Ready out)
      then show ?thesis using IH Inr r
        by (cases out; cases "run k s'") (auto simp: run_Suc)
    qed
  qed
qed simp

text \<open>If an invariant says what is still to come, the stream delivers exactly that.\<close>

lemma run_delivers:
  assumes "I s" "size_of s < k"
    and "\<And>s. I s \<Longrightarrow> \<exists>p s'. step s = Inr (p, s') \<and> I s' \<and>
      delivers (rest s) p (rest s')"
  shows "run k s = Inr (rest s)"
  using assms(1,2)
proof (induction k arbitrary: s)
  case (Suc k)
  obtain p s' where s': "step s = Inr (p, s')" "I s'"
    "delivers (rest s) p (rest s')"
    using assms(3) [OF Suc.prems(1)] by blast
  have "p \<noteq> Ready None \<Longrightarrow> run k s' = Inr (rest s')"
    using Suc.IH [OF s'(2)] progress [OF s'(1)] Suc.prems(2) by fastforce
  then show ?case using s' by (auto simp: run_Suc delivers_def split: poll.splits option.splits)
qed simp

end

subsection \<open>The builder makes progress\<close>

lemma weight_held: "weight_chunks (held cs) \<le> weight_chunks cs"
  by (induction cs) (auto simp: held_def split: chunk.split)

lemma insert_ooo_weight:
  assumes "insert_ooo oc b = Inr b'"
  shows "core_weight b' \<le> core_weight b + weight_ooo oc" "pending_ooo b' = pending_ooo b" "pending b' = pending b"
proof -
  have "weight_chunks (held (ooo_chunks oc)) \<le> weight_ooo oc"
    using weight_held [of "ooo_chunks oc"] by (cases oc) (simp add: weight_chunks_def)
  then show "core_weight b' \<le> core_weight b + weight_ooo oc" "pending_ooo b' = pending_ooo b" "pending b' = pending b"
    using assms by (auto simp: insert_ooo_def Let_def core_weight_def split: option.splits)
qed

lemma poll_ooo_weight:
  assumes "poll_ooo f b = Inr b'"
  shows "core_weight b' + 1 \<le> core_weight b + (case f of (n, oc) \<Rightarrow> n + 2 + weight_ooo oc)"
  using assms insert_ooo_weight(1)
  by (cases f; cases "fst f") (fastforce simp: poll_ooo_def core_weight_def)+

lemma poll_all_ooo_weight:
  assumes "foreach poll_ooo fs b = Inr b'"
  shows "core_weight b' + length fs \<le> core_weight b + sum_list (map (\<lambda>(n, oc). n + 2 + weight_ooo oc) fs)"
  using assms
proof (induction fs arbitrary: b)
  case (Cons f fs)
  then obtain b1 where "poll_ooo f b = Inr b1" "foreach poll_ooo fs b1 = Inr b'" by (auto split: sum.splits)
  then show ?case using poll_ooo_weight [of f b b1] Cons.IH [of b1] by (cases f) auto
qed simp

subsection \<open>The cases of a poll\<close>

lemma poll_next_eqs:
  "pending b = Some (Suc n, cs) \<Longrightarrow> poll_next b = Inr (Pending, b\<lparr>pending := Some (n, cs)\<rparr>)"
  "pending b = Some (0, cs) \<Longrightarrow> poll_next b = poll_next (b\<lparr>pending := None, chunks := cs @ chunks b\<rparr>)"
  "pending b = None \<Longrightarrow> chunks b = [] \<Longrightarrow> pending_ooo b = [] \<Longrightarrow>
    poll_next b = Inr (if sync_buf b = [] then (Ready None, b) else emit b)"
  "pending b = None \<Longrightarrow> chunks b = [] \<Longrightarrow> pending_ooo b \<noteq> [] \<Longrightarrow>
    poll_next b = map_sum id (\<lambda>b. if sync_buf b = [] then (Pending, b) else emit b)
      (foreach poll_ooo (pending_ooo b) (b\<lparr>pending_ooo := []\<rparr>))"
  "pending b = None \<Longrightarrow> chunks b = Sync v # rest \<Longrightarrow> poll_next b = poll_next (join_sync rest (push_sync v b))"
  "pending b = None \<Longrightarrow> chunks b = Async n cs # rest \<Longrightarrow> sync_buf b = [] \<Longrightarrow>
    poll_next b = poll_next (b\<lparr>chunks := rest, pending := Some (n, cs)\<rparr>)"
  "pending b = None \<Longrightarrow> chunks b = Async n cs # rest \<Longrightarrow> sync_buf b \<noteq> [] \<Longrightarrow>
    poll_next b = Inr (emit (b\<lparr>chunks := rest, pending := Some (n, cs)\<rparr>))"
  "pending b = None \<Longrightarrow> chunks b = OutOfOrder n oc # rest \<Longrightarrow> sync_buf b = [] \<Longrightarrow>
    poll_next b = poll_next (b\<lparr>chunks := rest, pending_ooo := pending_ooo b @ [(n, oc)]\<rparr>)"
  "pending b = None \<Longrightarrow> chunks b = OutOfOrder n oc # rest \<Longrightarrow> sync_buf b \<noteq> [] \<Longrightarrow>
    poll_next b = Inr (emit (b\<lparr>chunks := rest, pending_ooo := pending_ooo b @ [(n, oc)]\<rparr>))"
  by (subst poll_next.simps, simp split: sum.split)+

lemma poll_induct [case_names waiting resumed finished flushing sync async async_flush ooo ooo_flush]:
  assumes "\<And>b n cs. pending b = Some (Suc n, cs) \<Longrightarrow> P b"
    and "\<And>b cs. pending b = Some (0, cs) \<Longrightarrow> P (b\<lparr>pending := None, chunks := cs @ chunks b\<rparr>) \<Longrightarrow> P b"
    and "\<And>b. pending b = None \<Longrightarrow> chunks b = [] \<Longrightarrow> pending_ooo b = [] \<Longrightarrow> P b"
    and "\<And>b. pending b = None \<Longrightarrow> chunks b = [] \<Longrightarrow> pending_ooo b \<noteq> [] \<Longrightarrow> P b"
    and "\<And>b v rest. pending b = None \<Longrightarrow> chunks b = Sync v # rest \<Longrightarrow> P (join_sync rest (push_sync v b)) \<Longrightarrow> P b"
    and "\<And>b n cs rest. pending b = None \<Longrightarrow> chunks b = Async n cs # rest \<Longrightarrow> sync_buf b = [] \<Longrightarrow>
      P (b\<lparr>chunks := rest, pending := Some (n, cs)\<rparr>) \<Longrightarrow> P b"
    and "\<And>b n cs rest. pending b = None \<Longrightarrow> chunks b = Async n cs # rest \<Longrightarrow> sync_buf b \<noteq> [] \<Longrightarrow> P b"
    and "\<And>b n oc rest. pending b = None \<Longrightarrow> chunks b = OutOfOrder n oc # rest \<Longrightarrow> sync_buf b = [] \<Longrightarrow>
      P (b\<lparr>chunks := rest, pending_ooo := pending_ooo b @ [(n, oc)]\<rparr>) \<Longrightarrow> P b"
    and "\<And>b n oc rest. pending b = None \<Longrightarrow> chunks b = OutOfOrder n oc # rest \<Longrightarrow> sync_buf b \<noteq> [] \<Longrightarrow> P b"
  shows "P b"
proof (induction b rule: poll_next.induct)
  case (1 b)
  show ?case
  proof (cases "pending b")
    case (Some f)
    obtain n cs where "f = (n, cs)" by fastforce
    then show ?thesis using assms(1,2) [of b] "1.IH"(4) [of f n cs] Some by (cases n) auto
  next
    case None
    show ?thesis
    proof (cases "chunks b")
      case Nil
      then show ?thesis using assms(3,4) None by blast
    next
      case (Cons c rest)
      then show ?thesis
        using assms(5-9) [of b] "1.IH"(1-3) [OF None Cons] None by (cases c; cases "sync_buf b = []") auto
    qed
  qed
qed

lemma poll_next_progress:
  "poll_next b = Inr (p, b') \<Longrightarrow> p \<noteq> Ready None \<Longrightarrow> stream_weight b' < stream_weight b"
proof (induction b arbitrary: p b' rule: poll_induct)
  case (waiting b n cs)
  then show ?case by (auto simp: poll_next_eqs stream_weight_def core_weight_def)
next
  case (resumed b cs)
  then show ?case using resumed.IH [of p b'] by (simp add: poll_next_eqs stream_weight_def core_weight_def)
next
  case (finished b)
  then show ?case by (auto simp: poll_next_eqs emit_def stream_weight_def split: if_splits)
next
  case (flushing b)
  then obtain b1 where b1: "foreach poll_ooo (pending_ooo b) (b\<lparr>pending_ooo := []\<rparr>) = Inr b1"
    and out: "(p, b') = (if sync_buf b1 = [] then (Pending, b1) else emit b1)"
    by (cases "foreach poll_ooo (pending_ooo b) (b\<lparr>pending_ooo := []\<rparr>)") (auto simp: poll_next_eqs)
  have "core_weight b1 < core_weight b"
    using poll_all_ooo_weight [OF b1] flushing(3) by (cases "pending_ooo b") (auto simp: core_weight_def)
  then show ?case using out by (auto simp: emit_def stream_weight_def split: if_splits)
next
  case (sync b v rest)
  have "stream_weight b' < stream_weight (join_sync rest (push_sync v b))"
    using sync by (simp add: poll_next_eqs)
  also have "\<dots> \<le> stream_weight b"
    using join_sync_less [OF sync(2)] by (simp add: stream_weight_def)
  finally show ?case .
next
  case (async b n cs rest)
  then show ?case using async.IH [of p b'] by (simp add: poll_next_eqs stream_weight_def core_weight_def weight_chunks_def)
next
  case (async_flush b n cs rest)
  then show ?case by (auto simp: poll_next_eqs emit_def stream_weight_def core_weight_def weight_chunks_def)
next
  case (ooo b n oc rest)
  then show ?case using ooo.IH [of p b'] by (simp add: poll_next_eqs stream_weight_def core_weight_def)
next
  case (ooo_flush b n oc rest)
  then show ?case by (auto simp: poll_next_eqs emit_def stream_weight_def core_weight_def)
qed

lemma poll_next_error: "poll_next b \<noteq> Inl OutOfFuel"
proof (induction b rule: poll_induct)
  case (flushing b)
  have "poll_ooo f b \<noteq> Inl OutOfFuel" for f b
    by (auto simp: poll_ooo_def insert_ooo_def Let_def split: nat.splits option.splits prod.splits)
  then have "foreach poll_ooo fs b \<noteq> Inl OutOfFuel" for fs b
    by (induction fs arbitrary: b) (auto split: sum.splits)
  then show ?case using flushing
    by (cases "foreach poll_ooo (pending_ooo b) (b\<lparr>pending_ooo := []\<rparr>)") (auto simp: poll_next_eqs)
qed (simp_all add: poll_next_eqs)

interpretation html: progressing poll_next stream_weight drain
  by unfold_locales (simp_all add: poll_next_progress poll_next_error)

subsection \<open>In-order streaming\<close>

lemma join_sync_text:
  assumes "\<forall>c\<in>set cs. in_order c" "pending b = None" "pending_ooo b = []"
  shows "builder_text (join_sync cs b) = sync_buf b @ text_of cs" "builder_in_order (join_sync cs b)"
  using assms by (induction cs b rule: join_sync.induct) (auto simp: builder_text_def builder_in_order_def push_sync_def text_of_def)

lemma poll_in_order:
  assumes "builder_in_order b"
  shows "\<exists>p b'. poll_next b = Inr (p, b') \<and> builder_in_order b' \<and> delivers (builder_text b) p (builder_text b')"
  using assms
proof (induction b rule: poll_induct)
  case (resumed b cs)
  have "builder_in_order (b\<lparr>pending := None, chunks := cs @ chunks b\<rparr>)" "builder_text (b\<lparr>pending := None, chunks := cs @ chunks b\<rparr>) = builder_text b"
    using resumed(1,3) by (auto simp: builder_in_order_def builder_text_def)
  then show ?case using resumed.IH resumed(1) by (simp add: poll_next_eqs)
next
  case (sync b v rest)
  have "builder_in_order (join_sync rest (push_sync v b))" "builder_text (join_sync rest (push_sync v b)) = builder_text b"
    using sync(1,2,4) join_sync_text [of rest "push_sync v b"] by (auto simp: builder_in_order_def builder_text_def push_sync_def)
  then show ?case using sync.IH sync(1,2) by (simp add: poll_next_eqs)
next
  case (async b n cs rest)
  have "builder_in_order (b\<lparr>chunks := rest, pending := Some (n, cs)\<rparr>)" "builder_text (b\<lparr>chunks := rest, pending := Some (n, cs)\<rparr>) = builder_text b"
    using async(1-3,5) by (auto simp: builder_in_order_def builder_text_def text_of_def)
  then show ?case using async.IH async(1-3) by (simp add: poll_next_eqs)
qed (auto simp: poll_next_eqs emit_def builder_in_order_def builder_text_def text_of_def delivers_def)

text \<open>What a program pushes into a builder: text, asynchronous blocks, and other builders.\<close>

datatype piece = Text string | Later nat "chunk list" | Sub "piece list"

fun write_piece :: "piece \<Rightarrow> builder \<Rightarrow> builder" where
  "write_piece (Text s) b = push_sync s b"
| "write_piece (Later n cs) b = push_async n cs b"
| "write_piece (Sub ps) b = builder_append (fold write_piece ps (builder_new None)) b"

fun piece_text :: "piece \<Rightarrow> string" where
  "piece_text (Text s) = s"
| "piece_text (Later n cs) = text_of cs"
| "piece_text (Sub ps) = concat (map piece_text ps)"

fun piece_ok :: "piece \<Rightarrow> bool" where
  "piece_ok (Text s) = True"
| "piece_ok (Later n cs) = (\<forall>c\<in>set cs. in_order c)"
| "piece_ok (Sub ps) = (\<forall>p\<in>set ps. piece_ok p)"

definition building :: "string \<Rightarrow> builder \<Rightarrow> bool" where
  "building t b \<longleftrightarrow> text_of (chunks b) @ sync_buf b = t \<and> (\<forall>c\<in>set (chunks b). in_order c) \<and>
     pending b = None \<and> pending_ooo b = []"

lemma building_new: "building [] (builder_new i)"
  by (simp add: building_def builder_new_def)

lemma building_flush: "building t b \<Longrightarrow> building t (flush_sync b)"
  by (auto simp: building_def flush_sync_def)

lemma sync_buf_flush [simp]: "sync_buf (flush_sync b) = []"
  by (simp add: flush_sync_def)

lemma building_append: "building t b \<Longrightarrow> building u b' \<Longrightarrow> building (t @ u) (builder_append b' b)"
  using building_flush [of t b] by (auto simp: building_def builder_append_def Let_def)

lemma building_piece: "piece_ok p \<Longrightarrow> building t b \<Longrightarrow> building (t @ piece_text p) (write_piece p b)"
proof (induction p arbitrary: t b)
  case (Text s)
  then show ?case by (simp add: building_def push_sync_def)
next
  case (Later n cs)
  then show ?case using building_flush [of t b] by (auto simp: building_def push_async_def Let_def text_of_def)
next
  case (Sub ps)
  have "building (u @ concat (map piece_text ps)) (fold write_piece ps c)" if "building u c" for u c
    using that Sub.IH Sub.prems(1) by (induction ps arbitrary: u c) fastforce+
  from this [OF building_new] show ?case using Sub.prems(2) building_append by fastforce
qed

lemma building_pieces:
  "\<forall>p\<in>set ps. piece_ok p \<Longrightarrow> building (concat (map piece_text ps)) (fold write_piece ps (builder_new i))"
proof -
  have "\<forall>p\<in>set ps. piece_ok p \<Longrightarrow> building t b \<Longrightarrow> building (t @ concat (map piece_text ps)) (fold write_piece ps b)" for t b
    by (induction ps arbitrary: t b) (use building_piece in fastforce)+
  from this [OF _ building_new] show "\<forall>p\<in>set ps. piece_ok p \<Longrightarrow> ?thesis" by simp
qed

lemma finish_in_order:
  assumes "building t b" shows "builder_in_order (finish b)" "builder_text (finish b) = t"
proof -
  have "butlast cs @ [Sync (s @ u)] = cs' \<Longrightarrow> cs \<noteq> [] \<Longrightarrow> last cs = Sync s \<Longrightarrow> text_of cs' = text_of cs @ u" for cs cs' s u
    by (metis append_assoc append_butlast_last_id chunk_text.simps(1) text_of_simps append_Nil2)
  then show "builder_in_order (finish b)" "builder_text (finish b) = t"
    using assms by (auto simp: finish_def building_def builder_in_order_def builder_text_def is_Sync_def dest: in_set_butlastD)
qed

subsection \<open>A chunk whose placeholder is still in the buffer\<close>

lemma find_str_first:
  assumes "pat \<noteq> []" "\<not> sublist pat (pre @ butlast pat)"
  shows "find_str pat (pre @ pat @ post) = Some (length pre)"
  using assms(2)
proof (induction pre)
  case Nil
  then show ?case by (subst find_str.simps) simp
next
  case (Cons c pre)
  have "\<not> prefix pat (c # pre @ pat @ post)"
  proof
    assume "prefix pat (c # pre @ pat @ post)"
    then have "prefix pat ((c # pre @ butlast pat) @ [last pat] @ post)"
      using assms(1) by (metis append.assoc append_Cons append_butlast_last_id)
    moreover have "length pat \<le> length (c # pre @ butlast pat)" using assms(1) by simp
    ultimately have "prefix pat (c # pre @ butlast pat)"
      by (metis prefix_length_prefix prefixI)
    then show False using Cons.prems by (simp add: prefix_imp_sublist)
  qed
  moreover have "\<not> sublist pat (pre @ butlast pat)" using Cons.prems by (simp add: sublist_Cons_right)
  ultimately show ?case using Cons.IH by (subst find_str.simps) simp
qed

lemma length_close_marker: "length (close_marker i) = length (open_marker i)"
  by (simp add: open_marker_def close_marker_def)

lemma find_str_markers:
  assumes "\<not> sublist (open_marker i) (pre @ butlast (open_marker i))"
    and "\<not> sublist (close_marker i) (open_marker i @ fb @ butlast (close_marker i))"
  shows "find_str (open_marker i) (pre @ open_marker i @ fb @ close_marker i @ post) = Some (length pre)"
    and "find_str (close_marker i) (open_marker i @ fb @ close_marker i @ post) = Some (length (open_marker i @ fb))"
  using find_str_first [OF _ assms(1)] find_str_first [of "close_marker i" "open_marker i @ fb" post] assms(2)
  by (simp_all add: open_marker_def close_marker_def)

subsection \<open>Properties\<close>

text \<open>
  C14. In-order streaming delivers the page: whatever text, asynchronous blocks and other
  builders are pushed into a builder, polling the finished stream yields the text of all of
  them, in the order they were pushed, after at most as many polls as the weight of the
  stream, however long each future takes.
\<close>

theorem in_order_stream_delivers:
  assumes "\<forall>p\<in>set ps. piece_ok p"
    and "stream_weight (finish (fold write_piece ps (builder_new i))) < k"
  shows "drain k (finish (fold write_piece ps (builder_new i))) = Inr (concat (map piece_text ps))"
  using html.run_delivers [where I = builder_in_order and rest = builder_text,
    OF finish_in_order(1) [OF building_pieces [OF assms(1)]] assms(2) poll_in_order]
    finish_in_order(2) [OF building_pieces [OF assms(1)]]
  by simp

theorem in_order_stream_delivers_witness:
  "drain 20 (finish (fold write_piece
     [Text ''<p>'', Later 2 [Sync ''a'', Async 1 [Sync ''b'']], Sub [Text ''c''], Text ''</p>''] (builder_new None)))
   = Inr ''<p>abc</p>''"
  by (subst in_order_stream_delivers) (simp_all add: push_sync_def push_async_def flush_sync_def builder_append_def finish_def builder_new_def
      stream_weight_def core_weight_def weight_chunks_def text_of_def Let_def)

text \<open>
  Every stream ends: with out-of-order chunks, nested futures and placeholders as they
  may be, a number of polls above the weight of the builder reaches the end of the stream
  (or the \<open>unwrap\<close> of a missing closing marker), and never runs on.
\<close>

theorem stream_ends: "stream_weight b < k \<Longrightarrow> drain k b \<noteq> Inl OutOfFuel"
  by (rule html.run_ends)

theorem stream_ends_witness:
  "drain 9 ((builder_new None)\<lparr>chunks := [OutOfOrder 2 (OooChunk ''0-'' [Sync ''x''] True None)]\<rparr>) \<noteq> Inl OutOfFuel"
  using stream_ends [of "(builder_new None)\<lparr>chunks := [OutOfOrder 2 (OooChunk ''0-'' [Sync ''x''] True None)]\<rparr>" 9]
  by (simp add: builder_new_def stream_weight_def core_weight_def)

text \<open>
  A ready out-of-order chunk whose placeholder is still in the buffer takes the place of
  the markers and of the fallback between them, with nothing else of the buffer changed, and
  its asynchronous chunks come next in the stream. The flag \<open>replace\<close> plays no part: the
  fallback is dropped also for a view that is \<open>None\<close>, for which the script of a chunk that
  is sent later keeps the fallback.
\<close>

theorem ooo_replaces_placeholder:
  assumes "\<not> sublist (open_marker (ooo_id oc)) (pre @ butlast (open_marker (ooo_id oc)))"
    and "\<not> sublist (close_marker (ooo_id oc)) (open_marker (ooo_id oc) @ fb @ butlast (close_marker (ooo_id oc)))"
    and "sync_buf b = pre @ open_marker (ooo_id oc) @ fb @ close_marker (ooo_id oc) @ post"
  shows "insert_ooo oc b = Inr (b\<lparr>sync_buf := pre @ ready_text (ooo_chunks oc) @ post,
    chunks := held (ooo_chunks oc) @ chunks b\<rparr>)"
  using find_str_markers [OF assms(1,2), of post] assms(3)
  by (simp add: insert_ooo_def flip: length_close_marker)

theorem ooo_replaces_placeholder_witness:
  "insert_ooo (OooChunk ''0-'' [Sync ''<!>''] False None)
     ((builder_new None)\<lparr>sync_buf := ''<p><!--s-0-o-->Loading<!--s-0-c--></p>''\<rparr>)
   = Inr ((builder_new None)\<lparr>sync_buf := ''<p><!></p>''\<rparr>)"
  using ooo_replaces_placeholder [of "OooChunk ''0-'' [Sync ''<!>''] False None" "''<p>''" "''Loading''"
      "(builder_new None)\<lparr>sync_buf := ''<p><!--s-0-o-->Loading<!--s-0-c--></p>''\<rparr>" "''</p>''"]
  by (simp add: open_marker_def close_marker_def builder_new_def ready_text_def held_def sublist_Cons_right)

end
