(* ===== verification/Store_Keys.thy ===== *)
theory Store_Keys
  imports Leptos_Prelude "HOL-Library.AList" "HOL-Library.Multiset"
begin

text \<open>
  The keys of a keyed field of a store (\<open>FieldKeys\<close> of
  \<^verbatim>\<open>src/reactive_stores/src/lib.rs\<close>): every key has the path segment of its item, which it
  keeps for as long as it is in the collection, and the position of the item. A hash map is
  an association list; \<open>order\<close> is the order in which it iterates over its keys, which the
  standard library leaves open.
\<close>

type_synonym path_segment = nat
type_synonym path = "path_segment list"

record 'k field_keys =
  spare_keys :: "path_segment list"
  current_key :: nat
  keys :: "('k \<times> path_segment \<times> nat) list"

definition fk_new :: "'k list \<Rightarrow> 'k field_keys" where
  "fk_new from_keys =
     (let ks = fold (\<lambda>(idx, key). AList.update key (idx, idx)) (enumerate 0 from_keys) []
      in \<lparr>spare_keys = [], current_key = length ks - 1, keys = ks\<rparr>)"

definition fk_get :: "'k field_keys \<Rightarrow> 'k \<Rightarrow> (path_segment \<times> nat) option" where
  "fk_get fk key = map_of (keys fk) key"

definition next_key :: "'k field_keys \<Rightarrow> path_segment \<times> 'k field_keys" where
  "next_key fk =
     (if spare_keys fk = []
      then (current_key fk + 1, fk\<lparr>current_key := current_key fk + 1\<rparr>)
      else (last (spare_keys fk), fk\<lparr>spare_keys := butlast (spare_keys fk)\<rparr>))"

text \<open>The keys of the new collection with their positions; a later duplicate overwrites.\<close>

definition new_positions :: "'k list \<Rightarrow> ('k \<times> nat) list" where
  "new_positions ks = fold (\<lambda>(idx, key). AList.update key idx) (enumerate 0 ks) []"

text \<open>\<open>retain\<close>: keys that are gone give their segment back, the others take their new position.\<close>

definition retain_keys :: "('k list \<Rightarrow> 'k list) \<Rightarrow> ('k \<times> nat) list \<Rightarrow> 'k field_keys \<Rightarrow> 'k field_keys" where
  "retain_keys order new fk =
     fk\<lparr>keys := map (\<lambda>(key, seg, _). (key, seg, the (map_of new key)))
          (filter (\<lambda>(key, _). map_of new key \<noteq> None) (keys fk)),
        spare_keys := spare_keys fk @ map (\<lambda>key. fst (the (map_of (keys fk) key)))
          (filter (\<lambda>key. map_of new key = None) (order (map fst (keys fk))))\<rparr>"

text \<open>The loop over the new keys: one that is not there yet gets a segment.\<close>

fun add_keys :: "('k \<times> nat) list \<Rightarrow> 'k list \<Rightarrow> 'k field_keys \<Rightarrow> (nat \<times> path_segment) list \<times> 'k field_keys" where
  "add_keys new [] fk = ([], fk)"
| "add_keys new (key # ks) fk =
     (case map_of new key of
        None \<Rightarrow> add_keys new ks fk
      | Some idx \<Rightarrow>
          (case fk_get fk key of
             Some (seg, i) \<Rightarrow>
               (let (out, fk) = add_keys new ks fk in ((i, seg) # out, fk))
           | None \<Rightarrow>
               (let (seg, fk) = next_key fk;
                    (out, fk) = add_keys new ks (fk\<lparr>keys := AList.update key (seg, idx) (keys fk)\<rparr>)
                in ((idx, seg) # out, fk))))"

definition fk_update :: "('k list \<Rightarrow> 'k list) \<Rightarrow> 'k list \<Rightarrow> 'k field_keys \<Rightarrow> (nat \<times> path_segment) list \<times> 'k field_keys" where
  "fk_update order ks fk =
     (let new = new_positions ks
      in add_keys new (order (map fst new)) (retain_keys order new fk))"

text \<open>Iterating a hash map visits every key once.\<close>

definition iterates_once :: "('k list \<Rightarrow> 'k list) \<Rightarrow> bool" where
  "iterates_once order \<longleftrightarrow> (\<forall>ks. mset (order ks) = mset ks)"

subsection \<open>Positions\<close>

lemma keys_of_fold_update:
  "fst ` set (fold (\<lambda>(idx, key). AList.update key (f idx)) ps m) = fst ` set m \<union> snd ` set ps"
  by (induction ps arbitrary: m) (simp_all add: case_prod_unfold dom_update Un_left_commute)

lemma distinct_fold_update:
  "distinct (map fst m) \<Longrightarrow> distinct (map fst (fold (\<lambda>(idx, key). AList.update key (f idx)) ps m))"
  by (induction ps arbitrary: m) (auto simp: distinct_update)

lemma map_of_fold_update:
  "map_of (fold (\<lambda>(idx, key). AList.update key (f idx)) ps m) k = Some v \<Longrightarrow>
     (\<exists>idx. (idx, k) \<in> set ps \<and> v = f idx) \<or> map_of m k = Some v"
  by (induction ps arbitrary: m) (fastforce simp: update_conv' split: if_splits)+

lemma new_positions_keys:
  "distinct (map fst (new_positions ks))" "set (map fst (new_positions ks)) = set ks"
  using keys_of_fold_update [of "\<lambda>i. i" "enumerate 0 ks" "[]"]
  by (simp_all add: new_positions_def distinct_fold_update [where f = "\<lambda>i. i"]) (metis map_snd_enumerate set_map)

lemma new_positions_dom: "map_of (new_positions ks) k = None \<longleftrightarrow> k \<notin> set ks"
  using new_positions_keys(2) [of ks] by (metis map_of_eq_None_iff set_map)

lemma new_positions_nth: "map_of (new_positions ks) k = Some i \<Longrightarrow> i < length ks \<and> ks ! i = k"
  unfolding new_positions_def
  by (drule map_of_fold_update [where f = "\<lambda>i. i"]) (auto simp: in_set_enumerate_eq)

subsection \<open>The invariant: no two keys share a segment\<close>

definition segments :: "'k field_keys \<Rightarrow> path_segment list" where
  "segments fk = map (fst \<circ> snd) (keys fk) @ spare_keys fk"

definition keys_ok :: "'k field_keys \<Rightarrow> bool" where
  "keys_ok fk \<longleftrightarrow>
     distinct (map fst (keys fk)) \<and> distinct (segments fk) \<and> (\<forall>s\<in>set (segments fk). s \<le> current_key fk)"

lemma keys_ok_segment_unique:
  assumes "keys_ok fk" "fk_get fk k = Some (seg, i)" "fk_get fk k' = Some (seg, i')"
  shows "k = k'"
proof -
  have "(k, seg, i) \<in> set (keys fk)" "(k', seg, i') \<in> set (keys fk)"
    using assms(2,3) by (auto simp: fk_get_def dest: map_of_SomeD)
  moreover have "distinct (map (fst \<circ> snd) (keys fk))" using assms(1) by (simp add: keys_ok_def segments_def)
  ultimately have "(k, seg, i) = (k', seg, i')"
    by (intro inj_onD [where f = "fst \<circ> snd" and A = "set (keys fk)"]) (simp_all add: distinct_map)
  then show ?thesis by simp
qed

lemma update_fresh: "k \<notin> fst ` set m \<Longrightarrow> AList.update k v m = m @ [(k, v)]"
  by (induction m) auto

lemma fold_update_fresh:
  assumes "distinct (map snd ps)" "snd ` set ps \<inter> fst ` set m = {}"
  shows "fold (\<lambda>(idx, key). AList.update key (f idx)) ps m = m @ map (\<lambda>(idx, key). (key, f idx)) ps"
  using assms
proof (induction ps arbitrary: m)
  case (Cons p ps)
  obtain idx key where p: "p = (idx, key)" by fastforce
  have "AList.update key (f idx) m = m @ [(key, f idx)]"
    using Cons.prems(2) p by (intro update_fresh) auto
  then show ?case using Cons p by (auto simp: image_iff)
qed simp

lemma keys_ok_new:
  assumes "distinct ks" shows "keys_ok (fk_new ks)"
proof -
  have "keys (fk_new ks) = map (\<lambda>(idx, key). (key, idx, idx)) (enumerate 0 ks)"
    using fold_update_fresh [where f = "\<lambda>idx. (idx, idx)" and ps = "enumerate 0 ks" and m = "[]"] assms
    by (simp add: fk_new_def Let_def)
  then have k: "map fst (keys (fk_new ks)) = ks" "map (fst \<circ> snd) (keys (fk_new ks)) = [0..<length ks]"
    by (simp_all add: comp_def case_prod_unfold)
  then have "length (keys (fk_new ks)) = length ks" by (metis length_map)
  then show ?thesis using assms k by (auto simp: keys_ok_def segments_def fk_new_def Let_def)
qed

text \<open>Keeping and giving back segments only moves them.\<close>

lemma mset_map_partition: "mset (map f (filter P xs)) + mset (map f (filter (\<lambda>x. \<not> P x) xs)) = mset (map f xs)"
  by (induction xs) auto

lemma mset_retained:
  assumes "iterates_once order" "distinct (map fst (keys fk))"
  shows "mset (segments (retain_keys order new fk)) = mset (segments fk)"
proof -
  let ?P = "\<lambda>(key, _). map_of new key \<noteq> None"
  have "mset (map (\<lambda>key. fst (the (map_of (keys fk) key))) (filter (\<lambda>key. map_of new key = None) (order (map fst (keys fk)))))
      = mset (map (\<lambda>key. fst (the (map_of (keys fk) key))) (filter (\<lambda>key. map_of new key = None) (map fst (keys fk))))"
    using assms(1) by (simp add: iterates_once_def)
  also have "map (\<lambda>key. fst (the (map_of (keys fk) key))) (filter (\<lambda>key. map_of new key = None) (map fst (keys fk)))
      = map (fst \<circ> snd) (filter (\<lambda>e. \<not> ?P e) (keys fk))"
    using assms(2) by (auto simp: filter_map comp_def case_prod_unfold)
  finally have "mset (segments (retain_keys order new fk)) =
      mset (map (fst \<circ> snd) (filter ?P (keys fk))) + (mset (spare_keys fk) + mset (map (fst \<circ> snd) (filter (\<lambda>e. \<not> ?P e) (keys fk))))"
    by (simp add: segments_def retain_keys_def comp_def case_prod_unfold)
  also have "\<dots> = mset (map (fst \<circ> snd) (keys fk)) + mset (spare_keys fk)"
    using mset_map_partition [of "fst \<circ> snd" ?P "keys fk"] by (simp only: ac_simps)
  finally show ?thesis by (simp add: segments_def)
qed

lemma fk_get_retain:
  "fk_get (retain_keys order new fk) k =
     (case map_of new k of None \<Rightarrow> None | Some idx \<Rightarrow> map_option (\<lambda>(seg, _). (seg, idx)) (fk_get fk k))"
proof -
  have "map_of (map (\<lambda>(key, seg, _). (key, seg, the (map_of new key))) (filter (\<lambda>(key, _). map_of new key \<noteq> None) kl)) k =
     (case map_of new k of None \<Rightarrow> None | Some idx \<Rightarrow> map_option (\<lambda>(seg, _). (seg, idx)) (map_of kl k))" for kl
    by (induction kl) (auto split: option.split)
  then show ?thesis unfolding fk_get_def by (simp add: retain_keys_def)
qed

lemma keys_ok_retain:
  assumes "iterates_once order" "keys_ok fk" shows "keys_ok (retain_keys order new fk)"
proof -
  let ?f = "retain_keys order new fk"
  have m: "mset (segments ?f) = mset (segments fk)"
    using assms by (intro mset_retained) (simp_all add: keys_ok_def)
  have "distinct (map fst (keys ?f))"
    using assms(2) by (simp add: keys_ok_def retain_keys_def comp_def case_prod_unfold distinct_map_filter)
  moreover have "current_key ?f = current_key fk" by (simp add: retain_keys_def)
  ultimately show ?thesis
    using assms(2) mset_eq_imp_distinct_iff [OF m] mset_eq_setD [OF m] by (simp add: keys_ok_def)
qed

subsection \<open>Updating the keys\<close>

lemma keys_ok_next:
  assumes "keys_ok fk" "fk_get fk key = None" "next_key fk = (seg, fk1)"
  shows "keys_ok (fk1\<lparr>keys := AList.update key (seg, idx) (keys fk1)\<rparr>)"
    and "keys fk1 = keys fk"
proof -
  show same: "keys fk1 = keys fk" using assms(3) by (auto simp: next_key_def split: if_splits)
  have fresh: "key \<notin> fst ` set (keys fk)" using assms(2) by (simp add: fk_get_def map_of_eq_None_iff)
  show "keys_ok (fk1\<lparr>keys := AList.update key (seg, idx) (keys fk1)\<rparr>)"
  proof (cases "spare_keys fk = []")
    case True
    then have "seg = current_key fk + 1" "fk1 = fk\<lparr>current_key := current_key fk + 1\<rparr>"
      using assms(3) by (auto simp: next_key_def)
    then show ?thesis using assms(1) True fresh
      by (fastforce simp: keys_ok_def segments_def update_fresh)
  next
    case False
    then obtain spare where spare: "spare_keys fk = spare @ [seg]" "fk1 = fk\<lparr>spare_keys := spare\<rparr>"
      using assms(3) by (cases "spare_keys fk" rule: rev_cases) (auto simp: next_key_def)
    then show ?thesis using assms(1) fresh
      by (auto simp: keys_ok_def segments_def update_fresh)
  qed
qed

text \<open>What the loop over \<open>ks\<close> makes of the keys \<open>fk\<close>.\<close>

definition keys_added :: "('k \<times> nat) list \<Rightarrow> 'k list \<Rightarrow> 'k field_keys \<Rightarrow> (nat \<times> path_segment) list \<Rightarrow> 'k field_keys \<Rightarrow> bool" where
  "keys_added new ks fk out fk' \<longleftrightarrow>
     keys_ok fk' \<and>
     (\<forall>k e. fk_get fk k = Some e \<longrightarrow> fk_get fk' k = Some e) \<and>
     (\<forall>k seg i. fk_get fk' k = Some (seg, i) \<longrightarrow> map_of new k = Some i) \<and>
     (\<forall>k. fk_get fk' k \<noteq> None \<longleftrightarrow> fk_get fk k \<noteq> None \<or> k \<in> set ks \<and> map_of new k \<noteq> None) \<and>
     (\<forall>i seg. (i, seg) \<in> set out \<longleftrightarrow> (\<exists>k\<in>set ks. fk_get fk' k = Some (seg, i)))"

lemma keys_added_skip:
  assumes "keys_added new ks fk out fk'" "map_of new key = None" "fk_get fk key = None"
  shows "keys_added new (key # ks) fk out fk'"
  using assms by (auto simp: keys_added_def)

lemma keys_added_old:
  assumes "keys_added new ks fk out fk'" "fk_get fk key = Some (seg, i)"
  shows "keys_added new (key # ks) fk ((i, seg) # out) fk'"
proof -
  have "fk_get fk' key = Some (seg, i)" using assms by (simp add: keys_added_def)
  then show ?thesis using assms by (fastforce simp: keys_added_def)
qed

lemma keys_added_new:
  assumes "keys_added new ks fk1 out fk'" "fk_get fk key = None" "map_of new key = Some idx"
    and "\<And>k. fk_get fk1 k = (if k = key then Some (seg, idx) else fk_get fk k)"
  shows "keys_added new (key # ks) fk ((idx, seg) # out) fk'"
proof -
  have "fk_get fk' key = Some (seg, idx)" using assms(1,4) by (simp add: keys_added_def)
  then show ?thesis using assms unfolding keys_added_def by (auto split: if_splits) (metis option.distinct(1))+
qed

lemma add_keys_correct:
  "keys_ok fk \<Longrightarrow> (\<And>k seg i. fk_get fk k = Some (seg, i) \<Longrightarrow> map_of new k = Some i) \<Longrightarrow>
     add_keys new ks fk = (out, fk') \<Longrightarrow> keys_added new ks fk out fk'"
proof (induction ks arbitrary: fk out)
  case Nil
  then show ?case by (auto simp: keys_added_def)
next
  case (Cons key ks)
  show ?case
  proof (cases "map_of new key")
    case None
    then have "keys_added new ks fk out fk'" using Cons by simp
    moreover have "fk_get fk key = None" using None Cons.prems(2) [of key] by (cases "fk_get fk key") auto
    ultimately show ?thesis using None by (intro keys_added_skip)
  next
    case (Some idx)
    show ?thesis
    proof (cases "fk_get fk key")
      case None
      obtain seg fk0 where nk: "next_key fk = (seg, fk0)" by fastforce
      let ?fk1 = "fk0\<lparr>keys := AList.update key (seg, idx) (keys fk0)\<rparr>"
      have get1: "fk_get ?fk1 k = (if k = key then Some (seg, idx) else fk_get fk k)" for k
        by (simp add: fk_get_def update_conv' keys_ok_next(2) [OF Cons.prems(1) None nk])
      obtain out' where out': "add_keys new ks ?fk1 = (out', fk')" "out = (idx, seg) # out'"
        using Cons.prems(3) Some None nk by (auto split: prod.splits)
      have "keys_added new ks ?fk1 out' fk'"
        using Cons.prems(2) Some get1
        by (intro Cons.IH [OF keys_ok_next(1) [OF Cons.prems(1) None nk] _ out'(1)]) (auto split: if_splits)
      then show ?thesis unfolding out'(2) using None Some get1 by (rule keys_added_new)
    next
      case old: (Some e)
      obtain seg i where e: "e = (seg, i)" by fastforce
      obtain out' where out': "add_keys new ks fk = (out', fk')" "out = (i, seg) # out'"
        using Cons.prems(3) Some old e by (auto split: prod.splits)
      show ?thesis unfolding out'(2)
        using Cons.IH [OF Cons.prems(1,2) out'(1)] old unfolding e by (rule keys_added_old)
    qed
  qed
qed

lemma fk_update_correct:
  assumes "iterates_once order" "keys_ok fk" "fk_update order ks fk = (out, fk')"
  shows "keys_ok fk'"
    and "fk_get fk' k \<noteq> None \<longleftrightarrow> k \<in> set ks"
    and "fk_get fk' k = Some (seg, i) \<Longrightarrow> i < length ks \<and> ks ! i = k"
    and "k \<in> set ks \<Longrightarrow> fk_get fk k = Some (seg, j) \<Longrightarrow> \<exists>i. fk_get fk' k = Some (seg, i)"
    and "(i, seg) \<in> set out \<longleftrightarrow> (\<exists>k. fk_get fk' k = Some (seg, i))"
proof -
  let ?new = "new_positions ks"
  let ?fk1 = "retain_keys order ?new fk"
  have get1: "fk_get ?fk1 k = Some (seg, i) \<Longrightarrow> map_of ?new k = Some i" for k seg i
    by (auto simp: fk_get_retain split: option.splits)
  have "keys_added ?new (order (map fst ?new)) ?fk1 out fk'"
    using assms(3) unfolding fk_update_def Let_def
    by (intro add_keys_correct keys_ok_retain assms(1,2) get1)
  moreover have ord: "set (order (map fst ?new)) = set ks"
    using assms(1) new_positions_keys(2) [of ks] by (metis iterates_once_def mset_eq_setD)
  ultimately have *: "keys_ok fk'" "\<And>k e. fk_get ?fk1 k = Some e \<Longrightarrow> fk_get fk' k = Some e"
    "\<And>k seg i. fk_get fk' k = Some (seg, i) \<Longrightarrow> map_of ?new k = Some i"
    "\<And>k. fk_get fk' k \<noteq> None \<longleftrightarrow> fk_get ?fk1 k \<noteq> None \<or> k \<in> set ks \<and> map_of ?new k \<noteq> None"
    "\<And>i seg. (i, seg) \<in> set out \<longleftrightarrow> (\<exists>k\<in>set ks. fk_get fk' k = Some (seg, i))"
    unfolding keys_added_def by blast+
  show "keys_ok fk'" by (rule *(1))
  show dom: "fk_get fk' k \<noteq> None \<longleftrightarrow> k \<in> set ks" for k
    using *(4) [of k] new_positions_dom [of ks k] fk_get_retain [of order ?new fk k] by (cases "map_of ?new k") auto
  show "fk_get fk' k = Some (seg, i) \<Longrightarrow> i < length ks \<and> ks ! i = k"
    by (rule new_positions_nth [OF *(3)])
  show "\<exists>i. fk_get fk' k = Some (seg, i)" if "k \<in> set ks" "fk_get fk k = Some (seg, j)"
    using *(2) [of k] that new_positions_dom [of ks k] fk_get_retain [of order ?new fk k] by (cases "map_of ?new k") auto
  show "(i, seg) \<in> set out \<longleftrightarrow> (\<exists>k. fk_get fk' k = Some (seg, i))"
    using *(5) [of i seg] dom by (metis option.distinct(1))
qed

end
