(* ===== verification/Store_Fields.thy ===== *)
theory Store_Fields
  imports Store_Keys "HOL-Library.Word" "HOL-Library.Sublist"
begin

text \<open>
  A store and the fields through which it is read and written
  (\<^verbatim>\<open>src/reactive_stores/src\<close>: \<open>store_field.rs\<close>, \<open>subfield.rs\<close>, \<open>option.rs\<close>, \<open>iter.rs\<close>,
  \<open>deref.rs\<close>, \<open>keyed.rs\<close>, and \<open>KeyMap\<close> of \<open>lib.rs\<close>). The triggers of a path are named by the
  path, since \<open>TriggerMap::get_or_insert\<close> hands out one pair of triggers per path; the
  notifications of the triggers are collected in the order in which they happen. The lock of
  the value is a flag: taking it while it is held gives \<open>None\<close>, as \<open>try_take\<close> does.
\<close>

subsection \<open>Values\<close>

text \<open>A tuple is a struct with positional fields; \<open>Flt\<close> is a floating-point number by its bits.\<close>

datatype sval =
    Prim string
  | Flt "64 word"
  | OptV "sval option"
  | VecV "sval list"
  | StructV "sval list"
  | EnumV nat "sval list"
  | BoxV sval

datatype step = Fld nat | Payload | Elem nat | Pointee

fun project :: "step \<Rightarrow> sval \<Rightarrow> sval option" where
  "project (Fld i) (StructV vs) = (if i < length vs then Some (vs ! i) else None)"
| "project Payload (OptV v) = v"
| "project (Elem i) (VecV vs) = (if i < length vs then Some (vs ! i) else None)"
| "project Pointee (BoxV v) = Some v"
| "project _ _ = None"

fun adjust :: "step \<Rightarrow> (sval \<Rightarrow> sval) \<Rightarrow> sval \<Rightarrow> sval" where
  "adjust (Fld i) g (StructV vs) = StructV (if i < length vs then vs[i := g (vs ! i)] else vs)"
| "adjust Payload g (OptV v) = OptV (map_option g v)"
| "adjust (Elem i) g (VecV vs) = VecV (if i < length vs then vs[i := g (vs ! i)] else vs)"
| "adjust Pointee g (BoxV v) = BoxV (g v)"
| "adjust _ g v = v"

fun read_at :: "step list \<Rightarrow> sval \<Rightarrow> sval option" where
  "read_at [] v = Some v"
| "read_at (s # l) v = (case project s v of None \<Rightarrow> None | Some v' \<Rightarrow> read_at l v')"

fun write_at :: "step list \<Rightarrow> (sval \<Rightarrow> sval) \<Rightarrow> sval \<Rightarrow> sval" where
  "write_at [] g v = g v"
| "write_at (s # l) g v = adjust s (write_at l g) v"

subsection \<open>The store\<close>

datatype trigger = This path | Children path

record store =
  st_value :: sval
  st_locked :: bool
  st_field_keys :: "path \<rightharpoonup> nat \<times> sval field_keys"
  st_index :: "path \<times> nat \<rightharpoonup> path_segment"
  notified :: "trigger list"

definition store_new :: "sval \<Rightarrow> store" where
  "store_new v = \<lparr>st_value = v, st_locked = False, st_field_keys = Map.empty, st_index = Map.empty, notified = []\<rparr>"

text \<open>
  \<open>KeyMap::with_field_keys\<close>: the keys are created at the first access; \<open>ty\<close> is the key type
  of the caller, which the downcast compares with the one the keys were created with.
\<close>

definition with_field_keys ::
  "path \<Rightarrow> nat \<Rightarrow> (sval field_keys \<Rightarrow> 'r \<times> (nat \<times> path_segment) list \<times> sval field_keys)
     \<Rightarrow> (store \<Rightarrow> sval list \<times> store) \<Rightarrow> store \<Rightarrow> 'r option \<times> store" where
  "with_field_keys p ty f initialize st =
     (let (initial, st) = (if st_field_keys st p = None then initialize st else ([], st));
          st = (if st_field_keys st p = None
                then st\<lparr>st_field_keys := (st_field_keys st)(p \<mapsto> (ty, fk_new initial))\<rparr> else st)
      in case st_field_keys st p of
           None \<Rightarrow> (None, st)
         | Some (ty', fk) \<Rightarrow>
             if ty' \<noteq> ty then (None, st)
             else (let (r, new_keys, fk) = f fk
                   in (Some r, st\<lparr>st_field_keys := (st_field_keys st)(p \<mapsto> (ty, fk)),
                                  st_index := fold (\<lambda>(idx, seg) m. m((p, idx) \<mapsto> seg)) new_keys (st_index st)\<rparr>)))"

definition look_up :: "path \<Rightarrow> nat \<Rightarrow> sval \<Rightarrow> (store \<Rightarrow> sval list \<times> store) \<Rightarrow> store \<Rightarrow> (path_segment \<times> nat) option \<times> store" where
  "look_up p ty key initialize st =
     (let (r, st) = with_field_keys p ty (\<lambda>fk. (fk_get fk key, [], fk)) initialize st
      in (Option.bind r id, st))"

subsection \<open>Fields\<close>

text \<open>
  A keyed field has a path segment, the type of its keys and the function that gives the key
  of an item.
\<close>

datatype store_field =
    Root
  | Subfield store_field nat
  | OptionSubfield store_field
  | AtIndex store_field nat
  | DerefedField store_field
  | KeyedSubfield keyed
  | AtKeyed keyed sval
and keyed = Keyed store_field nat nat "sval \<Rightarrow> sval"

fun kd_type :: "keyed \<Rightarrow> nat" where "kd_type (Keyed f i ty key_fn) = ty"
fun kd_key_fn :: "keyed \<Rightarrow> sval \<Rightarrow> sval" where "kd_key_fn (Keyed f i ty key_fn) = key_fn"

fun items_of :: "sval option \<Rightarrow> sval list" where
  "items_of (Some (VecV vs)) = vs"
| "items_of _ = []"

text \<open>The keys a reader sees; none if there is no reader.\<close>

definition latest :: "(sval \<Rightarrow> sval) \<Rightarrow> (store \<Rightarrow> step list option \<times> store) \<Rightarrow> store \<Rightarrow> sval list \<times> store" where
  "latest key_fn reader st =
     (let (r, st) = reader st
      in (case r of None \<Rightarrow> [] | Some l \<Rightarrow> map key_fn (items_of (read_at l (st_value st))), st))"

definition refresh_keys ::
  "(sval list \<Rightarrow> sval list) \<Rightarrow> nat \<Rightarrow> (store \<Rightarrow> path \<times> store) \<Rightarrow> (store \<Rightarrow> sval list \<times> store) \<Rightarrow> store \<Rightarrow> store" where
  "refresh_keys order ty path_of latest_keys st =
     (let (p, st) = path_of st;
          (ks, st) = latest_keys st
      in snd (with_field_keys p ty (\<lambda>fk. let (out, fk) = fk_update order ks fk in ((), out, fk)) latest_keys st))"

definition index_is_current ::
  "(sval \<Rightarrow> sval) \<Rightarrow> sval \<Rightarrow> nat option \<Rightarrow> (store \<Rightarrow> step list option \<times> store) \<Rightarrow> store \<Rightarrow> bool \<times> store" where
  "index_is_current key_fn key index reader st =
     (let (r, st) = reader st
      in (case r of
            None \<Rightarrow> True
          | Some l \<Rightarrow>
              (let vs = items_of (read_at l (st_value st))
               in case index of
                    Some i \<Rightarrow> i < length vs \<and> key_fn (vs ! i) = key
                  | None \<Rightarrow> key \<notin> key_fn ` set vs), st))"

definition resolve ::
  "(sval list \<Rightarrow> sval list) \<Rightarrow> nat \<Rightarrow> (sval \<Rightarrow> sval) \<Rightarrow> sval
     \<Rightarrow> (store \<Rightarrow> path \<times> store) \<Rightarrow> (store \<Rightarrow> step list option \<times> store) \<Rightarrow> store \<Rightarrow> nat option \<times> store" where
  "resolve order ty key_fn key path_of reader st =
     (let (p, st) = path_of st;
          (e, st) = look_up p ty key (latest key_fn reader) st;
          index = map_option snd e;
          (current, st) = index_is_current key_fn key index reader st
      in if current then (index, st)
         else (let st = refresh_keys order ty path_of (latest key_fn reader) st;
                   (e, st) = look_up p ty key (latest key_fn reader) st
               in (map_option snd e, st)))"

text \<open>The readers of the kinds of fields, over the reader of the field they are in.\<close>

definition subfield_reader :: "nat \<Rightarrow> (store \<Rightarrow> step list option \<times> store) \<Rightarrow> store \<Rightarrow> step list option \<times> store" where
  "subfield_reader i inner st = (let (r, st) = inner st in (map_option (\<lambda>l. l @ [Fld i]) r, st))"

definition option_reader :: "(store \<Rightarrow> step list option \<times> store) \<Rightarrow> store \<Rightarrow> step list option \<times> store" where
  "option_reader inner st =
     (let (r, st) = inner st
      in (Option.bind r (\<lambda>l. if read_at l (st_value st) = Some (OptV None) then None else Some (l @ [Payload])), st))"

definition index_reader :: "nat \<Rightarrow> (store \<Rightarrow> step list option \<times> store) \<Rightarrow> store \<Rightarrow> step list option \<times> store" where
  "index_reader i inner st =
     (let (r, st) = inner st
      in (Option.bind r (\<lambda>l. if length (items_of (read_at l (st_value st))) \<le> i then None else Some (l @ [Elem i])), st))"

definition deref_reader :: "(store \<Rightarrow> step list option \<times> store) \<Rightarrow> store \<Rightarrow> step list option \<times> store" where
  "deref_reader inner st = (let (r, st) = inner st in (map_option (\<lambda>l. l @ [Pointee]) r, st))"

definition at_key_reader ::
  "(store \<Rightarrow> nat option \<times> store) \<Rightarrow> (store \<Rightarrow> step list option \<times> store) \<Rightarrow> store \<Rightarrow> step list option \<times> store" where
  "at_key_reader resolve_index inner st =
     (let (index, st) = resolve_index st
      in case index of
           None \<Rightarrow> (None, st)
         | Some i \<Rightarrow> (let (r, st) = inner st in (map_option (\<lambda>l. l @ [Elem i]) r, st)))"

definition at_key_path :: "nat \<Rightarrow> sval \<Rightarrow> (store \<Rightarrow> path \<times> store) \<Rightarrow> (store \<Rightarrow> sval list \<times> store) \<Rightarrow> store \<Rightarrow> path \<times> store" where
  "at_key_path ty key inner initialize st =
     (let (p, st) = inner st;
          (e, st) = look_up p ty key initialize st
      in (p @ (case e of None \<Rightarrow> [] | Some (seg, _) \<Rightarrow> [seg]), st))"

declare subfield_reader_def [simp] option_reader_def [simp] index_reader_def [simp] deref_reader_def [simp]
  at_key_reader_def [simp] at_key_path_def [simp]

text \<open>The paths and the readers of fields. The reader of a keyed item looks up its position.\<close>

fun path_of :: "(sval list \<Rightarrow> sval list) \<Rightarrow> store_field \<Rightarrow> store \<Rightarrow> path \<times> store"
  and keyed_path_of :: "(sval list \<Rightarrow> sval list) \<Rightarrow> keyed \<Rightarrow> store \<Rightarrow> path \<times> store"
  and reader :: "(sval list \<Rightarrow> sval list) \<Rightarrow> store_field \<Rightarrow> store \<Rightarrow> step list option \<times> store"
  and keyed_reader :: "(sval list \<Rightarrow> sval list) \<Rightarrow> keyed \<Rightarrow> store \<Rightarrow> step list option \<times> store" where
  "path_of oc Root st = ([], st)"
| "path_of oc (Subfield f i) st = (let (p, st) = path_of oc f st in (p @ [i], st))"
| "path_of oc (OptionSubfield f) st = (let (p, st) = path_of oc f st in (p @ [0], st))"
| "path_of oc (AtIndex f i) st = (let (p, st) = path_of oc f st in (p @ [i], st))"
| "path_of oc (DerefedField f) st = path_of oc f st"
| "path_of oc (KeyedSubfield kd) st = keyed_path_of oc kd st"
| "path_of oc (AtKeyed kd key) st =
     at_key_path (kd_type kd) key (keyed_path_of oc kd) (latest (kd_key_fn kd) (keyed_reader oc kd)) st"
| "keyed_path_of oc (Keyed f i ty key_fn) st = (let (p, st) = path_of oc f st in (p @ [i], st))"
| "reader oc Root st = (if st_locked st then None else Some [], st)"
| "reader oc (Subfield f i) st = subfield_reader i (reader oc f) st"
| "reader oc (OptionSubfield f) st = option_reader (reader oc f) st"
| "reader oc (AtIndex f i) st = index_reader i (reader oc f) st"
| "reader oc (DerefedField f) st = deref_reader (reader oc f) st"
| "reader oc (KeyedSubfield kd) st = keyed_reader oc kd st"
| "reader oc (AtKeyed kd key) st =
     at_key_reader (resolve oc (kd_type kd) (kd_key_fn kd) key (keyed_path_of oc kd) (keyed_reader oc kd))
       (keyed_reader oc kd) st"
| "keyed_reader oc (Keyed f i ty key_fn) st = subfield_reader i (reader oc f) st"

definition latest_keys :: "(sval list \<Rightarrow> sval list) \<Rightarrow> keyed \<Rightarrow> store \<Rightarrow> sval list \<times> store" where
  "latest_keys oc kd = latest (kd_key_fn kd) (keyed_reader oc kd)"

definition update_keys :: "(sval list \<Rightarrow> sval list) \<Rightarrow> keyed \<Rightarrow> store \<Rightarrow> store" where
  "update_keys oc kd = refresh_keys oc (kd_type kd) (keyed_path_of oc kd) (latest_keys oc kd)"

definition resolve_index :: "(sval list \<Rightarrow> sval list) \<Rightarrow> keyed \<Rightarrow> sval \<Rightarrow> store \<Rightarrow> nat option \<times> store" where
  "resolve_index oc kd key = resolve oc (kd_type kd) (kd_key_fn kd) key (keyed_path_of oc kd) (keyed_reader oc kd)"

subsection \<open>Triggers\<close>

text \<open>The loop that pops one segment after the other.\<close>

fun ancestors :: "path \<Rightarrow> path list" where
  "ancestors p = (if p = [] then [] else butlast p # ancestors (butlast p))"

declare ancestors.simps [simp del]

definition triggers_for_path :: "path \<Rightarrow> trigger list" where
  "triggers_for_path p = rev (This p # Children p # map Children (ancestors p))"

definition triggers_for_current_path :: "(sval list \<Rightarrow> sval list) \<Rightarrow> store_field \<Rightarrow> store \<Rightarrow> trigger list \<times> store" where
  "triggers_for_current_path oc f st = (let (p, st) = path_of oc f st in (triggers_for_path p, st))"

text \<open>
  \<open>track_field\<close>: the triggers a reader of the field subscribes to. The root and a
  dereferenced field use the default implementation of the trait.
\<close>

definition track_default :: "path \<Rightarrow> trigger list" where
  "track_default p = [This p, Children p]"

definition track_with_ancestors :: "path \<Rightarrow> trigger list" where
  "track_with_ancestors p = This p # Children p # map This (ancestors p)"

definition track_field :: "(sval list \<Rightarrow> sval list) \<Rightarrow> store_field \<Rightarrow> store \<Rightarrow> trigger list \<times> store" where
  "track_field oc f st =
     (let (p, st) = path_of oc f st
      in (case f of
            Root \<Rightarrow> track_default p
          | DerefedField f' \<Rightarrow> track_default p
          | _ \<Rightarrow> track_with_ancestors p, st))"

text \<open>\<open>Notify::notify\<close> of a field.\<close>

definition notify_field :: "(sval list \<Rightarrow> sval list) \<Rightarrow> store_field \<Rightarrow> store \<Rightarrow> store" where
  "notify_field oc f st =
     (let (p, st) = path_of oc f st
      in st\<lparr>notified := notified st @ (case f of AtIndex f' i \<Rightarrow> [This p] | _ \<Rightarrow> [This p, Children p])\<rparr>)"

subsection \<open>Writing\<close>

text \<open>Dropping a write guard releases the lock and then notifies the triggers it holds.\<close>

definition drop_guard :: "trigger list \<Rightarrow> store \<Rightarrow> store" where
  "drop_guard ts st = st\<lparr>st_locked := False, notified := notified st @ ts\<rparr>"

text \<open>
  The guard of a writer is the place it gives access to, with the triggers it notifies when
  it is dropped; the guard of the parent is untracked.
\<close>

type_synonym guard = "step list \<times> trigger list"

definition root_writer :: "store \<Rightarrow> guard option \<times> store" where
  "root_writer st =
     (if st_locked st then (None, st) else (Some ([], [Children []]), st\<lparr>st_locked := True\<rparr>))"

definition subfield_writer ::
  "nat \<Rightarrow> (store \<Rightarrow> trigger list \<times> store) \<Rightarrow> (store \<Rightarrow> guard option \<times> store) \<Rightarrow> store \<Rightarrow> guard option \<times> store" where
  "subfield_writer i triggers inner st =
     (case inner st of
        (None, st) \<Rightarrow> (None, st)
      | (Some (l, _), st) \<Rightarrow> (let (ts, st) = triggers st in (Some (l @ [Fld i], ts), st)))"

definition option_writer ::
  "(store \<Rightarrow> trigger list \<times> store) \<Rightarrow> (store \<Rightarrow> guard option \<times> store) \<Rightarrow> store \<Rightarrow> guard option \<times> store" where
  "option_writer triggers inner st =
     (case inner st of
        (None, st) \<Rightarrow> (None, st)
      | (Some (l, parent), st) \<Rightarrow>
          if read_at l (st_value st) = Some (OptV None) then (None, drop_guard parent st)
          else (let (ts, st) = triggers st in (Some (l @ [Payload], ts), st)))"

definition index_writer ::
  "nat \<Rightarrow> (store \<Rightarrow> trigger list \<times> store) \<Rightarrow> (store \<Rightarrow> guard option \<times> store) \<Rightarrow> store \<Rightarrow> guard option \<times> store" where
  "index_writer i triggers inner st =
     (case inner st of
        (None, st) \<Rightarrow> (None, st)
      | (Some (l, _), st) \<Rightarrow>
          (let (ts, st) = triggers st
           in if length (items_of (read_at l (st_value st))) \<le> i then (None, drop_guard ts st)
              else (Some (l @ [Elem i], ts), st)))"

definition deref_writer :: "(store \<Rightarrow> guard option \<times> store) \<Rightarrow> store \<Rightarrow> guard option \<times> store" where
  "deref_writer inner st =
     (case inner st of
        (None, st) \<Rightarrow> (None, st)
      | (Some (l, ts), st) \<Rightarrow> (Some (l @ [Pointee], ts), st))"

definition at_key_writer ::
  "(store \<Rightarrow> nat option \<times> store) \<Rightarrow> (store \<Rightarrow> trigger list \<times> store) \<Rightarrow> (store \<Rightarrow> guard option \<times> store)
     \<Rightarrow> store \<Rightarrow> guard option \<times> store" where
  "at_key_writer index triggers inner st =
     (case index st of
        (None, st) \<Rightarrow> (None, st)
      | (Some i, st) \<Rightarrow>
          (let (ts, st) = triggers st
           in case inner st of
                (None, st) \<Rightarrow> (None, st)
              | (Some (l, _), st) \<Rightarrow> (Some (l @ [Elem i], ts), st)))"

declare root_writer_def [simp] subfield_writer_def [simp] option_writer_def [simp] index_writer_def [simp]
  deref_writer_def [simp] at_key_writer_def [simp]

fun writer :: "(sval list \<Rightarrow> sval list) \<Rightarrow> store_field \<Rightarrow> store \<Rightarrow> guard option \<times> store"
  and keyed_writer :: "(sval list \<Rightarrow> sval list) \<Rightarrow> keyed \<Rightarrow> store \<Rightarrow> guard option \<times> store" where
  "writer oc Root st = root_writer st"
| "writer oc (Subfield f i) st =
     subfield_writer i (triggers_for_current_path oc (Subfield f i)) (writer oc f) st"
| "writer oc (OptionSubfield f) st =
     option_writer (triggers_for_current_path oc (OptionSubfield f)) (writer oc f) st"
| "writer oc (AtIndex f i) st =
     index_writer i (triggers_for_current_path oc (AtIndex f i)) (writer oc f) st"
| "writer oc (DerefedField f) st = deref_writer (writer oc f) st"
| "writer oc (KeyedSubfield kd) st = keyed_writer oc kd st"
| "writer oc (AtKeyed kd key) st =
     at_key_writer (resolve_index oc kd key) (triggers_for_current_path oc (AtKeyed kd key)) (keyed_writer oc kd) st"
| "keyed_writer oc (Keyed f i ty key_fn) st =
     subfield_writer i (triggers_for_current_path oc (KeyedSubfield (Keyed f i ty key_fn))) (writer oc f) st"

text \<open>
  \<open>try_write\<close>, a change through the guard, and the drop of the guard; the result says whether
  there was a guard. The store itself notifies once more, and a keyed field refreshes its keys
  before it does.
\<close>

definition write_field :: "(sval list \<Rightarrow> sval list) \<Rightarrow> store_field \<Rightarrow> (sval \<Rightarrow> sval) \<Rightarrow> store \<Rightarrow> bool \<times> store" where
  "write_field oc f g st =
     (case writer oc f st of
        (None, st) \<Rightarrow> (False, st)
      | (Some (l, ts), st) \<Rightarrow>
          (let st = drop_guard ts (st\<lparr>st_value := write_at l g (st_value st)\<rparr>)
           in (True,
               case f of
                 Root \<Rightarrow> notify_field oc f st
               | KeyedSubfield kd \<Rightarrow> notify_field oc f (update_keys oc kd st)
               | _ \<Rightarrow> st)))"

text \<open>A subscriber is woken by a notification of a trigger it subscribed to.\<close>

definition woken :: "trigger list \<Rightarrow> trigger list \<Rightarrow> bool" where
  "woken tracked log \<longleftrightarrow> (\<exists>t\<in>set tracked. t \<in> set log)"

subsection \<open>Iterating over a collection\<close>

text \<open>
  \<open>iter_unkeyed\<close> subscribes to the triggers of the collection and yields the fields of its
  positions; the iterator of a keyed field refreshes the keys first and yields the items by key.
\<close>

record field_iter =
  it_inner :: store_field
  it_idx :: nat
  it_len :: nat

definition iter_unkeyed :: "(sval list \<Rightarrow> sval list) \<Rightarrow> store_field \<Rightarrow> store \<Rightarrow> trigger list \<times> field_iter \<times> store" where
  "iter_unkeyed oc f st =
     (let (p, st) = path_of oc f st;
          (r, st) = reader oc f st;
          n = (case r of None \<Rightarrow> 0 | Some l \<Rightarrow> length (items_of (read_at l (st_value st))))
      in (track_default p, \<lparr>it_inner = f, it_idx = 0, it_len = n\<rparr>, st))"

definition iter_next :: "field_iter \<Rightarrow> store_field option \<times> field_iter" where
  "iter_next it =
     (if it_idx it < it_len it
      then (Some (AtIndex (it_inner it) (it_idx it)), it\<lparr>it_idx := it_idx it + 1\<rparr>)
      else (None, it))"

definition iter_next_back :: "field_iter \<Rightarrow> store_field option \<times> field_iter" where
  "iter_next_back it =
     (if it_len it > it_idx it
      then (Some (AtIndex (it_inner it) (it_len it - 1)), it\<lparr>it_len := it_len it - 1\<rparr>)
      else (None, it))"

definition keyed_iter :: "(sval list \<Rightarrow> sval list) \<Rightarrow> keyed \<Rightarrow> store \<Rightarrow> trigger list \<times> sval list \<times> store" where
  "keyed_iter oc kd st =
     (let st = update_keys oc kd st;
          (tracked, st) = track_field oc (KeyedSubfield kd) st;
          (ks, st) = latest_keys oc kd st
      in (tracked, ks, st))"

fun keyed_next :: "keyed \<Rightarrow> sval list \<Rightarrow> store_field option \<times> sval list" where
  "keyed_next kd [] = (None, [])"
| "keyed_next kd (key # ks) = (Some (AtKeyed kd key), ks)"

end
