(* ===== verification/Store_Patch.thy ===== *)
theory Store_Patch
  imports Store_Fields
begin

text \<open>
  Patching a field of a store with a new value
  (\<^verbatim>\<open>src/reactive_stores/src/patch.rs\<close>, and the code that \<^verbatim>\<open>src/reactive_stores_macro/src/lib.rs\<close>
  derives for structs and enums). A type that can be patched is described by \<open>sty\<close>; an
  implementation of \<open>PatchField\<close> is a function of the old value, the new value, the path of the
  store_field and the store, which it notifies.
\<close>

subsection \<open>Notifying by unkeyed paths\<close>

text \<open>\<open>get_trigger_unkeyed\<close>: below a keyed field, the position of an item is turned into its segment.\<close>

fun resolve_keyed_path :: "store \<Rightarrow> path \<Rightarrow> path \<Rightarrow> path result" where
  "resolve_keyed_path st acc [] = Inr acc"
| "resolve_keyed_path st acc (seg # rest) =
     (if st_field_keys st acc \<noteq> None
      then case st_index st (acc, seg) of
             None \<Rightarrow> Inl Panic
           | Some key \<Rightarrow> resolve_keyed_path st (acc @ [key]) rest
      else resolve_keyed_path st (acc @ [seg]) rest)"

definition get_trigger_unkeyed :: "path \<Rightarrow> store \<Rightarrow> path result" where
  "get_trigger_unkeyed p st = resolve_keyed_path st [] p"

fun map_result :: "('a \<Rightarrow> 'b result) \<Rightarrow> 'a list \<Rightarrow> 'b list result" where
  "map_result f [] = Inr []"
| "map_result f (x # xs) = and_then (f x) (\<lambda>y. and_then (map_result f xs) (\<lambda>ys. Inr (y # ys)))"

definition triggers_for_path_unkeyed :: "path \<Rightarrow> store \<Rightarrow> trigger list result" where
  "triggers_for_path_unkeyed p st =
     and_then (get_trigger_unkeyed p st) (\<lambda>kp.
     and_then (map_result (\<lambda>q. get_trigger_unkeyed q st) (ancestors p)) (\<lambda>above.
     Inr (rev (This kp # Children kp # map Children above))))"

text \<open>The closure \<open>notify\<close> of \<open>Patch::patch\<close>.\<close>

definition notify_unkeyed :: "path \<Rightarrow> store \<Rightarrow> store result" where
  "notify_unkeyed p st =
     and_then (triggers_for_path_unkeyed p st) (\<lambda>ts. Inr (st\<lparr>notified := notified st @ ts\<rparr>))"

fun path_unkeyed :: "(sval list \<Rightarrow> sval list) \<Rightarrow> store_field \<Rightarrow> store \<Rightarrow> path \<times> store"
  and keyed_path_unkeyed :: "(sval list \<Rightarrow> sval list) \<Rightarrow> keyed \<Rightarrow> store \<Rightarrow> path \<times> store" where
  "path_unkeyed oc Root st = ([], st)"
| "path_unkeyed oc (Subfield f i) st = (let (p, st) = path_unkeyed oc f st in (p @ [i], st))"
| "path_unkeyed oc (OptionSubfield f) st = (let (p, st) = path_unkeyed oc f st in (p @ [0], st))"
| "path_unkeyed oc (AtIndex f i) st = (let (p, st) = path_unkeyed oc f st in (p @ [i], st))"
| "path_unkeyed oc (DerefedField f) st = path_unkeyed oc f st"
| "path_unkeyed oc (KeyedSubfield kd) st = keyed_path_unkeyed oc kd st"
| "path_unkeyed oc (AtKeyed kd key) st =
     (let (p, st) = keyed_path_unkeyed oc kd st;
          (e, st) = look_up p (kd_type kd) key (latest_keys oc kd) st
      in (p @ (case e of None \<Rightarrow> [] | Some (_, idx) \<Rightarrow> [idx]), st))"
| "keyed_path_unkeyed oc (Keyed f i ty key_fn) st = (let (p, st) = path_unkeyed oc f st in (p @ [i], st))"

subsection \<open>The implementations of \<open>PatchField\<close>\<close>

type_synonym patcher = "sval \<Rightarrow> sval \<Rightarrow> path \<Rightarrow> store \<Rightarrow> (sval \<times> store) result"

definition notify_with :: "sval \<Rightarrow> path \<Rightarrow> store \<Rightarrow> (sval \<times> store) result" where
  "notify_with v p st = and_then (notify_unkeyed p st) (\<lambda>st. Inr (v, st))"

text \<open>
  Primitive types, and floating-point numbers: \<open>total_cmp\<close> takes two of them for equal just if
  they have the same bits.
\<close>

definition patch_primitive :: patcher where
  "patch_primitive old new p st = (if new \<noteq> old then notify_with new p st else Inr (old, st))"

definition patch_unit :: patcher where
  "patch_unit old new p st = Inr (old, st)"

fun patch_option :: "patcher \<Rightarrow> patcher" where
  "patch_option P (OptV None) (OptV None) p st = Inr (OptV None, st)"
| "patch_option P (OptV (Some v)) (OptV None) p st = notify_with (OptV None) p st"
| "patch_option P (OptV None) (OptV (Some w)) p st = notify_with (OptV (Some w)) p st"
| "patch_option P (OptV (Some v)) (OptV (Some w)) p st =
     and_then (P v w (p @ [0]) st) (\<lambda>(v, st). Inr (OptV (Some v), st))"
| "patch_option P old new p st = Inr (old, st)"

text \<open>The items at positions that both vectors have.\<close>

fun patch_items :: "patcher \<Rightarrow> path \<Rightarrow> nat \<Rightarrow> sval list \<Rightarrow> sval list \<Rightarrow> store \<Rightarrow> (sval list \<times> store) result" where
  "patch_items P p idx (v # vs) (w # ws) st =
     and_then (P v w (p @ [idx]) st) (\<lambda>(v, st).
     and_then (patch_items P p (Suc idx) vs ws st) (\<lambda>(vs, st). Inr (v # vs, st)))"
| "patch_items P p idx vs ws st = Inr ([], st)"

fun patch_vec :: "patcher \<Rightarrow> patcher" where
  "patch_vec P (VecV vs) (VecV ws) p st =
     (if vs = [] \<and> ws = [] then Inr (VecV vs, st)
      else if ws = [] then notify_with (VecV []) p st
      else if vs = [] then notify_with (VecV ws) p st
      else and_then (patch_items P p 0 vs ws st) (\<lambda>(us, st).
        let adds = drop (length vs) ws; removes_at_end = length vs - length ws
        in if removes_at_end > 0 \<or> adds \<noteq> [] then notify_with (VecV (us @ adds)) p st
           else Inr (VecV (us @ adds), st)))"
| "patch_vec P old new p st = Inr (old, st)"

text \<open>
  A field of a struct is patched with the path of the struct and its own path. The derived code
  handles a field that is skipped, one with a closure of its own, and a keyed collection.
\<close>

type_synonym field_patcher = "sval \<Rightarrow> sval \<Rightarrow> path \<Rightarrow> path \<Rightarrow> store \<Rightarrow> (sval \<times> store) result"

definition plain_field :: "patcher \<Rightarrow> field_patcher" where
  "plain_field P old new sp fp st = P old new fp st"

definition skipped_field :: field_patcher where
  "skipped_field old new sp fp st = Inr (old, st)"

definition custom_field :: "(sval \<Rightarrow> sval \<Rightarrow> sval) \<Rightarrow> field_patcher" where
  "custom_field g old new sp fp st = (if new \<noteq> old then notify_with (g old new) fp st else Inr (old, st))"

fun patch_fields :: "field_patcher list \<Rightarrow> path \<Rightarrow> nat \<Rightarrow> sval list \<Rightarrow> sval list \<Rightarrow> store \<Rightarrow> (sval list \<times> store) result" where
  "patch_fields (P # Ps) p idx (v # vs) (w # ws) st =
     and_then (P v w p (p @ [idx]) st) (\<lambda>(v, st).
     and_then (patch_fields Ps p (Suc idx) vs ws st) (\<lambda>(vs, st). Inr (v # vs, st)))"
| "patch_fields Ps p idx vs ws st = Inr ([], st)"

fun patch_struct :: "field_patcher list \<Rightarrow> patcher" where
  "patch_struct Ps (StructV vs) (StructV ws) p st =
     and_then (patch_fields Ps p 0 vs ws st) (\<lambda>(us, st). Inr (StructV us, st))"
| "patch_struct Ps old new p st = Inr (old, st)"

fun patch_tuple :: "patcher list \<Rightarrow> patcher" where
  "patch_tuple Ps (StructV vs) (StructV ws) p st =
     and_then (patch_fields (map plain_field Ps) p 0 vs ws st) (\<lambda>(us, st). Inr (StructV us, st))"
| "patch_tuple Ps old new p st = Inr (old, st)"

fun patch_enum :: "patcher list list \<Rightarrow> patcher" where
  "patch_enum Pss (EnumV a vs) (EnumV b ws) p st =
     (if a = b \<and> a < length Pss
      then and_then (patch_fields (map plain_field (Pss ! a)) p 0 vs ws st) (\<lambda>(us, st). Inr (EnumV a us, st))
      else notify_with (EnumV b ws) p st)"
| "patch_enum Pss old new p st = Inr (old, st)"

subsection \<open>Keyed collections\<close>

text \<open>
  \<open>patch_field_keyed\<close> of a vector. The items are sorted by key, the old ones in a hash map and
  the new ones in an insertion-ordered one; then the new vector is rebuilt from the old items,
  which are patched in place.
\<close>

definition keyed_items :: "(sval \<Rightarrow> sval) \<Rightarrow> sval list \<Rightarrow> (sval \<times> nat \<times> sval) list" where
  "keyed_items key_fn vs = fold (\<lambda>(idx, v). AList.update (key_fn v) (idx, v)) (enumerate 0 vs) []"

fun rebuild_items ::
  "patcher \<Rightarrow> (sval \<Rightarrow> store \<Rightarrow> path option \<times> store) \<Rightarrow> (sval \<times> nat \<times> sval) list \<Rightarrow> (sval \<times> nat \<times> sval) list
     \<Rightarrow> sval list \<Rightarrow> bool \<Rightarrow> store \<Rightarrow> (sval list \<times> bool \<times> store) result" where
  "rebuild_items P path_at_key [] old_keyed vs has_changed st = Inr (vs, has_changed, st)"
| "rebuild_items P path_at_key ((key, new_idx, new_value) # entries) old_keyed vs has_changed st =
     (case map_of old_keyed key of
        None \<Rightarrow> rebuild_items P path_at_key entries old_keyed (vs @ [new_value]) True st
      | Some (old_idx, old_value) \<Rightarrow>
          (let has_changed = (has_changed \<or> old_idx \<noteq> new_idx); vs = vs @ [old_value]
           in if length vs \<le> new_idx then Inl Panic
              else (case path_at_key key st of
                      (None, st) \<Rightarrow> rebuild_items P path_at_key entries (AList.delete key old_keyed) vs True st
                    | (Some p, st) \<Rightarrow>
                        and_then (P (vs ! new_idx) new_value p st) (\<lambda>(v, st).
                        rebuild_items P path_at_key entries (AList.delete key old_keyed) (vs[new_idx := v]) has_changed st))))"

fun patch_field_keyed ::
  "patcher \<Rightarrow> (sval \<Rightarrow> sval) \<Rightarrow> (sval \<Rightarrow> store \<Rightarrow> path option \<times> store) \<Rightarrow> sval \<Rightarrow> sval \<Rightarrow> store
     \<Rightarrow> (sval \<times> bool \<times> store) result" where
  "patch_field_keyed P key_fn path_at_key (VecV vs) (VecV ws) st =
     (let old_keyed = keyed_items key_fn vs; new_keyed = keyed_items key_fn ws;
          has_changed = (\<exists>(key, _)\<in>set old_keyed. map_of new_keyed key = None)
      in and_then (rebuild_items P path_at_key new_keyed old_keyed [] has_changed st)
           (\<lambda>(us, has_changed, st). Inr (VecV us, has_changed, st)))"
| "patch_field_keyed P key_fn path_at_key old new st = Inr (old, False, st)"

text \<open>The derived code for a keyed field: it looks the key up under the path of the struct.\<close>

definition derived_path_at_key :: "path \<Rightarrow> nat \<Rightarrow> sval \<Rightarrow> store \<Rightarrow> path option \<times> store" where
  "derived_path_at_key p ty key st =
     (let (e, st) = look_up p ty key (\<lambda>st. ([], st)) st in (map_option (\<lambda>(_, idx). p @ [idx]) e, st))"

definition derived_keyed_field :: "nat \<Rightarrow> (sval \<Rightarrow> sval) \<Rightarrow> patcher \<Rightarrow> field_patcher" where
  "derived_keyed_field ty key_fn P old new sp fp st =
     and_then (patch_field_keyed P key_fn (derived_path_at_key sp ty) old new st) (\<lambda>(v, structure_changed, st).
     if structure_changed then notify_with v fp st else Inr (v, st))"

subsection \<open>Patching by type\<close>

datatype sty =
    TPrim
  | TFloat
  | TUnit
  | TOpt sty
  | TVec sty
  | TTuple "sty list"
  | TStruct "fmode list"
  | TEnum "sty list list"
and fmode = Plain sty | Skipped | Custom "sval \<Rightarrow> sval \<Rightarrow> sval" | KeyedVec nat "sval \<Rightarrow> sval" sty

fun patch_field :: "sty \<Rightarrow> patcher" and patch_mode :: "fmode \<Rightarrow> field_patcher" where
  "patch_field TPrim = patch_primitive"
| "patch_field TFloat = patch_primitive"
| "patch_field TUnit = patch_unit"
| "patch_field (TOpt t) = patch_option (patch_field t)"
| "patch_field (TVec t) = patch_vec (patch_field t)"
| "patch_field (TTuple ts) = patch_tuple (map patch_field ts)"
| "patch_field (TStruct fs) = patch_struct (map patch_mode fs)"
| "patch_field (TEnum vss) = patch_enum (map (map patch_field) vss)"
| "patch_mode (Plain t) = plain_field (patch_field t)"
| "patch_mode Skipped = skipped_field"
| "patch_mode (Custom g) = custom_field g"
| "patch_mode (KeyedVec ty key_fn t) = derived_keyed_field ty key_fn (patch_field t)"

text \<open>\<open>Patch::patch\<close>: the writer of the field is untracked, so only the patch notifies.\<close>

definition patch_store :: "(sval list \<Rightarrow> sval list) \<Rightarrow> sty \<Rightarrow> store_field \<Rightarrow> sval \<Rightarrow> store \<Rightarrow> store result" where
  "patch_store oc t f new st =
     (let (p, st) = path_unkeyed oc f st
      in case writer oc f st of
           (None, st) \<Rightarrow> Inr st
         | (Some (l, _), st) \<Rightarrow>
             (case read_at l (st_value st) of
                None \<Rightarrow> Inr (drop_guard [] st)
              | Some old \<Rightarrow>
                  and_then (patch_field t old new p st) (\<lambda>(v, st).
                  Inr (drop_guard [] (st\<lparr>st_value := write_at l (\<lambda>_. v) (st_value st)\<rparr>)))))"

text \<open>\<open>KeyedSubfield::patch\<close>.\<close>

definition path_at_key :: "(sval list \<Rightarrow> sval list) \<Rightarrow> keyed \<Rightarrow> path \<Rightarrow> sval \<Rightarrow> store \<Rightarrow> path option \<times> store" where
  "path_at_key oc kd base key st =
     (let (e, st) = look_up base (kd_type kd) key (latest_keys oc kd) st
      in (map_option (\<lambda>(_, idx). base @ [idx]) e, st))"

definition notify_children :: "path \<Rightarrow> store \<Rightarrow> store result" where
  "notify_children p st =
     and_then (map_result (\<lambda>q. get_trigger_unkeyed q st) (p # ancestors p)) (\<lambda>ps.
     Inr (st\<lparr>notified := notified st @ map Children ps\<rparr>))"

definition patch_keyed_store :: "(sval list \<Rightarrow> sval list) \<Rightarrow> sty \<Rightarrow> keyed \<Rightarrow> sval \<Rightarrow> store \<Rightarrow> store result" where
  "patch_keyed_store oc t kd new st =
     (let (p, st) = keyed_path_unkeyed oc kd st
      in case keyed_writer oc kd st of
           (None, st) \<Rightarrow> Inr (update_keys oc kd st)
         | (Some (l, _), st) \<Rightarrow>
             (case read_at l (st_value st) of
                None \<Rightarrow> Inr (drop_guard [] st)
              | Some old \<Rightarrow>
                  and_then (patch_field_keyed (patch_field t) (kd_key_fn kd) (path_at_key oc kd p) old new st)
                    (\<lambda>(v, structure_changed, st).
                  let st = drop_guard [] (st\<lparr>st_value := write_at l (\<lambda>_. v) (st_value st)\<rparr>)
                  in and_then (if structure_changed then notify_children p st else Inr st)
                       (\<lambda>st. Inr (update_keys oc kd st)))))"

end
