(* ===== verification/Store_Correct.thy ===== *)
theory Store_Correct
  imports Store_Fields
begin

text \<open>
  What a write through one field means to the readers of another, and that a keyed item is
  found again wherever it has moved to.
\<close>

subsection \<open>Triggers and paths\<close>

lemma strict_prefix_snoc_iff: "strict_prefix q (p @ [x]) \<longleftrightarrow> prefix q p"
  by (auto simp: strict_prefix_def dest: prefix_length_le)

lemma ancestors_Nil [simp]: "ancestors [] = []"
  by (subst ancestors.simps) simp

lemma ancestors_snoc [simp]: "ancestors (p @ [i]) = p # ancestors p"
  by (subst ancestors.simps) simp

lemma set_ancestors: "set (ancestors p) = {q. strict_prefix q p}"
proof (induction p rule: rev_induct)
  case (snoc x p)
  have "{q. prefix q p} = insert p {q. strict_prefix q p}" by (auto simp: strict_prefix_def)
  then show ?case using snoc by (simp add: strict_prefix_snoc_iff)
qed simp

lemma insert_self_ancestors: "insert p (set (ancestors p)) = {q. prefix q p}"
  by (auto simp: set_ancestors strict_prefix_def)

lemma set_triggers_for_path: "set (triggers_for_path p) = insert (This p) (Children ` {q. prefix q p})"
  by (simp add: triggers_for_path_def insert_commute flip: insert_self_ancestors)

lemma set_track_with_ancestors: "set (track_with_ancestors p) = insert (Children p) (This ` {q. prefix q p})"
  by (simp add: track_with_ancestors_def insert_commute flip: insert_self_ancestors)

lemma woken_by_triggers:
  "woken (track_with_ancestors q) (triggers_for_path p) \<longleftrightarrow> prefix p q \<or> prefix q p"
  by (auto simp: woken_def set_triggers_for_path set_track_with_ancestors)

fun trigger_depth :: "trigger \<Rightarrow> nat" where
  "trigger_depth (This p) = length p"
| "trigger_depth (Children p) = length p"

lemma sorted_triggers: "sorted (map trigger_depth (triggers_for_path p))"
proof -
  have "sorted (map length (rev (ancestors p))) \<and> (\<forall>q\<in>set (ancestors p). length q \<le> length p)" for p
  proof (induction p rule: rev_induct)
    case (snoc i p)
    then show ?case by (auto simp: sorted_append)
  qed simp
  then show ?thesis by (auto simp: triggers_for_path_def sorted_append comp_def rev_map)
qed

subsection \<open>Fields without keys\<close>

fun static :: "store_field \<Rightarrow> bool" where
  "static Root = True"
| "static (Subfield f i) = static f"
| "static (OptionSubfield f) = static f"
| "static (AtIndex f i) = static f"
| "static (DerefedField f) = static f"
| "static (KeyedSubfield kd) = False"
| "static (AtKeyed kd key) = False"

fun static_path :: "store_field \<Rightarrow> path" where
  "static_path (Subfield f i) = static_path f @ [i]"
| "static_path (OptionSubfield f) = static_path f @ [0]"
| "static_path (AtIndex f i) = static_path f @ [i]"
| "static_path (DerefedField f) = static_path f"
| "static_path _ = []"

lemma path_of_static: "static f \<Longrightarrow> path_of oc f st = (static_path f, st)"
  by (induction f rule: static.induct) simp_all

lemma reader_static_state: "static f \<Longrightarrow> snd (reader oc f st) = st"
  by (induction f rule: static.induct) (simp_all add: case_prod_unfold)

text \<open>A reader depends on the value and the lock alone.\<close>

lemma reader_static_cong:
  "static f \<Longrightarrow> st_value st' = st_value st \<Longrightarrow> st_locked st' = st_locked st \<Longrightarrow>
     fst (reader oc f st') = fst (reader oc f st)"
  by (induction f rule: static.induct) (simp_all add: case_prod_unfold reader_static_state)

text \<open>What the guard of a field gives.\<close>

definition guards :: "(sval list \<Rightarrow> sval list) \<Rightarrow> store_field \<Rightarrow> store \<Rightarrow> step list \<Rightarrow> trigger list \<Rightarrow> store \<Rightarrow> bool" where
  "guards oc f st l ts st' \<longleftrightarrow>
     st' = st\<lparr>st_locked := True\<rparr> \<and> \<not> st_locked st \<and> fst (reader oc f st) = Some l \<and>
     (static_path f \<noteq> [] \<longrightarrow> ts = triggers_for_path (static_path f))"

lemma writer_static: "static f \<Longrightarrow> writer oc f st = (Some (l, ts), st') \<Longrightarrow> guards oc f st l ts st'"
proof (induction f arbitrary: l ts st' rule: static.induct)
  case 1
  then show ?case by (auto simp: guards_def split: if_splits)
next
  case (2 f i)
  then obtain l0 ts0 st0 where w: "writer oc f st = (Some (l0, ts0), st0)"
    by (auto split: prod.splits option.splits)
  then show ?case using 2
    by (auto simp: guards_def triggers_for_current_path_def path_of_static case_prod_unfold)
next
  case (3 f)
  then obtain l0 ts0 st0 where w: "writer oc f st = (Some (l0, ts0), st0)"
    by (auto split: prod.splits option.splits)
  then show ?case using 3
    by (auto simp: guards_def triggers_for_current_path_def path_of_static case_prod_unfold reader_static_state split: if_splits)
next
  case (4 f i)
  then obtain l0 ts0 st0 where w: "writer oc f st = (Some (l0, ts0), st0)"
    by (auto split: prod.splits option.splits)
  then show ?case using 4
    by (auto simp: guards_def triggers_for_current_path_def path_of_static case_prod_unfold reader_static_state split: if_splits)
next
  case (5 f)
  then obtain l0 ts0 st0 where w: "writer oc f st = (Some (l0, ts0), st0)"
    by (auto split: prod.splits option.splits)
  then show ?case using 5 by (auto simp: guards_def case_prod_unfold)
qed simp_all

subsection \<open>Keyed fields\<close>

lemma reader_static: "static f \<Longrightarrow> reader oc f st = (fst (reader oc f st), st)"
  using reader_static_state [of f oc st] by (cases "reader oc f st") simp

definition items_at :: "(sval list \<Rightarrow> sval list) \<Rightarrow> keyed \<Rightarrow> store \<Rightarrow> sval list" where
  "items_at oc kd st =
     (case fst (keyed_reader oc kd st) of None \<Rightarrow> [] | Some l \<Rightarrow> items_of (read_at l (st_value st)))"

text \<open>A change of the keys alone.\<close>

definition same_value :: "store \<Rightarrow> store \<Rightarrow> bool" where
  "same_value st st' \<longleftrightarrow> st_value st' = st_value st \<and> st_locked st' = st_locked st \<and> notified st' = notified st"

declare keyed_reader.simps [simp del] keyed_path_of.simps [simp del]

text \<open>A keyed field below a field without keys.\<close>

fun kd_static :: "keyed \<Rightarrow> bool" where "kd_static (Keyed f i ty key_fn) = static f"

fun kd_path :: "keyed \<Rightarrow> path" where "kd_path (Keyed f i ty key_fn) = static_path f @ [i]"

lemma keyed_path_static [simp]: "kd_static kd \<Longrightarrow> keyed_path_of oc kd st = (kd_path kd, st)"
  by (cases kd) (simp add: keyed_path_of.simps path_of_static)

lemma keyed_reader_static:
  assumes "kd_static kd" shows "keyed_reader oc kd st = (fst (keyed_reader oc kd st), st)"
proof -
  have "snd (keyed_reader oc kd st) = st"
    using assms reader_static_state by (cases kd) (simp add: keyed_reader.simps case_prod_unfold)
  then show ?thesis by (cases "keyed_reader oc kd st") simp
qed

lemma keyed_reader_cong:
  "kd_static kd \<Longrightarrow> same_value st st' \<Longrightarrow> fst (keyed_reader oc kd st') = fst (keyed_reader oc kd st)"
  using reader_static_cong [of _ st' st oc] by (cases kd) (auto simp: keyed_reader.simps case_prod_unfold same_value_def Let_def)

lemma items_at_cong: "kd_static kd \<Longrightarrow> same_value st st' \<Longrightarrow> items_at oc kd st' = items_at oc kd st"
  using keyed_reader_cong [of kd st st' oc] by (simp add: items_at_def same_value_def split: option.split)

lemma latest_static:
  "kd_static kd \<Longrightarrow> latest key_fn (keyed_reader oc kd) st = (map key_fn (items_at oc kd st), st)"
  by (subst latest_def, subst keyed_reader_static) (auto simp: items_at_def split: option.split)

text \<open>The position that is found is one where the key is, and none only if the key is nowhere.\<close>

definition finds :: "(sval \<Rightarrow> sval) \<Rightarrow> sval list \<Rightarrow> sval \<Rightarrow> nat option \<Rightarrow> bool" where
  "finds key_fn vs key index \<longleftrightarrow>
     (case index of Some j \<Rightarrow> j < length vs \<and> key_fn (vs ! j) = key | None \<Rightarrow> key \<notin> key_fn ` set vs)"

lemma index_is_current_static:
  "kd_static kd \<Longrightarrow> index_is_current key_fn key index (keyed_reader oc kd) st =
     (fst (keyed_reader oc kd st) = None \<or> finds key_fn (items_at oc kd st) key index, st)"
  by (subst index_is_current_def, subst keyed_reader_static)
    (auto simp: finds_def items_at_def Let_def split: option.split)

text \<open>The keys that an access finds: those stored, or those of the items.\<close>

definition keys_at :: "(sval list \<Rightarrow> sval list) \<Rightarrow> keyed \<Rightarrow> store \<Rightarrow> sval field_keys" where
  "keys_at oc kd st =
     (case st_field_keys st (kd_path kd) of
        Some (_, fk) \<Rightarrow> fk
      | None \<Rightarrow> fk_new (map (kd_key_fn kd) (items_at oc kd st)))"

definition typed_keys :: "keyed \<Rightarrow> store \<Rightarrow> bool" where
  "typed_keys kd st \<longleftrightarrow> (\<forall>ty fk. st_field_keys st (kd_path kd) = Some (ty, fk) \<longrightarrow> ty = kd_type kd)"

text \<open>Storing keys, and noting the segments of positions.\<close>

definition store_keys :: "keyed \<Rightarrow> (nat \<times> path_segment) list \<Rightarrow> sval field_keys \<Rightarrow> store \<Rightarrow> store" where
  "store_keys kd out fk st =
     st\<lparr>st_field_keys := (st_field_keys st)(kd_path kd \<mapsto> (kd_type kd, fk)),
        st_index := fold (\<lambda>(idx, seg) m. m((kd_path kd, idx) \<mapsto> seg)) out (st_index st)\<rparr>"

lemma store_keys_simps [simp]:
  "st_value (store_keys kd out fk st) = st_value st" "st_locked (store_keys kd out fk st) = st_locked st"
  "notified (store_keys kd out fk st) = notified st" "same_value st (store_keys kd out fk st)"
  "keys_at oc kd (store_keys kd out fk st) = fk" "typed_keys kd (store_keys kd out fk st)"
  by (simp_all add: store_keys_def same_value_def keys_at_def typed_keys_def)

lemma with_keys:
  assumes "kd_static kd" "typed_keys kd st"
  shows "with_field_keys (kd_path kd) (kd_type kd) g (latest (kd_key_fn kd) (keyed_reader oc kd)) st =
    (let (r, out, fk) = g (keys_at oc kd st) in (Some r, store_keys kd out fk st))"
proof (cases "st_field_keys st (kd_path kd)")
  case None
  then show ?thesis
    by (auto simp: with_field_keys_def latest_static [OF assms(1)] keys_at_def store_keys_def Let_def case_prod_unfold)
next
  case (Some e)
  then show ?thesis using assms
    by (cases e) (auto simp: with_field_keys_def typed_keys_def keys_at_def store_keys_def Let_def case_prod_unfold)
qed

lemma look_up_keys:
  assumes "kd_static kd" "typed_keys kd st"
  shows "look_up (kd_path kd) (kd_type kd) key (latest (kd_key_fn kd) (keyed_reader oc kd)) st =
    (fk_get (keys_at oc kd st) key, store_keys kd [] (keys_at oc kd st) st)"
  by (simp add: look_up_def with_keys [OF assms])

lemma update_keys_static:
  assumes "kd_static kd" "typed_keys kd st"
  shows "update_keys oc kd st =
    (let (out, fk) = fk_update oc (map (kd_key_fn kd) (items_at oc kd st)) (keys_at oc kd st) in store_keys kd out fk st)"
  by (simp add: update_keys_def refresh_keys_def latest_keys_def with_keys [OF assms] latest_static [OF assms(1)] assms(1) case_prod_unfold Let_def)

lemma resolve_index_finds:
  assumes "kd_static kd" "iterates_once oc" "typed_keys kd st" "keys_ok (keys_at oc kd st)"
    and "fst (keyed_reader oc kd st) \<noteq> None" "resolve_index oc kd key st = (index, st')"
  shows "finds (kd_key_fn kd) (items_at oc kd st) key index" "same_value st st'"
proof -
  let ?vs = "items_at oc kd st" and ?fk = "keys_at oc kd st" and ?f = "kd_key_fn kd"
  define st1 where "st1 = store_keys kd [] ?fk st"
  have st1: "typed_keys kd st1" "keys_at oc kd st1 = ?fk" "same_value st st1"
    by (simp_all add: st1_def)
  have r1: "fst (keyed_reader oc kd st1) \<noteq> None" "items_at oc kd st1 = ?vs"
    using assms(5) keyed_reader_cong [OF assms(1) st1(3)] items_at_cong [OF assms(1) st1(3)] by simp_all
  obtain out fk where u: "fk_update oc (map ?f ?vs) ?fk = (out, fk)" by fastforce
  have st2: "refresh_keys oc (kd_type kd) (keyed_path_of oc kd) (latest ?f (keyed_reader oc kd)) st1 = store_keys kd out fk st1"
    using update_keys_static [OF assms(1) st1(1), of oc] u r1(2) st1(2) by (simp add: update_keys_def latest_keys_def)
  have "resolve_index oc kd key st =
      (if finds ?f ?vs key (map_option snd (fk_get ?fk key)) then (map_option snd (fk_get ?fk key), st1)
       else (map_option snd (fk_get fk key), store_keys kd [] fk (store_keys kd out fk st1)))"
    using r1 st2 assms(1)
    by (auto simp: resolve_index_def resolve_def look_up_keys [OF assms(1,3)] index_is_current_static
        look_up_keys [OF assms(1) store_keys_simps(6)] simp flip: st1_def)
  moreover have "finds ?f ?vs key (map_option snd (fk_get fk key))"
    using fk_update_correct(2,3) [OF assms(2,4) u, of key]
    by (cases "fk_get fk key") (auto simp: finds_def)
  ultimately show "finds ?f ?vs key index" "same_value st st'"
    using assms(6) st1(3) by (auto simp: same_value_def split: if_splits)
qed

subsection \<open>The keys over time\<close>

definition keys_after :: "('k list \<Rightarrow> 'k list) \<Rightarrow> 'k list \<Rightarrow> 'k list list \<Rightarrow> 'k field_keys" where
  "keys_after order ks0 kss = fold (\<lambda>ks fk. snd (fk_update order ks fk)) kss (fk_new ks0)"

definition keys_current :: "'k list \<Rightarrow> 'k field_keys \<Rightarrow> bool" where
  "keys_current ks fk \<longleftrightarrow>
     (\<forall>k. fk_get fk k \<noteq> None \<longleftrightarrow> k \<in> set ks) \<and>
     (\<forall>k seg i. fk_get fk k = Some (seg, i) \<longrightarrow> i < length ks \<and> ks ! i = k)"

lemma keys_current_new: "keys_current ks (fk_new ks)"
proof -
  have "set ks = snd ` set (enumerate 0 ks)" by (metis map_snd_enumerate set_map)
  then have "fk_get (fk_new ks) k \<noteq> None \<longleftrightarrow> k \<in> set ks" for k
    using keys_of_fold_update [of "\<lambda>i. (i, i)" "enumerate 0 ks" "[]"]
    by (simp add: fk_get_def fk_new_def Let_def map_of_eq_None_iff)
  moreover have "fk_get (fk_new ks) k = Some (seg, i) \<Longrightarrow> i < length ks \<and> ks ! i = k" for k seg i
    unfolding fk_get_def fk_new_def Let_def field_keys.simps
    by (drule map_of_fold_update [where f = "\<lambda>i. (i, i)"]) (auto simp: in_set_enumerate_eq)
  ultimately show ?thesis by (simp add: keys_current_def)
qed

lemma keys_current_update:
  assumes "iterates_once order" "keys_ok fk"
  shows "keys_current ks (snd (fk_update order ks fk))" "keys_ok (snd (fk_update order ks fk))"
proof -
  obtain out fk' where u: "fk_update order ks fk = (out, fk')" by fastforce
  show "keys_current ks (snd (fk_update order ks fk))" "keys_ok (snd (fk_update order ks fk))"
    using fk_update_correct(1-3) [OF assms u] u by (auto simp: keys_current_def)
qed

text \<open>
  What the keyed fields rely on: a registry that gives every key a segment of its own, keeps it
  over updates, and knows the positions of the keys of the last update.
\<close>

locale segment_registry =
  fixes new :: "'k list \<Rightarrow> 's"
    and update :: "('k list \<Rightarrow> 'k list) \<Rightarrow> 'k list \<Rightarrow> 's \<Rightarrow> 's"
    and get :: "'s \<Rightarrow> 'k \<Rightarrow> (path_segment \<times> nat) option"
    and ok :: "'s \<Rightarrow> bool"
    and current :: "'k list \<Rightarrow> 's \<Rightarrow> bool"
  assumes new_ok: "distinct ks \<Longrightarrow> ok (new ks)" and new_current: "current ks (new ks)"
    and update_ok: "iterates_once order \<Longrightarrow> ok s \<Longrightarrow> ok (update order ks s)"
    and update_current: "iterates_once order \<Longrightarrow> ok s \<Longrightarrow> current ks (update order ks s)"
    and update_keeps: "iterates_once order \<Longrightarrow> ok s \<Longrightarrow> k \<in> set ks \<Longrightarrow> get s k = Some (seg, j) \<Longrightarrow>
      \<exists>i. get (update order ks s) k = Some (seg, i)"
    and unique: "ok s \<Longrightarrow> get s k = Some (seg, i) \<Longrightarrow> get s k' = Some (seg, i') \<Longrightarrow> k = k'"
begin

lemma after_ok:
  assumes "iterates_once order" "distinct ks0" shows "ok (fold (update order) kss (new ks0))"
  by (induction kss rule: rev_induct) (simp_all add: new_ok update_ok assms)

lemma after_current:
  assumes "iterates_once order" "distinct ks0" shows "current (last (ks0 # kss)) (fold (update order) kss (new ks0))"
  by (cases kss rule: rev_cases) (simp_all add: new_current update_current after_ok assms)

lemma after_keeps:
  assumes "iterates_once order" "distinct ks0"
  shows "\<forall>ks\<in>set kss. k \<in> set ks \<Longrightarrow> get (new ks0) k = Some (seg, j) \<Longrightarrow>
    \<exists>i. get (fold (update order) kss (new ks0)) k = Some (seg, i)"
proof (induction kss rule: rev_induct)
  case (snoc ks kss)
  then show ?case using update_keeps [OF assms(1) after_ok [OF assms]] by fastforce
qed simp

lemma after_unique:
  assumes "iterates_once order" "distinct ks0"
    and "get (fold (update order) kss (new ks0)) k = Some (seg, i)"
    and "get (fold (update order) kss (new ks0)) k' = Some (seg, i')"
  shows "k = k'"
  using unique [OF after_ok [OF assms(1,2)]] assms(3,4) by blast

end

lemma fk_update_keeps:
  assumes "iterates_once order" "keys_ok fk" "k \<in> set ks" "fk_get fk k = Some (seg, j)"
  shows "\<exists>i. fk_get (snd (fk_update order ks fk)) k = Some (seg, i)"
proof -
  obtain out fk' where u: "fk_update order ks fk = (out, fk')" by fastforce
  show ?thesis using fk_update_correct(4) [OF assms(1,2) u assms(3,4)] u by simp
qed

interpretation fks: segment_registry fk_new "\<lambda>order ks fk. snd (fk_update order ks fk)" fk_get keys_ok keys_current
  using keys_ok_new keys_current_new keys_current_update fk_update_keeps keys_ok_segment_unique
  by unfold_locales

subsection \<open>Properties\<close>

text \<open>
  C20. A write through a field wakes the readers of the field, of the fields above it and of
  the fields below it, and no others: a reader of \<open>g\<close> is woken by a write through \<open>f\<close> just if
  one of their paths is a prefix of the other. The value changes at the place of \<open>f\<close> alone, the
  lock is released, and the notifications go from the root down to the field. A dereferenced
  field is left out as the reader, and the dereferenced store as the writer.
\<close>

theorem write_wakes_relatives:
  assumes "static f" "static g" "\<forall>g'. g \<noteq> DerefedField g'" "f = Root \<or> static_path f \<noteq> []"
    and "write_field oc f h st = (True, st')"
  shows "\<exists>ts l. notified st' = notified st @ ts \<and> sorted (map trigger_depth ts) \<and>
      fst (reader oc f st) = Some l \<and> st_value st' = write_at l h (st_value st) \<and> \<not> st_locked st' \<and>
      (woken (fst (track_field oc g st')) ts \<longleftrightarrow>
         prefix (static_path f) (static_path g) \<or> prefix (static_path g) (static_path f))"
proof -
  obtain l ts st1 where w: "writer oc f st = (Some (l, ts), st1)"
    using assms(5) by (auto simp: write_field_def split: prod.splits option.splits)
  have guard: "guards oc f st l ts st1" using assms(1) w by (rule writer_static)
  have track: "fst (track_field oc g st') = (if g = Root then track_default [] else track_with_ancestors (static_path g))"
    using assms(2,3) by (cases g) (simp_all add: track_field_def path_of_static)
  show ?thesis
  proof (cases "f = Root")
    case True
    then have "st' = st\<lparr>st_value := h (st_value st), st_locked := False, notified := notified st @ [Children [], This [], Children []]\<rparr>"
      using assms(5) by (auto simp: write_field_def drop_guard_def notify_field_def split: if_splits)
    moreover have "woken (fst (track_field oc g st')) [Children [], This [], Children []]"
      unfolding track by (auto simp: woken_def track_default_def set_track_with_ancestors)
    ultimately show ?thesis using True guard by (auto simp: guards_def)
  next
    case False
    then have st': "st' = drop_guard ts (st1\<lparr>st_value := write_at l h (st_value st1)\<rparr>)"
      using assms(1,5) w by (cases f) (simp_all add: write_field_def)
    have ts: "ts = triggers_for_path (static_path f)" using guard False assms(4) by (simp add: guards_def)
    have "woken (fst (track_field oc g st')) ts \<longleftrightarrow> prefix (static_path f) (static_path g) \<or> prefix (static_path g) (static_path f)"
      unfolding track ts using woken_by_triggers
      by (auto simp: woken_def track_default_def set_triggers_for_path)
    then show ?thesis using st' guard ts by (auto simp: guards_def drop_guard_def sorted_triggers)
  qed
qed

theorem write_wakes_relatives_witness:
  "\<exists>ts l. notified (snd (write_field id (Subfield Root 1) (\<lambda>_. Prim ''new'') (store_new (StructV [Prim ''a'', Prim ''b''])))) = [] @ ts \<and>
     sorted (map trigger_depth ts) \<and>
     fst (reader id (Subfield Root 1) (store_new (StructV [Prim ''a'', Prim ''b'']))) = Some l \<and>
     st_value (snd (write_field id (Subfield Root 1) (\<lambda>_. Prim ''new'') (store_new (StructV [Prim ''a'', Prim ''b'']))))
       = write_at l (\<lambda>_. Prim ''new'') (StructV [Prim ''a'', Prim ''b'']) \<and>
     \<not> woken (fst (track_field id (Subfield Root 0)
         (snd (write_field id (Subfield Root 1) (\<lambda>_. Prim ''new'') (store_new (StructV [Prim ''a'', Prim ''b''])))))) ts"
  using write_wakes_relatives [of "Subfield Root 1" "Subfield Root 0" id "\<lambda>_. Prim ''new''"
      "store_new (StructV [Prim ''a'', Prim ''b''])"
      "snd (write_field id (Subfield Root 1) (\<lambda>_. Prim ''new'') (store_new (StructV [Prim ''a'', Prim ''b''])))"]
  by (auto simp: write_field_def store_new_def triggers_for_current_path_def)

text \<open>
  The item of a key is found wherever it has moved to: whatever a write to an ancestor
  made of the collection, a reader of the item at a key reads an item with that key, and there
  is no reader just if there is no such item. Looking it up changes no value.
\<close>

theorem keyed_item_is_found:
  assumes "static f" "iterates_once oc" "fst (reader oc f st) = Some l"
    and "read_at (l @ [Fld i]) (st_value st) = Some (VecV vs)"
    and "st_field_keys st (static_path f @ [i]) = Some (ty, fk)" "keys_ok fk"
    and "reader oc (AtKeyed (Keyed f i ty key_fn) key) st = (r, st')"
  shows "(case r of
       Some l' \<Rightarrow> \<exists>j<length vs. l' = l @ [Fld i, Elem j] \<and> key_fn (vs ! j) = key
     | None \<Rightarrow> key \<notin> key_fn ` set vs) \<and> st_value st' = st_value st"
proof -
  let ?kd = "Keyed f i ty key_fn"
  have kd: "kd_static ?kd" using assms(1) by simp
  have rd: "fst (keyed_reader oc ?kd st) = Some (l @ [Fld i])"
    using assms(3) by (simp add: keyed_reader.simps case_prod_unfold)
  have vs: "items_at oc ?kd st = vs" by (simp add: items_at_def rd assms(4))
  obtain index st1 where ri: "resolve_index oc ?kd key st = (index, st1)" by fastforce
  have "typed_keys ?kd st" "keys_ok (keys_at oc ?kd st)"
    using assms(5,6) by (simp_all add: typed_keys_def keys_at_def)
  note found = resolve_index_finds [OF kd assms(2) this _ ri, unfolded rd vs, simplified]
  have "reader oc (AtKeyed ?kd key) st = (map_option (\<lambda>j. l @ [Fld i, Elem j]) index, st1)"
    using ri rd keyed_reader_cong [OF kd found(2), of oc] keyed_reader_static [OF kd, of oc st1]
    by (cases index) (simp_all add: resolve_index_def)
  then show ?thesis using assms(7) found by (cases index) (auto simp: finds_def same_value_def)
qed

theorem keyed_item_is_found_witness:
  "\<exists>j<2. reader id (AtKeyed (Keyed Root 0 0 id) (Prim ''b''))
     ((store_new (StructV [VecV [Prim ''b'', Prim ''a'']]))\<lparr>st_field_keys := [[0] \<mapsto> (0, fk_new [Prim ''a'', Prim ''b''])]\<rparr>) =
     (Some [Fld 0, Elem j], snd (reader id (AtKeyed (Keyed Root 0 0 id) (Prim ''b''))
     ((store_new (StructV [VecV [Prim ''b'', Prim ''a'']]))\<lparr>st_field_keys := [[0] \<mapsto> (0, fk_new [Prim ''a'', Prim ''b''])]\<rparr>)))
     \<and> [Prim ''b'', Prim ''a''] ! j = Prim ''b''"
proof -
  let ?st = "(store_new (StructV [VecV [Prim ''b'', Prim ''a'']]))\<lparr>st_field_keys := [[0] \<mapsto> (0, fk_new [Prim ''a'', Prim ''b''])]\<rparr>"
  obtain r st' where r: "reader id (AtKeyed (Keyed Root 0 0 id) (Prim ''b'')) ?st = (r, st')" by fastforce
  show ?thesis
    using keyed_item_is_found [of Root id ?st "[]" 0 "[Prim ''b'', Prim ''a'']" 0 "fk_new [Prim ''a'', Prim ''b'']" id "Prim ''b''" r st'] r
      keys_ok_new [of "[Prim ''a'', Prim ''b'']"]
    by (auto simp: store_new_def iterates_once_def split: option.splits)
qed

text \<open>
  C21. A key keeps its path segment for as long as it stays in the collection, and no two keys
  ever share one: after any number of updates from the keys of distinct items, and in whatever
  order the hash maps iterate, the keys are those of the last update with positions at which
  they stand, different keys have different segments, and a key that was there all along has
  the segment it began with.
\<close>

theorem item_keeps_segment:
  assumes "iterates_once order" "distinct ks0"
  shows "(fk_get (keys_after order ks0 kss) k = Some (seg, i) \<longrightarrow>
        fk_get (keys_after order ks0 kss) k' = Some (seg, i') \<longrightarrow> k = k') \<and>
    (fk_get (keys_after order ks0 kss) k \<noteq> None \<longleftrightarrow> k \<in> set (last (ks0 # kss))) \<and>
    (fk_get (keys_after order ks0 kss) k = Some (seg, i) \<longrightarrow>
        i < length (last (ks0 # kss)) \<and> last (ks0 # kss) ! i = k) \<and>
    ((\<forall>ks\<in>set kss. k \<in> set ks) \<longrightarrow> fk_get (fk_new ks0) k = Some (seg, j) \<longrightarrow>
        (\<exists>i. fk_get (keys_after order ks0 kss) k = Some (seg, i)))"
  using fks.after_unique [OF assms, of kss k seg i k' i'] fks.after_current [OF assms, of kss]
    fks.after_keeps [OF assms, of kss k seg j]
  unfolding keys_after_def keys_current_def by blast

theorem item_keeps_segment_witness:
  "\<exists>i. fk_get (keys_after rev [''a'', ''b''] [[''b'', ''c''], [''c'', ''d'', ''b'']]) ''b'' = Some (1, i)"
  using item_keeps_segment [of rev "[''a'', ''b'']" "[[''b'', ''c''], [''c'', ''d'', ''b'']]" "''b''" 1 0 "''b''" 0 1]
  by (auto simp: iterates_once_def fk_new_def fk_get_def)

text \<open>
  A reader of a dereferenced field misses the writes to the fields above it: it subscribes
  to the triggers of its own path only, and a write to the whole store notifies none of them.
\<close>

theorem deref_misses_ancestor_write:
  assumes "static f" "static_path f \<noteq> []" "\<not> st_locked st"
  shows "\<exists>st' ts. write_field oc Root h st = (True, st') \<and> notified st' = notified st @ ts \<and>
    \<not> woken (fst (track_field oc (DerefedField f) st')) ts \<and>
    st_value st' = h (st_value st)"
  using assms
  by (simp add: write_field_def drop_guard_def notify_field_def track_field_def path_of_static woken_def track_default_def)

theorem deref_misses_ancestor_write_witness:
  "\<exists>st' ts. write_field id Root (\<lambda>_. StructV [BoxV (Prim ''b'')]) (store_new (StructV [BoxV (Prim ''a'')])) = (True, st') \<and>
    notified st' = [] @ ts \<and> \<not> woken (fst (track_field id (DerefedField (Subfield Root 0)) st')) ts \<and>
    st_value st' = StructV [BoxV (Prim ''b'')]"
  using deref_misses_ancestor_write [of "Subfield Root 0" "store_new (StructV [BoxV (Prim ''a'')])" id "\<lambda>_. StructV [BoxV (Prim ''b'')]"]
  by (simp add: store_new_def)

text \<open>A write to the value of an option that is \<open>None\<close> fails, and still notifies the readers of the option.\<close>

lemma failed_write_notifies:
  "\<exists>st'. write_field oc (OptionSubfield (Subfield Root 0)) h (store_new (StructV [OptV None])) = (False, st') \<and>
     notified st' = triggers_for_path [0]"
  by (simp add: write_field_def store_new_def triggers_for_current_path_def drop_guard_def)

end
