(* ===== verification/Store_Patch_Correct.thy ===== *)
theory Store_Patch_Correct
  imports Store_Patch Store_Correct
begin

text \<open>
  A patch gives the field its new value and notifies exactly the places at which old and new
  value differ in shape, so that the readers of what has changed are woken, and the readers of
  what has not are left alone.
\<close>

subsection \<open>Where two values differ\<close>

fun differs :: "sval \<Rightarrow> sval \<Rightarrow> bool" where
  "differs (Prim s) w \<longleftrightarrow> w \<noteq> Prim s"
| "differs (Flt s) w \<longleftrightarrow> w \<noteq> Flt s"
| "differs (OptV v) (OptV w) \<longleftrightarrow> (v = None) \<noteq> (w = None)"
| "differs (VecV vs) (VecV ws) \<longleftrightarrow> length vs \<noteq> length ws"
| "differs (EnumV a vs) (EnumV b ws) \<longleftrightarrow> a \<noteq> b"
| "differs v w \<longleftrightarrow> False"

fun children_of :: "sval \<Rightarrow> sval list" where
  "children_of (OptV (Some v)) = [v]"
| "children_of (VecV vs) = vs"
| "children_of (StructV vs) = vs"
| "children_of (EnumV a vs) = vs"
| "children_of v = []"

text \<open>The value at a path, and the paths at which two values differ.\<close>

fun value_at :: "path \<Rightarrow> sval \<Rightarrow> sval option" where
  "value_at [] v = Some v"
| "value_at (i # q) v = (if i < length (children_of v) then value_at q (children_of v ! i) else None)"

fun both_enums_apart :: "sval \<Rightarrow> sval \<Rightarrow> bool" where
  "both_enums_apart (EnumV a vs) (EnumV b ws) \<longleftrightarrow> a \<noteq> b"
| "both_enums_apart v w \<longleftrightarrow> False"

fun differ_at :: "path \<Rightarrow> sval \<Rightarrow> sval \<Rightarrow> bool" where
  "differ_at [] v w = differs v w"
| "differ_at (i # q) v w \<longleftrightarrow>
     \<not> both_enums_apart v w \<and> i < length (children_of v) \<and> i < length (children_of w) \<and>
     differ_at q (children_of v ! i) (children_of w ! i)"

subsection \<open>Types\<close>

fun fields_have :: "(sval \<Rightarrow> bool) list \<Rightarrow> sval \<Rightarrow> bool" where
  "fields_have Ts (StructV vs) \<longleftrightarrow> list_all2 (\<lambda>T v. T v) Ts vs"
| "fields_have Ts v \<longleftrightarrow> False"

fun variant_has :: "(sval \<Rightarrow> bool) list list \<Rightarrow> sval \<Rightarrow> bool" where
  "variant_has Tss (EnumV a vs) \<longleftrightarrow> a < length Tss \<and> list_all2 (\<lambda>T v. T v) (Tss ! a) vs"
| "variant_has Tss v \<longleftrightarrow> False"

fun has_ty :: "sty \<Rightarrow> sval \<Rightarrow> bool" and has_mode :: "fmode \<Rightarrow> sval \<Rightarrow> bool" where
  "has_ty TPrim = (\<lambda>v. \<exists>s. v = Prim s)"
| "has_ty TFloat = (\<lambda>v. \<exists>s. v = Flt s)"
| "has_ty TUnit = (\<lambda>v. v = StructV [])"
| "has_ty (TOpt t) = (\<lambda>v. v = OptV None \<or> (\<exists>w. v = OptV (Some w) \<and> has_ty t w))"
| "has_ty (TVec t) = (\<lambda>v. \<exists>vs. v = VecV vs \<and> (\<forall>w\<in>set vs. has_ty t w))"
| "has_ty (TTuple ts) = fields_have (map has_ty ts)"
| "has_ty (TStruct fs) = fields_have (map has_mode fs)"
| "has_ty (TEnum vss) = variant_has (map (map has_ty) vss)"
| "has_mode (Plain t) = has_ty t"
| "has_mode Skipped = (\<lambda>v. True)"
| "has_mode (Custom g) = (\<lambda>v. True)"
| "has_mode (KeyedVec ty key_fn t) = (\<lambda>v. \<exists>vs. v = VecV vs \<and> (\<forall>w\<in>set vs. has_ty t w))"

text \<open>Types without the fields that the derived code treats in a way of their own.\<close>

fun plain_ty :: "sty \<Rightarrow> bool" and plain_mode :: "fmode \<Rightarrow> bool" where
  "plain_ty (TOpt t) = plain_ty t"
| "plain_ty (TVec t) = plain_ty t"
| "plain_ty (TTuple ts) = (\<forall>t\<in>set ts. plain_ty t)"
| "plain_ty (TStruct fs) = (\<forall>f\<in>set fs. plain_mode f)"
| "plain_ty (TEnum vss) = (\<forall>ts\<in>set vss. \<forall>t\<in>set ts. plain_ty t)"
| "plain_ty t = True"
| "plain_mode (Plain t) = plain_ty t"
| "plain_mode f = False"

subsection \<open>Notifications of a patch\<close>

definition resolves :: "store \<Rightarrow> path \<Rightarrow> path \<Rightarrow> bool" where
  "resolves st p kp \<longleftrightarrow> (\<forall>q. resolve_keyed_path st [] (p @ q) = Inr (kp @ q))"

definition note_all :: "path \<Rightarrow> path list \<Rightarrow> store \<Rightarrow> store" where
  "note_all kp qs st = st\<lparr>notified := notified st @ concat (map (\<lambda>q. triggers_for_path (kp @ q)) qs)\<rparr>"

lemma note_all_simps [simp]:
  "st_value (note_all kp qs st) = st_value st" "st_locked (note_all kp qs st) = st_locked st"
  "st_field_keys (note_all kp qs st) = st_field_keys st" "st_index (note_all kp qs st) = st_index st"
  "note_all kp [] st = st"
  by (simp_all add: note_all_def)

lemma note_all_append: "note_all kp qs (note_all kp rs st) = note_all kp (rs @ qs) st"
  by (simp add: note_all_def)

lemma note_all_child: "note_all (kp @ [i]) qs st = note_all kp (map ((#) i) qs) st"
  by (simp add: note_all_def comp_def)

lemma resolve_path_cong:
  "st_field_keys st' = st_field_keys st \<Longrightarrow> st_index st' = st_index st \<Longrightarrow> resolve_keyed_path st' acc p = resolve_keyed_path st acc p"
  by (induction p arbitrary: acc) (auto split: option.split)

lemma resolves_note [simp]: "resolves (note_all kp' qs st) p kp \<longleftrightarrow> resolves st p kp"
  unfolding resolves_def by (simp add: resolve_path_cong [of "note_all kp' qs st" st])

lemma resolves_child: "resolves st p kp \<Longrightarrow> resolves st (p @ [i]) (kp @ [i])"
  by (simp add: resolves_def)

lemma resolve_path_append:
  "resolve_keyed_path st acc (p @ q) = and_then (resolve_keyed_path st acc p) (\<lambda>kp. resolve_keyed_path st kp q)"
  by (induction p arbitrary: acc) (auto split: option.split)

lemma resolve_path_length: "resolve_keyed_path st acc p = Inr kp \<Longrightarrow> length kp = length acc + length p \<and> take (length acc) kp = acc"
proof (induction p arbitrary: acc)
  case (Cons s p)
  then obtain k where "resolve_keyed_path st (acc @ [k]) p = Inr kp" by (auto split: if_splits option.splits)
  from Cons.IH [OF this] show ?case by (auto simp: take_Suc_conv_app_nth)
qed simp

text \<open>The parts of a path that resolves resolve to the parts of its result.\<close>

lemma resolve_ancestors:
  "resolve_keyed_path st [] p = Inr kp \<Longrightarrow> map_result (resolve_keyed_path st []) (ancestors p) = Inr (ancestors kp)"
proof (induction p arbitrary: kp rule: rev_induct)
  case (snoc s p)
  then obtain kp0 where kp0: "resolve_keyed_path st [] p = Inr kp0" "resolve_keyed_path st kp0 [s] = Inr kp"
    by (auto simp: resolve_path_append and_then_Inr)
  then obtain k where "kp = kp0 @ [k]" by (auto split: if_splits option.splits)
  then show ?case using snoc.IH [OF kp0(1)] kp0(1) by simp
qed simp

lemma notify_resolved:
  assumes "resolves st p kp" shows "notify_unkeyed p st = Inr (note_all kp [[]] st)"
proof -
  have "resolve_keyed_path st [] p = Inr kp" using assms unfolding resolves_def by (metis append_Nil2)
  then show ?thesis
    using resolve_ancestors [of st p kp]
    by (simp add: notify_unkeyed_def triggers_for_path_unkeyed_def get_trigger_unkeyed_def note_all_def triggers_for_path_def)
qed

subsection \<open>The contract of an implementation\<close>

definition patches :: "patcher \<Rightarrow> (sval \<Rightarrow> bool) \<Rightarrow> bool" where
  "patches P T \<longleftrightarrow>
     (\<forall>old new p kp st. T old \<longrightarrow> T new \<longrightarrow> resolves st p kp \<longrightarrow>
        (\<exists>qs. P old new p st = Inr (new, note_all kp qs st) \<and> set qs = {q. differ_at q old new}))"

lemma patchesD:
  assumes "patches P T" "T old" "T new" "resolves st p kp"
  obtains qs where "P old new p st = Inr (new, note_all kp qs st)" "set qs = {q. differ_at q old new}"
  using assms unfolding patches_def by meson

text \<open>One implementation's outcome, as the goal of the proofs below.\<close>

definition patched :: "sval \<Rightarrow> sval \<Rightarrow> path \<Rightarrow> store \<Rightarrow> (sval \<times> store) result \<Rightarrow> bool" where
  "patched old new kp st r \<longleftrightarrow> (\<exists>qs. r = Inr (new, note_all kp qs st) \<and> set qs = {q. differ_at q old new})"

lemma patchesI:
  "(\<And>old new p kp st. T old \<Longrightarrow> T new \<Longrightarrow> resolves st p kp \<Longrightarrow> patched old new kp st (P old new p st)) \<Longrightarrow> patches P T"
  unfolding patches_def patched_def by blast

lemma patched_same: "{q. differ_at q old new} = {} \<Longrightarrow> new = v \<Longrightarrow> patched old new kp st (Inr (v, st))"
  unfolding patched_def by (rule exI [of _ "[]"]) simp

lemma patched_here:
  assumes "resolves st p kp" "{q. differ_at q old new} = {[]}"
  shows "patched old new kp st (notify_with new p st)"
  unfolding patched_def notify_with_def notify_resolved [OF assms(1)] by (rule exI [of _ "[[]]"]) (simp add: assms(2))

lemma diff_at_leaf:
  assumes "\<not> differs v w \<or> children_of v = [] \<or> children_of w = [] \<or> both_enums_apart v w"
    and "differs v w \<or> children_of v = [] \<or> children_of w = []"
  shows "{q. differ_at q v w} = (if differs v w then {[]} else {})"
proof -
  have "differ_at q v w \<longleftrightarrow> q = [] \<and> differs v w" for q using assms by (cases q) auto
  then show ?thesis by auto
qed

lemma patches_primitive:
  assumes "\<And>v. T v \<Longrightarrow> (\<exists>s. v = Prim s) \<or> (\<exists>s. v = Flt s)" shows "patches patch_primitive T"
proof (rule patchesI)
  fix old new p kp st
  assume T: "T old" "T new" and r: "resolves st p kp"
  have "{q. differ_at q old new} = (if new = old then {} else {[]})"
    using assms [OF T(1)] diff_at_leaf [of old new] by auto
  then show "patched old new kp st (patch_primitive old new p st)"
    using patched_here [OF r, of old new] patched_same [of old new old]
    by (cases "new = old") (auto simp: patch_primitive_def)
qed

lemma patches_unit: "patches patch_unit (\<lambda>v. v = StructV [])"
  by (rule patchesI) (simp add: patch_unit_def patched_same diff_at_leaf)

lemma patches_option:
  assumes "patches P T" shows "patches (patch_option P) (\<lambda>v. v = OptV None \<or> (\<exists>w. v = OptV (Some w) \<and> T w))"
proof (rule patchesI)
  fix old new p kp st
  assume T: "old = OptV None \<or> (\<exists>w. old = OptV (Some w) \<and> T w)" "new = OptV None \<or> (\<exists>w. new = OptV (Some w) \<and> T w)"
    and r: "resolves st p kp"
  show "patched old new kp st (patch_option P old new p st)"
  proof (cases "\<exists>v w. old = OptV (Some v) \<and> new = OptV (Some w)")
    case True
    then obtain v w where vw: "old = OptV (Some v)" "new = OptV (Some w)" "T v" "T w" using T by auto
    obtain qs where qs: "P v w (p @ [0]) st = Inr (w, note_all (kp @ [0]) qs st)" "set qs = {q. differ_at q v w}"
      using assms vw(3,4) resolves_child [OF r] by (rule patchesD)
    have "{q. differ_at q old new} = (#) 0 ` {q. differ_at q v w}"
    proof -
      have "differ_at q old new \<longleftrightarrow> (\<exists>q'. q = 0 # q' \<and> differ_at q' v w)" for q using vw by (cases q) auto
      then show ?thesis by auto
    qed
    then show ?thesis using vw(1,2) qs
      unfolding patched_def by (intro exI [of _ "map ((#) 0) qs"]) (simp add: note_all_child)
  next
    case False
    then show ?thesis using T patched_here [OF r, of old new] diff_at_leaf [of old new]
      by (auto simp: patched_same)
  qed
qed

text \<open>The differences below two lists of children.\<close>

definition below :: "nat \<Rightarrow> sval list \<Rightarrow> sval list \<Rightarrow> path set" where
  "below idx vs ws = {(idx + j) # q | j q. j < length vs \<and> j < length ws \<and> differ_at q (vs ! j) (ws ! j)}"

lemma below_simps [simp]:
  "below idx [] ws = {}" "below idx vs [] = {}"
  by (simp_all add: below_def)

lemma below_Cons: "below idx (v # vs) (w # ws) = (#) idx ` {q. differ_at q v w} \<union> below (Suc idx) vs ws"
proof -
  have "x \<in> below idx (v # vs) (w # ws) \<longleftrightarrow> (\<exists>q. x = idx # q \<and> differ_at q v w) \<or> x \<in> below (Suc idx) vs ws" for x
  proof
    assume "x \<in> below idx (v # vs) (w # ws)"
    then obtain j q where "x = (idx + j) # q" "j < Suc (length vs)" "j < Suc (length ws)" "differ_at q ((v # vs) ! j) ((w # ws) ! j)"
      by (auto simp: below_def)
    then show "(\<exists>q. x = idx # q \<and> differ_at q v w) \<or> x \<in> below (Suc idx) vs ws"
      by (cases j) (auto simp: below_def)
  next
    assume "(\<exists>q. x = idx # q \<and> differ_at q v w) \<or> x \<in> below (Suc idx) vs ws"
    then show "x \<in> below idx (v # vs) (w # ws)"
    proof
      assume "\<exists>q. x = idx # q \<and> differ_at q v w"
      then show ?thesis by (auto simp: below_def intro: exI [of _ 0])
    next
      assume "x \<in> below (Suc idx) vs ws"
      then obtain j q where "x = (Suc idx + j) # q" "j < length vs" "j < length ws" "differ_at q (vs ! j) (ws ! j)"
        by (auto simp: below_def)
      then show ?thesis unfolding below_def by (intro CollectI exI [of _ "Suc j"] exI [of _ q]) simp
    qed
  qed
  then show ?thesis by auto
qed

lemma diff_set:
  "{q. differ_at q v w} = (if differs v w then {[]} else {}) \<union>
     (if both_enums_apart v w then {} else below 0 (children_of v) (children_of w))"
proof -
  have "differ_at q v w \<longleftrightarrow> q = [] \<and> differs v w \<or> \<not> both_enums_apart v w \<and> q \<in> below 0 (children_of v) (children_of w)" for q
    by (cases q) (auto simp: below_def)
  then show ?thesis by auto
qed

definition typed_pairs :: "patcher list \<Rightarrow> sval list \<Rightarrow> sval list \<Rightarrow> bool" where
  "typed_pairs Ps vs ws \<longleftrightarrow> length Ps = length vs \<and>
     (\<forall>j<min (length vs) (length ws). \<exists>T. patches (Ps ! j) T \<and> T (vs ! j) \<and> T (ws ! j))"

lemma typed_pairs_Cons:
  "typed_pairs (P # Ps) (v # vs) (w # ws) \<longleftrightarrow> (\<exists>T. patches P T \<and> T v \<and> T w) \<and> typed_pairs Ps vs ws"
  unfolding typed_pairs_def list.size(4) add_Suc_right add_0_right min_Suc_Suc All_less_Suc2 by auto

lemma patch_fields_plain:
  "typed_pairs Ps vs ws \<Longrightarrow> resolves st p kp \<Longrightarrow>
     \<exists>qs. patch_fields (map plain_field Ps) p idx vs ws st = Inr (take (length vs) ws, note_all kp qs st) \<and>
       set qs = below idx vs ws"
proof (induction "map plain_field Ps" p idx vs ws st arbitrary: Ps rule: patch_fields.induct)
  case (1 F Fs p idx v vs w ws st)
  then obtain P Ps' where Ps: "Ps = P # Ps'" "F = plain_field P" "Fs = map plain_field Ps'" by auto
  obtain T where T: "patches P T" "T v" "T w" and rest: "typed_pairs Ps' vs ws"
    using "1.prems"(1) by (auto simp: Ps typed_pairs_Cons)
  obtain qs where qs: "P v w (p @ [idx]) st = Inr (w, note_all (kp @ [idx]) qs st)" "set qs = {q. differ_at q v w}"
    using T resolves_child [OF "1.prems"(2)] by (rule patchesD)
  have "\<exists>rs. patch_fields Fs p (Suc idx) vs ws (note_all (kp @ [idx]) qs st) =
      Inr (take (length vs) ws, note_all kp rs (note_all (kp @ [idx]) qs st)) \<and> set rs = below (Suc idx) vs ws"
    unfolding Ps(3) by (rule "1.hyps"(1) [OF Ps(3) rest]) (simp add: "1.prems"(2))
  then obtain rs where "patch_fields Fs p (Suc idx) vs ws (note_all (kp @ [idx]) qs st) =
      Inr (take (length vs) ws, note_all kp rs (note_all (kp @ [idx]) qs st))" "set rs = below (Suc idx) vs ws" by auto
  then show ?case using qs unfolding Ps(1)
    by (intro exI [of _ "map ((#) idx) qs @ rs"])
      (simp add: Ps plain_field_def note_all_child note_all_append below_Cons)
qed (auto simp: typed_pairs_def intro: exI [of _ "[]"])

lemma patch_items_fields:
  "patch_items P p idx vs ws st = patch_fields (map plain_field (replicate (length vs) P)) p idx vs ws st"
proof (induction P p idx vs ws st rule: patch_items.induct)
  case (1 P p idx v vs w ws st)
  then show ?case by (cases "P v w (p @ [idx]) st") (auto simp: plain_field_def)
qed simp_all

lemma patches_vec:
  assumes "patches P T" shows "patches (patch_vec P) (\<lambda>v. \<exists>vs. v = VecV vs \<and> (\<forall>w\<in>set vs. T w))"
proof (rule patchesI)
  fix old new p kp st
  assume "\<exists>vs. old = VecV vs \<and> (\<forall>w\<in>set vs. T w)" "\<exists>vs. new = VecV vs \<and> (\<forall>w\<in>set vs. T w)" and r: "resolves st p kp"
  then obtain vs ws where vw: "old = VecV vs" "new = VecV ws" "\<forall>w\<in>set vs. T w" "\<forall>w\<in>set ws. T w" by auto
  show "patched old new kp st (patch_vec P old new p st)"
  proof (cases "vs = [] \<or> ws = []")
    case True
    then show ?thesis
      using patched_here [OF r, of old new] diff_set [of old new] patched_same [of old new old]
      by (auto simp: vw)
  next
    case False
    have "typed_pairs (replicate (length vs) P) vs ws" using assms vw(3,4) by (auto simp: typed_pairs_def)
    then obtain qs where qs: "patch_items P p 0 vs ws st = Inr (take (length vs) ws, note_all kp qs st)" "set qs = below 0 vs ws"
      unfolding patch_items_fields using patch_fields_plain [OF _ r] by blast
    have "resolves (note_all kp qs st) p kp" using r by simp
    note here = notify_resolved [OF this]
    show ?thesis
    proof (cases "length vs = length ws")
      case True
      then show ?thesis using False qs diff_set [of old new]
        by (auto simp: vw patched_def)
    next
      case neq: False
      then show ?thesis using False qs diff_set [of old new] here
        by (auto simp: vw patched_def notify_with_def note_all_append Let_def intro!: exI [of _ "qs @ [[]]"])
    qed
  qed
qed

lemma typed_pairs_list_all2:
  assumes "list_all2 patches Ps Ts" "list_all2 (\<lambda>T v. T v) Ts vs" "list_all2 (\<lambda>T v. T v) Ts ws"
  shows "typed_pairs Ps vs ws" "take (length vs) ws = ws"
proof -
  have "\<exists>T. patches (Ps ! j) T \<and> T (vs ! j) \<and> T (ws ! j)" if "j < length vs" for j
    using assms that by (intro exI [of _ "Ts ! j"]) (simp add: list_all2_conv_all_nth)
  then show "typed_pairs Ps vs ws" "take (length vs) ws = ws"
    using assms [THEN list_all2_lengthD] by (auto simp: typed_pairs_def)
qed

lemma patches_tuple:
  assumes "list_all2 patches Ps Ts" shows "patches (patch_tuple Ps) (fields_have Ts)"
proof (rule patchesI)
  fix old new p kp st
  assume T: "fields_have Ts old" "fields_have Ts new" and r: "resolves st p kp"
  then obtain vs ws where vw: "old = StructV vs" "new = StructV ws"
    by (cases old; cases new) auto
  have tp: "typed_pairs Ps vs ws" "take (length vs) ws = ws"
    using typed_pairs_list_all2 [OF assms] T vw by auto
  then show "patched old new kp st (patch_tuple Ps old new p st)"
    using patch_fields_plain [OF tp(1) r, of 0] diff_set [of old new] by (auto simp: vw patched_def)
qed

lemma patch_struct_plain: "patch_struct (map plain_field Ps) = patch_tuple Ps"
proof (intro ext)
  fix old new p st
  show "patch_struct (map plain_field Ps) old new p st = patch_tuple Ps old new p st"
    by (cases old; cases new) simp_all
qed

lemma patches_enum:
  assumes "list_all2 (list_all2 patches) Pss Tss" shows "patches (patch_enum Pss) (variant_has Tss)"
proof (rule patchesI)
  fix old new p kp st
  assume T: "variant_has Tss old" "variant_has Tss new" and r: "resolves st p kp"
  then obtain a vs b ws where vw: "old = EnumV a vs" "new = EnumV b ws" by (cases old; cases new) auto
  have len: "a < length Pss" using T assms by (auto simp: vw dest: list_all2_lengthD)
  show "patched old new kp st (patch_enum Pss old new p st)"
  proof (cases "a = b")
    case True
    have "list_all2 patches (Pss ! a) (Tss ! a)" using assms len by (simp add: list_all2_conv_all_nth)
    then have tp: "typed_pairs (Pss ! a) vs ws" "take (length vs) ws = ws"
      using typed_pairs_list_all2 T vw True by auto
    then show ?thesis using patch_fields_plain [OF tp(1) r, of 0] diff_set [of old new] True len
      by (auto simp: vw patched_def)
  next
    case False
    then show ?thesis using patched_here [OF r, of old new] diff_set [of old new] by (simp add: vw)
  qed
qed

lemma patch_field_patches: "plain_ty t \<Longrightarrow> patches (patch_field t) (has_ty t)"
  and patch_mode_patches: "plain_mode f \<Longrightarrow> \<exists>P. patch_mode f = plain_field P \<and> patches P (has_mode f)"
proof (induction t and f rule: patch_field_patch_mode.induct)
  case (4 t)
  then show ?case by (simp add: patches_option)
next
  case (5 t)
  then show ?case by (simp add: patches_vec)
next
  case (6 ts)
  then have "list_all2 patches (map patch_field ts) (map has_ty ts)" by (simp add: list_all2_map1 list_all2_map2 list_all2_same)
  then show ?case by (simp add: patches_tuple)
next
  case (7 fs)
  then have "\<forall>f\<in>set fs. \<exists>P. patch_mode f = plain_field P \<and> patches P (has_mode f)" by simp
  then obtain Pf where Pf: "\<forall>f\<in>set fs. patch_mode f = plain_field (Pf f) \<and> patches (Pf f) (has_mode f)"
    by (rule bchoice [THEN exE])
  then have "map patch_mode fs = map plain_field (map Pf fs)" by simp
  moreover have "list_all2 patches (map Pf fs) (map has_mode fs)"
    using Pf by (simp add: list_all2_map1 list_all2_map2 list_all2_same)
  ultimately show ?case using patches_tuple by (simp only: patch_field.simps has_ty.simps patch_struct_plain)
next
  case (8 vss)
  then have "list_all2 (list_all2 patches) (map (map patch_field) vss) (map (map has_ty) vss)"
    by (auto simp: list_all2_map1 list_all2_map2 list_all2_same)
  then show ?case by (simp add: patches_enum)
qed (auto simp: patches_primitive patches_unit)

subsection \<open>Values that differ differ somewhere\<close>

definition alike :: "sval \<Rightarrow> sval \<Rightarrow> bool" where
  "alike v w \<longleftrightarrow> (\<exists>t. plain_ty t \<and> has_ty t v \<and> has_ty t w)"

lemma plain_mode_type: "plain_mode f \<Longrightarrow> \<exists>t. f = Plain t \<and> plain_ty t"
  by (cases f) auto

lemma fields_alike:
  assumes "list_all2 (\<lambda>T v. T v) (map has_ty ts) vs" "list_all2 (\<lambda>T v. T v) (map has_ty ts) ws" "\<forall>t\<in>set ts. plain_ty t"
  shows "length vs = length ws \<and> (\<forall>i<length vs. alike (vs ! i) (ws ! i))"
proof -
  have "alike (vs ! i) (ws ! i)" if "i < length vs" for i
    using assms that unfolding alike_def
    by (intro exI [of _ "ts ! i"]) (auto simp: list_all2_conv_all_nth)
  then show ?thesis using assms(1,2) [THEN list_all2_lengthD] by simp
qed

lemma modes_alike:
  assumes "list_all2 (\<lambda>T v. T v) (map has_mode fs) vs" "list_all2 (\<lambda>T v. T v) (map has_mode fs) ws" "\<forall>f\<in>set fs. plain_mode f"
  shows "length vs = length ws \<and> (\<forall>i<length vs. alike (vs ! i) (ws ! i))"
proof -
  have "alike (vs ! i) (ws ! i)" if "i < length vs" for i
  proof -
    have i: "i < length fs" using that assms(1) [THEN list_all2_lengthD] by simp
    then obtain t where "fs ! i = Plain t" "plain_ty t" using assms(3) plain_mode_type by (metis nth_mem)
    then show ?thesis using assms(1,2) that i unfolding alike_def
      by (intro exI [of _ t]) (auto simp: list_all2_conv_all_nth)
  qed
  then show ?thesis using assms(1,2) [THEN list_all2_lengthD] by simp
qed

text \<open>Two values of a type that do not differ here have the same number of children, which are alike.\<close>

lemma alike_children:
  assumes "alike v w" "\<not> differs v w"
  shows "length (children_of v) = length (children_of w) \<and> \<not> both_enums_apart v w \<and>
    (\<forall>i<length (children_of v). alike (children_of v ! i) (children_of w ! i)) \<and>
    (children_of v = children_of w \<longrightarrow> v = w)"
proof -
  obtain t where t: "plain_ty t" "has_ty t v" "has_ty t w" using assms(1) by (auto simp: alike_def)
  show ?thesis
  proof (cases t)
    case (TOpt t')
    then show ?thesis using t assms(2) unfolding alike_def by auto
  next
    case (TVec t')
    then show ?thesis using t assms(2) unfolding alike_def by auto
  next
    case (TTuple ts)
    then obtain vs ws where vw: "v = StructV vs" "w = StructV ws"
      using t(2,3) by (cases v; cases w) simp_all
    then show ?thesis using t TTuple fields_alike [of ts vs ws] by auto
  next
    case (TStruct fs)
    then obtain vs ws where vw: "v = StructV vs" "w = StructV ws"
      using t(2,3) by (cases v; cases w) simp_all
    then show ?thesis using t TStruct modes_alike [of fs vs ws] by auto
  next
    case (TEnum vss)
    then obtain a vs ws where vw: "v = EnumV a vs" "w = EnumV a ws" "a < length vss"
      using t assms(2) by (cases v; cases w) auto
    then have "\<forall>t\<in>set (vss ! a). plain_ty t" using t(1) TEnum nth_mem by fastforce
    then show ?thesis using t(2,3) TEnum vw fields_alike [of "vss ! a" vs ws] by auto
  qed (use t assms(2) in auto)
qed

lemma size_elem: "c \<in> set vs \<Longrightarrow> size c < Suc (size_list size vs)" for c :: sval
  by (induction vs) auto

lemma size_child: "c \<in> set (children_of v) \<Longrightarrow> size c < size v"
  by (cases v rule: children_of.cases) (auto dest: size_elem)

lemma unequal_differ: "alike v w \<Longrightarrow> v \<noteq> w \<Longrightarrow> \<exists>r. differ_at r v w"
proof (induction "size v" arbitrary: v w rule: less_induct)
  case less
  show ?case
  proof (cases "differs v w")
    case True
    then show ?thesis by (intro exI [of _ "[]"]) simp
  next
    case False
    note kids = alike_children [OF less.prems(1) False]
    then obtain i where i: "i < length (children_of v)" "children_of v ! i \<noteq> children_of w ! i"
      using less.prems(2) by (metis nth_equalityI)
    then obtain r where "differ_at r (children_of v ! i) (children_of w ! i)"
      using less.hyps [of "children_of v ! i" "children_of w ! i"] kids size_child [of "children_of v ! i" v] by auto
    then show ?thesis using kids i by (intro exI [of _ "i # r"]) simp
  qed
qed

lemma changed_differs:
  "alike v w \<Longrightarrow> value_at q v \<noteq> value_at q w \<Longrightarrow> \<exists>r. differ_at r v w \<and> (prefix r q \<or> prefix q r)"
proof (induction q arbitrary: v w)
  case Nil
  then show ?case using unequal_differ by auto
next
  case (Cons i q)
  show ?case
  proof (cases "differs v w")
    case True
    then show ?thesis by (intro exI [of _ "[]"]) simp
  next
    case False
    note kids = alike_children [OF Cons.prems(1) False]
    then have i: "i < length (children_of v)" "value_at q (children_of v ! i) \<noteq> value_at q (children_of w ! i)"
      using Cons.prems(2) by (auto split: if_splits)
    then obtain r where "differ_at r (children_of v ! i) (children_of w ! i)" "prefix r q \<or> prefix q r"
      using Cons.IH kids by blast
    then show ?thesis using kids i by (intro exI [of _ "i # r"]) simp
  qed
qed

subsection \<open>Properties\<close>

lemma woken_concat: "woken tr (concat tss) \<longleftrightarrow> (\<exists>ts\<in>set tss. woken tr ts)"
  by (auto simp: woken_def)

lemma woken_by_notes:
  "woken (track_with_ancestors (kp @ q)) (concat (map (\<lambda>r. triggers_for_path (kp @ r)) qs)) \<longleftrightarrow>
     (\<exists>r\<in>set qs. prefix r q \<or> prefix q r)"
  by (simp add: woken_concat woken_by_triggers)

lemma path_unkeyed_static: "static f \<Longrightarrow> path_unkeyed oc f st = (static_path f, st)"
  by (induction f rule: static.induct) simp_all

lemma resolves_unkeyed: "st_field_keys st = Map.empty \<Longrightarrow> resolves st p p"
proof -
  assume "st_field_keys st = Map.empty"
  then have "resolve_keyed_path st acc q = Inr (acc @ q)" for acc q by (induction q arbitrary: acc) simp_all
  then show ?thesis by (simp add: resolves_def)
qed

text \<open>
  C6. Patching a field gives it the new value and wakes the readers of what has changed: in a
  store without keyed fields, for a type of primitives, options, vectors, tuples, structs and
  enums, the patch never panics, the field has the new value afterwards and nothing else of the
  store has changed; a reader below the field is woken just if old and new value differ at a
  place above or below its path, and always if the value it reads has changed.
\<close>

theorem patch_notifies_changes:
  assumes "plain_ty t" "has_ty t old" "has_ty t new" "static f" "st_field_keys st = Map.empty" "\<not> st_locked st"
    and "fst (writer oc f st) = Some (l, own)" "read_at l (st_value st) = Some old"
  shows "\<exists>st' ts. patch_store oc t f new st = Inr st' \<and> notified st' = notified st @ ts \<and>
     st_value st' = write_at l (\<lambda>_. new) (st_value st) \<and> \<not> st_locked st' \<and>
     (\<forall>q. woken (track_with_ancestors (static_path f @ q)) ts \<longleftrightarrow> (\<exists>r. differ_at r old new \<and> (prefix r q \<or> prefix q r))) \<and>
     (\<forall>q. value_at q old \<noteq> value_at q new \<longrightarrow> woken (track_with_ancestors (static_path f @ q)) ts)"
proof -
  obtain st1 where w: "writer oc f st = (Some (l, own), st1)" using assms(7) by (cases "writer oc f st") auto
  have st1: "st1 = st\<lparr>st_locked := True\<rparr>" using writer_static [OF assms(4) w] by (simp add: guards_def)
  have "resolves st1 (static_path f) (static_path f)" using assms(5) st1 by (intro resolves_unkeyed) simp
  then obtain qs where qs: "patch_field t old new (static_path f) st1 = Inr (new, note_all (static_path f) qs st1)"
    "set qs = {q. differ_at q old new}"
    using patch_field_patches [OF assms(1)] assms(2,3) by (elim patchesD) blast
  let ?ts = "concat (map (\<lambda>r. triggers_for_path (static_path f @ r)) qs)"
  let ?st' = "st\<lparr>st_value := write_at l (\<lambda>_. new) (st_value st), st_locked := False, notified := notified st @ ?ts\<rparr>"
  have "patch_store oc t f new st = Inr ?st'"
    using w st1 qs(1) assms(8) by (simp add: patch_store_def path_unkeyed_static [OF assms(4)] drop_guard_def note_all_def)
  moreover have "woken (track_with_ancestors (static_path f @ q)) ?ts \<longleftrightarrow> (\<exists>r. differ_at r old new \<and> (prefix r q \<or> prefix q r))" for q
    unfolding woken_by_notes using qs(2) by blast
  moreover have "value_at q old \<noteq> value_at q new \<Longrightarrow> \<exists>r. differ_at r old new \<and> (prefix r q \<or> prefix q r)" for q
    using changed_differs assms(1-3) unfolding alike_def by blast
  ultimately show ?thesis by (intro exI [of _ ?st'] exI [of _ ?ts]) simp
qed

theorem patch_notifies_changes_witness:
  "\<exists>st' ts. patch_store id (TStruct [Plain TPrim, Plain (TVec TPrim)]) Root
       (StructV [Prim ''Bob'', VecV []]) (store_new (StructV [Prim ''Alice'', VecV []])) = Inr st' \<and>
     notified st' = [] @ ts \<and> st_value st' = StructV [Prim ''Bob'', VecV []] \<and>
     woken (track_with_ancestors [0]) ts \<and> \<not> woken (track_with_ancestors [1]) ts"
proof -
  let ?t = "TStruct [Plain TPrim, Plain (TVec TPrim)]"
  let ?old = "StructV [Prim ''Alice'', VecV []]" and ?new = "StructV [Prim ''Bob'', VecV []]"
  have *: "\<exists>st' ts. patch_store id ?t Root ?new (store_new ?old) = Inr st' \<and> notified st' = notified (store_new ?old) @ ts \<and>
     st_value st' = write_at [] (\<lambda>_. ?new) (st_value (store_new ?old)) \<and> \<not> st_locked st' \<and>
     (\<forall>q. woken (track_with_ancestors (static_path Root @ q)) ts \<longleftrightarrow> (\<exists>r. differ_at r ?old ?new \<and> (prefix r q \<or> prefix q r))) \<and>
     (\<forall>q. value_at q ?old \<noteq> value_at q ?new \<longrightarrow> woken (track_with_ancestors (static_path Root @ q)) ts)"
    by (rule patch_notifies_changes [where own = "[Children []]"]) (simp_all add: store_new_def)
  have "\<not> (differ_at r ?old ?new \<and> (prefix r [1] \<or> prefix [1] r))" for r
    by (cases r; cases "tl r") (auto simp: less_Suc_eq)
  then show ?thesis using * by (auto simp: store_new_def)
qed

end
