(* ===== verification/Store_Keyed_Patch.thy ===== *)
theory Store_Keyed_Patch
  imports Store_Patch_Correct
begin

text \<open>
  Patching a keyed collection (\<open>KeyedSubfield::patch\<close>): where the keys are up to date it wakes
  the readers of the items that have changed, even if they have moved, and no others. Where they
  are not, the patch is lost or panics.
\<close>

subsection \<open>Keys that are up to date\<close>

definition keys_settled :: "keyed \<Rightarrow> sval field_keys \<Rightarrow> sval list \<Rightarrow> store \<Rightarrow> bool" where
  "keys_settled kd fk vs st \<longleftrightarrow>
     st_field_keys st = [kd_path kd \<mapsto> (kd_type kd, fk)] \<and> keys_ok fk \<and>
     (\<forall>j<length vs. \<exists>seg. fk_get fk (kd_key_fn kd (vs ! j)) = Some (seg, j) \<and> st_index st (kd_path kd, j) = Some seg)"






text \<open>Iterating over a keyed field brings its keys up to date.\<close>

lemma fold_index:
  "(idx, seg) \<in> set out \<Longrightarrow> (\<And>s. (idx, s) \<in> set out \<Longrightarrow> s = seg) \<Longrightarrow>
     fold (\<lambda>(idx, seg) m. m((p, idx) \<mapsto> seg)) out m (p, idx) = Some seg"
proof (induction out rule: rev_induct)
  case (snoc x out)
  obtain i s where x: "x = (i, s)" by fastforce
  show ?case
  proof (cases "i = idx")
    case True
    then have "s = seg" using x by (intro snoc.prems(2)) simp
    then show ?thesis using True x by simp
  next
    case False
    have "(idx, seg) \<in> set out" using snoc.prems(1) x False by simp
    moreover have "s' = seg" if "(idx, s') \<in> set out" for s' using that by (intro snoc.prems(2)) simp
    ultimately have "fold (\<lambda>(idx, seg) m. m((p, idx) \<mapsto> seg)) out m (p, idx) = Some seg" by (rule snoc.IH)
    then show ?thesis using x False by (simp add: fun_upd_other del: fun_upd_apply)
  qed
qed simp

lemma keyed_iter_settles:
  assumes "kd_static kd" "iterates_once oc" "st_field_keys st = Map.empty"
    and "distinct (map (kd_key_fn kd) (items_at oc kd st))"
    and "keyed_iter oc kd st = (tracked, ks, st')"
  shows "\<exists>fk. keys_settled kd fk (items_at oc kd st) st'" "ks = map (kd_key_fn kd) (items_at oc kd st)" "same_value st st'"
proof -
  let ?ks = "map (kd_key_fn kd) (items_at oc kd st)"
  have typed: "typed_keys kd st" and at: "keys_at oc kd st = fk_new ?ks"
    using assms(3) by (simp_all add: typed_keys_def keys_at_def)
  obtain out fk where u: "fk_update oc ?ks (fk_new ?ks) = (out, fk)" by fastforce
  note up = fk_update_correct [OF assms(2) keys_ok_new [OF assms(4)] u]
  have st1: "update_keys oc kd st = store_keys kd out fk st" using update_keys_static [OF assms(1) typed] u at by simp
  have items: "items_at oc kd (store_keys kd out fk st) = items_at oc kd st" using assms(1) by (intro items_at_cong) simp_all
  have "path_of oc (KeyedSubfield kd) s = (kd_path kd, s)" for s using assms(1) by simp
  then have st': "st' = store_keys kd out fk st" "ks = ?ks"
    using assms(5) st1 items latest_static [OF assms(1)] by (auto simp: keyed_iter_def track_field_def latest_keys_def)
  have get: "\<exists>seg. fk_get fk (?ks ! j) = Some (seg, j) \<and> st_index st' (kd_path kd, j) = Some seg" if j: "j < length ?ks" for j
  proof -
    obtain seg i where g: "fk_get fk (?ks ! j) = Some (seg, i)" using up(2) [of "?ks ! j"] j by auto
    have i: "i = j" using up(3) [OF g] j nth_eq_iff_index_eq [OF assms(4), of i j] by simp
    have one: "s = seg" if js: "(j, s) \<in> set out" for s
    proof -
      obtain k where k: "fk_get fk k = Some (s, j)" using js up(5) [of j s] by auto
      then show ?thesis using up(3) [OF k] g by simp
    qed
    have "(j, seg) \<in> set out" using g i up(5) [of j seg] by auto
    then have "fold (\<lambda>(idx, seg) m. m((kd_path kd, idx) \<mapsto> seg)) out (st_index st) (kd_path kd, j) = Some seg"
      using one by (rule fold_index)
    then show ?thesis using g i by (simp add: st'(1) store_keys_def)
  qed
  then have "keys_settled kd fk (items_at oc kd st) st'"
    using up(1) assms(3) by (auto simp: keys_settled_def st'(1) store_keys_def)
  then show "\<exists>fk. keys_settled kd fk (items_at oc kd st) st'" ..
  show "ks = ?ks" "same_value st st'" using st' by simp_all
qed

subsection \<open>Rebuilding the collection\<close>







subsection \<open>Who is woken\<close>


lemma woken_Nil [simp]: "\<not> woken tr []"
  by (simp add: woken_def)










subsection \<open>The patch of a keyed field\<close>



lemma update_keys_same: "kd_static kd \<Longrightarrow> typed_keys kd st \<Longrightarrow> same_value st (update_keys oc kd st)"
  by (simp add: update_keys_static case_prod_unfold Let_def)




text \<open>An item with its key in the first field.\<close>

fun first_field :: "sval \<Rightarrow> sval" where
  "first_field (StructV (k # vs)) = k"
| "first_field v = v"


lemmas keyed_steps =
  triggers_for_current_path_def keyed_path_of.simps keyed_reader.simps look_up_def latest_keys_def latest_def
  with_field_keys_def fk_get_def fk_new_def

text \<open>
  Where the keys are not up to date, \<open>KeyedSubfield::patch\<close> goes wrong. In a new store
  whose keyed field was not accessed before, the patch of an item that is there already is
  lost: the keys are initialised while the lock of the value is held, so they are none, and the
  old item is kept. If the item was only read by its key before, the keys are known but not the
  segments of the positions, and the patch panics.
\<close>

theorem keyed_patch_needs_keys:
  "(\<exists>st'. patch_keyed_store oc t (Keyed Root 0 ty first_field) (VecV [StructV [k, Prim b]])
       (store_new (StructV [VecV [StructV [k, Prim a]]])) = Inr st' \<and>
     st_value st' = StructV [VecV [StructV [k, Prim a]]]) \<and>
   (a \<noteq> b \<longrightarrow> patch_keyed_store oc (TTuple [TPrim, TPrim]) (Keyed Root 0 ty first_field) (VecV [StructV [k, Prim b]])
       (snd (reader oc (AtKeyed (Keyed Root 0 ty first_field) k) (store_new (StructV [VecV [StructV [k, Prim a]]])))) = Inl Panic)"
proof -
  let ?kd = "Keyed Root 0 ty first_field" and ?st = "store_new (StructV [VecV [StructV [k, Prim a]]])"
  have lost: "patch_keyed_store oc t ?kd (VecV [StructV [k, Prim b]]) ?st =
      Inr (update_keys oc ?kd (?st\<lparr>st_field_keys := [[0] \<mapsto> (ty, fk_new [])], notified := [Children [0], Children []]\<rparr>))"
    by (simp add: patch_keyed_store_def store_new_def keyed_steps keyed_items_def path_at_key_def
        drop_guard_def notify_children_def get_trigger_unkeyed_def ancestors.simps [of "[0]"])
  have known: "snd (reader oc (AtKeyed ?kd k) ?st) = ?st\<lparr>st_field_keys := [[0] \<mapsto> (ty, fk_new [k])]\<rparr>"
    by (simp add: store_new_def keyed_steps resolve_def index_is_current_def)
  have panics: "patch_keyed_store oc (TTuple [TPrim, TPrim]) ?kd (VecV [StructV [k, Prim b]])
      (?st\<lparr>st_field_keys := [[0] \<mapsto> (ty, fk_new [k])]\<rparr>) = Inl Panic" if "a \<noteq> b"
    using that
    by (auto simp: patch_keyed_store_def store_new_def keyed_steps keyed_items_def path_at_key_def plain_field_def
        patch_primitive_def notify_with_def notify_unkeyed_def triggers_for_path_unkeyed_def get_trigger_unkeyed_def)
  have "same_value st (update_keys oc ?kd st)" if "typed_keys ?kd st" for st
    using that by (intro update_keys_same) simp_all
  from this [of "?st\<lparr>st_field_keys := [[0] \<mapsto> (ty, fk_new [])], notified := [Children [0], Children []]\<rparr>"]
  have "st_value (update_keys oc ?kd (?st\<lparr>st_field_keys := [[0] \<mapsto> (ty, fk_new [])], notified := [Children [0], Children []]\<rparr>))
      = StructV [VecV [StructV [k, Prim a]]]"
    by (simp add: same_value_def typed_keys_def store_new_def)
  then show ?thesis using lost known panics by simp
qed

theorem keyed_patch_needs_keys_witness:
  "patch_keyed_store id (TTuple [TPrim, TPrim]) (Keyed Root 0 0 first_field) (VecV [StructV [Prim ''1'', Prim ''b'']])
     (snd (reader id (AtKeyed (Keyed Root 0 0 first_field) (Prim ''1'')) (store_new (StructV [VecV [StructV [Prim ''1'', Prim ''a'']]])))) = Inl Panic"
  using keyed_patch_needs_keys [of id TPrim 0 "Prim ''1''" "''b''" "''a''"] by (simp del: reader.simps)

text \<open>
  C36. Patching a struct with a keyed field panics as soon as an item of the field is in the old
  and in the new collection: the derived code looks the keys up under the path of the struct
  instead of the path of the field, which makes the struct itself pass for a keyed field.
\<close>

theorem derived_keyed_patch_panics:
  "key_fn v = key_fn w \<Longrightarrow>
     patch_store oc (TStruct [KeyedVec ty key_fn t]) Root (StructV [VecV [w]]) (store_new (StructV [VecV [v]])) = Inl Panic"
  by (simp add: patch_store_def store_new_def derived_keyed_field_def keyed_items_def derived_path_at_key_def look_up_def
      with_field_keys_def fk_get_def fk_new_def notify_with_def notify_unkeyed_def triggers_for_path_unkeyed_def get_trigger_unkeyed_def)

theorem derived_keyed_patch_panics_witness:
  "patch_store id (TStruct [KeyedVec 0 id TPrim]) Root (StructV [VecV [Prim ''a'']]) (store_new (StructV [VecV [Prim ''a'']])) = Inl Panic"
  by (rule derived_keyed_patch_panics) simp

end
