(* ===== verification/Dom_Model.thy ===== *)
theory Dom_Model
  imports Leptos_Prelude "HOL-Library.AList"
begin

text \<open>
  The document of the browser as far as the renderer uses it
  (\<^verbatim>\<open>src/tachys/src/renderer/dom.rs\<close>), and the error hook of \<^verbatim>\<open>src/any_error/src/lib.rs\<close> with the
  hook of an error boundary (\<^verbatim>\<open>src/leptos/src/error_boundary.rs\<close>).

  A node is a number; the document knows the data of each node, the list of its children and its
  parent. \<open>insert_before\<close> and \<open>remove\<close> are those of the DOM standard: a node that is inserted leaves
  its old parent, and inserting before a node that is not a child of the parent is an error, which
  the renderer reports to the console and otherwise ignores. That a node is never inserted below
  itself is not checked here.
\<close>

declare and_then_cong [fundef_cong]

subsection \<open>Errors that views throw\<close>

text \<open>
  Every error boundary is a number. The errors it shows are registered with the boundary, under an
  identifier that is not used twice; without a hook, an error gets the default identifier and is
  not registered.
\<close>

record errs =
  hook :: "nat option"
  shown :: "(nat \<times> nat \<times> string) list"
  next_error :: nat

definition throw_error :: "string \<Rightarrow> errs \<Rightarrow> nat option \<times> errs" where
  "throw_error e s = (case hook s of
     None \<Rightarrow> (None, s)
   | Some h \<Rightarrow> (Some (next_error s), s\<lparr>shown := (h, next_error s, e) # shown s, next_error := Suc (next_error s)\<rparr>))"

definition clear_error :: "nat option \<Rightarrow> errs \<Rightarrow> errs" where
  "clear_error i s = (case (hook s, i) of
     (Some h, Some n) \<Rightarrow> s\<lparr>shown := filter (\<lambda>(h', n', e). \<not> (h' = h \<and> n' = n)) (shown s)\<rparr>
   | _ \<Rightarrow> s)"

subsection \<open>Nodes\<close>

datatype dnode = NText string | NComment string | NElem string "(string \<times> string) list"

record dom =
  content :: "nat \<Rightarrow> dnode option"
  kids :: "nat \<Rightarrow> nat list"
  parent :: "nat \<Rightarrow> nat option"
  next_node :: nat
  errors :: errs

definition is_elem :: "dom \<Rightarrow> nat \<Rightarrow> bool" where
  "is_elem d n = (case content d n of Some (NElem t as) \<Rightarrow> True | _ \<Rightarrow> False)"

definition is_text :: "dom \<Rightarrow> nat \<Rightarrow> bool" where
  "is_text d n = (case content d n of Some (NText s) \<Rightarrow> True | _ \<Rightarrow> False)"

definition is_comment :: "dom \<Rightarrow> nat \<Rightarrow> bool" where
  "is_comment d n = (case content d n of Some (NComment s) \<Rightarrow> True | _ \<Rightarrow> False)"

definition add_node :: "dnode \<Rightarrow> dom \<Rightarrow> nat \<times> dom" where
  "add_node c d = (next_node d,
     d\<lparr>content := (content d)(next_node d \<mapsto> c), kids := (kids d)(next_node d := []),
       parent := (parent d)(next_node d := None), next_node := Suc (next_node d)\<rparr>)"

definition create_element :: "string \<Rightarrow> dom \<Rightarrow> nat \<times> dom" where
  "create_element tag d = add_node (NElem tag []) d"

definition create_text_node :: "string \<Rightarrow> dom \<Rightarrow> nat \<times> dom" where
  "create_text_node s d = add_node (NText s) d"

definition create_placeholder :: "dom \<Rightarrow> nat \<times> dom" where
  "create_placeholder d = add_node (NComment []) d"

definition set_text :: "nat \<Rightarrow> string \<Rightarrow> dom \<Rightarrow> dom" where
  "set_text n s d = d\<lparr>content := (content d)(n \<mapsto> NText s)\<rparr>"

definition set_attribute :: "nat \<Rightarrow> string \<Rightarrow> string \<Rightarrow> dom \<Rightarrow> dom" where
  "set_attribute n k v d = (case content d n of
     Some (NElem t as) \<Rightarrow> d\<lparr>content := (content d)(n \<mapsto> NElem t (AList.update k v as))\<rparr>
   | _ \<Rightarrow> d)"

definition remove_attribute :: "nat \<Rightarrow> string \<Rightarrow> dom \<Rightarrow> dom" where
  "remove_attribute n k d = (case content d n of
     Some (NElem t as) \<Rightarrow> d\<lparr>content := (content d)(n \<mapsto> NElem t (AList.delete k as))\<rparr>
   | _ \<Rightarrow> d)"

text \<open>
  The class list of an element is the ordered set of the tokens of its \<^verbatim>\<open>class\<close> attribute; adding
  and removing a token writes the attribute back, with single spaces.
\<close>

definition is_space :: "char \<Rightarrow> bool" where
  "is_space c \<longleftrightarrow> c \<in> {CHR '' '', CHR 0x09, CHR 0x0A, CHR 0x0B, CHR 0x0C, CHR 0x0D}"

fun split_tokens :: "string \<Rightarrow> string \<Rightarrow> string list" where
  "split_tokens acc [] = (if acc = [] then [] else [rev acc])"
| "split_tokens acc (c # cs) =
     (if is_space c then (if acc = [] then split_tokens [] cs else rev acc # split_tokens [] cs)
      else split_tokens (c # acc) cs)"

definition class_tokens :: "string \<Rightarrow> string list" where
  "class_tokens s = remdups (split_tokens [] s)"

fun join_tokens :: "string list \<Rightarrow> string" where
  "join_tokens [] = []"
| "join_tokens [t] = t"
| "join_tokens (t # ts) = t @ CHR '' '' # join_tokens ts"

definition get_attribute :: "dom \<Rightarrow> nat \<Rightarrow> string \<Rightarrow> string option" where
  "get_attribute d n k = (case content d n of Some (NElem t as) \<Rightarrow> map_of as k | _ \<Rightarrow> None)"

definition class_list :: "dom \<Rightarrow> nat \<Rightarrow> string list" where
  "class_list d n = (case get_attribute d n ''class'' of None \<Rightarrow> [] | Some v \<Rightarrow> class_tokens v)"

definition add_class :: "nat \<Rightarrow> string \<Rightarrow> dom \<Rightarrow> dom" where
  "add_class n c d = set_attribute n ''class'' (join_tokens (index_insert c (class_list d n))) d"

definition remove_class :: "nat \<Rightarrow> string \<Rightarrow> dom \<Rightarrow> dom" where
  "remove_class n c d = (if get_attribute d n ''class'' = None then d
     else set_attribute n ''class'' (join_tokens (shift_remove c (class_list d n))) d)"

subsection \<open>The tree\<close>

definition remove_node :: "nat \<Rightarrow> dom \<Rightarrow> dom" where
  "remove_node n d = (case parent d n of
     None \<Rightarrow> d
   | Some p \<Rightarrow> d\<lparr>kids := (kids d)(p := shift_remove n (kids d p)), parent := (parent d)(n := None)\<rparr>)"

fun place_before :: "nat \<Rightarrow> nat option \<Rightarrow> nat list \<Rightarrow> nat list" where
  "place_before n None ns = ns @ [n]"
| "place_before n (Some a) ns = takeWhile (\<lambda>m. m \<noteq> a) ns @ n # dropWhile (\<lambda>m. m \<noteq> a) ns"

definition next_sibling :: "dom \<Rightarrow> nat \<Rightarrow> nat option" where
  "next_sibling d n = (case parent d n of
     None \<Rightarrow> None
   | Some p \<Rightarrow> (case dropWhile (\<lambda>m. m \<noteq> n) (kids d p) of a # b # ms \<Rightarrow> Some b | _ \<Rightarrow> None))"

definition first_child :: "dom \<Rightarrow> nat \<Rightarrow> nat option" where
  "first_child d n = (case kids d n of [] \<Rightarrow> None | m # ms \<Rightarrow> Some m)"

definition try_insert_node :: "nat \<Rightarrow> nat \<Rightarrow> nat option \<Rightarrow> dom \<Rightarrow> bool \<times> dom" where
  "try_insert_node p n anchor d =
     (if (case anchor of Some a \<Rightarrow> parent d a \<noteq> Some p | None \<Rightarrow> False) then (False, d)
      else let a = (if anchor = Some n then next_sibling d n else anchor); d1 = remove_node n d in
        (True, d1\<lparr>kids := (kids d1)(p := place_before n a (kids d1 p)), parent := (parent d1)(n := Some p)\<rparr>))"

definition insert_node :: "nat \<Rightarrow> nat \<Rightarrow> nat option \<Rightarrow> dom \<Rightarrow> dom" where
  "insert_node p n anchor d = snd (try_insert_node p n anchor d)"

text \<open>\<open>Rndr::get_parent(..).and_then(Element::cast_from)\<close>.\<close>

definition parent_element :: "dom \<Rightarrow> nat \<Rightarrow> nat option" where
  "parent_element d n = (case parent d n of
     Some p \<Rightarrow> if is_elem d p then Some p else None
   | None \<Rightarrow> None)"

end
