(* ===== verification/View_Attrs.thy ===== *)
theory View_Attrs
  imports Dom_Model
begin

text \<open>
  Attributes of elements: named attributes with their values
  (\<^verbatim>\<open>src/tachys/src/html/attribute/mod.rs\<close>, \<^verbatim>\<open>value.rs\<close>) and classes (\<^verbatim>\<open>src/tachys/src/html/class.rs\<close>),
  with how they are written to HTML, built, hydrated and rebuilt. \<open>AStr\<close> stands for the string types,
  \<open>APrim\<close> for the types that are printed with \<^verbatim>\<open>Display\<close>, by what is printed. Styles, properties, event
  handlers and \<^verbatim>\<open>inner_html\<close> are not modelled. A rebuild with a value of another type than the state is
  excluded by the types of the program; here it is a failure.
\<close>

subsection \<open>Values that are printed\<close>

text \<open>
  Numbers, characters and addresses are represented by what they are printed as. They are compared
  as values: the only ones that are equal and printed differently are the two zeros of the floating
  point types, and the only one that differs from itself is \<^verbatim>\<open>NaN\<close>. (Two socket addresses that
  differ in the flow label alone are printed alike; setting a text or an attribute to what it
  already is does not change the document.)
\<close>

definition prim_same :: "string \<Rightarrow> string \<Rightarrow> bool" where
  "prim_same v w \<longleftrightarrow> v = w \<or> {v, w} = {''0'', ''-0''}"

definition prim_changed :: "string \<Rightarrow> string \<Rightarrow> bool" where
  "prim_changed v old \<longleftrightarrow> v = ''NaN'' \<or> \<not> prim_same v old"

lemma prim_same_refl [simp]: "prim_same v v"
  by (simp add: prim_same_def)

lemma prim_same_trans: "prim_same u v \<Longrightarrow> prim_same v w \<Longrightarrow> prim_same u w"
  by (auto simp: prim_same_def doubleton_eq_iff)

lemma prim_same_empty [simp]: "prim_same v [] \<longleftrightarrow> v = []"
  by (auto simp: prim_same_def doubleton_eq_iff)

lemma prim_unchanged: "\<not> prim_changed v old \<Longrightarrow> prim_same v old"
  by (simp add: prim_changed_def)

subsection \<open>Values\<close>

datatype aval = AUnit | AStr string | APrim string | ABool bool | AOpt "aval option"

text \<open>The state is the element and the previous value, as it is printed.\<close>

datatype astate = SUnit | SStr nat string | SBool nat bool | SOpt nat "astate option"

fun value_html :: "(string \<Rightarrow> string) \<Rightarrow> string \<Rightarrow> aval \<Rightarrow> string \<Rightarrow> string" where
  "value_html enc key AUnit buf = buf"
| "value_html enc key (AStr v) buf = buf @ '' '' @ key @ ''='' @ [CHR 0x22] @ enc v @ [CHR 0x22]"
| "value_html enc key (APrim v) buf = buf @ '' '' @ key @ ''='' @ [CHR 0x22] @ enc v @ [CHR 0x22]"
| "value_html enc key (ABool b) buf = (if b then buf @ '' '' @ key else buf)"
| "value_html enc key (AOpt None) buf = buf"
| "value_html enc key (AOpt (Some v)) buf = value_html enc key v buf"

fun value_build :: "string \<Rightarrow> nat \<Rightarrow> aval \<Rightarrow> dom \<Rightarrow> astate \<times> dom" where
  "value_build key el AUnit d = (SUnit, d)"
| "value_build key el (AStr v) d = (SStr el v, set_attribute el key v d)"
| "value_build key el (APrim v) d = (SStr el v, set_attribute el key v d)"
| "value_build key el (ABool b) d = (SBool el b, if b then set_attribute el key [] d else d)"
| "value_build key el (AOpt None) d = (SOpt el None, d)"
| "value_build key el (AOpt (Some v)) d =
     (case value_build key el v d of (st, d') \<Rightarrow> (SOpt el (Some st), d'))"

text \<open>\<open>fs\<close> is the constant \<^verbatim>\<open>FROM_SERVER\<close>.\<close>

fun value_hydrate :: "bool \<Rightarrow> string \<Rightarrow> nat \<Rightarrow> aval \<Rightarrow> dom \<Rightarrow> astate \<times> dom" where
  "value_hydrate fs key el AUnit d = (SUnit, d)"
| "value_hydrate fs key el (AStr v) d = (SStr el v, if fs then d else set_attribute el key v d)"
| "value_hydrate fs key el (APrim v) d = (SStr el v, if fs then d else set_attribute el key v d)"
| "value_hydrate fs key el (ABool b) d = (SBool el b, if fs then d else set_attribute el key [] d)"
| "value_hydrate fs key el (AOpt None) d = (SOpt el None, d)"
| "value_hydrate fs key el (AOpt (Some v)) d =
     (case value_hydrate fs key el v d of (st, d') \<Rightarrow> (SOpt el (Some st), d'))"

fun value_rebuild :: "string \<Rightarrow> aval \<Rightarrow> astate \<Rightarrow> dom \<Rightarrow> (astate \<times> dom) result" where
  "value_rebuild key AUnit SUnit d = Inr (SUnit, d)"
| "value_rebuild key (AStr v) (SStr el old) d =
     Inr (SStr el v, if v \<noteq> old then set_attribute el key v d else d)"
| "value_rebuild key (APrim v) (SStr el old) d =
     Inr (SStr el v, if prim_changed v old then set_attribute el key v d else d)"
| "value_rebuild key (ABool b) (SBool el old) d =
     Inr (SBool el b,
       if b \<noteq> old then (if b then set_attribute el key [] d else remove_attribute el key d) else d)"
| "value_rebuild key (AOpt None) (SOpt el None) d = Inr (SOpt el None, d)"
| "value_rebuild key (AOpt None) (SOpt el (Some st)) d = Inr (SOpt el None, remove_attribute el key d)"
| "value_rebuild key (AOpt (Some v)) (SOpt el None) d =
     (case value_build key el v d of (st, d') \<Rightarrow> Inr (SOpt el (Some st), d'))"
| "value_rebuild key (AOpt (Some v)) (SOpt el (Some st)) d =
     and_then (value_rebuild key v st d) (\<lambda>(st', d'). Inr (SOpt el (Some st'), d'))"
| "value_rebuild key _ _ d = Inl Panic"

subsection \<open>Classes\<close>

datatype cls = CStr string | CToggle string bool | COpt "cls option"

datatype cstate = SCStr nat string | SCToggle nat bool string | SCOpt nat "cstate option"

fun cls_html :: "cls \<Rightarrow> string \<Rightarrow> string" where
  "cls_html (CStr c) buf = buf @ c"
| "cls_html (CToggle c b) buf = (if b then buf @ c else buf)"
| "cls_html (COpt None) buf = buf"
| "cls_html (COpt (Some c)) buf = cls_html c buf"

fun should_overwrite :: "cls \<Rightarrow> bool" where
  "should_overwrite (CStr c) = True"
| "should_overwrite (CToggle c b) = False"
| "should_overwrite (COpt c) = False"

fun cls_build :: "nat \<Rightarrow> cls \<Rightarrow> dom \<Rightarrow> cstate \<times> dom" where
  "cls_build el (CStr c) d = (SCStr el c, set_attribute el ''class'' c d)"
| "cls_build el (CToggle c b) d = (SCToggle el b c, if b then add_class el c d else d)"
| "cls_build el (COpt None) d = (SCOpt el None, d)"
| "cls_build el (COpt (Some c)) d = (case cls_build el c d of (st, d') \<Rightarrow> (SCOpt el (Some st), d'))"

fun cls_hydrate :: "bool \<Rightarrow> nat \<Rightarrow> cls \<Rightarrow> dom \<Rightarrow> cstate \<times> dom" where
  "cls_hydrate fs el (CStr c) d = (SCStr el c, if fs then d else set_attribute el ''class'' c d)"
| "cls_hydrate fs el (CToggle c b) d = (SCToggle el b c, if \<not> fs \<and> b then add_class el c d else d)"
| "cls_hydrate fs el (COpt None) d = (SCOpt el None, d)"
| "cls_hydrate fs el (COpt (Some c)) d =
     (case cls_hydrate fs el c d of (st, d') \<Rightarrow> (SCOpt el (Some st), d'))"

fun cls_reset :: "cstate \<Rightarrow> dom \<Rightarrow> dom" where
  "cls_reset (SCStr el old) d = remove_attribute el ''class'' d"
| "cls_reset (SCToggle el b c) d = remove_class el c d"
| "cls_reset (SCOpt el None) d = d"
| "cls_reset (SCOpt el (Some st)) d = cls_reset st d"

definition toggle_rebuild :: "nat \<Rightarrow> string \<Rightarrow> bool \<Rightarrow> string \<Rightarrow> bool \<Rightarrow> dom \<Rightarrow> dom" where
  "toggle_rebuild el c b old_c old_b d =
     (if c = old_c then (if b \<noteq> old_b then (if b then add_class el c d else remove_class el c d) else d)
      else let d1 = (if old_b then remove_class el old_c d else d) in
        if b then add_class el c d1 else d1)"

fun cls_rebuild :: "cls \<Rightarrow> cstate \<Rightarrow> dom \<Rightarrow> (cstate \<times> dom) result" where
  "cls_rebuild (CStr c) (SCStr el old) d =
     Inr (SCStr el c, if c \<noteq> old then set_attribute el ''class'' c d else d)"
| "cls_rebuild (CToggle c b) (SCToggle el old_b old_c) d =
     Inr (SCToggle el b c, toggle_rebuild el c b old_c old_b d)"
| "cls_rebuild (COpt None) (SCOpt el (Some st)) d = Inr (SCOpt el None, cls_reset st d)"
| "cls_rebuild (COpt (Some c)) (SCOpt el None) d =
     (case cls_build el c d of (st, d') \<Rightarrow> Inr (SCOpt el (Some st), d'))"
| "cls_rebuild (COpt (Some c)) (SCOpt el (Some st)) d =
     and_then (cls_rebuild c st d) (\<lambda>(st', d'). Inr (SCOpt el (Some st'), d'))"
| "cls_rebuild (COpt None) (SCOpt el None) d = Inr (SCOpt el None, d)"
| "cls_rebuild _ _ d = Inl Panic"

subsection \<open>Attributes of an element\<close>

datatype attr = Attr string aval | Class cls

datatype attr_state = SAttr astate | SClass cstate

text \<open>The buffer of attributes and the one of classes.\<close>

fun attribute_html :: "(string \<Rightarrow> string) \<Rightarrow> attr \<Rightarrow> string \<times> string \<Rightarrow> string \<times> string" where
  "attribute_html enc (Attr key v) (buf, class) = (value_html enc key v buf, class)"
| "attribute_html enc (Class c) (buf, class) =
     (buf, cls_html c ((if should_overwrite c then [] else class) @ '' ''))"

definition trim :: "string \<Rightarrow> string" where
  "trim s = rev (dropWhile is_space (rev (dropWhile is_space s)))"

definition attributes_to_html :: "(string \<Rightarrow> string) \<Rightarrow> attr list \<Rightarrow> string \<Rightarrow> string" where
  "attributes_to_html enc as buf =
     (case fold (attribute_html enc) as (buf, []) of (buf', class) \<Rightarrow>
        if class \<noteq> [] then buf' @ '' class='' @ [CHR 0x22] @ enc (trim class) @ [CHR 0x22] else buf')"

fun attr_build :: "nat \<Rightarrow> attr \<Rightarrow> dom \<Rightarrow> attr_state \<times> dom" where
  "attr_build el (Attr key v) d = (case value_build key el v d of (st, d') \<Rightarrow> (SAttr st, d'))"
| "attr_build el (Class c) d = (case cls_build el c d of (st, d') \<Rightarrow> (SClass st, d'))"

fun attr_hydrate :: "bool \<Rightarrow> nat \<Rightarrow> attr \<Rightarrow> dom \<Rightarrow> attr_state \<times> dom" where
  "attr_hydrate fs el (Attr key v) d =
     (case value_hydrate fs key el v d of (st, d') \<Rightarrow> (SAttr st, d'))"
| "attr_hydrate fs el (Class c) d = (case cls_hydrate fs el c d of (st, d') \<Rightarrow> (SClass st, d'))"

fun attr_rebuild :: "attr \<Rightarrow> attr_state \<Rightarrow> dom \<Rightarrow> (attr_state \<times> dom) result" where
  "attr_rebuild (Attr key v) (SAttr st) d =
     and_then (value_rebuild key v st d) (\<lambda>(st', d'). Inr (SAttr st', d'))"
| "attr_rebuild (Class c) (SClass st) d =
     and_then (cls_rebuild c st d) (\<lambda>(st', d'). Inr (SClass st', d'))"
| "attr_rebuild _ _ d = Inl Panic"

text \<open>A tuple of attributes.\<close>

fun attrs_build :: "nat \<Rightarrow> attr list \<Rightarrow> dom \<Rightarrow> attr_state list \<times> dom" where
  "attrs_build el [] d = ([], d)"
| "attrs_build el (a # as) d =
     (case attr_build el a d of (st, d1) \<Rightarrow>
        case attrs_build el as d1 of (sts, d2) \<Rightarrow> (st # sts, d2))"

fun attrs_hydrate :: "bool \<Rightarrow> nat \<Rightarrow> attr list \<Rightarrow> dom \<Rightarrow> attr_state list \<times> dom" where
  "attrs_hydrate fs el [] d = ([], d)"
| "attrs_hydrate fs el (a # as) d =
     (case attr_hydrate fs el a d of (st, d1) \<Rightarrow>
        case attrs_hydrate fs el as d1 of (sts, d2) \<Rightarrow> (st # sts, d2))"

fun attrs_rebuild :: "attr list \<Rightarrow> attr_state list \<Rightarrow> dom \<Rightarrow> (attr_state list \<times> dom) result" where
  "attrs_rebuild [] [] d = Inr ([], d)"
| "attrs_rebuild (a # as) (st # sts) d =
     and_then (attr_rebuild a st d) (\<lambda>(st', d1).
       and_then (attrs_rebuild as sts d1) (\<lambda>(sts', d2). Inr (st' # sts', d2)))"
| "attrs_rebuild _ _ d = Inl Panic"

end
