(* ===== verification/View_Html.thy ===== *)
theory View_Html
  imports View_Attrs
begin

text \<open>
  Views (\<^verbatim>\<open>src/tachys/src/view/\<close>, \<^verbatim>\<open>src/tachys/src/html/element/mod.rs\<close>) and their rendering to HTML.

  A view is a value of one of the types that implement \<^verbatim>\<open>Render\<close>: strings, values that are printed,
  \<^verbatim>\<open>()\<close>, tuples, arrays, vectors, \<^verbatim>\<open>StaticVec\<close>, \<^verbatim>\<open>Either\<close> and \<^verbatim>\<open>EitherOfN\<close>, \<^verbatim>\<open>Option\<close>, \<^verbatim>\<open>Result\<close>,
  \<^verbatim>\<open>AnyView\<close>, \<^verbatim>\<open>EitherKeepAlive\<close> and elements. The type of a view is a value of \<open>vty\<close>, which also
  stands for the type identifier of an \<^verbatim>\<open>AnyView\<close>. Views that come from signals and futures, and the
  extra attributes that are passed down to the elements of a view, are not modelled.
\<close>

subsection \<open>Types of views\<close>

text \<open>The constants of an \<^verbatim>\<open>ElementType\<close>; \<open>TAG\<close> is empty for custom elements.\<close>

record etype =
  TAG :: string
  SELF_CLOSING :: bool
  ESCAPE_CHILDREN :: bool
  HYDRATES_CHILDREN :: bool

text \<open>
  The types of attributes. The class of a toggle is taken as a part of its type: in a template it is
  a constant.
\<close>

datatype avty = AtUnit | AtStr | AtPrim | AtBool | AtOpt avty

datatype clsty = CtStr | CtToggle string | CtOpt clsty

datatype aty = TAttr string avty | TClass clsty

datatype vty =
    TyText
  | TyPrim bool
  | TyUnit
  | TyTuple "vty list"
  | TyArray nat vty
  | TyVec vty
  | TyStaticVec vty
  | TyEither "vty list"
  | TyResult vty
  | TyAny
  | TyKeep vty vty
  | TyElem etype "aty list" vty

text \<open>
  \<open>VPrim e s\<close> is a value that is printed as \<open>s\<close>; \<open>e\<close> tells whether its text is escaped (\<^verbatim>\<open>char\<close>).
  \<open>VEither n i v\<close> is the alternative \<open>i\<close> of an enum with \<open>n\<close> alternatives. The unary tuple \<^verbatim>\<open>(A,)\<close>
  behaves like \<^verbatim>\<open>A\<close>.
\<close>

datatype view =
    VText string
  | VPrim bool string
  | VUnit
  | VTuple "view list"
  | VArray "view list"
  | VVec "view list"
  | VStaticVec "view list"
  | VEither nat nat view
  | VOk view
  | VErr string
  | VAny vty view
  | VKeep "view option" "view option" bool
  | VElem etype string "attr list" view

text \<open>An \<^verbatim>\<open>Option\<close> is rendered as an \<^verbatim>\<open>Either\<close> with \<^verbatim>\<open>()\<close> on the right.\<close>

definition VOption :: "view option \<Rightarrow> view" where
  "VOption v = (case v of Some w \<Rightarrow> VEither 2 0 w | None \<Rightarrow> VEither 2 1 VUnit)"

text \<open>The constant \<^verbatim>\<open>EXISTS\<close>.\<close>

fun exists_view :: "view \<Rightarrow> bool" where
  "exists_view VUnit = False"
| "exists_view (VTuple vs) = list_ex exists_view vs"
| "exists_view _ = True"

subsection \<open>Positions and flags\<close>

datatype position = Current | FirstChild | NextChild | NextChildAfterText | OnlyChild | LastChild

record flags =
  escape :: bool
  hydrate_markers :: bool
  mark_branches :: bool

definition HYDRATE :: flags where
  "HYDRATE = \<lparr>escape = True, hydrate_markers = True, mark_branches = False\<rparr>"

definition HYDRATE_BRANCHING :: flags where
  "HYDRATE_BRANCHING = \<lparr>escape = True, hydrate_markers = True, mark_branches = True\<rparr>"

text \<open>
  What the rendering depends on outside of the repository: the escaping of text and of attribute
  values (html_escape), and how a type identifier is printed.
\<close>

record html_env =
  encode_text :: "string \<Rightarrow> string"
  encode_attr :: "string \<Rightarrow> string"
  type_label :: "vty \<Rightarrow> string"

text \<open>The buffer, the position, and the errors that were thrown.\<close>

record html_out =
  buf :: string
  pos :: position
  thrown :: errs

definition push :: "string \<Rightarrow> html_out \<Rightarrow> html_out" where
  "push s out = out\<lparr>buf := buf out @ s\<rparr>"

definition branch_id :: "nat \<Rightarrow> nat \<Rightarrow> string" where
  "branch_id n i = (if n = 2 then (if i = 0 then ''0'' else ''1'')
     else [nth ''ABCDEFGHIJKLMNOP'' i])"

definition open_branch :: "string \<Rightarrow> html_out \<Rightarrow> html_out" where
  "open_branch b = push (''<!--bo-'' @ b @ ''-->'')"

definition close_branch :: "string \<Rightarrow> html_out \<Rightarrow> html_out" where
  "close_branch b = push (''<!--bc-'' @ b @ ''-->'')"

text \<open>The markers around a branch, and the position after it.\<close>

definition in_branch :: "flags \<Rightarrow> string \<Rightarrow> (html_out \<Rightarrow> html_out result) \<Rightarrow> html_out \<Rightarrow> html_out result" where
  "in_branch fl b f out =
     (if mark_branches fl \<and> escape fl then
        and_then (f (open_branch b out)) (\<lambda>out'.
          let out'' = close_branch b out' in
          Inr (if pos out'' = NextChildAfterText then out''\<lparr>pos := NextChild\<rparr> else out''))
      else f out)"

lemma in_branch_cong [fundef_cong]:
  "fl = fl' \<Longrightarrow> b = b' \<Longrightarrow> out = out' \<Longrightarrow> (\<And>o'. f o' = g o') \<Longrightarrow> in_branch fl b f out = in_branch fl' b' g out'"
  by (simp add: in_branch_def)

subsection \<open>Rendering\<close>

definition text_to_html :: "html_env \<Rightarrow> flags \<Rightarrow> string \<Rightarrow> html_out \<Rightarrow> html_out" where
  "text_to_html env fl s out =
     (let o1 = (if hydrate_markers fl \<and> pos out = NextChildAfterText then push ''<!>'' out else out);
          o2 = (if s = [] \<and> hydrate_markers fl then push '' '' o1
                else if escape fl then push (encode_text env s) o1 else push s o1)
      in o2\<lparr>pos := NextChildAfterText\<rparr>)"

definition prim_to_html :: "html_env \<Rightarrow> flags \<Rightarrow> bool \<Rightarrow> string \<Rightarrow> html_out \<Rightarrow> html_out" where
  "prim_to_html env fl e s out =
     (let o1 = (if hydrate_markers fl \<and> pos out = NextChildAfterText then push ''<!>'' out else out);
          o2 = (if e \<and> escape fl then push (encode_text env s) o1 else push s o1)
      in o2\<lparr>pos := NextChildAfterText\<rparr>)"

text \<open>The marker of \<^verbatim>\<open>()\<close>, and the one at the end of a vector.\<close>

definition marker_to_html :: "flags \<Rightarrow> html_out \<Rightarrow> html_out" where
  "marker_to_html fl out = (if hydrate_markers fl then (push ''<!>'' out)\<lparr>pos := NextChild\<rparr> else out)"

definition child_flags :: "etype \<Rightarrow> flags \<Rightarrow> flags" where
  "child_flags et fl = fl\<lparr>escape := ESCAPE_CHILDREN et, hydrate_markers := HYDRATES_CHILDREN et\<rparr>"

definition open_tag :: "html_env \<Rightarrow> string \<Rightarrow> attr list \<Rightarrow> html_out \<Rightarrow> html_out" where
  "open_tag env tag as out =
     out\<lparr>buf := attributes_to_html (encode_attr env) as (buf out @ ''<'' @ tag) @ ''>''\<rparr>"

definition close_tag :: "string \<Rightarrow> html_out \<Rightarrow> html_out" where
  "close_tag tag = push (''</'' @ tag @ ''>'')"

definition vec_to_html :: "flags \<Rightarrow> (html_out \<Rightarrow> html_out result) \<Rightarrow> html_out \<Rightarrow> html_out result" where
  "vec_to_html fl items out = and_then (items out) (\<lambda>o1. Inr (marker_to_html fl o1))"

text \<open>An error leaves the position as it is, and its marker does not depend on the flags.\<close>

definition err_to_html :: "string \<Rightarrow> html_out \<Rightarrow> html_out" where
  "err_to_html e out = (push ''<!>'' out)\<lparr>thrown := snd (throw_error e (thrown out))\<rparr>"

definition any_to_html :: "bool \<Rightarrow> (html_out \<Rightarrow> html_out result) \<Rightarrow> html_out \<Rightarrow> html_out result" where
  "any_to_html ex f out = and_then (f out) (\<lambda>o1. Inr (if ex then o1 else push ''<!--<() />-->'' o1))"

definition element_to_html ::
  "html_env \<Rightarrow> etype \<Rightarrow> string \<Rightarrow> attr list \<Rightarrow> bool \<Rightarrow> (html_out \<Rightarrow> html_out result) \<Rightarrow> html_out \<Rightarrow> html_out result" where
  "element_to_html env et tag as ex f out =
     (let o1 = open_tag env tag as out in
      if SELF_CLOSING et then Inr (o1\<lparr>pos := NextChild\<rparr>)
      else and_then (if ex then f (o1\<lparr>pos := FirstChild\<rparr>) else Inr o1)
        (\<lambda>o2. Inr ((close_tag tag o2)\<lparr>pos := NextChild\<rparr>)))"

lemma to_html_congs [fundef_cong]:
  "fl = fl' \<Longrightarrow> out = out' \<Longrightarrow> (\<And>x. f x = f' x) \<Longrightarrow> vec_to_html fl f out = vec_to_html fl' f' out'"
  "ex = ex' \<Longrightarrow> out = out' \<Longrightarrow> (\<And>x. f x = f' x) \<Longrightarrow> any_to_html ex f out = any_to_html ex' f' out'"
  "env = env' \<Longrightarrow> et = et' \<Longrightarrow> tag = tag' \<Longrightarrow> as = as' \<Longrightarrow> ex = ex' \<Longrightarrow> out = out' \<Longrightarrow>
   (\<And>x. f x = f' x) \<Longrightarrow> element_to_html env et tag as ex f out = element_to_html env' et' tag' as' ex' f' out'"
  by (simp_all add: vec_to_html_def any_to_html_def element_to_html_def Let_def)

fun to_html_with_buf :: "html_env \<Rightarrow> flags \<Rightarrow> view \<Rightarrow> html_out \<Rightarrow> html_out result" where
  "to_html_with_buf env fl (VText s) out = Inr (text_to_html env fl s out)"
| "to_html_with_buf env fl (VPrim e s) out = Inr (prim_to_html env fl e s out)"
| "to_html_with_buf env fl VUnit out = Inr (marker_to_html fl out)"
| "to_html_with_buf env fl (VTuple vs) out = foreach (to_html_with_buf env fl) vs out"
| "to_html_with_buf env fl (VArray vs) out = foreach (to_html_with_buf env fl) vs out"
| "to_html_with_buf env fl (VVec vs) out = vec_to_html fl (foreach (to_html_with_buf env fl) vs) out"
| "to_html_with_buf env fl (VStaticVec vs) out = vec_to_html fl (foreach (to_html_with_buf env fl) vs) out"
| "to_html_with_buf env fl (VEither n i v) out = in_branch fl (branch_id n i) (to_html_with_buf env fl v) out"
| "to_html_with_buf env fl (VOk v) out = to_html_with_buf env fl v out"
| "to_html_with_buf env fl (VErr e) out = Inr (err_to_html e out)"
| "to_html_with_buf env fl (VAny t v) out =
     in_branch fl (type_label env t) (any_to_html (exists_view v) (to_html_with_buf env fl v)) out"
| "to_html_with_buf env fl (VKeep a b show_b) out =
     (if show_b then (case b of None \<Rightarrow> Inl Panic | Some v \<Rightarrow> to_html_with_buf env fl v out)
      else (case a of None \<Rightarrow> Inl Panic | Some v \<Rightarrow> to_html_with_buf env fl v out))"
| "to_html_with_buf env fl (VElem et tag as v) out =
     element_to_html env et tag as (exists_view v) (to_html_with_buf env (child_flags et fl) v) out"

definition new_out :: "errs \<Rightarrow> html_out" where
  "new_out s = \<lparr>buf = [], pos = FirstChild, thrown = s\<rparr>"

definition view_to_html :: "html_env \<Rightarrow> view \<Rightarrow> errs \<Rightarrow> (string \<times> errs) result" where
  "view_to_html env v s = and_then (to_html_with_buf env HYDRATE v (new_out s)) (\<lambda>out. Inr (buf out, thrown out))"

definition to_html_branching :: "html_env \<Rightarrow> view \<Rightarrow> errs \<Rightarrow> (string \<times> errs) result" where
  "to_html_branching env v s =
     and_then (to_html_with_buf env HYDRATE_BRANCHING v (new_out s)) (\<lambda>out. Inr (buf out, thrown out))"

end
