(* ===== verification/View_Render.thy ===== *)
theory View_Render
  imports View_Html
begin

text \<open>
  The states of views, and how they are mounted, built, rebuilt and hydrated
  (\<^verbatim>\<open>src/tachys/src/view/\<close>, \<^verbatim>\<open>src/tachys/src/html/element/mod.rs\<close>, \<^verbatim>\<open>src/tachys/src/hydration.rs\<close>).
\<close>

subsection \<open>States\<close>

text \<open>
  \<open>SResult\<close> has the state of the view or of the placeholder, the identifier of the error and the
  hook; \<open>SAny\<close> the placeholder of a type that does not exist in the document.
\<close>

datatype vstate =
    SText nat string
  | SPlace nat
  | STuple "vstate list"
  | SArray "vstate list"
  | SVec "vstate list" nat
  | SStaticVec "vstate list" nat
  | SEither nat vstate
  | SResult bool vstate "nat option" "nat option"
  | SAny vty vstate "nat option"
  | SKeep "vstate option" "vstate option" bool
  | SElem nat "attr_state list" "vstate option"

subsection \<open>Mounting\<close>

fun unmount_state :: "vstate \<Rightarrow> dom \<Rightarrow> dom result" where
  "unmount_state (SText n s) d = Inr (remove_node n d)"
| "unmount_state (SPlace n) d = Inr (remove_node n d)"
| "unmount_state (STuple sts) d = foreach unmount_state sts d"
| "unmount_state (SArray sts) d = foreach unmount_state sts d"
| "unmount_state (SVec sts m) d = and_then (foreach unmount_state sts d) (\<lambda>d'. Inr (remove_node m d'))"
| "unmount_state (SStaticVec sts m) d = and_then (foreach unmount_state sts d) (\<lambda>d'. Inr (remove_node m d'))"
| "unmount_state (SEither i st) d = unmount_state st d"
| "unmount_state (SResult ok st e h) d = unmount_state st d"
| "unmount_state (SAny t st ph) d =
     and_then (unmount_state st d) (\<lambda>d'. Inr (case ph of None \<Rightarrow> d' | Some n \<Rightarrow> remove_node n d'))"
| "unmount_state (SKeep a b show_b) d =
     (if show_b then (case b of None \<Rightarrow> Inl Panic | Some st \<Rightarrow> unmount_state st d)
      else (case a of None \<Rightarrow> Inl Panic | Some st \<Rightarrow> unmount_state st d))"
| "unmount_state (SElem el as ch) d = Inr (remove_node el d)"

fun mount :: "nat \<Rightarrow> nat option \<Rightarrow> vstate \<Rightarrow> dom \<Rightarrow> dom result" where
  "mount p m (SText n s) d = Inr (insert_node p n m d)"
| "mount p m (SPlace n) d = Inr (insert_node p n m d)"
| "mount p m (STuple sts) d = foreach (mount p m) sts d"
| "mount p m (SArray sts) d = foreach (mount p m) sts d"
| "mount p m (SVec sts n) d = and_then (foreach (mount p m) sts d) (\<lambda>d'. Inr (insert_node p n m d'))"
| "mount p m (SStaticVec sts n) d = and_then (foreach (mount p m) sts d) (\<lambda>d'. Inr (insert_node p n m d'))"
| "mount p m (SEither i st) d = mount p m st d"
| "mount p m (SResult ok st e h) d = mount p m st d"
| "mount p m (SAny t st ph) d =
     and_then (mount p m st d) (\<lambda>d'. Inr (case ph of None \<Rightarrow> d' | Some n \<Rightarrow> insert_node p n m d'))"
| "mount p m (SKeep a b show_b) d =
     (if show_b then (case b of None \<Rightarrow> Inl Panic | Some st \<Rightarrow> mount p m st d)
      else (case a of None \<Rightarrow> Inl Panic | Some st \<Rightarrow> mount p m st d))"
| "mount p m (SElem el as ch) d = Inr (insert_node p el m d)"

text \<open>\<open>insert_before_this\<close> of a node: mounts the child in the parent of the node, if it has one.\<close>

definition node_insert_before :: "nat \<Rightarrow> vstate \<Rightarrow> dom \<Rightarrow> (bool \<times> dom) result" where
  "node_insert_before n child d = (case parent_element d n of
     Some p \<Rightarrow> and_then (mount p (Some n) child d) (\<lambda>d'. Inr (True, d'))
   | None \<Rightarrow> Inr (False, d))"

text \<open>Tries one after the other until one succeeds.\<close>

primrec first_success :: "('a \<Rightarrow> 's \<Rightarrow> (bool \<times> 's) result) \<Rightarrow> 'a list \<Rightarrow> 's \<Rightarrow> (bool \<times> 's) result" where
  "first_success f [] s = Inr (False, s)"
| "first_success f (x # xs) s =
     and_then (f x s) (\<lambda>(ok, s'). if ok then Inr (True, s') else first_success f xs s')"

lemma first_success_cong [fundef_cong]:
  "xs = ys \<Longrightarrow> s = t \<Longrightarrow> (\<And>x s. x \<in> set ys \<Longrightarrow> f x s = g x s) \<Longrightarrow>
   first_success f xs s = first_success g ys t"
  by (induction ys arbitrary: xs s t) (auto simp: and_then_def split: sum.split)

fun insert_before_this :: "vstate \<Rightarrow> vstate \<Rightarrow> dom \<Rightarrow> (bool \<times> dom) result" where
  "insert_before_this child (SText n s) d = node_insert_before n child d"
| "insert_before_this child (SPlace n) d = node_insert_before n child d"
| "insert_before_this child (STuple sts) d = first_success (insert_before_this child) sts d"
| "insert_before_this child (SArray sts) d = first_success (insert_before_this child) sts d"
| "insert_before_this child (SVec sts m) d =
     and_then (first_success (insert_before_this child) sts d)
       (\<lambda>(ok, d'). if ok then Inr (True, d') else node_insert_before m child d')"
| "insert_before_this child (SStaticVec sts m) d =
     and_then (first_success (insert_before_this child) sts d)
       (\<lambda>(ok, d'). if ok then Inr (True, d') else node_insert_before m child d')"
| "insert_before_this child (SEither i st) d = insert_before_this child st d"
| "insert_before_this child (SResult ok st e h) d = insert_before_this child st d"
| "insert_before_this child (SAny t st ph) d =
     and_then (insert_before_this child st d) (\<lambda>(ok, d'). if ok then Inr (True, d')
       else (case ph of None \<Rightarrow> Inr (False, d') | Some n \<Rightarrow> node_insert_before n child d'))"
| "insert_before_this child (SKeep a b show_b) d =
     (if show_b then (case b of None \<Rightarrow> Inl Panic | Some st \<Rightarrow> insert_before_this child st d)
      else (case a of None \<Rightarrow> Inl Panic | Some st \<Rightarrow> insert_before_this child st d))"
| "insert_before_this child (SElem el as ch) d = node_insert_before el child d"

text \<open>\<open>Rndr::try_mount_before\<close> and \<open>Rndr::mount_before\<close>.\<close>

definition try_mount_before :: "vstate \<Rightarrow> nat \<Rightarrow> dom \<Rightarrow> dom result" where
  "try_mount_before st m d = (case parent_element d m of
     Some p \<Rightarrow> mount p (Some m) st d
   | None \<Rightarrow> Inr d)"

definition mount_before :: "vstate \<Rightarrow> nat \<Rightarrow> dom \<Rightarrow> dom result" where
  "mount_before st m d = (case parent_element d m of
     Some p \<Rightarrow> mount p (Some m) st d
   | None \<Rightarrow> Inl Panic)"

text \<open>Dropping a state clears the errors it holds, with the hook that is set at that time.\<close>

fun held_errors :: "vstate \<Rightarrow> nat option list" where
  "held_errors (SText n s) = []"
| "held_errors (SPlace n) = []"
| "held_errors (STuple sts) = concat (map held_errors sts)"
| "held_errors (SArray sts) = concat (map held_errors sts)"
| "held_errors (SVec sts m) = concat (map held_errors sts)"
| "held_errors (SStaticVec sts m) = concat (map held_errors sts)"
| "held_errors (SEither i st) = held_errors st"
| "held_errors (SResult ok st e h) = (if ok then [] else [e]) @ held_errors st"
| "held_errors (SAny t st ph) = held_errors st"
| "held_errors (SKeep a b show_b) =
     (case a of None \<Rightarrow> [] | Some st \<Rightarrow> held_errors st) @ (case b of None \<Rightarrow> [] | Some st \<Rightarrow> held_errors st)"
| "held_errors (SElem el as ch) = (case ch of None \<Rightarrow> [] | Some st \<Rightarrow> held_errors st)"

definition on_errors :: "(errs \<Rightarrow> errs) \<Rightarrow> dom \<Rightarrow> dom" where
  "on_errors f d = d\<lparr>errors := f (errors d)\<rparr>"

definition drop_state :: "vstate \<Rightarrow> dom \<Rightarrow> dom" where
  "drop_state st = on_errors (fold clear_error (held_errors st))"

subsection \<open>Building\<close>

definition text_build :: "string \<Rightarrow> dom \<Rightarrow> (vstate \<times> dom) result" where
  "text_build s d = (case create_text_node s d of (n, d') \<Rightarrow> Inr (SText n s, d'))"

definition vec_build :: "(dom \<Rightarrow> (vstate list \<times> dom) result) \<Rightarrow> dom \<Rightarrow> ((vstate list \<times> nat) \<times> dom) result" where
  "vec_build items d = (case create_placeholder d of (m, d1) \<Rightarrow>
     and_then (items d1) (\<lambda>(sts, d2). Inr ((sts, m), d2)))"

definition err_build :: "string \<Rightarrow> dom \<Rightarrow> (vstate \<times> dom) result" where
  "err_build e d = (case create_placeholder d of (n, d1) \<Rightarrow>
     case throw_error e (errors d1) of (i, s) \<Rightarrow>
       Inr (SResult False (SPlace n) i (hook (errors d)), d1\<lparr>errors := s\<rparr>))"

definition any_build :: "vty \<Rightarrow> bool \<Rightarrow> (dom \<Rightarrow> (vstate \<times> dom) result) \<Rightarrow> dom \<Rightarrow> (vstate \<times> dom) result" where
  "any_build t ex b d = and_then (b d) (\<lambda>(st, d1).
     if ex then Inr (SAny t st None, d1)
     else (case create_placeholder d1 of (n, d2) \<Rightarrow> Inr (SAny t st (Some n), d2)))"

definition option_state :: "('a \<Rightarrow> 's \<Rightarrow> ('b \<times> 's) result) \<Rightarrow> 'a option \<Rightarrow> 's \<Rightarrow> ('b option \<times> 's) result" where
  "option_state f x s = (case x of
     None \<Rightarrow> Inr (None, s)
   | Some y \<Rightarrow> and_then (f y s) (\<lambda>(z, s'). Inr (Some z, s')))"

definition element_build ::
  "etype \<Rightarrow> string \<Rightarrow> attr list \<Rightarrow> (dom \<Rightarrow> (vstate \<times> dom) result) \<Rightarrow> dom \<Rightarrow> (vstate \<times> dom) result" where
  "element_build et tag as b d =
     (case create_element tag d of (el, d1) \<Rightarrow> case attrs_build el as d1 of (sas, d2) \<Rightarrow>
        if SELF_CLOSING et then Inr (SElem el sas None, d2)
        else and_then (b d2) (\<lambda>(st, d3).
               and_then (mount el None st d3) (\<lambda>d4. Inr (SElem el sas (Some st), d4))))"

lemma vec_build_cong [fundef_cong]:
  assumes "d = d'" "\<And>x. items x = items' x"
  shows "vec_build items d = vec_build items' d'"
proof -
  have "items = items'" using assms(2) by (intro ext)
  then show ?thesis using assms by simp
qed

lemma any_build_cong [fundef_cong]:
  assumes "t = t'" "ex = ex'" "d = d'" "\<And>x. b x = b' x"
  shows "any_build t ex b d = any_build t' ex' b' d'"
proof -
  have "b = b'" using assms(4) by (intro ext)
  then show ?thesis using assms by simp
qed

lemma element_build_cong [fundef_cong]:
  assumes "et = et'" "tag = tag'" "as = as'" "d = d'" "\<And>x. b x = b' x"
  shows "element_build et tag as b d = element_build et' tag' as' b' d'"
proof -
  have "b = b'" using assms(5) by (intro ext)
  then show ?thesis using assms by simp
qed

lemma option_state_cong [fundef_cong]:
  "x = y \<Longrightarrow> s = t \<Longrightarrow> (\<And>z u. y = Some z \<Longrightarrow> f z u = g z u) \<Longrightarrow> option_state f x s = option_state g y t"
  by (simp add: option_state_def split: option.split)

fun build :: "view \<Rightarrow> dom \<Rightarrow> (vstate \<times> dom) result" where
  "build (VText s) d = text_build s d"
| "build (VPrim e s) d = text_build s d"
| "build VUnit d = (case create_placeholder d of (n, d') \<Rightarrow> Inr (SPlace n, d'))"
| "build (VTuple vs) d = and_then (map_state build vs d) (\<lambda>(sts, d'). Inr (STuple sts, d'))"
| "build (VArray vs) d = and_then (map_state build vs d) (\<lambda>(sts, d'). Inr (SArray sts, d'))"
| "build (VVec vs) d = and_then (vec_build (map_state build vs) d) (\<lambda>((sts, m), d'). Inr (SVec sts m, d'))"
| "build (VStaticVec vs) d =
     and_then (vec_build (map_state build vs) d) (\<lambda>((sts, m), d'). Inr (SStaticVec sts m, d'))"
| "build (VEither n i v) d = and_then (build v d) (\<lambda>(st, d'). Inr (SEither i st, d'))"
| "build (VOk v) d = and_then (build v d) (\<lambda>(st, d'). Inr (SResult True st None (hook (errors d)), d'))"
| "build (VErr e) d = err_build e d"
| "build (VAny t v) d = any_build t (exists_view v) (build v) d"
| "build (VKeep a b show_b) d =
     and_then (option_state build a d) (\<lambda>(sa, d1).
     and_then (option_state build b d1) (\<lambda>(sb, d2). Inr (SKeep sa sb show_b, d2)))"
| "build (VElem et tag as v) d = element_build et tag as (build v) d"

subsection \<open>Rebuilding\<close>

text \<open>
  What the branching views do when the alternative changes: the new state is mounted before the old
  one, which is unmounted.
\<close>

definition replace_state :: "vstate \<Rightarrow> vstate \<Rightarrow> dom \<Rightarrow> dom result" where
  "replace_state new old d = and_then (insert_before_this new old d) (\<lambda>(ok, d1). unmount_state old d1)"

definition text_rebuild :: "string \<Rightarrow> vstate \<Rightarrow> dom \<Rightarrow> (vstate \<times> dom) result" where
  "text_rebuild s state d = (case state of
     SText n old \<Rightarrow> Inr (SText n s, if s \<noteq> old then set_text n s d else d)
   | _ \<Rightarrow> Inl Panic)"

text \<open>Values that are printed: the text and the remembered value change if the value has changed.\<close>

definition prim_rebuild :: "string \<Rightarrow> vstate \<Rightarrow> dom \<Rightarrow> (vstate \<times> dom) result" where
  "prim_rebuild s state d = (case state of
     SText n old \<Rightarrow> if prim_changed s old then Inr (SText n s, set_text n s d) else Inr (SText n old, d)
   | _ \<Rightarrow> Inl Panic)"

text \<open>
  The unkeyed difference of vectors. \<open>mb\<close> mounts a state before the marker; \<open>rb\<close> rebuilds one
  item. \<open>zip_longest\<close> has the items that are in both lists first.
\<close>

definition build_and_mount ::
  "(vstate \<Rightarrow> nat \<Rightarrow> dom \<Rightarrow> dom result) \<Rightarrow> nat \<Rightarrow> view \<Rightarrow> dom \<Rightarrow> (vstate \<times> dom) result" where
  "build_and_mount mb m v d =
     and_then (build v d) (\<lambda>(st, d1). and_then (mb st m d1) (\<lambda>d2. Inr (st, d2)))"

definition vec_rebuild ::
  "(vstate \<Rightarrow> nat \<Rightarrow> dom \<Rightarrow> dom result) \<Rightarrow> (view \<times> vstate \<Rightarrow> dom \<Rightarrow> (vstate \<times> dom) result) \<Rightarrow>
   view list \<Rightarrow> vstate list \<Rightarrow> nat \<Rightarrow> dom \<Rightarrow> (vstate list \<times> dom) result" where
  "vec_rebuild mb rb vs old m d =
     (if old = [] then
        and_then (vec_build (map_state build vs) d) (\<lambda>((new, m'), d1).
        and_then (foreach (\<lambda>st. mb st m) new d1) (\<lambda>d2. Inr (new, d2)))
      else if vs = [] then
        and_then (foreach unmount_state old d) (\<lambda>d1. Inr ([], fold drop_state old d1))
      else
        and_then (map_state rb (zip vs old) d) (\<lambda>(kept, d1).
        and_then (map_state (build_and_mount mb m) (drop (length old) vs) d1) (\<lambda>(adds, d2).
        and_then (foreach unmount_state (drop (length vs) old) d2) (\<lambda>d3.
          Inr (kept @ adds, fold drop_state (drop (length vs) old) d3)))))"

definition either_rebuild ::
  "nat \<Rightarrow> (dom \<Rightarrow> (vstate \<times> dom) result) \<Rightarrow> (vstate \<Rightarrow> dom \<Rightarrow> (vstate \<times> dom) result) \<Rightarrow>
   vstate \<Rightarrow> dom \<Rightarrow> (vstate \<times> dom) result" where
  "either_rebuild i b rb state d = (case state of
     SEither j st \<Rightarrow>
       (if i = j then and_then (rb st d) (\<lambda>(st', d'). Inr (SEither i st', d'))
        else and_then (b d) (\<lambda>(new, d1).
             and_then (replace_state new st d1) (\<lambda>d2. Inr (SEither i new, drop_state st d2))))
   | _ \<Rightarrow> Inl Panic)"

text \<open>The guard that sets the hook of a \<^verbatim>\<open>ResultState\<close> for the time of its rebuild.\<close>

definition with_hook :: "nat option \<Rightarrow> (dom \<Rightarrow> (vstate \<times> dom) result) \<Rightarrow> dom \<Rightarrow> (vstate \<times> dom) result" where
  "with_hook h f d =
     and_then (f (on_errors (\<lambda>s. if h = None then s else s\<lparr>hook := h\<rparr>) d))
       (\<lambda>(st, d'). Inr (st, if h = None then d' else on_errors (\<lambda>s. s\<lparr>hook := hook (errors d)\<rparr>) d'))"

definition ok_rebuild ::
  "(dom \<Rightarrow> (vstate \<times> dom) result) \<Rightarrow> (vstate \<Rightarrow> dom \<Rightarrow> (vstate \<times> dom) result) \<Rightarrow>
   vstate \<Rightarrow> dom \<Rightarrow> (vstate \<times> dom) result" where
  "ok_rebuild b rb state d = (case state of
     SResult ok st e h \<Rightarrow> with_hook h (\<lambda>d0.
       if ok then and_then (rb st d0) (\<lambda>(st', d1). Inr (SResult True st' None h, d1))
       else and_then (b (on_errors (clear_error e) d0)) (\<lambda>(new, d1).
            and_then (replace_state new st d1) (\<lambda>d2. Inr (SResult True new None h, drop_state st d2)))) d
   | _ \<Rightarrow> Inl Panic)"

definition err_rebuild :: "string \<Rightarrow> vstate \<Rightarrow> dom \<Rightarrow> (vstate \<times> dom) result" where
  "err_rebuild err state d = (case state of
     SResult ok st e h \<Rightarrow> with_hook h (\<lambda>d0.
       if ok then
         (case create_placeholder d0 of (n, d1) \<Rightarrow>
          and_then (replace_state (SPlace n) st d1) (\<lambda>d2.
            case throw_error err (errors (drop_state st d2)) of (i, s) \<Rightarrow>
              Inr (SResult False (SPlace n) i h, d2\<lparr>errors := s\<rparr>)))
       else
         (case throw_error err (clear_error e (errors d0)) of (i, s) \<Rightarrow>
            Inr (SResult False st i h, d0\<lparr>errors := s\<rparr>))) d
   | _ \<Rightarrow> Inl Panic)"

definition any_rebuild ::
  "vty \<Rightarrow> (dom \<Rightarrow> (vstate \<times> dom) result) \<Rightarrow> (vstate \<Rightarrow> dom \<Rightarrow> (vstate \<times> dom) result) \<Rightarrow>
   vstate \<Rightarrow> dom \<Rightarrow> (vstate \<times> dom) result" where
  "any_rebuild t b rb state d = (case state of
     SAny t' st ph \<Rightarrow>
       (if t = t' then and_then (rb st d) (\<lambda>(st', d'). Inr (SAny t st' ph, d'))
        else and_then (b d) (\<lambda>(new, d1).
          and_then (case ph of
              Some n \<Rightarrow> and_then (node_insert_before n new d1) (\<lambda>(ok, d2). Inr (remove_node n d2))
            | None \<Rightarrow> and_then (insert_before_this new state d1) (\<lambda>(ok, d2). Inr d2)) (\<lambda>d2.
          and_then (unmount_state state d2) (\<lambda>d3. Inr (new, drop_state state d3)))))
   | _ \<Rightarrow> Inl Panic)"

text \<open>\<^verbatim>\<open>None\<close> in the new view of an \<^verbatim>\<open>EitherKeepAlive\<close> means no change.\<close>

definition keep_side ::
  "(view \<Rightarrow> vstate \<Rightarrow> dom \<Rightarrow> (vstate \<times> dom) result) \<Rightarrow> view option \<Rightarrow> vstate option \<Rightarrow> dom \<Rightarrow>
   (vstate option \<times> dom) result" where
  "keep_side rb x sx d = (case x of
     None \<Rightarrow> Inr (sx, d)
   | Some v \<Rightarrow> (case sx of
       Some st \<Rightarrow> and_then (rb v st d) (\<lambda>(st', d'). Inr (Some st', d'))
     | None \<Rightarrow> and_then (build v d) (\<lambda>(st', d'). Inr (Some st', d'))))"

definition keep_rebuild ::
  "(view \<Rightarrow> vstate \<Rightarrow> dom \<Rightarrow> (vstate \<times> dom) result) \<Rightarrow> view option \<Rightarrow> view option \<Rightarrow> bool \<Rightarrow>
   vstate \<Rightarrow> dom \<Rightarrow> (vstate \<times> dom) result" where
  "keep_rebuild rb a b show_b state d = (case state of
     SKeep sa sb showing_b \<Rightarrow>
       and_then (keep_side rb a sa d) (\<lambda>(sa', d1).
       and_then (keep_side rb b sb d1) (\<lambda>(sb', d2).
       and_then (if show_b = showing_b then Inr d2
         else (case (sa', sb') of
             (Some x, Some y) \<Rightarrow> if show_b then replace_state y x d2 else replace_state x y d2
           | _ \<Rightarrow> Inl Panic)) (\<lambda>d3. Inr (SKeep sa' sb' show_b, d3))))
   | _ \<Rightarrow> Inl Panic)"

text \<open>\<open>tg\<close> is the DOM property \<^verbatim>\<open>tagName\<close> of an element that was created with a given tag.\<close>

definition tag_differs :: "(string \<Rightarrow> string) \<Rightarrow> dom \<Rightarrow> nat \<Rightarrow> string \<Rightarrow> bool" where
  "tag_differs tg d el tag = (case content d el of Some (NElem t as) \<Rightarrow> tg t \<noteq> tag | _ \<Rightarrow> False)"

definition element_rebuild ::
  "(string \<Rightarrow> string) \<Rightarrow> etype \<Rightarrow> string \<Rightarrow> attr list \<Rightarrow> (dom \<Rightarrow> (vstate \<times> dom) result) \<Rightarrow>
   (vstate \<Rightarrow> dom \<Rightarrow> (vstate \<times> dom) result) \<Rightarrow> vstate \<Rightarrow> dom \<Rightarrow> (vstate \<times> dom) result" where
  "element_rebuild tg et tag as b rb state d = (case state of
     SElem el sas ch \<Rightarrow>
       (if TAG et = [] \<and> tag_differs tg d el tag then
          and_then (b d) (\<lambda>(new, d1).
            and_then (replace_state new state d1) (\<lambda>d2. Inr (new, drop_state state d2)))
        else
          and_then (attrs_rebuild as sas d) (\<lambda>(sas', d1).
            case ch of
              None \<Rightarrow> Inr (SElem el sas' None, d1)
            | Some st \<Rightarrow> and_then (rb st d1) (\<lambda>(st', d2). Inr (SElem el sas' (Some st'), d2))))
   | _ \<Rightarrow> Inl Panic)"

lemma vec_rebuild_cong [fundef_cong]:
  "mb = mb' \<Longrightarrow> vs = vs' \<Longrightarrow> old = old' \<Longrightarrow> m = m' \<Longrightarrow> d = d' \<Longrightarrow>
   (\<And>x s. x \<in> set (zip vs' old') \<Longrightarrow> rb x s = rb' x s) \<Longrightarrow>
   vec_rebuild mb rb vs old m d = vec_rebuild mb' rb' vs' old' m' d'"
  unfolding vec_rebuild_def by (auto intro!: and_then_cong map_state_cong)

lemma either_rebuild_cong [fundef_cong]:
  assumes "i = i'" "b = b'" "st = st'" "d = d'" "\<And>x y. rb x y = rb' x y"
  shows "either_rebuild i b rb st d = either_rebuild i' b' rb' st' d'"
proof -
  have "rb = rb'" using assms(5) by (intro ext)
  then show ?thesis using assms by simp
qed

lemma ok_rebuild_cong [fundef_cong]:
  assumes "b = b'" "st = st'" "d = d'" "\<And>x y. rb x y = rb' x y"
  shows "ok_rebuild b rb st d = ok_rebuild b' rb' st' d'"
proof -
  have "rb = rb'" using assms(4) by (intro ext)
  then show ?thesis using assms by simp
qed

lemma any_rebuild_cong [fundef_cong]:
  assumes "t = t'" "b = b'" "st = st'" "d = d'" "\<And>x y. rb x y = rb' x y"
  shows "any_rebuild t b rb st d = any_rebuild t' b' rb' st' d'"
proof -
  have "rb = rb'" using assms(5) by (intro ext)
  then show ?thesis using assms by simp
qed

lemma element_rebuild_cong [fundef_cong]:
  assumes "tg = tg'" "et = et'" "tag = tag'" "as = as'" "b = b'" "st = st'" "d = d'" "\<And>x y. rb x y = rb' x y"
  shows "element_rebuild tg et tag as b rb st d = element_rebuild tg' et' tag' as' b' rb' st' d'"
proof -
  have "rb = rb'" using assms(8) by (intro ext)
  then show ?thesis using assms by simp
qed

lemma keep_rebuild_cong [fundef_cong]:
  assumes "a = a'" "b = b'" "s = s'" "st = st'" "d = d'"
    and rb: "\<And>v x y. a' = Some v \<or> b' = Some v \<Longrightarrow> rb v x y = rb' v x y"
  shows "keep_rebuild rb a b s st d = keep_rebuild rb' a' b' s' st' d'"
proof -
  have sides: "keep_side rb a = keep_side rb' a'" "keep_side rb b = keep_side rb' b'"
    using assms by (auto simp: keep_side_def intro!: ext split: option.split)
  show ?thesis unfolding keep_rebuild_def assms(3-5) sides ..
qed

lemma zip_size [termination_simp]:
  "(v, st) \<in> set (zip vs sts) \<Longrightarrow> size v < Suc (size_list size vs)"
  by (auto dest!: set_zip_leftD intro: le_imp_less_Suc size_list_estimation')

text \<open>
  A state of another type than the view is excluded by the types of the program; here it is a
  failure.
\<close>

definition tuple_rebuild ::
  "(view \<times> vstate \<Rightarrow> dom \<Rightarrow> (vstate \<times> dom) result) \<Rightarrow> view list \<Rightarrow> vstate list \<Rightarrow> dom \<Rightarrow>
   (vstate list \<times> dom) result" where
  "tuple_rebuild rb vs sts d = (if length vs = length sts then map_state rb (zip vs sts) d else Inl Panic)"

lemma tuple_rebuild_cong [fundef_cong]:
  "vs = vs' \<Longrightarrow> sts = sts' \<Longrightarrow> d = d' \<Longrightarrow> (\<And>x s. x \<in> set (zip vs' sts') \<Longrightarrow> rb x s = rb' x s) \<Longrightarrow>
   tuple_rebuild rb vs sts d = tuple_rebuild rb' vs' sts' d'"
  unfolding tuple_rebuild_def by (auto intro!: map_state_cong)

fun rebuild :: "(string \<Rightarrow> string) \<Rightarrow> view \<Rightarrow> vstate \<Rightarrow> dom \<Rightarrow> (vstate \<times> dom) result" where
  "rebuild tg (VText s) state d = text_rebuild s state d"
| "rebuild tg (VPrim e s) state d = prim_rebuild s state d"
| "rebuild tg VUnit state d = (case state of SPlace n \<Rightarrow> Inr (state, d) | _ \<Rightarrow> Inl Panic)"
| "rebuild tg (VTuple vs) state d = (case state of
     STuple sts \<Rightarrow> and_then (tuple_rebuild (\<lambda>(v, st). rebuild tg v st) vs sts d) (\<lambda>(sts', d'). Inr (STuple sts', d'))
   | _ \<Rightarrow> Inl Panic)"
| "rebuild tg (VArray vs) state d = (case state of
     SArray sts \<Rightarrow> and_then (tuple_rebuild (\<lambda>(v, st). rebuild tg v st) vs sts d) (\<lambda>(sts', d'). Inr (SArray sts', d'))
   | _ \<Rightarrow> Inl Panic)"
| "rebuild tg (VVec vs) state d = (case state of
     SVec sts m \<Rightarrow> and_then (vec_rebuild try_mount_before (\<lambda>(v, st). rebuild tg v st) vs sts m d)
       (\<lambda>(sts', d'). Inr (SVec sts' m, d'))
   | _ \<Rightarrow> Inl Panic)"
| "rebuild tg (VStaticVec vs) state d = (case state of
     SStaticVec sts m \<Rightarrow> and_then (vec_rebuild mount_before (\<lambda>(v, st). rebuild tg v st) vs sts m d)
       (\<lambda>(sts', d'). Inr (SStaticVec sts' m, d'))
   | _ \<Rightarrow> Inl Panic)"
| "rebuild tg (VEither n i v) state d = either_rebuild i (build v) (rebuild tg v) state d"
| "rebuild tg (VOk v) state d = ok_rebuild (build v) (rebuild tg v) state d"
| "rebuild tg (VErr err) state d = err_rebuild err state d"
| "rebuild tg (VAny t v) state d = any_rebuild t (build (VAny t v)) (rebuild tg v) state d"
| "rebuild tg (VKeep a b show_b) state d = keep_rebuild (rebuild tg) a b show_b state d"
| "rebuild tg (VElem et tag as v) state d =
     element_rebuild tg et tag as (build (VElem et tag as v)) (rebuild tg v) state d"

subsection \<open>Hydrating\<close>

text \<open>
  The cursor, the position and the document. \<open>mb\<close> is the feature \<^verbatim>\<open>mark_branches\<close> of the client,
  \<open>fs\<close> the constant \<^verbatim>\<open>FROM_SERVER\<close>. The comments of the hot-reload server, which a debug build
  skips, are not modelled.
\<close>

record hyd =
  cursor :: nat
  at :: position
  doc :: dom

definition is_branch :: "dom \<Rightarrow> nat \<Rightarrow> bool" where
  "is_branch d n = (case content d n of
     Some (NComment s) \<Rightarrow> take 2 s = ''bo'' \<or> take 2 s = ''bc''
   | _ \<Rightarrow> False)"

text \<open>The siblings after a node.\<close>

definition following :: "dom \<Rightarrow> nat \<Rightarrow> nat list" where
  "following d n = (case parent d n of
     None \<Rightarrow> []
   | Some p \<Rightarrow> tl (dropWhile (\<lambda>m. m \<noteq> n) (kids d p)))"

fun skip_branches :: "dom \<Rightarrow> nat \<Rightarrow> nat list \<Rightarrow> nat" where
  "skip_branches d n [] = n"
| "skip_branches d n (m # ms) = (if is_branch d n then skip_branches d m ms else n)"

definition settle :: "bool \<Rightarrow> dom \<Rightarrow> nat \<Rightarrow> nat" where
  "settle mb d n = (if mb then skip_branches d n (following d n) else n)"

definition cursor_child :: "bool \<Rightarrow> hyd \<Rightarrow> hyd" where
  "cursor_child mb h = h\<lparr>cursor := settle mb (doc h)
     (case first_child (doc h) (cursor h) of None \<Rightarrow> cursor h | Some n \<Rightarrow> n)\<rparr>"

definition cursor_sibling :: "bool \<Rightarrow> hyd \<Rightarrow> hyd" where
  "cursor_sibling mb h = h\<lparr>cursor := settle mb (doc h)
     (case next_sibling (doc h) (cursor h) of None \<Rightarrow> cursor h | Some n \<Rightarrow> n)\<rparr>"

definition advance_to_placeholder :: "bool \<Rightarrow> hyd \<Rightarrow> hyd" where
  "advance_to_placeholder mb h =
     (if at h = FirstChild then cursor_child mb h else cursor_sibling mb h)\<lparr>at := NextChild\<rparr>"

definition next_placeholder :: "bool \<Rightarrow> hyd \<Rightarrow> (nat \<times> hyd) result" where
  "next_placeholder mb h = (let h' = advance_to_placeholder mb h in
     if is_comment (doc h') (cursor h') then Inr (cursor h', h') else Inl Panic)"

definition close_branch_marker :: "bool \<Rightarrow> hyd \<Rightarrow> hyd" where
  "close_branch_marker mb h = (if mb \<and> at h = NextChildAfterText then h\<lparr>at := NextChild\<rparr> else h)"

definition text_hydrate :: "bool \<Rightarrow> bool \<Rightarrow> string \<Rightarrow> hyd \<Rightarrow> (vstate \<times> hyd) result" where
  "text_hydrate mb fs s h =
     (let h1 = (if at h = FirstChild then cursor_child mb h else cursor_sibling mb h);
          h2 = (if at h = NextChildAfterText then cursor_sibling mb h1 else h1) in
      if is_text (doc h2) (cursor h2) then
        Inr (SText (cursor h2) s,
          h2\<lparr>at := NextChildAfterText, doc := (if fs then doc h2 else set_text (cursor h2) s (doc h2))\<rparr>)
      else Inl Panic)"

definition unit_hydrate :: "bool \<Rightarrow> hyd \<Rightarrow> (vstate \<times> hyd) result" where
  "unit_hydrate mb h = and_then (next_placeholder mb h) (\<lambda>(n, h'). Inr (SPlace n, h'\<lparr>at := NextChild\<rparr>))"

definition vec_hydrate ::
  "bool \<Rightarrow> (hyd \<Rightarrow> (vstate list \<times> hyd) result) \<Rightarrow> hyd \<Rightarrow> ((vstate list \<times> nat) \<times> hyd) result" where
  "vec_hydrate mb items h =
     and_then (items h) (\<lambda>(sts, h1).
     and_then (next_placeholder mb h1) (\<lambda>(m, h2). Inr ((sts, m), h2\<lparr>at := NextChild\<rparr>)))"

definition err_hydrate :: "bool \<Rightarrow> string \<Rightarrow> hyd \<Rightarrow> (vstate \<times> hyd) result" where
  "err_hydrate mb e h =
     and_then (unit_hydrate mb h) (\<lambda>(st, h1).
       case throw_error e (errors (doc h1)) of (i, s) \<Rightarrow>
         Inr (SResult False st i (hook (errors (doc h))), h1\<lparr>doc := (doc h1)\<lparr>errors := s\<rparr>\<rparr>))"

definition any_hydrate ::
  "bool \<Rightarrow> bool \<Rightarrow> vty \<Rightarrow> bool \<Rightarrow> (hyd \<Rightarrow> (vstate \<times> hyd) result) \<Rightarrow> hyd \<Rightarrow> (vstate \<times> hyd) result" where
  "any_hydrate mb fs t ex hy h =
     (if fs then
        and_then (hy h) (\<lambda>(st, h1).
          if ex then Inr (SAny t st None, close_branch_marker mb h1)
          else and_then (next_placeholder mb h1) (\<lambda>(n, h2). Inr (SAny t st (Some n), close_branch_marker mb h2)))
      else Inl Panic)"

text \<open>A part that only needs the document.\<close>

definition on_doc :: "(dom \<Rightarrow> ('a \<times> dom) result) \<Rightarrow> hyd \<Rightarrow> ('a \<times> hyd) result" where
  "on_doc f h = and_then (f (doc h)) (\<lambda>(x, d). Inr (x, h\<lparr>doc := d\<rparr>))"

definition element_hydrate ::
  "bool \<Rightarrow> bool \<Rightarrow> etype \<Rightarrow> attr list \<Rightarrow> bool \<Rightarrow> (hyd \<Rightarrow> (vstate \<times> hyd) result) \<Rightarrow> hyd \<Rightarrow> (vstate \<times> hyd) result" where
  "element_hydrate mb fs et as ex hy h =
     (if TAG et = [] \<and> \<not> fs then Inl Panic
      else
        let h1 = (if at h = FirstChild then cursor_child mb h
                  else if at h \<noteq> Current then cursor_sibling mb h else h) in
        if \<not> is_elem (doc h1) (cursor h1) then Inl Panic
        else case attrs_hydrate fs (cursor h1) as (doc h1) of (sas, d) \<Rightarrow>
          let el = cursor h1; h2 = h1\<lparr>doc := d\<rparr> in
          if \<not> ex \<or> \<not> HYDRATES_CHILDREN et then Inr (SElem el sas None, h2\<lparr>at := NextChild\<rparr>)
          else and_then (hy (h2\<lparr>at := FirstChild\<rparr>)) (\<lambda>(st, h3).
                 Inr (SElem el sas (Some st), h3\<lparr>cursor := el, at := NextChild\<rparr>)))"

lemma vec_hydrate_cong [fundef_cong]:
  assumes "mb = mb'" "h = h'" "\<And>x. f x = f' x"
  shows "vec_hydrate mb f h = vec_hydrate mb' f' h'"
proof -
  have "f = f'" using assms(3) by (intro ext)
  then show ?thesis using assms by simp
qed

lemma any_hydrate_cong [fundef_cong]:
  assumes "mb = mb'" "fs = fs'" "t = t'" "ex = ex'" "h = h'" "\<And>x. hy x = hy' x"
  shows "any_hydrate mb fs t ex hy h = any_hydrate mb' fs' t' ex' hy' h'"
proof -
  have "hy = hy'" using assms(6) by (intro ext)
  then show ?thesis using assms by simp
qed

lemma element_hydrate_cong [fundef_cong]:
  assumes "mb = mb'" "fs = fs'" "et = et'" "as = as'" "ex = ex'" "h = h'" "\<And>x. hy x = hy' x"
  shows "element_hydrate mb fs et as ex hy h = element_hydrate mb' fs' et' as' ex' hy' h'"
proof -
  have "hy = hy'" using assms(7) by (intro ext)
  then show ?thesis using assms by simp
qed

fun hydrate :: "bool \<Rightarrow> bool \<Rightarrow> view \<Rightarrow> hyd \<Rightarrow> (vstate \<times> hyd) result" where
  "hydrate mb fs (VText s) h = text_hydrate mb fs s h"
| "hydrate mb fs (VPrim e s) h = text_hydrate mb fs s h"
| "hydrate mb fs VUnit h = unit_hydrate mb h"
| "hydrate mb fs (VTuple vs) h = and_then (map_state (hydrate mb fs) vs h) (\<lambda>(sts, h'). Inr (STuple sts, h'))"
| "hydrate mb fs (VArray vs) h = and_then (map_state (hydrate mb fs) vs h) (\<lambda>(sts, h'). Inr (SArray sts, h'))"
| "hydrate mb fs (VVec vs) h =
     and_then (vec_hydrate mb (map_state (hydrate mb fs) vs) h) (\<lambda>((sts, m), h'). Inr (SVec sts m, h'))"
| "hydrate mb fs (VStaticVec vs) h =
     and_then (vec_hydrate mb (map_state (hydrate mb fs) vs) h) (\<lambda>((sts, m), h'). Inr (SStaticVec sts m, h'))"
| "hydrate mb fs (VEither n i v) h =
     and_then (hydrate mb fs v h) (\<lambda>(st, h'). Inr (SEither i st, close_branch_marker mb h'))"
| "hydrate mb fs (VOk v) h =
     and_then (hydrate mb fs v h) (\<lambda>(st, h'). Inr (SResult True st None (hook (errors (doc h))), h'))"
| "hydrate mb fs (VErr e) h = err_hydrate mb e h"
| "hydrate mb fs (VAny t v) h = any_hydrate mb fs t (exists_view v) (hydrate mb fs v) h"
| "hydrate mb fs (VKeep a b show_b) h =
     and_then (option_state (\<lambda>v. if show_b then on_doc (build v) else hydrate mb fs v) a h) (\<lambda>(sa, h1).
     and_then (option_state (\<lambda>v. if show_b then hydrate mb fs v else on_doc (build v)) b h1) (\<lambda>(sb, h2).
     Inr (SKeep sa sb show_b, h2)))"
| "hydrate mb fs (VElem et tag as v) h = element_hydrate mb fs et as (exists_view v) (hydrate mb fs v) h"

definition hydrate_from :: "bool \<Rightarrow> bool \<Rightarrow> view \<Rightarrow> nat \<Rightarrow> dom \<Rightarrow> (vstate \<times> dom) result" where
  "hydrate_from mb fs v el d =
     and_then (hydrate mb fs v \<lparr>cursor = el, at = FirstChild, doc = d\<rparr>) (\<lambda>(st, h). Inr (st, doc h))"

text \<open>Where an application starts: it is built and mounted at the end of an element.\<close>

definition mount_to :: "nat \<Rightarrow> view \<Rightarrow> dom \<Rightarrow> (vstate \<times> dom) result" where
  "mount_to p v d =
     and_then (build v d) (\<lambda>(st, d1). and_then (mount p None st d1) (\<lambda>d2. Inr (st, d2)))"

end
