(* ===== verification/View_Attrs_Correct.thy ===== *)
theory View_Attrs_Correct
  imports View_Html
begin

text \<open>
  Attributes of elements: the attributes of the element agree with the states that are kept for
  them, and building and rebuilding keep it so, if no two attributes write the same thing.
\<close>

subsection \<open>Typed attributes\<close>

fun has_avty :: "avty \<Rightarrow> aval \<Rightarrow> bool" where
  "has_avty AtUnit v = (v = AUnit)"
| "has_avty AtStr v = (case v of AStr s \<Rightarrow> True | _ \<Rightarrow> False)"
| "has_avty AtPrim v = (case v of APrim s \<Rightarrow> True | _ \<Rightarrow> False)"
| "has_avty AtBool v = (case v of ABool b \<Rightarrow> True | _ \<Rightarrow> False)"
| "has_avty (AtOpt t) v = (case v of AOpt None \<Rightarrow> True | AOpt (Some w) \<Rightarrow> has_avty t w | _ \<Rightarrow> False)"

fun has_clsty :: "clsty \<Rightarrow> cls \<Rightarrow> bool" where
  "has_clsty CtStr c = (case c of CStr s \<Rightarrow> True | _ \<Rightarrow> False)"
| "has_clsty (CtToggle n) c = (case c of CToggle m b \<Rightarrow> n = m | _ \<Rightarrow> False)"
| "has_clsty (CtOpt t) c = (case c of COpt None \<Rightarrow> True | COpt (Some e) \<Rightarrow> has_clsty t e | _ \<Rightarrow> False)"

fun has_aty :: "aty \<Rightarrow> attr \<Rightarrow> bool" where
  "has_aty (TAttr k t) a = (case a of Attr k' v \<Rightarrow> k = k' \<and> has_avty t v | _ \<Rightarrow> False)"
| "has_aty (TClass t) a = (case a of Class c \<Rightarrow> has_clsty t c | _ \<Rightarrow> False)"

text \<open>The classes that a class attribute toggles, or the whole class attribute.\<close>

fun toggles :: "clsty \<Rightarrow> string option" where
  "toggles CtStr = None"
| "toggles (CtToggle n) = Some n"
| "toggles (CtOpt t) = toggles t"

definition is_token :: "string \<Rightarrow> bool" where
  "is_token t \<longleftrightarrow> t \<noteq> [] \<and> (\<forall>c\<in>set t. \<not> is_space c)"

text \<open>
  What an attribute writes. Two attributes of one element must not write the same: no name twice,
  no class twice, and a class string excludes every other class.
\<close>

datatype facet = WholeClass | OneClass string | Named string

fun facet_of :: "aty \<Rightarrow> facet" where
  "facet_of (TAttr k t) = Named k"
| "facet_of (TClass t) = (case toggles t of None \<Rightarrow> WholeClass | Some n \<Rightarrow> OneClass n)"

fun clash :: "facet \<Rightarrow> facet \<Rightarrow> bool" where
  "clash WholeClass f = (case f of Named k \<Rightarrow> k = ''class'' | _ \<Rightarrow> True)"
| "clash (OneClass n) f = (case f of Named k \<Rightarrow> k = ''class'' | WholeClass \<Rightarrow> True | OneClass m \<Rightarrow> n = m)"
| "clash (Named k) f = (case f of Named k' \<Rightarrow> k = k' | _ \<Rightarrow> k = ''class'')"

fun no_clash :: "aty list \<Rightarrow> bool" where
  "no_clash [] = True"
| "no_clash (t # ts) = ((\<forall>u\<in>set ts. \<not> clash (facet_of t) (facet_of u)) \<and> no_clash ts)"

definition attrs_typed :: "aty list \<Rightarrow> bool" where
  "attrs_typed ts \<longleftrightarrow> no_clash ts \<and> (\<forall>t n. TClass t \<in> set ts \<longrightarrow> toggles t = Some n \<longrightarrow> is_token n)"

subsection \<open>Agreement\<close>

definition classes :: "(string \<times> string) list \<Rightarrow> string list" where
  "classes as = (case map_of as ''class'' of None \<Rightarrow> [] | Some v \<Rightarrow> class_tokens v)"

fun value_ok :: "string \<Rightarrow> nat \<Rightarrow> (string \<times> string) list \<Rightarrow> avty \<Rightarrow> astate \<Rightarrow> bool" where
  "value_ok k el as AtUnit st = (st = SUnit)"
| "value_ok k el as AtStr st = (\<exists>v. st = SStr el v \<and> map_of as k = Some v)"
| "value_ok k el as AtPrim st = (\<exists>v w. st = SStr el v \<and> map_of as k = Some w \<and> prim_same v w)"
| "value_ok k el as AtBool st = (st = SBool el (map_of as k \<noteq> None) \<and> (map_of as k = None \<or> map_of as k = Some []))"
| "value_ok k el as (AtOpt t) st =
     ((st = SOpt el None \<and> map_of as k = None) \<or> (\<exists>u. st = SOpt el (Some u) \<and> value_ok k el as t u))"

fun cls_ok :: "nat \<Rightarrow> (string \<times> string) list \<Rightarrow> clsty \<Rightarrow> cstate \<Rightarrow> bool" where
  "cls_ok el as CtStr st = (\<exists>c. st = SCStr el c \<and> classes as = class_tokens c)"
| "cls_ok el as (CtToggle n) st = (\<exists>b. st = SCToggle el b n \<and> (n \<in> set (classes as) \<longleftrightarrow> b))"
| "cls_ok el as (CtOpt t) st =
     ((st = SCOpt el None \<and> (case toggles t of None \<Rightarrow> classes as = [] | Some n \<Rightarrow> n \<notin> set (classes as))) \<or>
      (\<exists>u. st = SCOpt el (Some u) \<and> cls_ok el as t u))"

fun attr_ok :: "nat \<Rightarrow> (string \<times> string) list \<Rightarrow> aty \<Rightarrow> attr_state \<Rightarrow> bool" where
  "attr_ok el as (TAttr k t) st = (\<exists>u. st = SAttr u \<and> value_ok k el as t u)"
| "attr_ok el as (TClass t) st = (\<exists>u. st = SClass u \<and> cls_ok el as t u)"

definition attrs_ok :: "nat \<Rightarrow> (string \<times> string) list \<Rightarrow> aty list \<Rightarrow> attr_state list \<Rightarrow> bool" where
  "attrs_ok el as ts sts \<longleftrightarrow> list_all2 (attr_ok el as) ts sts"

text \<open>The state of an attribute holds the value it was last given.\<close>

fun value_state :: "nat \<Rightarrow> aval \<Rightarrow> astate" where
  "value_state el AUnit = SUnit"
| "value_state el (AStr v) = SStr el v"
| "value_state el (APrim v) = SStr el v"
| "value_state el (ABool b) = SBool el b"
| "value_state el (AOpt v) = SOpt el (map_option (value_state el) v)"

fun cls_state :: "nat \<Rightarrow> cls \<Rightarrow> cstate" where
  "cls_state el (CStr c) = SCStr el c"
| "cls_state el (CToggle n b) = SCToggle el b n"
| "cls_state el (COpt c) = SCOpt el (map_option (cls_state el) c)"

fun attr_state_of :: "nat \<Rightarrow> attr \<Rightarrow> attr_state" where
  "attr_state_of el (Attr k v) = SAttr (value_state el v)"
| "attr_state_of el (Class c) = SClass (cls_state el c)"

subsection \<open>The class list\<close>

lemma split_tokens_no_space:
  "\<forall>c\<in>set t. \<not> is_space c \<Longrightarrow> split_tokens acc (t @ s) = split_tokens (rev t @ acc) s"
  by (induction t arbitrary: acc) auto

lemma split_tokens_space: "is_space c \<Longrightarrow> acc \<noteq> [] \<Longrightarrow> split_tokens acc (c # s) = rev acc # split_tokens [] s"
  by simp

lemma space_is_space [simp]: "is_space (CHR '' '')"
  by (simp add: is_space_def)

lemma split_join: "\<forall>t\<in>set ts. is_token t \<Longrightarrow> split_tokens [] (join_tokens ts) = ts"
proof (induction ts rule: join_tokens.induct)
  case (2 t)
  then show ?case using split_tokens_no_space [of t "[]" "[]"] by (simp add: is_token_def)
next
  case (3 t u us)
  have "split_tokens [] (join_tokens (t # u # us)) = split_tokens (rev t) (CHR '' '' # join_tokens (u # us))"
    using 3(2) split_tokens_no_space [of t "[]" "CHR '' '' # join_tokens (u # us)"] by (simp add: is_token_def)
  also have "\<dots> = t # split_tokens [] (join_tokens (u # us))"
    using 3(2) by (subst split_tokens_space) (simp_all add: is_token_def)
  finally show ?case using 3 by simp
qed simp

lemma split_tokens_are_tokens:
  "\<forall>c\<in>set acc. \<not> is_space c \<Longrightarrow> t \<in> set (split_tokens acc s) \<Longrightarrow> is_token t"
proof (induction acc s rule: split_tokens.induct)
  case (1 acc)
  then show ?case by (auto simp: is_token_def split: if_splits)
next
  case (2 acc c cs)
  show ?case
  proof (cases "is_space c")
    case space: True
    show ?thesis
    proof (cases "acc = []")
      case True
      then show ?thesis using 2(1) [OF space True] 2(5) space by simp
    next
      case False
      then show ?thesis using 2(2) [OF space False] 2(4,5) space by (auto simp: is_token_def)
    qed
  next
    case False
    then show ?thesis using 2(3) [OF False] 2(4,5) by simp
  qed
qed

lemma class_tokens_ok: "t \<in> set (class_tokens s) \<Longrightarrow> is_token t" "distinct (class_tokens s)"
  using split_tokens_are_tokens [of "[]" t s] by (simp_all add: class_tokens_def)

lemma class_tokens_join: "distinct ts \<Longrightarrow> \<forall>t\<in>set ts. is_token t \<Longrightarrow> class_tokens (join_tokens ts) = ts"
  by (simp add: class_tokens_def split_join distinct_remdups_id)

lemma classes_ok: "t \<in> set (classes as) \<Longrightarrow> is_token t" "distinct (classes as)"
  by (auto simp: classes_def class_tokens_ok split: option.splits)

subsection \<open>One element\<close>

text \<open>Changing the attributes of one element.\<close>

definition with_attrs :: "nat \<Rightarrow> string \<Rightarrow> (string \<times> string) list \<Rightarrow> dom \<Rightarrow> dom" where
  "with_attrs el tag as d = d\<lparr>content := (content d)(el \<mapsto> NElem tag as)\<rparr>"

lemma with_attrs_simps [simp]:
  "content (with_attrs el tag as d) el = Some (NElem tag as)"
  "with_attrs el tag as (with_attrs el tag' bs d) = with_attrs el tag as d"
  by (simp_all add: with_attrs_def)

lemma with_attrs_same: "content d el = Some (NElem tag as) \<Longrightarrow> with_attrs el tag as d = d"
  by (simp add: with_attrs_def fun_upd_idem)

lemma attribute_ops:
  assumes "content d el = Some (NElem tag as)"
  shows "set_attribute el k v d = with_attrs el tag (AList.update k v as) d"
    and "remove_attribute el k d = with_attrs el tag (AList.delete k as) d"
    and "class_list d el = classes as"
    and "add_class el n d = with_attrs el tag (AList.update ''class'' (join_tokens (index_insert n (classes as))) as) d"
    and "remove_class el n d = (if map_of as ''class'' = None then d
       else with_attrs el tag (AList.update ''class'' (join_tokens (shift_remove n (classes as))) as) d)"
  using assms
  by (simp_all add: set_attribute_def remove_attribute_def class_list_def get_attribute_def classes_def
      with_attrs_def add_class_def remove_class_def)

text \<open>The attributes that an attribute of a given kind may change.\<close>

definition keeps_others :: "facet \<Rightarrow> (string \<times> string) list \<Rightarrow> (string \<times> string) list \<Rightarrow> bool" where
  "keeps_others f as bs \<longleftrightarrow>
     (\<forall>k. \<not> clash f (Named k) \<longrightarrow> map_of bs k = map_of as k) \<and>
     (\<forall>n. \<not> clash f (OneClass n) \<longrightarrow> (n \<in> set (classes bs) \<longleftrightarrow> n \<in> set (classes as))) \<and>
     (\<not> clash f WholeClass \<longrightarrow> classes bs = classes as)"

lemma keeps_others_refl [simp]: "keeps_others f as as"
  by (simp add: keeps_others_def)

lemma map_of_delete_other: "k \<noteq> k' \<Longrightarrow> map_of (AList.delete k as) k' = map_of as k'"
  by (simp add: AList.delete_conv')

lemma keeps_update_named: "keeps_others (Named k) as (AList.update k v as)"
  by (auto simp: keeps_others_def classes_def AList.update_conv')

lemma keeps_delete_named: "keeps_others (Named k) as (AList.delete k as)"
  by (auto simp: keeps_others_def classes_def AList.delete_conv')

lemma keeps_class_any: "keeps_others WholeClass as (AList.update ''class'' v as)"
  "keeps_others WholeClass as (AList.delete ''class'' as)"
  by (auto simp: keeps_others_def AList.update_conv' AList.delete_conv')

lemma classes_update: "classes (AList.update ''class'' v as) = class_tokens v"
  by (simp add: classes_def AList.update_conv')

lemma classes_delete: "classes (AList.delete ''class'' as) = []"
  by (simp add: classes_def AList.delete_conv')

lemma classes_add:
  assumes "is_token n"
  shows "classes (AList.update ''class'' (join_tokens (index_insert n (classes as))) as) = index_insert n (classes as)"
  unfolding classes_update using assms classes_ok by (intro class_tokens_join) auto

lemma classes_remove:
  "classes (AList.update ''class'' (join_tokens (shift_remove n (classes as))) as) = shift_remove n (classes as)"
  unfolding classes_update using classes_ok by (intro class_tokens_join) auto

lemma keeps_class_one:
  "is_token n \<Longrightarrow> keeps_others (OneClass n) as (AList.update ''class'' (join_tokens (index_insert n (classes as))) as)"
  "keeps_others (OneClass n) as (AList.update ''class'' (join_tokens (shift_remove n (classes as))) as)"
  by (auto simp: keeps_others_def classes_add classes_remove AList.update_conv')

subsection \<open>Building and rebuilding one attribute\<close>

text \<open>
  The result of an attribute operation: a new state and new attributes of the element, with what
  other attributes write left alone.
\<close>

definition attr_set :: "facet \<Rightarrow> nat \<Rightarrow> string \<Rightarrow> (string \<times> string) list \<Rightarrow> dom \<Rightarrow>
    ((string \<times> string) list \<Rightarrow> bool) \<Rightarrow> dom \<Rightarrow> bool" where
  "attr_set f el tag as d P d' \<longleftrightarrow> (\<exists>bs. d' = with_attrs el tag bs d \<and> keeps_others f as bs \<and> P bs)"

lemma attr_set_ops:
  assumes "content d el = Some (NElem tag as)"
  shows "P as \<Longrightarrow> attr_set f el tag as d P d"
    and "P (AList.update k v as) \<Longrightarrow> attr_set (Named k) el tag as d P (set_attribute el k v d)"
    and "P (AList.delete k as) \<Longrightarrow> attr_set (Named k) el tag as d P (remove_attribute el k d)"
    and "P (AList.update ''class'' v as) \<Longrightarrow> attr_set WholeClass el tag as d P (set_attribute el ''class'' v d)"
    and "P (AList.delete ''class'' as) \<Longrightarrow> attr_set WholeClass el tag as d P (remove_attribute el ''class'' d)"
  using assms keeps_update_named keeps_delete_named keeps_class_any
  by (auto simp: attr_set_def attribute_ops intro: with_attrs_same [symmetric])

lemma attr_set_class_ops:
  assumes "content d el = Some (NElem tag as)"
  shows "is_token n \<Longrightarrow> (\<And>bs. classes bs = index_insert n (classes as) \<Longrightarrow> P bs) \<Longrightarrow>
      attr_set (OneClass n) el tag as d P (add_class el n d)"
    and "(\<And>bs. classes bs = shift_remove n (classes as) \<Longrightarrow> P bs) \<Longrightarrow>
      attr_set (OneClass n) el tag as d P (remove_class el n d)"
proof -
  assume "is_token n" "\<And>bs. classes bs = index_insert n (classes as) \<Longrightarrow> P bs"
  then show "attr_set (OneClass n) el tag as d P (add_class el n d)"
    using assms keeps_class_one(1) [of n as] classes_add [of n as] by (auto simp: attr_set_def attribute_ops)
next
  assume P: "\<And>bs. classes bs = shift_remove n (classes as) \<Longrightarrow> P bs"
  show "attr_set (OneClass n) el tag as d P (remove_class el n d)"
  proof (cases "map_of as ''class''")
    case None
    then have "classes as = shift_remove n (classes as)" by (simp add: classes_def shift_remove_def)
    with None show ?thesis using assms P attr_set_ops(1) [OF assms] by (auto simp: attribute_ops)
  next
    case (Some v)
    then show ?thesis using assms P keeps_class_one(2) [of n as] classes_remove [of n as]
      by (auto simp: attr_set_def attribute_ops)
  qed
qed

lemmas attr_sets = attr_set_ops attr_set_class_ops

lemma value_build_ok:
  assumes "content d el = Some (NElem tag as)" "has_avty t v" "map_of as k = None"
  shows "\<exists>d'. value_build k el v d = (value_state el v, d') \<and>
    attr_set (Named k) el tag as d (\<lambda>bs. value_ok k el bs t (value_state el v)) d'"
  using assms(2)
proof (induction t arbitrary: v)
  case AtUnit
  then show ?case using assms by (auto intro!: attr_sets)
next
  case AtStr
  then show ?case using assms(1)
    by (auto simp: AList.update_conv' split: aval.splits intro!: attr_sets)
next
  case AtPrim
  then show ?case using assms(1)
    by (auto simp: AList.update_conv' split: aval.splits intro!: attr_sets)
next
  case AtBool
  then obtain b where v: "v = ABool b" by (cases v) auto
  show ?case
    by (cases b) (simp_all add: v attr_sets [OF assms(1)] AList.update_conv' assms(3))
next
  case (AtOpt t)
  show ?case
  proof (cases v)
    case (AOpt w)
    show ?thesis
    proof (cases w)
      case None
      then show ?thesis using AOpt assms(1,3) by (auto intro!: attr_sets)
    next
      case (Some u)
      then have "has_avty t u" using AtOpt(2) AOpt by simp
      then obtain d' where "value_build k el u d = (value_state el u, d')"
        "attr_set (Named k) el tag as d (\<lambda>bs. value_ok k el bs t (value_state el u)) d'"
        using AtOpt(1) by blast
      then show ?thesis using AOpt Some by simp
    qed
  qed (use AtOpt(2) in auto)
qed

lemma value_rebuild_ok:
  assumes "content d el = Some (NElem tag as)" "has_avty t v" "value_ok k el as t st"
  shows "\<exists>d'. value_rebuild k v st d = Inr (value_state el v, d') \<and>
    attr_set (Named k) el tag as d (\<lambda>bs. value_ok k el bs t (value_state el v)) d'"
  using assms(2,3)
proof (induction t arbitrary: v st)
  case AtUnit
  then show ?case using assms(1) by (auto intro!: attr_sets)
next
  case AtStr
  then show ?case using assms(1)
    by (auto simp: AList.update_conv' split: aval.splits intro!: attr_sets)
next
  case AtPrim
  then show ?case using assms(1)
    by (auto simp: AList.update_conv' split: aval.splits intro!: attr_sets dest: prim_unchanged intro: prim_same_trans)
next
  case AtBool
  then obtain b where v: "v = ABool b" by (cases v) auto
  have "map_of as k = None \<or> map_of as k = Some []" using AtBool(2) by simp
  then show ?case
  proof
    assume old: "map_of as k = None"
    then have "st = SBool el False" using AtBool(2) by simp
    then show ?thesis by (cases b) (simp_all add: v old attr_sets [OF assms(1)] AList.update_conv')
  next
    assume old: "map_of as k = Some []"
    then have "st = SBool el True" using AtBool(2) by simp
    then show ?thesis by (cases b) (simp_all add: v old attr_sets [OF assms(1)] AList.delete_conv')
  qed
next
  case (AtOpt t)
  show ?case
  proof (cases v)
    case (AOpt w)
    consider "st = SOpt el None" "map_of as k = None" | u where "st = SOpt el (Some u)" "value_ok k el as t u"
      using AtOpt(3) by auto
    then show ?thesis
    proof cases
      case 1
      show ?thesis
      proof (cases w)
        case None
        then show ?thesis using AOpt 1 assms(1) by (auto intro!: attr_sets)
      next
        case (Some x)
        then have "has_avty t x" using AtOpt(2) AOpt by simp
        from value_build_ok [OF assms(1) this 1(2)] show ?thesis using AOpt Some 1 by auto
      qed
    next
      case 2
      show ?thesis
      proof (cases w)
        case None
        then show ?thesis using AOpt 2 assms(1)
          by (auto simp: AList.delete_conv' intro!: attr_sets)
      next
        case (Some x)
        then have "has_avty t x" using AtOpt(2) AOpt by simp
        from AtOpt(1) [OF this 2(2)] show ?thesis using AOpt Some 2 by auto
      qed
    qed
  qed (use AtOpt(2) in auto)
qed

definition cls_facet :: "clsty \<Rightarrow> facet" where
  "cls_facet t = facet_of (TClass t)"

lemma cls_facet_simps [simp]:
  "cls_facet CtStr = WholeClass" "cls_facet (CtToggle n) = OneClass n" "cls_facet (CtOpt t) = cls_facet t"
  by (simp_all add: cls_facet_def)

text \<open>No class of the attribute is set.\<close>

definition cls_off :: "(string \<times> string) list \<Rightarrow> clsty \<Rightarrow> bool" where
  "cls_off as t = (case toggles t of None \<Rightarrow> classes as = [] | Some n \<Rightarrow> n \<notin> set (classes as))"

lemma cls_off_simps [simp]:
  "cls_off as CtStr = (classes as = [])" "cls_off as (CtToggle n) = (n \<notin> set (classes as))"
  "cls_off as (CtOpt t) = cls_off as t"
  by (simp_all add: cls_off_def)

lemma cls_build_ok:
  assumes "content d el = Some (NElem tag as)" "has_clsty t c" "\<And>n. toggles t = Some n \<Longrightarrow> is_token n"
    and "cls_off as t"
  shows "\<exists>d'. cls_build el c d = (cls_state el c, d') \<and>
    attr_set (cls_facet t) el tag as d (\<lambda>bs. cls_ok el bs t (cls_state el c)) d'"
  using assms(2-4)
proof (induction t arbitrary: c)
  case CtStr
  then show ?case using assms(1)
    by (auto simp: classes_update split: cls.splits intro!: attr_sets)
next
  case (CtToggle n)
  then show ?case using assms(1)
    by (auto simp: classes_add split: cls.splits intro!: attr_sets)
next
  case (CtOpt t)
  show ?case
  proof (cases c)
    case (COpt w)
    show ?thesis
    proof (cases w)
      case None
      then show ?thesis using COpt assms(1) CtOpt(4) by (auto simp: cls_off_def intro!: attr_sets)
    next
      case (Some u)
      then have "has_clsty t u" using CtOpt(2) COpt by simp
      from CtOpt(1) [OF this CtOpt(3)] CtOpt(4) show ?thesis using COpt Some by auto
    qed
  qed (use CtOpt(2) in auto)
qed

lemma cls_reset_ok:
  assumes "content d el = Some (NElem tag as)" "cls_ok el as t st" "\<And>n. toggles t = Some n \<Longrightarrow> is_token n"
  shows "attr_set (cls_facet t) el tag as d (\<lambda>bs. cls_off bs t) (cls_reset st d)"
  using assms(2,3)
proof (induction t arbitrary: st)
  case CtStr
  then show ?case using assms(1)
    by (auto simp: classes_delete intro!: attr_sets)
next
  case (CtToggle n)
  have "map_of as ''class'' = None \<Longrightarrow> n \<notin> set (classes as)" by (simp add: classes_def)
  then show ?case using assms(1) CtToggle(1)
    by (auto simp: classes_remove intro!: attr_sets)
next
  case (CtOpt t)
  then show ?case using assms(1) by (auto simp: cls_off_def intro!: attr_sets)
qed

lemma cls_rebuild_ok:
  assumes "content d el = Some (NElem tag as)" "has_clsty t c" "cls_ok el as t st"
    and "\<And>n. toggles t = Some n \<Longrightarrow> is_token n"
  shows "\<exists>d'. cls_rebuild c st d = Inr (cls_state el c, d') \<and>
    attr_set (cls_facet t) el tag as d (\<lambda>bs. cls_ok el bs t (cls_state el c)) d'"
  using assms(2-4)
proof (induction t arbitrary: c st)
  case CtStr
  then show ?case using assms(1)
    by (auto simp: classes_update split: cls.splits intro!: attr_sets)
next
  case (CtToggle n)
  have "map_of as ''class'' = None \<Longrightarrow> n \<notin> set (classes as)" by (simp add: classes_def)
  then show ?case using assms(1) CtToggle
    by (auto simp: toggle_rebuild_def classes_add classes_remove split: cls.splits
        intro!: attr_sets)
next
  case (CtOpt t)
  show ?case
  proof (cases c)
    case (COpt w)
    consider "st = SCOpt el None" "cls_off as t" | u where "st = SCOpt el (Some u)" "cls_ok el as t u"
      using CtOpt(3) by (auto simp: cls_off_def)
    then show ?thesis
    proof cases
      case 1
      show ?thesis
      proof (cases w)
        case None
        then show ?thesis using COpt 1 assms(1) by (auto simp: cls_off_def intro!: attr_sets)
      next
        case (Some x)
        then have "has_clsty t x" using CtOpt(2) COpt by simp
        from cls_build_ok [OF assms(1) this _ 1(2)] CtOpt(4) show ?thesis using COpt Some 1 by auto
      qed
    next
      case 2
      show ?thesis
      proof (cases w)
        case None
        then show ?thesis using COpt 2 cls_reset_ok [OF assms(1) 2(2)] CtOpt(4) by (auto simp: cls_off_def)
      next
        case (Some x)
        then have "has_clsty t x" using CtOpt(2) COpt by simp
        from CtOpt(1) [OF this 2(2)] CtOpt(4) show ?thesis using COpt Some 2 by auto
      qed
    qed
  qed (use CtOpt(2) in auto)
qed

subsection \<open>All attributes of an element\<close>

fun same_facet :: "facet \<Rightarrow> (string \<times> string) list \<Rightarrow> (string \<times> string) list \<Rightarrow> bool" where
  "same_facet WholeClass as bs = (classes bs = classes as)"
| "same_facet (OneClass n) as bs = (n \<in> set (classes bs) \<longleftrightarrow> n \<in> set (classes as))"
| "same_facet (Named k) as bs = (map_of bs k = map_of as k)"

lemma keeps_same: "keeps_others f as bs \<Longrightarrow> \<not> clash f g \<Longrightarrow> same_facet g as bs"
  by (cases g) (auto simp: keeps_others_def)

lemma clash_sym: "clash f g = clash g f"
  by (cases f; cases g) auto

lemma same_facet_trans: "same_facet f as bs \<Longrightarrow> same_facet f bs cs \<Longrightarrow> same_facet f as cs"
  by (cases f) auto

lemma value_ok_cong: "map_of bs k = map_of as k \<Longrightarrow> value_ok k el bs t st = value_ok k el as t st"
  by (induction t arbitrary: st) simp_all

lemma cls_ok_cong: "same_facet (cls_facet t) as bs \<Longrightarrow> cls_ok el bs t st = cls_ok el as t st"
proof (induction t arbitrary: st)
  case (CtOpt t)
  then have "cls_off bs t = cls_off as t" by (auto simp: cls_off_def cls_facet_def split: option.splits)
  then show ?case using CtOpt by (simp add: cls_off_def)
qed auto

lemma attr_ok_cong: "same_facet (facet_of t) as bs \<Longrightarrow> attr_ok el bs t st = attr_ok el as t st"
proof (cases t)
  case (TAttr k u)
  moreover assume "same_facet (facet_of t) as bs"
  ultimately show ?thesis using value_ok_cong [of bs k as] by simp
next
  case (TClass u)
  moreover assume "same_facet (facet_of t) as bs"
  ultimately show ?thesis using cls_ok_cong [of u as bs] by (simp add: cls_facet_def)
qed

definition attr_off :: "(string \<times> string) list \<Rightarrow> aty \<Rightarrow> bool" where
  "attr_off as t = (case t of TAttr k u \<Rightarrow> map_of as k = None | TClass u \<Rightarrow> cls_off as u)"

lemma attr_off_cong: "same_facet (facet_of t) as bs \<Longrightarrow> attr_off bs t = attr_off as t"
  by (cases t) (auto simp: attr_off_def cls_off_def split: option.splits)

definition aty_ok :: "aty \<Rightarrow> bool" where
  "aty_ok t \<longleftrightarrow> (\<forall>u n. t = TClass u \<longrightarrow> toggles u = Some n \<longrightarrow> is_token n)"

lemma attr_build_ok:
  assumes "content d el = Some (NElem tag as)" "has_aty t a" "aty_ok t" "attr_off as t"
  shows "\<exists>d'. attr_build el a d = (attr_state_of el a, d') \<and>
    attr_set (facet_of t) el tag as d (\<lambda>bs. attr_ok el bs t (attr_state_of el a)) d'"
proof (cases t)
  case (TAttr k u)
  then obtain v where a: "a = Attr k v" "has_avty u v" using assms(2) by (cases a) auto
  have "map_of as k = None" using assms(4) TAttr by (simp add: attr_off_def)
  from value_build_ok [OF assms(1) a(2) this] show ?thesis using TAttr a by auto
next
  case (TClass u)
  then obtain c where a: "a = Class c" "has_clsty u c" using assms(2) by (cases a) auto
  have "cls_off as u" "\<And>n. toggles u = Some n \<Longrightarrow> is_token n"
    using assms(3,4) TClass by (simp_all add: attr_off_def aty_ok_def)
  from cls_build_ok [OF assms(1) a(2) this(2,1)] show ?thesis using TClass a by (auto simp: cls_facet_def)
qed

lemma attr_rebuild_ok:
  assumes "content d el = Some (NElem tag as)" "has_aty t a" "aty_ok t" "attr_ok el as t st"
  shows "\<exists>d'. attr_rebuild a st d = Inr (attr_state_of el a, d') \<and>
    attr_set (facet_of t) el tag as d (\<lambda>bs. attr_ok el bs t (attr_state_of el a)) d'"
proof (cases t)
  case (TAttr k u)
  then obtain v x where a: "a = Attr k v" "has_avty u v" "st = SAttr x" "value_ok k el as u x"
    using assms(2,4) by (cases a) auto
  from value_rebuild_ok [OF assms(1) a(2,4)] show ?thesis using TAttr a by auto
next
  case (TClass u)
  then obtain c x where a: "a = Class c" "has_clsty u c" "st = SClass x" "cls_ok el as u x"
    using assms(2,4) by (cases a) auto
  have "\<And>n. toggles u = Some n \<Longrightarrow> is_token n" using assms(3) TClass by (simp add: aty_ok_def)
  from cls_rebuild_ok [OF assms(1) a(2,4) this] show ?thesis using TClass a by (auto simp: cls_facet_def)
qed

lemma attrs_typed_Cons:
  "attrs_typed (t # ts) \<longleftrightarrow> aty_ok t \<and> (\<forall>u\<in>set ts. \<not> clash (facet_of t) (facet_of u)) \<and> attrs_typed ts"
  by (auto simp: attrs_typed_def aty_ok_def)

text \<open>What none of the attributes writes stays as it is.\<close>

definition keeps_apart :: "aty list \<Rightarrow> (string \<times> string) list \<Rightarrow> (string \<times> string) list \<Rightarrow> bool" where
  "keeps_apart ts as bs \<longleftrightarrow> (\<forall>f. (\<forall>t\<in>set ts. \<not> clash (facet_of t) f) \<longrightarrow> same_facet f as bs)"

lemma attrs_step:
  assumes "attr_set (facet_of t) el tag as d (\<lambda>bs. attr_ok el bs t st) d1"
    and "attrs_typed (t # ts)"
  obtains bs where "d1 = with_attrs el tag bs d" "attr_ok el bs t st" "keeps_others (facet_of t) as bs"
    "\<And>u. u \<in> set ts \<Longrightarrow> same_facet (facet_of u) as bs"
  using assms keeps_same unfolding attr_set_def attrs_typed_Cons by blast

lemma attrs_close:
  assumes "attrs_ok el cs ts sts" "keeps_apart ts bs cs" "attr_ok el bs t st" "keeps_others (facet_of t) as bs"
    and "attrs_typed (t # ts)"
  shows "attrs_ok el cs (t # ts) (st # sts) \<and> keeps_apart (t # ts) as cs"
proof -
  have "same_facet (facet_of t) bs cs"
    using assms(2,5) clash_sym by (auto simp: keeps_apart_def attrs_typed_Cons)
  then have "attr_ok el cs t st" using attr_ok_cong assms(3) by blast
  moreover have "keeps_apart (t # ts) as cs"
    unfolding keeps_apart_def
  proof (intro allI impI)
    fix f assume f: "\<forall>u\<in>set (t # ts). \<not> clash (facet_of u) f"
    have "same_facet f as bs" using keeps_same [OF assms(4)] f by simp
    moreover have "same_facet f bs cs" using assms(2) f by (simp add: keeps_apart_def)
    ultimately show "same_facet f as cs" by (rule same_facet_trans)
  qed
  ultimately show ?thesis using assms(1) by (simp add: attrs_ok_def)
qed

lemma attrs_build_ok:
  assumes "content d el = Some (NElem tag as)" "list_all2 has_aty ts xs" "attrs_typed ts"
    and "\<forall>t\<in>set ts. attr_off as t"
  shows "\<exists>bs. attrs_build el xs d = (map (attr_state_of el) xs, with_attrs el tag bs d) \<and>
    attrs_ok el bs ts (map (attr_state_of el) xs) \<and> keeps_apart ts as bs"
  using assms(2,1,3,4)
proof (induction ts xs arbitrary: as d rule: list_all2_induct)
  case Nil
  have "keeps_apart [] as as"
    unfolding keeps_apart_def
  proof (intro allI impI)
    fix f show "same_facet f as as" by (cases f) simp_all
  qed
  then show ?case using Nil by (auto intro!: exI [of _ as] simp: attrs_ok_def with_attrs_same)
next
  case (Cons t ts x xs)
  obtain d1 where d1: "attr_build el x d = (attr_state_of el x, d1)"
    and s: "attr_set (facet_of t) el tag as d (\<lambda>bs. attr_ok el bs t (attr_state_of el x)) d1"
    using attr_build_ok [OF Cons(4) Cons(1)] Cons(5,6) by (auto simp: attrs_typed_Cons)
  obtain bs where bs: "d1 = with_attrs el tag bs d" "attr_ok el bs t (attr_state_of el x)"
    "keeps_others (facet_of t) as bs" "\<And>u. u \<in> set ts \<Longrightarrow> same_facet (facet_of u) as bs"
    using attrs_step [OF s Cons(5)] by metis
  have "\<forall>u\<in>set ts. attr_off bs u"
  proof
    fix u assume "u \<in> set ts"
    then show "attr_off bs u" using Cons(6) attr_off_cong [OF bs(4)] by simp
  qed
  then obtain cs where cs: "attrs_build el xs d1 = (map (attr_state_of el) xs, with_attrs el tag cs d1)"
    "attrs_ok el cs ts (map (attr_state_of el) xs)" "keeps_apart ts bs cs"
    using Cons(3) [of d1 bs] bs(1) Cons(5) by (auto simp: attrs_typed_Cons)
  from attrs_close [OF cs(2,3) bs(2,3) Cons(5)] show ?case
    using d1 cs(1) bs(1) by (auto intro!: exI [of _ cs])
qed

lemma attrs_rebuild_ok:
  assumes "content d el = Some (NElem tag as)" "list_all2 has_aty ts xs" "attrs_typed ts"
    and "attrs_ok el as ts sts"
  shows "\<exists>bs. attrs_rebuild xs sts d = Inr (map (attr_state_of el) xs, with_attrs el tag bs d) \<and>
    attrs_ok el bs ts (map (attr_state_of el) xs) \<and> keeps_apart ts as bs"
  using assms(2,1,3,4)
proof (induction ts xs arbitrary: as d sts rule: list_all2_induct)
  case Nil
  have "keeps_apart [] as as"
    unfolding keeps_apart_def
  proof (intro allI impI)
    fix f show "same_facet f as as" by (cases f) simp_all
  qed
  then show ?case using Nil by (auto intro!: exI [of _ as] simp: attrs_ok_def with_attrs_same)
next
  case (Cons t ts x xs)
  obtain st sts' where sts: "sts = st # sts'" "attr_ok el as t st" "attrs_ok el as ts sts'"
    using Cons(6) by (auto simp: attrs_ok_def list_all2_Cons1)
  obtain d1 where d1: "attr_rebuild x st d = Inr (attr_state_of el x, d1)"
    and s: "attr_set (facet_of t) el tag as d (\<lambda>bs. attr_ok el bs t (attr_state_of el x)) d1"
    using attr_rebuild_ok [OF Cons(4) Cons(1) _ sts(2)] Cons(5) by (auto simp: attrs_typed_Cons)
  obtain bs where bs: "d1 = with_attrs el tag bs d" "attr_ok el bs t (attr_state_of el x)"
    "keeps_others (facet_of t) as bs" "\<And>u. u \<in> set ts \<Longrightarrow> same_facet (facet_of u) as bs"
    using attrs_step [OF s Cons(5)] by metis
  have "attrs_ok el bs ts sts'"
    using sts(3) attr_ok_cong [OF bs(4)] unfolding attrs_ok_def by (auto elim!: list.rel_mono_strong)
  then obtain cs where cs: "attrs_rebuild xs sts' d1 = Inr (map (attr_state_of el) xs, with_attrs el tag cs d1)"
    "attrs_ok el cs ts (map (attr_state_of el) xs)" "keeps_apart ts bs cs"
    using Cons(3) [of d1 bs sts'] bs(1) Cons(5) by (auto simp: attrs_typed_Cons)
  from attrs_close [OF cs(2,3) bs(2,3) Cons(5)] show ?case
    using d1 sts(1) cs(1) bs(1) by (auto intro!: exI [of _ cs])
qed

lemma attrs_off_empty: "attr_off [] t"
  by (cases t) (auto simp: attr_off_def cls_off_def classes_def split: option.split)

end
