(* ===== verification/Dom_Correct.thy ===== *)
theory Dom_Correct
  imports Dom_Model
begin

text \<open>
  The document as a tree: parents and children agree, and what inserting and removing lists of nodes
  does to the children of one element.
\<close>

definition doc_ok :: "dom \<Rightarrow> bool" where
  "doc_ok d \<longleftrightarrow>
     (\<forall>p n. n \<in> set (kids d p) \<longleftrightarrow> parent d n = Some p) \<and> (\<forall>p. distinct (kids d p)) \<and>
     (\<forall>n\<ge>next_node d. content d n = None \<and> kids d n = [] \<and> parent d n = None)"

lemma doc_okD:
  assumes "doc_ok d"
  shows "n \<in> set (kids d p) \<longleftrightarrow> parent d n = Some p" "distinct (kids d p)"
    and "next_node d \<le> m \<Longrightarrow> content d m = None \<and> kids d m = [] \<and> parent d m = None"
  using assms by (simp_all add: doc_ok_def)

text \<open>Nodes that exist.\<close>

lemma elem_exists: "doc_ok d \<Longrightarrow> is_elem d p \<Longrightarrow> p < next_node d"
  using doc_okD(3) [of d p] by (force simp: is_elem_def not_less [symmetric])

lemma doc_ok_cong:
  "kids d' = kids d \<Longrightarrow> parent d' = parent d \<Longrightarrow> next_node d' = next_node d \<Longrightarrow>
   (\<And>n. next_node d \<le> n \<Longrightarrow> content d' n = content d n) \<Longrightarrow> doc_ok d \<Longrightarrow> doc_ok d'"
  by (simp add: doc_ok_def)

subsection \<open>New nodes\<close>

lemma add_node_simps [simp]:
  "fst (add_node c d) = next_node d"
  "content (snd (add_node c d)) = (content d)(next_node d \<mapsto> c)"
  "kids (snd (add_node c d)) = (kids d)(next_node d := [])"
  "parent (snd (add_node c d)) = (parent d)(next_node d := None)"
  "next_node (snd (add_node c d)) = Suc (next_node d)"
  "errors (snd (add_node c d)) = errors d"
  by (simp_all add: add_node_def)

lemma doc_ok_new: "doc_ok d \<Longrightarrow> doc_ok (snd (add_node c d))"
  unfolding doc_ok_def by (auto simp: add_node_def) (metis le_refl list.set_intros(1) empty_iff list.set(1) option.distinct(1))+

subsection \<open>Inserting\<close>

text \<open>Inserting nodes without a parent, one after the other, before a child or at the end.\<close>

definition insert_all :: "nat \<Rightarrow> nat option \<Rightarrow> nat list \<Rightarrow> dom \<Rightarrow> dom" where
  "insert_all p m ns d = fold (\<lambda>n. insert_node p n m) ns d"

definition unlink_all :: "nat list \<Rightarrow> dom \<Rightarrow> dom" where
  "unlink_all ns d = fold remove_node ns d"

text \<open>The document with other children of one element, and another parent of some nodes.\<close>

definition with_kids :: "nat \<Rightarrow> nat list \<Rightarrow> nat list \<Rightarrow> nat option \<Rightarrow> dom \<Rightarrow> dom" where
  "with_kids p ks ns q d =
     d\<lparr>kids := (kids d)(p := ks), parent := (\<lambda>n. if n \<in> set ns then q else parent d n)\<rparr>"

lemma with_kids_simps [simp]:
  "content (with_kids p ks ns q d) = content d" "next_node (with_kids p ks ns q d) = next_node d"
  "errors (with_kids p ks ns q d) = errors d"
  "kids (with_kids p ks ns q d) n = (if n = p then ks else kids d n)"
  "parent (with_kids p ks ns q d) n = (if n \<in> set ns then q else parent d n)"
  by (simp_all add: with_kids_def)

lemma with_kids_twice:
  "with_kids p ks ns q (with_kids p ks' ms q d) = with_kids p ks (ns @ ms) q d"
  by (simp add: with_kids_def cong: if_cong) (rule arg_cong [where f = "\<lambda>f. d\<lparr>kids := _, parent := f\<rparr>"], auto)

lemma with_kids_none: "with_kids p (kids d p) [] q d = d"
  by (simp add: with_kids_def)

lemma is_elem_with_kids [simp]: "is_elem (with_kids p ks ns q d) = is_elem d"
  by (simp add: is_elem_def fun_eq_iff)

lemma place_before_mid: "a \<notin> set pre \<Longrightarrow> place_before n (Some a) (pre @ a # post) = pre @ n # a # post"
  by (induction pre) auto

lemma insert_new:
  assumes "doc_ok d" "parent d n = None"
  shows "kids d p = pre @ a # post \<Longrightarrow> insert_node p n (Some a) d = with_kids p (pre @ n # a # post) [n] (Some p) d"
    and "insert_node p n None d = with_kids p (kids d p @ [n]) [n] (Some p) d"
proof -
  assume k: "kids d p = pre @ a # post"
  have "parent d a = Some p" "distinct (pre @ a # post)" using doc_okD(1,2) [OF assms(1), where p = p] k by auto
  moreover have "a \<noteq> n" using calculation(1) assms(2) by auto
  ultimately show "insert_node p n (Some a) d = with_kids p (pre @ n # a # post) [n] (Some p) d"
    using assms(2) k
    by (simp add: insert_node_def try_insert_node_def remove_node_def with_kids_def place_before_mid fun_upd_def
        del: place_before.simps cong: if_cong)
next
  show "insert_node p n None d = with_kids p (kids d p @ [n]) [n] (Some p) d"
    using assms(2) by (simp add: insert_node_def try_insert_node_def remove_node_def with_kids_def fun_upd_def cong: if_cong)
qed

lemma doc_ok_insert:
  assumes "doc_ok d" "distinct ks" "p < next_node d" "n < next_node d" "parent d n = None"
    and "set ks = insert n (set (kids d p))"
  shows "doc_ok (with_kids p ks [n] (Some p) d)"
  using assms unfolding doc_ok_def by auto

lemma insert_all_before:
  assumes "doc_ok d" "kids d p = pre @ a # post" "p < next_node d"
    and "distinct ns" "\<And>n. n \<in> set ns \<Longrightarrow> parent d n = None \<and> n < next_node d"
  shows "insert_all p (Some a) ns d = with_kids p (pre @ ns @ a # post) ns (Some p) d \<and>
    doc_ok (insert_all p (Some a) ns d)"
  using assms
proof (induction ns arbitrary: d pre)
  case Nil
  then show ?case using with_kids_none [of p d] by (simp add: insert_all_def)
next
  case (Cons n ns)
  let ?d = "with_kids p (pre @ n # a # post) [n] (Some p) d"
  have one: "insert_node p n (Some a) d = ?d" using insert_new(1) [OF Cons(2)] Cons(3,6) by simp
  have "n \<notin> set (kids d p)" using doc_okD(1) [OF Cons(2)] Cons(6) [of n] by simp
  then have ok: "doc_ok ?d"
    using Cons.prems doc_okD(2) [OF Cons(2), of p] by (intro doc_ok_insert) auto
  have rest: "insert_all p (Some a) ns ?d = with_kids p ((pre @ [n]) @ ns @ a # post) ns (Some p) ?d \<and>
      doc_ok (insert_all p (Some a) ns ?d)"
    using Cons.prems ok by (intro Cons.IH) auto
  have "insert_all p (Some a) (n # ns) d = insert_all p (Some a) ns ?d" by (simp add: insert_all_def one)
  then show ?case using rest by (auto simp: with_kids_twice) (auto simp: with_kids_def)
qed

lemma insert_all_end:
  assumes "doc_ok d" "p < next_node d"
    and "distinct ns" "\<And>n. n \<in> set ns \<Longrightarrow> parent d n = None \<and> n < next_node d"
  shows "insert_all p None ns d = with_kids p (kids d p @ ns) ns (Some p) d \<and> doc_ok (insert_all p None ns d)"
  using assms
proof (induction ns arbitrary: d)
  case Nil
  then show ?case using with_kids_none [of p d] by (simp add: insert_all_def)
next
  case (Cons n ns)
  let ?d = "with_kids p (kids d p @ [n]) [n] (Some p) d"
  have one: "insert_node p n None d = ?d" using insert_new(2) [OF Cons(2)] Cons(5) by simp
  have "n \<notin> set (kids d p)" using doc_okD(1) [OF Cons(2)] Cons(5) [of n] by simp
  then have ok: "doc_ok ?d"
    using Cons.prems doc_okD(2) [OF Cons(2), of p] by (intro doc_ok_insert) auto
  have rest: "insert_all p None ns ?d = with_kids p (kids ?d p @ ns) ns (Some p) ?d \<and>
      doc_ok (insert_all p None ns ?d)"
    using Cons.prems ok by (intro Cons.IH) auto
  have "insert_all p None (n # ns) d = insert_all p None ns ?d" by (simp add: insert_all_def one)
  then show ?case using rest by (auto simp: with_kids_twice) (auto simp: with_kids_def)
qed

subsection \<open>Removing\<close>

lemma remove_none: "parent d n = None \<Longrightarrow> remove_node n d = d"
  by (simp add: remove_node_def)

lemma unlink_all_none: "\<forall>n\<in>set ns. parent d n = None \<Longrightarrow> unlink_all ns d = d"
  by (induction ns) (auto simp: unlink_all_def remove_none)

lemma remove_one:
  assumes "doc_ok d" "kids d p = pre @ n # post"
  shows "remove_node n d = with_kids p (pre @ post) [n] None d" "doc_ok (with_kids p (pre @ post) [n] None d)"
proof -
  have n: "parent d n = Some p" "distinct (pre @ n # post)" using doc_okD(1,2) [OF assms(1), where p = p] assms(2) by auto
  then have "filter (\<lambda>y. y \<noteq> n) pre = pre" "filter (\<lambda>y. y \<noteq> n) post = post" by (auto simp: filter_id_conv)
  then have "shift_remove n (pre @ n # post) = pre @ post" by (simp add: shift_remove_def)
  then show "remove_node n d = with_kids p (pre @ post) [n] None d"
    using n(1) assms(2) by (simp add: remove_node_def with_kids_def fun_upd_def)
  have "p < next_node d" using doc_okD(3) [OF assms(1), of p] assms(2) by (force simp: not_less [symmetric])
  moreover have "m \<in> set (pre @ post) \<longleftrightarrow> m \<noteq> n \<and> parent d m = Some p" for m
    using doc_okD(1) [OF assms(1), of m p] assms(2) n(2) by auto
  ultimately show "doc_ok (with_kids p (pre @ post) [n] None d)"
    using assms(1) n unfolding doc_ok_def by auto
qed

lemma unlink_all_kids:
  assumes "doc_ok d" "set ns \<subseteq> set (kids d p)" "distinct ns"
  shows "unlink_all ns d = with_kids p (filter (\<lambda>n. n \<notin> set ns) (kids d p)) ns None d \<and> doc_ok (unlink_all ns d)"
  using assms
proof (induction ns arbitrary: d)
  case Nil
  then show ?case using with_kids_none [of p d] by (simp add: unlink_all_def)
next
  case (Cons n ns)
  obtain pre post where k: "kids d p = pre @ n # post" using Cons(3) by (auto dest: split_list)
  let ?d = "with_kids p (pre @ post) [n] None d"
  have one: "remove_node n d = ?d" "doc_ok ?d" using remove_one [OF Cons(2) k] by auto
  have rest: "unlink_all ns ?d = with_kids p (filter (\<lambda>n. n \<notin> set ns) (pre @ post)) ns None ?d \<and> doc_ok (unlink_all ns ?d)"
    using Cons.IH [OF one(2)] Cons(3,4) k by auto
  have "filter (\<lambda>m. m \<notin> set (n # ns)) pre = filter (\<lambda>m. m \<notin> set ns) pre"
    "filter (\<lambda>m. m \<notin> set (n # ns)) post = filter (\<lambda>m. m \<notin> set ns) post"
    using doc_okD(2) [OF Cons(2), of p] k by (intro filter_cong refl; auto)+
  then have "filter (\<lambda>m. m \<notin> set (n # ns)) (kids d p) = filter (\<lambda>m. m \<notin> set ns) (pre @ post)" by (simp add: k)
  moreover have "unlink_all (n # ns) d = unlink_all ns ?d" by (simp add: unlink_all_def one)
  ultimately show ?case using rest by (auto simp: with_kids_twice) (auto simp: with_kids_def)
qed

lemma doc_ok_remove:
  assumes "doc_ok d" "distinct ks" "set ks = set (kids d p) - set ns" "set ns \<subseteq> set (kids d p)" "p < next_node d"
  shows "doc_ok (with_kids p ks ns None d)"
  using assms unfolding doc_ok_def by auto

end
