(* ===== verification/View_States.thy ===== *)
theory View_States
  imports View_Render View_Attrs_Correct Dom_Correct
begin

text \<open>
  What a state of a view promises: the nodes it has in the document, the nodes it owns, that the
  document agrees with what the state remembers, and what it was last given.
\<close>

subsection \<open>Typed views\<close>

fun exists_ty :: "vty \<Rightarrow> bool" where
  "exists_ty TyUnit = False"
| "exists_ty (TyTuple ts) = list_ex exists_ty ts"
| "exists_ty _ = True"

text \<open>Types whose views always have a node in the document: all but empty arrays and tuples of such.\<close>

fun has_node :: "vty \<Rightarrow> bool" where
  "has_node (TyTuple ts) = list_ex has_node ts"
| "has_node (TyArray n t) = (0 < n \<and> has_node t)"
| "has_node (TyEither ts) = list_all has_node ts"
| "has_node (TyResult t) = has_node t"
| "has_node (TyKeep a b) = (has_node a \<and> has_node b)"
| "has_node _ = True"

text \<open>
  Types that can be rebuilt while they are not in the document: a \<^verbatim>\<open>StaticVec\<close> that grows panics there.
\<close>

fun movable :: "vty \<Rightarrow> bool" where
  "movable (TyTuple ts) = list_all movable ts"
| "movable (TyArray n t) = movable t"
| "movable (TyVec t) = movable t"
| "movable (TyStaticVec t) = False"
| "movable (TyEither ts) = list_all movable ts"
| "movable (TyResult t) = movable t"
| "movable TyAny = False"
| "movable (TyKeep a b) = (movable a \<and> movable b)"
| "movable _ = True"

text \<open>
  Types of views for which rebuilding is shown to be correct: every alternative of a branch has a
  node that marks its place, and the attributes of an element do not overlap.
\<close>

fun wf_vty :: "vty \<Rightarrow> bool" where
  "wf_vty (TyTuple ts) = list_all wf_vty ts"
| "wf_vty (TyArray n t) = wf_vty t"
| "wf_vty (TyVec t) = wf_vty t"
| "wf_vty (TyStaticVec t) = wf_vty t"
| "wf_vty (TyEither ts) = list_all (\<lambda>t. wf_vty t \<and> has_node t) ts"
| "wf_vty (TyResult t) = (wf_vty t \<and> has_node t)"
| "wf_vty (TyKeep a b) = (wf_vty a \<and> has_node a \<and> movable a \<and> wf_vty b \<and> has_node b \<and> movable b)"
| "wf_vty (TyElem et ats t) = (attrs_typed ats \<and> wf_vty t)"
| "wf_vty _ = True"

fun has_vty :: "vty \<Rightarrow> view \<Rightarrow> bool" where
  "has_vty ty (VText s) = (ty = TyText)"
| "has_vty ty (VPrim e s) = (ty = TyPrim e)"
| "has_vty ty VUnit = (ty = TyUnit)"
| "has_vty ty (VTuple vs) = (case ty of TyTuple ts \<Rightarrow> list_all2 has_vty ts vs | _ \<Rightarrow> False)"
| "has_vty ty (VArray vs) = (case ty of TyArray n t \<Rightarrow> length vs = n \<and> list_all (has_vty t) vs | _ \<Rightarrow> False)"
| "has_vty ty (VVec vs) = (case ty of TyVec t \<Rightarrow> list_all (has_vty t) vs | _ \<Rightarrow> False)"
| "has_vty ty (VStaticVec vs) = (case ty of TyStaticVec t \<Rightarrow> list_all (has_vty t) vs | _ \<Rightarrow> False)"
| "has_vty ty (VEither n i v) =
     (case ty of TyEither ts \<Rightarrow> n = length ts \<and> i < n \<and> has_vty (ts ! i) v | _ \<Rightarrow> False)"
| "has_vty ty (VOk v) = (case ty of TyResult t \<Rightarrow> has_vty t v | _ \<Rightarrow> False)"
| "has_vty ty (VErr e) = (case ty of TyResult t \<Rightarrow> True | _ \<Rightarrow> False)"
| "has_vty ty (VAny t v) = (ty = TyAny \<and> wf_vty t \<and> has_node t \<and> has_vty t v)"
| "has_vty ty (VKeep a b show_b) = (case ty of
     TyKeep ta tb \<Rightarrow> (case a of None \<Rightarrow> True | Some v \<Rightarrow> has_vty ta v) \<and>
       (case b of None \<Rightarrow> True | Some v \<Rightarrow> has_vty tb v)
   | _ \<Rightarrow> False)"
| "has_vty ty (VElem et tag as v) = (case ty of
     TyElem et' ats t \<Rightarrow> et = et' \<and> (TAG et \<noteq> [] \<longrightarrow> tag = TAG et) \<and> list_all2 has_aty ats as \<and> has_vty t v
   | _ \<Rightarrow> False)"

text \<open>
  The side of an \<^verbatim>\<open>EitherKeepAlive\<close> that is shown was given at some time: in the view that is built or
  hydrated, it is there.
\<close>

fun filled :: "view \<Rightarrow> bool" where
  "filled (VTuple vs) = list_all filled vs"
| "filled (VArray vs) = list_all filled vs"
| "filled (VVec vs) = list_all filled vs"
| "filled (VStaticVec vs) = list_all filled vs"
| "filled (VEither n i v) = filled v"
| "filled (VOk v) = filled v"
| "filled (VAny t v) = filled v"
| "filled (VKeep a b show_b) =
     ((case a of None \<Rightarrow> show_b | Some v \<Rightarrow> filled v) \<and> (case b of None \<Rightarrow> \<not> show_b | Some v \<Rightarrow> filled v))"
| "filled (VElem et tag as v) = filled v"
| "filled _ = True"

subsection \<open>Nodes of a state\<close>

fun nodes :: "vstate \<Rightarrow> nat list" where
  "nodes (SText n s) = [n]"
| "nodes (SPlace n) = [n]"
| "nodes (STuple sts) = concat (map nodes sts)"
| "nodes (SArray sts) = concat (map nodes sts)"
| "nodes (SVec sts m) = concat (map nodes sts) @ [m]"
| "nodes (SStaticVec sts m) = concat (map nodes sts) @ [m]"
| "nodes (SEither i st) = nodes st"
| "nodes (SResult ok st e h) = nodes st"
| "nodes (SAny t st ph) = nodes st @ (case ph of None \<Rightarrow> [] | Some n \<Rightarrow> [n])"
| "nodes (SKeep a b show_b) =
     (if show_b then (case b of None \<Rightarrow> [] | Some st \<Rightarrow> nodes st) else (case a of None \<Rightarrow> [] | Some st \<Rightarrow> nodes st))"
| "nodes (SElem el as ch) = [el]"

fun held_nodes :: "vstate \<Rightarrow> nat list" where
  "held_nodes (SText n s) = [n]"
| "held_nodes (SPlace n) = [n]"
| "held_nodes (STuple sts) = concat (map held_nodes sts)"
| "held_nodes (SArray sts) = concat (map held_nodes sts)"
| "held_nodes (SVec sts m) = concat (map held_nodes sts) @ [m]"
| "held_nodes (SStaticVec sts m) = concat (map held_nodes sts) @ [m]"
| "held_nodes (SEither i st) = held_nodes st"
| "held_nodes (SResult ok st e h) = held_nodes st"
| "held_nodes (SAny t st ph) = held_nodes st @ (case ph of None \<Rightarrow> [] | Some n \<Rightarrow> [n])"
| "held_nodes (SKeep a b show_b) =
     (case a of None \<Rightarrow> [] | Some st \<Rightarrow> held_nodes st) @ (case b of None \<Rightarrow> [] | Some st \<Rightarrow> held_nodes st)"
| "held_nodes (SElem el as ch) = el # (case ch of None \<Rightarrow> [] | Some st \<Rightarrow> held_nodes st)"

lemma nodes_owned: "set (nodes st) \<subseteq> set (held_nodes st)"
  by (induction st) (auto split: option.splits)

lemma distinct_concat_sub:
  assumes "distinct (concat (map g xs))" "\<And>x. x \<in> set xs \<Longrightarrow> distinct (g x) \<Longrightarrow> distinct (f x)"
    and "\<And>x. set (f x) \<subseteq> set (g x)"
  shows "distinct (concat (map f xs))" "set (concat (map f xs)) \<subseteq> set (concat (map g xs))"
proof -
  show sub: "set (concat (map f xs)) \<subseteq> set (concat (map g xs))" using assms(3) by force
  from assms(1,2) show "distinct (concat (map f xs))"
  proof (induction xs)
    case (Cons x xs)
    have "set (concat (map f xs)) \<subseteq> set (concat (map g xs))" using assms(3) by force
    then have "set (f x) \<inter> set (concat (map f xs)) = {}" using assms(3) [of x] Cons.prems(1) by auto
    then show ?case using Cons by simp
  qed simp
qed

lemma distinct_nodes: "distinct (held_nodes st) \<Longrightarrow> distinct (nodes st)"
proof (induction st)
  case (STuple sts)
  then show ?case using distinct_concat_sub(1) [of held_nodes sts nodes] nodes_owned by simp
next
  case (SArray sts)
  then show ?case using distinct_concat_sub(1) [of held_nodes sts nodes] nodes_owned by simp
next
  case (SVec sts m)
  then show ?case using distinct_concat_sub [of held_nodes sts nodes] nodes_owned by auto
next
  case (SStaticVec sts m)
  then show ?case using distinct_concat_sub [of held_nodes sts nodes] nodes_owned by auto
next
  case (SAny t st ph)
  then show ?case using nodes_owned [of st] by (auto split: option.splits)
qed (auto split: option.splits)

subsection \<open>Mounting by nodes\<close>

text \<open>The side of an \<^verbatim>\<open>EitherKeepAlive\<close> that is shown exists, wherever nodes are looked up.\<close>

fun st_complete :: "vstate \<Rightarrow> bool" where
  "st_complete (STuple sts) = list_all st_complete sts"
| "st_complete (SArray sts) = list_all st_complete sts"
| "st_complete (SVec sts m) = list_all st_complete sts"
| "st_complete (SStaticVec sts m) = list_all st_complete sts"
| "st_complete (SEither i st) = st_complete st"
| "st_complete (SResult ok st e h) = st_complete st"
| "st_complete (SAny t st ph) = st_complete st"
| "st_complete (SKeep a b show_b) =
     (if show_b then (case b of None \<Rightarrow> False | Some st \<Rightarrow> st_complete st) else (case a of None \<Rightarrow> False | Some st \<Rightarrow> st_complete st))"
| "st_complete _ = True"

lemma foreach_fold:
  "(\<And>x d. x \<in> set xs \<Longrightarrow> f x d = Inr (g (h x) d)) \<Longrightarrow> (\<And>ns ms d. g (ns @ ms) d = g ms (g ns d)) \<Longrightarrow>
   (\<And>d. g [] d = d) \<Longrightarrow> foreach f xs d = Inr (g (concat (map h xs)) d)"
  by (induction xs arbitrary: d) simp_all

lemma insert_all_append: "insert_all p m (ns @ ms) d = insert_all p m ms (insert_all p m ns d)"
  by (simp add: insert_all_def)

lemma unlink_all_append: "unlink_all (ns @ ms) d = unlink_all ms (unlink_all ns d)"
  by (simp add: unlink_all_def)

lemma all_simps [simp]:
  "insert_all p m [] d = d" "insert_all p m (n # ns) d = insert_all p m ns (insert_node p n m d)"
  "unlink_all [] d = d" "unlink_all (n # ns) d = unlink_all ns (remove_node n d)"
  by (simp_all add: insert_all_def unlink_all_def)

lemma mount_nodes: "st_complete st \<Longrightarrow> mount p m st d = Inr (insert_all p m (nodes st) d)"
proof (induction st arbitrary: d)
  case (STuple sts)
  then show ?case
    by (simp add: foreach_fold [where g = "insert_all p m" and h = nodes] insert_all_append list_all_iff)
next
  case (SArray sts)
  then show ?case
    by (simp add: foreach_fold [where g = "insert_all p m" and h = nodes] insert_all_append list_all_iff)
next
  case (SVec sts n)
  then show ?case
    by (simp add: foreach_fold [where g = "insert_all p m" and h = nodes] insert_all_append list_all_iff)
next
  case (SStaticVec sts n)
  then show ?case
    by (simp add: foreach_fold [where g = "insert_all p m" and h = nodes] insert_all_append list_all_iff)
qed (auto simp: insert_all_append split: option.splits if_splits)

lemma unmount_nodes: "st_complete st \<Longrightarrow> unmount_state st d = Inr (unlink_all (nodes st) d)"
proof (induction st arbitrary: d)
  case (STuple sts)
  then show ?case
    by (simp add: foreach_fold [where g = unlink_all and h = nodes] unlink_all_append list_all_iff)
next
  case (SArray sts)
  then show ?case
    by (simp add: foreach_fold [where g = unlink_all and h = nodes] unlink_all_append list_all_iff)
next
  case (SVec sts n)
  then show ?case
    by (simp add: foreach_fold [where g = unlink_all and h = nodes] unlink_all_append list_all_iff)
next
  case (SStaticVec sts n)
  then show ?case
    by (simp add: foreach_fold [where g = unlink_all and h = nodes] unlink_all_append list_all_iff)
qed (auto simp: unlink_all_append split: option.splits if_splits)

lemma unmount_state_all: "\<forall>st\<in>set sts. st_complete st \<Longrightarrow> foreach unmount_state sts d = Inr (unlink_all (concat (map nodes sts)) d)"
  by (rule foreach_fold) (auto simp: unmount_nodes unlink_all_append)

text \<open>The first node with a parent is the one before which a state is inserted.\<close>

fun insert_first :: "vstate \<Rightarrow> nat list \<Rightarrow> dom \<Rightarrow> (bool \<times> dom) result" where
  "insert_first child [] d = Inr (False, d)"
| "insert_first child (n # ns) d =
     (if parent_element d n = None then insert_first child ns d else node_insert_before n child d)"

lemma insert_first_single: "insert_first child [n] d = node_insert_before n child d"
  by (simp add: node_insert_before_def)

lemma insert_first_append:
  "insert_first child (ns @ ms) d =
     and_then (insert_first child ns d) (\<lambda>(ok, d'). if ok then Inr (True, d') else insert_first child ms d')"
proof (induction ns)
  case (Cons n ns)
  then show ?case
    by (auto simp: node_insert_before_def and_then_def split: option.splits sum.splits)
qed simp

lemma first_success_concat:
  "(\<And>x d. x \<in> set xs \<Longrightarrow> f x d = insert_first child (h x) d) \<Longrightarrow>
   first_success f xs d = insert_first child (concat (map h xs)) d"
proof (induction xs arbitrary: d)
  case (Cons x xs)
  then have "first_success f xs = insert_first child (concat (map h xs))" by auto
  then show ?case using Cons.prems by (simp add: insert_first_append cong: if_cong)
qed simp

lemma insert_before_nodes: "st_complete st \<Longrightarrow> insert_before_this child st d = insert_first child (nodes st) d"
proof (induction st arbitrary: d)
  case (STuple sts)
  then show ?case by (simp add: first_success_concat [where h = nodes] list_all_iff)
next
  case (SArray sts)
  then show ?case by (simp add: first_success_concat [where h = nodes] list_all_iff)
next
  case (SVec sts n)
  then show ?case
    by (simp add: first_success_concat [where h = nodes] list_all_iff insert_first_append insert_first_single
        del: insert_first.simps(2) cong: if_cong)
next
  case (SStaticVec sts n)
  then show ?case
    by (simp add: first_success_concat [where h = nodes] list_all_iff insert_first_append insert_first_single
        del: insert_first.simps(2) cong: if_cong)
next
  case (SAny t st ph)
  then show ?case
    by (auto simp: insert_first_append insert_first_single simp del: insert_first.simps(2) split: option.splits
        cong: if_cong)
qed (auto simp: insert_first_single simp del: insert_first.simps(2) split: option.splits if_splits)

end
