(* ===== verification/View_Frame.thy ===== *)
theory View_Frame
  imports View_States "HOL-Library.Sublist"
begin

text \<open>
  When a state of a view fits the document, where it is mounted, and what an operation on it may
  change.
\<close>

subsection \<open>Agreement of the state with the document\<close>

text \<open>
  The children of an element are the nodes of its child view, in this order, and comments that no
  state knows: the separators and the branch markers of a page that was rendered on the server.
\<close>

definition children_ok :: "dom \<Rightarrow> nat \<Rightarrow> nat list \<Rightarrow> bool" where
  "children_ok d p ns \<longleftrightarrow> subseq ns (kids d p) \<and> (\<forall>n\<in>set (kids d p). n \<in> set ns \<or> is_comment d n)"

text \<open>Hydration finds a space where an empty text was rendered.\<close>

definition text_at :: "dom \<Rightarrow> nat \<Rightarrow> string \<Rightarrow> bool" where
  "text_at d n s \<longleftrightarrow> content d n = Some (NText s) \<or> (s = [] \<and> content d n = Some (NText '' ''))"

fun st_ok :: "dom \<Rightarrow> vstate \<Rightarrow> vty \<Rightarrow> bool" where
  "st_ok d (SText n s) ty = ((ty = TyText \<or> (\<exists>e. ty = TyPrim e)) \<and> text_at d n s)"
| "st_ok d (SPlace n) ty = (ty = TyUnit \<and> is_comment d n)"
| "st_ok d (STuple sts) ty = (\<exists>ts. ty = TyTuple ts \<and> list_all2 (st_ok d) sts ts)"
| "st_ok d (SArray sts) ty = (\<exists>t. ty = TyArray (length sts) t \<and> (\<forall>st\<in>set sts. st_ok d st t))"
| "st_ok d (SVec sts m) ty = (\<exists>t. ty = TyVec t \<and> (\<forall>st\<in>set sts. st_ok d st t) \<and> is_comment d m)"
| "st_ok d (SStaticVec sts m) ty = (\<exists>t. ty = TyStaticVec t \<and> (\<forall>st\<in>set sts. st_ok d st t) \<and> is_comment d m)"
| "st_ok d (SEither i st) ty = (\<exists>ts. ty = TyEither ts \<and> i < length ts \<and> st_ok d st (ts ! i))"
| "st_ok d (SResult ok st e h) ty =
     (\<exists>t. ty = TyResult t \<and> (if ok then st_ok d st t else (\<exists>n. st = SPlace n \<and> is_comment d n)))"
| "st_ok d (SAny t st ph) ty =
     (ty = TyAny \<and> wf_vty t \<and> has_node t \<and> (ph = None \<longleftrightarrow> exists_ty t) \<and> st_ok d st t \<and> (case ph of None \<Rightarrow> True | Some n \<Rightarrow> is_comment d n))"
| "st_ok d (SKeep a b show_b) ty = (\<exists>ta tb. ty = TyKeep ta tb \<and>
     (case a of None \<Rightarrow> show_b | Some st \<Rightarrow> st_ok d st ta \<and> (show_b \<longrightarrow> (\<forall>n\<in>set (nodes st). parent d n = None))) \<and>
     (case b of None \<Rightarrow> \<not> show_b | Some st \<Rightarrow> st_ok d st tb \<and> (\<not> show_b \<longrightarrow> (\<forall>n\<in>set (nodes st). parent d n = None))))"
| "st_ok d (SElem el sas ch) ty = (\<exists>et ats t tag as. ty = TyElem et ats t \<and>
     content d el = Some (NElem tag as) \<and> (TAG et \<noteq> [] \<longrightarrow> tag = TAG et) \<and> attrs_ok el as ats sas \<and>
     (case ch of
        None \<Rightarrow> (SELF_CLOSING et \<or> \<not> exists_ty t) \<and> children_ok d el []
      | Some st \<Rightarrow> \<not> SELF_CLOSING et \<and> st_ok d st t \<and> children_ok d el (nodes st)))"

text \<open>
  The state remembers the view it was last given, up to the sign of a zero. \<open>tg\<close> is the property \<^verbatim>\<open>tagName\<close>.\<close>

fun reflects :: "(string \<Rightarrow> string) \<Rightarrow> dom \<Rightarrow> view \<Rightarrow> vstate \<Rightarrow> bool" where
  "reflects tg d (VText s) st = (\<exists>n. st = SText n s)"
| "reflects tg d (VPrim e s) st = (\<exists>n t. st = SText n t \<and> prim_same s t)"
| "reflects tg d VUnit st = (\<exists>n. st = SPlace n)"
| "reflects tg d (VTuple vs) st = (\<exists>sts. st = STuple sts \<and> list_all2 (reflects tg d) vs sts)"
| "reflects tg d (VArray vs) st = (\<exists>sts. st = SArray sts \<and> list_all2 (reflects tg d) vs sts)"
| "reflects tg d (VVec vs) st = (\<exists>sts m. st = SVec sts m \<and> list_all2 (reflects tg d) vs sts)"
| "reflects tg d (VStaticVec vs) st = (\<exists>sts m. st = SStaticVec sts m \<and> list_all2 (reflects tg d) vs sts)"
| "reflects tg d (VEither n i v) st = (\<exists>s. st = SEither i s \<and> reflects tg d v s)"
| "reflects tg d (VOk v) st = (\<exists>s e h. st = SResult True s e h \<and> reflects tg d v s)"
| "reflects tg d (VErr x) st = (\<exists>s e h. st = SResult False s e h)"
| "reflects tg d (VAny t v) st = (\<exists>s ph. st = SAny t s ph \<and> (ph = None \<longleftrightarrow> exists_view v) \<and> reflects tg d v s)"
| "reflects tg d (VKeep a b show_b) st = (\<exists>sa sb. st = SKeep sa sb show_b \<and>
     (case a of None \<Rightarrow> True | Some v \<Rightarrow> (\<exists>s. sa = Some s \<and> reflects tg d v s)) \<and>
     (case b of None \<Rightarrow> True | Some v \<Rightarrow> (\<exists>s. sb = Some s \<and> reflects tg d v s)))"
| "reflects tg d (VElem et tag as v) st = (\<exists>el ch t bs. st = SElem el (map (attr_state_of el) as) ch \<and>
     content d el = Some (NElem t bs) \<and> (t = tag \<or> tg t = tag) \<and>
     (case ch of None \<Rightarrow> SELF_CLOSING et \<or> \<not> exists_view v | Some s \<Rightarrow> reflects tg d v s))"

lemma exists_view_ty: "has_vty ty v \<Longrightarrow> exists_view v = exists_ty ty"
proof (induction v arbitrary: ty)
  case (VTuple vs)
  then obtain ts where ts: "ty = TyTuple ts" "list_all2 has_vty ts vs" by (auto split: vty.splits)
  have "list_ex exists_view vs = list_ex exists_ty ts"
    using ts(2) VTuple.IH by (induction ts vs rule: list_all2_induct) auto
  then show ?case using ts by simp
qed (auto split: vty.splits)

lemma st_ok_complete: "st_ok d st ty \<Longrightarrow> st_complete st"
proof (induction st arbitrary: ty)
  case (STuple sts)
  then obtain ts where "list_all2 (st_ok d) sts ts" by auto
  then have "\<forall>st\<in>set sts. \<exists>t. st_ok d st t" by (metis in_set_conv_nth list_all2_conv_all_nth)
  then show ?case using STuple(1) by (auto simp: list_all_iff)
next
  case (SKeep a b show_b)
  then show ?case by (auto split: option.splits)
qed (auto simp: list_all_iff split: if_splits)

lemma st_ok_nodes: "st_ok d st ty \<Longrightarrow> has_node ty \<Longrightarrow> nodes st \<noteq> []"
proof (induction st arbitrary: ty)
  case (STuple sts)
  then obtain ts where ts: "ty = TyTuple ts" "list_all2 (st_ok d) sts ts" by auto
  obtain t where "t \<in> set ts" "has_node t" using STuple(3) ts by (auto simp: list_ex_iff)
  then obtain st where "st \<in> set sts" "st_ok d st t" using ts(2) by (metis in_set_conv_nth list_all2_conv_all_nth)
  then show ?case using STuple(1) \<open>has_node t\<close> by auto
next
  case (SArray sts)
  then obtain st where "st \<in> set sts" by (cases sts) auto
  moreover then have "nodes st \<noteq> []" using SArray by auto
  ultimately show ?case by auto
next
  case (SKeep a b show_b)
  then show ?case by (auto split: option.splits)
next
  case (SEither i st)
  then obtain ts where "ty = TyEither ts" "i < length ts" "st_ok d st (ts ! i)" by auto
  moreover then have "has_node (ts ! i)" using SEither(3) by (simp add: list_all_iff)
  ultimately show ?case using SEither(1) by simp
qed (auto simp: list_all_iff split: if_splits)

subsection \<open>What may change\<close>

text \<open>A comment stays a comment.\<close>

definition comments_kept :: "dom \<Rightarrow> dom \<Rightarrow> bool" where
  "comments_kept d d' \<longleftrightarrow> (\<forall>n. is_comment d n \<longrightarrow> is_comment d' n)"

lemma comments_kept_refl [simp]: "comments_kept d d"
  by (simp add: comments_kept_def)

lemma comments_kept_trans: "comments_kept d d1 \<Longrightarrow> comments_kept d1 d2 \<Longrightarrow> comments_kept d d2"
  by (simp add: comments_kept_def)

lemma comments_kept_same: "content d' = content d \<Longrightarrow> comments_kept d d'"
  by (simp add: comments_kept_def is_comment_def)

lemma children_ok_same: "kids d' p = kids d p \<Longrightarrow> comments_kept d d' \<Longrightarrow> children_ok d p ns \<Longrightarrow> children_ok d' p ns"
  by (auto simp: children_ok_def comments_kept_def)

definition dom_evolves :: "dom \<Rightarrow> dom \<Rightarrow> nat set \<Rightarrow> nat set \<Rightarrow> bool" where
  "dom_evolves d d' S P \<longleftrightarrow> next_node d \<le> next_node d' \<and>
     (\<forall>n<next_node d. n \<notin> S \<longrightarrow> content d' n = content d n \<and> parent d' n = parent d n \<and>
        (n \<notin> P \<longrightarrow> kids d' n = kids d n)) \<and> comments_kept d d'"

lemma dom_evolves_refl [simp]: "dom_evolves d d S P"
  by (simp add: dom_evolves_def)

lemma dom_evolves_mono: "dom_evolves d d' S P \<Longrightarrow> S \<subseteq> S' \<Longrightarrow> P \<subseteq> S' \<union> P' \<Longrightarrow> dom_evolves d d' S' P'"
  unfolding dom_evolves_def by blast

lemma dom_evolves_trans:
  assumes "dom_evolves d d1 S P" "dom_evolves d1 d2 S' P" "S' \<subseteq> S \<union> {next_node d..}"
  shows "dom_evolves d d2 S P"
  unfolding dom_evolves_def
proof (intro conjI allI impI)
  show "next_node d \<le> next_node d2" using assms(1,2) by (auto simp: dom_evolves_def)
  fix n assume n: "n < next_node d" "n \<notin> S"
  then have n': "n < next_node d1" "n \<notin> S'" using assms(1,3) by (auto simp: dom_evolves_def)
  show "content d2 n = content d n" "parent d2 n = parent d n" using assms(1,2) n n' by (simp_all add: dom_evolves_def)
  assume "n \<notin> P"
  then show "kids d2 n = kids d n" using assms(1,2) n n' by (simp add: dom_evolves_def)
qed (use assms(1,2) comments_kept_trans in \<open>auto simp: dom_evolves_def\<close>)

lemma dom_evolves_next: "dom_evolves d d' S P \<Longrightarrow> next_node d \<le> next_node d'"
  by (simp add: dom_evolves_def)

lemma comments_kept_errors [simp]:
  "comments_kept (d\<lparr>errors := s\<rparr>) d' = comments_kept d d'" "comments_kept d (d'\<lparr>errors := s\<rparr>) = comments_kept d d'"
  by (simp_all add: comments_kept_def is_comment_def)

lemma dom_evolves_errors:
  "dom_evolves (d\<lparr>errors := s\<rparr>) d' S P = dom_evolves d d' S P" "dom_evolves d (d'\<lparr>errors := s\<rparr>) S P = dom_evolves d d' S P"
  "dom_evolves (on_errors f d) d' S P = dom_evolves d d' S P" "dom_evolves d (on_errors f d') S P = dom_evolves d d' S P"
  by (simp_all add: dom_evolves_def on_errors_def)

text \<open>Everything said of a state depends on its own nodes.\<close>

definition same_on :: "nat set \<Rightarrow> dom \<Rightarrow> dom \<Rightarrow> bool" where
  "same_on S d d' \<longleftrightarrow> (\<forall>n\<in>S. content d' n = content d n \<and> parent d' n = parent d n \<and> kids d' n = kids d n) \<and>
     comments_kept d d'"

lemma same_on_mono: "same_on S d d' \<Longrightarrow> S' \<subseteq> S \<Longrightarrow> same_on S' d d'"
  by (auto simp: same_on_def)

lemma st_ok_cong:
  assumes "content d' = content d" "kids d' = kids d" "parent d' = parent d"
  shows "st_ok d' st ty = st_ok d st ty"
proof (induction st arbitrary: ty)
  case (STuple sts)
  have "list_all2 (st_ok d') sts ts = list_all2 (st_ok d) sts ts" for ts
    using STuple by (intro list.rel_cong) auto
  then show ?case by simp
qed (simp_all add: assms text_at_def is_comment_def children_ok_def split: option.split)

lemma reflects_content:
  "\<forall>n\<in>set (held_nodes st). content d' n = content d n \<Longrightarrow> reflects tg d v st \<Longrightarrow> reflects tg d' v st"
proof (induction v arbitrary: st)
  case (VTuple vs)
  then obtain sts where sts: "st = STuple sts" "list_all2 (reflects tg d) vs sts" by auto
  have "\<forall>n\<in>set (held_nodes s). content d' n = content d n" if "s \<in> set sts" for s
    using VTuple(2) sts(1) that by auto
  then have "list_all2 (reflects tg d') vs sts" using sts(2) VTuple(1) by (auto elim!: list.rel_mono_strong)
  then show ?case using sts by simp
next
  case (VArray vs)
  then obtain sts where sts: "st = SArray sts" "list_all2 (reflects tg d) vs sts" by auto
  have "\<forall>n\<in>set (held_nodes s). content d' n = content d n" if "s \<in> set sts" for s
    using VArray(2) sts(1) that by auto
  then have "list_all2 (reflects tg d') vs sts" using sts(2) VArray(1) by (auto elim!: list.rel_mono_strong)
  then show ?case using sts by simp
next
  case (VVec vs)
  then obtain sts m where sts: "st = SVec sts m" "list_all2 (reflects tg d) vs sts" by auto
  have "\<forall>n\<in>set (held_nodes s). content d' n = content d n" if "s \<in> set sts" for s
    using VVec(2) sts(1) that by auto
  then have "list_all2 (reflects tg d') vs sts" using sts(2) VVec(1) by (auto elim!: list.rel_mono_strong)
  then show ?case using sts by simp
next
  case (VStaticVec vs)
  then obtain sts m where sts: "st = SStaticVec sts m" "list_all2 (reflects tg d) vs sts" by auto
  have "\<forall>n\<in>set (held_nodes s). content d' n = content d n" if "s \<in> set sts" for s
    using VStaticVec(2) sts(1) that by auto
  then have "list_all2 (reflects tg d') vs sts" using sts(2) VStaticVec(1) by (auto elim!: list.rel_mono_strong)
  then show ?case using sts by simp
next
  case (VAny t v)
  then obtain s ph where st: "st = SAny t s ph" by auto
  then have "\<forall>n\<in>set (held_nodes s). content d' n = content d n" using VAny(2) by auto
  then show ?case using VAny st by auto
next
  case (VKeep a b show_b)
  then obtain sa sb where st: "st = SKeep sa sb show_b" by auto
  have "\<forall>n\<in>set (held_nodes s). content d' n = content d n" if "sa = Some s \<or> sb = Some s" for s
    using VKeep(3) st that by auto
  then show ?case using VKeep st by (auto split: option.splits)
next
  case (VElem et tag as v)
  then obtain el ch where st: "st = SElem el (map (attr_state_of el) as) ch" by auto
  have "ch = Some s \<Longrightarrow> \<forall>n\<in>set (held_nodes s). content d' n = content d n" for s using VElem(2) st by auto
  moreover have "content d' el = content d el" using VElem(2) st by simp
  ultimately show ?case using VElem st by (auto split: option.splits)
qed auto

lemma reflects_same: "same_on (set (held_nodes st)) d d' \<Longrightarrow> reflects tg d v st \<Longrightarrow> reflects tg d' v st"
  by (rule reflects_content) (simp_all add: same_on_def)

text \<open>Moving the nodes of a state does not change what it remembers: hidden nodes stay without a parent.\<close>

definition same_inside :: "vstate \<Rightarrow> dom \<Rightarrow> dom \<Rightarrow> bool" where
  "same_inside st d d' \<longleftrightarrow> comments_kept d d' \<and> (\<forall>n\<in>set (held_nodes st). content d' n = content d n \<and> kids d' n = kids d n \<and>
     (n \<notin> set (nodes st) \<longrightarrow> parent d' n = parent d n))"

lemma same_on_inside: "same_on (set (held_nodes st)) d d' \<Longrightarrow> same_inside st d d'"
  by (simp add: same_on_def same_inside_def)

lemma nodes_of_part:
  "distinct (concat (map held_nodes sts)) \<Longrightarrow> st \<in> set sts \<Longrightarrow> n \<in> set (held_nodes st) \<Longrightarrow> s \<in> set sts \<Longrightarrow>
   n \<in> set (nodes s) \<Longrightarrow> n \<in> set (nodes st)"
proof (induction sts)
  case (Cons x sts)
  then show ?case using nodes_owned [of s] by auto
qed simp

lemma same_inside_part:
  assumes "distinct (concat (map held_nodes sts) @ ns)" "st \<in> set sts"
    and "\<forall>n\<in>set (concat (map held_nodes sts)). content d' n = content d n \<and> kids d' n = kids d n \<and>
      (n \<notin> set (concat (map nodes sts) @ ns) \<longrightarrow> parent d' n = parent d n)"
    and "comments_kept d d'"
  shows "same_inside st d d'" "distinct (held_nodes st)"
proof -
  show "distinct (held_nodes st)" using assms(1,2) by (auto simp: distinct_concat_iff)
  show "same_inside st d d'"
    unfolding same_inside_def
  proof (intro conjI ballI assms(4))
    fix n assume n: "n \<in> set (held_nodes st)"
    then have "n \<in> set (concat (map held_nodes sts))" using assms(2) by auto
    moreover then have "n \<notin> set ns" using assms(1) by auto
    moreover have "n \<notin> set (nodes st) \<Longrightarrow> n \<notin> set (concat (map nodes sts))"
      using nodes_of_part [of sts st n] assms(1,2) n by auto
    ultimately show "content d' n = content d n" "kids d' n = kids d n" "n \<notin> set (nodes st) \<longrightarrow> parent d' n = parent d n"
      using assms(3) by auto
  qed
qed

lemma st_ok_moved: "same_inside st d d' \<Longrightarrow> distinct (held_nodes st) \<Longrightarrow> st_ok d st ty \<Longrightarrow> st_ok d' st ty"
proof (induction st arbitrary: ty)
  case (STuple sts)
  have "same_inside st d d'" "distinct (held_nodes st)" if "st \<in> set sts" for st
    using same_inside_part [of sts "[]" st d' d] STuple(2,3) that by (auto simp: same_inside_def)
  then have "list_all2 (st_ok d) sts ts \<Longrightarrow> list_all2 (st_ok d') sts ts" for ts
    using STuple(1) by (auto elim!: list.rel_mono_strong)
  then show ?case using STuple(4) by auto
next
  case (SArray sts)
  have "same_inside st d d'" "distinct (held_nodes st)" if "st \<in> set sts" for st
    using same_inside_part [of sts "[]" st d' d] SArray(2,3) that by (auto simp: same_inside_def)
  then show ?case using SArray(1,4) by auto
next
  case (SVec sts m)
  have "same_inside st d d'" "distinct (held_nodes st)" if "st \<in> set sts" for st
    using same_inside_part [of sts "[m]" st d' d] SVec(2,3) that by (auto simp: same_inside_def)
  moreover have "is_comment d' m = is_comment d m" using SVec(2) by (simp add: same_inside_def is_comment_def)
  ultimately show ?case using SVec(1,4) by auto
next
  case (SStaticVec sts m)
  have "same_inside st d d'" "distinct (held_nodes st)" if "st \<in> set sts" for st
    using same_inside_part [of sts "[m]" st d' d] SStaticVec(2,3) that by (auto simp: same_inside_def)
  moreover have "is_comment d' m = is_comment d m" using SStaticVec(2) by (simp add: same_inside_def is_comment_def)
  ultimately show ?case using SStaticVec(1,4) by auto
next
  case (SEither i st)
  then show ?case by (auto simp: same_inside_def)
next
  case (SResult ok st e h)
  then have "st = SPlace n \<Longrightarrow> is_comment d' n = is_comment d n" for n by (simp add: same_inside_def is_comment_def)
  moreover have "same_inside st d d'" "distinct (held_nodes st)" using SResult(2,3) by (auto simp: same_inside_def)
  ultimately show ?case using SResult(1,4) by (cases ok) auto
next
  case (SAny t st ph)
  have "same_inside st d d'" "distinct (held_nodes st)"
    using SAny(2,3) by (auto simp: same_inside_def split: option.splits)
  moreover have "ph = Some n \<Longrightarrow> is_comment d' n = is_comment d n" for n
    using SAny(2) by (simp add: same_inside_def is_comment_def)
  ultimately show ?case using SAny(1,4) by (auto split: option.splits)
next
  case (SKeep a b show_b)
  have sub: "a = Some st \<or> b = Some st \<Longrightarrow> set (held_nodes st) \<subseteq> set (held_nodes (SKeep a b show_b))" for st by auto
  have apart: "a = Some x \<Longrightarrow> b = Some y \<Longrightarrow> set (held_nodes x) \<inter> set (held_nodes y) = {}" for x y
    using SKeep(4) by auto
  have shown: "n \<in> set (nodes (SKeep a b show_b)) \<Longrightarrow> \<exists>x. (if show_b then b else a) = Some x \<and> n \<in> set (nodes x)" for n
    by (cases show_b; cases a; cases b) simp_all
  have in_side: "n \<in> set (nodes st)"
    if "a = Some st \<or> b = Some st" "n \<in> set (held_nodes st)" "n \<in> set (nodes (SKeep a b show_b))" for st n
    using shown [OF that(3)] that(1,2) apart nodes_owned by (cases show_b) (auto, blast+)
  have side: "same_inside st d d'" "distinct (held_nodes st)" if "a = Some st \<or> b = Some st" for st
  proof -
    show "same_inside st d d'"
      using SKeep(3) sub [OF that] in_side [OF that] unfolding same_inside_def by blast
    show "distinct (held_nodes st)" using SKeep(4) that by auto
  qed
  have hidden: "parent d' n = parent d n" if "(if show_b then a else b) = Some st" "n \<in> set (nodes st)" for st n
  proof -
    have st: "a = Some st \<or> b = Some st" using that(1) by (simp split: if_splits)
    have n: "n \<in> set (held_nodes st)" using nodes_owned that(2) by blast
    have "n \<notin> set (nodes (SKeep a b show_b))"
      using shown [of n] that(1) apart nodes_owned n by (cases show_b) (auto, blast+)
    then show ?thesis using SKeep(3) sub [OF st] n unfolding same_inside_def by blast
  qed
  obtain ta tb where ty: "ty = TyKeep ta tb"
    "case a of None \<Rightarrow> show_b | Some st \<Rightarrow> st_ok d st ta \<and> (show_b \<longrightarrow> (\<forall>n\<in>set (nodes st). parent d n = None))"
    "case b of None \<Rightarrow> \<not> show_b | Some st \<Rightarrow> st_ok d st tb \<and> (\<not> show_b \<longrightarrow> (\<forall>n\<in>set (nodes st). parent d n = None))"
    using SKeep(5) by auto
  have "case a of None \<Rightarrow> show_b | Some st \<Rightarrow> st_ok d' st ta \<and> (show_b \<longrightarrow> (\<forall>n\<in>set (nodes st). parent d' n = None))"
    using ty(2) SKeep(1) side hidden by (auto split: option.splits)
  moreover have "case b of None \<Rightarrow> \<not> show_b | Some st \<Rightarrow> st_ok d' st tb \<and> (\<not> show_b \<longrightarrow> (\<forall>n\<in>set (nodes st). parent d' n = None))"
    using ty(3) SKeep(2) side hidden by (auto split: option.splits)
  ultimately show ?case using ty(1) by simp
next
  case (SElem el as ch)
  have "same_inside st d d'" "distinct (held_nodes st)" if "ch = Some st" for st
    using SElem(2,3) that by (auto simp: same_inside_def)
  moreover have "content d' el = content d el" "kids d' el = kids d el" using SElem(2) by (auto simp: same_inside_def)
  moreover have "children_ok d' el ns" if "children_ok d el ns" for ns
    using children_ok_same [OF _ _ that] SElem(2) by (simp add: same_inside_def)
  ultimately show ?case using SElem(1,4) by (cases ch) auto
qed (auto simp: same_inside_def text_at_def is_comment_def)

lemma st_ok_same: "same_on (set (held_nodes st)) d d' \<Longrightarrow> distinct (held_nodes st) \<Longrightarrow> st_ok d st ty \<Longrightarrow> st_ok d' st ty"
  using st_ok_moved [OF same_on_inside] .

subsection \<open>Places\<close>

text \<open>
  A state is mounted between other children of an element, \<open>pre\<close> before and \<open>post\<close> after its nodes,
  or nowhere: then its nodes have no parent.
\<close>

type_synonym location = "(nat \<times> nat list \<times> nat list) option"

fun loc_ok :: "dom \<Rightarrow> location \<Rightarrow> nat list \<Rightarrow> bool" where
  "loc_ok d None ns = (\<forall>n\<in>set ns. parent d n = None)"
| "loc_ok d (Some (p, pre, post)) ns = (is_elem d p \<and> children_ok d p (pre @ ns @ post))"

fun loc_parent :: "location \<Rightarrow> nat set" where
  "loc_parent None = {}"
| "loc_parent (Some (p, pre, post)) = {p}"

text \<open>The place of a part of the nodes.\<close>

fun inner_loc :: "nat list \<Rightarrow> nat list \<Rightarrow> location \<Rightarrow> location" where
  "inner_loc ns ms None = None"
| "inner_loc ns ms (Some (p, pre, post)) = Some (p, pre @ ns, ms @ post)"

lemma loc_parent_inner [simp]: "loc_parent (inner_loc ns ms loc) = loc_parent loc"
  by (cases loc rule: loc_parent.cases) auto

lemma inner_loc_None [simp]: "inner_loc ns ms loc = None \<longleftrightarrow> loc = None"
  by (cases loc rule: loc_parent.cases) auto

lemma inner_loc_inner: "inner_loc ns ms (inner_loc ns' ms' loc) = inner_loc (ns' @ ns) (ms @ ms') loc"
  by (cases loc rule: loc_parent.cases) auto

lemma inner_loc_empty [simp]: "inner_loc [] [] loc = loc"
  by (cases loc rule: loc_parent.cases) auto

lemma loc_ok_inner: "loc_ok d loc (ns @ ms @ ks) \<Longrightarrow> loc_ok d (inner_loc ns ks loc) ms"
  by (cases loc rule: loc_parent.cases) auto

lemma loc_ok_outer:
  "loc_ok d (inner_loc ns ks loc) ms \<Longrightarrow> (loc = None \<Longrightarrow> \<forall>n\<in>set ns \<union> set ks. parent d n = None) \<Longrightarrow>
   loc_ok d loc (ns @ ms @ ks)"
  by (cases loc rule: loc_parent.cases) auto

definition fits :: "dom \<Rightarrow> location \<Rightarrow> vty \<Rightarrow> vstate \<Rightarrow> bool" where
  "fits d loc ty st \<longleftrightarrow> doc_ok d \<and> st_ok d st ty \<and> distinct (held_nodes st) \<and> (\<forall>n\<in>set (held_nodes st). n < next_node d) \<and>
     loc_ok d loc (nodes st) \<and> loc_parent loc \<inter> set (held_nodes st) = {}"

lemma fitsD:
  assumes "fits d loc ty st"
  shows "doc_ok d" "st_ok d st ty" "distinct (held_nodes st)" "n \<in> set (held_nodes st) \<Longrightarrow> n < next_node d"
    "loc_ok d loc (nodes st)" "loc_parent loc \<inter> set (held_nodes st) = {}"
  using assms by (simp_all add: fits_def)

lemma errors_simps [simp]:
  "doc_ok (d\<lparr>errors := s\<rparr>) = doc_ok d" "doc_ok (on_errors f d) = doc_ok d"
  "loc_ok (d\<lparr>errors := s\<rparr>) loc ns = loc_ok d loc ns" "loc_ok (on_errors f d) loc ns = loc_ok d loc ns"
  "st_ok (d\<lparr>errors := s\<rparr>) st ty = st_ok d st ty" "st_ok (on_errors f d) st ty = st_ok d st ty"
proof -
  show "loc_ok (d\<lparr>errors := s\<rparr>) loc ns = loc_ok d loc ns" "loc_ok (on_errors f d) loc ns = loc_ok d loc ns"
    by (cases loc rule: loc_parent.cases; simp add: on_errors_def is_elem_def children_ok_def is_comment_def)+
  show "st_ok (d\<lparr>errors := s\<rparr>) st ty = st_ok d st ty" "st_ok (on_errors f d) st ty = st_ok d st ty"
    by (rule st_ok_cong; simp add: on_errors_def)+
qed (simp_all add: doc_ok_def on_errors_def)

lemma fits_errors [simp]:
  "fits (d\<lparr>errors := s\<rparr>) loc ty st = fits d loc ty st" "fits (on_errors f d) loc ty st = fits d loc ty st"
  by (simp_all add: fits_def) (simp add: on_errors_def)

lemma reflects_errors [simp]:
  "reflects tg (d\<lparr>errors := s\<rparr>) v st = reflects tg d v st" "reflects tg (on_errors f d) v st = reflects tg d v st"
  by (auto simp: on_errors_def elim!: reflects_content [rotated])

end
