(* ===== verification/View_Build_Correct.thy ===== *)
theory View_Build_Correct
  imports View_Frame
begin

text \<open>Building a view creates new nodes that fit the view and leaves the document as it is.\<close>

lemma dom_evolves_same_on:
  assumes "dom_evolves d d' S P" "T \<inter> S = {}" "T \<inter> P = {}" "\<forall>n\<in>T. n < next_node d"
  shows "same_on T d d'"
  using assms unfolding dom_evolves_def same_on_def by blast

definition made :: "(string \<Rightarrow> string) \<Rightarrow> dom \<Rightarrow> dom \<Rightarrow> vty \<Rightarrow> view \<Rightarrow> vstate \<Rightarrow> bool" where
  "made tg d d' ty v st \<longleftrightarrow> fits d' None ty st \<and> reflects tg d' v st \<and> dom_evolves d d' {} {} \<and>
     set (held_nodes st) \<subseteq> {next_node d..<next_node d'}"

definition builds :: "(string \<Rightarrow> string) \<Rightarrow> vty \<Rightarrow> view \<Rightarrow> bool" where
  "builds tg ty v \<longleftrightarrow> (\<forall>d. doc_ok d \<longrightarrow> (\<exists>st d'. build v d = Inr (st, d') \<and> made tg d d' ty v st))"

lemma buildsE:
  assumes "builds tg ty v" "doc_ok d"
  obtains st d' where "build v d = Inr (st, d')" "made tg d d' ty v st"
  using assms unfolding builds_def by blast

lemma dom_evolves_new: "doc_ok d \<Longrightarrow> dom_evolves d (snd (add_node c d)) {} {}"
  using doc_okD(3) [of d "next_node d"] by (auto simp: dom_evolves_def comments_kept_def is_comment_def)

lemma dom_evolves_new_element:
  "doc_ok d \<Longrightarrow> dom_evolves d (with_attrs (next_node d) tag as (snd (add_node (NElem tag []) d))) {} {}"
  using doc_okD(3) [of d "next_node d"] by (auto simp: dom_evolves_def comments_kept_def is_comment_def with_attrs_def)

lemma comments_kept_kids [simp]:
  "comments_kept d (with_kids p ks ns q d') = comments_kept d d'" "comments_kept (with_kids p ks ns q d) d' = comments_kept d d'"
  by (simp_all add: comments_kept_def is_comment_def)

lemma made_doc: "made tg d d' ty v st \<Longrightarrow> doc_ok d'" "made tg d d' ty v st \<Longrightarrow> dom_evolves d d' {} {}"
  by (simp_all add: made_def fits_def)

text \<open>What was made stays while other things are made, and from an earlier document.\<close>

lemma fits_same:
  assumes "fits d loc ty st" "same_on (set (held_nodes st)) d d'" "doc_ok d'" "next_node d \<le> next_node d'"
    and "loc_ok d' loc' (nodes st)" "loc_parent loc' = loc_parent loc"
  shows "fits d' loc' ty st"
  using assms(3-6) fitsD [OF assms(1)] st_ok_same [OF assms(2)] by (auto simp: fits_def intro: less_le_trans)

lemma made_later:
  assumes "made tg d d1 ty v st" "dom_evolves d1 d2 {} {}" "doc_ok d2"
  shows "made tg d d2 ty v st"
proof -
  have fits: "fits d1 None ty st" and new: "set (held_nodes st) \<subseteq> {next_node d..<next_node d1}"
    using assms(1) by (simp_all add: made_def)
  have "\<forall>n\<in>set (held_nodes st). n < next_node d1" using new by auto
  then have same: "same_on (set (held_nodes st)) d1 d2" using dom_evolves_same_on [OF assms(2)] by blast
  have "loc_ok d2 None (nodes st)"
    using fitsD(5) [OF fits] same nodes_owned [of st] by (auto simp: same_on_def)
  then have "fits d2 None ty st" using fits_same [OF fits same assms(3) dom_evolves_next [OF assms(2)]] by simp
  moreover have "reflects tg d2 v st" using assms(1) reflects_same [OF same] by (simp add: made_def)
  moreover have "dom_evolves d d2 {} {}" using assms dom_evolves_trans [of d d1 "{}" "{}" d2 "{}"] by (simp add: made_def)
  ultimately show ?thesis using new dom_evolves_next [OF assms(2)] by (auto simp: made_def)
qed

lemma made_earlier: "made tg d1 d2 ty v st \<Longrightarrow> dom_evolves d d1 {} {} \<Longrightarrow> made tg d d2 ty v st"
  using dom_evolves_trans [of d d1 "{}" "{}" d2 "{}"] dom_evolves_next [of d d1] unfolding made_def by fastforce

lemma made_errors [simp]:
  "made tg d (on_errors f d') ty v st = made tg d d' ty v st"
  "made tg d (d'\<lparr>errors := s\<rparr>) ty v st = made tg d d' ty v st"
  by (simp_all add: made_def dom_evolves_errors) (simp add: on_errors_def)

subsection \<open>New nodes\<close>

lemma creates:
  "create_element tag d = (next_node d, snd (add_node (NElem tag []) d))"
  "create_text_node s d = (next_node d, snd (add_node (NText s) d))"
  "create_placeholder d = (next_node d, snd (add_node (NComment []) d))"
  by (simp_all add: create_element_def create_text_node_def create_placeholder_def prod_eq_iff)

lemma made_text:
  assumes "doc_ok d" "ty = TyText \<or> ty = TyPrim e"
  shows "reflects tg (snd (add_node (NText s) d)) v (SText (next_node d) s) \<Longrightarrow>
    made tg d (snd (add_node (NText s) d)) ty v (SText (next_node d) s)"
  using assms doc_ok_new by (auto simp: made_def fits_def text_at_def dom_evolves_new)

lemma made_place:
  assumes "doc_ok d"
  shows "made tg d (snd (add_node (NComment []) d)) TyUnit VUnit (SPlace (next_node d))"
  using assms doc_ok_new by (auto simp: made_def fits_def is_comment_def dom_evolves_new)

subsection \<open>Lists of views\<close>

lemma made_Cons:
  assumes "made tg d d1 t v st" "made tg d1 d2 (TyTuple ts) (VTuple vs) (STuple sts)"
  shows "made tg d d2 (TyTuple (t # ts)) (VTuple (v # vs)) (STuple (st # sts))"
proof -
  have one: "made tg d d2 t v st" using made_later [OF assms(1)] made_doc [OF assms(2)] by blast
  have rest: "made tg d d2 (TyTuple ts) (VTuple vs) (STuple sts)"
    using made_earlier [OF assms(2)] made_doc [OF assms(1)] by blast
  have "set (held_nodes st) \<subseteq> {next_node d..<next_node d1}" "set (held_nodes (STuple sts)) \<subseteq> {next_node d1..<next_node d2}"
    using assms by (simp_all add: made_def)
  then have "set (held_nodes st) \<inter> set (held_nodes (STuple sts)) = {}" by fastforce
  then show ?thesis using one rest by (auto simp: made_def fits_def)
qed

lemma build_list:
  assumes "list_all2 (builds tg) ts vs" "doc_ok d"
  shows "\<exists>sts d'. map_state build vs d = Inr (sts, d') \<and> made tg d d' (TyTuple ts) (VTuple vs) (STuple sts)"
  using assms
proof (induction ts vs arbitrary: d rule: list_all2_induct)
  case Nil
  then show ?case by (simp add: made_def fits_def)
next
  case (Cons t ts v vs)
  obtain st d1 where st: "build v d = Inr (st, d1)" "made tg d d1 t v st"
    using buildsE [OF Cons(1,4)] .
  obtain sts d2 where "map_state build vs d1 = Inr (sts, d2)" "made tg d1 d2 (TyTuple ts) (VTuple vs) (STuple sts)"
    using Cons(3) made_doc(1) [OF st(2)] by blast
  then show ?case using st made_Cons by fastforce
qed

text \<open>A list of states of one type, with a marker.\<close>

definition uniform :: "vstate list \<Rightarrow> vty \<Rightarrow> vty" where
  "uniform sts t = TyTuple (replicate (length sts) t)"

lemma list_all2_replicate: "list_all2 P (replicate (length xs) t) xs \<longleftrightarrow> (\<forall>x\<in>set xs. P t x)"
  "list_all2 Q xs (replicate (length xs) t) \<longleftrightarrow> (\<forall>x\<in>set xs. Q x t)"
  by (auto simp: list_all2_conv_all_nth all_set_conv_all_nth)

lemma fits_vec:
  assumes "doc_ok d" "is_comment d m"
    and "fits d (inner_loc [] [m] loc) (TyTuple (replicate (length sts) t)) (STuple sts)"
    and "m \<notin> set (concat (map held_nodes sts))" "m < next_node d" "m \<notin> loc_parent loc" "loc = None \<Longrightarrow> parent d m = None"
  shows "fits d loc (TyVec t) (SVec sts m)" "fits d loc (TyStaticVec t) (SStaticVec sts m)"
proof -
  have "loc_ok d loc ([] @ concat (map nodes sts) @ [m])"
    using fitsD(5) [OF assms(3)] assms(7) by (intro loc_ok_outer) auto
  then show "fits d loc (TyVec t) (SVec sts m)" "fits d loc (TyStaticVec t) (SStaticVec sts m)"
    using assms fitsD [OF assms(3)] by (auto simp: fits_def list_all2_replicate)
qed

lemma made_vec:
  assumes "made tg d1 d2 (TyTuple (replicate (length vs) t)) (VTuple vs) (STuple sts)"
    and "d1 = snd (add_node (NComment []) d)" "m = next_node d" "doc_ok d"
  shows "made tg d d2 (TyVec t) (VVec vs) (SVec sts m)" "made tg d d2 (TyStaticVec t) (VStaticVec vs) (SStaticVec sts m)"
proof -
  have ev: "dom_evolves d d1 {} {}" "dom_evolves d1 d2 {} {}" using assms dom_evolves_new made_doc(2) by auto
  have new: "set (held_nodes (STuple sts)) \<subseteq> {next_node d1..<next_node d2}" "next_node d1 = Suc (next_node d)"
    using assms by (simp_all add: made_def)
  have refl: "list_all2 (reflects tg d2) vs sts" using assms(1) by (simp add: made_def)
  then have fits: "fits d2 (inner_loc [] [m] None) (TyTuple (replicate (length sts) t)) (STuple sts)"
    using assms(1) by (simp add: made_def list_all2_lengthD)
  have same: "same_on {m} d1 d2" using dom_evolves_same_on [OF ev(2), of "{m}"] assms(3) new(2) by auto
  then have m: "is_comment d2 m" "parent d2 m = None" "m \<notin> set (concat (map held_nodes sts))" "m < next_node d2"
    using assms(2,3) new dom_evolves_next [OF ev(2)] by (auto simp: same_on_def is_comment_def)
  have "doc_ok d2" using made_doc(1) [OF assms(1)] .
  note f = fits_vec [OF this m(1) fits m(3,4)]
  have "dom_evolves d d2 {} {}" using dom_evolves_trans [OF ev] by simp
  moreover have "set (concat (map held_nodes sts)) \<union> {m} \<subseteq> {next_node d..<next_node d2}" using new m(4) assms(3) by auto
  ultimately show "made tg d d2 (TyVec t) (VVec vs) (SVec sts m)"
    "made tg d d2 (TyStaticVec t) (VStaticVec vs) (SStaticVec sts m)"
    using f m(2) refl by (auto simp: made_def)
qed

subsection \<open>Elements\<close>

text \<open>Mounting new nodes at the end of a new element.\<close>

lemma same_inside_mounted:
  "n \<notin> set (held_nodes st) \<Longrightarrow> same_inside st d (with_kids n ks (nodes st) q d)"
  by (auto simp: same_inside_def)

lemma made_element:
  assumes d: "doc_ok d" and d1: "d1 = with_attrs (next_node d) tag as (snd (add_node (NElem tag []) d))"
    and made: "made tg d1 d2 t v st" and sc: "\<not> SELF_CLOSING et" and tag: "TAG et \<noteq> [] \<Longrightarrow> tag = TAG et"
    and as: "attrs_ok (next_node d) as ats (map (attr_state_of (next_node d)) xs)"
  shows "\<exists>d'. mount (next_node d) None st d2 = Inr d' \<and>
    made tg d d' (TyElem et ats t) (VElem et tag xs v) (SElem (next_node d) (map (attr_state_of (next_node d)) xs) (Some st))"
proof -
  let ?el = "next_node d"
  have fits: "fits d2 None t st" and ev: "dom_evolves d1 d2 {} {}" and new: "set (held_nodes st) \<subseteq> {Suc ?el..<next_node d2}"
    and refl: "reflects tg d2 v st"
    using made d1 by (simp_all add: made_def with_attrs_def)
  have el: "content d2 ?el = Some (NElem tag as)" "kids d2 ?el = []" "?el < next_node d2" "?el \<notin> set (held_nodes st)"
    "parent d2 ?el = None"
    using ev new unfolding dom_evolves_def d1 by (auto simp: with_attrs_def)
  let ?d = "with_kids ?el (nodes st) (nodes st) (Some ?el) d2"
  have "insert_all ?el None (nodes st) d2 = with_kids ?el (kids d2 ?el @ nodes st) (nodes st) (Some ?el) d2 \<and>
    doc_ok (insert_all ?el None (nodes st) d2)"
    using fitsD [OF fits] distinct_nodes nodes_owned [of st] by (intro insert_all_end el(3)) auto
  then have "insert_all ?el None (nodes st) d2 = ?d" "doc_ok ?d" by (auto simp: el(2))
  then have m: "mount ?el None st d2 = Inr ?d" "doc_ok ?d"
    using mount_nodes [OF st_ok_complete [OF fitsD(2) [OF fits]]] by auto
  have "st_ok ?d st t" using st_ok_moved [OF same_inside_mounted [OF el(4)] fitsD(3,2) [OF fits]] .
  moreover have "reflects tg ?d v st" using refl by (rule reflects_content [rotated]) simp
  moreover have "dom_evolves d ?d {} {}"
    using dom_evolves_trans [OF dom_evolves_new_element [OF d] ev [unfolded d1]] new nodes_owned [of st]
    by (auto simp: dom_evolves_def)
  moreover have "children_ok ?d ?el (nodes st)" by (simp add: children_ok_def)
  moreover have "?el \<notin> set (nodes st)" using el(4) nodes_owned [of st] by auto
  ultimately have "made tg d ?d (TyElem et ats t) (VElem et tag xs v) (SElem ?el (map (attr_state_of ?el) xs) (Some st))"
    using m(2) fitsD [OF fits] el new as tag sc by (auto simp: made_def fits_def)
  then show ?thesis using m(1) by blast
qed

lemma builds_element:
  assumes "builds tg t v" "has_vty (TyElem et ats t) (VElem et tag xs v)" "attrs_typed ats"
  shows "builds tg (TyElem et ats t) (VElem et tag xs v)"
  unfolding builds_def
proof (intro allI impI)
  fix d assume d: "doc_ok d"
  let ?el = "next_node d" and ?d0 = "snd (add_node (NElem tag []) d)"
  have tag: "TAG et \<noteq> [] \<Longrightarrow> tag = TAG et" and typed: "list_all2 has_aty ats xs" using assms(2) by auto
  have "content ?d0 ?el = Some (NElem tag [])" by simp
  from attrs_build_ok [OF this typed assms(3)] obtain as where
    as: "attrs_build ?el xs ?d0 = (map (attr_state_of ?el) xs, with_attrs ?el tag as ?d0)"
      "attrs_ok ?el as ats (map (attr_state_of ?el) xs)"
    using attrs_off_empty by blast
  define d1 where "d1 = with_attrs ?el tag as ?d0"
  have create: "create_element tag d = (?el, ?d0)" by (rule creates)
  have d1: "doc_ok d1" using doc_ok_new [OF d] unfolding d1_def by (rule doc_ok_cong [rotated -1]) (simp_all add: with_attrs_def)
  show "\<exists>st d'. build (VElem et tag xs v) d = Inr (st, d') \<and> made tg d d' (TyElem et ats t) (VElem et tag xs v) st"
  proof (cases "SELF_CLOSING et")
    case True
    have "made tg d d1 (TyElem et ats t) (VElem et tag xs v) (SElem ?el (map (attr_state_of ?el) xs) None)"
      using d1 True as(2) tag dom_evolves_new_element [OF d, of tag as]
      by (auto simp: made_def fits_def d1_def children_ok_def) (auto simp: with_attrs_def)
    then show ?thesis using True create as(1) by (simp add: element_build_def d1_def)
  next
    case False
    obtain st d2 where st: "build v d1 = Inr (st, d2)" "made tg d1 d2 t v st" using buildsE [OF assms(1) d1] .
    from made_element [OF d d1_def st(2) False tag as(2)] obtain d3 where "mount ?el None st d2 = Inr d3"
      "made tg d d3 (TyElem et ats t) (VElem et tag xs v) (SElem ?el (map (attr_state_of ?el) xs) (Some st))" by blast
    then show ?thesis using False create as(1) st(1) by (simp add: element_build_def d1_def)
  qed
qed

subsection \<open>All views\<close>

lemma made_wrap:
  assumes "made tg d d' t v st"
  shows "i < length ts \<Longrightarrow> ts ! i = t \<Longrightarrow> made tg d d' (TyEither ts) (VEither n i v) (SEither i st)"
    and "made tg d d' (TyResult t) (VOk v) (SResult True st e h)"
    and "wf_vty t \<Longrightarrow> has_node t \<Longrightarrow> exists_ty t \<Longrightarrow> exists_view v \<Longrightarrow> made tg d d' TyAny (VAny t v) (SAny t st None)"
  using assms by (auto simp: made_def fits_def)

lemma builds_list:
  assumes "\<And>v ty. v \<in> set vs \<Longrightarrow> has_vty ty v \<Longrightarrow> wf_vty ty \<Longrightarrow> filled v \<Longrightarrow> builds tg ty v"
    and "list_all2 has_vty ts vs" "list_all wf_vty ts" "list_all filled vs"
  shows "list_all2 (builds tg) ts vs"
  using assms(2,1,3,4) by (induction ts vs rule: list_all2_induct) auto

lemma made_array:
  assumes "made tg d d' (TyTuple (replicate (length vs) t)) (VTuple vs) (STuple sts)"
  shows "made tg d d' (TyArray (length vs) t) (VArray vs) (SArray sts)"
proof -
  have "length vs = length sts" using assms by (auto simp: made_def dest: list_all2_lengthD)
  then show ?thesis using assms list_all2_replicate(2) [of "st_ok d'" sts t] by (simp add: made_def fits_def)
qed

lemma made_any_marker:
  assumes "made tg d d1 t v st" "wf_vty t" "has_node t" "\<not> exists_ty t" "\<not> exists_view v"
  shows "made tg d (snd (add_node (NComment []) d1)) TyAny (VAny t v) (SAny t st (Some (next_node d1)))"
proof -
  let ?d = "snd (add_node (NComment []) d1)"
  have d1: "doc_ok d1" using made_doc(1) [OF assms(1)] .
  have "made tg d ?d t v st" using made_later [OF assms(1) dom_evolves_new [OF d1] doc_ok_new [OF d1]] .
  moreover have "next_node d1 \<notin> set (held_nodes st)" "next_node d \<le> next_node d1"
    using assms(1) by (auto simp: made_def dom_evolves_def)
  ultimately show ?thesis using assms(2-5) by (auto simp: made_def fits_def is_comment_def)
qed

lemma made_keep:
  assumes "case a of None \<Rightarrow> sa = None \<and> d1 = d | Some v \<Rightarrow> \<exists>st. sa = Some st \<and> made tg d d1 ta v st"
    and "case b of None \<Rightarrow> sb = None \<and> d2 = d1 | Some v \<Rightarrow> \<exists>st. sb = Some st \<and> made tg d1 d2 tb v st"
    and "if show_b then b \<noteq> None else a \<noteq> None" "doc_ok d"
  shows "made tg d d2 (TyKeep ta tb) (VKeep a b show_b) (SKeep sa sb show_b)"
proof -
  have ev: "doc_ok d1" "dom_evolves d d1 {} {}" "doc_ok d2" "dom_evolves d1 d2 {} {}"
    using assms(1,2,4) made_doc by (auto split: option.splits)
  then have ev2: "dom_evolves d d2 {} {}" using dom_evolves_trans [OF ev(2,4)] by simp
  have a: "\<exists>st. sa = Some st \<and> made tg d d2 ta v st \<and> set (held_nodes st) \<subseteq> {next_node d..<next_node d1}" if that_a: "a = Some v" for v
  proof -
    obtain st where "sa = Some st" "made tg d d1 ta v st" using assms(1) that_a by auto
    moreover then have "made tg d d2 ta v st" using made_later [OF _ ev(4,3)] by blast
    ultimately show ?thesis by (auto simp: made_def [of tg d d1])
  qed
  have b: "\<exists>st. sb = Some st \<and> made tg d d2 tb v st \<and> set (held_nodes st) \<subseteq> {next_node d1..<next_node d2}" if that_b: "b = Some v" for v
  proof -
    obtain st where "sb = Some st" "made tg d1 d2 tb v st" using assms(2) that_b by auto
    moreover then have "made tg d d2 tb v st" using made_earlier [OF _ ev(2)] by blast
    ultimately show ?thesis by (auto simp: made_def [of tg d1 d2])
  qed
  have no: "a = None \<Longrightarrow> sa = None" "b = None \<Longrightarrow> sb = None" using assms(1,2) by auto
  have apart: "{next_node d..<next_node d1} \<inter> {next_node d1..<next_node d2} = {}" by auto
  show ?thesis
  proof (cases a; cases b)
    fix v w assume "a = Some v" "b = Some w"
    then obtain x y where xy: "sa = Some x" "made tg d d2 ta v x" "set (held_nodes x) \<subseteq> {next_node d..<next_node d1}"
      "sb = Some y" "made tg d d2 tb w y" "set (held_nodes y) \<subseteq> {next_node d1..<next_node d2}"
      using a [of v] b [of w] by auto
    then have "set (held_nodes x) \<inter> set (held_nodes y) = {}" using apart by blast
    then show ?thesis using xy \<open>a = Some v\<close> \<open>b = Some w\<close> by (auto simp: made_def fits_def)
  next
    fix v assume "a = Some v" "b = None"
    then show ?thesis using a [of v] no assms(3) by (auto simp: made_def fits_def split: if_splits)
  next
    fix w assume "a = None" "b = Some w"
    then show ?thesis using b [of w] no assms(3) by (auto simp: made_def fits_def split: if_splits)
  qed (use assms(3) in \<open>auto split: if_splits\<close>)
qed

lemma vec_build_made:
  assumes "list_all2 (builds tg) (replicate (length vs) t) vs" "doc_ok d"
  shows "\<exists>sts m d'. vec_build (map_state build vs) d = Inr ((sts, m), d') \<and>
    made tg d d' (TyVec t) (VVec vs) (SVec sts m) \<and> made tg d d' (TyStaticVec t) (VStaticVec vs) (SStaticVec sts m)"
proof -
  let ?d = "snd (add_node (NComment []) d)"
  have "create_placeholder d = (next_node d, ?d)" by (rule creates)
  moreover obtain sts d' where "map_state build vs ?d = Inr (sts, d')"
    "made tg ?d d' (TyTuple (replicate (length vs) t)) (VTuple vs) (STuple sts)"
    using build_list [OF assms(1) doc_ok_new [OF assms(2)]] by blast
  ultimately show ?thesis using made_vec [OF _ refl refl assms(2)] by (fastforce simp: vec_build_def)
qed

lemma err_build_made:
  assumes "doc_ok d"
  shows "\<exists>st d'. err_build e d = Inr (st, d') \<and> made tg d d' (TyResult t) (VErr e) st"
proof -
  let ?d = "snd (add_node (NComment []) d)"
  obtain i s where "throw_error e (errors ?d) = (i, s)" by fastforce
  moreover have "create_placeholder d = (next_node d, ?d)" by (rule creates)
  moreover have "made tg d ?d (TyResult t) (VErr e) (SResult False (SPlace (next_node d)) i (hook (errors d)))"
    using made_place [OF assms, of tg] by (auto simp: made_def fits_def)
  ultimately show ?thesis by (simp add: err_build_def)
qed

lemma any_build_made:
  assumes "builds tg t v" "wf_vty t" "has_node t" "exists_ty t = exists_view v" "doc_ok d"
  shows "\<exists>st d'. any_build t (exists_view v) (build v) d = Inr (st, d') \<and> made tg d d' TyAny (VAny t v) st"
proof -
  obtain st d1 where st: "build v d = Inr (st, d1)" "made tg d d1 t v st" using buildsE [OF assms(1,5)] .
  have "create_placeholder d1 = (next_node d1, snd (add_node (NComment []) d1))" by (rule creates)
  then show ?thesis
    using st made_wrap(3) [OF st(2) assms(2,3)] made_any_marker [OF st(2) assms(2,3)] assms(4)
    by (simp add: any_build_def)
qed

lemma option_build_made:
  assumes "\<And>v. x = Some v \<Longrightarrow> builds tg t v" "doc_ok d"
  shows "\<exists>sx d'. option_state build x d = Inr (sx, d') \<and> doc_ok d' \<and>
    (case x of None \<Rightarrow> sx = None \<and> d' = d | Some v \<Rightarrow> \<exists>st. sx = Some st \<and> made tg d d' t v st)"
proof (cases x)
  case None
  then show ?thesis using assms(2) by (simp add: option_state_def)
next
  case (Some v)
  obtain st d' where "build v d = Inr (st, d')" "made tg d d' t v st" using buildsE [OF assms(1) [OF Some] assms(2)] .
  then show ?thesis using Some made_doc(1) by (fastforce simp: option_state_def)
qed

lemma buildsI:
  "(\<And>d. doc_ok d \<Longrightarrow> \<exists>st d'. build v d = Inr (st, d') \<and> made tg d d' ty v st) \<Longrightarrow> builds tg ty v"
  by (simp add: builds_def)

lemma builds_node:
  "builds tg TyText (VText s)" "builds tg (TyPrim e) (VPrim e s)" "builds tg TyUnit VUnit"
  using made_text [where e = e and tg = tg and s = s] made_place
  by (simp_all add: builds_def text_build_def creates)

theorem build_builds: "has_vty ty v \<Longrightarrow> wf_vty ty \<Longrightarrow> filled v \<Longrightarrow> builds tg ty v"
proof (induction v arbitrary: ty)
  case (VTuple vs)
  then obtain ts where ts: "ty = TyTuple ts" "list_all2 has_vty ts vs" by (auto split: vty.splits)
  then have "list_all2 (builds tg) ts vs" using VTuple by (intro builds_list) auto
  then show ?case using build_list ts(1) by (intro buildsI) fastforce
next
  case (VArray vs)
  then obtain t where t: "ty = TyArray (length vs) t" "list_all (has_vty t) vs" by (auto split: vty.splits)
  then have "list_all2 (builds tg) (replicate (length vs) t) vs"
    using VArray by (auto simp: list_all2_replicate list_all_iff)
  then have b: "doc_ok d \<Longrightarrow> \<exists>sts d'. map_state build vs d = Inr (sts, d') \<and>
      made tg d d' (TyArray (length vs) t) (VArray vs) (SArray sts)" for d
    using build_list [of tg _ vs d] made_array by blast
  show ?case
  proof (rule buildsI)
    fix d assume "doc_ok d"
    from b [OF this] show "\<exists>st d'. build (VArray vs) d = Inr (st, d') \<and> made tg d d' ty (VArray vs) st"
      using t(1) by auto
  qed
next
  case (VVec vs)
  then obtain t where t: "ty = TyVec t" "list_all (has_vty t) vs" by (auto split: vty.splits)
  then have "list_all2 (builds tg) (replicate (length vs) t) vs"
    using VVec by (auto simp: list_all2_replicate list_all_iff)
  from vec_build_made [OF this] show ?case using t(1) by (intro buildsI) fastforce
next
  case (VStaticVec vs)
  then obtain t where t: "ty = TyStaticVec t" "list_all (has_vty t) vs" by (auto split: vty.splits)
  then have "list_all2 (builds tg) (replicate (length vs) t) vs"
    using VStaticVec by (auto simp: list_all2_replicate list_all_iff)
  from vec_build_made [OF this] show ?case using t(1) by (intro buildsI) fastforce
next
  case (VEither n i v)
  then obtain ts where ts: "ty = TyEither ts" "i < length ts" "has_vty (ts ! i) v" by (auto split: vty.splits)
  then have "builds tg (ts ! i) v" using VEither by (simp add: list_all_length)
  then show ?case using made_wrap(1) [OF _ ts(2) refl] ts(1) by (intro buildsI) (fastforce simp: builds_def)
next
  case (VOk v)
  then obtain t where t: "ty = TyResult t" "builds tg t v" by (auto split: vty.splits)
  then show ?case using made_wrap(2) by (intro buildsI) (fastforce simp: builds_def)
next
  case (VErr e)
  then obtain t where "ty = TyResult t" by (auto split: vty.splits)
  then show ?case using err_build_made by (intro buildsI) simp
next
  case (VAny t v)
  then have "builds tg t v" "wf_vty t" "has_node t" "exists_ty t = exists_view v" using exists_view_ty by auto
  from any_build_made [OF this] show ?case using VAny by (intro buildsI) simp
next
  case (VKeep a b show_b)
  then obtain ta tb where ty: "ty = TyKeep ta tb" by (auto split: vty.splits)
  have sides: "\<And>v. a = Some v \<Longrightarrow> builds tg ta v" "\<And>v. b = Some v \<Longrightarrow> builds tg tb v"
    using VKeep ty by (auto split: option.splits)
  have shown: "if show_b then b \<noteq> None else a \<noteq> None" using VKeep(5) by (auto split: option.splits)
  show ?case
  proof (rule buildsI)
    fix d assume d: "doc_ok d"
    obtain sa d1 where a: "option_state build a d = Inr (sa, d1)" "doc_ok d1"
      "case a of None \<Rightarrow> sa = None \<and> d1 = d | Some v \<Rightarrow> \<exists>st. sa = Some st \<and> made tg d d1 ta v st"
      using option_build_made [OF sides(1) d] by blast
    obtain sb d2 where b: "option_state build b d1 = Inr (sb, d2)"
      "case b of None \<Rightarrow> sb = None \<and> d2 = d1 | Some v \<Rightarrow> \<exists>st. sb = Some st \<and> made tg d1 d2 tb v st"
      using option_build_made [OF sides(2) a(2)] by blast
    show "\<exists>st d'. build (VKeep a b show_b) d = Inr (st, d') \<and> made tg d d' ty (VKeep a b show_b) st"
      using made_keep [OF a(3) b(2) shown d] a(1) b(1) ty by simp
  qed
next
  case (VElem et tag xs v)
  then obtain ats t where "ty = TyElem et ats t" by (auto split: vty.splits)
  then show ?case using VElem builds_element by auto
qed (simp_all add: builds_node)

end
