(* ===== verification/View_Replace.thy ===== *)
theory View_Replace
  imports View_Build_Correct
begin

text \<open>States that take the place of another state in the document.\<close>

subsection \<open>Putting nodes into a place and taking them out\<close>

text \<open>Nodes are put before the first node that follows them; taking them out leaves the other children.\<close>

fun put_nodes :: "location \<Rightarrow> nat list \<Rightarrow> dom \<Rightarrow> dom" where
  "put_nodes None ns d = d"
| "put_nodes (Some (p, pre, post)) ns d =
     with_kids p (takeWhile (\<lambda>n. n \<noteq> hd post) (kids d p) @ ns @ dropWhile (\<lambda>n. n \<noteq> hd post) (kids d p)) ns (Some p) d"

fun take_out :: "location \<Rightarrow> nat list \<Rightarrow> dom \<Rightarrow> dom" where
  "take_out None ns d = d"
| "take_out (Some (p, pre, post)) ns d = with_kids p (filter (\<lambda>n. n \<notin> set ns) (kids d p)) ns None d"

lemma subseq_set: "subseq xs ys \<Longrightarrow> set xs \<subseteq> set ys"
  by (auto dest: list_emb_set)

lemma subseq_distinct: "subseq xs ys \<Longrightarrow> distinct ys \<Longrightarrow> distinct xs"
  by (induction rule: list_emb.induct) (auto dest: subseq_set)

lemma filter_out: "set xs \<inter> set ns = {} \<Longrightarrow> filter (\<lambda>n. n \<notin> set ns) xs = xs" "filter (\<lambda>n. n \<notin> set ns) ns = []"
  by (auto simp: filter_id_conv filter_empty_conv)

lemma subseq_around:
  assumes "subseq (xs @ m # ys) ks" "distinct ks"
  obtains k1 k2 where "ks = k1 @ m # k2" "subseq xs k1" "subseq ys k2" "m \<notin> set k1"
proof -
  have "m \<in> set ks" using subseq_set [OF assms(1)] by auto
  then obtain k1 k2 where k: "ks = k1 @ m # k2" by (auto dest: split_list)
  then have m: "m \<notin> set k1" "m \<notin> set k2" using assms(2) by auto
  have dist: "distinct (xs @ m # ys)" using subseq_distinct [OF assms] .
  obtain a b where ab: "xs @ m # ys = a @ b" "subseq a k1" "subseq b (m # k2)"
    using assms(1) k by (auto simp: subseq_append_iff)
  have "m \<notin> set a" using subseq_set [OF ab(2)] m by auto
  then obtain w where w: "xs = a @ w" "b = w @ m # ys" using ab(1) by (auto simp: append_eq_append_conv2 append_eq_Cons_conv Cons_eq_append_conv)
  have "w = []"
  proof (cases w)
    case (Cons x w')
    then have "x \<noteq> m" using dist w(1) by auto
    then have "subseq (w @ m # ys) k2" using ab(3) w(2) Cons by (auto elim: subseq_Cons2_neq)
    then show ?thesis using subseq_set m(2) by fastforce
  qed simp
  then show thesis using that [OF k _ _ m(1)] w ab(2,3) by simp
qed

lemma place_frame [simp]:
  "content (put_nodes loc ns d) = content d" "next_node (put_nodes loc ns d) = next_node d" "errors (put_nodes loc ns d) = errors d"
  "content (take_out loc ns d) = content d" "next_node (take_out loc ns d) = next_node d"
  "errors (take_out loc ns d) = errors d"
  by (cases loc rule: loc_parent.cases; simp)+

lemma place_evolves:
  "set ns \<subseteq> S \<union> {next_node d0..} \<Longrightarrow> next_node d0 \<le> next_node d \<Longrightarrow>
   dom_evolves d0 d S (loc_parent loc) \<Longrightarrow> dom_evolves d0 (put_nodes loc ns d) S (loc_parent loc)"
  "set ns \<subseteq> S \<union> {next_node d0..} \<Longrightarrow> next_node d0 \<le> next_node d \<Longrightarrow>
   dom_evolves d0 d S (loc_parent loc) \<Longrightarrow> dom_evolves d0 (take_out loc ns d) S (loc_parent loc)"
  by (cases loc rule: loc_parent.cases; auto simp: dom_evolves_def)+

lemma same_inside_place:
  assumes "loc_parent loc \<inter> set (held_nodes st) = {}"
  shows "same_inside st d (put_nodes loc (nodes st) d)" "same_inside st d (take_out loc (nodes st) d)"
    "set ns \<inter> set (held_nodes st) = {} \<Longrightarrow> same_inside st d (put_nodes loc ns d)"
    "set ns \<inter> set (held_nodes st) = {} \<Longrightarrow> same_inside st d (take_out loc ns d)"
  using assms by (cases loc rule: loc_parent.cases; auto simp: same_inside_def)+

text \<open>A state without a place is placed before the rest of the children.\<close>

lemma fits_take_out:
  assumes "fits d loc t st"
  shows "fits (take_out loc (nodes st) d) None t st" "loc_ok (take_out loc (nodes st) d) loc []"
    and "unlink_all (nodes st) d = take_out loc (nodes st) d"
proof -
  have sub: "set (nodes st) \<subseteq> set (kids d p)" if "loc = Some (p, pre, post)" for p pre post
    using fitsD(5) [OF assms] that by (auto simp: children_ok_def dest!: subseq_set)
  have "unlink_all (nodes st) d = take_out loc (nodes st) d \<and> doc_ok (unlink_all (nodes st) d)"
    using fitsD(5,1) [OF assms] unlink_all_none [of "nodes st" d] unlink_all_kids [OF fitsD(1) [OF assms] sub]
      distinct_nodes [OF fitsD(3) [OF assms]]
    by (cases loc rule: loc_parent.cases) auto
  then have out: "doc_ok (take_out loc (nodes st) d)" and "unlink_all (nodes st) d = take_out loc (nodes st) d"
    by auto
  then show "unlink_all (nodes st) d = take_out loc (nodes st) d" by simp
  have "st_ok (take_out loc (nodes st) d) st t"
    using st_ok_moved [OF same_inside_place(2)] fitsD(2,3,6) [OF assms] by blast
  moreover have "loc_ok (take_out loc (nodes st) d) None (nodes st)"
    using fitsD(5) [OF assms] by (cases loc rule: loc_parent.cases) auto
  ultimately show "fits (take_out loc (nodes st) d) None t st" using out fitsD [OF assms] by (simp add: fits_def)
  show "loc_ok (take_out loc (nodes st) d) loc []"
  proof (cases loc rule: loc_parent.cases)
    case (2 p pre post)
    then have k: "is_elem d p" "subseq (pre @ nodes st @ post) (kids d p)"
      "\<forall>n\<in>set (kids d p). n \<in> set (pre @ nodes st @ post) \<or> is_comment d n"
      using fitsD(5) [OF assms] by (auto simp: children_ok_def)
    have "distinct (pre @ nodes st @ post)" using subseq_distinct [OF k(2)] doc_okD(2) [OF fitsD(1) [OF assms]] by blast
    then have "set pre \<inter> set (nodes st) = {}" "set post \<inter> set (nodes st) = {}" by auto
    then have "filter (\<lambda>n. n \<notin> set (nodes st)) (pre @ nodes st @ post) = pre @ post" by (simp add: filter_out)
    then have "subseq (pre @ post) (filter (\<lambda>n. n \<notin> set (nodes st)) (kids d p))"
      using subseq_filter [OF k(2), of "\<lambda>n. n \<notin> set (nodes st)"] by simp
    then show ?thesis using k 2 by (auto simp: children_ok_def is_comment_def)
  qed simp
qed

lemma insert_before_place:
  assumes "fits d None t st" "loc = Some (p, pre, m # post)" "loc_ok d loc []" "loc_parent loc \<inter> set (held_nodes st) = {}"
  shows "parent_element d m = Some p" "mount p (Some m) st d = Inr (put_nodes loc (nodes st) d)"
    "fits (put_nodes loc (nodes st) d) loc t st"
proof -
  have k: "is_elem d p" "subseq (pre @ m # post) (kids d p)" "\<forall>n\<in>set (kids d p). n \<in> set (pre @ m # post) \<or> is_comment d n"
    using assms(2,3) by (auto simp: children_ok_def)
  obtain k1 k2 where ks: "kids d p = k1 @ m # k2" "subseq pre k1" "subseq post k2" "m \<notin> set k1"
    using subseq_around [OF k(2) doc_okD(2) [OF fitsD(1) [OF assms(1)]]] .
  have p: "p < next_node d" using elem_exists [OF fitsD(1) [OF assms(1)] k(1)] .
  have "parent d m = Some p" using doc_okD(1) [OF fitsD(1) [OF assms(1)], of m p] ks(1) by simp
  then show "parent_element d m = Some p" using k(1) by (simp add: parent_element_def)
  have pl: "put_nodes loc (nodes st) d = with_kids p (k1 @ nodes st @ m # k2) (nodes st) (Some p) d"
    using assms(2) ks(1,4) by (simp add: takeWhile_append dropWhile_append)
  have "insert_all p (Some m) (nodes st) d = with_kids p (k1 @ nodes st @ m # k2) (nodes st) (Some p) d \<and>
      doc_ok (insert_all p (Some m) (nodes st) d)"
    using fitsD [OF assms(1)] nodes_owned [of st] distinct_nodes by (intro insert_all_before ks(1) p) auto
  then have ins: "insert_all p (Some m) (nodes st) d = put_nodes loc (nodes st) d" "doc_ok (put_nodes loc (nodes st) d)"
    using pl by auto
  then show "mount p (Some m) st d = Inr (put_nodes loc (nodes st) d)"
    using mount_nodes [OF st_ok_complete [OF fitsD(2) [OF assms(1)]]] by simp
  have "st_ok (put_nodes loc (nodes st) d) st t"
    using st_ok_moved [OF same_inside_place(1) [OF assms(4)]] fitsD(2,3) [OF assms(1)] by blast
  moreover have "subseq (pre @ nodes st @ m # post) (k1 @ nodes st @ m # k2)"
    using ks(2,3) by (intro list_emb_append_mono) auto
  then have "loc_ok (put_nodes loc (nodes st) d) loc (nodes st)"
    using k ks(1) unfolding pl by (auto simp: assms(2) children_ok_def is_comment_def)
  ultimately show "fits (put_nodes loc (nodes st) d) loc t st"
    using ins(2) assms(4) fitsD [OF assms(1)] by (simp add: fits_def)
qed

text \<open>Exchanging two states.\<close>

definition exchanged :: "dom \<Rightarrow> dom \<Rightarrow> location \<Rightarrow> vty \<Rightarrow> vty \<Rightarrow> vstate \<Rightarrow> vstate \<Rightarrow> bool" where
  "exchanged d d' loc t t' old new \<longleftrightarrow> fits d' loc t' new \<and> fits d' None t old \<and> content d' = content d \<and>
     dom_evolves d d' (set (nodes old) \<union> set (nodes new)) (loc_parent loc)"

lemma exchange:
  assumes old: "fits d loc t old" and new: "fits d None t' new" and loc: "loc = Some (p, pre, post)"
    and apart: "set (held_nodes old) \<inter> set (held_nodes new) = {}" "loc_parent loc \<inter> set (held_nodes new) = {}"
    and mid: "nodes old = as @ m # bs"
    and d1: "d1 = put_nodes (Some (p, pre @ as, m # bs @ post)) (nodes new) d"
  shows "node_insert_before m new d = Inr (True, d1)" "set (nodes old) \<subseteq> set (kids d1 p)" "doc_ok d1"
    and "exchanged d (take_out loc (nodes old) d1) loc t t' old new"
proof -
  let ?l = "Some (p, pre @ as, m # bs @ post)" and ?d = "take_out loc (nodes old) d1"
  have k: "loc_ok d ?l []" using fitsD(5) [OF old] loc mid by simp
  have p: "p \<notin> set (held_nodes new)" "p \<notin> set (held_nodes old)" using apart(2) fitsD(6) [OF old] loc by auto
  have ins: "parent_element d m = Some p" "mount p (Some m) new d = Inr d1" "fits d1 ?l t' new"
    using insert_before_place [OF new refl k] p(1) by (simp_all add: d1)
  then show "node_insert_before m new d = Inr (True, d1)" by (simp add: node_insert_before_def)
  have k1: "subseq (pre @ as @ nodes new @ m # bs @ post) (kids d1 p)"
    "\<forall>n\<in>set (kids d1 p). n \<in> set (pre @ as @ nodes new @ m # bs @ post) \<or> is_comment d1 n"
    using fitsD(5) [OF ins(3)] by (auto simp: children_ok_def)
  show sub: "set (nodes old) \<subseteq> set (kids d1 p)" and ok1: "doc_ok d1"
    using fitsD(1) [OF ins(3)] subseq_set [OF k1(1)] mid by auto
  have no: "set (nodes old) \<inter> set (held_nodes new) = {}" "set (nodes new) \<inter> set (held_nodes old) = {}"
    "set (nodes old) \<inter> set (nodes new) = {}"
    using apart(1) nodes_owned [of old] nodes_owned [of new] by auto
  have dist: "distinct (pre @ as @ nodes new @ m # bs @ post)" using subseq_distinct [OF k1(1)] doc_okD(2) [OF ok1, of p] .
  have "doc_ok ?d"
    using sub elem_exists [OF ok1, of p] fitsD(5) [OF ins(3)] doc_okD(2) [OF ok1, of p] loc by (auto intro!: doc_ok_remove ok1)
  moreover have "same_inside old d ?d" "same_inside new d ?d"
    using no p by (auto simp: same_inside_def d1 loc)
  then have "st_ok ?d old t" "st_ok ?d new t'"
    using st_ok_moved fitsD(2,3) [OF old] fitsD(2,3) [OF new] by blast+
  moreover have "loc_ok ?d loc (nodes new)"
  proof -
    have "filter (\<lambda>n. n \<notin> set (nodes old)) (as @ m # bs) = []" "set pre \<inter> set (nodes old) = {}"
      "set post \<inter> set (nodes old) = {}" "set (nodes new) \<inter> set (nodes old) = {}"
      using filter_out(2) [of "nodes old"] dist mid by auto
    then have "filter (\<lambda>n. n \<notin> set (nodes old)) (pre @ as @ nodes new @ m # bs @ post) = pre @ nodes new @ post"
      using filter_out(1) [of pre "nodes old"] filter_out(1) [of post "nodes old"] filter_out(1) [of "nodes new" "nodes old"]
      by (simp split: if_splits)
    then have "subseq (pre @ nodes new @ post) (filter (\<lambda>n. n \<notin> set (nodes old)) (kids d1 p))"
      using subseq_filter [OF k1(1), of "\<lambda>n. n \<notin> set (nodes old)"] by simp
    then show ?thesis using k1(2) fitsD(5) [OF ins(3)] loc mid by (auto simp: children_ok_def is_comment_def)
  qed
  moreover have "dom_evolves d ?d (set (nodes old) \<union> set (nodes new)) {p}" by (auto simp: dom_evolves_def d1 loc)
  ultimately show "exchanged d ?d loc t t' old new"
    using fitsD [OF old] fitsD [OF new] p loc by (auto simp: exchanged_def fits_def d1)
qed

lemma insert_first_nowhere: "\<forall>n\<in>set ns. parent d n = None \<Longrightarrow> insert_first new ns d = Inr (False, d)"
  by (induction ns) (auto simp: parent_element_def)

lemma exchanged_nowhere:
  "fits d None t old \<Longrightarrow> fits d None t' new \<Longrightarrow> exchanged d d None t t' old new"
  by (simp add: exchanged_def)

lemma replace_exchanges:
  assumes "fits d loc t old" "fits d None t' new" "set (held_nodes old) \<inter> set (held_nodes new) = {}"
    and "loc_parent loc \<inter> set (held_nodes new) = {}" "nodes old \<noteq> []"
  shows "\<exists>d'. replace_state new old d = Inr d' \<and> exchanged d d' loc t t' old new"
proof (cases loc)
  case None
  then have "\<forall>n\<in>set (nodes old). parent d n = None" using fitsD(5) [OF assms(1)] by simp
  then have "replace_state new old d = Inr d"
    using st_ok_complete [OF fitsD(2) [OF assms(1)]]
    by (simp add: replace_state_def insert_before_nodes insert_first_nowhere unmount_nodes unlink_all_none)
  then show ?thesis using exchanged_nowhere assms(1,2) None by blast
next
  case (Some l)
  obtain p pre post where loc: "loc = Some (p, pre, post)" using Some by (cases l) auto
  obtain m bs where m: "nodes old = [] @ m # bs" using assms(5) by (cases "nodes old") auto
  define d1 where "d1 = put_nodes (Some (p, pre @ [], m # bs @ post)) (nodes new) d"
  note ex = exchange [OF assms(1,2) loc assms(3,4) m d1_def]
  have "parent_element d m = Some p"
    using doc_okD(1) [OF fitsD(1) [OF assms(1)], of m p] fitsD(5) [OF assms(1)] loc m
    by (auto simp: parent_element_def children_ok_def dest!: subseq_set)
  then have "insert_before_this new old d = Inr (True, d1)"
    using ex(1) insert_before_nodes [OF st_ok_complete [OF fitsD(2) [OF assms(1)]]] m by simp
  moreover have "unlink_all (nodes old) d1 = take_out loc (nodes old) d1"
    using unlink_all_kids [OF ex(3,2)] distinct_nodes [OF fitsD(3) [OF assms(1)]] loc by simp
  ultimately have "replace_state new old d = Inr (take_out loc (nodes old) d1)"
    using unmount_nodes [OF st_ok_complete [OF fitsD(2) [OF assms(1)]]] by (simp add: replace_state_def)
  then show ?thesis using ex(4) by blast
qed

text \<open>An \<^verbatim>\<open>AnyView\<close> with a placeholder is replaced at the placeholder.\<close>

lemma replace_any_exchanges:
  assumes "fits d loc t (SAny s st (Some n))" "fits d None t' new" "set (held_nodes (SAny s st (Some n))) \<inter> set (held_nodes new) = {}"
    and "loc_parent loc \<inter> set (held_nodes new) = {}"
  shows "\<exists>d1 d'. and_then (node_insert_before n new d) (\<lambda>(ok, d2). Inr (remove_node n d2)) = Inr d1 \<and>
    unmount_state (SAny s st (Some n)) d1 = Inr d' \<and> exchanged d d' loc t t' (SAny s st (Some n)) new"
proof (cases loc)
  let ?old = "SAny s st (Some n)"
  case None
  then have no: "\<forall>n\<in>set (nodes ?old). parent d n = None" using fitsD(5) [OF assms(1)] by simp
  then have "node_insert_before n new d = Inr (False, d)" "remove_node n d = d"
    by (simp_all add: node_insert_before_def parent_element_def remove_none)
  moreover have "unmount_state ?old d = Inr d"
    using unmount_nodes [OF st_ok_complete [OF fitsD(2) [OF assms(1)]], of d] unlink_all_none [OF no] by (simp del: unmount_state.simps)
  ultimately show ?thesis using exchanged_nowhere [OF _ assms(2)] assms(1) None by (simp del: unmount_state.simps)
next
  let ?old = "SAny s st (Some n)"
  case (Some l)
  obtain p pre post where loc: "loc = Some (p, pre, post)" using Some by (cases l) auto
  have m: "nodes ?old = nodes st @ n # []" by simp
  define d1 where "d1 = put_nodes (Some (p, pre @ nodes st, n # [] @ post)) (nodes new) d"
  note ex = exchange [OF assms(1,2) loc assms(3,4) m d1_def]
  define d2 where "d2 = remove_node n d1"
  have dist: "distinct (n # nodes st)" using distinct_nodes [OF fitsD(3) [OF assms(1)]] by auto
  have all: "unlink_all (n # nodes st) d1 = take_out loc (nodes ?old) d1"
    using unlink_all_kids [OF ex(3), of "n # nodes st" p] ex(2) dist loc
    by (auto simp: with_kids_def intro!: filter_cong arg_cong2 [where f = "\<lambda>x y. d1\<lparr>kids := x, parent := y\<rparr>"])
  have "unlink_all (nodes ?old) d2 = remove_node n (unlink_all (n # nodes st) d1)"
    by (simp add: d2_def unlink_all_append)
  also have "\<dots> = take_out loc (nodes ?old) d1" unfolding all by (simp add: loc remove_none)
  finally have "unmount_state ?old d2 = Inr (take_out loc (nodes ?old) d1)"
    using unmount_nodes [OF st_ok_complete [OF fitsD(2) [OF assms(1)]]] by (simp del: unmount_state.simps nodes.simps)
  moreover note d2_def [symmetric]
  ultimately show ?thesis using ex(1,4) by (auto simp del: unmount_state.simps nodes.simps)
qed

subsection \<open>Rebuilt states\<close>

definition redone ::
  "(string \<Rightarrow> string) \<Rightarrow> dom \<Rightarrow> dom \<Rightarrow> location \<Rightarrow> vty \<Rightarrow> view \<Rightarrow> vstate \<Rightarrow> vstate \<Rightarrow> bool" where
  "redone tg d d' loc ty v st st' \<longleftrightarrow> fits d' loc ty st' \<and> reflects tg d' v st' \<and>
     dom_evolves d d' (set (held_nodes st)) (loc_parent loc) \<and>
     set (held_nodes st') \<subseteq> set (held_nodes st) \<union> {next_node d..<next_node d'}"

definition rebuilds :: "(string \<Rightarrow> string) \<Rightarrow> vty \<Rightarrow> view \<Rightarrow> bool" where
  "rebuilds tg ty v \<longleftrightarrow> (\<forall>d loc st. fits d loc ty st \<longrightarrow> (loc = None \<longrightarrow> movable ty) \<longrightarrow>
     (\<exists>st' d'. rebuild tg v st d = Inr (st', d') \<and> redone tg d d' loc ty v st st'))"

lemma rebuildsD:
  "rebuilds tg ty v \<Longrightarrow> fits d loc ty st \<Longrightarrow> (loc = None \<Longrightarrow> movable ty) \<Longrightarrow>
   \<exists>st' d'. rebuild tg v st d = Inr (st', d') \<and> redone tg d d' loc ty v st st'"
  unfolding rebuilds_def by blast

lemma rebuildsI:
  "(\<And>d loc st. fits d loc ty st \<Longrightarrow> (loc = None \<Longrightarrow> movable ty) \<Longrightarrow>
     \<exists>st' d'. rebuild tg v st d = Inr (st', d') \<and> redone tg d d' loc ty v st st') \<Longrightarrow> rebuilds tg ty v"
  unfolding rebuilds_def by blast

lemma redoneD:
  assumes "redone tg d d' loc ty v st st'"
  shows "fits d' loc ty st'" "reflects tg d' v st'" "dom_evolves d d' (set (held_nodes st)) (loc_parent loc)"
    "set (held_nodes st') \<subseteq> set (held_nodes st) \<union> {next_node d..<next_node d'}" "next_node d \<le> next_node d'"
  using assms by (auto simp: redone_def dom_evolves_def)

lemma redone_errors [simp]:
  "redone tg d (on_errors f d') loc ty v st st' = redone tg d d' loc ty v st st'"
  "redone tg (on_errors f d) d' loc ty v st st' = redone tg d d' loc ty v st st'"
  "redone tg d (drop_state s d') loc ty v st st' = redone tg d d' loc ty v st st'"
  "redone tg d (d'\<lparr>errors := e\<rparr>) loc ty v st st' = redone tg d d' loc ty v st st'"
  by (simp_all add: redone_def dom_evolves_errors drop_state_def) (simp_all add: on_errors_def)

text \<open>A new state takes the place of an old one.\<close>

lemma apart_new:
  "fits d loc t old \<Longrightarrow> made tg d d1 t' v new \<Longrightarrow> set (held_nodes old) \<inter> set (held_nodes new) = {}"
  "fits d loc t old \<Longrightarrow> made tg d d1 t' v new \<Longrightarrow> loc_parent loc \<inter> set (held_nodes new) = {}"
proof -
  assume f: "fits d loc t old" and m: "made tg d d1 t' v new"
  have new: "set (held_nodes new) \<subseteq> {next_node d..}" using m by (auto simp: made_def)
  show "set (held_nodes old) \<inter> set (held_nodes new) = {}" using fitsD(4) [OF f] new by force
  show "loc_parent loc \<inter> set (held_nodes new) = {}"
    using fitsD(5) [OF f] elem_exists [OF fitsD(1) [OF f]] new by (cases loc rule: loc_parent.cases) force+
qed

lemma shown_later:
  assumes "fits d loc t s" "dom_evolves d d' S {}" "doc_ok d'" "set (held_nodes s) \<inter> S = {}" "loc_parent loc \<inter> S = {}"
  shows "fits d' loc t s"
proof -
  have same: "same_on (set (held_nodes s)) d d'"
    using dom_evolves_same_on [OF assms(2), of "set (held_nodes s)"] assms(4) fitsD(4) [OF assms(1)] by auto
  have "loc_ok d' loc (nodes s)"
  proof (cases loc rule: loc_parent.cases)
    case 1
    then show ?thesis using same fitsD(5) [OF assms(1)] nodes_owned [of s] by (auto simp: same_on_def)
  next
    case (2 p pre post)
    then have p: "is_elem d p" "children_ok d p (pre @ nodes s @ post)" using fitsD(5) [OF assms(1)] by auto
    then have "kids d' p = kids d p" "content d' p = content d p" "comments_kept d d'"
      using elem_exists [OF fitsD(1) [OF assms(1)]] assms(2,5) 2 by (auto simp: dom_evolves_def)
    then show ?thesis using p children_ok_same 2 by (auto simp: is_elem_def)
  qed
  then show ?thesis using fits_same [OF assms(1) same assms(3) dom_evolves_next [OF assms(2)]] by simp
qed

lemma fits_after_made: "fits d loc t old \<Longrightarrow> made tg d d1 t' v new \<Longrightarrow> fits d1 loc t old"
  using shown_later [OF _ made_doc(2,1)] by blast

lemma exchanged_redone:
  assumes "made tg d d1 t' v new" "exchanged d1 d2 loc t t' old new"
  shows "redone tg d d2 loc t' v old new"
proof -
  have ev: "dom_evolves d d1 (set (held_nodes old)) (loc_parent loc)"
    using dom_evolves_mono [OF made_doc(2) [OF assms(1)]] by simp
  have new: "set (held_nodes new) \<subseteq> {next_node d..<next_node d1}" using assms(1) by (simp add: made_def)
  have "dom_evolves d d2 (set (held_nodes old)) (loc_parent loc)"
  proof (rule dom_evolves_trans [OF ev])
    show "dom_evolves d1 d2 (set (nodes old) \<union> set (nodes new)) (loc_parent loc)"
      using assms(2) by (simp add: exchanged_def)
    show "set (nodes old) \<union> set (nodes new) \<subseteq> set (held_nodes old) \<union> {next_node d..}"
      using nodes_owned [of old] nodes_owned [of new] new by auto
  qed
  moreover have "reflects tg d2 v new"
    using assms by (auto simp: made_def exchanged_def elim: reflects_content [rotated])
  moreover have "next_node d1 \<le> next_node d2" using assms(2) by (auto simp: exchanged_def dom_evolves_def)
  ultimately show ?thesis using assms(2) new by (auto simp: redone_def exchanged_def)
qed

lemma replace_redone:
  assumes "fits d loc t old" "made tg d d1 t' v new" "nodes old \<noteq> []"
  shows "\<exists>d2. replace_state new old d1 = Inr d2 \<and> redone tg d d2 loc t' v old new"
proof -
  have "fits d1 None t' new" using assms(2) by (simp add: made_def)
  from replace_exchanges [OF fits_after_made [OF assms(1,2)] this apart_new [OF assms(1,2)] assms(3)]
  show ?thesis using exchanged_redone [OF assms(2)] by blast
qed

end
