(* ===== verification/View_Rebuild_Lists.thy ===== *)
theory View_Rebuild_Lists
  imports View_Replace
begin

text \<open>Rebuilding tuples, arrays and vectors: lists of states next to each other.\<close>

lemma loc_ok_split:
  "loc_ok d loc (ns @ ms) \<longleftrightarrow> loc_ok d (inner_loc [] ms loc) ns \<and> loc_ok d (inner_loc ns [] loc) ms"
  by (cases loc rule: loc_parent.cases) auto

lemma fits_append:
  "fits d loc (TyTuple (ts @ us)) (STuple (xs @ ys)) \<longleftrightarrow>
     fits d (inner_loc [] (nodes (STuple ys)) loc) (TyTuple ts) (STuple xs) \<and>
     fits d (inner_loc (nodes (STuple xs)) [] loc) (TyTuple us) (STuple ys) \<and>
     set (held_nodes (STuple xs)) \<inter> set (held_nodes (STuple ys)) = {}"
  if "length ts = length xs"
  using that by (auto simp: fits_def list_all2_append loc_ok_split)

lemma fits_one:
  "fits d loc (TyTuple [t]) (STuple [st]) = fits d loc t st" "fits d loc (TyTuple []) (STuple []) \<longleftrightarrow> doc_ok d \<and> loc_ok d loc []"
  by (auto simp: fits_def)

lemma redone_one: "redone tg d d' loc (TyTuple [t]) (VTuple [v]) st (STuple [st']) = redone tg d d' loc t v st st'"
  by (auto simp: redone_def fits_one)

lemma redone_old:
  "held_nodes (STuple [st]) = held_nodes st" "redone tg d d' loc ty v (STuple [st]) st' = redone tg d d' loc ty v st st'"
  by (simp_all add: redone_def)

text \<open>What is next to a place does not matter for the rebuild there.\<close>

lemma loc_ok_beside:
  assumes "dom_evolves d d' S (loc_parent loc)" "\<forall>n\<in>set ns. n < next_node d" "set ns \<inter> S = {}"
  shows "loc_ok d (inner_loc as [] loc) ns \<Longrightarrow> loc_ok d' (inner_loc [] ns loc) as' \<Longrightarrow> loc_ok d' (inner_loc as' [] loc) ns"
    and "loc_ok d (inner_loc [] as loc) ns \<Longrightarrow> loc_ok d' (inner_loc ns [] loc) as' \<Longrightarrow> loc_ok d' (inner_loc [] as' loc) ns"
proof -
  have "\<forall>n\<in>set ns. parent d' n = parent d n" using assms unfolding dom_evolves_def by blast
  then show "loc_ok d (inner_loc as [] loc) ns \<Longrightarrow> loc_ok d' (inner_loc [] ns loc) as' \<Longrightarrow> loc_ok d' (inner_loc as' [] loc) ns"
    "loc_ok d (inner_loc [] as loc) ns \<Longrightarrow> loc_ok d' (inner_loc ns [] loc) as' \<Longrightarrow> loc_ok d' (inner_loc [] as' loc) ns"
    by (cases loc rule: loc_parent.cases; simp)+
qed

lemma fits_second:
  assumes old: "fits d loc (TyTuple (ts @ us)) (STuple (xs @ ys))" "length ts = length xs"
    and first: "redone tg d d1 (inner_loc [] (nodes (STuple ys)) loc) (TyTuple ts') (VTuple vs) (STuple xs) (STuple xs')"
  shows "fits d1 (inner_loc (nodes (STuple xs')) [] loc) (TyTuple us) (STuple ys)"
    "set (held_nodes (STuple xs')) \<inter> set (held_nodes (STuple ys)) = {}"
proof -
  let ?ys = "STuple ys"
  have ys: "fits d (inner_loc (nodes (STuple xs)) [] loc) (TyTuple us) ?ys"
    and apart: "set (held_nodes (STuple xs)) \<inter> set (held_nodes ?ys) = {}"
    using old fits_append by auto
  have ev: "dom_evolves d d1 (set (held_nodes (STuple xs))) (loc_parent loc)" using redoneD(3) [OF first] by simp
  have "set (nodes ?ys) \<inter> set (held_nodes (STuple xs)) = {}" using apart nodes_owned [of ?ys] by blast
  moreover have "\<forall>n\<in>set (nodes ?ys). n < next_node d" using fitsD(4) [OF ys] nodes_owned [of ?ys] by blast
  ultimately have "loc_ok d1 (inner_loc (nodes (STuple xs')) [] loc) (nodes ?ys)"
    using loc_ok_beside(1) [OF ev] fitsD(5) [OF ys] fitsD(5) [OF redoneD(1) [OF first]] by blast
  moreover have "same_on (set (held_nodes ?ys)) d d1"
    using dom_evolves_same_on [OF ev, of "set (held_nodes ?ys)"] fitsD(4,6) [OF ys] apart by (simp add: Int_commute)
  ultimately show "fits d1 (inner_loc (nodes (STuple xs')) [] loc) (TyTuple us) ?ys"
    using fits_same [OF ys] fitsD(1) [OF redoneD(1) [OF first]] redoneD(5) [OF first] by simp
  show "set (held_nodes (STuple xs')) \<inter> set (held_nodes ?ys) = {}"
    using redoneD(4) [OF first] apart fitsD(4) [OF ys] by fastforce
qed

lemma redone_append:
  assumes old: "fits d loc (TyTuple (ts @ us)) (STuple (xs @ ys))" "length ts = length xs"
    and first: "redone tg d d1 (inner_loc [] (nodes (STuple ys)) loc) (TyTuple ts') (VTuple vs) (STuple xs) (STuple xs')"
    and second: "redone tg d1 d2 (inner_loc (nodes (STuple xs')) [] loc) (TyTuple us') (VTuple ws) (STuple ys) (STuple ys')"
  shows "redone tg d d2 loc (TyTuple (ts' @ us')) (VTuple (vs @ ws)) (STuple (xs @ ys)) (STuple (xs' @ ys'))"
proof -
  let ?xs = "STuple xs'" and ?ys = "STuple ys'"
  note f1 = redoneD [OF first] and f2 = redoneD [OF second]
  have ev: "dom_evolves d1 d2 (set (held_nodes (STuple ys))) (loc_parent loc)" using f2(3) by simp
  have xs: "set (held_nodes ?xs) \<inter> set (held_nodes (STuple ys)) = {}" using fits_second(2) [OF old first] .
  have lt: "\<forall>n\<in>set (held_nodes ?xs). n < next_node d1" using fitsD(4) [OF f1(1)] by blast
  have "loc_parent loc \<inter> set (held_nodes ?xs) = {}" using fitsD(6) [OF f1(1)] by simp
  then have same: "same_on (set (held_nodes ?xs)) d1 d2" using dom_evolves_same_on [OF ev xs] lt by (simp add: Int_commute)
  have apart: "set (held_nodes ?xs) \<inter> set (held_nodes ?ys) = {}" using f2(4) xs lt by fastforce
  have "loc_ok d2 (inner_loc [] (nodes ?ys) loc) (nodes ?xs)"
    using loc_ok_beside(2) [OF ev] nodes_owned [of ?xs] lt xs fitsD(5) [OF f1(1)] fitsD(5) [OF f2(1)] by blast
  then have "fits d2 (inner_loc [] (nodes ?ys) loc) (TyTuple ts') ?xs"
    using fits_same [OF f1(1) same] fitsD(1) [OF f2(1)] f2(5) by simp
  moreover have "length ts' = length xs'" using fitsD(2) [OF f1(1)] by (auto dest: list_all2_lengthD)
  ultimately have "fits d2 loc (TyTuple (ts' @ us')) (STuple (xs' @ ys'))"
    using fits_append f2(1) apart by blast
  moreover have "reflects tg d2 (VTuple (vs @ ws)) (STuple (xs' @ ys'))"
    using reflects_same [OF same f1(2)] f2(2) by (auto intro: list_all2_appendI)
  moreover have "dom_evolves d d2 (set (held_nodes (STuple (xs @ ys)))) (loc_parent loc)"
    using dom_evolves_trans [OF dom_evolves_mono [OF f1(3)] ev] by auto
  moreover have "set (held_nodes (STuple (xs' @ ys'))) \<subseteq> set (held_nodes (STuple (xs @ ys))) \<union> {next_node d..<next_node d2}"
    using f1(4,5) f2(4,5) by fastforce
  ultimately show ?thesis by (simp add: redone_def)
qed

subsection \<open>Tuples and arrays\<close>

lemma rebuild_list:
  assumes "list_all2 (rebuilds tg) ts vs" "fits d loc (TyTuple ts) (STuple sts)" "loc = None \<Longrightarrow> list_all movable ts"
  shows "\<exists>sts' d'. map_state (\<lambda>(v, st). rebuild tg v st) (zip vs sts) d = Inr (sts', d') \<and>
    redone tg d d' loc (TyTuple ts) (VTuple vs) (STuple sts) (STuple sts')"
  using assms
proof (induction ts vs arbitrary: d loc sts rule: list_all2_induct)
  case Nil
  then show ?case by (auto simp: redone_def fits_def)
next
  case (Cons t ts v vs)
  obtain st rest where sts: "sts = st # rest" using fitsD(2) [OF Cons(4)] by (cases sts) auto
  have f: "fits d loc (TyTuple ([t] @ ts)) (STuple ([st] @ rest))" "length [t] = length [st]"
    using Cons(4) sts by auto
  have "fits d (inner_loc [] (nodes (STuple rest)) loc) t st"
    using f(1) unfolding fits_append [OF f(2)] fits_one by blast
  from rebuildsD [OF Cons(1) this] Cons(5) obtain st' d1 where one: "rebuild tg v st d = Inr (st', d1)"
    "redone tg d d1 (inner_loc [] (nodes (STuple rest)) loc) t v st st'" by auto
  note one' = iffD2 [OF redone_one iffD2 [OF redone_old(2) one(2)]]
  have "inner_loc (nodes (STuple [st'])) [] loc = None \<Longrightarrow> list_all movable ts"
    using Cons(5) by simp
  from Cons(3) [OF fits_second(1) [OF f one'] this] obtain sts' d2 where
    rest: "map_state (\<lambda>(v, st). rebuild tg v st) (zip vs rest) d1 = Inr (sts', d2)"
      "redone tg d1 d2 (inner_loc (nodes (STuple [st'])) [] loc) (TyTuple ts) (VTuple vs) (STuple rest) (STuple sts')"
    by blast
  show ?case using redone_append [OF f one' rest(2)] one(1) rest(1) sts by simp
qed

subsection \<open>Adding to a vector\<close>

text \<open>The marker of a vector without a place has no parent; \<^verbatim>\<open>mount_before\<close> needs one.\<close>

definition marker_ok :: "dom \<Rightarrow> location \<Rightarrow> nat \<Rightarrow> bool" where
  "marker_ok d loc m \<longleftrightarrow> (loc = None \<longrightarrow> parent d m = None \<and> m < next_node d)"

definition mounts_at :: "(vstate \<Rightarrow> nat \<Rightarrow> dom \<Rightarrow> dom result) \<Rightarrow> location \<Rightarrow> bool" where
  "mounts_at mb loc \<longleftrightarrow> mb = try_mount_before \<or> mb = mount_before \<and> loc \<noteq> None"

lemma marker_later: "marker_ok d loc m \<Longrightarrow> dom_evolves d d' {} (loc_parent loc) \<Longrightarrow> marker_ok d' loc m"
  by (auto simp: marker_ok_def dom_evolves_def)

lemma mount_each_nowhere:
  "parent d m = None \<Longrightarrow> foreach (\<lambda>st. try_mount_before st m) sts d = Inr d"
  by (induction sts) (simp_all add: try_mount_before_def parent_element_def)

lemma insert_all_keeps: "m \<notin> set ns \<Longrightarrow> parent_element (insert_all p a ns d) m = parent_element d m"
proof (induction ns arbitrary: d)
  case (Cons n ns)
  have "parent_element (insert_node p n a d) m = parent_element d m"
    using Cons(2) by (simp add: insert_node_def try_insert_node_def parent_element_def Let_def remove_node_def is_elem_def
        split: option.splits)
  then show ?case using Cons by simp
qed simp

lemma mount_each:
  assumes "mb = try_mount_before \<or> mb = mount_before" "parent_element d m = Some p"
    and "m \<notin> set (concat (map nodes sts))" "\<forall>st\<in>set sts. st_complete st"
  shows "foreach (\<lambda>st. mb st m) sts d = mount p (Some m) (STuple sts) d"
proof -
  have "foreach (\<lambda>st. mb st m) sts d = Inr (insert_all p (Some m) (concat (map nodes sts)) d)"
    using assms(2-4)
  proof (induction sts arbitrary: d)
    case (Cons st sts)
    have "mb st m d = Inr (insert_all p (Some m) (nodes st) d)"
      using assms(1) Cons(2,4) mount_nodes [of st] by (auto simp: try_mount_before_def mount_before_def)
    then show ?case using Cons insert_all_keeps [of m "nodes st"] by (simp add: insert_all_append)
  qed simp
  also have "\<dots> = mount p (Some m) (STuple sts) d"
    using mount_nodes [of "STuple sts"] assms(4) by (simp add: list_all_iff)
  finally show ?thesis .
qed

lemma placed_redone:
  assumes "made tg d d1 t v new" "doc_ok d" "loc = Some (p, pre, m # post)" "loc_ok d loc []"
  shows "redone tg d (put_nodes loc (nodes new) d1) loc t v (STuple []) new" "parent_element d1 m = Some p"
    "mount p (Some m) new d1 = Inr (put_nodes loc (nodes new) d1)"
proof -
  have f: "fits d loc (TyTuple []) (STuple [])" using assms by (simp add: fits_one)
  have l: "loc_ok d1 loc []" using fitsD(5) [OF fits_after_made [OF f assms(1)]] by simp
  have new: "fits d1 None t new" "set (held_nodes new) \<subseteq> {next_node d..<next_node d1}" "dom_evolves d d1 {} {}"
    "reflects tg d1 v new" using assms(1) by (auto simp: made_def)
  note p = insert_before_place [OF new(1) assms(3) l apart_new(2) [OF f assms(1)]]
  show "parent_element d1 m = Some p" "mount p (Some m) new d1 = Inr (put_nodes loc (nodes new) d1)" by (rule p)+
  have "dom_evolves d (put_nodes loc (nodes new) d1) {} (loc_parent loc)"
    using nodes_owned [of new] new(2) dom_evolves_next [OF new(3)] dom_evolves_mono [OF new(3)] by (intro place_evolves) auto
  moreover have "reflects tg (put_nodes loc (nodes new) d1) v new" using new(4) by (rule reflects_content [rotated]) simp
  ultimately show "redone tg d (put_nodes loc (nodes new) d1) loc t v (STuple []) new"
    using p(3) new(2) by (simp add: redone_def)
qed

lemma made_redone: "made tg d d1 t v new \<Longrightarrow> redone tg d d1 None t v (STuple []) new"
  by (auto simp: made_def redone_def)

lemma mount_each_redone:
  assumes "made tg d d1 (TyTuple ts) (VTuple vs) (STuple new)" "doc_ok d" "mounts_at mb loc" "marker_ok d loc m"
    and "loc_ok d (inner_loc ns [m] loc) []"
  shows "\<exists>d2. foreach (\<lambda>st. mb st m) new d1 = Inr d2 \<and>
    redone tg d d2 (inner_loc ns [m] loc) (TyTuple ts) (VTuple vs) (STuple []) (STuple new)"
proof (cases loc rule: loc_parent.cases)
  case 1
  then have "parent d1 m = None" using assms(4) made_doc(2) [OF assms(1)] by (auto simp: marker_ok_def dom_evolves_def)
  then show ?thesis using mount_each_nowhere assms(3) made_redone [OF assms(1)] 1 by (simp add: mounts_at_def)
next
  case (2 p pre post)
  let ?l = "inner_loc ns [m] loc"
  have l: "?l = Some (p, pre @ ns, m # post)" using 2 by simp
  note placed = placed_redone [OF assms(1,2) l assms(5)]
  have f: "fits d1 None (TyTuple ts) (STuple new)" using assms(1) by (simp add: made_def)
  have "st_complete (STuple new)" "\<forall>n\<in>set (nodes (STuple new)). parent d1 n = None"
    using st_ok_complete [OF fitsD(2) [OF f]] fitsD(5) [OF f] by auto
  then have "foreach (\<lambda>st. mb st m) new d1 = mount p (Some m) (STuple new) d1"
    using assms(3) placed(2) by (intro mount_each) (auto simp: mounts_at_def list_all_iff parent_element_def)
  then show ?thesis using placed(1,3) by (simp del: mount.simps)
qed

lemma adds_redone:
  assumes "\<forall>v\<in>set vs. builds tg t v" "doc_ok d" "mounts_at mb loc" "marker_ok d loc m"
    and "loc_ok d (inner_loc ns [m] loc) []"
  shows "\<exists>sts d'. map_state (build_and_mount mb m) vs d = Inr (sts, d') \<and>
    redone tg d d' (inner_loc ns [m] loc) (TyTuple (replicate (length vs) t)) (VTuple vs) (STuple []) (STuple sts)"
  using assms(1,2,4,5)
proof (induction vs arbitrary: d ns)
  case Nil
  then show ?case by (auto simp: redone_def fits_one)
next
  case (Cons v vs)
  let ?l = "inner_loc ns [m] loc"
  have "builds tg t v" using Cons(2) by simp
  then obtain st d1 where st: "build v d = Inr (st, d1)" "made tg d d1 t v st" by (rule buildsE [OF _ Cons(3)])
  have "made tg d d1 (TyTuple [t]) (VTuple [v]) (STuple [st])" using st(2) by (auto simp: made_def fits_one)
  from mount_each_redone [OF this Cons(3) assms(3) Cons(4,5)] obtain d2 where d2: "mb st m d1 = Inr d2"
    "redone tg d d2 ?l (TyTuple [t]) (VTuple [v]) (STuple []) (STuple [st])"
    by (cases "mb st m d1") auto
  have ok: "doc_ok d2" "marker_ok d2 loc m"
    using redoneD(1,3) [OF d2(2)] fitsD(1) marker_later [OF Cons(4)] by auto
  have "loc_ok d2 (inner_loc (ns @ nodes st) [m] loc) []"
    using fitsD(5) [OF redoneD(1) [OF d2(2)]] by (cases loc rule: loc_parent.cases) auto
  from Cons(1) [OF _ ok this] Cons(2) obtain sts d3 where rest: "map_state (build_and_mount mb m) vs d2 = Inr (sts, d3)"
    "redone tg d2 d3 (inner_loc (ns @ nodes st) [m] loc) (TyTuple (replicate (length vs) t)) (VTuple vs) (STuple []) (STuple sts)"
    by auto
  have "redone tg d d3 ?l (TyTuple ([t] @ replicate (length vs) t)) (VTuple ([v] @ vs)) (STuple ([] @ [])) (STuple ([st] @ sts))"
  proof (rule redone_append)
    show "fits d ?l (TyTuple ([] @ [])) (STuple ([] @ []))" using Cons(3,5) by (simp add: fits_one)
    show "redone tg d d2 (inner_loc [] (nodes (STuple [])) ?l) (TyTuple [t]) (VTuple [v]) (STuple []) (STuple [st])"
      using d2(2) by simp
    show "redone tg d2 d3 (inner_loc (nodes (STuple [st])) [] ?l) (TyTuple (replicate (length vs) t)) (VTuple vs) (STuple []) (STuple sts)"
      using rest(2) by (simp add: inner_loc_inner)
  qed simp
  moreover have "build_and_mount mb m v d = Inr (st, d2)" using st(1) d2(1) by (simp add: build_and_mount_def)
  ultimately show ?case using rest(1) by simp
qed

subsection \<open>Removing from a vector\<close>

lemma redone_drops [simp]: "redone tg d (fold drop_state sts d') loc ty v st st' = redone tg d d' loc ty v st st'"
  by (induction sts arbitrary: d') simp_all

lemma removed_redone:
  assumes "fits d loc (TyTuple ts) (STuple sts)"
  shows "\<exists>d'. foreach unmount_state sts d = Inr d' \<and> redone tg d d' loc (TyTuple []) (VTuple []) (STuple sts) (STuple [])"
proof -
  let ?d = "take_out loc (nodes (STuple sts)) d"
  have "foreach unmount_state sts d = Inr ?d"
    using unmount_nodes [OF st_ok_complete [OF fitsD(2) [OF assms]], of d] fits_take_out(3) [OF assms] by simp
  moreover have "dom_evolves d ?d (set (held_nodes (STuple sts))) (loc_parent loc)"
    using nodes_owned [of "STuple sts"] by (intro place_evolves) auto
  moreover have "fits ?d loc (TyTuple []) (STuple [])"
    using fits_take_out(1,2) [OF assms] fitsD(1) unfolding fits_one by blast
  ultimately show ?thesis by (auto simp: redone_def)
qed

subsection \<open>Vectors\<close>

lemma fits_vecD:
  assumes "fits d loc (TyVec t) (SVec sts m) \<or> fits d loc (TyStaticVec t) (SStaticVec sts m)"
  shows "fits d (inner_loc [] [m] loc) (TyTuple (replicate (length sts) t)) (STuple sts)"
    "is_comment d m" "m \<notin> set (concat (map held_nodes sts))" "m < next_node d" "m \<notin> loc_parent loc" "marker_ok d loc m"
  using assms
  by (cases loc rule: loc_parent.cases; auto simp: fits_def list_all2_replicate marker_ok_def)+

lemma vec_redone:
  assumes "fits d loc (TyVec t) (SVec sts m) \<or> fits d loc (TyStaticVec t) (SStaticVec sts m)"
    and "redone tg d d' (inner_loc [] [m] loc) (TyTuple (replicate (length vs) t)) (VTuple vs) (STuple sts) (STuple sts')"
  shows "redone tg d d' loc (TyVec t) (VVec vs) (SVec sts m) (SVec sts' m)"
    "redone tg d d' loc (TyStaticVec t) (VStaticVec vs) (SStaticVec sts m) (SStaticVec sts' m)"
proof -
  note m = fits_vecD [OF assms(1)] and r = redoneD [OF assms(2)]
  have refl: "list_all2 (reflects tg d') vs sts'" using r(2) by simp
  then have f: "fits d' (inner_loc [] [m] loc) (TyTuple (replicate (length sts') t)) (STuple sts')"
    using r(1) list_all2_lengthD [OF refl] by simp
  have "same_on {m} d d'" using dom_evolves_same_on [OF r(3), of "{m}"] m by simp
  then have m': "is_comment d' m" "loc = None \<Longrightarrow> parent d' m = None"
    using m(2,6) by (auto simp: same_on_def is_comment_def marker_ok_def)
  have lt: "m \<notin> set (concat (map held_nodes sts'))" "m < next_node d'" using r(4,5) m(3,4) by auto
  have ev: "dom_evolves d d' (set (concat (map held_nodes sts)) \<union> {m}) (loc_parent loc)"
    using r(3) by (rule dom_evolves_mono) auto
  note fits_vec [OF fitsD(1) [OF f] m'(1) f lt m(5) m'(2)]
  then show "redone tg d d' loc (TyVec t) (VVec vs) (SVec sts m) (SVec sts' m)"
    "redone tg d d' loc (TyStaticVec t) (VStaticVec vs) (SStaticVec sts m) (SStaticVec sts' m)"
    using refl ev r(4) by (auto simp: redone_def)
qed

lemma zip_takes: "zip (take (length ys) xs) ys = zip xs ys" "zip xs (take (length xs) ys) = zip xs ys"
  by (rule nth_equalityI; simp)+

lemma rebuild_same_type:
  assumes "\<forall>v\<in>set vs. rebuilds tg t v" "fits d loc (TyTuple (replicate (length vs) t)) (STuple sts)" "loc = None \<Longrightarrow> movable t"
  shows "\<exists>sts' d'. map_state (\<lambda>(v, st). rebuild tg v st) (zip vs sts) d = Inr (sts', d') \<and>
    redone tg d d' loc (TyTuple (replicate (length vs) t)) (VTuple vs) (STuple sts) (STuple sts')"
  using assms by (intro rebuild_list) (auto simp: list_all2_replicate list_all_iff)

lemma vec_grows:
  assumes "\<forall>v\<in>set vs. rebuilds tg t v \<and> builds tg t v" "length old \<le> length vs"
    and old: "fits d (inner_loc [] [m] loc) (TyTuple (replicate (length old) t)) (STuple old)"
    and "loc = None \<Longrightarrow> movable t" "mounts_at mb loc" "marker_ok d loc m" "m \<notin> set (concat (map held_nodes old))" "m < next_node d"
  shows "\<exists>kept adds d1 d2. map_state (\<lambda>(v, st). rebuild tg v st) (zip vs old) d = Inr (kept, d1) \<and>
    map_state (build_and_mount mb m) (drop (length old) vs) d1 = Inr (adds, d2) \<and>
    redone tg d d2 (inner_loc [] [m] loc) (TyTuple (replicate (length vs) t)) (VTuple vs) (STuple old) (STuple (kept @ adds))"
proof -
  let ?l = "inner_loc [] [m] loc" and ?k = "length old" and ?vs = "take (length old) vs" and ?ws = "drop (length old) vs"
  have len: "length ?vs = ?k" "zip vs old = zip ?vs old" using assms(2) by (simp_all add: zip_takes)
  obtain kept d1 where kept: "map_state (\<lambda>(v, st). rebuild tg v st) (zip ?vs old) d = Inr (kept, d1)"
    "redone tg d d1 ?l (TyTuple (replicate ?k t)) (VTuple ?vs) (STuple old) (STuple kept)"
    using rebuild_same_type [of ?vs tg t d ?l old] assms(1,4) old len(1) by (auto dest: in_set_takeD)
  have ev: "dom_evolves d d1 (set (held_nodes (STuple old))) (loc_parent loc)" using redoneD(3) [OF kept(2)] by simp
  have "marker_ok d1 loc m"
    using assms(6-8) ev by (auto simp: marker_ok_def dom_evolves_def)
  moreover have "loc_ok d1 (inner_loc (nodes (STuple kept)) [m] loc) []"
    using fitsD(5) [OF redoneD(1) [OF kept(2)]] by (cases loc rule: loc_parent.cases) auto
  ultimately obtain adds d2 where adds: "map_state (build_and_mount mb m) ?ws d1 = Inr (adds, d2)"
    "redone tg d1 d2 (inner_loc (nodes (STuple kept)) [m] loc) (TyTuple (replicate (length ?ws) t)) (VTuple ?ws) (STuple []) (STuple adds)"
    using adds_redone [of ?ws tg t d1 mb loc m "nodes (STuple kept)"] assms(1,5) fitsD(1) [OF redoneD(1) [OF kept(2)]]
    by (auto dest: in_set_dropD)
  have "redone tg d d2 ?l (TyTuple (replicate ?k t @ replicate (length ?ws) t)) (VTuple (?vs @ ?ws)) (STuple (old @ [])) (STuple (kept @ adds))"
  proof (rule redone_append)
    show "fits d ?l (TyTuple (replicate ?k t @ [])) (STuple (old @ []))" using old by simp
    show "redone tg d d1 (inner_loc [] (nodes (STuple [])) ?l) (TyTuple (replicate ?k t)) (VTuple ?vs) (STuple old) (STuple kept)"
      using kept(2) by simp
    show "redone tg d1 d2 (inner_loc (nodes (STuple kept)) [] ?l) (TyTuple (replicate (length ?ws) t)) (VTuple ?ws) (STuple []) (STuple adds)"
      using adds(2) by (simp add: inner_loc_inner)
  qed simp
  moreover have "replicate ?k t @ replicate (length ?ws) t = replicate (length vs) t"
    using assms(2) by (simp add: replicate_add [symmetric])
  ultimately show ?thesis using kept(1) adds(1) len(2) by auto
qed

lemma vec_shrinks:
  assumes "\<forall>v\<in>set vs. rebuilds tg t v" "length vs \<le> length old" "loc = None \<Longrightarrow> movable t"
    and old: "fits d loc (TyTuple (replicate (length old) t)) (STuple old)"
  shows "\<exists>kept d1 d2. map_state (\<lambda>(v, st). rebuild tg v st) (zip vs old) d = Inr (kept, d1) \<and>
    foreach unmount_state (drop (length vs) old) d1 = Inr d2 \<and>
    redone tg d d2 loc (TyTuple (replicate (length vs) t)) (VTuple vs) (STuple old) (STuple kept)"
proof -
  let ?xs = "take (length vs) old" and ?ys = "drop (length vs) old" and ?ts = "replicate (length vs) t"
  have len: "length ?ts = length ?xs" "zip vs old = zip vs ?xs" using assms(2) by (simp_all add: zip_takes)
  have "replicate (length old) t = ?ts @ replicate (length ?ys) t" using assms(2) by (simp add: replicate_add [symmetric])
  then have f: "fits d loc (TyTuple (?ts @ replicate (length ?ys) t)) (STuple (?xs @ ?ys))" using old by simp
  then have xs: "fits d (inner_loc [] (nodes (STuple ?ys)) loc) (TyTuple ?ts) (STuple ?xs)"
    unfolding fits_append [OF len(1)] by blast
  obtain kept d1 where kept: "map_state (\<lambda>(v, st). rebuild tg v st) (zip vs ?xs) d = Inr (kept, d1)"
    "redone tg d d1 (inner_loc [] (nodes (STuple ?ys)) loc) (TyTuple ?ts) (VTuple vs) (STuple ?xs) (STuple kept)"
    using rebuild_same_type [OF assms(1) xs] assms(3) by auto
  obtain d2 where out: "foreach unmount_state ?ys d1 = Inr d2"
    "redone tg d1 d2 (inner_loc (nodes (STuple kept)) [] loc) (TyTuple []) (VTuple []) (STuple ?ys) (STuple [])"
    using removed_redone [OF fits_second(1) [OF f len(1) kept(2)]] by blast
  show ?thesis using redone_append [OF f len(1) kept(2) out(2)] kept(1) out(1) len(2) by auto
qed

lemma vec_rebuild_redone:
  assumes "\<forall>v\<in>set vs. rebuilds tg t v \<and> builds tg t v" "mounts_at mb loc" "loc = None \<Longrightarrow> movable t"
    and "fits d loc (TyVec t) (SVec old m) \<or> fits d loc (TyStaticVec t) (SStaticVec old m)"
  shows "\<exists>sts' d'. vec_rebuild mb (\<lambda>(v, st). rebuild tg v st) vs old m d = Inr (sts', d') \<and>
    redone tg d d' (inner_loc [] [m] loc) (TyTuple (replicate (length vs) t)) (VTuple vs) (STuple old) (STuple sts')"
proof -
  note m = fits_vecD [OF assms(4)]
  consider "old = []" | "vs = []" "old \<noteq> []" | "vs \<noteq> []" "old \<noteq> []" "length old \<le> length vs"
    | "vs \<noteq> []" "old \<noteq> []" "length vs < length old" by linarith
  then show ?thesis
  proof cases
    case 1
    have b: "list_all2 (builds tg) (replicate (length vs) t) vs" using assms(1) by (simp add: list_all2_replicate)
    let ?d = "snd (add_node (NComment []) d)"
    obtain new d1 where new: "map_state build vs ?d = Inr (new, d1)"
      "made tg ?d d1 (TyTuple (replicate (length vs) t)) (VTuple vs) (STuple new)"
      using build_list [OF b doc_ok_new [OF fitsD(1) [OF m(1)]]] by blast
    have "made tg d d1 (TyTuple (replicate (length vs) t)) (VTuple vs) (STuple new)"
      using made_earlier [OF new(2) dom_evolves_new [OF fitsD(1) [OF m(1)]]] .
    from mount_each_redone [OF this fitsD(1) [OF m(1)] assms(2) m(6)] obtain d2 where
      "foreach (\<lambda>st. mb st m) new d1 = Inr d2"
      "redone tg d d2 (inner_loc [] [m] loc) (TyTuple (replicate (length vs) t)) (VTuple vs) (STuple []) (STuple new)"
      using fitsD(5) [OF m(1)] 1 by fastforce
    then show ?thesis using 1 new(1) by (simp add: vec_rebuild_def vec_build_def creates)
  next
    case 2
    then show ?thesis using removed_redone [OF m(1), of tg] by (auto simp: vec_rebuild_def)
  next
    case 3
    then show ?thesis using vec_grows [OF assms(1) 3(3) m(1) assms(3,2) m(6,3,4)] by (auto simp: vec_rebuild_def)
  next
    case 4
    have "\<forall>v\<in>set vs. rebuilds tg t v" "length vs \<le> length old" using assms(1) 4(3) by auto
    from vec_shrinks [OF this _ m(1)] assms(3) obtain kept d1 d2 where
      "map_state (\<lambda>(v, st). rebuild tg v st) (zip vs old) d = Inr (kept, d1)"
      "foreach unmount_state (drop (length vs) old) d1 = Inr d2"
      "redone tg d d2 (inner_loc [] [m] loc) (TyTuple (replicate (length vs) t)) (VTuple vs) (STuple old) (STuple kept)"
      by auto
    then show ?thesis using 4 by (simp add: vec_rebuild_def)
  qed
qed

end
