(* ===== verification/View_Rebuild_Correct.thy ===== *)
theory View_Rebuild_Correct
  imports View_Rebuild_Lists
begin

text \<open>
  Rebuilding any view: a state that fits a view of its type, in any place of the document, is
  changed into one that fits and reflects the new view, in the same place.
\<close>

lemma redone_wrap:
  assumes "redone tg d d' loc t v st st'"
  shows "i < length ts \<Longrightarrow> ts ! i = t \<Longrightarrow> redone tg d d' loc (TyEither ts) (VEither n i v) (SEither j st) (SEither i st')"
    and "redone tg d d' loc (TyResult t) (VOk v) (SResult ok st e h) (SResult True st' e' h')"
  using assms by (auto simp: redone_def fits_def)

lemma made_errors_before [simp]: "made tg (on_errors f d) d' ty v st = made tg d d' ty v st"
  by (simp add: made_def dom_evolves_errors) (simp add: on_errors_def)

lemma comments_same:
  "\<exists>x. content d n = Some (NText x) \<Longrightarrow> is_comment (set_text n s d) m = is_comment d m"
  "content d el = Some (NElem tag as) \<Longrightarrow> is_comment (with_attrs el tag bs d) m = is_comment d m"
  by (auto simp: is_comment_def set_text_def with_attrs_def)

subsection \<open>Texts\<close>

lemma text_redone:
  assumes f: "fits d loc ty (SText n old)" and v: "v = VText s \<or> v = VPrim e s"
  shows "redone tg d (set_text n s d) loc ty v (SText n old) (SText n s)"
proof -
  have n: "n < next_node d" "n \<notin> loc_parent loc" using fitsD(4,6) [OF f] by auto
  have "doc_ok (set_text n s d)"
    using n(1) fitsD(1) [OF f] by (intro doc_ok_cong [of "set_text n s d" d]) (simp_all add: set_text_def)
  moreover have c: "is_comment (set_text n s d) m = is_comment d m" for m
    using fitsD(2) [OF f] by (intro comments_same) (auto simp: text_at_def)
  then have "loc_ok (set_text n s d) loc [n]"
    using fitsD(5) [OF f] n(2)
    by (cases loc rule: loc_parent.cases) (auto simp: children_ok_def, auto simp: set_text_def is_elem_def)
  ultimately have "fits (set_text n s d) loc ty (SText n s)"
    using f by (auto simp: fits_def text_at_def set_text_def)
  moreover have "dom_evolves d (set_text n s d) {n} (loc_parent loc)"
    using c by (auto simp: dom_evolves_def comments_kept_def) (auto simp: set_text_def)
  ultimately show ?thesis using v by (auto simp: redone_def)
qed

lemma rebuilds_text: "rebuilds tg TyText (VText s)" "rebuilds tg (TyPrim e) (VPrim e s)"
proof -
  show "rebuilds tg TyText (VText s)"
  proof (rule rebuildsI)
    fix d loc st assume f: "fits d loc TyText st"
    then obtain n old where st: "st = SText n old" using fitsD(2) [OF f] by (cases st) auto
    have "redone tg d (if s \<noteq> old then set_text n s d else d) loc TyText (VText s) (SText n old) (SText n s)"
      using text_redone [of d loc TyText n old "VText s" s] f unfolding st by (cases "s = old") (auto simp: redone_def)
    then show "\<exists>st' d'. rebuild tg (VText s) st d = Inr (st', d') \<and> redone tg d d' loc TyText (VText s) st st'"
      using st by (simp add: text_rebuild_def)
  qed
  show "rebuilds tg (TyPrim e) (VPrim e s)"
  proof (rule rebuildsI)
    fix d loc st assume f: "fits d loc (TyPrim e) st"
    then obtain n old where st: "st = SText n old" using fitsD(2) [OF f] by (cases st) auto
    have "redone tg d d loc (TyPrim e) (VPrim e s) (SText n old) (SText n old)" if "\<not> prim_changed s old"
      using prim_unchanged [OF that] f st by (auto simp: redone_def)
    then show "\<exists>st' d'. rebuild tg (VPrim e s) st d = Inr (st', d') \<and> redone tg d d' loc (TyPrim e) (VPrim e s) st st'"
      using st text_redone [of d loc "TyPrim e" n old "VPrim e s" s] f by (simp add: prim_rebuild_def)
  qed
qed

lemma rebuilds_unit: "rebuilds tg TyUnit VUnit"
proof (rule rebuildsI)
  fix d loc st assume f: "fits d loc TyUnit st"
  then obtain n where "st = SPlace n" using fitsD(2) [OF f] by (cases st) auto
  then show "\<exists>st' d'. rebuild tg VUnit st d = Inr (st', d') \<and> redone tg d d' loc TyUnit VUnit st st'"
    using f by (auto simp: redone_def)
qed

subsection \<open>Branches\<close>

lemma rebuilds_either:
  assumes "rebuilds tg (ts ! i) v" "builds tg (ts ! i) v" "i < length ts" "wf_vty (TyEither ts)"
  shows "rebuilds tg (TyEither ts) (VEither n i v)"
proof (rule rebuildsI)
  fix d loc st assume f: "fits d loc (TyEither ts) st" and mv: "loc = None \<Longrightarrow> movable (TyEither ts)"
  obtain j s where st: "st = SEither j s" "j < length ts" using fitsD(2) [OF f] by (cases st) auto
  then have s: "fits d loc (ts ! j) s" using f by (auto simp: fits_def)
  show "\<exists>st' d'. rebuild tg (VEither n i v) st d = Inr (st', d') \<and> redone tg d d' loc (TyEither ts) (VEither n i v) st st'"
  proof (cases "i = j")
    case True
    have "loc = None \<Longrightarrow> movable (ts ! i)" using mv assms(3) by (simp add: list_all_length)
    then obtain s' d' where "rebuild tg v s d = Inr (s', d')" "redone tg d d' loc (ts ! i) v s s'"
      using rebuildsD [OF assms(1)] s True by blast
    then show ?thesis using redone_wrap(1) [OF _ assms(3) refl] True st by (fastforce simp: either_rebuild_def)
  next
    case False
    obtain new d1 where new: "build v d = Inr (new, d1)" "made tg d d1 (ts ! i) v new"
      using buildsE [OF assms(2) fitsD(1) [OF f]] .
    have "nodes s \<noteq> []" using st_ok_nodes [OF fitsD(2) [OF s]] assms(4) st(2) by (simp add: list_all_length)
    then obtain d2 where "replace_state new s d1 = Inr d2" "redone tg d d2 loc (ts ! i) v s new"
      using replace_redone [OF s new(2)] by blast
    then show ?thesis
      using redone_wrap(1) [OF _ assms(3) refl] False st(1) new(1) by (simp add: either_rebuild_def)
  qed
qed

subsection \<open>Results\<close>

lemma with_hook_redone:
  assumes "\<And>g. \<exists>st' d'. f (on_errors g d) = Inr (st', d') \<and> redone tg d d' loc ty v st st'"
  shows "\<exists>st' d'. with_hook h f d = Inr (st', d') \<and> redone tg d d' loc ty v st st'"
proof -
  obtain st' d' where "f (on_errors (\<lambda>s. if h = None then s else s\<lparr>hook := h\<rparr>) d) = Inr (st', d')"
    "redone tg d d' loc ty v st st'" using assms by blast
  then show ?thesis by (simp add: with_hook_def)
qed

lemma fits_resultD:
  assumes "fits d loc (TyResult t) st" "wf_vty (TyResult t)"
  obtains ok s e h where "st = SResult ok s e h" "fits d loc (if ok then t else TyUnit) s" "nodes s \<noteq> []"
proof -
  obtain ok s e h where st: "st = SResult ok s e h" using fitsD(2) [OF assms(1)] by (cases st) auto
  moreover have s: "fits d loc (if ok then t else TyUnit) s" using assms(1) st by (cases ok) (auto simp: fits_def)
  moreover have "nodes s \<noteq> []" using st_ok_nodes [OF fitsD(2) [OF s]] assms(2) by (simp split: if_splits)
  ultimately show thesis by (rule that)
qed

lemma rebuilds_ok:
  assumes "rebuilds tg t v" "builds tg t v" "wf_vty (TyResult t)"
  shows "rebuilds tg (TyResult t) (VOk v)"
proof (rule rebuildsI)
  fix d loc st assume f: "fits d loc (TyResult t) st" and mv: "loc = None \<Longrightarrow> movable (TyResult t)"
  obtain ok s e h where st: "st = SResult ok s e h" "fits d loc (if ok then t else TyUnit) s" "nodes s \<noteq> []"
    using fits_resultD [OF f assms(3)] .
  let ?f = "\<lambda>d0. if ok then and_then (rebuild tg v s d0) (\<lambda>(st', d1). Inr (SResult True st' None h, d1))
       else and_then (build v (on_errors (clear_error e) d0)) (\<lambda>(new, d1).
            and_then (replace_state new s d1) (\<lambda>d2. Inr (SResult True new None h, drop_state s d2)))"
  have "\<exists>st' d'. ?f (on_errors g d) = Inr (st', d') \<and> redone tg d d' loc (TyResult t) (VOk v) st st'" for g
  proof (cases ok)
    case True
    have "fits (on_errors g d) loc t s" using st(2) True by simp
    from rebuildsD [OF assms(1) this] mv obtain s' d' where "rebuild tg v s (on_errors g d) = Inr (s', d')"
      "redone tg d d' loc t v s s'" by auto
    then show ?thesis using redone_wrap(2) True st(1) by fastforce
  next
    case False
    let ?d = "on_errors (clear_error e) (on_errors g d)"
    have "doc_ok ?d" using fitsD(1) [OF f] by simp
    then obtain new d1 where new: "build v ?d = Inr (new, d1)" "made tg ?d d1 t v new" by (rule buildsE [OF assms(2)])
    have s: "fits d loc TyUnit s" using st(2) False by simp
    from new(2) have "made tg d d1 t v new" by simp
    then obtain d2 where "replace_state new s d1 = Inr d2" "redone tg d d2 loc t v s new"
      using replace_redone [OF s _ st(3)] by blast
    then show ?thesis using redone_wrap(2) False st(1) new(1) by simp
  qed
  then have "\<exists>st' d'. with_hook h ?f d = Inr (st', d') \<and> redone tg d d' loc (TyResult t) (VOk v) st st'"
    by (rule with_hook_redone)
  then show "\<exists>st' d'. rebuild tg (VOk v) st d = Inr (st', d') \<and> redone tg d d' loc (TyResult t) (VOk v) st st'"
    using st(1) by (simp add: ok_rebuild_def)
qed

lemma redone_err:
  "redone tg d d' loc TyUnit VUnit st (SPlace n) \<Longrightarrow>
   redone tg d d' loc (TyResult t) (VErr x) (SResult ok st e h) (SResult False (SPlace n) i h')"
  by (auto simp: redone_def fits_def)

lemma rebuilds_err:
  assumes "wf_vty (TyResult t)"
  shows "rebuilds tg (TyResult t) (VErr x)"
proof (rule rebuildsI)
  fix d loc st assume f: "fits d loc (TyResult t) st"
  obtain ok s e h where st: "st = SResult ok s e h" "fits d loc (if ok then t else TyUnit) s" "nodes s \<noteq> []"
    using fits_resultD [OF f assms] .
  let ?f = "\<lambda>d0. if ok then
         (case create_placeholder d0 of (n, d1) \<Rightarrow>
          and_then (replace_state (SPlace n) s d1) (\<lambda>d2.
            case throw_error x (errors (drop_state s d2)) of (i, z) \<Rightarrow>
              Inr (SResult False (SPlace n) i h, d2\<lparr>errors := z\<rparr>)))
       else
         (case throw_error x (clear_error e (errors d0)) of (i, z) \<Rightarrow>
            Inr (SResult False s i h, d0\<lparr>errors := z\<rparr>))"
  have "\<exists>st' d'. ?f (on_errors g d) = Inr (st', d') \<and> redone tg d d' loc (TyResult t) (VErr x) st st'" for g
  proof (cases ok)
    case True
    let ?d = "on_errors g d" and ?d1 = "snd (add_node (NComment []) (on_errors g d))"
    have "made tg ?d ?d1 TyUnit VUnit (SPlace (next_node ?d))" using made_place [of ?d tg] fitsD(1) [OF f] by simp
    then have "made tg d ?d1 TyUnit VUnit (SPlace (next_node ?d))" by simp
    from replace_redone [OF st(2) this st(3)] obtain d2 where d2: "replace_state (SPlace (next_node ?d)) s ?d1 = Inr d2"
      "redone tg d d2 loc TyUnit VUnit s (SPlace (next_node ?d))" by blast
    obtain i z where "throw_error x (errors (drop_state s d2)) = (i, z)" by fastforce
    then show ?thesis using True st(1) d2 redone_err by (simp add: creates)
  next
    case False
    obtain n where n: "s = SPlace n" using fitsD(2) [OF st(2)] False by (cases s) auto
    obtain i z where "throw_error x (clear_error e (errors (on_errors g d))) = (i, z)" by fastforce
    moreover have "redone tg d d loc TyUnit VUnit s (SPlace n)" using st(2) False n by (auto simp: redone_def)
    ultimately show ?thesis using False st(1) n redone_err by (simp add: on_errors_def)
  qed
  then have "\<exists>st' d'. with_hook h ?f d = Inr (st', d') \<and> redone tg d d' loc (TyResult t) (VErr x) st st'"
    by (rule with_hook_redone)
  then show "\<exists>st' d'. rebuild tg (VErr x) st d = Inr (st', d') \<and> redone tg d d' loc (TyResult t) (VErr x) st st'"
    using st(1) by (simp add: err_rebuild_def)
qed

subsection \<open>Views of any type\<close>

fun marker_list :: "nat option \<Rightarrow> nat list" where
  "marker_list None = []"
| "marker_list (Some n) = [n]"

lemma marker_list_case: "(case ph of None \<Rightarrow> [] | Some n \<Rightarrow> [n]) = marker_list ph"
  by (cases ph) simp_all

lemma fits_any:
  "fits d loc TyAny (SAny t s ph) \<longleftrightarrow>
     fits d (inner_loc [] (marker_list ph) loc) t s \<and> wf_vty t \<and> has_node t \<and> (ph = None \<longleftrightarrow> exists_ty t) \<and>
     (\<forall>n\<in>set (marker_list ph). is_comment d n \<and> n \<notin> set (held_nodes s) \<and> n < next_node d \<and> n \<notin> loc_parent loc \<and>
        (loc = None \<longrightarrow> parent d n = None))"
  by (cases ph; cases loc rule: loc_parent.cases) (auto simp: fits_def)

lemma any_same_redone:
  assumes f: "fits d loc TyAny (SAny t s ph)" and r: "redone tg d d' (inner_loc [] (marker_list ph) loc) t v s s'"
    and ex: "exists_view v = exists_ty t"
  shows "redone tg d d' loc TyAny (VAny t v) (SAny t s ph) (SAny t s' ph)"
proof -
  note r' = redoneD [OF r]
  have same: "same_on (set (marker_list ph)) d d'"
    using f dom_evolves_same_on [OF r'(3), of "set (marker_list ph)"] unfolding fits_any by auto
  have "n \<notin> set (held_nodes s')" if "n \<in> set (marker_list ph)" for n using that f r'(4) unfolding fits_any by auto
  then have "fits d' loc TyAny (SAny t s' ph)"
    using f r'(1,5) same unfolding fits_any by (auto simp: same_on_def is_comment_def intro: less_le_trans)
  moreover have "dom_evolves d d' (set (held_nodes (SAny t s ph))) (loc_parent loc)" using r'(3) by (rule dom_evolves_mono) auto
  ultimately show ?thesis
    using r'(2,4,5) f ex by (cases ph) (auto simp: redone_def fits_any)
qed

lemma rebuilds_any:
  assumes "rebuilds tg t v" "builds tg TyAny (VAny t v)" "exists_view v = exists_ty t"
  shows "rebuilds tg TyAny (VAny t v)"
proof (rule rebuildsI)
  fix d loc st assume f: "fits d loc TyAny st" and mv: "loc = None \<Longrightarrow> movable TyAny"
  obtain t' s ph where st: "st = SAny t' s ph" using fitsD(2) [OF f] by (cases st) auto
  show "\<exists>st' d'. rebuild tg (VAny t v) st d = Inr (st', d') \<and> redone tg d d' loc TyAny (VAny t v) st st'"
  proof (cases "t = t'")
    case True
    have "fits d (inner_loc [] (marker_list ph) loc) t s" using f st True by (simp add: fits_any)
    from rebuildsD [OF assms(1) this] mv obtain s' d' where "rebuild tg v s d = Inr (s', d')"
      "redone tg d d' (inner_loc [] (marker_list ph) loc) t v s s'" by auto
    then show ?thesis using any_same_redone [OF _ _ assms(3)] f st True by (simp add: any_rebuild_def)
  next
    case False
    obtain new d1 where new: "build (VAny t v) d = Inr (new, d1)" "made tg d d1 TyAny (VAny t v) new"
      using buildsE [OF assms(2) fitsD(1) [OF f]] .
    note f1 = fits_after_made [OF f new(2)] and apart = apart_new [OF f new(2)]
    have new1: "fits d1 None TyAny new" using new(2) by (simp add: made_def)
    have "\<exists>d2 d3. (case ph of
              Some n \<Rightarrow> and_then (node_insert_before n new d1) (\<lambda>(ok, d2). Inr (remove_node n d2))
            | None \<Rightarrow> and_then (insert_before_this new st d1) (\<lambda>(ok, d2). Inr d2)) = Inr d2 \<and>
         unmount_state st d2 = Inr d3 \<and> exchanged d1 d3 loc TyAny TyAny st new"
    proof (cases ph)
      case None
      have "nodes st \<noteq> []" using st_ok_nodes [OF fitsD(2) [OF f]] by simp
      from replace_exchanges [OF f1 new1 apart this] show ?thesis
        using None by (auto simp: replace_state_def and_then_def split: sum.splits prod.splits)
    next
      case (Some n)
      then show ?thesis using replace_any_exchanges [OF _ new1, where st = s and n = n] f1 apart st by simp
    qed
    then obtain d2 d3 where d3: "(case ph of
              Some n \<Rightarrow> and_then (node_insert_before n new d1) (\<lambda>(ok, d2). Inr (remove_node n d2))
            | None \<Rightarrow> and_then (insert_before_this new st d1) (\<lambda>(ok, d2). Inr d2)) = Inr d2"
      "unmount_state st d2 = Inr d3" "exchanged d1 d3 loc TyAny TyAny st new" by blast
    then have "rebuild tg (VAny t v) st d = Inr (new, drop_state st d3)"
      using False new(1) unfolding rebuild.simps any_rebuild_def st
      by (simp del: unmount_state.simps insert_before_this.simps)
    then show ?thesis using exchanged_redone [OF new(2) d3(3)] by simp
  qed
qed

subsection \<open>Views that are kept alive\<close>

definition opt_owned :: "vstate option \<Rightarrow> nat set" where
  "opt_owned sx = (case sx of None \<Rightarrow> {} | Some s \<Rightarrow> set (held_nodes s))"

lemma opt_owned_simps [simp]: "opt_owned None = {}" "opt_owned (Some s) = set (held_nodes s)"
  by (simp_all add: opt_owned_def)

definition side_fits :: "dom \<Rightarrow> location \<Rightarrow> vty \<Rightarrow> vstate option \<Rightarrow> bool" where
  "side_fits d loc t sx \<longleftrightarrow> doc_ok d \<and> (case sx of None \<Rightarrow> loc = None | Some s \<Rightarrow> fits d loc t s)"

definition side_redone ::
  "(string \<Rightarrow> string) \<Rightarrow> dom \<Rightarrow> dom \<Rightarrow> location \<Rightarrow> vty \<Rightarrow> view option \<Rightarrow> vstate option \<Rightarrow> vstate option \<Rightarrow> bool" where
  "side_redone tg d d' loc t x sx sx' \<longleftrightarrow> side_fits d' loc t sx' \<and> dom_evolves d d' (opt_owned sx) (loc_parent loc) \<and>
     opt_owned sx' \<subseteq> opt_owned sx \<union> {next_node d..<next_node d'} \<and> (sx \<noteq> None \<longrightarrow> sx' \<noteq> None) \<and>
     (\<forall>v. x = Some v \<longrightarrow> (\<exists>s. sx' = Some s \<and> reflects tg d' v s))"

lemma keep_side_redone:
  assumes "\<And>v. x = Some v \<Longrightarrow> rebuilds tg t v \<and> builds tg t v" "movable t" "side_fits d loc t sx"
  shows "\<exists>sx' d'. keep_side (rebuild tg) x sx d = Inr (sx', d') \<and> side_redone tg d d' loc t x sx sx'"
proof (cases x)
  case None
  then show ?thesis using assms(3) by (simp add: keep_side_def side_redone_def)
next
  case (Some v)
  note v = assms(1) [OF this]
  have d: "doc_ok d" using assms(3) by (simp add: side_fits_def)
  show ?thesis
  proof (cases sx)
    case None
    obtain s d' where s: "build v d = Inr (s, d')" "made tg d d' t v s" using buildsE [OF _ d] v by blast
    have "side_redone tg d d' loc t x sx (Some s)"
      using s(2) made_doc [OF s(2)] assms(3) None Some by (auto simp: side_redone_def side_fits_def made_def)
    then show ?thesis using s(1) Some None by (simp add: keep_side_def)
  next
    case (Some s)
    then have "fits d loc t s" using assms(3) by (simp add: side_fits_def)
    from rebuildsD [OF _ this] v assms(2) obtain s' d' where s': "rebuild tg v s d = Inr (s', d')" "redone tg d d' loc t v s s'"
      by blast
    have "side_redone tg d d' loc t x sx (Some s')"
      using redoneD [OF s'(2)] fitsD(1) \<open>x = Some v\<close> Some by (auto simp: side_redone_def side_fits_def)
    then show ?thesis using s'(1) \<open>x = Some v\<close> Some by (simp add: keep_side_def)
  qed
qed

text \<open>The other side stays as it is.\<close>

lemma side_later:
  assumes "side_fits d None t sx" "dom_evolves d d' S P" "doc_ok d'" "opt_owned sx \<inter> (S \<union> P) = {}"
  shows "side_fits d' None t sx"
proof (cases sx)
  case (Some s)
  then have f: "fits d None t s" using assms(1) by (simp add: side_fits_def)
  have same: "same_on (set (held_nodes s)) d d'"
    using dom_evolves_same_on [OF assms(2), of "set (held_nodes s)"] assms(4) Some fitsD(4) [OF f] by auto
  then have "loc_ok d' None (nodes s)" using fitsD(5) [OF f] nodes_owned [of s] by (auto simp: same_on_def)
  then have "fits d' None t s" using fits_same [OF f same assms(3) dom_evolves_next [OF assms(2)]] by simp
  then show ?thesis using Some assms(3) by (simp add: side_fits_def)
qed (use assms in \<open>simp add: side_fits_def\<close>)

lemma side_beside:
  assumes "side_fits d L t sx" "side_redone tg d d' L' t' y sy sy'" "L = None \<or> L' = None"
    and "opt_owned sx \<inter> opt_owned sy = {}" "loc_parent L \<inter> opt_owned sy = {}" "loc_parent L' \<inter> opt_owned sx = {}"
  shows "side_fits d' L t sx"
proof -
  have d: "doc_ok d'" "dom_evolves d d' (opt_owned sy) (loc_parent L')"
    using assms(2) by (auto simp: side_redone_def side_fits_def)
  show ?thesis
  proof (cases "L = None")
    case True
    have "opt_owned sx \<inter> (opt_owned sy \<union> loc_parent L') = {}" using assms(4,6) by blast
    then show ?thesis using side_later [of d t sx, OF _ d(2,1)] assms(1) True by simp
  next
    case False
    then have L': "L' = None" using assms(3) by blast
    obtain s where s: "sx = Some s" "fits d L t s" using assms(1) False by (auto simp: side_fits_def split: option.splits)
    have "fits d' L t s" using shown_later [OF s(2) _ d(1)] d(2) L' assms(4,5) s(1) by simp
    then show ?thesis using s(1) d(1) by (simp add: side_fits_def)
  qed
qed

lemma fits_keep:
  "fits d loc (TyKeep ta tb) (SKeep sa sb showing) \<longleftrightarrow>
     side_fits d (if showing then None else loc) ta sa \<and> side_fits d (if showing then loc else None) tb sb \<and>
     opt_owned sa \<inter> opt_owned sb = {} \<and> loc_parent loc \<inter> (opt_owned sa \<union> opt_owned sb) = {} \<and>
     (if showing then sb \<noteq> None else sa \<noteq> None)"
  by (cases sa; cases sb; cases showing) (auto simp: fits_def side_fits_def)

lemma held_nodes_keep: "set (held_nodes (SKeep sa sb showing)) = opt_owned sa \<union> opt_owned sb"
  by (simp add: opt_owned_def split: option.split)

lemma reflects_keep:
  "reflects tg d (VKeep a b s) (SKeep sa sb s) \<longleftrightarrow>
     (\<forall>v. a = Some v \<longrightarrow> (\<exists>x. sa = Some x \<and> reflects tg d v x)) \<and> (\<forall>v. b = Some v \<longrightarrow> (\<exists>x. sb = Some x \<and> reflects tg d v x))"
  by (auto split: option.splits)

lemma keep_sides_redone:
  assumes sides: "\<And>v. a = Some v \<Longrightarrow> rebuilds tg ta v \<and> builds tg ta v" "movable ta"
      "\<And>v. b = Some v \<Longrightarrow> rebuilds tg tb v \<and> builds tg tb v" "movable tb"
    and f: "fits d loc (TyKeep ta tb) (SKeep sa sb showing)"
  shows "\<exists>sa' d1 sb' d2. keep_side (rebuild tg) a sa d = Inr (sa', d1) \<and> keep_side (rebuild tg) b sb d1 = Inr (sb', d2) \<and>
    redone tg d d2 loc (TyKeep ta tb) (VKeep a b showing) (SKeep sa sb showing) (SKeep sa' sb' showing)"
proof -
  let ?la = "if showing then None else loc" and ?lb = "if showing then loc else None"
  note k = f [unfolded fits_keep]
  obtain sa' d1 where a: "keep_side (rebuild tg) a sa d = Inr (sa', d1)" "side_redone tg d d1 ?la ta a sa sa'"
    using keep_side_redone [OF sides(1,2)] k by blast
  note ra = a(2) [unfolded side_redone_def]
  have "side_fits d1 ?lb tb sb" by (rule side_beside [OF _ a(2)]) (use k in auto)
  then obtain sb' d2 where b: "keep_side (rebuild tg) b sb d1 = Inr (sb', d2)" "side_redone tg d1 d2 ?lb tb b sb sb'"
    using keep_side_redone [OF sides(3,4)] by blast
  note rb = b(2) [unfolded side_redone_def]
  have lt: "\<forall>n\<in>opt_owned sb. n < next_node d" using k fitsD(4) by (auto simp: side_fits_def split: option.splits)
  have lt1: "\<forall>n\<in>opt_owned sa'. n < next_node d1" using ra fitsD(4) by (auto simp: side_fits_def split: option.splits)
  have p: "loc_parent loc \<subseteq> {..<next_node d}"
    using fitsD(1,5) [OF f] elem_exists by (cases loc rule: loc_parent.cases) auto
  have apart: "opt_owned sa' \<inter> opt_owned sb = {}" "loc_parent loc \<inter> opt_owned sa' = {}"
    using ra k lt p by fastforce+
  have fa: "side_fits d2 ?la ta sa'" by (rule side_beside [OF _ b(2)]) (use ra k apart in auto)
  have next1: "next_node d \<le> next_node d1" "next_node d1 \<le> next_node d2" using ra rb by (auto simp: dom_evolves_def)
  have apart2: "opt_owned sa' \<inter> opt_owned sb' = {}" "loc_parent loc \<inter> opt_owned sb' = {}"
    using rb k apart lt1 p next1 by fastforce+
  have "fits d2 loc (TyKeep ta tb) (SKeep sa' sb' showing)"
    unfolding fits_keep using fa rb ra k apart(2) apart2 by auto
  moreover have "reflects tg d2 (VKeep a b showing) (SKeep sa' sb' showing)"
  proof -
    have "same_on (opt_owned sa') d1 d2"
      using rb lt1 apart dom_evolves_same_on [of d1 d2 "opt_owned sb" "loc_parent ?lb" "opt_owned sa'"] by (auto split: if_splits)
    then show ?thesis using ra rb reflects_same unfolding reflects_keep by fastforce
  qed
  moreover have "dom_evolves d d2 (opt_owned sa \<union> opt_owned sb) (loc_parent loc)"
  proof (rule dom_evolves_trans)
    show "dom_evolves d d1 (opt_owned sa \<union> opt_owned sb) (loc_parent loc)"
      using ra by (elim conjE) (rule dom_evolves_mono, auto split: if_splits)
    show "dom_evolves d1 d2 (opt_owned sb) (loc_parent loc)" using rb by (elim conjE) (rule dom_evolves_mono, auto split: if_splits)
  qed auto
  moreover have "opt_owned sa' \<union> opt_owned sb' \<subseteq> opt_owned sa \<union> opt_owned sb \<union> {next_node d..<next_node d2}"
    using ra rb next1 by fastforce
  ultimately show ?thesis using a(1) b(1) unfolding redone_def held_nodes_keep by blast
qed

lemma keep_switch_redone:
  assumes r: "redone tg d d2 loc (TyKeep ta tb) (VKeep a b showing) st (SKeep (Some x) (Some y) showing)"
    and ty: "has_node ta" "has_node tb"
    and old: "old = (if showing then y else x)" "new = (if showing then x else y)"
    and lt: "\<forall>n\<in>set (held_nodes st). n < next_node d"
  shows "\<exists>d3. replace_state new old d2 = Inr d3 \<and>
    redone tg d d3 loc (TyKeep ta tb) (VKeep a b (\<not> showing)) st (SKeep (Some x) (Some y) (\<not> showing))"
proof -
  let ?to = "if showing then tb else ta" and ?tn = "if showing then ta else tb"
  note r' = redoneD [OF r]
  note k = r'(1) [unfolded fits_keep]
  have f: "fits d2 loc ?to old" "fits d2 None ?tn new" using k old by (auto simp: side_fits_def split: if_splits)
  have apart: "set (held_nodes old) \<inter> set (held_nodes new) = {}" "loc_parent loc \<inter> set (held_nodes new) = {}"
    using k old by (auto split: if_splits)
  have "nodes old \<noteq> []" using st_ok_nodes [OF fitsD(2) [OF f(1)]] ty by simp
  from replace_exchanges [OF f apart this] obtain d3 where d3: "replace_state new old d2 = Inr d3"
    "exchanged d2 d3 loc ?to ?tn old new" by blast
  note ex = d3(2) [unfolded exchanged_def]
  have ok: "doc_ok d3" using ex fitsD(1) by blast
  have "fits d3 loc (TyKeep ta tb) (SKeep (Some x) (Some y) (\<not> showing))"
    unfolding fits_keep using ex ok k old by (auto simp: side_fits_def)
  moreover have "reflects tg d3 (VKeep a b (\<not> showing)) (SKeep (Some x) (Some y) (\<not> showing))"
    using r'(2) ex reflects_content [of _ d3 d2] unfolding reflects_keep by fastforce
  moreover have "dom_evolves d d3 (set (held_nodes st)) (loc_parent loc)"
  proof (rule dom_evolves_trans [OF r'(3)])
    show "dom_evolves d2 d3 (set (nodes old) \<union> set (nodes new)) (loc_parent loc)" using ex by blast
    have "set (nodes old) \<union> set (nodes new) \<subseteq> set (held_nodes (SKeep (Some x) (Some y) showing))"
      using nodes_owned [of x] nodes_owned [of y] old by auto
    then show "set (nodes old) \<union> set (nodes new) \<subseteq> set (held_nodes st) \<union> {next_node d..}" using r'(4) by fastforce
  qed
  moreover have "next_node d2 \<le> next_node d3" using ex by (auto simp: dom_evolves_def)
  ultimately have "redone tg d d3 loc (TyKeep ta tb) (VKeep a b (\<not> showing)) st (SKeep (Some x) (Some y) (\<not> showing))"
    using r'(4) by (auto simp: redone_def)
  then show ?thesis using d3(1) by blast
qed

lemma rebuilds_keep:
  assumes sides: "\<And>v. a = Some v \<Longrightarrow> rebuilds tg ta v \<and> builds tg ta v"
      "\<And>v. b = Some v \<Longrightarrow> rebuilds tg tb v \<and> builds tg tb v"
    and wf: "wf_vty (TyKeep ta tb)" and shown: "if show_b then b \<noteq> None else a \<noteq> None"
  shows "rebuilds tg (TyKeep ta tb) (VKeep a b show_b)"
proof (rule rebuildsI)
  fix d loc st assume f: "fits d loc (TyKeep ta tb) st"
  obtain sa sb showing where st: "st = SKeep sa sb showing" using fitsD(2) [OF f] by (cases st) auto
  have mv: "movable ta" "movable tb" "has_node ta" "has_node tb" using wf by auto
  obtain sa' d1 sb' d2 where k: "keep_side (rebuild tg) a sa d = Inr (sa', d1)" "keep_side (rebuild tg) b sb d1 = Inr (sb', d2)"
    "redone tg d d2 loc (TyKeep ta tb) (VKeep a b showing) st (SKeep sa' sb' showing)"
    using keep_sides_redone [OF sides(1) mv(1) sides(2) mv(2)] f st by blast
  show "\<exists>st' d'. rebuild tg (VKeep a b show_b) st d = Inr (st', d') \<and> redone tg d d' loc (TyKeep ta tb) (VKeep a b show_b) st st'"
  proof (cases "show_b = showing")
    case True
    then show ?thesis using k st by (simp add: keep_rebuild_def)
  next
    case False
    have "fits d2 loc (TyKeep ta tb) (SKeep sa' sb' showing)" "reflects tg d2 (VKeep a b showing) (SKeep sa' sb' showing)"
      using redoneD [OF k(3)] by auto
    then have "sa' \<noteq> None" "sb' \<noteq> None" using shown False unfolding fits_keep reflects_keep by (auto split: if_splits)
    then obtain x y where xy: "sa' = Some x" "sb' = Some y" by auto
    have neg: "show_b = (\<not> showing)" using False by simp
    from keep_switch_redone [OF k(3) [unfolded xy] mv(3,4) refl refl] fitsD(4) [OF f] obtain d3 where
      "replace_state (if showing then x else y) (if showing then y else x) d2 = Inr d3"
      "redone tg d d3 loc (TyKeep ta tb) (VKeep a b (\<not> showing)) st (SKeep (Some x) (Some y) (\<not> showing))" by blast
    then show ?thesis using k(1,2) xy neg st by (cases showing) (simp_all add: keep_rebuild_def)
  qed
qed

subsection \<open>Elements\<close>

lemma fits_element:
  "fits d loc (TyElem et ats t) (SElem el sas ch) \<longleftrightarrow>
     doc_ok d \<and> el < next_node d \<and> loc_ok d loc [el] \<and> el \<notin> loc_parent loc \<and>
     (\<exists>tag as. content d el = Some (NElem tag as) \<and> (TAG et \<noteq> [] \<longrightarrow> tag = TAG et) \<and> attrs_ok el as ats sas) \<and>
     (case ch of
        None \<Rightarrow> (SELF_CLOSING et \<or> \<not> exists_ty t) \<and> children_ok d el []
      | Some st \<Rightarrow> \<not> SELF_CLOSING et \<and> fits d (Some (el, [], [])) t st \<and> loc_parent loc \<inter> set (held_nodes st) = {})"
  by (cases ch) (auto simp: fits_def is_elem_def)

text \<open>Changing the attributes of an element.\<close>

lemma attrs_redone:
  assumes "doc_ok d" "content d el = Some (NElem tag as)" "d1 = with_attrs el tag bs d"
  shows "doc_ok d1" "el \<notin> set (held_nodes st) \<Longrightarrow> fits d loc t st \<Longrightarrow> fits d1 loc t st"
    "loc_ok d1 loc ns = loc_ok d loc ns" "dom_evolves d d1 {el} P" "next_node d1 = next_node d"
proof -
  have el: "el < next_node d" using elem_exists [OF assms(1)] assms(2) by (simp add: is_elem_def)
  show ok: "doc_ok d1"
    using assms(1) el by (intro doc_ok_cong [of d1 d]) (auto simp: assms(3) with_attrs_def)
  show n: "next_node d1 = next_node d" by (simp add: assms(3) with_attrs_def)
  have c: "is_comment d1 m = is_comment d m" for m using comments_same(2) [OF assms(2)] assms(3) by simp
  show l: "loc_ok d1 loc ns = loc_ok d loc ns" for loc ns
    using assms(2) by (cases loc rule: loc_parent.cases)
      (auto simp: children_ok_def c, auto simp: assms(3) with_attrs_def is_elem_def split: if_splits)
  show "dom_evolves d d1 {el} P" by (auto simp: dom_evolves_def comments_kept_def c) (auto simp: assms(3) with_attrs_def)
  assume e: "el \<notin> set (held_nodes st)" and f: "fits d loc t st"
  have "same_on (set (held_nodes st)) d d1"
    using e by (auto simp: same_on_def comments_kept_def c) (auto simp: assms(3) with_attrs_def)
  then show "fits d1 loc t st" using fits_same [OF f _ ok] n l fitsD(5) [OF f] by simp
qed

lemma child_redone:
  assumes f: "fits d loc (TyElem et ats t) (SElem el sas (Some st))"
    and r: "redone tg d d' (Some (el, [], [])) t v st st'"
  shows "content d' el = content d el" "loc_ok d' loc [el]" "loc_parent loc \<inter> set (held_nodes st') = {}" "el \<notin> set (held_nodes st')"
    "dom_evolves d d' (set (held_nodes (SElem el sas (Some st)))) (loc_parent loc)"
    "set (held_nodes (SElem el sas' (Some st'))) \<subseteq> set (held_nodes (SElem el sas (Some st))) \<union> {next_node d..<next_node d'}"
proof -
  note k = f [unfolded fits_element] and r' = redoneD [OF r]
  have el: "el < next_node d" "el \<notin> set (held_nodes st)" "loc_parent loc \<inter> set (held_nodes st) = {}" "el \<notin> loc_parent loc"
    using k by (auto simp: fits_def)
  show c: "content d' el = content d el" using r'(3) el by (auto simp: dom_evolves_def)
  have par: "parent d' el = parent d el" using r'(3) el by (auto simp: dom_evolves_def)
  have p: "loc_parent loc \<subseteq> {..<next_node d}"
    using k elem_exists by (cases loc rule: loc_parent.cases) auto
  show "loc_ok d' loc [el]"
  proof (cases loc rule: loc_parent.cases)
    case (2 p pre post)
    then have "kids d' p = kids d p" "content d' p = content d p" "comments_kept d d'"
      using r'(3) el p by (auto simp: dom_evolves_def)
    then show ?thesis using k 2 children_ok_same by (auto simp: is_elem_def)
  qed (use k par in simp)
  show "loc_parent loc \<inter> set (held_nodes st') = {}" "el \<notin> set (held_nodes st')" using r'(4) el p by fastforce+
  show "dom_evolves d d' (set (held_nodes (SElem el sas (Some st)))) (loc_parent loc)" using r'(3) by (rule dom_evolves_mono) auto
  show "set (held_nodes (SElem el sas' (Some st'))) \<subseteq> set (held_nodes (SElem el sas (Some st))) \<union> {next_node d..<next_node d'}"
    using r'(4) by auto
qed

lemma element_same_redone:
  assumes f: "fits d loc (TyElem et ats t) (SElem el sas ch)" and typed: "list_all2 has_aty ats xs" "attrs_typed ats"
    and rb: "rebuilds tg t v" and ex: "exists_view v = exists_ty t"
    and same: "\<And>u as. content d el = Some (NElem u as) \<Longrightarrow> u = tag \<or> tg u = tag"
  shows "\<exists>st' d'. and_then (attrs_rebuild xs sas d) (\<lambda>(sas', d1). case ch of
        None \<Rightarrow> Inr (SElem el sas' None, d1)
      | Some st \<Rightarrow> and_then (rebuild tg v st d1) (\<lambda>(st', d2). Inr (SElem el sas' (Some st'), d2))) = Inr (st', d') \<and>
    redone tg d d' loc (TyElem et ats t) (VElem et tag xs v) (SElem el sas ch) st'"
proof -
  note k = f [unfolded fits_element]
  obtain u as where c: "content d el = Some (NElem u as)" "TAG et \<noteq> [] \<longrightarrow> u = TAG et" "attrs_ok el as ats sas" using k by blast
  let ?sas = "map (attr_state_of el) xs"
  obtain bs where bs: "attrs_rebuild xs sas d = Inr (?sas, with_attrs el u bs d)" "attrs_ok el bs ats ?sas"
    using attrs_rebuild_ok [OF c(1) typed c(3)] by blast
  define d1 where "d1 = with_attrs el u bs d"
  note a = attrs_redone [OF fitsD(1) [OF f] c(1) d1_def]
  have c1: "content d1 el = Some (NElem u bs)" by (simp add: d1_def)
  have u: "u = tag \<or> tg u = tag" using same [OF c(1)] .
  show ?thesis
  proof (cases ch)
    case None
    have "children_ok d1 el []" using a(3) [of "Some (el, [], [])" "[]"] k None c(1) by (simp add: is_elem_def)
    then have "fits d1 loc (TyElem et ats t) (SElem el ?sas None)"
      unfolding fits_element using k a c1 c(2) bs(2) None by auto
    moreover have "reflects tg d1 (VElem et tag xs v) (SElem el ?sas None)" using c1 u k None ex by auto
    ultimately have "redone tg d d1 loc (TyElem et ats t) (VElem et tag xs v) (SElem el sas ch) (SElem el ?sas None)"
      using a(4) None by (auto simp: redone_def)
    then show ?thesis using bs(1) None by (simp add: d1_def)
  next
    case (Some st)
    have st: "fits d (Some (el, [], [])) t st" "el \<notin> set (held_nodes st)" "loc_parent loc \<inter> set (held_nodes st) = {}"
      using k Some by (auto simp: fits_def)
    have st1: "fits d1 (Some (el, [], [])) t st" using a(2) st by blast
    then obtain st' d2 where st': "rebuild tg v st d1 = Inr (st', d2)" "redone tg d1 d2 (Some (el, [], [])) t v st st'"
      using rebuildsD [OF rb] by blast
    have f1: "fits d1 loc (TyElem et ats t) (SElem el ?sas (Some st))"
      unfolding fits_element using k a c1 c(2) bs(2) st1 st(3) Some by auto
    note ch = child_redone [OF f1 st'(2)] and r' = redoneD [OF st'(2)]
    have "fits d2 loc (TyElem et ats t) (SElem el ?sas (Some st'))"
      unfolding fits_element using f1 [unfolded fits_element] fitsD(1) [OF r'(1)] r'(1,5) ch(1-3) c1 c(2) bs(2) by auto
    moreover have "reflects tg d2 (VElem et tag xs v) (SElem el ?sas (Some st'))" using r'(2) ch(1) c1 u by auto
    moreover have "dom_evolves d d2 (set (held_nodes (SElem el sas ch))) (loc_parent loc)"
    proof (rule dom_evolves_trans [OF _ ch(5)])
      show "dom_evolves d d1 (set (held_nodes (SElem el sas ch))) (loc_parent loc)"
        using a(4) [of "loc_parent loc"] by (rule dom_evolves_mono) auto
    qed (use Some in auto)
    ultimately have "redone tg d d2 loc (TyElem et ats t) (VElem et tag xs v) (SElem el sas ch) (SElem el ?sas (Some st'))"
      using ch(6) a(5) Some by (auto simp: redone_def)
    then show ?thesis using bs(1) st'(1) Some by (simp add: d1_def)
  qed
qed

lemma rebuilds_element:
  assumes "rebuilds tg t v" "builds tg (TyElem et ats t) (VElem et tag xs v)"
    and "has_vty (TyElem et ats t) (VElem et tag xs v)" "attrs_typed ats"
  shows "rebuilds tg (TyElem et ats t) (VElem et tag xs v)"
proof (rule rebuildsI)
  let ?v = "VElem et tag xs v" and ?ty = "TyElem et ats t"
  fix d loc st assume f: "fits d loc ?ty st"
  obtain el sas ch where st: "st = SElem el sas ch" using fitsD(2) [OF f] by (cases st) auto
  show "\<exists>st' d'. rebuild tg ?v st d = Inr (st', d') \<and> redone tg d d' loc ?ty ?v st st'"
  proof (cases "TAG et = [] \<and> tag_differs tg d el tag")
    case True
    obtain new d1 where new: "build ?v d = Inr (new, d1)" "made tg d d1 ?ty ?v new"
      using buildsE [OF assms(2) fitsD(1) [OF f]] .
    from replace_redone [OF f new(2)] st obtain d2 where "replace_state new st d1 = Inr d2" "redone tg d d2 loc ?ty ?v st new"
      by auto
    then show ?thesis using True new(1) st by (simp add: element_rebuild_def)
  next
    case False
    have typed: "list_all2 has_aty ats xs" "exists_view v = exists_ty t" "TAG et \<noteq> [] \<longrightarrow> tag = TAG et"
      using assms(3) exists_view_ty by auto
    have tag: "u = tag \<or> tg u = tag" if "content d el = Some (NElem u as)" for u as
      using that False typed(3) f [unfolded st fits_element] by (auto simp: tag_differs_def)
    have "rebuild tg ?v st d = and_then (attrs_rebuild xs sas d) (\<lambda>(sas', d1). case ch of
        None \<Rightarrow> Inr (SElem el sas' None, d1)
      | Some st \<Rightarrow> and_then (rebuild tg v st d1) (\<lambda>(st', d2). Inr (SElem el sas' (Some st'), d2)))"
      using False st by (auto simp: element_rebuild_def)
    then show ?thesis
      using element_same_redone [OF f [unfolded st] typed(1) assms(4,1) typed(2), of tag] tag st by simp
  qed
qed

subsection \<open>All views\<close>

lemma rebuilds_list:
  assumes "\<And>v ty. v \<in> set vs \<Longrightarrow> has_vty ty v \<Longrightarrow> wf_vty ty \<Longrightarrow> filled v \<Longrightarrow> rebuilds tg ty v"
    and "list_all2 has_vty ts vs" "list_all wf_vty ts" "list_all filled vs"
  shows "list_all2 (rebuilds tg) ts vs"
  using assms(2,1,3,4) by (induction ts vs rule: list_all2_induct) auto

lemma rebuilds_tuple:
  assumes "list_all2 (rebuilds tg) ts vs"
  shows "rebuilds tg (TyTuple ts) (VTuple vs)"
proof (rule rebuildsI)
  fix d loc st assume f: "fits d loc (TyTuple ts) st" and mv: "loc = None \<Longrightarrow> movable (TyTuple ts)"
  obtain sts where st: "st = STuple sts" using fitsD(2) [OF f] by (cases st) auto
  then have len: "length vs = length sts"
    using list_all2_lengthD [OF assms] fitsD(2) [OF f] by (auto dest: list_all2_lengthD)
  have "loc = None \<Longrightarrow> list_all movable ts" using mv by simp
  from rebuild_list [OF assms f [unfolded st] this] show
    "\<exists>st' d'. rebuild tg (VTuple vs) st d = Inr (st', d') \<and> redone tg d d' loc (TyTuple ts) (VTuple vs) st st'"
    using st len by (auto simp: tuple_rebuild_def)
qed

lemma fits_array: "fits d loc (TyArray (length sts) t) (SArray sts) = fits d loc (TyTuple (replicate (length sts) t)) (STuple sts)"
  by (simp add: fits_def list_all2_replicate)

lemma rebuilds_array:
  assumes "\<forall>v\<in>set vs. rebuilds tg t v"
  shows "rebuilds tg (TyArray (length vs) t) (VArray vs)"
proof (rule rebuildsI)
  fix d loc st assume f: "fits d loc (TyArray (length vs) t) st" and mv: "loc = None \<Longrightarrow> movable (TyArray (length vs) t)"
  obtain sts where st: "st = SArray sts" "length vs = length sts" using fitsD(2) [OF f] by (cases st) auto
  have g: "fits d loc (TyTuple (replicate (length vs) t)) (STuple sts)" using f st fits_array by simp
  from rebuild_same_type [OF assms g] mv obtain sts' d' where
    r: "map_state (\<lambda>(v, st). rebuild tg v st) (zip vs sts) d = Inr (sts', d')"
      "redone tg d d' loc (TyTuple (replicate (length vs) t)) (VTuple vs) (STuple sts) (STuple sts')" by auto
  then have "length vs = length sts'" by (auto simp: redone_def dest: list_all2_lengthD)
  then have "redone tg d d' loc (TyArray (length vs) t) (VArray vs) st (SArray sts')"
    using r(2) st fits_array [of d' loc sts' t] by (simp add: redone_def)
  then show "\<exists>st' d'. rebuild tg (VArray vs) st d = Inr (st', d') \<and> redone tg d d' loc (TyArray (length vs) t) (VArray vs) st st'"
    using r(1) st by (simp add: tuple_rebuild_def)
qed

lemma rebuilds_vec:
  assumes "\<forall>v\<in>set vs. rebuilds tg t v \<and> builds tg t v"
  shows "rebuilds tg (TyVec t) (VVec vs)" "rebuilds tg (TyStaticVec t) (VStaticVec vs)"
proof -
  show "rebuilds tg (TyVec t) (VVec vs)"
  proof (rule rebuildsI)
    fix d loc st assume f: "fits d loc (TyVec t) st" and mv: "loc = None \<Longrightarrow> movable (TyVec t)"
    obtain sts m where st: "st = SVec sts m" using fitsD(2) [OF f] by (cases st) auto
    have g: "fits d loc (TyVec t) (SVec sts m) \<or> fits d loc (TyStaticVec t) (SStaticVec sts m)" using f st by simp
    from vec_rebuild_redone [OF assms _ _ g, of try_mount_before] mv
    show "\<exists>st' d'. rebuild tg (VVec vs) st d = Inr (st', d') \<and> redone tg d d' loc (TyVec t) (VVec vs) st st'"
      using vec_redone(1) [OF g] st by (fastforce simp: mounts_at_def)
  qed
  show "rebuilds tg (TyStaticVec t) (VStaticVec vs)"
  proof (rule rebuildsI)
    fix d loc st assume f: "fits d loc (TyStaticVec t) st" and mv: "loc = None \<Longrightarrow> movable (TyStaticVec t)"
    obtain sts m where st: "st = SStaticVec sts m" using fitsD(2) [OF f] by (cases st) auto
    have g: "fits d loc (TyVec t) (SVec sts m) \<or> fits d loc (TyStaticVec t) (SStaticVec sts m)" using f st by simp
    have "loc \<noteq> None" using mv by (cases "loc = None") simp_all
    with vec_rebuild_redone [OF assms _ _ g, of mount_before]
    show "\<exists>st' d'. rebuild tg (VStaticVec vs) st d = Inr (st', d') \<and> redone tg d d' loc (TyStaticVec t) (VStaticVec vs) st st'"
      using vec_redone(2) [OF g] st by (fastforce simp: mounts_at_def)
  qed
qed

theorem rebuild_rebuilds: "has_vty ty v \<Longrightarrow> wf_vty ty \<Longrightarrow> filled v \<Longrightarrow> rebuilds tg ty v"
proof (induction v arbitrary: ty)
  case (VTuple vs)
  then obtain ts where ts: "ty = TyTuple ts" "list_all2 has_vty ts vs" by (auto split: vty.splits)
  then have "list_all2 (rebuilds tg) ts vs" using VTuple by (intro rebuilds_list) auto
  then show ?case using rebuilds_tuple ts(1) by simp
next
  case (VArray vs)
  then obtain t where t: "ty = TyArray (length vs) t" "list_all (has_vty t) vs" by (auto split: vty.splits)
  then have "\<forall>v\<in>set vs. rebuilds tg t v" using VArray by (auto simp: list_all_iff)
  then show ?case using rebuilds_array t(1) by simp
next
  case (VVec vs)
  then obtain t where t: "ty = TyVec t" "list_all (has_vty t) vs" by (auto split: vty.splits)
  then have "\<forall>v\<in>set vs. rebuilds tg t v \<and> builds tg t v" using VVec build_builds by (auto simp: list_all_iff)
  then show ?case using rebuilds_vec(1) t(1) by simp
next
  case (VStaticVec vs)
  then obtain t where t: "ty = TyStaticVec t" "list_all (has_vty t) vs" by (auto split: vty.splits)
  then have "\<forall>v\<in>set vs. rebuilds tg t v \<and> builds tg t v" using VStaticVec build_builds by (auto simp: list_all_iff)
  then show ?case using rebuilds_vec(2) t(1) by simp
next
  case (VEither n i v)
  then obtain ts where ts: "ty = TyEither ts" "i < length ts" "has_vty (ts ! i) v" by (auto split: vty.splits)
  moreover then have "rebuilds tg (ts ! i) v" "builds tg (ts ! i) v"
    using VEither build_builds by (auto simp: list_all_length)
  ultimately show ?case using rebuilds_either VEither(3) by blast
next
  case (VOk v)
  then obtain t where t: "ty = TyResult t" "rebuilds tg t v" "builds tg t v" using build_builds by (auto split: vty.splits)
  then show ?case using rebuilds_ok VOk(3) by blast
next
  case (VErr e)
  then obtain t where "ty = TyResult t" by (auto split: vty.splits)
  then show ?case using rebuilds_err VErr by blast
next
  case (VAny t v)
  then have "rebuilds tg t v" "exists_view v = exists_ty t" "ty = TyAny" using exists_view_ty by auto
  moreover have "builds tg ty (VAny t v)" using VAny(2-4) build_builds by blast
  ultimately show ?case using rebuilds_any by blast
next
  case (VKeep a b show_b)
  then obtain ta tb where ty: "ty = TyKeep ta tb" by (auto split: vty.splits)
  have "\<And>v. a = Some v \<Longrightarrow> rebuilds tg ta v \<and> builds tg ta v" "\<And>v. b = Some v \<Longrightarrow> rebuilds tg tb v \<and> builds tg tb v"
    using VKeep ty build_builds by auto
  moreover have "if show_b then b \<noteq> None else a \<noteq> None" using VKeep(5) by (auto split: option.splits)
  ultimately show ?case using rebuilds_keep VKeep(4) ty by blast
next
  case (VElem et tag xs v)
  then obtain ats t where ty: "ty = TyElem et ats t" by (auto split: vty.splits)
  moreover then have "rebuilds tg t v" "attrs_typed ats" using VElem by auto
  moreover have "builds tg ty (VElem et tag xs v)" using VElem(2-4) build_builds by blast
  ultimately show ?case using rebuilds_element VElem(2) by blast
qed (simp_all add: rebuilds_text rebuilds_unit)

end
