(* ===== verification/View_Shown.thy ===== *)
theory View_Shown
  imports View_Rebuild_Correct
begin

text \<open>
  What a view looks like: the tree of the texts and elements it stands for, without the comments
  that mark places. A state that fits and reflects a view shows this tree in the document; a number
  that is zero is shown up to its sign.
\<close>

subsection \<open>The picture of a view\<close>

datatype tree = TText string | TPrim string | TElem string "(aty \<times> attr) list" "tree list"

fun picture :: "vty \<Rightarrow> view \<Rightarrow> tree list" where
  "picture ty (VText s) = [TText s]"
| "picture ty (VPrim e s) = [TPrim s]"
| "picture ty VUnit = []"
| "picture ty (VTuple vs) = (case ty of TyTuple ts \<Rightarrow> concat (map (\<lambda>(v, t). picture t v) (zip vs ts)) | _ \<Rightarrow> [])"
| "picture ty (VArray vs) = (case ty of TyArray n t \<Rightarrow> concat (map (picture t) vs) | _ \<Rightarrow> [])"
| "picture ty (VVec vs) = (case ty of TyVec t \<Rightarrow> concat (map (picture t) vs) | _ \<Rightarrow> [])"
| "picture ty (VStaticVec vs) = (case ty of TyStaticVec t \<Rightarrow> concat (map (picture t) vs) | _ \<Rightarrow> [])"
| "picture ty (VEither n i v) = (case ty of TyEither ts \<Rightarrow> picture (ts ! i) v | _ \<Rightarrow> [])"
| "picture ty (VOk v) = (case ty of TyResult t \<Rightarrow> picture t v | _ \<Rightarrow> [])"
| "picture ty (VErr e) = []"
| "picture ty (VAny t v) = picture t v"
| "picture ty (VKeep a b show_b) = (case ty of
     TyKeep ta tb \<Rightarrow> (if show_b then (case b of Some v \<Rightarrow> picture tb v | None \<Rightarrow> [])
       else (case a of Some v \<Rightarrow> picture ta v | None \<Rightarrow> []))
   | _ \<Rightarrow> [])"
| "picture ty (VElem et tag as v) = (case ty of
     TyElem et' ats t \<Rightarrow> [TElem tag (zip ats as) (if SELF_CLOSING et then [] else picture t v)]
   | _ \<Rightarrow> [])"

text \<open>Attributes of an element that show a value or a class.\<close>

fun value_shown :: "string option \<Rightarrow> aval \<Rightarrow> bool" where
  "value_shown x AUnit = True"
| "value_shown x (AStr v) = (x = Some v)"
| "value_shown x (APrim v) = (\<exists>w. x = Some w \<and> prim_same v w)"
| "value_shown x (ABool b) = (x = (if b then Some [] else None))"
| "value_shown x (AOpt None) = (x = None)"
| "value_shown x (AOpt (Some v)) = value_shown x v"

fun cls_shown :: "string list \<Rightarrow> clsty \<Rightarrow> cls \<Rightarrow> bool" where
  "cls_shown cs t (CStr c) = (cs = class_tokens c)"
| "cls_shown cs t (CToggle n b) = (n \<in> set cs \<longleftrightarrow> b)"
| "cls_shown cs t (COpt None) = (case toggles t of None \<Rightarrow> cs = [] | Some n \<Rightarrow> n \<notin> set cs)"
| "cls_shown cs t (COpt (Some c)) = cls_shown cs t c"

fun attr_shown :: "(string \<times> string) list \<Rightarrow> aty \<Rightarrow> attr \<Rightarrow> bool" where
  "attr_shown as t (Attr k v) = value_shown (map_of as k) v"
| "attr_shown as t (Class c) = (case t of TClass ct \<Rightarrow> cls_shown (classes as) ct c | _ \<Rightarrow> False)"

definition visible :: "dom \<Rightarrow> nat list \<Rightarrow> nat list" where
  "visible d ns = filter (\<lambda>n. \<not> is_comment d n) ns"

fun depicts :: "(string \<Rightarrow> string) \<Rightarrow> dom \<Rightarrow> tree \<Rightarrow> nat \<Rightarrow> bool" where
  "depicts tg d (TText s) n = text_at d n s"
| "depicts tg d (TPrim s) n = (\<exists>t. text_at d n t \<and> prim_same s t)"
| "depicts tg d (TElem tag as ts) n = (case content d n of
     Some (NElem u bs) \<Rightarrow> (u = tag \<or> tg u = tag) \<and> list_all (\<lambda>(t, a). attr_shown bs t a) as \<and>
       list_all2 (depicts tg d) ts (visible d (kids d n))
   | _ \<Rightarrow> False)"

subsection \<open>States show their views\<close>

lemma value_ok_shown: "value_ok k el as t (value_state el v) \<Longrightarrow> has_avty t v \<Longrightarrow> value_shown (map_of as k) v"
proof (induction t arbitrary: v)
  case (AtOpt t)
  then show ?case by (cases v) (auto split: option.splits)
qed (auto split: aval.splits)

lemma cls_ok_shown: "cls_ok el as t (cls_state el c) \<Longrightarrow> has_clsty t c \<Longrightarrow> toggles t = toggles u \<Longrightarrow> cls_shown (classes as) u c"
proof (induction t arbitrary: c)
  case (CtOpt t)
  then show ?case by (cases c) (auto split: option.splits)
qed (auto split: cls.splits)

lemma attr_ok_shown: "attr_ok el as t (attr_state_of el x) \<Longrightarrow> has_aty t x \<Longrightarrow> attr_shown as t x"
  by (cases t; cases x) (auto dest: value_ok_shown cls_ok_shown [OF _ _ refl])

lemma attrs_ok_shown:
  assumes "attrs_ok el as ts (map (attr_state_of el) xs)" "list_all2 has_aty ts xs"
  shows "list_all (\<lambda>(t, a). attr_shown as t a) (zip ts xs)"
  using assms(2,1) unfolding attrs_ok_def
  by (induction ts xs rule: list_all2_induct) (auto dest: attr_ok_shown)

lemma visible_append [simp]: "visible d (ns @ ms) = visible d ns @ visible d ms"
  by (simp add: visible_def)

lemma visible_comment [simp]: "visible d [] = []" "is_comment d n \<Longrightarrow> visible d [n] = []" "visible d [n] = (if is_comment d n then [] else [n])"
  by (simp_all add: visible_def)

lemma visible_children: "subseq ns ks \<Longrightarrow> distinct ks \<Longrightarrow> \<forall>n\<in>set ks. n \<in> set ns \<or> is_comment d n \<Longrightarrow> visible d ks = visible d ns"
proof (induction rule: list_emb.induct)
  case (list_emb_Nil ys)
  then show ?case by (auto simp: visible_def filter_empty_conv)
next
  case (list_emb_Cons xs ys y)
  then have "y \<notin> set xs" using subseq_set by fastforce
  then have "visible d ys = visible d xs" "is_comment d y" using list_emb_Cons by auto
  then show ?case by (simp add: visible_def)
next
  case (list_emb_Cons2 x y xs ys)
  have "n \<in> set xs \<or> is_comment d n" if "n \<in> set ys" for n
  proof -
    have "n \<noteq> y" using that list_emb_Cons2(4) by auto
    then show ?thesis using that list_emb_Cons2(1,5) by auto
  qed
  then show ?case using list_emb_Cons2 by (simp add: visible_def)
qed

lemma children_visible: "doc_ok d \<Longrightarrow> children_ok d p ns \<Longrightarrow> visible d (kids d p) = visible d ns"
  using visible_children doc_okD(2) unfolding children_ok_def by blast

lemma shows_same_type:
  assumes "\<And>v st. v \<in> set vs \<Longrightarrow> st \<in> set sts \<Longrightarrow> reflects tg d v st \<Longrightarrow> list_all2 (depicts tg d) (picture t v) (visible d (nodes st))"
    and "list_all2 (reflects tg d) vs sts"
  shows "list_all2 (depicts tg d) (concat (map (picture t) vs)) (visible d (concat (map nodes sts)))"
  using assms(2,1) by (induction vs sts rule: list_all2_induct) (auto intro!: list_all2_appendI)

lemma shows_types:
  assumes "list_all2 has_vty ts vs" "list_all2 (st_ok d) sts ts" "list_all2 (reflects tg d) vs sts"
    and "\<And>v st ty. v \<in> set vs \<Longrightarrow> st_ok d st ty \<Longrightarrow> reflects tg d v st \<Longrightarrow> has_vty ty v \<Longrightarrow>
      list_all2 (depicts tg d) (picture ty v) (visible d (nodes st))"
  shows "list_all2 (depicts tg d) (concat (map (\<lambda>(v, t). picture t v) (zip vs ts))) (visible d (concat (map nodes sts)))"
  using assms
proof (induction ts vs arbitrary: sts rule: list_all2_induct)
  case (Cons t ts v vs)
  then obtain st sts' where "sts = st # sts'" by (cases sts) auto
  then show ?case using Cons by (auto intro!: list_all2_appendI)
qed simp

lemma picture_none: "has_vty t v \<Longrightarrow> \<not> exists_ty t \<Longrightarrow> picture t v = []"
proof (induction v arbitrary: t)
  case (VTuple vs)
  then obtain ts where ts: "t = TyTuple ts" "list_all2 has_vty ts vs" by (auto split: vty.splits)
  have "\<forall>u\<in>set ts. \<not> exists_ty u" using VTuple(3) ts(1) by (auto simp: list_ex_iff)
  with ts(2) VTuple(1) have "concat (map (\<lambda>(v, t). picture t v) (zip vs ts)) = []"
    by (induction ts vs rule: list_all2_induct) auto
  then show ?case using ts by simp
qed (auto split: vty.splits)

theorem state_shows:
  "doc_ok d \<Longrightarrow> st_ok d st ty \<Longrightarrow> reflects tg d v st \<Longrightarrow> has_vty ty v \<Longrightarrow> filled v \<Longrightarrow>
   list_all2 (depicts tg d) (picture ty v) (visible d (nodes st))"
proof (induction v arbitrary: st ty)
  case (VText s)
  then show ?case by (auto simp: text_at_def is_comment_def)
next
  case (VPrim e s)
  then show ?case by (auto simp: text_at_def is_comment_def)
next
  case (VTuple vs)
  then obtain ts sts where "ty = TyTuple ts" "st = STuple sts" by (auto split: vty.splits)
  then show ?case using VTuple shows_types [of ts vs d sts tg] by (simp add: list_all_iff)
next
  case (VArray vs)
  then obtain t sts where "ty = TyArray (length sts) t" "st = SArray sts" by (auto split: vty.splits)
  then show ?case using VArray shows_same_type [of vs sts tg d t] by (simp add: list_all_iff)
next
  case (VVec vs)
  then obtain t sts m where "ty = TyVec t" "st = SVec sts m" by (auto split: vty.splits)
  then show ?case using VVec shows_same_type [of vs sts tg d t] by (simp add: list_all_iff)
next
  case (VStaticVec vs)
  then obtain t sts m where "ty = TyStaticVec t" "st = SStaticVec sts m" by (auto split: vty.splits)
  then show ?case using VStaticVec shows_same_type [of vs sts tg d t] by (simp add: list_all_iff)
next
  case (VAny t v)
  then obtain s ph where st: "st = SAny t s ph" by auto
  then have "list_all2 (depicts tg d) (picture t v) (visible d (nodes s))" using VAny by auto
  then show ?case using VAny(3) st by (cases ph) auto
next
  case (VKeep a b show_b)
  then obtain ta tb sa sb where "ty = TyKeep ta tb" "st = SKeep sa sb show_b" by (auto split: vty.splits)
  then show ?case using VKeep by (cases show_b; cases a; cases b) auto
next
  case (VElem et tag as v)
  then obtain ats t el ch u bs where ty: "ty = TyElem et ats t" and st: "st = SElem el (map (attr_state_of el) as) ch"
    and c: "content d el = Some (NElem u bs)" "u = tag \<or> tg u = tag" by (auto split: vty.splits)
  have "attrs_ok el bs ats (map (attr_state_of el) as)" "list_all2 has_aty ats as" using VElem(3,5) ty st c(1) by auto
  note attrs = attrs_ok_shown [OF this]
  have "list_all2 (depicts tg d) (if SELF_CLOSING et then [] else picture t v) (visible d (kids d el))"
  proof (cases ch)
    case None
    then have "children_ok d el []" "SELF_CLOSING et \<or> \<not> exists_ty t" using VElem(3) ty st by auto
    moreover have "has_vty t v" using VElem(5) ty by simp
    ultimately show ?thesis using children_visible [OF VElem(2)] picture_none by auto
  next
    case (Some s)
    then have "children_ok d el (nodes s)" "st_ok d s t" "\<not> SELF_CLOSING et" using VElem(3) ty st by auto
    moreover have "has_vty t v" "filled v" "reflects tg d v s" using VElem(4-6) ty st Some by auto
    ultimately show ?thesis using children_visible [OF VElem(2)] VElem(1,2) by simp
  qed
  then show ?case using ty st c attrs by (simp add: is_comment_def)
qed (auto split: vty.splits)

end
