(* ===== verification/View_Markup.thy ===== *)
theory View_Markup
  imports View_Shown
begin

text \<open>
  The page that is written for a view, as a tree of texts, comments and elements; the text of the
  page is this tree written down, and it keeps texts apart: no two texts are next to each other, and
  no text is empty.
\<close>

subsection \<open>Pages\<close>

text \<open>An element knows whether it is a void element; an attribute may have no value.\<close>

datatype page =
    PText string
  | PComment string
  | PElem bool string "(string \<times> string option) list" "page list"

fun write_attr :: "html_env \<Rightarrow> string \<times> string option \<Rightarrow> string" where
  "write_attr env (k, None) = '' '' @ k"
| "write_attr env (k, Some v) = '' '' @ k @ ''='' @ [CHR 0x22] @ encode_attr env v @ [CHR 0x22]"

fun write_page :: "html_env \<Rightarrow> page \<Rightarrow> string" where
  "write_page env (PText s) = encode_text env s"
| "write_page env (PComment s) = (if s = [] then ''<!>'' else ''<!--'' @ s @ ''-->'')"
| "write_page env (PElem void tag as ps) =
     ''<'' @ tag @ concat (map (write_attr env) as) @ ''>'' @
     (if void then [] else concat (map (write_page env) ps) @ ''</'' @ tag @ ''>'')"

text \<open>The attributes of an element: the named ones, and the classes in one attribute.\<close>

fun value_markup :: "string \<Rightarrow> aval \<Rightarrow> (string \<times> string option) list" where
  "value_markup k AUnit = []"
| "value_markup k (AStr v) = [(k, Some v)]"
| "value_markup k (APrim v) = [(k, Some v)]"
| "value_markup k (ABool b) = (if b then [(k, None)] else [])"
| "value_markup k (AOpt None) = []"
| "value_markup k (AOpt (Some v)) = value_markup k v"

fun attr_markup :: "attr \<Rightarrow> (string \<times> string option) list" where
  "attr_markup (Attr k v) = value_markup k v"
| "attr_markup (Class c) = []"

fun class_buffer :: "attr list \<Rightarrow> string \<Rightarrow> string" where
  "class_buffer [] cl = cl"
| "class_buffer (Attr k v # as) cl = class_buffer as cl"
| "class_buffer (Class c # as) cl = class_buffer as (cls_html c ((if should_overwrite c then [] else cl) @ '' ''))"

definition attrs_markup :: "attr list \<Rightarrow> (string \<times> string option) list" where
  "attrs_markup as = concat (map attr_markup as) @
     (let cl = class_buffer as [] in if cl \<noteq> [] then [(''class'', Some (trim cl))] else [])"

subsection \<open>The page of a view\<close>

definition after_branch :: "position \<Rightarrow> position" where
  "after_branch p = (if p = NextChildAfterText then NextChild else p)"

definition branch_markup ::
  "bool \<Rightarrow> string \<Rightarrow> (position \<Rightarrow> page list \<times> position) \<Rightarrow> position \<Rightarrow> page list \<times> position" where
  "branch_markup mb b f p = (case f p of (ps, p') \<Rightarrow>
     if mb then ([PComment (''bo-'' @ b)] @ ps @ [PComment (''bc-'' @ b)], after_branch p') else (ps, p'))"

definition text_markup :: "string \<Rightarrow> position \<Rightarrow> page list \<times> position" where
  "text_markup s p = ((if p = NextChildAfterText then [PComment []] else []) @ [PText s], NextChildAfterText)"

fun seq_markup :: "('a \<Rightarrow> position \<Rightarrow> page list \<times> position) \<Rightarrow> 'a list \<Rightarrow> position \<Rightarrow> page list \<times> position" where
  "seq_markup f [] p = ([], p)"
| "seq_markup f (x # xs) p =
     (case f x p of (ps, p1) \<Rightarrow> case seq_markup f xs p1 of (qs, p2) \<Rightarrow> (ps @ qs, p2))"

lemma seq_markup_cong [fundef_cong]:
  "xs = ys \<Longrightarrow> p = q \<Longrightarrow> (\<And>x p. x \<in> set ys \<Longrightarrow> f x p = g x p) \<Longrightarrow> seq_markup f xs p = seq_markup g ys q"
proof (induction ys arbitrary: xs p q)
  case (Cons y ys)
  have "seq_markup f ys = seq_markup g ys" using Cons by (intro ext) auto
  then show ?case using Cons.prems by simp
qed simp

lemma branch_markup_cong [fundef_cong]:
  "mb = mb' \<Longrightarrow> b = b' \<Longrightarrow> p = p' \<Longrightarrow> (\<And>q. f q = g q) \<Longrightarrow> branch_markup mb b f p = branch_markup mb' b' g p'"
  by (simp add: branch_markup_def)

definition vec_markup :: "page list \<times> position \<Rightarrow> page list \<times> position" where
  "vec_markup x = (fst x @ [PComment []], NextChild)"

definition any_markup :: "bool \<Rightarrow> page list \<times> position \<Rightarrow> page list \<times> position" where
  "any_markup ex x = (if ex then x else (fst x @ [PComment ''<() />''], snd x))"

fun markup :: "html_env \<Rightarrow> bool \<Rightarrow> view \<Rightarrow> position \<Rightarrow> page list \<times> position" where
  "markup env mb (VText s) p = text_markup (if s = [] then '' '' else s) p"
| "markup env mb (VPrim e s) p = text_markup s p"
| "markup env mb VUnit p = ([PComment []], NextChild)"
| "markup env mb (VTuple vs) p = seq_markup (markup env mb) vs p"
| "markup env mb (VArray vs) p = seq_markup (markup env mb) vs p"
| "markup env mb (VVec vs) p = vec_markup (seq_markup (markup env mb) vs p)"
| "markup env mb (VStaticVec vs) p = vec_markup (seq_markup (markup env mb) vs p)"
| "markup env mb (VEither n i v) p = branch_markup mb (branch_id n i) (markup env mb v) p"
| "markup env mb (VOk v) p = markup env mb v p"
| "markup env mb (VErr e) p = ([PComment []], p)"
| "markup env mb (VAny t v) p = branch_markup mb (type_label env t)
     (\<lambda>q. any_markup (exists_view v) (markup env mb v q)) p"
| "markup env mb (VKeep a b show_b) p =
     (if show_b then (case b of None \<Rightarrow> ([], p) | Some v \<Rightarrow> markup env mb v p)
      else (case a of None \<Rightarrow> ([], p) | Some v \<Rightarrow> markup env mb v p))"
| "markup env mb (VElem et tag as v) p =
     ([PElem (SELF_CLOSING et) tag (attrs_markup as) (if exists_view v then fst (markup env mb v FirstChild) else [])],
      NextChild)"

text \<open>
  Views that can be hydrated: no errors, printed values that are not empty, elements whose children
  are escaped and hydrated, and no \<^verbatim>\<open>AnyView\<close> of an empty tuple.
\<close>

fun some_unit :: "view \<Rightarrow> bool" where
  "some_unit VUnit = True"
| "some_unit (VTuple vs) = list_ex some_unit vs"
| "some_unit _ = False"

fun hydratable :: "view \<Rightarrow> bool" where
  "hydratable (VPrim e s) = (s \<noteq> [])"
| "hydratable (VTuple vs) = list_all hydratable vs"
| "hydratable (VArray vs) = list_all hydratable vs"
| "hydratable (VVec vs) = list_all hydratable vs"
| "hydratable (VStaticVec vs) = list_all hydratable vs"
| "hydratable (VEither n i v) = hydratable v"
| "hydratable (VOk v) = hydratable v"
| "hydratable (VErr e) = False"
| "hydratable (VAny t v) = (hydratable v \<and> (exists_view v \<or> some_unit v))"
| "hydratable (VKeep a b show_b) =
     (if show_b then (case b of None \<Rightarrow> False | Some v \<Rightarrow> hydratable v)
      else (case a of None \<Rightarrow> False | Some v \<Rightarrow> hydratable v))"
| "hydratable (VElem et tag as v) =
     ((if SELF_CLOSING et then \<not> exists_view v else ESCAPE_CHILDREN et \<and> HYDRATES_CHILDREN et) \<and> hydratable v)"
| "hydratable _ = True"

text \<open>Texts that are written without escaping are the same when escaped.\<close>

fun plain_prims :: "html_env \<Rightarrow> view \<Rightarrow> bool" where
  "plain_prims env (VPrim e s) = (e \<or> encode_text env s = s)"
| "plain_prims env (VTuple vs) = list_all (plain_prims env) vs"
| "plain_prims env (VArray vs) = list_all (plain_prims env) vs"
| "plain_prims env (VVec vs) = list_all (plain_prims env) vs"
| "plain_prims env (VStaticVec vs) = list_all (plain_prims env) vs"
| "plain_prims env (VEither n i v) = plain_prims env v"
| "plain_prims env (VOk v) = plain_prims env v"
| "plain_prims env (VAny t v) = plain_prims env v"
| "plain_prims env (VKeep a b show_b) =
     ((case a of None \<Rightarrow> True | Some v \<Rightarrow> plain_prims env v) \<and> (case b of None \<Rightarrow> True | Some v \<Rightarrow> plain_prims env v))"
| "plain_prims env (VElem et tag as v) = plain_prims env v"
| "plain_prims env _ = True"

subsection \<open>Rendering writes the page\<close>

definition server_flags :: "bool \<Rightarrow> flags" where
  "server_flags mb = \<lparr>escape = True, hydrate_markers = True, mark_branches = mb\<rparr>"

lemma server_flags_simps [simp]:
  "escape (server_flags mb)" "hydrate_markers (server_flags mb)" "mark_branches (server_flags mb) = mb"
  "HYDRATE = server_flags False" "HYDRATE_BRANCHING = server_flags True"
  "ESCAPE_CHILDREN et \<Longrightarrow> HYDRATES_CHILDREN et \<Longrightarrow> child_flags et (server_flags mb) = server_flags mb"
  by (simp_all add: server_flags_def HYDRATE_def HYDRATE_BRANCHING_def child_flags_def)

definition wrote :: "html_env \<Rightarrow> html_out \<Rightarrow> page list \<times> position \<Rightarrow> html_out" where
  "wrote env out x = out\<lparr>buf := buf out @ concat (map (write_page env) (fst x)), pos := snd x\<rparr>"

lemma value_html_markup:
  "value_html (encode_attr env) k v b = b @ concat (map (write_attr env) (value_markup k v))"
  by (induction "encode_attr env" k v b rule: value_html.induct) simp_all

lemma attr_html_markup:
  "fold (attribute_html (encode_attr env)) as (b, cl) =
     (b @ concat (map (write_attr env) (concat (map attr_markup as))), class_buffer as cl)"
proof (induction as arbitrary: b cl)
  case (Cons a as)
  then show ?case by (cases a) (simp_all add: value_html_markup)
qed simp

lemma attributes_markup:
  "attributes_to_html (encode_attr env) as b = b @ concat (map (write_attr env) (attrs_markup as))"
  by (simp add: attributes_to_html_def attr_html_markup attrs_markup_def Let_def)

lemma seq_wrote:
  assumes "\<And>x out. x \<in> set xs \<Longrightarrow> f x out = Inr (wrote env out (g x (pos out)))"
  shows "foreach f xs out = Inr (wrote env out (seq_markup g xs (pos out)))"
  using assms
proof (induction xs arbitrary: out)
  case Nil
  then show ?case by (simp add: wrote_def)
next
  case (Cons x xs)
  then show ?case by (simp add: wrote_def split: prod.split)
qed

lemma branch_wrote:
  assumes "\<And>out. f out = Inr (wrote env out (g (pos out)))"
  shows "in_branch (server_flags mb) b f out = Inr (wrote env out (branch_markup mb b g (pos out)))"
  by (auto simp: in_branch_def assms branch_markup_def wrote_def open_branch_def close_branch_def push_def Let_def
      after_branch_def split: prod.split)

lemma text_wrote:
  "text_to_html env (server_flags mb) s out =
     wrote env out (text_markup (if s = [] then '' '' else s) (pos out))" if "encode_text env '' '' = '' ''"
  using that by (simp add: text_to_html_def text_markup_def wrote_def push_def Let_def)

lemma prim_wrote:
  "e \<or> encode_text env s = s \<Longrightarrow> prim_to_html env (server_flags mb) e s out = wrote env out (text_markup s (pos out))"
  by (auto simp: prim_to_html_def text_markup_def wrote_def push_def Let_def)

lemma vec_wrote:
  "items out = Inr (wrote env out x) \<Longrightarrow> vec_to_html (server_flags mb) items out = Inr (wrote env out (vec_markup x))"
  by (simp add: vec_to_html_def marker_to_html_def wrote_def vec_markup_def push_def)

lemma any_wrote:
  "f out = Inr (wrote env out x) \<Longrightarrow> any_to_html ex f out = Inr (wrote env out (any_markup ex x))"
  by (simp add: any_to_html_def wrote_def any_markup_def push_def)

lemma element_wrote:
  assumes "\<And>out. \<not> SELF_CLOSING et \<Longrightarrow> f out = Inr (wrote env out (g (pos out)))" "SELF_CLOSING et \<Longrightarrow> \<not> ex"
  shows "element_to_html env et tag as ex f out =
    Inr (wrote env out ([PElem (SELF_CLOSING et) tag (attrs_markup as) (if ex then fst (g FirstChild) else [])], NextChild))"
  using assms
  by (auto simp: element_to_html_def open_tag_def close_tag_def push_def attributes_markup wrote_def Let_def)

theorem to_html_writes_markup:
  "hydratable v \<Longrightarrow> plain_prims env v \<Longrightarrow> encode_text env '' '' = '' '' \<Longrightarrow>
   to_html_with_buf env (server_flags mb) v out = Inr (wrote env out (markup env mb v (pos out)))"
proof (induction v arbitrary: out)
  case (VUnit)
  then show ?case by (simp add: marker_to_html_def wrote_def push_def)
next
  case (VElem et tag as v)
  have "element_to_html env et tag as (exists_view v) (to_html_with_buf env (child_flags et (server_flags mb)) v) out =
      Inr (wrote env out ([PElem (SELF_CLOSING et) tag (attrs_markup as)
        (if exists_view v then fst (markup env mb v FirstChild) else [])], NextChild))"
    by (rule element_wrote [where g = "markup env mb v"]) (use VElem in \<open>auto split: if_splits\<close>)
  then show ?case by simp
next
  case (VKeep a b show_b)
  then show ?case by (cases show_b; cases a; cases b) auto
qed (auto simp: text_wrote prim_wrote list_all_iff intro!: seq_wrote branch_wrote vec_wrote any_wrote)

subsection \<open>The page keeps texts apart\<close>

text \<open>
  \<open>texts_apart b ps\<close>: no two texts are next to each other and none is empty, where \<open>b\<close> tells whether
  there is a text before; \<open>text_last\<close> whether there is one at the end.
\<close>

fun texts_apart :: "bool \<Rightarrow> page list \<Rightarrow> bool" where
  "texts_apart b [] = True"
| "texts_apart b (PText s # ps) = (\<not> b \<and> s \<noteq> [] \<and> texts_apart True ps)"
| "texts_apart b (PComment s # ps) = texts_apart False ps"
| "texts_apart b (PElem void tag as qs # ps) = ((void \<longrightarrow> qs = []) \<and> texts_apart False qs \<and> texts_apart False ps)"

fun text_last :: "bool \<Rightarrow> page list \<Rightarrow> bool" where
  "text_last b [] = b"
| "text_last b (PText s # ps) = text_last True ps"
| "text_last b (p # ps) = text_last False ps"

lemma texts_apart_append: "texts_apart b (ps @ qs) \<longleftrightarrow> texts_apart b ps \<and> texts_apart (text_last b ps) qs"
  by (induction b ps rule: text_last.induct) auto

lemma text_last_append: "text_last b (ps @ qs) = text_last (text_last b ps) qs"
  by (induction b ps rule: text_last.induct) auto

lemma seq_texts_apart:
  assumes "\<And>x p. x \<in> set xs \<Longrightarrow> texts_apart (p = NextChildAfterText) (fst (f x p)) \<and>
      text_last (p = NextChildAfterText) (fst (f x p)) = (snd (f x p) = NextChildAfterText)"
  shows "texts_apart (p = NextChildAfterText) (fst (seq_markup f xs p)) \<and>
    text_last (p = NextChildAfterText) (fst (seq_markup f xs p)) = (snd (seq_markup f xs p) = NextChildAfterText)"
  using assms
proof (induction xs arbitrary: p)
  case (Cons x xs)
  obtain ps p1 where x: "f x p = (ps, p1)" by fastforce
  obtain qs p2 where xs: "seq_markup f xs p1 = (qs, p2)" by fastforce
  have "texts_apart (p1 = NextChildAfterText) qs \<and> text_last (p1 = NextChildAfterText) qs = (p2 = NextChildAfterText)"
    using Cons.IH [of p1] Cons.prems xs by simp
  moreover have "texts_apart (p = NextChildAfterText) ps \<and> text_last (p = NextChildAfterText) ps = (p1 = NextChildAfterText)"
    using Cons.prems [of x p] x by simp
  ultimately show ?case using x xs by (simp add: texts_apart_append text_last_append)
qed simp

lemma texts_apart_mono: "texts_apart b ps \<Longrightarrow> texts_apart False ps"
  by (cases ps; cases "hd ps") auto

lemma branch_texts_apart:
  assumes "\<And>p. texts_apart (p = NextChildAfterText) (fst (f p)) \<and>
      text_last (p = NextChildAfterText) (fst (f p)) = (snd (f p) = NextChildAfterText)"
  shows "texts_apart (p = NextChildAfterText) (fst (branch_markup mb b f p)) \<and>
    text_last (p = NextChildAfterText) (fst (branch_markup mb b f p)) = (snd (branch_markup mb b f p) = NextChildAfterText)"
  using assms [of p] texts_apart_mono [of _ "fst (f p)"]
  by (auto simp: branch_markup_def texts_apart_append text_last_append after_branch_def split: prod.splits)

text \<open>A view that does not exist leaves the position after its last marker.\<close>

lemma seq_units:
  assumes "\<And>x p. x \<in> set xs \<Longrightarrow> snd (f x p) = (if u x then NextChild else p)"
  shows "snd (seq_markup f xs p) = (if list_ex u xs then NextChild else p)"
  using assms
proof (induction xs arbitrary: p)
  case (Cons x xs)
  obtain ps p1 where x: "f x p = (ps, p1)" by fastforce
  then have "p1 = (if u x then NextChild else p)" using Cons.prems [of x p] by simp
  moreover have "snd (seq_markup f xs p1) = (if list_ex u xs then NextChild else p1)" using Cons by simp
  ultimately show ?case using x by (auto split: prod.split)
qed simp

lemma unit_position: "\<not> exists_view v \<Longrightarrow> snd (markup env mb v p) = (if some_unit v then NextChild else p)"
proof (induction v arbitrary: p)
  case (VTuple vs)
  then show ?case using seq_units [of vs "markup env mb" some_unit p] by (auto simp: list_ex_iff)
qed auto

theorem markup_texts_apart:
  "hydratable v \<Longrightarrow> texts_apart (p = NextChildAfterText) (fst (markup env mb v p)) \<and>
     text_last (p = NextChildAfterText) (fst (markup env mb v p)) = (snd (markup env mb v p) = NextChildAfterText)"
proof (induction v arbitrary: p)
  case (VElem et tag as v)
  then show ?case using VElem.IH [of FirstChild] by auto
next
  case (VKeep a b show_b)
  then show ?case by (cases show_b; cases a; cases b) auto
next
  case (VAny t v)
  have "texts_apart (p = NextChildAfterText) (fst (any_markup (exists_view v) (markup env mb v p))) \<and>
      text_last (p = NextChildAfterText) (fst (any_markup (exists_view v) (markup env mb v p))) =
      (snd (any_markup (exists_view v) (markup env mb v p)) = NextChildAfterText)" for p
    using VAny unit_position [of v env mb p] by (auto simp: any_markup_def texts_apart_append text_last_append)
  then show ?case by (auto intro!: branch_texts_apart)
next
  case (VVec vs)
  then show ?case
    using seq_texts_apart [of vs "markup env mb" p]
    by (auto simp: list_all_iff vec_markup_def texts_apart_append text_last_append)
next
  case (VStaticVec vs)
  then show ?case
    using seq_texts_apart [of vs "markup env mb" p]
    by (auto simp: list_all_iff vec_markup_def texts_apart_append text_last_append)
qed (auto simp: text_markup_def list_all_iff intro!: seq_texts_apart branch_texts_apart)

end
