(* ===== verification/View_Attrs_Page.thy ===== *)
theory View_Attrs_Page
  imports View_Markup
begin

text \<open>The attributes that are written to the page are those that hydration relies on.\<close>

definition read_attrs :: "(string \<times> string option) list \<Rightarrow> (string \<times> string) list" where
  "read_attrs as = map (\<lambda>(k, v). (k, case v of None \<Rightarrow> [] | Some s \<Rightarrow> s)) as"

lemma read_attrs_simps [simp]:
  "read_attrs [] = []" "read_attrs (as @ bs) = read_attrs as @ read_attrs bs"
  "read_attrs ((k, v) # as) = (k, case v of None \<Rightarrow> [] | Some s \<Rightarrow> s) # read_attrs as"
  by (simp_all add: read_attrs_def)

subsection \<open>Named attributes\<close>

lemma value_keys: "k' \<in> fst ` set (read_attrs (value_markup k v)) \<Longrightarrow> k' = k"
  by (induction k v rule: value_markup.induct) (auto split: if_splits)

lemma attr_keys: "k \<in> fst ` set (read_attrs (concat (map attr_markup xs))) \<Longrightarrow> \<exists>v. Attr k v \<in> set xs"
proof (induction xs)
  case (Cons x xs)
  show ?case
  proof (cases x)
    case (Attr k' v)
    then have "k \<in> fst ` set (read_attrs (value_markup k' v)) \<or> k \<in> fst ` set (read_attrs (concat (map attr_markup xs)))"
      using Cons.prems by (simp add: image_Un)
    then show ?thesis using value_keys [of k k' v] Cons.IH Attr by auto
  qed (use Cons in simp)
qed simp

lemma typed_attr_keys: "list_all2 has_aty ts xs \<Longrightarrow> Attr k v \<in> set xs \<Longrightarrow> \<exists>t. TAttr k t \<in> set ts"
proof (induction ts xs rule: list_all2_induct)
  case (Cons t ts x xs)
  then show ?case by (cases t) auto
qed simp

lemma no_key: "list_all2 has_aty ts xs \<Longrightarrow> \<forall>t. TAttr k t \<notin> set ts \<Longrightarrow> map_of (read_attrs (concat (map attr_markup xs))) k = None"
  using attr_keys [of k xs] typed_attr_keys [of ts xs k] by (auto simp: map_of_eq_None_iff)

lemma value_text_ok:
  "has_avty t v \<Longrightarrow> map_of as k = map_of (read_attrs (value_markup k v)) k \<Longrightarrow> value_ok k el as t (value_state el v)"
proof (induction t arbitrary: v)
  case (AtOpt t)
  then show ?case by (cases v) (auto split: option.splits)
qed (auto split: aval.splits)

lemma map_of_named:
  assumes "list_all2 has_aty ts xs" "no_clash ts" "(TAttr k t, Attr k v) \<in> set (zip ts xs)"
  shows "map_of (read_attrs (concat (map attr_markup xs))) k = map_of (read_attrs (value_markup k v)) k"
  using assms
proof (induction ts xs rule: list_all2_induct)
  case (Cons u ts x xs)
  show ?case
  proof (cases "(u, x) = (TAttr k t, Attr k v)")
    case True
    then have "\<forall>t. TAttr k t \<notin> set ts" using Cons(4) by auto
    then show ?thesis using no_key [OF Cons(2)] True by (simp add: map_add_def split: option.splits)
  next
    case False
    then have k: "(TAttr k t, Attr k v) \<in> set (zip ts xs)" using Cons(5) by auto
    then have "TAttr k t \<in> set ts" by (rule set_zip_leftD)
    then have "map_of (read_attrs (attr_markup x)) k = None"
      using Cons(1,4) value_keys by (cases u; cases x) (fastforce simp: map_of_eq_None_iff)+
    then show ?thesis using Cons(3,4) k by (auto simp: map_add_def split: option.splits)
  qed
qed simp

subsection \<open>Classes\<close>

fun active :: "cls \<Rightarrow> string list" where
  "active (CStr c) = split_tokens [] c"
| "active (CToggle c b) = (if b then split_tokens [] c else [])"
| "active (COpt None) = []"
| "active (COpt (Some c)) = active c"

fun all_active :: "attr list \<Rightarrow> string list" where
  "all_active [] = []"
| "all_active (Attr k v # as) = all_active as"
| "all_active (Class c # as) = active c @ all_active as"

lemma split_tokens_blank: "\<forall>c\<in>set s. is_space c \<Longrightarrow> split_tokens [] s = []"
  by (induction s) auto

lemma split_tokens_sep: "split_tokens acc (s @ CHR '' '' # t) = split_tokens acc s @ split_tokens [] t"
  by (induction s arbitrary: acc) auto

lemma split_tokens_trailing: "\<forall>c\<in>set w. is_space c \<Longrightarrow> split_tokens acc (s @ w) = split_tokens acc s"
proof (induction s arbitrary: acc)
  case Nil
  then show ?case using split_tokens_blank by (cases w) auto
qed auto

lemma split_tokens_leading: "split_tokens [] (dropWhile is_space s) = split_tokens [] s"
  by (induction s) auto

lemma split_tokens_trim: "split_tokens [] (trim s) = split_tokens [] s"
proof -
  let ?s = "dropWhile is_space s"
  have "?s = trim s @ rev (takeWhile is_space (rev ?s))"
    unfolding trim_def by (metis rev_append rev_rev_ident takeWhile_dropWhile_id)
  then have "split_tokens [] ?s = split_tokens [] (trim s)"
    using split_tokens_trailing [of "rev (takeWhile is_space (rev ?s))" "[]" "trim s"] set_takeWhileD by fastforce
  then show ?thesis using split_tokens_leading [of s] by simp
qed

lemma cls_html_append: "cls_html c b = b @ cls_html c []"
  by (induction c b rule: cls_html.induct) simp_all

lemma cls_html_active: "split_tokens [] (cls_html c []) = active c"
  by (induction c rule: active.induct) auto

lemma class_step: "split_tokens [] (cls_html c (cl @ '' '')) = split_tokens [] cl @ active c"
  using cls_html_append [of c "cl @ '' ''"] split_tokens_sep [of "[]" cl "cls_html c []"] by (simp add: cls_html_active)

lemma buffer_tokens:
  "\<forall>c. Class c \<in> set xs \<longrightarrow> \<not> should_overwrite c \<Longrightarrow> split_tokens [] (class_buffer xs cl) = split_tokens [] cl @ all_active xs"
proof (induction xs arbitrary: cl)
  case (Cons x xs)
  then show ?case using class_step by (cases x) auto
qed simp

lemma overwrites: "has_clsty t c \<Longrightarrow> should_overwrite c \<Longrightarrow> t = CtStr"
  by (cases t; cases c) auto

lemma no_class: "list_all2 has_aty ts xs \<Longrightarrow> \<forall>t. TClass t \<notin> set ts \<Longrightarrow> Class c \<notin> set xs"
proof (induction ts xs rule: list_all2_induct)
  case (Cons t ts x xs)
  then show ?case by (cases t) auto
qed simp

lemma no_class_active: "\<forall>c. Class c \<notin> set xs \<Longrightarrow> all_active xs = [] \<and> class_buffer xs cl = cl"
proof (induction xs)
  case (Cons x xs)
  then show ?case by (cases x) auto
qed simp

lemma class_clash:
  "\<not> clash (facet_of (TClass t)) (facet_of (TClass u)) \<Longrightarrow> \<exists>n m. toggles t = Some n \<and> toggles u = Some m \<and> n \<noteq> m"
  by (auto split: option.splits)

lemma buffer_typed:
  assumes "list_all2 has_aty ts xs" "no_clash ts"
    and "split_tokens [] cl = [] \<or> (\<forall>t. TClass t \<in> set ts \<longrightarrow> toggles t \<noteq> None)"
  shows "split_tokens [] (class_buffer xs cl) = split_tokens [] cl @ all_active xs"
  using assms
proof (induction ts xs arbitrary: cl rule: list_all2_induct)
  case (Cons t ts x xs)
  show ?case
  proof (cases x)
    case (Attr k v)
    then show ?thesis using Cons by auto
  next
    case (Class c)
    then obtain ct where t: "t = TClass ct" "has_clsty ct c" using Cons(1) by (cases t) auto
    let ?cl = "cls_html c ((if should_overwrite c then [] else cl) @ '' '')"
    have "should_overwrite c \<Longrightarrow> split_tokens [] cl = []" using overwrites [OF t(2)] Cons(5) t(1) by auto
    then have tok: "split_tokens [] ?cl = split_tokens [] cl @ active c"
      using class_step [of c cl] class_step [of c "[]"] by auto
    have "\<forall>u. TClass u \<in> set ts \<longrightarrow> toggles u \<noteq> None" using Cons(4) class_clash t(1) by fastforce
    then show ?thesis using Cons(3) [of ?cl] Cons(4) Class tok by simp
  qed
qed simp

lemma typed_active: "has_clsty t c \<Longrightarrow> toggles t = Some n \<Longrightarrow> is_token n \<Longrightarrow> set (active c) \<subseteq> {n}"
proof (induction t arbitrary: c)
  case (CtToggle m)
  then show ?case using split_join [of "[n]"] by (auto split: cls.splits)
next
  case (CtOpt t)
  then show ?case by (auto split: cls.splits option.splits)
qed simp

lemma active_ok:
  assumes "has_clsty t c"
  shows "toggles t = None \<Longrightarrow> classes as = remdups (active c) \<Longrightarrow> cls_ok el as t (cls_state el c)"
    and "toggles t = Some n \<Longrightarrow> is_token n \<Longrightarrow> (n \<in> set (classes as) \<longleftrightarrow> n \<in> set (active c)) \<Longrightarrow> cls_ok el as t (cls_state el c)"
  using assms
proof (induction t arbitrary: c)
  case (CtToggle m)
  { case 2 then show ?case using split_join [of "[n]"] by (auto split: cls.splits) }
next
  case (CtOpt t)
  { case 1 then show ?case using CtOpt(1) by (auto split: cls.splits option.splits) }
  { case 2 then show ?case using CtOpt(2) by (auto split: cls.splits option.splits) }
qed (auto simp: class_tokens_def split: cls.splits)

lemma active_apart:
  assumes "list_all2 has_aty ts xs" "attrs_typed ts" "\<forall>w\<in>set ts. \<not> clash (facet_of (TClass t)) (facet_of w)"
  shows "toggles t = None \<Longrightarrow> all_active xs = []" "toggles t = Some n \<Longrightarrow> n \<notin> set (all_active xs)"
proof -
  assume "toggles t = None"
  then have "\<forall>w. TClass w \<notin> set ts" using assms(3) class_clash [of t] by fastforce
  then show "all_active xs = []" using no_class [OF assms(1)] no_class_active by blast
next
  assume n: "toggles t = Some n"
  show "n \<notin> set (all_active xs)"
    using assms
  proof (induction ts xs rule: list_all2_induct)
    case (Cons w ts y xs)
    have rest: "n \<notin> set (all_active xs)" using Cons by (auto simp: attrs_typed_Cons)
    show ?case
    proof (cases y)
      case (Class e)
      then obtain cw where w: "w = TClass cw" "has_clsty cw e" using Cons(1) by (cases w) auto
      then obtain m where m: "toggles cw = Some m" "m \<noteq> n" using Cons(5) class_clash [of t cw] n by auto
      moreover have "is_token m" using Cons(4) w m by (auto simp: attrs_typed_def)
      ultimately have "n \<notin> set (active e)" using typed_active [OF w(2)] by blast
      then show ?thesis using rest Class by simp
    qed (use rest in simp)
  qed simp
qed

lemma attrs_typed_split:
  "attrs_typed (ts @ t # us) \<Longrightarrow> attrs_typed ts \<and> attrs_typed us \<and>
     (\<forall>w\<in>set ts. \<not> clash (facet_of t) (facet_of w)) \<and> (\<forall>w\<in>set us. \<not> clash (facet_of t) (facet_of w))"
proof (induction ts)
  case Nil
  then show ?case by (auto simp: attrs_typed_def)
next
  case (Cons u ts)
  then show ?case using clash_sym by (auto simp: attrs_typed_def)
qed

lemma all_active_append: "all_active (xs @ ys) = all_active xs @ all_active ys"
  by (induction xs rule: all_active.induct) auto

lemma zip_split:
  assumes "list_all2 P ts xs" "(t, x) \<in> set (zip ts xs)"
  obtains ts1 ts2 xs1 xs2 where "ts = ts1 @ t # ts2" "xs = xs1 @ x # xs2" "list_all2 P ts1 xs1" "list_all2 P ts2 xs2" "P t x"
proof -
  obtain i where i: "i < length ts" "i < length xs" "ts ! i = t" "xs ! i = x" using assms(2) by (auto simp: set_zip)
  show thesis
  proof (rule that [of "take i ts" "drop (Suc i) ts" "take i xs" "drop (Suc i) xs"])
    show "ts = take i ts @ t # drop (Suc i) ts" "xs = take i xs @ x # drop (Suc i) xs"
      using i id_take_nth_drop by blast+
  qed (use assms(1) i in \<open>auto simp: list_all2_conv_all_nth\<close>)
qed

lemma active_of:
  assumes "list_all2 has_aty ts xs" "attrs_typed ts" "(TClass t, Class c) \<in> set (zip ts xs)"
  shows "toggles t = None \<Longrightarrow> all_active xs = active c"
    and "toggles t = Some n \<Longrightarrow> n \<in> set (all_active xs) \<longleftrightarrow> n \<in> set (active c)"
proof -
  obtain ts1 ts2 xs1 xs2 where s: "ts = ts1 @ TClass t # ts2" "xs = xs1 @ Class c # xs2"
    "list_all2 has_aty ts1 xs1" "list_all2 has_aty ts2 xs2" using zip_split [OF assms(1,3)] by metis
  note typed = attrs_typed_split [OF assms(2) [unfolded s(1)]]
  note apart = active_apart [OF s(3)] active_apart [OF s(4)]
  show "toggles t = None \<Longrightarrow> all_active xs = active c"
    using apart(1,3) typed s(2) by (simp add: all_active_append)
  show "toggles t = Some n \<Longrightarrow> n \<in> set (all_active xs) \<longleftrightarrow> n \<in> set (active c)"
    using apart(2,4) typed s(2) by (simp add: all_active_append)
qed

subsection \<open>All attributes\<close>

lemma page_classes:
  assumes "list_all2 has_aty ts xs" "attrs_typed ts" "TClass t \<in> set ts"
  shows "classes (read_attrs (attrs_markup xs)) = remdups (all_active xs)"
proof -
  obtain us ws where ts: "ts = us @ TClass t # ws" using split_list [OF assms(3)] by blast
  have c: "\<forall>w\<in>set ts. w = TClass t \<or> \<not> clash (facet_of (TClass t)) (facet_of w)"
    using attrs_typed_split [of us "TClass t" ws] assms(2) ts by auto
  have "TAttr ''class'' u \<notin> set ts" for u using c by (cases "toggles t") force+
  then have "map_of (read_attrs (concat (map attr_markup xs))) ''class'' = None" using no_key [OF assms(1)] by blast
  moreover have "split_tokens [] (class_buffer xs []) = all_active xs"
    using buffer_typed [OF assms(1), of "[]"] assms(2) by (simp add: attrs_typed_def)
  ultimately show ?thesis
    by (auto simp: classes_def attrs_markup_def class_tokens_def split_tokens_trim Let_def map_add_def split: option.splits)
qed

lemma page_named:
  assumes "list_all2 has_aty ts xs" "attrs_typed ts" "(TAttr k t, Attr k v) \<in> set (zip ts xs)"
  shows "map_of (read_attrs (attrs_markup xs)) k = map_of (read_attrs (value_markup k v)) k"
proof -
  have m: "map_of (read_attrs (concat (map attr_markup xs))) k = map_of (read_attrs (value_markup k v)) k"
    using map_of_named [OF assms(1) _ assms(3)] assms(2) by (simp add: attrs_typed_def)
  have "class_buffer xs [] = []" if "k = ''class''"
  proof -
    obtain us ws where "ts = us @ TAttr k t # ws" using set_zip_leftD [OF assms(3)] by (auto dest: split_list)
    then have c: "\<forall>w\<in>set ts. w = TAttr k t \<or> \<not> clash (Named k) (facet_of w)"
      using attrs_typed_split [of us "TAttr k t" ws] assms(2) by auto
    have "TClass w \<notin> set ts" for w using c that by (cases "toggles w") force+
    then show ?thesis using no_class [OF assms(1)] no_class_active by blast
  qed
  then show ?thesis using m by (auto simp: attrs_markup_def Let_def map_add_def split: option.splits)
qed

theorem attrs_page_ok:
  assumes "list_all2 has_aty ts xs" "attrs_typed ts"
  shows "attrs_ok el (read_attrs (attrs_markup xs)) ts (map (attr_state_of el) xs)"
proof -
  have "attr_ok el (read_attrs (attrs_markup xs)) t (attr_state_of el x)" if z: "(t, x) \<in> set (zip ts xs)" for t x
  proof (cases t)
    case (TAttr k u)
    then obtain v where x: "x = Attr k v" "has_avty u v" using zip_split [OF assms(1) z] by (cases x) auto
    then show ?thesis using value_text_ok [OF x(2)] page_named [OF assms, of k u v] z TAttr by simp
  next
    case (TClass u)
    then obtain c where x: "x = Class c" "has_clsty u c" using zip_split [OF assms(1) z] by (cases x) auto
    have u: "TClass u \<in> set ts" using set_zip_leftD [OF z] TClass by simp
    note cl = page_classes [OF assms u] and act = active_of [OF assms, of u c]
    show ?thesis
    proof (cases "toggles u")
      case None
      then show ?thesis using active_ok(1) [OF x(2)] cl act(1) z TClass x(1) by simp
    next
      case (Some n)
      moreover have "is_token n" using assms(2) u Some by (auto simp: attrs_typed_def)
      ultimately show ?thesis using active_ok(2) [OF x(2)] cl act(2) z TClass x(1) by simp
    qed
  qed
  then show ?thesis
    using list_all2_lengthD [OF assms(1)] by (auto simp: attrs_ok_def list_all2_iff zip_map2)
qed

end
