(* ===== verification/View_Hydrate.thy ===== *)
theory View_Hydrate
  imports View_Attrs_Page
begin

text \<open>
  Hydrating the page of a view: the cursor finds every node, and the state that is made fits the
  document and reflects the view.
\<close>

subsection \<open>The document of a page\<close>

fun page_at :: "dom \<Rightarrow> page \<Rightarrow> nat \<Rightarrow> bool" where
  "page_at d (PText s) n = (content d n = Some (NText s))"
| "page_at d (PComment s) n = (content d n = Some (NComment s))"
| "page_at d (PElem void tag as ps) n =
     (content d n = Some (NElem tag (read_attrs as)) \<and> list_all2 (page_at d) ps (kids d n))"

fun page_nodes :: "dom \<Rightarrow> page \<Rightarrow> nat \<Rightarrow> nat list" where
  "page_nodes d (PText s) n = [n]"
| "page_nodes d (PComment s) n = [n]"
| "page_nodes d (PElem void tag as ps) n = n # concat (map (\<lambda>(p, m). page_nodes d p m) (zip ps (kids d n)))"

definition all_nodes :: "dom \<Rightarrow> page list \<Rightarrow> nat list \<Rightarrow> nat list" where
  "all_nodes d ps ns = concat (map (\<lambda>(p, m). page_nodes d p m) (zip ps ns))"

lemma page_node_in: "n \<in> set (page_nodes d p n)"
  by (cases p) auto

lemma all_nodes_simps [simp]:
  "all_nodes d [] ns = []" "all_nodes d (p # ps) (n # ns) = page_nodes d p n @ all_nodes d ps ns"
  "length ps = length ns \<Longrightarrow> all_nodes d (ps @ qs) (ns @ ms) = all_nodes d ps ns @ all_nodes d qs ms"
  by (simp_all add: all_nodes_def)

lemma nodes_in_all: "list_all2 (page_at d) ps ns \<Longrightarrow> set ns \<subseteq> set (all_nodes d ps ns)"
  by (induction ps ns rule: list_all2_induct) (auto simp: page_node_in)

lemma page_exists: "doc_ok d \<Longrightarrow> page_at d p n \<Longrightarrow> m \<in> set (page_nodes d p n) \<Longrightarrow> m < next_node d"
proof (induction p arbitrary: n m)
  case (PElem void tag as ps)
  have here: "n < next_node d" using elem_exists [OF PElem(2), of n] PElem(3) by (simp add: is_elem_def)
  show ?case
  proof (cases "m = n")
    case False
    then obtain p k where pk: "(p, k) \<in> set (zip ps (kids d n))" "m \<in> set (page_nodes d p k)" using PElem(4) by auto
    moreover then have "page_at d p k" using PElem(3) by (auto simp: list_all2_iff)
    ultimately show ?thesis using PElem(1) [OF set_zip_leftD [OF pk(1)] PElem(2)] by blast
  qed (use here in simp)
qed (use doc_okD(3) in \<open>force simp: not_less [symmetric]\<close>)+

lemma all_exist: "doc_ok d \<Longrightarrow> list_all2 (page_at d) ps ns \<Longrightarrow> m \<in> set (all_nodes d ps ns) \<Longrightarrow> m < next_node d"
proof -
  assume d: "doc_ok d"
  assume "list_all2 (page_at d) ps ns" "m \<in> set (all_nodes d ps ns)"
  then show ?thesis
    by (induction ps ns rule: list_all2_induct) (auto dest: page_exists [OF d])
qed

text \<open>A page stays while new nodes are made.\<close>

lemma page_later:
  assumes "doc_ok d" "dom_evolves d d' {} {}"
  shows "page_at d p n \<Longrightarrow> page_at d' p n \<and> page_nodes d' p n = page_nodes d p n"
proof (induction p arbitrary: n)
  case (PText s)
  then show ?case using page_exists [OF assms(1), of "PText s" n n] assms(2) by (simp add: dom_evolves_def)
next
  case (PComment s)
  then show ?case using page_exists [OF assms(1), of "PComment s" n n] assms(2) by (simp add: dom_evolves_def)
next
  case (PElem void tag as ps)
  have "n < next_node d" using page_exists [OF assms(1) PElem(2)] by simp
  then have n: "content d' n = content d n" "kids d' n = kids d n" using assms(2) by (simp_all add: dom_evolves_def)
  have all: "list_all2 (\<lambda>p m. page_at d' p m \<and> page_nodes d' p m = page_nodes d p m) ps (kids d n)"
    using PElem by (auto elim!: list.rel_mono_strong)
  have "map (\<lambda>(p, m). page_nodes d' p m) (zip ps (kids d n)) = map (\<lambda>(p, m). page_nodes d p m) (zip ps (kids d n))"
    using all by (auto simp: list_all2_iff)
  then have "page_nodes d' (PElem void tag as ps) n = page_nodes d (PElem void tag as ps) n"
    using n(2) by (simp del: map_eq_conv)
  then show ?case using PElem(2) n all by (auto elim: list.rel_mono_strong)
qed

lemma pages_later:
  assumes "doc_ok d" "dom_evolves d d' {} {}" "list_all2 (page_at d) ps ns"
  shows "list_all2 (page_at d') ps ns" "all_nodes d' ps ns = all_nodes d ps ns"
  using assms(3) page_later [OF assms(1,2)]
  by (induction ps ns rule: list_all2_induct) auto

subsection \<open>The cursor\<close>

text \<open>
  The children \<open>before\<close> were visited: the cursor is at the last of them that is not a branch marker,
  or still at the parent.
\<close>

definition skipped :: "bool \<Rightarrow> dom \<Rightarrow> nat list \<Rightarrow> bool" where
  "skipped mb d ns \<longleftrightarrow> (\<forall>n\<in>set ns. mb \<and> is_branch d n)"

definition cursor_at :: "bool \<Rightarrow> nat \<Rightarrow> nat list \<Rightarrow> hyd \<Rightarrow> bool" where
  "cursor_at mb el before h \<longleftrightarrow>
     (if at h = FirstChild then cursor h = el \<and> skipped mb (doc h) before
      else (at h = NextChild \<or> at h = NextChildAfterText) \<and>
        (\<exists>xs bs. before = xs @ cursor h # bs \<and> skipped mb (doc h) bs))"

definition step_cursor :: "bool \<Rightarrow> hyd \<Rightarrow> hyd" where
  "step_cursor mb h = (if at h = FirstChild then cursor_child mb h else cursor_sibling mb h)"

lemma skip_over:
  "\<forall>b\<in>set bs. is_branch d b \<Longrightarrow> \<not> is_branch d n \<Longrightarrow> skip_branches d (hd (bs @ [n])) (tl (bs @ n # after)) = n"
proof (induction bs)
  case Nil
  then show ?case by (cases after) simp_all
next
  case (Cons b bs)
  then show ?case by (cases bs) simp_all
qed

lemma following_at:
  assumes "doc_ok d" "kids d el = pre @ n # post"
  shows "following d n = post" "next_sibling d n = (case post of [] \<Rightarrow> None | m # ms \<Rightarrow> Some m)"
proof -
  have p: "parent d n = Some el" "distinct (pre @ n # post)" using doc_okD(1,2) [OF assms(1), where p = el] assms(2) by auto
  then have "dropWhile (\<lambda>m. m \<noteq> n) (kids d el) = n # post" using assms(2) by (simp add: dropWhile_append)
  then show "following d n = post" "next_sibling d n = (case post of [] \<Rightarrow> None | m # ms \<Rightarrow> Some m)"
    using p(1) by (simp_all add: following_def next_sibling_def split: list.split)
qed

lemma settle_skips:
  assumes "doc_ok d" "kids d el = pre @ bs @ n # after" "skipped mb d bs" "\<not> (mb \<and> is_branch d n)"
  shows "settle mb d (hd (bs @ [n])) = n"
proof (cases bs)
  case Nil
  then show ?thesis using following_at [OF assms(1), of el pre n after] assms(2,4) skip_over [of "[]" d n after]
    by (auto simp: settle_def)
next
  case (Cons b cs)
  then have mb: "mb" "\<forall>c\<in>set bs. is_branch d c" using assms(3) by (auto simp: skipped_def)
  have "following d b = cs @ n # after" using following_at [OF assms(1), of el pre b] assms(2) Cons by simp
  then show ?thesis using skip_over [OF mb(2), of n after] mb assms(4) Cons by (simp add: settle_def)
qed

lemma step_finds:
  assumes "doc_ok (doc h)" "kids (doc h) el = before @ bs @ n # after" "skipped mb (doc h) bs"
    and "\<not> (mb \<and> is_branch (doc h) n)" "cursor_at mb el before h"
  shows "step_cursor mb h = h\<lparr>cursor := n\<rparr>"
proof (cases "at h = FirstChild")
  case True
  then have c: "cursor h = el" "skipped mb (doc h) (before @ bs)" using assms(3,5) by (auto simp: cursor_at_def skipped_def)
  have "first_child (doc h) el = Some (hd ((before @ bs) @ [n]))"
    using assms(2) by (cases before; cases bs) (auto simp: first_child_def)
  then show ?thesis
    using settle_skips [OF assms(1) _ c(2) assms(4), of el "[]" after] assms(2) c(1) True
    by (simp add: step_cursor_def cursor_child_def)
next
  case False
  then obtain xs cs where c: "before = xs @ cursor h # cs" "skipped mb (doc h) (cs @ bs)"
    using assms(3,5) by (auto simp: cursor_at_def skipped_def)
  have "next_sibling (doc h) (cursor h) = Some (hd ((cs @ bs) @ [n]))"
    using following_at(2) [OF assms(1), of el xs "cursor h" "cs @ bs @ n # after"] assms(2) c(1)
    by (cases cs; cases bs) auto
  then show ?thesis
    using settle_skips [OF assms(1) _ c(2) assms(4), of el "xs @ [cursor h]" after] assms(2) c(1) False
    by (simp add: step_cursor_def cursor_sibling_def)
qed

lemma cursor_moved:
  "cursor_at mb el (before @ bs @ [n]) (h\<lparr>cursor := n, at := NextChild\<rparr>)"
  "cursor_at mb el (before @ bs @ [n]) (h\<lparr>cursor := n, at := NextChildAfterText\<rparr>)"
  unfolding cursor_at_def by (simp_all, (rule exI [of _ "before @ bs"], rule exI [of _ "[]"], simp add: skipped_def)+)

lemma cursor_skips: "cursor_at mb el before h \<Longrightarrow> skipped mb (doc h) bs \<Longrightarrow> cursor_at mb el (before @ bs) h"
proof -
  assume c: "cursor_at mb el before h" and bs: "skipped mb (doc h) bs"
  show ?thesis
  proof (cases "at h = FirstChild")
    case False
    then obtain xs cs where "before = xs @ cursor h # cs" "skipped mb (doc h) cs" using c by (auto simp: cursor_at_def)
    then have "before @ bs = xs @ cursor h # (cs @ bs)" "skipped mb (doc h) (cs @ bs)" using bs by (auto simp: skipped_def)
    then show ?thesis using c False unfolding cursor_at_def by metis
  qed (use c bs in \<open>auto simp: cursor_at_def skipped_def\<close>)
qed

subsection \<open>States that were found on the page\<close>

definition found ::
  "(string \<Rightarrow> string) \<Rightarrow> dom \<Rightarrow> dom \<Rightarrow> vty \<Rightarrow> view \<Rightarrow> vstate \<Rightarrow> page list \<Rightarrow> nat list \<Rightarrow> bool" where
  "found tg d d' ty v st ps ns \<longleftrightarrow> doc_ok d' \<and> dom_evolves d d' {} {} \<and> st_ok d' st ty \<and> reflects tg d' v st \<and>
     distinct (held_nodes st) \<and> set (held_nodes st) \<subseteq> set (all_nodes d ps ns) \<union> {next_node d..<next_node d'} \<and>
     subseq (nodes st) ns \<and> (\<forall>n\<in>set ns. n \<in> set (nodes st) \<or> is_comment d' n)"

definition on_page :: "bool \<Rightarrow> nat \<Rightarrow> nat list \<Rightarrow> nat list \<Rightarrow> nat list \<Rightarrow> page list \<Rightarrow> hyd \<Rightarrow> bool" where
  "on_page mb el before ns after ps h \<longleftrightarrow> doc_ok (doc h) \<and> is_elem (doc h) el \<and> kids (doc h) el = before @ ns @ after \<and>
     list_all2 (page_at (doc h)) ps ns \<and> distinct (all_nodes (doc h) ps ns) \<and> cursor_at mb el before h"

definition visited ::
  "bool \<Rightarrow> (string \<Rightarrow> string) \<Rightarrow> nat \<Rightarrow> nat list \<Rightarrow> nat list \<Rightarrow> page list \<Rightarrow> position \<Rightarrow> vty \<Rightarrow> view \<Rightarrow> vstate \<Rightarrow> hyd \<Rightarrow> hyd \<Rightarrow> bool" where
  "visited mb tg el before ns ps p ty v st h h' \<longleftrightarrow>
     at h' = p \<and> cursor_at mb el (before @ ns) h' \<and> found tg (doc h) (doc h') ty v st ps ns"

definition hydrates ::
  "bool \<Rightarrow> (string \<Rightarrow> string) \<Rightarrow> vty \<Rightarrow> view \<Rightarrow> (hyd \<Rightarrow> (vstate \<times> hyd) result) \<Rightarrow> (position \<Rightarrow> page list \<times> position) \<Rightarrow> bool" where
  "hydrates mb tg ty v hy mk \<longleftrightarrow> (\<forall>el before ns after h ps p. mk (at h) = (ps, p) \<longrightarrow> on_page mb el before ns after ps h \<longrightarrow>
     (\<exists>st h'. hy h = Inr (st, h') \<and> visited mb tg el before ns ps p ty v st h h'))"

lemma hydratesI:
  "(\<And>el before ns after h ps p. mk (at h) = (ps, p) \<Longrightarrow> on_page mb el before ns after ps h \<Longrightarrow>
     \<exists>st h'. hy h = Inr (st, h') \<and> visited mb tg el before ns ps p ty v st h h') \<Longrightarrow> hydrates mb tg ty v hy mk"
  unfolding hydrates_def by blast

lemma hydratesD:
  "hydrates mb tg ty v hy mk \<Longrightarrow> mk (at h) = (ps, p) \<Longrightarrow> on_page mb el before ns after ps h \<Longrightarrow>
   \<exists>st h'. hy h = Inr (st, h') \<and> visited mb tg el before ns ps p ty v st h h'"
  unfolding hydrates_def by blast

lemma foundD:
  assumes "found tg d d' ty v st ps ns"
  shows "doc_ok d'" "dom_evolves d d' {} {}" "st_ok d' st ty" "reflects tg d' v st" "distinct (held_nodes st)"
    "set (held_nodes st) \<subseteq> set (all_nodes d ps ns) \<union> {next_node d..<next_node d'}" "subseq (nodes st) ns"
    "n \<in> set ns \<Longrightarrow> n \<in> set (nodes st) \<or> is_comment d' n"
  using assms by (auto simp: found_def)

lemma found_later:
  assumes f: "found tg d d1 ty v st ps ns" and d: "doc_ok d" "list_all2 (page_at d) ps ns"
    and ev: "dom_evolves d1 d2 {} {}" "doc_ok d2"
  shows "found tg d d2 ty v st ps ns"
proof -
  have "\<forall>n\<in>set (held_nodes st). n < next_node d1"
    using foundD(6) [OF f] all_exist [OF d] dom_evolves_next [OF foundD(2) [OF f]] by fastforce
  then have same: "same_on (set (held_nodes st)) d1 d2" using dom_evolves_same_on [OF ev(1)] by blast
  have "st_ok d2 st ty" "reflects tg d2 v st" using st_ok_same [OF same] reflects_same [OF same] foundD(3-5) [OF f] by auto
  moreover have "dom_evolves d d2 {} {}" using dom_evolves_trans [OF foundD(2) [OF f] ev(1)] by simp
  moreover have "is_comment d1 n \<Longrightarrow> is_comment d2 n" for n using ev(1) by (simp add: dom_evolves_def comments_kept_def)
  ultimately show ?thesis
    using f ev dom_evolves_next [OF ev(1)] unfolding found_def by (auto simp: subset_iff)
qed

lemma found_earlier:
  assumes f: "found tg d1 d2 ty v st ps ns" and d: "doc_ok d" "list_all2 (page_at d) ps ns" "dom_evolves d d1 {} {}"
  shows "found tg d d2 ty v st ps ns"
proof -
  have "dom_evolves d d2 {} {}" using dom_evolves_trans [OF d(3) foundD(2) [OF f]] by simp
  moreover have "all_nodes d1 ps ns = all_nodes d ps ns" using pages_later(2) [OF d(1,3,2)] .
  ultimately show ?thesis using f dom_evolves_next [OF d(3)] unfolding found_def by (auto simp: subset_iff)
qed

lemma on_page_next:
  assumes "on_page mb el before (ns @ ms) after (ps @ qs) h" "length ps = length ns"
    and "visited mb tg el before ns ps p ty v st h h1"
  shows "on_page mb el (before @ ns) ms after qs h1"
proof -
  note o = assms(1) [unfolded on_page_def]
  have pq: "list_all2 (page_at (doc h)) ps ns" "list_all2 (page_at (doc h)) qs ms" using o assms(2) by (auto simp: list_all2_append)
  have f: "found tg (doc h) (doc h1) ty v st ps ns" and c: "cursor_at mb el (before @ ns) h1"
    using assms(3) by (auto simp: visited_def)
  note ev = foundD(2) [OF f]
  have el: "el < next_node (doc h)" using o elem_exists by blast
  then have "kids (doc h1) el = kids (doc h) el" "content (doc h1) el = content (doc h) el" using ev by (auto simp: dom_evolves_def)
  then show ?thesis
    using o c assms(2) pages_later [OF _ ev pq(2)] foundD(1) [OF f]
    by (auto simp: on_page_def is_elem_def)
qed

lemma visited_Cons:
  assumes o: "on_page mb el before (ns @ ms) after (ps @ qs) h" "length ps = length ns"
    and v: "visited mb tg el before ns ps p t v st h h1"
      "visited mb tg el (before @ ns) ms qs q (TyTuple ts) (VTuple vs) (STuple sts) h1 h2"
  shows "visited mb tg el before (ns @ ms) (ps @ qs) q (TyTuple (t # ts)) (VTuple (v # vs)) (STuple (st # sts)) h h2"
proof -
  note oo = o(1) [unfolded on_page_def]
  have d: "doc_ok (doc h)" "list_all2 (page_at (doc h)) ps ns" "list_all2 (page_at (doc h)) qs ms"
    using oo o(2) by (auto simp: list_all2_append)
  have f: "found tg (doc h) (doc h1) t v st ps ns" "found tg (doc h1) (doc h2) (TyTuple ts) (VTuple vs) (STuple sts) qs ms"
    using v by (auto simp: visited_def)
  note one = found_later [OF f(1) d(1,2) foundD(2,1) [OF f(2)]] and rest = found_earlier [OF f(2) d(1,3) foundD(2) [OF f(1)]]
  have "set (held_nodes st) \<inter> set (held_nodes (STuple sts)) = {}"
  proof -
    have "set (all_nodes (doc h) ps ns) \<inter> set (all_nodes (doc h) qs ms) = {}" using oo o(2) by simp
    moreover have "all_nodes (doc h1) qs ms = all_nodes (doc h) qs ms" using pages_later(2) [OF d(1) foundD(2) [OF f(1)] d(3)] .
    moreover have "set (all_nodes (doc h) ps ns) \<subseteq> {..<next_node (doc h)}" "set (all_nodes (doc h) qs ms) \<subseteq> {..<next_node (doc h)}"
      using all_exist [OF d(1,2)] all_exist [OF d(1,3)] by auto
    moreover have "next_node (doc h) \<le> next_node (doc h1)" using dom_evolves_next [OF foundD(2) [OF f(1)]] .
    ultimately show ?thesis using foundD(6) [OF f(1)] foundD(6) [OF f(2)] by fastforce
  qed
  moreover have "n \<in> set (ns @ ms) \<Longrightarrow> n \<in> set (nodes (STuple (st # sts))) \<or> is_comment (doc h2) n" for n
    using foundD(8) [OF one, of n] foundD(8) [OF rest, of n] by auto
  ultimately have "found tg (doc h) (doc h2) (TyTuple (t # ts)) (VTuple (v # vs)) (STuple (st # sts)) (ps @ qs) (ns @ ms)"
    using foundD(1-7) [OF one] foundD(1-7) [OF rest] o(2) unfolding found_def by (auto intro: list_emb_append_mono)
  then show ?thesis using v(2) by (simp add: visited_def)
qed

lemma hydrate_list:
  assumes "list_all2 (\<lambda>t v. hydrates mb tg t v (hydrate mb True v) (markup env mb v)) ts vs"
    and "seq_markup (markup env mb) vs (at h) = (ps, p)" "on_page mb el before ns after ps h"
  shows "\<exists>sts h'. map_state (hydrate mb True) vs h = Inr (sts, h') \<and>
    visited mb tg el before ns ps p (TyTuple ts) (VTuple vs) (STuple sts) h h'"
  using assms
proof (induction ts vs arbitrary: h ps before ns rule: list_all2_induct)
  case Nil
  then show ?case by (auto simp: on_page_def visited_def found_def)
next
  case (Cons t ts v vs)
  obtain ps1 p1 qs where m: "markup env mb v (at h) = (ps1, p1)" "seq_markup (markup env mb) vs p1 = (qs, p)" "ps = ps1 @ qs"
    using Cons(4) by (auto split: prod.splits)
  obtain ns1 ms where ns: "ns = ns1 @ ms" "length ps1 = length ns1"
    using Cons(5) m(3) by (auto simp: on_page_def list_all2_append1)
  have o: "on_page mb el before (ns1 @ ms) after (ps1 @ qs) h" using Cons(5) ns(1) m(3) by simp
  then have "on_page mb el before ns1 (ms @ after) ps1 h"
    using ns(2) by (auto simp: on_page_def list_all2_append)
  from hydratesD [OF Cons(1) m(1) this] obtain st h1 where
    one: "hydrate mb True v h = Inr (st, h1)" "visited mb tg el before ns1 ps1 p1 t v st h h1" by blast
  have "seq_markup (markup env mb) vs (at h1) = (qs, p)" using m(2) one(2) by (simp add: visited_def)
  from Cons(3) [OF this on_page_next [OF o ns(2) one(2)]] obtain sts h2 where
    rest: "map_state (hydrate mb True) vs h1 = Inr (sts, h2)"
      "visited mb tg el (before @ ns1) ms qs p (TyTuple ts) (VTuple vs) (STuple sts) h1 h2" by blast
  show ?case using visited_Cons [OF o ns(2) one(2) rest(2)] one(1) rest(1) ns(1) m(3) by simp
qed

subsection \<open>Single nodes\<close>

definition branch_text :: "string \<Rightarrow> bool" where
  "branch_text s \<longleftrightarrow> take 2 s = ''bo'' \<or> take 2 s = ''bc''"

lemma is_branch_content:
  "content d n = Some (NComment s) \<Longrightarrow> is_branch d n = branch_text s" "content d n = Some (NText s) \<Longrightarrow> \<not> is_branch d n"
  "content d n = Some (NElem t as) \<Longrightarrow> \<not> is_branch d n"
  by (simp_all add: is_branch_def branch_text_def)

lemma at_range: "cursor_at mb el before h \<Longrightarrow> at h = FirstChild \<or> at h = NextChild \<or> at h = NextChildAfterText"
  by (auto simp: cursor_at_def)

lemma finds_node:
  assumes "on_page mb el before [n] after [p] h" "\<not> is_branch (doc h) n"
  shows "step_cursor mb h = h\<lparr>cursor := n\<rparr>"
  using assms step_finds [of h el before "[]" n after mb] by (simp add: on_page_def skipped_def)

lemma finds_placeholder:
  assumes "on_page mb el before [n] after [PComment s] h" "\<not> branch_text s"
  shows "next_placeholder mb h = Inr (n, h\<lparr>cursor := n, at := NextChild\<rparr>)"
proof -
  have c: "content (doc h) n = Some (NComment s)" using assms(1) by (simp add: on_page_def)
  have "step_cursor mb h = h\<lparr>cursor := n\<rparr>" using finds_node [OF assms(1)] is_branch_content(1) [OF c] assms(2) by simp
  then have "advance_to_placeholder mb h = h\<lparr>cursor := n, at := NextChild\<rparr>"
    by (simp add: advance_to_placeholder_def step_cursor_def)
  then show ?thesis using c by (simp add: next_placeholder_def Let_def is_comment_def)
qed

lemma found_leaf:
  "doc_ok d \<Longrightarrow> st_ok d st ty \<Longrightarrow> reflects tg d v st \<Longrightarrow> held_nodes st = [n] \<Longrightarrow> nodes st = [n] \<Longrightarrow> n \<in> set (all_nodes d ps ns) \<Longrightarrow>
   n \<in> set ns \<Longrightarrow> \<forall>m\<in>set ns. m = n \<or> is_comment d m \<Longrightarrow> found tg d d ty v st ps ns"
  by (simp add: found_def subseq_singleton_left)

lemma hydrates_unit:
  assumes "\<not> branch_text s"
  shows "hydrates mb tg TyUnit VUnit (unit_hydrate mb) (\<lambda>p. ([PComment s], NextChild))"
proof (rule hydratesI)
  fix el before ns after h ps p
  assume m: "([PComment s], NextChild) = (ps, p)" and o: "on_page mb el before ns after ps h"
  obtain n where ns: "ns = [n]" using o m by (auto simp: on_page_def list_all2_Cons1)
  have c: "content (doc h) n = Some (NComment s)" "doc_ok (doc h)" using o m ns by (auto simp: on_page_def)
  let ?h = "h\<lparr>cursor := n, at := NextChild\<rparr>"
  have "unit_hydrate mb h = Inr (SPlace n, ?h)"
    using finds_placeholder o m ns assms by (auto simp: unit_hydrate_def)
  moreover have "found tg (doc h) (doc h) TyUnit VUnit (SPlace n) ps ns"
    using c m ns by (intro found_leaf [where n = n]) (auto simp: is_comment_def)
  ultimately show "\<exists>st h'. unit_hydrate mb h = Inr (st, h') \<and> visited mb tg el before ns ps p TyUnit VUnit st h h'"
    using cursor_moved(1) [of mb el before "[]" n h] m ns by (auto simp: visited_def)
qed

lemma not_branch [simp]: "\<not> branch_text []" "\<not> branch_text ''<() />''" "branch_text (''bo-'' @ b)" "branch_text (''bc-'' @ b)"
  by (simp_all add: branch_text_def)

text \<open>A text that follows a text is after a separator.\<close>

lemma text_found:
  assumes "on_page mb el before ns after (fst (text_markup t (at h))) h"
  shows "\<exists>n. n \<in> set ns \<and> content (doc h) n = Some (NText t) \<and>
    text_hydrate mb True s h = Inr (SText n s, h\<lparr>cursor := n, at := NextChildAfterText\<rparr>) \<and>
    cursor_at mb el (before @ ns) (h\<lparr>cursor := n, at := NextChildAfterText\<rparr>) \<and> (\<forall>m\<in>set ns. m = n \<or> is_comment (doc h) m)"
proof (cases "at h = NextChildAfterText")
  case False
  then obtain n where ns: "ns = [n]" "content (doc h) n = Some (NText t)" and o: "on_page mb el before [n] after [PText t] h"
    using assms by (auto simp: on_page_def text_markup_def list_all2_Cons1)
  have "step_cursor mb h = h\<lparr>cursor := n\<rparr>" using finds_node [OF o is_branch_content(2) [OF ns(2)]] .
  then have "text_hydrate mb True s h = Inr (SText n s, h\<lparr>cursor := n, at := NextChildAfterText\<rparr>)"
    using False ns(2) by (simp add: text_hydrate_def step_cursor_def Let_def is_text_def)
  then show ?thesis using ns cursor_moved(2) [of mb el before "[]" n h] by auto
next
  case True
  then obtain c n where ns: "ns = [c, n]" "content (doc h) c = Some (NComment [])" "content (doc h) n = Some (NText t)"
    and k: "doc_ok (doc h)" "kids (doc h) el = before @ [c, n] @ after" "cursor_at mb el before h"
    using assms by (auto simp: on_page_def text_markup_def list_all2_Cons1)
  have one: "step_cursor mb h = h\<lparr>cursor := c\<rparr>"
    using step_finds [of h el before "[]" c "n # after" mb] k ns(2) is_branch_content(1) by (auto simp: skipped_def)
  have "cursor_at mb el (before @ [c]) (h\<lparr>cursor := c\<rparr>)" using cursor_moved(2) [of mb el before "[]" c h] True by (simp add: cursor_at_def)
  then have two: "step_cursor mb (h\<lparr>cursor := c\<rparr>) = h\<lparr>cursor := n\<rparr>"
    using step_finds [of "h\<lparr>cursor := c\<rparr>" el "before @ [c]" "[]" n after mb] k ns(3) is_branch_content(2) by (auto simp: skipped_def)
  have "text_hydrate mb True s h = Inr (SText n s, h\<lparr>cursor := n, at := NextChildAfterText\<rparr>)"
    using True one two ns(3) by (simp add: text_hydrate_def step_cursor_def Let_def is_text_def)
  then show ?thesis using ns cursor_moved(2) [of mb el "before @ [c]" "[]" n h] by (auto simp: is_comment_def)
qed

lemma hydrates_text:
  assumes "t = (if s = [] then '' '' else s)"
  shows "hydrates mb tg TyText (VText s) (text_hydrate mb True s) (text_markup t)"
    and "hydrates mb tg (TyPrim e) (VPrim e s) (text_hydrate mb True s) (text_markup t)"
proof -
  have "\<exists>st h'. text_hydrate mb True s h = Inr (st, h') \<and> visited mb tg el before ns ps p ty v st h h'"
    if m: "text_markup t (at h) = (ps, p)" and o: "on_page mb el before ns after ps h"
      and v: "ty = TyText \<and> v = VText s \<or> ty = TyPrim e \<and> v = VPrim e s" for el before ns after h ps p ty v
  proof -
    obtain n where n: "n \<in> set ns" "content (doc h) n = Some (NText t)"
      "text_hydrate mb True s h = Inr (SText n s, h\<lparr>cursor := n, at := NextChildAfterText\<rparr>)"
      "cursor_at mb el (before @ ns) (h\<lparr>cursor := n, at := NextChildAfterText\<rparr>)" "\<forall>m\<in>set ns. m = n \<or> is_comment (doc h) m"
      using text_found [of mb el before ns after t h s] o m by auto
    have "found tg (doc h) (doc h) ty v (SText n s) ps ns"
      using v n o nodes_in_all [of "doc h" ps ns] assms by (intro found_leaf [where n = n]) (auto simp: text_at_def on_page_def)
    moreover have "p = NextChildAfterText" using m by (simp add: text_markup_def)
    ultimately show ?thesis using n by (auto simp: visited_def)
  qed
  then show "hydrates mb tg TyText (VText s) (text_hydrate mb True s) (text_markup t)"
    "hydrates mb tg (TyPrim e) (VPrim e s) (text_hydrate mb True s) (text_markup t)" unfolding hydrates_def by blast+
qed

subsection \<open>Composed views\<close>

lemma found_map:
  assumes "found tg d d' ty v st ps ns" "held_nodes st' = held_nodes st" "nodes st' = nodes st"
    and "st_ok d' st ty \<Longrightarrow> st_ok d' st' ty'" "reflects tg d' v st \<Longrightarrow> reflects tg d' v' st'"
  shows "found tg d d' ty' v' st' ps ns"
  using assms by (simp add: found_def)

lemma hydrates_map:
  assumes "hydrates mb tg ty v hy mk"
    and "\<And>st d h. st_ok d st ty \<Longrightarrow> reflects tg d v st \<Longrightarrow>
      held_nodes (f h st) = held_nodes st \<and> nodes (f h st) = nodes st \<and> st_ok d (f h st) ty' \<and> reflects tg d v' (f h st)"
    and "\<And>h. hy' h = and_then (hy h) (\<lambda>(st, h'). Inr (f h st, h'))"
  shows "hydrates mb tg ty' v' hy' mk"
proof (rule hydratesI)
  fix el before ns after h ps p
  assume m: "mk (at h) = (ps, p)" and o: "on_page mb el before ns after ps h"
  obtain st h' where st: "hy h = Inr (st, h')" "visited mb tg el before ns ps p ty v st h h'" using hydratesD [OF assms(1) m o] by blast
  have f: "found tg (doc h) (doc h') ty v st ps ns" using st(2) by (simp add: visited_def)
  have "found tg (doc h) (doc h') ty' v' (f h st) ps ns"
    using assms(2) [OF foundD(3,4) [OF f]] f by (simp add: found_def)
  then show "\<exists>st h'. hy' h = Inr (st, h') \<and> visited mb tg el before ns ps p ty' v' st h h'"
    using st assms(3) by (auto simp: visited_def)
qed

text \<open>A view and a marker after it.\<close>

lemma hydrates_marker:
  assumes "hydrates mb tg t v hy mk" "\<not> branch_text s"
  shows "hydrates mb tg (TyTuple [t, TyUnit]) (VTuple [v, VUnit])
    (\<lambda>h. and_then (hy h) (\<lambda>(st, h1). and_then (next_placeholder mb h1) (\<lambda>(n, h2). Inr (STuple [st, SPlace n], h2))))
    (\<lambda>p. (fst (mk p) @ [PComment s], NextChild))"
proof (rule hydratesI)
  fix el before ns after h ps p
  assume m: "(fst (mk (at h)) @ [PComment s], NextChild) = (ps, p)" and o: "on_page mb el before ns after ps h"
  obtain qs q where q: "mk (at h) = (qs, q)" "ps = qs @ [PComment s]" using m by (cases "mk (at h)") auto
  obtain ms n where ns: "ns = ms @ [n]" "length qs = length ms"
    using o q(2) by (auto simp: on_page_def list_all2_append1 list_all2_Cons1)
  have o2: "on_page mb el before (ms @ [n]) after (qs @ [PComment s]) h" using o q(2) ns(1) by simp
  then have "on_page mb el before ms ([n] @ after) qs h" using ns(2) by (auto simp: on_page_def list_all2_append)
  from hydratesD [OF assms(1) q(1) this] obtain st h1 where
    one: "hy h = Inr (st, h1)" "visited mb tg el before ms qs q t v st h h1" by blast
  note o3 = on_page_next [OF o2 ns(2) one(2)]
  have c: "content (doc h1) n = Some (NComment s)" "doc_ok (doc h1)" using o3 by (auto simp: on_page_def)
  let ?h = "h1\<lparr>cursor := n, at := NextChild\<rparr>"
  have "found tg (doc h1) (doc h1) (TyTuple [TyUnit]) (VTuple [VUnit]) (STuple [SPlace n]) [PComment s] [n]"
    using c by (intro found_leaf [where n = n]) (auto simp: is_comment_def)
  then have "visited mb tg el (before @ ms) [n] [PComment s] NextChild (TyTuple [TyUnit]) (VTuple [VUnit]) (STuple [SPlace n]) h1 ?h"
    using cursor_moved(1) [of mb el "before @ ms" "[]" n h1] by (simp add: visited_def)
  note v = visited_Cons [OF o2 ns(2) one(2) this]
  show "\<exists>st h'. and_then (hy h) (\<lambda>(st, h1). and_then (next_placeholder mb h1) (\<lambda>(n, h2). Inr (STuple [st, SPlace n], h2))) = Inr (st, h') \<and>
      visited mb tg el before ns ps p (TyTuple [t, TyUnit]) (VTuple [v, VUnit]) st h h'"
    using v one(1) finds_placeholder [OF o3 assms(2)] ns(1) q(2) m by simp
qed

lemma hydrates_branch:
  assumes "hydrates mb tg ty v hy mk"
  shows "hydrates mb tg ty v (\<lambda>h. and_then (hy h) (\<lambda>(st, h'). Inr (st, close_branch_marker mb h'))) (branch_markup mb b mk)"
proof (cases mb)
  case False
  then have "branch_markup mb b mk = mk" "\<And>h. and_then (hy h) (\<lambda>(st, h'). Inr (st, close_branch_marker mb h')) = hy h"
    by (auto simp: branch_markup_def close_branch_marker_def and_then_def fun_eq_iff split: sum.split)
  then show ?thesis using assms by simp
next
  case True
  show ?thesis
  proof (rule hydratesI)
    fix el before ns after h ps p
    assume m: "branch_markup mb b mk (at h) = (ps, p)" and o: "on_page mb el before ns after ps h"
    obtain qs q where q: "mk (at h) = (qs, q)" "ps = PComment (''bo-'' @ b) # qs @ [PComment (''bc-'' @ b)]" "p = after_branch q"
      using m True by (auto simp: branch_markup_def split: prod.splits)
    obtain bo ms bc where ns: "ns = bo # ms @ [bc]" "length qs = length ms"
      "content (doc h) bo = Some (NComment (''bo-'' @ b))" "content (doc h) bc = Some (NComment (''bc-'' @ b))"
      "list_all2 (page_at (doc h)) qs ms"
      using o q(2) by (auto simp: on_page_def list_all2_append1 list_all2_Cons1)
    have br: "is_branch (doc h) bo" "is_branch (doc h) bc" using ns is_branch_content(1) by (auto simp: branch_text_def)
    have "on_page mb el (before @ [bo]) ms ([bc] @ after) qs h"
      using o q(2) ns cursor_skips [of mb el before h "[bo]"] br True by (auto simp: on_page_def skipped_def)
    from hydratesD [OF assms q(1) this] obtain st h1 where
      one: "hy h = Inr (st, h1)" "visited mb tg el (before @ [bo]) ms qs q ty v st h h1" by blast
    have f: "found tg (doc h) (doc h1) ty v st qs ms" and at: "at h1 = q" and c: "cursor_at mb el (before @ [bo] @ ms) h1"
      using one(2) by (auto simp: visited_def)
    have kept: "is_comment (doc h1) bo" "is_comment (doc h1) bc"
      using foundD(2) [OF f] ns by (auto simp: dom_evolves_def comments_kept_def is_comment_def)
    have "bc < next_node (doc h)" using all_exist [of "doc h" ps ns bc] o nodes_in_all [of "doc h" ps ns] ns(1) by (auto simp: on_page_def)
    then have "is_branch (doc h1) bc" using br(2) foundD(2) [OF f] by (simp add: is_branch_def dom_evolves_def)
    then have "cursor_at mb el ((before @ [bo] @ ms) @ [bc]) (close_branch_marker mb h1)"
      using cursor_skips [OF c, of "[bc]"] True by (auto simp: skipped_def close_branch_marker_def cursor_at_def)
    moreover have "at (close_branch_marker mb h1) = p" "doc (close_branch_marker mb h1) = doc h1"
      using at q(3) True by (auto simp: close_branch_marker_def after_branch_def)
    moreover have "found tg (doc h) (doc h1) ty v st ps ns"
      using f kept ns(1,2) q(2) unfolding found_def by (auto intro: list_emb_append2 subseq_drop_many)
    ultimately show "\<exists>st h'. and_then (hy h) (\<lambda>(st, h'). Inr (st, close_branch_marker mb h')) = Inr (st, h') \<and>
        visited mb tg el before ns ps p ty v st h h'"
      using one(1) ns(1) by (auto simp: visited_def)
  qed
qed

subsection \<open>Elements\<close>

lemma value_hydrate_server: "value_hydrate True k el v d = (value_state el v, d)"
  by (induction True k el v d rule: value_hydrate.induct) simp_all

lemma cls_hydrate_server: "cls_hydrate True el c d = (cls_state el c, d)"
  by (induction True el c d rule: cls_hydrate.induct) simp_all

lemma attrs_hydrate_server: "attrs_hydrate True el xs d = (map (attr_state_of el) xs, d)"
proof (induction xs)
  case (Cons x xs)
  have "attr_hydrate True el x d = (attr_state_of el x, d)"
    by (cases x) (simp_all add: value_hydrate_server cls_hydrate_server)
  then show ?case using Cons by simp
qed simp

lemma found_element:
  assumes f: "found tg d d' t v st ps (kids d n)" and d: "doc_ok d" "content d n = Some (NElem tag as)"
    and dist: "n \<notin> set (all_nodes d ps (kids d n))" and a: "attrs_ok n as ats (map (attr_state_of n) xs)"
    and tag: "TAG et \<noteq> [] \<Longrightarrow> tag = TAG et" "\<not> SELF_CLOSING et"
  shows "found tg d d' (TyElem et ats t) (VElem et tag xs v) (SElem n (map (attr_state_of n) xs) (Some st))
    [PElem void tag' bs ps] [n]"
proof -
  have n: "n < next_node d" using elem_exists [OF d(1)] d(2) by (simp add: is_elem_def)
  then have e: "content d' n = Some (NElem tag as)" "kids d' n = kids d n"
    using foundD(2) [OF f] d(2) by (auto simp: dom_evolves_def)
  have "children_ok d' n (nodes st)" using foundD(7,8) [OF f] e(2) by (auto simp: children_ok_def)
  moreover have "n \<notin> set (held_nodes st)" using foundD(6) [OF f] dist n by auto
  moreover have "set (held_nodes st) \<subseteq> set (all_nodes d [PElem void tag' bs ps] [n]) \<union> {next_node d..<next_node d'}"
    using foundD(6) [OF f] by (auto simp: all_nodes_def)
  ultimately show ?thesis
    using foundD(1-5) [OF f] e(1) a tag unfolding found_def by auto
qed

lemma hydrates_element:
  assumes child: "exists_view v \<Longrightarrow> hydrates mb tg t v (hydrate mb True v) (markup env mb v)"
    and ty: "has_vty (TyElem et ats t) (VElem et tag xs v)" "attrs_typed ats"
    and h: "if SELF_CLOSING et then \<not> exists_view v else ESCAPE_CHILDREN et \<and> HYDRATES_CHILDREN et"
  shows "hydrates mb tg (TyElem et ats t) (VElem et tag xs v) (hydrate mb True (VElem et tag xs v)) (markup env mb (VElem et tag xs v))"
proof (rule hydratesI)
  fix el before ns after h ps p
  let ?v = "VElem et tag xs v" and ?ty = "TyElem et ats t" and ?as = "read_attrs (attrs_markup xs)"
  let ?kids = "if exists_view v then fst (markup env mb v FirstChild) else []"
  assume m: "markup env mb ?v (at h) = (ps, p)" and o: "on_page mb el before ns after ps h"
  have ps: "ps = [PElem (SELF_CLOSING et) tag (attrs_markup xs) ?kids]" "p = NextChild" using m by auto
  obtain n where ns: "ns = [n]" "content (doc h) n = Some (NElem tag ?as)" "list_all2 (page_at (doc h)) ?kids (kids (doc h) n)"
    using o ps(1) by (auto simp: on_page_def list_all2_Cons1)
  have d: "doc_ok (doc h)" "distinct (n # all_nodes (doc h) ?kids (kids (doc h) n))"
    using o ps(1) ns(1) by (auto simp: on_page_def all_nodes_def)
  have typed: "list_all2 has_aty ats xs" "TAG et \<noteq> [] \<Longrightarrow> tag = TAG et" "has_vty t v" using ty(1) by auto
  note attrs = attrs_page_ok [OF typed(1) ty(2), of n]
  have "step_cursor mb h = h\<lparr>cursor := n\<rparr>"
    using finds_node o ns(1) ps(1) is_branch_content(3) [OF ns(2)] by simp
  then have step: "(if at h = FirstChild then cursor_child mb h else if at h \<noteq> Current then cursor_sibling mb h else h) = h\<lparr>cursor := n\<rparr>"
    using at_range [of mb el before h] o by (auto simp: step_cursor_def on_page_def)
  have run: "hydrate mb True ?v h = (if \<not> exists_view v \<or> \<not> HYDRATES_CHILDREN et
      then Inr (SElem n (map (attr_state_of n) xs) None, h\<lparr>cursor := n, at := NextChild\<rparr>)
      else and_then (hydrate mb True v (h\<lparr>cursor := n, at := FirstChild\<rparr>)) (\<lambda>(st, h3).
        Inr (SElem n (map (attr_state_of n) xs) (Some st), h3\<lparr>cursor := n, at := NextChild\<rparr>)))"
    using step ns(2) by (simp add: element_hydrate_def Let_def is_elem_def attrs_hydrate_server cong: if_cong)
  show "\<exists>st h'. hydrate mb True ?v h = Inr (st, h') \<and> visited mb tg el before ns ps p ?ty ?v st h h'"
  proof (cases "exists_view v")
    case False
    then have "children_ok (doc h) n []" using ns(3) by (simp add: children_ok_def)
    then have "found tg (doc h) (doc h) ?ty ?v (SElem n (map (attr_state_of n) xs) None) ps ns"
      using d(1) attrs typed(2) ns False exists_view_ty [OF typed(3)] ps(1)
      by (intro found_leaf [where n = n]) (auto simp: page_node_in)
    then show ?thesis using run False cursor_moved(1) [of mb el before "[]" n h] ns(1) ps(2) by (simp add: visited_def)
  next
    case True
    then have et: "\<not> SELF_CLOSING et" "HYDRATES_CHILDREN et" using h by (auto split: if_splits)
    let ?h = "h\<lparr>cursor := n, at := FirstChild\<rparr>"
    obtain qs q where q: "markup env mb v (at ?h) = (qs, q)" by fastforce
    have "on_page mb n [] (kids (doc h) n) [] qs ?h"
      using d ns(2,3) q True by (simp add: on_page_def is_elem_def cursor_at_def skipped_def)
    from hydratesD [OF child [OF True] q this] obtain st h1 where st: "hydrate mb True v ?h = Inr (st, h1)"
      "found tg (doc h) (doc h1) t v st qs (kids (doc h) n)" by (auto simp: visited_def)
    have "found tg (doc h) (doc h1) ?ty ?v (SElem n (map (attr_state_of n) xs) (Some st)) ps ns"
      using found_element [OF st(2) d(1) ns(2) _ attrs typed(2) et(1)] d(2) q True ps(1) ns(1) by simp
    then show ?thesis using run st(1) True et(2) cursor_moved(1) [of mb el before "[]" n h1] ns(1) ps(2) by (simp add: visited_def)
  qed
qed

subsection \<open>Views that are kept alive\<close>

text \<open>The hidden side is built.\<close>

definition hidden_made :: "(string \<Rightarrow> string) \<Rightarrow> dom \<Rightarrow> dom \<Rightarrow> vty \<Rightarrow> view option \<Rightarrow> vstate option \<Rightarrow> bool" where
  "hidden_made tg d d' t x sx \<longleftrightarrow> doc_ok d' \<and> dom_evolves d d' {} {} \<and> (case x of
     None \<Rightarrow> sx = None
   | Some v \<Rightarrow> (\<exists>s. sx = Some s \<and> made tg d d' t v s))"

lemma hidden_build:
  assumes "\<And>v. x = Some v \<Longrightarrow> builds tg t v" "doc_ok (doc h)"
  shows "\<exists>sx d'. option_state (\<lambda>v. on_doc (build v)) x h = Inr (sx, h\<lparr>doc := d'\<rparr>) \<and> hidden_made tg (doc h) d' t x sx"
proof (cases x)
  case None
  then show ?thesis using assms(2) by (auto simp: option_state_def hidden_made_def intro!: exI [of _ "doc h"])
next
  case (Some v)
  obtain s d' where "build v (doc h) = Inr (s, d')" "made tg (doc h) d' t v s" using buildsE [OF assms(1) [OF Some] assms(2)] .
  then show ?thesis using Some made_doc by (fastforce simp: option_state_def on_doc_def hidden_made_def)
qed

lemma hidden_owned: "hidden_made tg d d' t x (Some s) \<Longrightarrow> set (held_nodes s) \<subseteq> {next_node d..<next_node d'}"
  by (auto simp: hidden_made_def made_def split: option.splits)

lemma hidden_later:
  assumes "hidden_made tg d d1 t x sx" "dom_evolves d1 d2 {} {}" "doc_ok d2"
  shows "hidden_made tg d d2 t x sx"
proof -
  have "dom_evolves d d2 {} {}" using dom_evolves_trans [OF _ assms(2)] assms(1) by (simp add: hidden_made_def)
  then show ?thesis
    using assms(1,3) made_later [OF _ assms(2,3)] by (cases x) (auto simp: hidden_made_def)
qed

lemma hidden_earlier:
  assumes "hidden_made tg d1 d2 t x sx" "dom_evolves d d1 {} {}"
  shows "hidden_made tg d d2 t x sx"
proof -
  have "dom_evolves d d2 {} {}" using dom_evolves_trans [OF assms(2), of d2 "{}"] assms(1) by (simp add: hidden_made_def)
  then show ?thesis
    using assms(1) made_earlier [OF _ assms(2)] by (cases x) (auto simp: hidden_made_def)
qed

lemma found_keep:
  assumes f: "found tg d d' ts w st ps ns" and h: "hidden_made tg d d' th x sx"
    and apart: "\<And>s. sx = Some s \<Longrightarrow> set (held_nodes s) \<inter> set (held_nodes st) = {}"
  shows "found tg d d' (TyKeep th ts) (VKeep x (Some w) True) (SKeep sx (Some st) True) ps ns"
    "found tg d d' (TyKeep ts th) (VKeep (Some w) x False) (SKeep (Some st) sx False) ps ns"
proof -
  have hidden: "found tg d d' (TyKeep th ts) (VKeep x (Some w) True) (SKeep sx (Some st) True) ps ns \<and>
      found tg d d' (TyKeep ts th) (VKeep (Some w) x False) (SKeep (Some st) sx False) ps ns"
  proof (cases x)
    case None
    then have "sx = None" using h by (simp add: hidden_made_def)
    then show ?thesis using f None by (auto simp: found_def)
  next
    case (Some v)
    then obtain s where s: "sx = Some s" "made tg d d' th v s" using h by (auto simp: hidden_made_def)
    have m: "st_ok d' s th" "distinct (held_nodes s)" "\<forall>n\<in>set (nodes s). parent d' n = None" "reflects tg d' v s"
      "set (held_nodes s) \<subseteq> {next_node d..<next_node d'}" using s(2) by (auto simp: made_def fits_def)
    have "set (held_nodes s) \<inter> set (held_nodes st) = {}" using apart [OF s(1)] .
    then show ?thesis using f m s(1) Some unfolding found_def by auto
  qed
  then show "found tg d d' (TyKeep th ts) (VKeep x (Some w) True) (SKeep sx (Some st) True) ps ns"
    "found tg d d' (TyKeep ts th) (VKeep (Some w) x False) (SKeep (Some st) sx False) ps ns" by auto
qed

lemma on_page_later:
  assumes "on_page mb el before ns after ps h" "dom_evolves (doc h) d {} {}" "doc_ok d"
  shows "on_page mb el before ns after ps (h\<lparr>doc := d\<rparr>)"
proof -
  note o = assms(1) [unfolded on_page_def]
  have el: "el < next_node (doc h)" using o elem_exists by blast
  then have k: "kids d el = kids (doc h) el" "content d el = content (doc h) el" using assms(2) by (auto simp: dom_evolves_def)
  have "\<forall>n\<in>set before. n < next_node (doc h)"
  proof
    fix n assume "n \<in> set before"
    then have "parent (doc h) n = Some el" using o doc_okD(1) [of "doc h" n el] by auto
    then show "n < next_node (doc h)" using o doc_okD(3) [of "doc h" n] by (force simp: not_less [symmetric])
  qed
  then have "skipped mb (doc h) ms \<Longrightarrow> set ms \<subseteq> set before \<Longrightarrow> skipped mb d ms" for ms
    using assms(2) by (auto simp: skipped_def is_branch_def dom_evolves_def)
  then have "cursor_at mb el before (h\<lparr>doc := d\<rparr>)" using o unfolding cursor_at_def by (auto split: if_splits) blast+
  then show ?thesis using o k assms(3) pages_later [OF _ assms(2)] by (auto simp: on_page_def is_elem_def)
qed

lemma hydrates_keep_b:
  assumes "hydrates mb tg tb w (hydrate mb True w) (markup env mb w)" "\<And>v. a = Some v \<Longrightarrow> builds tg ta v"
  shows "hydrates mb tg (TyKeep ta tb) (VKeep a (Some w) True) (hydrate mb True (VKeep a (Some w) True)) (markup env mb w)"
proof (rule hydratesI)
  fix el before ns after h ps p
  assume m: "markup env mb w (at h) = (ps, p)" and o: "on_page mb el before ns after ps h"
  have d: "doc_ok (doc h)" "list_all2 (page_at (doc h)) ps ns" using o by (auto simp: on_page_def)
  obtain sa d1 where a: "option_state (\<lambda>v. on_doc (build v)) a h = Inr (sa, h\<lparr>doc := d1\<rparr>)" "hidden_made tg (doc h) d1 ta a sa"
    using hidden_build [OF assms(2) d(1)] by blast
  then have ev: "dom_evolves (doc h) d1 {} {}" "doc_ok d1" by (auto simp: hidden_made_def)
  have m1: "markup env mb w (at (h\<lparr>doc := d1\<rparr>)) = (ps, p)" using m by simp
  obtain sb h2 where b: "hydrate mb True w (h\<lparr>doc := d1\<rparr>) = Inr (sb, h2)"
    "visited mb tg el before ns ps p tb w sb (h\<lparr>doc := d1\<rparr>) h2"
    using hydratesD [OF assms(1) m1 on_page_later [OF o ev]] by blast
  have f: "found tg d1 (doc h2) tb w sb ps ns" using b(2) by (simp add: visited_def)
  have "set (held_nodes s) \<inter> set (held_nodes sb) = {}" if "sa = Some s" for s
    using hidden_owned a(2) that foundD(6) [OF f] pages_later(2) [OF d(1) ev(1) d(2)] all_exist [OF d] by fastforce
  from found_keep(1) [OF found_earlier [OF f d ev(1)] hidden_later [OF a(2) foundD(2,1) [OF f]] this]
  have "found tg (doc h) (doc h2) (TyKeep ta tb) (VKeep a (Some w) True) (SKeep sa (Some sb) True) ps ns" .
  then have "visited mb tg el before ns ps p (TyKeep ta tb) (VKeep a (Some w) True) (SKeep sa (Some sb) True) h h2"
    using b(2) by (simp add: visited_def)
  then show "\<exists>st h'. hydrate mb True (VKeep a (Some w) True) h = Inr (st, h') \<and>
      visited mb tg el before ns ps p (TyKeep ta tb) (VKeep a (Some w) True) st h h'"
    using a(1) b(1) by (simp add: option_state_def [of "hydrate mb True"])
qed

lemma hydrates_keep_a:
  assumes "hydrates mb tg ta w (hydrate mb True w) (markup env mb w)" "\<And>v. b = Some v \<Longrightarrow> builds tg tb v"
  shows "hydrates mb tg (TyKeep ta tb) (VKeep (Some w) b False) (hydrate mb True (VKeep (Some w) b False)) (markup env mb w)"
proof (rule hydratesI)
  fix el before ns after h ps p
  assume m: "markup env mb w (at h) = (ps, p)" and o: "on_page mb el before ns after ps h"
  have d: "doc_ok (doc h)" "list_all2 (page_at (doc h)) ps ns" using o by (auto simp: on_page_def)
  obtain sa h1 where a: "hydrate mb True w h = Inr (sa, h1)" "visited mb tg el before ns ps p ta w sa h h1"
    using hydratesD [OF assms(1) m o] by blast
  then have f: "found tg (doc h) (doc h1) ta w sa ps ns" by (simp add: visited_def)
  obtain sb d2 where b: "option_state (\<lambda>v. on_doc (build v)) b h1 = Inr (sb, h1\<lparr>doc := d2\<rparr>)" "hidden_made tg (doc h1) d2 tb b sb"
    using hidden_build [OF assms(2) foundD(1) [OF f]] by blast
  then have ev: "dom_evolves (doc h1) d2 {} {}" "doc_ok d2" by (auto simp: hidden_made_def)
  have "set (held_nodes s) \<inter> set (held_nodes sa) = {}" if "sb = Some s" for s
    using hidden_owned b(2) that foundD(6) [OF f] all_exist [OF d] dom_evolves_next [OF foundD(2) [OF f]] by fastforce
  from found_keep(2) [OF found_later [OF f d ev] hidden_earlier [OF b(2) foundD(2) [OF f]] this]
  have "found tg (doc h) d2 (TyKeep ta tb) (VKeep (Some w) b False) (SKeep (Some sa) sb False) ps ns" .
  moreover have "cursor_at mb el (before @ ns) (h1\<lparr>doc := d2\<rparr>)"
  proof -
    have "on_page mb el (before @ ns) [] after [] h1" using on_page_next [of mb el before ns "[]" after ps "[]" h] o a(2) list_all2_lengthD [OF d(2)] by simp
    from on_page_later [OF this ev] show ?thesis by (simp add: on_page_def)
  qed
  ultimately have "visited mb tg el before ns ps p (TyKeep ta tb) (VKeep (Some w) b False) (SKeep (Some sa) sb False) h (h1\<lparr>doc := d2\<rparr>)"
    using a(2) by (simp add: visited_def)
  then show "\<exists>st h'. hydrate mb True (VKeep (Some w) b False) h = Inr (st, h') \<and>
      visited mb tg el before ns ps p (TyKeep ta tb) (VKeep (Some w) b False) st h h'"
    using a(1) b(1) by (simp add: option_state_def [of "hydrate mb True"])
qed

subsection \<open>All views\<close>

lemma hydrates_seq:
  assumes "list_all2 (\<lambda>t v. hydrates mb tg t v (hydrate mb True v) (markup env mb v)) ts vs"
  shows "hydrates mb tg (TyTuple ts) (VTuple vs) (hydrate mb True (VTuple vs)) (seq_markup (markup env mb) vs)"
  unfolding hydrates_def using hydrate_list [OF assms] by fastforce

lemma hydrates_same_type:
  assumes "\<forall>v\<in>set vs. hydrates mb tg t v (hydrate mb True v) (markup env mb v)"
  shows "hydrates mb tg (TyTuple (replicate (length vs) t)) (VTuple vs) (hydrate mb True (VTuple vs)) (seq_markup (markup env mb) vs)"
  using assms by (intro hydrates_seq) (simp add: list_all2_replicate)

lemma next_placeholder_at: "next_placeholder mb h = Inr (n, h') \<Longrightarrow> h'\<lparr>at := NextChild\<rparr> = h'"
  by (auto simp: next_placeholder_def advance_to_placeholder_def Let_def split: if_splits)

fun vec_items :: "vstate \<Rightarrow> vstate list \<times> nat" where
  "vec_items (STuple [STuple sts, SPlace m]) = (sts, m)"
| "vec_items st = ([], 0)"

lemma vec_items_hydrate:
  "vec_hydrate mb (map_state (hydrate mb True) vs) h = and_then
     (and_then (hydrate mb True (VTuple vs) h) (\<lambda>(st, h1). and_then (next_placeholder mb h1) (\<lambda>(n, h2). Inr (STuple [st, SPlace n], h2))))
     (\<lambda>(st, h'). Inr (vec_items st, h'))"
  by (auto simp: vec_hydrate_def and_then_def dest: next_placeholder_at split: sum.splits)

lemma vec_items_ok:
  assumes "st_ok d st (TyTuple [TyTuple (replicate (length vs) t), TyUnit])" "reflects tg d (VTuple [VTuple vs, VUnit]) st"
  obtains sts m where "st = STuple [STuple sts, SPlace m]" "\<forall>st\<in>set sts. st_ok d st t" "is_comment d m"
    "list_all2 (reflects tg d) vs sts"
proof -
  obtain sts m where st: "st = STuple [STuple sts, SPlace m]" "list_all2 (st_ok d) sts (replicate (length vs) t)"
    "is_comment d m" "list_all2 (reflects tg d) vs sts"
    using assms by (auto simp: list_all2_Cons1)
  then show thesis
    using that list_all2_replicate(2) [of "st_ok d" sts t] list_all2_lengthD [OF st(4)] by simp
qed

lemma hydrates_vec:
  assumes "\<forall>v\<in>set vs. hydrates mb tg t v (hydrate mb True v) (markup env mb v)"
  shows "hydrates mb tg (TyVec t) (VVec vs) (hydrate mb True (VVec vs)) (\<lambda>p. vec_markup (seq_markup (markup env mb) vs p))"
    "hydrates mb tg (TyStaticVec t) (VStaticVec vs) (hydrate mb True (VStaticVec vs)) (\<lambda>p. vec_markup (seq_markup (markup env mb) vs p))"
proof -
  note two = hydrates_marker [OF hydrates_same_type [OF assms] not_branch(1)]
  show "hydrates mb tg (TyVec t) (VVec vs) (hydrate mb True (VVec vs)) (\<lambda>p. vec_markup (seq_markup (markup env mb) vs p))"
    unfolding vec_markup_def
  proof (rule hydrates_map [OF two, where f = "\<lambda>h st. case vec_items st of (sts, m) \<Rightarrow> SVec sts m"])
    fix st d assume st: "st_ok d st (TyTuple [TyTuple (replicate (length vs) t), TyUnit])" "reflects tg d (VTuple [VTuple vs, VUnit]) st"
    show "held_nodes (case vec_items st of (sts, m) \<Rightarrow> SVec sts m) = held_nodes st \<and> nodes (case vec_items st of (sts, m) \<Rightarrow> SVec sts m) = nodes st \<and>
        st_ok d (case vec_items st of (sts, m) \<Rightarrow> SVec sts m) (TyVec t) \<and> reflects tg d (VVec vs) (case vec_items st of (sts, m) \<Rightarrow> SVec sts m)"
      by (rule vec_items_ok [OF st]) simp
  qed (auto simp: vec_items_hydrate and_then_def split: sum.splits)
  show "hydrates mb tg (TyStaticVec t) (VStaticVec vs) (hydrate mb True (VStaticVec vs)) (\<lambda>p. vec_markup (seq_markup (markup env mb) vs p))"
    unfolding vec_markup_def
  proof (rule hydrates_map [OF two, where f = "\<lambda>h st. case vec_items st of (sts, m) \<Rightarrow> SStaticVec sts m"])
    fix st d assume st: "st_ok d st (TyTuple [TyTuple (replicate (length vs) t), TyUnit])" "reflects tg d (VTuple [VTuple vs, VUnit]) st"
    show "held_nodes (case vec_items st of (sts, m) \<Rightarrow> SStaticVec sts m) = held_nodes st \<and> nodes (case vec_items st of (sts, m) \<Rightarrow> SStaticVec sts m) = nodes st \<and>
        st_ok d (case vec_items st of (sts, m) \<Rightarrow> SStaticVec sts m) (TyStaticVec t) \<and>
        reflects tg d (VStaticVec vs) (case vec_items st of (sts, m) \<Rightarrow> SStaticVec sts m)"
      by (rule vec_items_ok [OF st]) simp
  qed (auto simp: vec_items_hydrate and_then_def split: sum.splits)
qed

fun any_item :: "vty \<Rightarrow> vstate \<Rightarrow> vstate" where
  "any_item t (STuple [st, SPlace n]) = SAny t st (Some n)"
| "any_item t st = SAny t st None"

lemma hydrates_any:
  assumes "hydrates mb tg t v (hydrate mb True v) (markup env mb v)" "wf_vty t" "has_node t" "has_vty t v"
    and "exists_view v \<or> some_unit v"
  shows "hydrates mb tg TyAny (VAny t v) (hydrate mb True (VAny t v)) (markup env mb (VAny t v))"
proof -
  have ex: "exists_view v = exists_ty t" using exists_view_ty [OF assms(4)] .
  define hy where "hy h = (if exists_view v then and_then (hydrate mb True v h) (\<lambda>(st, h1). Inr (SAny t st None, h1))
    else and_then (hydrate mb True v h) (\<lambda>(st, h1). and_then (next_placeholder mb h1) (\<lambda>(n, h2). Inr (SAny t st (Some n), h2))))" for h
  have "hydrates mb tg TyAny (VAny t v) hy (\<lambda>q. any_markup (exists_view v) (markup env mb v q))"
  proof (cases "exists_view v")
    case True
    then show ?thesis
      using hydrates_map [OF assms(1), of "\<lambda>h st. SAny t st None" TyAny "VAny t v" hy] assms(2,3) ex
      by (simp add: any_markup_def hy_def)
  next
    case False
    then have mk: "any_markup (exists_view v) (markup env mb v q) = (fst (markup env mb v q) @ [PComment ''<() />''], NextChild)" for q
      using unit_position [of v env mb q] assms(5) by (simp add: any_markup_def)
    have "hydrates mb tg TyAny (VAny t v) hy (\<lambda>p. (fst (markup env mb v p) @ [PComment ''<() />''], NextChild))"
    proof (rule hydrates_map [OF hydrates_marker [OF assms(1) not_branch(2)], where f = "\<lambda>h. any_item t"])
      fix st d assume "st_ok d st (TyTuple [t, TyUnit])" "reflects tg d (VTuple [v, VUnit]) st"
      then obtain s n where "st = STuple [s, SPlace n]" "st_ok d s t" "is_comment d n" "reflects tg d v s"
        by (auto simp: list_all2_Cons1)
      then show "held_nodes (any_item t st) = held_nodes st \<and> nodes (any_item t st) = nodes st \<and>
          st_ok d (any_item t st) TyAny \<and> reflects tg d (VAny t v) (any_item t st)"
        using assms(2,3) ex False by simp
    qed (use False in \<open>auto simp: hy_def and_then_def split: sum.splits\<close>)
    then show ?thesis by (simp add: mk)
  qed
  note hydrates_branch [OF this, of "type_label env t"]
  moreover have "branch_markup mb (type_label env t) (\<lambda>q. any_markup (exists_view v) (markup env mb v q)) = markup env mb (VAny t v)"
    by (rule ext) simp
  moreover have "(\<lambda>h. and_then (hy h) (\<lambda>(st, h'). Inr (st, close_branch_marker mb h'))) = hydrate mb True (VAny t v)"
    by (rule ext) (auto simp: any_hydrate_def hy_def and_then_def split: sum.splits)
  ultimately show ?thesis by (simp only:)
qed

lemma hydrates_lists:
  assumes "\<And>v ty. v \<in> set vs \<Longrightarrow> has_vty ty v \<Longrightarrow> wf_vty ty \<Longrightarrow> filled v \<Longrightarrow> hydratable v \<Longrightarrow>
      hydrates mb tg ty v (hydrate mb True v) (markup env mb v)"
    and "list_all2 has_vty ts vs" "list_all wf_vty ts" "list_all filled vs" "list_all hydratable vs"
  shows "list_all2 (\<lambda>t v. hydrates mb tg t v (hydrate mb True v) (markup env mb v)) ts vs"
  using assms(2,1,3-5) by (induction ts vs rule: list_all2_induct) auto

lemma markup_ext:
  "markup env mb (VText s) = text_markup (if s = [] then '' '' else s)" "markup env mb (VPrim e s) = text_markup s"
  "markup env mb VUnit = (\<lambda>p. ([PComment []], NextChild))" "markup env mb (VTuple vs) = seq_markup (markup env mb) vs"
  "markup env mb (VArray vs) = seq_markup (markup env mb) vs"
  "markup env mb (VVec vs) = (\<lambda>p. vec_markup (seq_markup (markup env mb) vs p))"
  "markup env mb (VStaticVec vs) = (\<lambda>p. vec_markup (seq_markup (markup env mb) vs p))"
  "markup env mb (VEither n i v) = branch_markup mb (branch_id n i) (markup env mb v)"
  "markup env mb (VOk v) = markup env mb v"
  "markup env mb (VKeep a (Some w) True) = markup env mb w" "markup env mb (VKeep (Some w) b False) = markup env mb w"
  by (rule ext, simp)+

theorem hydrate_hydrates:
  "has_vty ty v \<Longrightarrow> wf_vty ty \<Longrightarrow> filled v \<Longrightarrow> hydratable v \<Longrightarrow> hydrates mb tg ty v (hydrate mb True v) (markup env mb v)"
proof (induction v arbitrary: ty)
  case (VText s)
  have "hydrate mb True (VText s) = text_hydrate mb True s" by (rule ext) simp
  then show ?case using VText hydrates_text(1) [OF refl] by (simp add: markup_ext)
next
  case (VPrim e s)
  have "hydrate mb True (VPrim e s) = text_hydrate mb True s" by (rule ext) simp
  then show ?case using VPrim hydrates_text(2) [of s s] by (simp add: markup_ext)
next
  case VUnit
  have "hydrate mb True VUnit = unit_hydrate mb" by (rule ext) simp
  then show ?case using VUnit hydrates_unit [OF not_branch(1)] by (simp add: markup_ext)
next
  case (VTuple vs)
  then obtain ts where ts: "ty = TyTuple ts" "list_all2 has_vty ts vs" by (auto split: vty.splits)
  then have "list_all2 (\<lambda>t v. hydrates mb tg t v (hydrate mb True v) (markup env mb v)) ts vs"
    using VTuple by (intro hydrates_lists) auto
  then show ?case using hydrates_seq ts(1) unfolding markup_ext by blast
next
  case (VArray vs)
  then obtain t where t: "ty = TyArray (length vs) t" "list_all (has_vty t) vs" by (auto split: vty.splits)
  have all: "\<forall>v\<in>set vs. hydrates mb tg t v (hydrate mb True v) (markup env mb v)" using VArray t by (auto simp: list_all_iff)
  show ?case
    unfolding markup_ext
  proof (rule hydrates_map [OF hydrates_same_type [OF all], where f = "\<lambda>h st. case st of STuple sts \<Rightarrow> SArray sts"])
    fix st d assume "st_ok d st (TyTuple (replicate (length vs) t))" "reflects tg d (VTuple vs) st"
    then obtain sts where st: "st = STuple sts" "list_all2 (st_ok d) sts (replicate (length vs) t)" "list_all2 (reflects tg d) vs sts" by auto
    then show "held_nodes (case st of STuple sts \<Rightarrow> SArray sts) = held_nodes st \<and> nodes (case st of STuple sts \<Rightarrow> SArray sts) = nodes st \<and>
        st_ok d (case st of STuple sts \<Rightarrow> SArray sts) ty \<and> reflects tg d (VArray vs) (case st of STuple sts \<Rightarrow> SArray sts)"
      using list_all2_lengthD [OF st(3)] list_all2_replicate(2) [of "st_ok d" sts t] t(1) by simp
  qed (auto simp: and_then_def split: sum.splits)
next
  case (VVec vs)
  then obtain t where t: "ty = TyVec t" "list_all (has_vty t) vs" by (auto split: vty.splits)
  then have "\<forall>v\<in>set vs. hydrates mb tg t v (hydrate mb True v) (markup env mb v)" using VVec by (auto simp: list_all_iff)
  then show ?case using hydrates_vec(1) t(1) unfolding markup_ext by blast
next
  case (VStaticVec vs)
  then obtain t where t: "ty = TyStaticVec t" "list_all (has_vty t) vs" by (auto split: vty.splits)
  then have "\<forall>v\<in>set vs. hydrates mb tg t v (hydrate mb True v) (markup env mb v)" using VStaticVec by (auto simp: list_all_iff)
  then show ?case using hydrates_vec(2) t(1) unfolding markup_ext by blast
next
  case (VEither n i v)
  then obtain ts where ts: "ty = TyEither ts" "i < length ts" "has_vty (ts ! i) v" by (auto split: vty.splits)
  then have "hydrates mb tg (ts ! i) v (hydrate mb True v) (markup env mb v)" using VEither by (simp add: list_all_length)
  then show ?case
    unfolding markup_ext
    by (rule hydrates_map [OF hydrates_branch, where f = "\<lambda>h. SEither i"]) (use ts in \<open>auto simp: and_then_def split: sum.splits\<close>)
next
  case (VOk v)
  then obtain t where t: "ty = TyResult t" "hydrates mb tg t v (hydrate mb True v) (markup env mb v)" by (auto split: vty.splits)
  show ?case
    unfolding markup_ext
    by (rule hydrates_map [OF t(2), where f = "\<lambda>h st. SResult True st None (hook (errors (doc h)))"])
      (use t(1) in \<open>auto simp: and_then_def split: sum.splits\<close>)
next
  case (VAny t v)
  then have "hydrates mb tg t v (hydrate mb True v) (markup env mb v)" "wf_vty t" "has_node t" "has_vty t v"
    "exists_view v \<or> some_unit v" "ty = TyAny" by auto
  then show ?case using hydrates_any by blast
next
  case (VKeep a b show_b)
  then obtain ta tb where ty: "ty = TyKeep ta tb" by (auto split: vty.splits)
  show ?case
  proof (cases show_b)
    case True
    then obtain w where w: "b = Some w" "hydratable w" using VKeep(6) by (auto split: option.splits)
    have "hydrates mb tg tb w (hydrate mb True w) (markup env mb w)" "\<And>v. a = Some v \<Longrightarrow> builds tg ta v"
      using VKeep ty w build_builds by auto
    from hydrates_keep_b [OF this] show ?thesis using ty w(1) True by (simp only: markup_ext)
  next
    case False
    then obtain w where w: "a = Some w" "hydratable w" using VKeep(6) by (auto split: option.splits)
    have "hydrates mb tg ta w (hydrate mb True w) (markup env mb w)" "\<And>v. b = Some v \<Longrightarrow> builds tg tb v"
      using VKeep ty w build_builds by auto
    from hydrates_keep_a [OF this] show ?thesis using ty w(1) False by (simp only: markup_ext)
  qed
next
  case (VElem et tag xs v)
  then obtain ats t where ty: "ty = TyElem et ats t" by (auto split: vty.splits)
  then have "hydrates mb tg t v (hydrate mb True v) (markup env mb v)" "attrs_typed ats" using VElem by auto
  moreover have "if SELF_CLOSING et then \<not> exists_view v else ESCAPE_CHILDREN et \<and> HYDRATES_CHILDREN et"
    using VElem(5) unfolding hydratable.simps by blast
  ultimately show ?case using hydrates_element VElem(2) unfolding ty by blast
qed simp

end
