(* ===== verification/View_Props.thy ===== *)
theory View_Props
  imports View_Hydrate
begin

text \<open>What the views promise: what an application shows in the browser, after any updates.\<close>

subsection \<open>Sequences of updates\<close>

fun rebuild_all :: "(string \<Rightarrow> string) \<Rightarrow> view list \<Rightarrow> vstate \<Rightarrow> dom \<Rightarrow> (vstate \<times> dom) result" where
  "rebuild_all tg [] st d = Inr (st, d)"
| "rebuild_all tg (v # vs) st d = and_then (rebuild tg v st d) (\<lambda>(st', d'). rebuild_all tg vs st' d')"

text \<open>Documents and views for the examples: a page with an empty body, and one with a rendered text.\<close>

definition empty_page :: dom where
  "empty_page = \<lparr>content = [0 \<mapsto> NElem ''body'' []], kids = (\<lambda>n. []), parent = (\<lambda>n. None), next_node = 1,
     errors = \<lparr>hook = None, shown = [], next_error = 0\<rparr>\<rparr>"

definition greeting_page :: dom where
  "greeting_page = \<lparr>content = [0 \<mapsto> NElem ''body'' [], 1 \<mapsto> NText ''a'', 2 \<mapsto> NComment [], 3 \<mapsto> NText ''b''],
     kids = (\<lambda>n. []) (0 := [1, 2, 3]), parent = [1 \<mapsto> 0, 2 \<mapsto> 0, 3 \<mapsto> 0], next_node = 4,
     errors = \<lparr>hook = None, shown = [], next_error = 0\<rparr>\<rparr>"

definition plain_env :: html_env where
  "plain_env = \<lparr>encode_text = (\<lambda>s. s), encode_attr = (\<lambda>s. s), type_label = (\<lambda>t. ''T'')\<rparr>"

definition list_item :: etype where
  "list_item = \<lparr>TAG = ''li'', SELF_CLOSING = False, ESCAPE_CHILDREN = True, HYDRATES_CHILDREN = True\<rparr>"

abbreviation greeting :: "string \<Rightarrow> view option \<Rightarrow> view" where
  "greeting s v \<equiv> VTuple [VText s, VOption v]"

abbreviation greeting_ty :: vty where
  "greeting_ty \<equiv> TyTuple [TyText, TyEither [TyText, TyUnit]]"

abbreviation item_view :: "string \<Rightarrow> view" where
  "item_view s \<equiv> VElem list_item ''li'' [Class (CStr s)] (VText s)"

abbreviation items_ty :: vty where
  "items_ty \<equiv> TyVec (TyElem list_item [TClass CtStr] TyText)"

lemma empty_page_ok: "doc_ok empty_page" "is_elem empty_page 0"
  by (auto simp: empty_page_def doc_ok_def is_elem_def)

lemma greeting_page_ok: "doc_ok greeting_page" "is_elem greeting_page 0"
  by (auto simp: greeting_page_def doc_ok_def is_elem_def)

definition views_of :: "vty \<Rightarrow> view list \<Rightarrow> bool" where
  "views_of ty vs \<longleftrightarrow> wf_vty ty \<and> (\<forall>v\<in>set vs. has_vty ty v \<and> filled v)"

lemma rebuild_all_redone:
  assumes "views_of ty vs" "loc \<noteq> None" "fits d loc ty st" "reflects tg d v st"
  shows "\<exists>st' d'. rebuild_all tg vs st d = Inr (st', d') \<and> redone tg d d' loc ty (last (v # vs)) st st'"
  using assms
proof (induction vs arbitrary: v st d)
  case Nil
  then show ?case by (auto simp: redone_def)
next
  case (Cons w vs)
  have "rebuilds tg ty w" using Cons(2) rebuild_rebuilds by (auto simp: views_of_def)
  then obtain st1 d1 where one: "rebuild tg w st d = Inr (st1, d1)" "redone tg d d1 loc ty w st st1"
    using rebuildsD [OF _ Cons(4)] Cons(3) by blast
  note r = redoneD [OF one(2)]
  obtain st2 d2 where two: "rebuild_all tg vs st1 d1 = Inr (st2, d2)" "redone tg d1 d2 loc ty (last (w # vs)) st1 st2"
    using Cons(1) [OF _ Cons(3) r(1,2)] Cons(2) by (auto simp: views_of_def)
  note q = redoneD [OF two(2)]
  have "dom_evolves d d2 (set (held_nodes st)) (loc_parent loc)" using dom_evolves_trans [OF r(3) q(3)] r(4) by fastforce
  moreover have "set (held_nodes st2) \<subseteq> set (held_nodes st) \<union> {next_node d..<next_node d2}" using q(4,5) r(4,5) by fastforce
  ultimately show ?case using one(1) two(1) q(1,2) by (auto simp: redone_def)
qed

lemma mount_to_fits:
  assumes "has_vty ty v" "wf_vty ty" "filled v" "doc_ok d" "is_elem d p"
  shows "\<exists>st d'. mount_to p v d = Inr (st, d') \<and> fits d' (Some (p, kids d p, [])) ty st \<and> reflects tg d' v st \<and>
    dom_evolves d d' {} {p} \<and> set (held_nodes st) \<subseteq> {next_node d..}"
proof -
  obtain st d1 where st: "build v d = Inr (st, d1)" "made tg d d1 ty v st"
    using buildsE [OF build_builds [OF assms(1-3)] assms(4)] .
  have fits: "fits d1 None ty st" and ev: "dom_evolves d d1 {} {}" and new: "set (held_nodes st) \<subseteq> {next_node d..<next_node d1}"
    and refl: "reflects tg d1 v st" using st(2) by (simp_all add: made_def)
  have p: "p < next_node d" using elem_exists [OF assms(4,5)] .
  then have k: "kids d1 p = kids d p" "is_elem d1 p" "p < next_node d1" "p \<notin> set (held_nodes st)"
    using ev assms(5) new by (auto simp: dom_evolves_def is_elem_def)
  let ?d = "with_kids p (kids d p @ nodes st) (nodes st) (Some p) d1"
  have "insert_all p None (nodes st) d1 = with_kids p (kids d1 p @ nodes st) (nodes st) (Some p) d1 \<and>
      doc_ok (insert_all p None (nodes st) d1)"
    using fitsD [OF fits] distinct_nodes nodes_owned [of st] by (intro insert_all_end k(3)) auto
  then have "insert_all p None (nodes st) d1 = ?d" "doc_ok ?d" by (auto simp: k(1))
  then have m: "mount p None st d1 = Inr ?d" "doc_ok ?d"
    using mount_nodes [OF st_ok_complete [OF fitsD(2) [OF fits]]] by auto
  have "st_ok ?d st ty" using st_ok_moved [OF same_inside_mounted [OF k(4)] fitsD(3,2) [OF fits]] .
  then have "fits ?d (Some (p, kids d p, [])) ty st"
    using m(2) fitsD [OF fits] k by (auto simp: fits_def children_ok_def)
  moreover have "reflects tg ?d v st" using refl by (rule reflects_content [rotated]) simp
  moreover have "dom_evolves d ?d {} {p}" using ev new nodes_owned [of st] by (auto simp: dom_evolves_def)
  ultimately show ?thesis using st(1) m(1) new by (auto simp: mount_to_def)
qed

lemma fits_depicts:
  assumes "fits d (Some (p, pre, [])) ty st" "reflects tg d v st" "has_vty ty v" "filled v"
  shows "visible d (kids d p) = visible d pre @ visible d (nodes st)"
    "list_all2 (depicts tg d) (picture ty v) (visible d (nodes st))"
  using children_visible [of d p "pre @ nodes st"] fitsD [OF assms(1)] state_shows [OF _ _ assms(2-4)] by auto

lemma hydrate_from_fits:
  assumes "has_vty ty v" "wf_vty ty" "filled v" "hydratable v" "doc_ok d" "is_elem d el"
    and "list_all2 (page_at d) (fst (markup env mb v FirstChild)) (kids d el)"
    and "distinct (el # all_nodes d (fst (markup env mb v FirstChild)) (kids d el))"
  shows "\<exists>st d'. hydrate_from mb True v el d = Inr (st, d') \<and> fits d' (Some (el, [], [])) ty st \<and> reflects tg d' v st"
proof -
  let ?h = "\<lparr>cursor = el, at = FirstChild, doc = d\<rparr>"
  obtain ps p where m: "markup env mb v (at ?h) = (ps, p)" by fastforce
  have "on_page mb el [] (kids d el) [] ps ?h"
    using assms(5-8) m by (simp add: on_page_def cursor_at_def skipped_def)
  from hydratesD [OF hydrate_hydrates [OF assms(1-4), of mb tg] m this] obtain st h where
    st: "hydrate mb True v ?h = Inr (st, h)" "found tg d (doc h) ty v st ps (kids d el)" by (auto simp: visited_def)
  note f = foundD [OF st(2)]
  have el: "el < next_node d" using elem_exists [OF assms(5,6)] .
  then have k: "kids (doc h) el = kids d el" "is_elem (doc h) el" using f(2) assms(6) by (auto simp: dom_evolves_def is_elem_def)
  have "el \<notin> set (held_nodes st)" using f(6) el assms(8) m by auto
  moreover have "\<forall>n\<in>set (held_nodes st). n < next_node (doc h)"
    using f(6) all_exist [OF assms(5,7)] m dom_evolves_next [OF f(2)] by fastforce
  moreover have "children_ok (doc h) el (nodes st)" using f(7,8) k(1) by (auto simp: children_ok_def)
  ultimately have "fits (doc h) (Some (el, [], [])) ty st" using f k by (auto simp: fits_def)
  then show ?thesis using st(1) f(4) by (simp add: hydrate_from_def)
qed

subsection \<open>Properties\<close>

text \<open>
  C2. An application that is mounted in the browser shows its last view: after building a view at the
  end of an element of a well-formed document and rebuilding it with any sequence of views of the same
  type, nothing has panicked, the element shows what it showed before and then exactly the picture of
  the last view, and no other node of the document has changed.

  It holds for the types with \<open>wf_vty\<close>: the attributes of an element do not overlap (no name and no
  class twice, a class string excludes every other class), the class
  of a toggle is one word, every alternative of an \<^verbatim>\<open>Either\<close>, \<^verbatim>\<open>Option\<close>, \<^verbatim>\<open>Result\<close>, \<^verbatim>\<open>AnyView\<close> or
  \<^verbatim>\<open>EitherKeepAlive\<close> has a node (no empty arrays and tuples there), and there is no \<^verbatim>\<open>StaticVec\<close> and no
  \<^verbatim>\<open>AnyView\<close> in an \<^verbatim>\<open>EitherKeepAlive\<close> (\<open>View_Limits\<close> has what happens otherwise); and for views that are
  \<open>filled\<close>: the side of an \<^verbatim>\<open>EitherKeepAlive\<close> that is shown is given. A number that is zero is shown up
  to its sign, since the two zeros are equal, and an empty text may be shown as a space.
\<close>

theorem app_shows_last_view:
  assumes "wf_vty ty" "\<forall>w\<in>set (v # vs). has_vty ty w \<and> filled w" "doc_ok d" "is_elem d p"
  shows "\<exists>st d' ns. and_then (mount_to p v d) (\<lambda>(st, d1). rebuild_all tg vs st d1) = Inr (st, d') \<and>
    visible d' (kids d' p) = visible d (kids d p) @ ns \<and>
    list_all2 (depicts tg d') (picture ty (last (v # vs))) ns \<and>
    (\<forall>n<next_node d. content d' n = content d n \<and> parent d' n = parent d n \<and> (n \<noteq> p \<longrightarrow> kids d' n = kids d n))"
proof -
  have ty: "has_vty ty v" "wf_vty ty" "filled v" "views_of ty vs" using assms(1,2) by (auto simp: views_of_def)
  let ?loc = "Some (p, kids d p, [])"
  obtain st d1 where st: "mount_to p v d = Inr (st, d1)" "fits d1 ?loc ty st" "reflects tg d1 v st" "dom_evolves d d1 {} {p}"
    "set (held_nodes st) \<subseteq> {next_node d..}"
    using mount_to_fits [OF ty(1-3) assms(3,4)] by blast
  obtain st' d' where st': "rebuild_all tg vs st d1 = Inr (st', d')" "redone tg d1 d' ?loc ty (last (v # vs)) st st'"
    using rebuild_all_redone [OF ty(4) _ st(2,3)] by blast
  note r = redoneD [OF st'(2)]
  have ev: "dom_evolves d d' {} {p}" using dom_evolves_trans [OF st(4)] r(3) st(5) by auto
  have last: "has_vty ty (last (v # vs))" "filled (last (v # vs))" using assms(2) by auto
  have "visible d' (kids d p) = visible d (kids d p)"
  proof -
    have "n < next_node d" if "n \<in> set (kids d p)" for n
      using that doc_okD(1) [OF assms(3), of n p] doc_okD(3) [OF assms(3), of n] by (force simp: not_less [symmetric])
    then have "is_comment d' n = is_comment d n" if "n \<in> set (kids d p)" for n
      using ev that by (simp add: dom_evolves_def is_comment_def)
    then show ?thesis unfolding visible_def by (intro filter_cong) auto
  qed
  then have "visible d' (kids d' p) = visible d (kids d p) @ visible d' (nodes st')"
    using fits_depicts(1) [OF r(1,2) last] by simp
  then show ?thesis using st(1) st'(1) ev fits_depicts(2) [OF r(1,2) last] by (auto simp: dom_evolves_def)
qed

theorem app_shows_last_view_witness:
  "\<exists>st d' ns. and_then (mount_to 0 (VVec [item_view ''a'']) empty_page)
       (\<lambda>(st, d1). rebuild_all id [VVec [], VVec [item_view ''b'', item_view ''c'']] st d1) = Inr (st, d') \<and>
     visible d' (kids d' 0) = visible empty_page (kids empty_page 0) @ ns \<and>
     list_all2 (depicts id d') (picture items_ty (VVec [item_view ''b'', item_view ''c''])) ns"
proof -
  have "wf_vty items_ty"
    "\<forall>w\<in>set (VVec [item_view ''a''] # [VVec [], VVec [item_view ''b'', item_view ''c'']]). has_vty items_ty w \<and> filled w"
    by (simp_all add: attrs_typed_def list_item_def)
  from app_shows_last_view [OF this empty_page_ok, of id] show ?thesis by auto
qed

text \<open>
  C3. An application that was rendered on the server shows its last view: if the children of an element
  are the page of a view, with or without branch markers, then hydrating the view finds every node,
  and after any sequence of updates the element shows exactly the picture of the last view.

  It holds for the types and views of C2, if the view that is hydrated is \<open>hydratable\<close>: it has no
  error (\<open>View_Limits\<close> has the panic of a text after one), no printed value is empty, no \<^verbatim>\<open>AnyView\<close>
  holds an empty tuple, self-closing elements have no children and other elements escape and hydrate
  theirs. That the browser has made the page of the view from the HTML is a hypothesis.
\<close>

theorem hydrated_app_shows_last_view:
  assumes "wf_vty ty" "\<forall>w\<in>set (v # vs). has_vty ty w \<and> filled w" "hydratable v" "doc_ok d" "is_elem d el"
    and "list_all2 (page_at d) (fst (markup env mb v FirstChild)) (kids d el)"
    and "distinct (el # all_nodes d (fst (markup env mb v FirstChild)) (kids d el))"
  shows "\<exists>st d'. and_then (hydrate_from mb True v el d) (\<lambda>(st, d1). rebuild_all tg vs st d1) = Inr (st, d') \<and>
    list_all2 (depicts tg d') (picture ty (last (v # vs))) (visible d' (kids d' el))"
proof -
  have ty: "has_vty ty v" "wf_vty ty" "filled v" "views_of ty vs" using assms(1,2) by (auto simp: views_of_def)
  obtain st d1 where st: "hydrate_from mb True v el d = Inr (st, d1)" "fits d1 (Some (el, [], [])) ty st" "reflects tg d1 v st"
    using hydrate_from_fits [OF ty(1-3) assms(3-7)] by blast
  obtain st' d' where st': "rebuild_all tg vs st d1 = Inr (st', d')" "redone tg d1 d' (Some (el, [], [])) ty (last (v # vs)) st st'"
    using rebuild_all_redone [OF ty(4) _ st(2,3)] by blast
  note r = redoneD [OF st'(2)]
  have last: "has_vty ty (last (v # vs))" "filled (last (v # vs))" using assms(2) by auto
  show ?thesis using fits_depicts [OF r(1,2) last] st(1) st'(1) by simp
qed

theorem hydrated_app_shows_last_view_witness:
  "\<exists>st d'. and_then (hydrate_from False True (greeting ''a'' (Some (VText ''b''))) 0 greeting_page)
       (\<lambda>(st, d1). rebuild_all id [greeting ''a'' None, greeting ''c'' (Some (VText ''d''))] st d1) = Inr (st, d') \<and>
     list_all2 (depicts id d') (picture greeting_ty (greeting ''c'' (Some (VText ''d'')))) (visible d' (kids d' 0))"
proof -
  let ?v = "greeting ''a'' (Some (VText ''b''))" let ?ps = "fst (markup plain_env False ?v FirstChild)"
  have ty: "wf_vty greeting_ty"
    "\<forall>w\<in>set (?v # [greeting ''a'' None, greeting ''c'' (Some (VText ''d''))]). has_vty greeting_ty w \<and> filled w" "hydratable ?v"
    by (simp_all add: VOption_def)
  have "list_all2 (page_at greeting_page) ?ps (kids greeting_page 0)" "distinct (0 # all_nodes greeting_page ?ps (kids greeting_page 0))"
    by (simp_all add: greeting_page_def VOption_def branch_markup_def text_markup_def)
  from hydrated_app_shows_last_view [OF ty greeting_page_ok this, of id] show ?thesis by auto
qed

text \<open>
  C26. The HTML of a view, with and without branch markers, is exactly its page written down, without a
  panic and without a new error, and in the page no text is empty and no two texts are next to each
  other. (A parser of HTML is not modelled.) It holds for views that are \<open>hydratable\<close> as in C3, if
  escaping does not change the values that are printed without being escaped (\<open>plain_prims\<close>: numbers and
  addresses) nor a space.
\<close>

theorem rendered_page_keeps_texts_apart:
  assumes "hydratable v" "plain_prims env v" "encode_text env '' '' = '' ''"
  shows "view_to_html env v s = Inr (concat (map (write_page env) (fst (markup env False v FirstChild))), s) \<and>
    to_html_branching env v s = Inr (concat (map (write_page env) (fst (markup env True v FirstChild))), s) \<and>
    texts_apart False (fst (markup env mb v FirstChild))"
  using to_html_writes_markup [OF assms] markup_texts_apart [OF assms(1), of FirstChild]
  by (simp add: view_to_html_def to_html_branching_def new_out_def wrote_def)

theorem rendered_page_keeps_texts_apart_witness:
  "view_to_html plain_env (greeting ''a'' (Some (VText ''b''))) (errors empty_page) = Inr (''a<!>b'', errors empty_page) \<and>
   to_html_branching plain_env (greeting ''a'' None) (errors empty_page) = Inr (''a<!--bo-1--><!><!--bc-1-->'', errors empty_page)"
  using rendered_page_keeps_texts_apart [of "greeting ''a'' (Some (VText ''b''))" plain_env "errors empty_page"]
    rendered_page_keeps_texts_apart [of "greeting ''a'' None" plain_env "errors empty_page"]
  by (simp add: plain_env_def VOption_def branch_markup_def text_markup_def branch_id_def)

text \<open>
  C27. Types of views are kept: for a type and a view as in C2, a rebuild of a state that fits the
  document does not panic, and the new state has the type of the view and fits the document, at the
  same place. A state that is not in the document (\<open>loc = None\<close>) is covered only for types without
  \<^verbatim>\<open>StaticVec\<close> and \<^verbatim>\<open>AnyView\<close> (\<open>movable\<close>): a \<^verbatim>\<open>StaticVec\<close> that grows there panics.
\<close>

theorem rebuild_keeps_type:
  assumes "has_vty ty v" "wf_vty ty" "filled v" "fits d loc ty st" "loc = None \<Longrightarrow> movable ty"
  shows "\<exists>st' d'. rebuild tg v st d = Inr (st', d') \<and> st_ok d' st' ty \<and> fits d' loc ty st'"
  using rebuildsD [OF rebuild_rebuilds [OF assms(1-3)] assms(4,5)] redoneD(1) fitsD(2) by blast

theorem rebuild_keeps_type_witness:
  "\<exists>st' d'. rebuild id (VText ''c'') (SText 1 ''a'') greeting_page = Inr (st', d') \<and> st_ok d' st' TyText \<and>
     fits d' (Some (0, [], [3])) TyText st'"
  by (rule rebuild_keeps_type [OF _ _ _ _])
    (auto simp: fits_def greeting_page_ok children_ok_def, auto simp: greeting_page_def text_at_def is_comment_def)

end
