(* ===== verification/View_Limits.thy ===== *)
theory View_Limits
  imports View_Props
begin

text \<open>
  What the conditions of \<open>View_Props\<close> exclude: views whose page cannot be hydrated, classes that get
  lost, and a hidden list that panics when it grows.
\<close>

text \<open>The document of the page \<^verbatim>\<open>a<!><!>b\<close>.\<close>

definition error_page :: dom where
  "error_page = \<lparr>content = [0 \<mapsto> NElem ''body'' [], 1 \<mapsto> NText ''a'', 2 \<mapsto> NComment [], 3 \<mapsto> NComment [], 4 \<mapsto> NText ''b''],
     kids = (\<lambda>n. []) (0 := [1, 2, 3, 4]), parent = [1 \<mapsto> 0, 2 \<mapsto> 0, 3 \<mapsto> 0, 4 \<mapsto> 0], next_node = 5,
     errors = \<lparr>hook = None, shown = [], next_error = 0\<rparr>\<rparr>"

text \<open>
  C37. A text, an error and a text are rendered with one marker more than hydration expects, since the
  marker of an error leaves the position after the first text: whatever the texts and the error, in
  every document where the children of an element are the page that the server has rendered for this
  view, hydrating the view panics, with and without branch markers.
\<close>

theorem text_after_error_panics:
  assumes "doc_ok d" "list_all2 (page_at d) (fst (markup env mb (VTuple [VText a, VErr e, VText b]) FirstChild)) (kids d el)"
    and "encode_text env '' '' = '' ''"
  shows "(\<exists>s'. view_to_html env (VTuple [VText a, VErr e, VText b]) s =
      Inr (concat (map (write_page env) (fst (markup env mb (VTuple [VText a, VErr e, VText b]) FirstChild))), s')) \<and>
    hydrate_from mb True (VTuple [VText a, VErr e, VText b]) el d = Inl Panic"
proof -
  obtain k l m n where kids: "kids d el = [k, l, m, n]" and c: "\<exists>s. content d k = Some (NText s)"
    "content d l = Some (NComment [])" "content d m = Some (NComment [])"
    using assms(2) by (auto simp: text_markup_def list_all2_Cons1)
  have "distinct [k, l, m, n]" using doc_okD(2) [OF assms(1), of el] kids by simp
  moreover have "parent d x = Some el" if "x \<in> {k, l, m, n}" for x using that doc_okD(1) [OF assms(1), of x el] kids by simp
  ultimately have "hydrate_from mb True (VTuple [VText a, VErr e, VText b]) el d = Inl Panic"
    using kids c
    by (cases mb) (auto simp: hydrate_from_def text_hydrate_def err_hydrate_def unit_hydrate_def next_placeholder_def
        advance_to_placeholder_def cursor_child_def cursor_sibling_def settle_def following_def first_child_def
        next_sibling_def is_text_def is_comment_def is_branch_def throw_error_def Let_def split: option.splits)
  moreover have "\<exists>s'. view_to_html env (VTuple [VText a, VErr e, VText b]) s =
      Inr (concat (map (write_page env) (fst (markup env mb (VTuple [VText a, VErr e, VText b]) FirstChild))), s')"
    using assms(3) by (auto simp: view_to_html_def text_to_html_def err_to_html_def push_def new_out_def HYDRATE_def
        text_markup_def Let_def)
  ultimately show ?thesis by blast
qed

theorem text_after_error_panics_witness:
  "(\<exists>s'. view_to_html plain_env (VTuple [VText ''a'', VErr ''e'', VText ''b'']) (errors error_page) = Inr (''a<!><!>b'', s')) \<and>
   hydrate_from False True (VTuple [VText ''a'', VErr ''e'', VText ''b'']) 0 error_page = Inl Panic"
proof -
  let ?v = "VTuple [VText ''a'', VErr ''e'', VText ''b'']"
  have "doc_ok error_page" by (auto simp: error_page_def doc_ok_def)
  moreover have "list_all2 (page_at error_page) (fst (markup plain_env False ?v FirstChild)) (kids error_page 0)"
    by (simp add: error_page_def text_markup_def)
  ultimately show ?thesis
    using text_after_error_panics [of error_page plain_env False "''a''" "''e''" "''b''" 0 "errors error_page"]
    by (simp add: plain_env_def text_markup_def)
qed

text \<open>
  The sign of a zero is not updated: a number is compared with the previous one before its text is
  set, and the two zeros are equal, so that a text that shows \<^verbatim>\<open>0\<close> still does after a rebuild with
  negative zero, while the same view built from scratch shows \<^verbatim>\<open>-0\<close>.
\<close>

theorem sign_of_zero_not_shown:
  assumes "content d n = Some (NText ''0'')"
  shows "\<exists>d'. rebuild tg (VPrim e ''-0'') (SText n ''0'') d = Inr (SText n ''0'', d') \<and> content d' n = Some (NText ''0'')" (is ?old)
    and "\<exists>m d'. build (VPrim e ''-0'') d = Inr (SText m ''-0'', d') \<and> content d' m = Some (NText ''-0'')" (is ?new)
proof -
  show ?old using assms by (simp add: prim_rebuild_def prim_changed_def prim_same_def doubleton_eq_iff)
  show ?new by (simp add: text_build_def create_text_node_def add_node_def)
qed

text \<open>
  Changing the string of a \<^verbatim>\<open>class\<close> attribute removes the classes of the toggles of the same
  element, although they are still on: the element keeps the new string alone, while the same view
  built from scratch has the class of the toggle as well.
\<close>

theorem class_string_drops_toggles:
  assumes "content d el = Some (NElem tag [])" "s \<noteq> s'" "is_token c" "c \<notin> set (class_tokens s')"
  shows "\<exists>sts sts' d1 d2. attrs_build el [Class (CStr s), Class (CToggle c True)] d = (sts, d1) \<and>
     attrs_rebuild [Class (CStr s'), Class (CToggle c True)] sts d1 = Inr (sts', d2) \<and>
     c \<notin> set (class_list d2 el) \<and>
     c \<in> set (class_list (snd (attrs_build el [Class (CStr s'), Class (CToggle c True)] d)) el)"
proof -
  have "class_tokens (join_tokens (index_insert c (class_tokens s'))) = index_insert c (class_tokens s')"
    using assms(3) class_tokens_ok by (intro class_tokens_join) (auto simp: index_insert_def)
  then show ?thesis using assms
    by (auto simp: set_attribute_def add_class_def class_list_def get_attribute_def toggle_rebuild_def index_insert_def)
qed

theorem class_string_drops_toggles_witness:
  "\<exists>sts sts' d1 d2. attrs_build 0 [Class (CStr ''a''), Class (CToggle ''on'' True)] empty_page = (sts, d1) \<and>
     attrs_rebuild [Class (CStr ''b''), Class (CToggle ''on'' True)] sts d1 = Inr (sts', d2) \<and>
     ''on'' \<notin> set (class_list d2 0) \<and>
     ''on'' \<in> set (class_list (snd (attrs_build 0 [Class (CStr ''b''), Class (CToggle ''on'' True)] empty_page)) 0)"
  by (rule class_string_drops_toggles [where tag = "''body''"])
    (simp_all add: empty_page_def is_token_def is_space_def class_tokens_def)

text \<open>
  A \<^verbatim>\<open>StaticVec\<close> in the hidden side of an \<^verbatim>\<open>EitherKeepAlive\<close> panics when it is rebuilt with more
  items: its marker has no parent to mount them into. The same view with a \<^verbatim>\<open>Vec\<close> is rebuilt.
\<close>

theorem hidden_static_vec_panics:
  "and_then (mount_to 0 (VKeep (Some (VStaticVec [])) (Some (VText ''b'')) True) empty_page)
     (\<lambda>(st, d). rebuild tg (VKeep (Some (VStaticVec [VText ''a''])) None True) st d) = Inl Panic \<and>
   (\<exists>r. and_then (mount_to 0 (VKeep (Some (VVec [])) (Some (VText ''b'')) True) empty_page)
     (\<lambda>(st, d). rebuild tg (VKeep (Some (VVec [VText ''a''])) None True) st d) = Inr r)"
  by (simp add: mount_to_def option_state_def vec_build_def text_build_def create_placeholder_def create_text_node_def
      add_node_def insert_node_def try_insert_node_def remove_node_def keep_rebuild_def keep_side_def vec_rebuild_def
      mount_before_def try_mount_before_def parent_element_def empty_page_def Let_def)

end
