(* ===== verification/Actions.thy ===== *)
theory Actions
  imports Leptos_Prelude
begin

text \<open>
  Actions (\<^verbatim>\<open>src/reactive_graph/src/actions/action.rs\<close>, \<^verbatim>\<open>multi_action.rs\<close>): asynchronous functions that
  are dispatched with an input and publish their result.

  A dispatched task runs on an executor, so that dispatching, aborting and the end of tasks
  interleave in any order: they are the events of a step relation. What a future computes is not
  known to the action; the end of a task carries the result. A task runs up to its next
  \<^verbatim>\<open>await\<close> without interruption, as on the one thread of a browser. Counters are natural numbers. Signals
  are their values: who is notified is shown in the theories on the reactive graph.
\<close>

subsection \<open>Runs of a system of events\<close>

inductive runs :: "('s \<Rightarrow> 'e \<Rightarrow> 's \<Rightarrow> bool) \<Rightarrow> 's \<Rightarrow> 'e list \<Rightarrow> 's \<Rightarrow> bool" for step s where
  runs_none: "runs step s [] s"
| runs_step: "runs step s es t \<Longrightarrow> step t e u \<Longrightarrow> runs step s (es @ [e]) u"

lemma runs_cons: "step s e t \<Longrightarrow> runs step t es u \<Longrightarrow> runs step s (e # es) u"
proof (rotate_tac, induction es u rule: runs.induct)
  case runs_none
  then show ?case using runs.runs_step [OF runs.runs_none, of step s e t] by simp
next
  case (runs_step es t' e' u)
  then show ?case using runs.runs_step [of step s "e # es" t' e' u] by simp
qed

text \<open>A relation between the history of events and the state that every step keeps.\<close>

locale tracked_system =
  fixes step :: "'s \<Rightarrow> 'e \<Rightarrow> 's \<Rightarrow> bool" and start :: 's and tracks :: "'e list \<Rightarrow> 's \<Rightarrow> bool"
  assumes tracks_start: "tracks [] start"
    and tracks_step: "tracks es s \<Longrightarrow> step s e s' \<Longrightarrow> tracks (es @ [e]) s'"
begin

lemma tracked: "runs step start es s \<Longrightarrow> tracks es s"
  by (induction rule: runs.induct) (auto intro: tracks_start tracks_step)

end

subsection \<open>Actions\<close>

text \<open>
  A task has its input, the number of its dispatch, whether the abort message was sent, and whether
  it still runs. An action that is dispatched while resources are suppressed has a handle without a
  task.
\<close>

record 'i action_task =
  argument :: 'i
  current_version :: nat
  abort_sent :: bool
  running :: bool

record ('i, 'o) arc_action =
  in_flight :: nat
  act_input :: "'i option"
  act_value :: "'o option"
  act_version :: nat
  dispatched :: nat
  tasks :: "'i action_task list"

definition new_action :: "'o option \<Rightarrow> ('i, 'o) arc_action" where
  "new_action v = \<lparr>in_flight = 0, act_input = None, act_value = v, act_version = 0, dispatched = 0, tasks = []\<rparr>"

definition dispatch_action :: "bool \<Rightarrow> 'i \<Rightarrow> ('i, 'o) arc_action \<Rightarrow> ('i, 'o) arc_action" where
  "dispatch_action suppressing i a =
     (if suppressing then a
      else let a1 = a\<lparr>in_flight := in_flight a + 1\<rparr>; a2 = a1\<lparr>dispatched := dispatched a1 + 1\<rparr> in
        a2\<lparr>act_input := Some i,
           tasks := tasks a2 @ [\<lparr>argument = i, current_version = dispatched a2, abort_sent = False, running = True\<rparr>]\<rparr>)"

definition clear_action :: "('i, 'o) arc_action \<Rightarrow> ('i, 'o) arc_action" where
  "clear_action a = a\<lparr>act_value := None\<rparr>"

text \<open>The message is lost if the task has ended.\<close>

definition abort_action :: "nat \<Rightarrow> ('i, 'o) arc_action \<Rightarrow> ('i, 'o) arc_action" where
  "abort_action k a = (let t = tasks a ! k in
     if running t then a\<lparr>tasks := (tasks a)[k := t\<lparr>abort_sent := True\<rparr>]\<rparr> else a)"

text \<open>The rest of the task after \<^verbatim>\<open>select!\<close>, which takes any branch that is ready.\<close>

definition task_done :: "nat \<Rightarrow> ('i, 'o) arc_action \<Rightarrow> ('i, 'o) arc_action" where
  "task_done k a = (let a1 = a\<lparr>tasks := (tasks a)[k := (tasks a ! k)\<lparr>running := False\<rparr>]\<rparr> in
     if in_flight a1 = 0 then a1\<lparr>act_input := None\<rparr> else a1)"

definition task_aborted :: "nat \<Rightarrow> ('i, 'o) arc_action \<Rightarrow> ('i, 'o) arc_action" where
  "task_aborted k a = task_done k (a\<lparr>in_flight := in_flight a - 1\<rparr>)"

definition task_finished :: "nat \<Rightarrow> 'o \<Rightarrow> ('i, 'o) arc_action \<Rightarrow> ('i, 'o) arc_action" where
  "task_finished k r a = (let a1 = a\<lparr>in_flight := in_flight a - 1\<rparr> in
     task_done k (if dispatched a1 = current_version (tasks a1 ! k)
       then a1\<lparr>act_version := act_version a1 + 1, act_value := Some r\<rparr> else a1))"

definition pending_action :: "('i, 'o) arc_action \<Rightarrow> bool" where
  "pending_action a \<longleftrightarrow> in_flight a > 0"

datatype ('i, 'o) action_event = Dispatch 'i | Suppressed 'i | Abort nat | Aborted nat | Finished nat 'o | Clear

inductive action_step :: "('i, 'o) arc_action \<Rightarrow> ('i, 'o) action_event \<Rightarrow> ('i, 'o) arc_action \<Rightarrow> bool" where
  "action_step a (Dispatch i) (dispatch_action False i a)"
| "action_step a (Suppressed i) (dispatch_action True i a)"
| "k < length (tasks a) \<Longrightarrow> action_step a (Abort k) (abort_action k a)"
| "k < length (tasks a) \<Longrightarrow> running (tasks a ! k) \<Longrightarrow> abort_sent (tasks a ! k) \<Longrightarrow> action_step a (Aborted k) (task_aborted k a)"
| "k < length (tasks a) \<Longrightarrow> running (tasks a ! k) \<Longrightarrow> action_step a (Finished k r) (task_finished k r a)"
| "action_step a Clear (clear_action a)"

subsection \<open>The history of an action\<close>

text \<open>What a history of events says about the action, without its counters.\<close>

fun dispatches :: "('i, 'o) action_event list \<Rightarrow> 'i list" where
  "dispatches [] = []"
| "dispatches (Dispatch i # es) = i # dispatches es"
| "dispatches (e # es) = dispatches es"

fun settled :: "('i, 'o) action_event \<Rightarrow> nat option" where
  "settled (Aborted k) = Some k"
| "settled (Finished k r) = Some k"
| "settled e = None"

definition waiting :: "('i, 'o) action_event list \<Rightarrow> nat list" where
  "waiting es = filter (\<lambda>k. Some k \<notin> settled ` set es) [0..<length (dispatches es)]"

text \<open>A result counts if nothing was dispatched after its task. \<open>n\<close> is the number of dispatches before.\<close>

fun results :: "nat \<Rightarrow> ('i, 'o) action_event list \<Rightarrow> (nat \<times> 'o) list" where
  "results n [] = []"
| "results n (Dispatch i # es) = results (Suc n) es"
| "results n (Finished k r # es) = (if Suc k = n then (k, r) # results n es else results n es)"
| "results n (e # es) = results n es"

fun shown_value :: "nat \<Rightarrow> ('i, 'o) action_event list \<Rightarrow> 'o option \<Rightarrow> 'o option" where
  "shown_value n [] v = v"
| "shown_value n (Dispatch i # es) v = shown_value (Suc n) es v"
| "shown_value n (Finished k r # es) v = shown_value n es (if Suc k = n then Some r else v)"
| "shown_value n (Clear # es) v = shown_value n es None"
| "shown_value n (e # es) v = shown_value n es v"

lemma dispatches_append [simp]: "dispatches (es @ fs) = dispatches es @ dispatches fs"
  by (induction es rule: dispatches.induct) auto

lemma results_append [simp]: "results n (es @ fs) = results n es @ results (n + length (dispatches es)) fs"
  by (induction n es rule: results.induct) auto

lemma shown_value_append [simp]:
  "shown_value n (es @ fs) v = shown_value (n + length (dispatches es)) fs (shown_value n es v)"
  by (induction n es v rule: shown_value.induct) auto

definition action_tracks :: "'o option \<Rightarrow> ('i, 'o) action_event list \<Rightarrow> ('i, 'o) arc_action \<Rightarrow> bool" where
  "action_tracks v es a \<longleftrightarrow>
     dispatches es = map argument (tasks a) \<and> (\<forall>k<length (tasks a). current_version (tasks a ! k) = Suc k) \<and>
     dispatched a = length (dispatches es) \<and> (\<forall>k. Some k \<in> settled ` set es \<longrightarrow> k < length (tasks a)) \<and>
     (\<forall>k<length (tasks a). running (tasks a ! k) \<longleftrightarrow> k \<in> set (waiting es)) \<and>
     in_flight a = length (waiting es) \<and>
     act_input a = (if waiting es = [] then None else Some (last (dispatches es))) \<and>
     act_value a = shown_value 0 es v \<and> act_version a = length (results 0 es)"

lemma waiting_dispatch:
  assumes "\<forall>k. Some k \<in> settled ` set es \<longrightarrow> k < length (dispatches es)"
  shows "waiting (es @ [Dispatch i]) = waiting es @ [length (dispatches es)]"
  using assms by (auto simp: waiting_def)

lemma waiting_settled: "settled e = Some k \<Longrightarrow> waiting (es @ [e]) = remove1 k (waiting es)"
proof -
  assume e: "settled e = Some k"
  then have "dispatches (es @ [e]) = dispatches es" by (cases e) auto
  then have "waiting (es @ [e]) = filter (\<lambda>j. j \<noteq> k) (waiting es)"
    using e by (auto simp: waiting_def intro!: filter_cong)
  then show ?thesis by (simp add: distinct_remove1_removeAll removeAll_filter_not_eq waiting_def neq_commute [of k])
qed

lemma waiting_same: "settled e = None \<Longrightarrow> dispatches [e] = [] \<Longrightarrow> waiting (es @ [e]) = waiting es"
  by (simp add: waiting_def)

lemma waiting_bound: "k \<in> set (waiting es) \<Longrightarrow> k < length (dispatches es)" "distinct (waiting es)"
  by (auto simp: waiting_def)

lemma map_update_same: "f y = f (xs ! k) \<Longrightarrow> map f (xs[k := y]) = map f xs"
  by (cases "k < length xs") (auto simp: nth_list_update intro!: nth_equalityI)

lemma action_tracks_start: "action_tracks v [] (new_action v)"
  by (simp add: action_tracks_def new_action_def waiting_def)

lemma action_tracks_settle:
  assumes "action_tracks v es a" "k < length (tasks a)" "running (tasks a ! k)" "settled e = Some k"
    and "a' = task_done k (a\<lparr>in_flight := in_flight a - 1, act_value := shown_value 0 (es @ [e]) v,
        act_version := length (results 0 (es @ [e]))\<rparr>)"
  shows "action_tracks v (es @ [e]) a'"
proof -
  have d: "dispatches [e] = []" using assms(4) by (cases e) auto
  have k: "k \<in> set (waiting es)" using assms(1-3) by (simp add: action_tracks_def)
  have w: "waiting (es @ [e]) = remove1 k (waiting es)" using assms(4) by (rule waiting_settled)
  then have l: "length (waiting (es @ [e])) = length (waiting es) - 1" using k by (simp add: length_remove1)
  then have n: "in_flight a - 1 = 0 \<longleftrightarrow> waiting (es @ [e]) = []" using assms(1) by (simp add: action_tracks_def flip: length_0_conv)
  have len: "length (waiting es) \<noteq> 0" using k by auto
  have r: "running ((tasks a)[k := (tasks a ! k)\<lparr>running := False\<rparr>] ! j) \<longleftrightarrow> j \<in> set (waiting (es @ [e]))"
    if "j < length (tasks a)" for j
    using that assms(1) waiting_bound(2) [of es] by (cases "j = k") (auto simp: w action_tracks_def)
  have i: "act_input a = Some (last (dispatches es))" using assms(1) k by (auto simp: action_tracks_def)
  have m: "map argument ((tasks a)[k := (tasks a ! k)\<lparr>running := False\<rparr>]) = dispatches es"
    using assms(1) by (simp add: action_tracks_def map_update_same)
  show ?thesis
    using assms(1,2,4) d r n l i m by (auto simp: action_tracks_def assms(5) task_done_def Let_def nth_list_update)
qed

lemma action_tracks_step:
  assumes "action_tracks v es a" "action_step a e a'"
  shows "action_tracks v (es @ [e]) a'"
  using assms(2)
proof (cases rule: action_step.cases)
  case (1 i)
  have w: "waiting (es @ [e]) = waiting es @ [length (tasks a)]"
    using assms(1) 1(1) waiting_dispatch [of es i] by (auto simp: action_tracks_def)
  have "length (dispatches es) = length (tasks a)" using assms(1) by (simp add: action_tracks_def)
  moreover have "length (tasks a) \<notin> set (waiting es)" using waiting_bound(1) [of "length (tasks a)" es] calculation by auto
  ultimately show ?thesis using assms(1) 1 w by (auto simp: action_tracks_def dispatch_action_def Let_def nth_append less_Suc_eq)
next
  case (2 i)
  then show ?thesis using assms(1) by (simp add: action_tracks_def dispatch_action_def waiting_same)
next
  case (3 k)
  then show ?thesis using assms(1)
    by (auto simp: action_tracks_def abort_action_def Let_def waiting_same nth_list_update map_update_same)
next
  case (4 k)
  show ?thesis by (rule action_tracks_settle [OF assms(1) 4(3,4)];
      use assms(1) 4 in \<open>cases a; auto simp: task_aborted_def action_tracks_def\<close>)
next
  case (5 k r)
  show ?thesis by (rule action_tracks_settle [OF assms(1) 5(3,4)];
      use assms(1) 5 in \<open>cases a; auto simp: task_finished_def action_tracks_def Let_def\<close>)
next
  case 6
  then show ?thesis using assms(1) by (simp add: action_tracks_def clear_action_def waiting_same)
qed

interpretation action_history: tracked_system action_step "new_action v" "action_tracks v" for v
  by unfold_locales (auto intro: action_tracks_start action_tracks_step)

subsection \<open>Properties of actions\<close>

text \<open>Results that count belong to tasks that have ended, each dispatched after the one before.\<close>

lemma results_increase:
  "runs action_step (new_action v) es a \<Longrightarrow> sorted_wrt (<) (map fst (results 0 es)) \<and>
     (\<forall>k\<in>fst ` set (results 0 es). k < length (dispatches es) \<and> k \<notin> set (waiting es))"
proof (induction rule: runs.induct)
  case (runs_step es b e c)
  note tr = action_history.tracked [OF runs_step(1)]
  have "waiting (es @ [e]) = waiting es @ [length (dispatches es)]" if "e = Dispatch i" for i
    using that tr waiting_dispatch [of es i] by (auto simp: action_tracks_def)
  moreover have "k \<in> set (waiting es)" if "e = Finished k r" for k r
    using that runs_step(2) tr by (auto simp: action_tracks_def elim: action_step.cases)
  moreover have "a < k" if "e = Finished k r" "Suc k = length (dispatches es)" "a \<in> fst ` set (results 0 es)" for a k r
    using that runs_step(3) calculation(2) [OF that(1)] by (metis less_SucE)
  ultimately show ?case using runs_step(3)
    by (cases e) (auto simp: waiting_settled waiting_same sorted_wrt_append waiting_bound)
qed simp

lemma shown_value_results:
  "Clear \<notin> set es \<Longrightarrow> shown_value n es v = (if results n es = [] then v else Some (snd (last (results n es))))"
  by (induction n es v rule: shown_value.induct) auto

subsection \<open>Multi-actions\<close>

text \<open>A submission that was dispatched and is pending has a task.\<close>

record ('i, 'o) submission =
  sub_input :: "'i option"
  sub_value :: "'o option"
  sub_pending :: bool
  sub_canceled :: bool

record ('i, 'o) multi_action =
  multi_version :: nat
  submissions :: "('i, 'o) submission list"

definition new_multi_action :: "('i, 'o) multi_action" where
  "new_multi_action = \<lparr>multi_version = 0, submissions = []\<rparr>"

definition dispatch_multi :: "bool \<Rightarrow> 'i \<Rightarrow> ('i, 'o) multi_action \<Rightarrow> ('i, 'o) multi_action" where
  "dispatch_multi suppressing i m =
     (if suppressing then m
      else m\<lparr>submissions := submissions m @
        [\<lparr>sub_input = Some i, sub_value = None, sub_pending = True, sub_canceled = False\<rparr>]\<rparr>)"

definition dispatch_sync :: "'o \<Rightarrow> ('i, 'o) multi_action \<Rightarrow> ('i, 'o) multi_action" where
  "dispatch_sync v m = m\<lparr>submissions := submissions m @
       [\<lparr>sub_input = None, sub_value = Some v, sub_pending = False, sub_canceled = False\<rparr>],
     multi_version := multi_version m + 1\<rparr>"

definition cancel_submission :: "nat \<Rightarrow> ('i, 'o) multi_action \<Rightarrow> ('i, 'o) multi_action" where
  "cancel_submission k m = m\<lparr>submissions := (submissions m)[k := (submissions m ! k)\<lparr>sub_canceled := True\<rparr>]\<rparr>"

definition submission_finished :: "nat \<Rightarrow> 'o \<Rightarrow> ('i, 'o) multi_action \<Rightarrow> ('i, 'o) multi_action" where
  "submission_finished k r m =
     (let s = submissions m ! k; s1 = (if sub_canceled s then s else s\<lparr>sub_value := Some r\<rparr>) in
      m\<lparr>submissions := (submissions m)[k := s1\<lparr>sub_input := None, sub_pending := False\<rparr>],
        multi_version := multi_version m + 1\<rparr>)"

datatype ('i, 'o) multi_event = MDispatch 'i | MSuppressed 'i | MSync 'o | MCancel nat | MFinished nat 'o

inductive multi_step :: "('i, 'o) multi_action \<Rightarrow> ('i, 'o) multi_event \<Rightarrow> ('i, 'o) multi_action \<Rightarrow> bool" where
  "multi_step m (MDispatch i) (dispatch_multi False i m)"
| "multi_step m (MSuppressed i) (dispatch_multi True i m)"
| "multi_step m (MSync v) (dispatch_sync v m)"
| "k < length (submissions m) \<Longrightarrow> multi_step m (MCancel k) (cancel_submission k m)"
| "k < length (submissions m) \<Longrightarrow> sub_pending (submissions m ! k) \<Longrightarrow>
   multi_step m (MFinished k r) (submission_finished k r m)"

text \<open>
  What the history says: the submissions in their order, and for each the result of its task, with
  whether it had been canceled by then.
\<close>

fun entries :: "('i, 'o) multi_event list \<Rightarrow> ('i + 'o) list" where
  "entries [] = []"
| "entries (MDispatch i # es) = Inl i # entries es"
| "entries (MSync v # es) = Inr v # entries es"
| "entries (e # es) = entries es"

fun finish_of :: "nat \<Rightarrow> bool \<Rightarrow> ('i, 'o) multi_event list \<Rightarrow> (bool \<times> 'o) option" where
  "finish_of k c [] = None"
| "finish_of k c (MFinished j r # es) = (if j = k then Some (c, r) else finish_of k c es)"
| "finish_of k c (MCancel j # es) = finish_of k (c \<or> j = k) es"
| "finish_of k c (e # es) = finish_of k c es"

definition expected_submission :: "('i, 'o) multi_event list \<Rightarrow> nat \<Rightarrow> ('i, 'o) submission" where
  "expected_submission es k = (case entries es ! k of
     Inr v \<Rightarrow> \<lparr>sub_input = None, sub_value = Some v, sub_pending = False, sub_canceled = (MCancel k \<in> set es)\<rparr>
   | Inl i \<Rightarrow> (case finish_of k False es of
       None \<Rightarrow> \<lparr>sub_input = Some i, sub_value = None, sub_pending = True, sub_canceled = (MCancel k \<in> set es)\<rparr>
     | Some (canceled, r) \<Rightarrow> \<lparr>sub_input = None, sub_value = (if canceled then None else Some r), sub_pending = False,
         sub_canceled = (MCancel k \<in> set es)\<rparr>))"

fun counts :: "('i, 'o) multi_event \<Rightarrow> bool" where
  "counts (MSync v) = True"
| "counts (MFinished k r) = True"
| "counts e = False"

lemma entries_append [simp]: "entries (es @ fs) = entries es @ entries fs"
  by (induction es rule: entries.induct) auto

lemma finish_of_append: "finish_of k c (es @ fs) =
    (case finish_of k c es of None \<Rightarrow> finish_of k (c \<or> MCancel k \<in> set es) fs | Some x \<Rightarrow> Some x)"
proof (induction k c es rule: finish_of.induct)
  case (3 k c j es)
  then show ?case by (cases "j = k") (auto split: option.split)
qed (auto split: option.split)

lemma finish_of_none: "\<forall>r. MFinished k r \<notin> set es \<Longrightarrow> finish_of k c es = None"
  by (induction k c es rule: finish_of.induct) auto

definition multi_tracks :: "('i, 'o) multi_event list \<Rightarrow> ('i, 'o) multi_action \<Rightarrow> bool" where
  "multi_tracks es m \<longleftrightarrow> length (submissions m) = length (entries es) \<and>
     (\<forall>k<length (entries es). submissions m ! k = expected_submission es k) \<and>
     (\<forall>k. MCancel k \<in> set es \<or> (\<exists>r. MFinished k r \<in> set es) \<longrightarrow> k < length (entries es)) \<and>
     multi_version m = length (filter counts es)"

lemma expected_old:
  assumes "k < length (entries es)" "e \<noteq> MCancel k" "\<forall>r. e \<noteq> MFinished k r"
  shows "expected_submission (es @ [e]) k = expected_submission es k"
proof -
  have "finish_of k c [e] = None" for c using assms(3) by (intro finish_of_none) auto
  then show ?thesis using assms by (auto simp: expected_submission_def nth_append finish_of_append split: sum.splits option.splits)
qed

lemma expected_new:
  assumes "MCancel k \<notin> set es" "\<forall>r. MFinished k r \<notin> set es" "k = length (entries es)"
  shows "expected_submission (es @ [MDispatch i]) k = \<lparr>sub_input = Some i, sub_value = None, sub_pending = True, sub_canceled = False\<rparr>"
    "expected_submission (es @ [MSync v]) k = \<lparr>sub_input = None, sub_value = Some v, sub_pending = False, sub_canceled = False\<rparr>"
  using assms finish_of_none [OF assms(2)] by (simp_all add: expected_submission_def finish_of_append)

lemma expected_cancel:
  "k < length (entries es) \<Longrightarrow> expected_submission (es @ [MCancel k]) k = (expected_submission es k)\<lparr>sub_canceled := True\<rparr>"
  by (auto simp: expected_submission_def nth_append finish_of_append split: sum.splits option.splits)

lemma expected_finish:
  assumes "k < length (entries es)" "sub_pending (expected_submission es k)"
  shows "expected_submission (es @ [MFinished k r]) k =
    (let s = expected_submission es k; s1 = (if sub_canceled s then s else s\<lparr>sub_value := Some r\<rparr>) in
      s1\<lparr>sub_input := None, sub_pending := False\<rparr>)"
  using assms by (auto simp: expected_submission_def nth_append finish_of_append split: sum.splits option.splits)

lemma multi_tracks_step:
  assumes "multi_tracks es m" "multi_step m e m'"
  shows "multi_tracks (es @ [e]) m'"
proof -
  have new: "MCancel (length (entries es)) \<notin> set es" "\<forall>r. MFinished (length (entries es)) r \<notin> set es"
    using assms(1) by (auto simp: multi_tracks_def)
  from assms(2) show ?thesis
  proof (cases rule: multi_step.cases)
    case (1 i)
    then show ?thesis using assms(1) expected_new [OF new]
      by (auto simp: multi_tracks_def dispatch_multi_def nth_append less_Suc_eq expected_old)
  next
    case (2 i)
    then show ?thesis using assms(1) by (auto simp: multi_tracks_def dispatch_multi_def expected_old)
  next
    case (3 v)
    then show ?thesis using assms(1) expected_new [OF new]
      by (auto simp: multi_tracks_def dispatch_sync_def nth_append less_Suc_eq expected_old)
  next
    case (4 k)
    then show ?thesis using assms(1)
      by (auto simp: multi_tracks_def cancel_submission_def nth_list_update expected_old expected_cancel)
  next
    case (5 k r)
    then show ?thesis using assms(1)
      by (auto simp: multi_tracks_def submission_finished_def nth_list_update expected_old expected_finish Let_def)
  qed
qed

interpretation multi_history: tracked_system multi_step new_multi_action multi_tracks
proof
  show "multi_tracks [] new_multi_action" by (simp add: multi_tracks_def new_multi_action_def)
qed (rule multi_tracks_step)

subsection \<open>Properties\<close>

text \<open>
  C9. An action shows what its history says, however dispatches, aborts and results interleave: it is
  pending just while a task waits, its input is then the last one dispatched and otherwise empty,
  its value is the last result that was not overtaken by a newer dispatch, and its version counts
  these results.
\<close>

theorem action_follows_history:
  assumes "runs action_step (new_action v) es a"
  shows "(pending_action a \<longleftrightarrow> waiting es \<noteq> []) \<and> in_flight a = length (waiting es) \<and>
    act_input a = (if waiting es = [] then None else Some (last (dispatches es))) \<and>
    act_value a = shown_value 0 es v \<and> act_version a = length (results 0 es)"
  using action_history.tracked [OF assms] by (auto simp: action_tracks_def pending_action_def)

theorem action_follows_history_witness:
  "\<exists>a. runs action_step (new_action None) [Dispatch (1::nat), Dispatch 2, Finished 0 (10::nat), Finished 1 20] a \<and>
     \<not> pending_action a \<and> act_input a = None \<and> act_value a = Some 20 \<and> act_version a = 1"
proof -
  let ?es = "[Dispatch (1::nat), Dispatch 2, Finished 0 (10::nat), Finished 1 20]"
  have "\<exists>a. runs action_step (new_action None) ?es a"
    by (rule exI, ((rule runs_cons, rule action_step.intros) | rule runs_none |
      (simp add: dispatch_action_def task_finished_def task_done_def new_action_def; fail))+)
  then obtain a where a: "runs action_step (new_action None) ?es a" ..
  from action_follows_history [OF a] a show ?thesis by (auto simp: waiting_def upt_rec)
qed

text \<open>
  A newer result is never replaced by a stale one: the results that an action takes on belong to
  tasks dispatched one after the other, each of which has ended, and unless the action is cleared
  its value is the result of the last of them.
\<close>

theorem stale_results_are_dropped:
  assumes "runs action_step (new_action v) es a" "Clear \<notin> set es"
  shows "sorted_wrt (<) (map fst (results 0 es)) \<and>
    (\<forall>(k, r)\<in>set (results 0 es). Finished k r \<in> set es) \<and>
    act_value a = (if results 0 es = [] then v else Some (snd (last (results 0 es))))"
proof -
  have "\<forall>(k, r)\<in>set (results n es). Finished k r \<in> set es" for n
    by (induction n es rule: results.induct) auto
  then show ?thesis using results_increase [OF assms(1)] action_history.tracked [OF assms(1)] shown_value_results [OF assms(2)]
    by (auto simp: action_tracks_def)
qed

theorem stale_results_are_dropped_witness:
  "\<exists>a. runs action_step (new_action None) [Dispatch (1::nat), Dispatch 2, Finished 1 (20::nat), Finished 0 10] a \<and>
     act_value a = Some 20"
proof -
  let ?es = "[Dispatch (1::nat), Dispatch 2, Finished 1 (20::nat), Finished 0 10]"
  have "\<exists>a. runs action_step (new_action None) ?es a"
    by (rule exI, ((rule runs_cons, rule action_step.intros) | rule runs_none |
      (simp add: dispatch_action_def task_finished_def task_done_def new_action_def; fail))+)
  then obtain a where a: "runs action_step (new_action None) ?es a" ..
  from stale_results_are_dropped [OF a] a show ?thesis by auto
qed

text \<open>
  The submissions of a multi-action are those dispatched, in their order, whatever the order in
  which their tasks end: each is pending with its input until its task ends, and then has the
  result unless it was canceled before; the version counts the ends and the immediate values.
\<close>

theorem multi_action_follows_history:
  assumes "runs multi_step new_multi_action es m"
  shows "submissions m = map (expected_submission es) [0..<length (entries es)] \<and>
    multi_version m = length (filter counts es)"
  using multi_history.tracked [OF assms] by (auto simp: multi_tracks_def intro!: nth_equalityI)

theorem multi_action_follows_history_witness:
  "\<exists>m. runs multi_step new_multi_action [MDispatch (1::nat), MDispatch 2, MFinished 1 (20::nat), MCancel 0, MFinished 0 10] m \<and>
     map sub_value (submissions m) = [None, Some 20] \<and> multi_version m = 2"
proof -
  let ?es = "[MDispatch (1::nat), MDispatch 2, MFinished 1 (20::nat), MCancel 0, MFinished 0 10]"
  have "\<exists>m. runs multi_step new_multi_action ?es m"
    by (rule exI, ((rule runs_cons, rule multi_step.intros) | rule runs_none |
      (simp add: dispatch_multi_def submission_finished_def cancel_submission_def new_multi_action_def Let_def; fail))+)
  then obtain m where m: "runs multi_step new_multi_action ?es m" ..
  from multi_action_follows_history [OF m] m show ?thesis by (auto simp: expected_submission_def upt_rec)
qed

end
