(* ===== verification/Async_Derived.thy ===== *)
theory Async_Derived
  imports Actions
begin

text \<open>
  Asynchronous derived values (\<^verbatim>\<open>src/reactive_graph/src/computed/async_derived\<close>), on which resources are built: a
  value that a future computes from reactive sources, and computes again when they change.

  The loop that computes it is a task of an executor, which runs up to its next \<^verbatim>\<open>await\<close> without interruption; it
  interleaves with changes of the sources, writes, and futures that wait for the value, which are the
  events of a step relation. The sources are one value, which the node reads directly from a signal or
  through a memo: a signal marks the node dirty when it changes, a memo marks it to be checked, and the
  memo is then asked whether its value differs from the one it has cached. The future is what it
  computes from the value of the sources at the time it was created. Suspense boundaries, which are told
  when to wait, are not modelled.
\<close>

subsection \<open>The node\<close>

datatype async_derived_state = AdClean | AdDirty | AdNotifying

text \<open>The task before its first poll, waiting for a notification, at the future of a run with its version, or gone.\<close>

datatype 's derived_task = Starting | Waiting | Loading 's nat | Gone

record ('s, 'v) async_derived =
  ad_value :: "'v option"
  ad_wakers :: "nat list"
  ad_loading :: bool
  ad_state :: async_derived_state
  ad_version :: nat
  ad_notified :: bool
  ad_paused :: bool
  ad_task :: "'s derived_task"
  first_run :: bool
  initial_fut :: "'s option"
  via_memo :: bool
  source_value :: 's
  memo_cache :: 's
  ad_woken :: "nat list"

definition mark_dirty_derived :: "('s, 'v) async_derived \<Rightarrow> ('s, 'v) async_derived" where
  "mark_dirty_derived a = (if ad_state a \<noteq> AdNotifying then a\<lparr>ad_state := AdDirty, ad_notified := True\<rparr> else a)"

definition mark_check_derived :: "('s, 'v) async_derived \<Rightarrow> ('s, 'v) async_derived" where
  "mark_check_derived a = (if ad_state a \<noteq> AdNotifying then a\<lparr>ad_notified := True\<rparr> else a)"

text \<open>The only source is the memo, or a signal, which never needs an update; asking the memo updates its cache.\<close>

definition update_derived :: "('s, 'v) async_derived \<Rightarrow> bool \<times> ('s, 'v) async_derived" where
  "update_derived a =
     (if ad_state a = AdDirty then (True, a\<lparr>ad_state := AdClean\<rparr>)
      else if ad_state a = AdNotifying then (False, a)
      else if memo_cache a \<noteq> source_value a then (True, a\<lparr>memo_cache := source_value a\<rparr>)
      else (False, a))"

text \<open>A change of the sources, and another reader of the memo, which marks the node if the memo has changed.\<close>

definition change_source :: "'s \<Rightarrow> ('s, 'v) async_derived \<Rightarrow> ('s, 'v) async_derived" where
  "change_source s a =
     (if via_memo a then mark_check_derived (a\<lparr>source_value := s\<rparr>)
      else mark_dirty_derived (a\<lparr>source_value := s, memo_cache := s\<rparr>))"

definition memo_read :: "('s, 'v) async_derived \<Rightarrow> ('s, 'v) async_derived" where
  "memo_read a =
     (if memo_cache a \<noteq> source_value a then mark_dirty_derived (a\<lparr>memo_cache := source_value a\<rparr>) else a)"

subsection \<open>Creation and the task\<close>

text \<open>
  \<open>spawn_derived!\<close>: an initial value, unless the computation is forced, makes the first future unnecessary; otherwise
  the future is polled once, and \<open>now\<close> says that it was ready.
\<close>

definition spawn_derived :: "('s \<Rightarrow> 'v) \<Rightarrow> bool \<Rightarrow> 's \<Rightarrow> 'v option \<Rightarrow> bool \<Rightarrow> bool \<Rightarrow> ('s, 'v) async_derived" where
  "spawn_derived f memo s initial force_spawn now =
     (let is_ready = initial \<noteq> None \<and> \<not> force_spawn;
          a = \<lparr>ad_value = initial, ad_wakers = [], ad_loading = \<not> is_ready, ad_state = AdClean, ad_version = 0,
               ad_notified = False, ad_paused = False, ad_task = Starting, first_run = False, initial_fut = None,
               via_memo = memo, source_value = s, memo_cache = s, ad_woken = []\<rparr>
      in if is_ready then a
         else if now then a\<lparr>ad_value := Some (f s), ad_loading := False\<rparr>
         else a\<lparr>ad_notified := True, first_run := True, initial_fut := Some s\<rparr>)"

text \<open>
  Subscribers that are told of a new value may change the sources while the node is notifying; the marks that this
  leads to are ignored.
\<close>

definition notify_subs :: "'s list \<Rightarrow> ('s, 'v) async_derived \<Rightarrow> ('s, 'v) async_derived" where
  "notify_subs changes a =
     (let pending_wakers = ad_wakers a; prev_state = ad_state a;
          a1 = a\<lparr>ad_loading := False, ad_wakers := [], ad_state := AdNotifying\<rparr>;
          a2 = fold change_source changes a1
      in a2\<lparr>ad_woken := ad_woken a2 @ pending_wakers, ad_state := prev_state\<rparr>)"

definition start_load :: "('s, 'v) async_derived \<Rightarrow> ('s, 'v) async_derived" where
  "start_load a =
     (let (s, a1) = (case initial_fut a of
            Some s \<Rightarrow> (s, a\<lparr>initial_fut := None\<rparr>)
          | None \<Rightarrow> (source_value a, a\<lparr>memo_cache := source_value a\<rparr>))
      in a1\<lparr>first_run := False, ad_loading := True, ad_version := ad_version a1 + 1,
            ad_task := Loading s (ad_version a1 + 1)\<rparr>)"

definition receive_notification :: "('s, 'v) async_derived \<Rightarrow> ('s, 'v) async_derived" where
  "receive_notification a =
     (let a1 = a\<lparr>ad_notified := False, ad_task := Waiting\<rparr>;
          (update, a2) = (if ad_paused a1 then (False, a1) else update_derived a1)
      in if update \<or> first_run a2 then start_load a2 else a2)"

text \<open>The first poll throws the first future away if the node is dirty by then; it goes on to the channel at once.\<close>

definition poll_task :: "('s, 'v) async_derived \<Rightarrow> ('s, 'v) async_derived" where
  "poll_task a =
     (let a1 = (if ad_task a = Starting
          then a\<lparr>initial_fut := (if ad_state a = AdDirty then None else initial_fut a), ad_task := Waiting\<rparr> else a)
      in if ad_notified a1 then receive_notification a1 else a1)"

definition future_ready :: "('s \<Rightarrow> 'v) \<Rightarrow> 's list \<Rightarrow> ('s, 'v) async_derived \<Rightarrow> ('s, 'v) async_derived" where
  "future_ready f changes a =
     (case ad_task a of
        Loading s this_version \<Rightarrow>
          (let a1 = a\<lparr>ad_task := Waiting\<rparr>
           in if ad_version a1 = this_version then notify_subs changes (a1\<lparr>ad_value := Some (f s)\<rparr>) else a1)
      | _ \<Rightarrow> a)"

subsection \<open>Writing and waiting\<close>

definition write_derived :: "'v option \<Rightarrow> 's list \<Rightarrow> ('s, 'v) async_derived \<Rightarrow> ('s, 'v) async_derived" where
  "write_derived v changes a = notify_subs changes (a\<lparr>ad_version := ad_version a + 1, ad_value := v\<rparr>)"

definition write_derived_untracked :: "'v option \<Rightarrow> ('s, 'v) async_derived \<Rightarrow> ('s, 'v) async_derived" where
  "write_derived_untracked v a = a\<lparr>ad_version := ad_version a + 1, ad_value := v\<rparr>"

definition poll_ready :: "nat \<Rightarrow> ('s, 'v) async_derived \<Rightarrow> bool \<times> ('s, 'v) async_derived" where
  "poll_ready waker a = (if ad_loading a then (False, a\<lparr>ad_wakers := ad_wakers a @ [waker]\<rparr>) else (True, a))"

definition cancel_task :: "('s, 'v) async_derived \<Rightarrow> ('s, 'v) async_derived" where
  "cancel_task a = a\<lparr>ad_task := Gone\<rparr>"

datatype ('s, 'v) derived_event =
    Change 's | MemoRead | PollTask | FutureReady "'s list" | Write "'v option" "'s list" | WriteUntracked "'v option"
  | NotifySubs "'s list" | Await nat | SetPaused bool | Cleanup

inductive derived_step ::
    "('s \<Rightarrow> 'v) \<Rightarrow> ('s, 'v) async_derived \<Rightarrow> ('s, 'v) derived_event \<Rightarrow> ('s, 'v) async_derived \<Rightarrow> bool" for f where
  "derived_step f a (Change s) (change_source s a)"
| "derived_step f a MemoRead (memo_read a)"
| "ad_task a = Starting \<or> ad_task a = Waiting \<Longrightarrow> derived_step f a PollTask (poll_task a)"
| "ad_task a = Loading s v \<Longrightarrow> derived_step f a (FutureReady cs) (future_ready f cs a)"
| "derived_step f a (Write v cs) (write_derived v cs a)"
| "derived_step f a (WriteUntracked v) (write_derived_untracked v a)"
| "derived_step f a (NotifySubs cs) (notify_subs cs a)"
| "derived_step f a (Await w) (snd (poll_ready w a))"
| "derived_step f a (SetPaused b) (a\<lparr>ad_paused := b\<rparr>)"
| "derived_step f a Cleanup (cancel_task a)"

inductive_cases derived_stepE: "derived_step f a e a'"

subsection \<open>The value catches up\<close>

text \<open>
  Events that leave the value to the task: no writes, no pause, no end, and no change of the sources from within a
  notification.
\<close>

fun ordinary :: "('s, 'v) derived_event \<Rightarrow> bool" where
  "ordinary (Write v cs) = False"
| "ordinary (WriteUntracked v) = False"
| "ordinary (SetPaused b) = (\<not> b)"
| "ordinary Cleanup = False"
| "ordinary (FutureReady cs) = (cs = [])"
| "ordinary (NotifySubs cs) = (cs = [])"
| "ordinary _ = True"

text \<open>
  Whatever the task is at, it has the value for what the memo has cached, unless the node is dirty; and what the task
  does not know yet has sent it a notification.
\<close>

definition up_to_date :: "('s \<Rightarrow> 'v) \<Rightarrow> ('s, 'v) async_derived \<Rightarrow> bool" where
  "up_to_date f a \<longleftrightarrow> ad_state a = AdDirty \<or>
     (case ad_task a of
        Starting \<Rightarrow> if first_run a then initial_fut a = Some (memo_cache a) else ad_value a = Some (f (memo_cache a))
      | Waiting \<Rightarrow> ad_value a = Some (f (memo_cache a))
      | Loading s v \<Rightarrow> s = memo_cache a
      | Gone \<Rightarrow> False)"

definition task_ok :: "('s, 'v) async_derived \<Rightarrow> bool" where
  "task_ok a \<longleftrightarrow>
     (case ad_task a of
        Starting \<Rightarrow> if first_run a then ad_notified a \<and> (via_memo a \<longrightarrow> memo_cache a = source_value a)
                    else initial_fut a = None \<and> \<not> ad_loading a
      | Waiting \<Rightarrow> \<not> first_run a \<and> initial_fut a = None \<and> \<not> ad_loading a
      | Loading s v \<Rightarrow> \<not> first_run a \<and> initial_fut a = None \<and> v = ad_version a
      | Gone \<Rightarrow> False)"

definition derived_inv :: "('s \<Rightarrow> 'v) \<Rightarrow> ('s, 'v) async_derived \<Rightarrow> bool" where
  "derived_inv f a \<longleftrightarrow> up_to_date f a \<and> task_ok a \<and> ad_state a \<noteq> AdNotifying \<and> \<not> ad_paused a \<and>
     (ad_state a = AdDirty \<or> memo_cache a \<noteq> source_value a \<longrightarrow> ad_notified a) \<and>
     (ad_wakers a \<noteq> [] \<longrightarrow> ad_loading a) \<and> (\<not> via_memo a \<longrightarrow> memo_cache a = source_value a)"

lemmas derived_inv_defs = derived_inv_def up_to_date_def task_ok_def

lemma spawn_inv:
  "initial = None \<or> force_spawn \<or> initial = Some (f s) \<Longrightarrow> derived_inv f (spawn_derived f memo s initial force_spawn now)"
  by (auto simp: derived_inv_defs spawn_derived_def Let_def)

lemma change_inv:
  assumes "derived_inv f a" "via_memo a \<Longrightarrow> ad_task a \<noteq> Starting"
  shows "derived_inv f (change_source s a)"
  using assms
  by (cases "ad_task a") (auto simp: derived_inv_defs change_source_def mark_check_derived_def mark_dirty_derived_def)

lemma memo_read_inv: "derived_inv f a \<Longrightarrow> derived_inv f (memo_read a)"
  by (cases "ad_task a") (auto simp: derived_inv_defs memo_read_def mark_dirty_derived_def)

lemma notify_subs_none:
  "notify_subs [] a = a\<lparr>ad_loading := False, ad_wakers := [], ad_woken := ad_woken a @ ad_wakers a\<rparr>"
  by (simp add: notify_subs_def Let_def)

lemma notify_inv: "derived_inv f a \<Longrightarrow> derived_inv f (notify_subs [] a)"
  by (cases "ad_task a") (auto simp: derived_inv_defs notify_subs_none)

lemma ready_inv: "derived_inv f a \<Longrightarrow> ad_task a = Loading s v \<Longrightarrow> derived_inv f (future_ready f [] a)"
  by (auto simp: derived_inv_defs future_ready_def notify_subs_none)

lemma poll_inv: "derived_inv f a \<Longrightarrow> ad_task a = Starting \<or> ad_task a = Waiting \<Longrightarrow> derived_inv f (poll_task a)"
  by (cases "ad_task a"; cases "ad_state a"; cases "first_run a"; cases "memo_cache a = source_value a"; cases "ad_notified a")
    (auto simp: derived_inv_defs poll_task_def receive_notification_def update_derived_def start_load_def Let_def)

lemma await_inv: "derived_inv f a \<Longrightarrow> derived_inv f (snd (poll_ready w a))"
  by (cases "ad_task a"; cases "first_run a") (auto simp: derived_inv_defs poll_ready_def)

lemma resume_inv: "derived_inv f a \<Longrightarrow> derived_inv f (a\<lparr>ad_paused := False\<rparr>)"
  by (cases "ad_task a"; cases "first_run a") (auto simp: derived_inv_defs)

lemma step_frame:
  assumes "derived_step f a e a'" "ordinary e"
  shows "via_memo a' = via_memo a" and "ad_task a' = Starting \<longleftrightarrow> ad_task a = Starting \<and> e \<noteq> PollTask"
  using assms
  by (auto elim!: derived_stepE split: derived_task.splits
      simp: change_source_def mark_check_derived_def mark_dirty_derived_def memo_read_def poll_task_def receive_notification_def
        update_derived_def start_load_def future_ready_def notify_subs_none poll_ready_def Let_def split: if_splits option.splits)

lemma step_inv:
  assumes "derived_step f a e a'" "derived_inv f a" "ordinary e"
    and "\<And>s. e = Change s \<Longrightarrow> via_memo a \<Longrightarrow> ad_task a \<noteq> Starting"
  shows "derived_inv f a'"
  using assms
  by (auto elim!: derived_stepE intro: memo_read_inv notify_inv ready_inv poll_inv await_inv change_inv resume_inv)

text \<open>Changes of a memo before the task has been polled for the first time.\<close>

definition no_early_change :: "('s, 'v) derived_event list \<Rightarrow> bool" where
  "no_early_change es \<longleftrightarrow> (\<forall>s. Change s \<notin> set (takeWhile (\<lambda>e. e \<noteq> PollTask) es))"

definition derived_tracks :: "('s \<Rightarrow> 'v) \<Rightarrow> bool \<Rightarrow> ('s, 'v) derived_event list \<Rightarrow> ('s, 'v) async_derived \<Rightarrow> bool" where
  "derived_tracks f memo es a \<longleftrightarrow> list_all ordinary es \<and> (memo \<longrightarrow> no_early_change es) \<longrightarrow>
     derived_inv f a \<and> via_memo a = memo \<and> (ad_task a = Starting \<longleftrightarrow> PollTask \<notin> set es)"

lemma takeWhile_snoc: "PollTask \<notin> set es \<Longrightarrow> takeWhile (\<lambda>e. e \<noteq> PollTask) (es @ [e]) = es @ takeWhile (\<lambda>e. e \<noteq> PollTask) [e]"
  by (rule takeWhile_append2) auto

lemma early_snoc: "no_early_change (es @ [e]) \<Longrightarrow> no_early_change es"
proof (cases "PollTask \<in> set es")
  case True
  then show "no_early_change (es @ [e]) \<Longrightarrow> no_early_change es"
    by (simp add: no_early_change_def takeWhile_append1)
next
  case False
  then have "takeWhile (\<lambda>e. e \<noteq> PollTask) es = es" by (auto simp: takeWhile_eq_all_conv)
  then show "no_early_change (es @ [e]) \<Longrightarrow> no_early_change es"
    using False by (auto simp: no_early_change_def takeWhile_snoc simp del: takeWhile.simps dest: set_takeWhileD)
qed

lemma derived_tracks_step:
  assumes "derived_tracks f memo es a" "derived_step f a e a'"
  shows "derived_tracks f memo (es @ [e]) a'"
  unfolding derived_tracks_def
proof
  assume h: "list_all ordinary (es @ [e]) \<and> (memo \<longrightarrow> no_early_change (es @ [e]))"
  then have inv: "derived_inv f a" "via_memo a = memo" "ad_task a = Starting \<longleftrightarrow> PollTask \<notin> set es" and e: "ordinary e"
    using assms(1) early_snoc by (auto simp: derived_tracks_def)
  have "ad_task a \<noteq> Starting" if "e = Change s" "via_memo a" for s
    using h inv(2,3) that takeWhile_snoc [of es e] by (auto simp: no_early_change_def)
  then have "derived_inv f a'" using step_inv [OF assms(2) inv(1) e] by blast
  then show "derived_inv f a' \<and> via_memo a' = memo \<and> (ad_task a' = Starting \<longleftrightarrow> PollTask \<notin> set (es @ [e]))"
    using step_frame [OF assms(2) e] inv by auto
qed

text \<open>One step of the task: its future is ready, or it is polled.\<close>

definition advance :: "('s \<Rightarrow> 'v) \<Rightarrow> ('s, 'v) async_derived \<Rightarrow> ('s, 'v) async_derived" where
  "advance f a = (case ad_task a of Loading s v \<Rightarrow> future_ready f [] a | Gone \<Rightarrow> a | _ \<Rightarrow> poll_task a)"

lemma advance_inv: "derived_inv f a \<Longrightarrow> derived_inv f (advance f a)"
  by (cases "ad_task a") (auto simp: advance_def ready_inv poll_inv)

text \<open>How many steps are left: a future, a notification to receive and the run that it starts.\<close>

definition steps_left :: "('s, 'v) async_derived \<Rightarrow> nat" where
  "steps_left a = (case ad_task a of Loading s v \<Rightarrow> 1 | Starting \<Rightarrow> 1 | _ \<Rightarrow> 0) + (if ad_notified a then 2 else 0)"

lemma advance_left: "derived_inv f a \<Longrightarrow> steps_left (advance f a) \<le> steps_left a - 1"
  by (cases "ad_task a"; cases "ad_notified a"; cases "initial_fut a")
    (auto simp: derived_inv_defs advance_def steps_left_def future_ready_def notify_subs_none poll_task_def
      receive_notification_def update_derived_def start_load_def Let_def)

lemma advance_frame: "source_value (advance f a) = source_value a"
  by (auto simp: advance_def future_ready_def notify_subs_none poll_task_def receive_notification_def update_derived_def
      start_load_def Let_def split: derived_task.splits option.splits)

lemma advance_waiters:
  "set (ad_wakers a) \<union> set (ad_woken a) \<subseteq> set (ad_wakers (advance f a)) \<union> set (ad_woken (advance f a))"
  by (auto simp: advance_def future_ready_def notify_subs_none poll_task_def receive_notification_def update_derived_def
      start_load_def Let_def split: derived_task.splits option.splits)

lemma steps_left_bound: "steps_left a \<le> 3"
  by (simp add: steps_left_def split: derived_task.split)

lemma settled_value:
  assumes "derived_inv f a" "steps_left a = 0"
  shows "ad_value a = Some (f (source_value a)) \<and> \<not> ad_loading a \<and> ad_wakers a = []"
  using assms by (auto simp: derived_inv_defs steps_left_def split: derived_task.splits if_splits)

definition settle_derived :: "('s \<Rightarrow> 'v) \<Rightarrow> ('s, 'v) async_derived \<Rightarrow> ('s, 'v) async_derived" where
  "settle_derived f a = advance f (advance f (advance f a))"

lemma settle_derived_settles:
  assumes "derived_inv f a"
  shows "derived_inv f (settle_derived f a)" "steps_left (settle_derived f a) = 0" "source_value (settle_derived f a) = source_value a"
    "set (ad_wakers a) \<subseteq> set (ad_wakers (settle_derived f a)) \<union> set (ad_woken (settle_derived f a))"
proof -
  let ?b = "advance f a" and ?c = "advance f (advance f a)"
  have inv: "derived_inv f ?b" "derived_inv f ?c" using advance_inv assms by blast+
  show "derived_inv f (settle_derived f a)" using advance_inv inv by (simp add: settle_derived_def)
  show "steps_left (settle_derived f a) = 0"
    using advance_left [OF assms] advance_left [OF inv(1)] advance_left [OF inv(2)] steps_left_bound [of a]
    by (simp add: settle_derived_def)
  show "source_value (settle_derived f a) = source_value a" by (simp add: settle_derived_def advance_frame)
  show "set (ad_wakers a) \<subseteq> set (ad_wakers (settle_derived f a)) \<union> set (ad_woken (settle_derived f a))"
    using advance_waiters [of a f] advance_waiters [of ?b f] advance_waiters [of ?c f] unfolding settle_derived_def by blast
qed

interpretation derived_history: tracked_system "derived_step f" "spawn_derived f memo s None force_spawn now" "derived_tracks f memo"
proof
  show "derived_tracks f memo [] (spawn_derived f memo s None force_spawn now)"
    using spawn_inv [of None force_spawn f s memo now] by (auto simp: derived_tracks_def spawn_derived_def Let_def)
qed (rule derived_tracks_step)

text \<open>
  C10. An asynchronous value catches up with its sources: after any history of changes, polls and futures that get ready,
  three more steps of its task are enough for the value to be the one of the current sources; then it is not loading, and
  whoever waited for it has been woken. The sources are read from a signal, or through a memo that does not change before
  the task is polled for the first time; nobody writes the value, pauses or cancels the task, or changes the sources from
  within a notification.
\<close>

theorem async_value_settles:
  assumes "runs (derived_step f) (spawn_derived f memo s None force_spawn now) es a"
    and "list_all ordinary es" and "memo \<longrightarrow> no_early_change es"
  shows "ad_value (settle_derived f a) = Some (f (source_value a)) \<and> \<not> ad_loading (settle_derived f a) \<and> ad_wakers (settle_derived f a) = [] \<and>
    set (ad_wakers a) \<subseteq> set (ad_woken (settle_derived f a))"
proof -
  have inv: "derived_inv f a" using derived_history.tracked [OF assms(1)] assms(2,3) by (simp add: derived_tracks_def)
  note b = settle_derived_settles [OF inv]
  show ?thesis using settled_value [OF b(1,2)] b(3,4) by auto
qed

lemmas derived_ops = change_source_def mark_check_derived_def mark_dirty_derived_def poll_task_def receive_notification_def
  update_derived_def start_load_def future_ready_def notify_subs_none poll_ready_def spawn_derived_def Let_def

theorem async_value_settles_witness:
  "\<exists>a. runs (derived_step Suc) (spawn_derived Suc True 0 None True False)
       [Await 7, PollTask, Change 1, FutureReady [], PollTask, Change 2] a \<and>
     ad_value (settle_derived Suc a) = Some 3 \<and> set (ad_woken (settle_derived Suc a)) = {7}"
proof -
  let ?es = "[Await 7, PollTask, Change 1, FutureReady [], PollTask, Change 2]"
  have "\<exists>a. runs (derived_step Suc) (spawn_derived Suc True 0 None True False) ?es a \<and> source_value a = 2 \<and>
      ad_woken a = [7] \<and> ad_task a = Loading 1 2 \<and> ad_version a = 2 \<and> ad_wakers a = [] \<and> ad_notified a \<and> ad_state a = AdClean \<and>
      \<not> ad_paused a \<and> initial_fut a = None \<and> memo_cache a = 1 \<and> \<not> first_run a"
    by (rule exI, rule conjI, ((rule runs_cons, rule derived_step.intros) | rule runs_none | (simp add: derived_ops; fail))+)
  then obtain a where a: "runs (derived_step Suc) (spawn_derived Suc True 0 None True False) ?es a" "source_value a = 2"
    "ad_woken a = [7]" "ad_task a = Loading 1 2" "ad_version a = 2" "ad_wakers a = []" "ad_notified a" "ad_state a = AdClean"
    "\<not> ad_paused a" "initial_fut a = None" "memo_cache a = 1" "\<not> first_run a" by blast
  have "ad_value (settle_derived Suc a) = Some 3"
    using async_value_settles [OF a(1)] a(2) by (simp add: no_early_change_def)
  moreover have "ad_woken (settle_derived Suc a) = [7]"
    using a by (simp add: settle_derived_def advance_def derived_ops)
  ultimately show ?thesis using a(1) by (intro exI [of _ a]) simp
qed

subsection \<open>Writes\<close>

lemma runs_append: "runs step s (xs @ ys) u \<longleftrightarrow> (\<exists>t. runs step s xs t \<and> runs step t ys u)"
proof
  show "\<exists>t. runs step s xs t \<and> runs step t ys u" if "runs step s (xs @ ys) u"
    using that
  proof (induction ys arbitrary: u rule: rev_induct)
    case Nil
    then show ?case by (auto intro: runs.runs_none)
  next
    case (snoc y ys)
    from snoc.prems obtain t where "runs step s (xs @ ys) t" "step t y u"
      by (auto elim: runs.cases simp flip: append_assoc)
    with snoc.IH show ?case by (blast intro: runs.runs_step)
  qed
  show "runs step s (xs @ ys) u" if "\<exists>t. runs step s xs t \<and> runs step t ys u"
  proof -
    from that obtain t where "runs step s xs t" "runs step t ys u" by blast
    from this(2,1) show ?thesis
      by (induction rule: runs.induct) (auto intro: runs.runs_step simp flip: append_assoc)
  qed
qed

lemma runs_single: "runs step s [e] t \<longleftrightarrow> step s e t"
proof
  show "step s e t" if "runs step s [e] t"
    using that by cases (auto elim: runs.cases)
qed (auto intro: runs_cons runs_none)

lemma change_frame [simp]:
  "ad_value (change_source s a) = ad_value a" "ad_version (change_source s a) = ad_version a"
  "ad_task (change_source s a) = ad_task a"
  by (simp_all add: change_source_def mark_check_derived_def mark_dirty_derived_def)

lemma changes_frame [simp]:
  "ad_value (fold change_source cs a) = ad_value a" "ad_version (fold change_source cs a) = ad_version a"
  "ad_task (fold change_source cs a) = ad_task a"
  by (induction cs arbitrary: a) simp_all

lemma notify_frame [simp]:
  "ad_value (notify_subs cs a) = ad_value a" "ad_version (notify_subs cs a) = ad_version a"
  "ad_task (notify_subs cs a) = ad_task a"
  by (simp_all add: notify_subs_def Let_def)

definition run_below :: "nat \<Rightarrow> ('s, 'v) async_derived \<Rightarrow> bool" where
  "run_below n a \<longleftrightarrow> (\<forall>s k. ad_task a = Loading s k \<longrightarrow> k < n)"

lemma run_below_step: "derived_step f a e a' \<Longrightarrow> run_below (Suc (ad_version a)) a \<Longrightarrow> run_below (Suc (ad_version a')) a'"
  by (auto elim!: derived_stepE simp: run_below_def memo_read_def mark_dirty_derived_def poll_task_def receive_notification_def
      update_derived_def start_load_def future_ready_def write_derived_def write_derived_untracked_def poll_ready_def
      cancel_task_def Let_def split: if_splits option.splits)

lemma run_below_runs:
  "runs (derived_step f) (spawn_derived f memo s initial force_spawn now) es a \<Longrightarrow> run_below (Suc (ad_version a)) a"
proof (induction rule: runs.induct)
  case runs_none
  show ?case by (auto simp: run_below_def spawn_derived_def Let_def)
qed (rule run_below_step)

fun starts_or_writes :: "('s, 'v) derived_event \<Rightarrow> bool" where
  "starts_or_writes PollTask = True"
| "starts_or_writes (Write v cs) = True"
| "starts_or_writes (WriteUntracked v) = True"
| "starts_or_writes _ = False"

lemma written_step:
  "derived_step f a e a' \<Longrightarrow> \<not> starts_or_writes e \<Longrightarrow> run_below (ad_version a) a \<Longrightarrow>
     ad_value a' = ad_value a \<and> run_below (ad_version a') a'"
  by (auto elim!: derived_stepE simp: run_below_def memo_read_def mark_dirty_derived_def future_ready_def poll_ready_def
      cancel_task_def Let_def split: if_splits)

text \<open>
  C34. A value that was written is not overwritten by a computation that had started before: until the task is polled for
  another one, or another value is written, it stays, whatever gets ready and changes.
\<close>

theorem written_value_stays:
  assumes "runs (derived_step f) (spawn_derived f memo s initial force_spawn now) (es @ Write v cs # es') a"
    and "\<forall>e \<in> set es'. \<not> starts_or_writes e"
  shows "ad_value a = v"
proof -
  obtain b where b: "runs (derived_step f) (spawn_derived f memo s initial force_spawn now) es b"
    and "runs (derived_step f) b ([Write v cs] @ es') a"
    using assms(1) unfolding runs_append [of _ _ es] by auto
  then obtain c where c: "runs (derived_step f) b [Write v cs] c" and rest: "runs (derived_step f) c es' a"
    unfolding runs_append [of _ _ "[Write v cs]"] by blast
  have "derived_step f b (Write v cs) c" using c by (simp add: runs_single)
  then have start: "ad_value c = v \<and> run_below (ad_version c) c"
    using run_below_runs [OF b] by (auto elim!: derived_stepE simp: write_derived_def run_below_def)
  from rest assms(2) have "ad_value a = v \<and> run_below (ad_version a) a"
    by (induction rule: runs.induct) (use start written_step in auto)
  then show ?thesis by simp
qed

theorem written_value_stays_witness:
  "\<exists>a. runs (derived_step Suc) (spawn_derived Suc False 0 None True False)
       [PollTask, Write (Some 9) [], Change 4, FutureReady []] a \<and> ad_value a = Some 9"
proof -
  let ?es = "[PollTask, Write (Some 9) [], Change 4, FutureReady []]"
  have "\<exists>a. runs (derived_step Suc) (spawn_derived Suc False 0 None True False) ?es a"
    by (rule exI, ((rule runs_cons, rule derived_step.intros) | rule runs_none |
      (simp add: derived_ops write_derived_def; fail))+)
  then obtain a where a: "runs (derived_step Suc) (spawn_derived Suc False 0 None True False) ?es a" ..
  from written_value_stays [of Suc False 0 None True False "[PollTask]" "Some 9" "[]" "[Change 4, FutureReady []]" a] a
  show ?thesis by (intro exI [of _ a]) simp
qed

subsection \<open>Where a value does not catch up\<close>

text \<open>
  C39. A memo that changes before the task is polled for the first time is missed: it marks the node to be checked and not
  dirty, so that the first future is kept although it was created for the old value; the check consumes the change, and
  when the future is ready there is nothing left to do.
\<close>

theorem early_memo_change_is_missed:
  "\<exists>a. runs (derived_step f) (spawn_derived f True s None force_spawn False) [Change t, PollTask, FutureReady []] a \<and>
     source_value a = t \<and> ad_value a = Some (f s) \<and> \<not> ad_loading a \<and> advance f a = a"
proof -
  let ?a0 = "spawn_derived f True s None force_spawn False"
  let ?a1 = "change_source t ?a0"
  let ?a2 = "poll_task ?a1"
  have "ad_task ?a1 = Starting" "ad_task ?a2 = Loading s 1" by (simp_all add: derived_ops)
  then have "runs (derived_step f) ?a0 [Change t, PollTask, FutureReady []] (future_ready f [] ?a2)"
    by (auto intro!: runs_cons [of "derived_step f" _ "Change t"] runs_cons [of "derived_step f" _ PollTask]
        runs_cons [of "derived_step f" _ "FutureReady []"] runs_none derived_step.intros)
  moreover have "source_value (future_ready f [] ?a2) = t \<and> ad_value (future_ready f [] ?a2) = Some (f s) \<and>
      \<not> ad_loading (future_ready f [] ?a2) \<and> advance f (future_ready f [] ?a2) = future_ready f [] ?a2"
    by (auto simp: derived_ops advance_def)
  ultimately show ?thesis by blast
qed

text \<open>
  C40. Writing a value without notifying while it is loading leaves it loading for good: the computation that was on its way
  is outdated and does not report that it is over, so that whoever waits for the value is not woken, although the task
  has nothing left to do.
\<close>

theorem untracked_write_blocks_waiters:
  "\<exists>a. runs (derived_step f) (spawn_derived f memo s None force_spawn False)
       [PollTask, WriteUntracked v, FutureReady [], Await w] a \<and>
     ad_value a = v \<and> ad_loading a \<and> ad_wakers a = [w] \<and> ad_woken a = [] \<and> advance f a = a"
  by (rule exI, rule conjI, ((rule runs_cons, rule derived_step.intros) | rule runs_none |
      (simp add: derived_ops write_derived_untracked_def; fail))+)
    (auto simp: derived_ops write_derived_untracked_def advance_def)

end
