(* ===== verification/Utf8.thy ===== *)
theory Utf8
  imports Leptos_Prelude
begin

text \<open>
  Which bytes are a string of Rust: \<open>valid_utf8\<close> is the check of \<^verbatim>\<open>core::str::from_utf8\<close>, with the ranges of
  the second byte that exclude overlong forms, surrogates and values above U+10FFFF.
\<close>

definition in_range :: "nat \<Rightarrow> nat \<Rightarrow> char \<Rightarrow> bool" where
  "in_range lo hi c \<longleftrightarrow> lo \<le> (of_char c :: nat) \<and> of_char c \<le> hi"

definition second_byte_ok :: "char \<Rightarrow> char \<Rightarrow> bool" where
  "second_byte_ok c d = (let n = (of_char c :: nat) in
     if n = 0xE0 then in_range 0xA0 0xBF d else if n = 0xED then in_range 0x80 0x9F d
     else if n = 0xF0 then in_range 0x90 0xBF d else if n = 0xF4 then in_range 0x80 0x8F d
     else in_range 0x80 0xBF d)"

fun valid_utf8 :: "string \<Rightarrow> bool" where
  "valid_utf8 [] = True"
| "valid_utf8 (c # s) =
     (if in_range 0 0x7F c then valid_utf8 s
      else if in_range 0xC2 0xDF c then (case s of d # t \<Rightarrow> in_range 0x80 0xBF d \<and> valid_utf8 t | _ \<Rightarrow> False)
      else if in_range 0xE0 0xEF c then
        (case s of d # e # t \<Rightarrow> second_byte_ok c d \<and> in_range 0x80 0xBF e \<and> valid_utf8 t | _ \<Rightarrow> False)
      else if in_range 0xF0 0xF4 c then
        (case s of d # e # f # t \<Rightarrow> second_byte_ok c d \<and> in_range 0x80 0xBF e \<and> in_range 0x80 0xBF f \<and> valid_utf8 t
         | _ \<Rightarrow> False)
      else False)"

lemma valid_utf8_ascii: "list_all (in_range 0 0x7F) s \<Longrightarrow> valid_utf8 (s @ t) = valid_utf8 t"
  by (induction s) auto

lemma valid_utf8_append: "valid_utf8 s \<Longrightarrow> valid_utf8 (s @ t) = valid_utf8 t"
proof (induction s rule: valid_utf8.induct)
  case (2 c s)
  then show ?case by (auto split: if_splits list.splits)
qed simp

lemma valid_utf8_concat: "\<forall>s\<in>set ss. valid_utf8 s \<Longrightarrow> valid_utf8 (concat ss)"
  by (induction ss) (auto simp: valid_utf8_append)

end
