(* ===== verification/Server_Errors.thy ===== *)
theory Server_Errors
  imports Utf8
begin

text \<open>
  The errors of server functions (\<^verbatim>\<open>src/server_fn/src/error.rs\<close>) and how they travel: in the body of a
  response, as a string, and in the query of a URL. Strings and bytes are both lists of bytes; a
  string is one that is valid UTF-8. How the standard library prints an error or a quoted string,
  base64, and the parsing of URLs are parameters.
\<close>

subsection \<open>Errors\<close>

datatype server_fn_error_err =
    ErrRegistration string
  | ErrUnsupportedRequestMethod string
  | ErrRequest string
  | ErrServerError string
  | ErrMiddlewareError string
  | ErrDeserialization string
  | ErrSerialization string
  | ErrArgs string
  | ErrMissingArg string
  | ErrResponse string

datatype 'c server_fn_error =
    WrappedServerError 'c
  | Registration string
  | Request string
  | Response string
  | ServerError string
  | MiddlewareError string
  | Deserialization string
  | Serialization string
  | Args string
  | MissingArg string

text \<open>An implementation of the trait \<^verbatim>\<open>FromServerFnError\<close>, with its encoder.\<close>

record 'e error_impl =
  err_encode :: "'e \<Rightarrow> string + string"
  err_decode :: "string \<Rightarrow> string + 'e"
  err_content_type :: string
  from_server_fn_error :: "server_fn_error_err \<Rightarrow> 'e"
  status_code :: "'e \<Rightarrow> nat"

record response_parts =
  part_body :: string
  part_content_type :: string
  part_status :: nat

definition INTERNAL_SERVER_ERROR :: nat where
  "INTERNAL_SERVER_ERROR = 500"

definition ser :: "'e error_impl \<Rightarrow> 'e \<Rightarrow> response_parts" where
  "ser E e =
     (case (case err_encode E e of
         Inr body \<Rightarrow> (body, err_content_type E)
       | Inl message \<Rightarrow> (case err_encode E (from_server_fn_error E (ErrSerialization message)) of
           Inr body \<Rightarrow> (body, err_content_type E)
         | Inl _ \<Rightarrow> (message, ''text/plain'')))
      of (body, ct) \<Rightarrow> \<lparr>part_body = body, part_content_type = ct, part_status = status_code E e\<rparr>)"

definition de :: "'e error_impl \<Rightarrow> string \<Rightarrow> 'e" where
  "de E data = (case err_decode E data of
     Inr e \<Rightarrow> e
   | Inl m \<Rightarrow> from_server_fn_error E (ErrDeserialization m))"

subsection \<open>The error type of the library\<close>

text \<open>How the standard library prints a quoted string and the error of a conversion from UTF-8.\<close>

record rust_env =
  debug_str :: "string \<Rightarrow> string"
  utf8_message :: "string \<Rightarrow> string"

fun server_fn_error_display :: "('c \<Rightarrow> string) \<Rightarrow> 'c server_fn_error \<Rightarrow> string" where
  "server_fn_error_display disp (Registration s) = ''error while trying to register the server function: '' @ s"
| "server_fn_error_display disp (Request s) = ''error reaching server to call server function: '' @ s"
| "server_fn_error_display disp (ServerError s) = ''error running server function: '' @ s"
| "server_fn_error_display disp (MiddlewareError s) = ''error running middleware: '' @ s"
| "server_fn_error_display disp (Deserialization s) = ''error deserializing server function results: '' @ s"
| "server_fn_error_display disp (Serialization s) = ''error serializing server function arguments: '' @ s"
| "server_fn_error_display disp (Args s) = ''error deserializing server function arguments: '' @ s"
| "server_fn_error_display disp (MissingArg s) = ''missing argument '' @ s"
| "server_fn_error_display disp (Response s) = ''error generating HTTP response: '' @ s"
| "server_fn_error_display disp (WrappedServerError c) = disp c"

fun server_fn_error_encode :: "('c \<Rightarrow> string) \<Rightarrow> 'c server_fn_error \<Rightarrow> string" where
  "server_fn_error_encode disp (WrappedServerError c) = ''WrappedServerFn|'' @ disp c"
| "server_fn_error_encode disp (Registration s) = ''Registration|'' @ s"
| "server_fn_error_encode disp (Request s) = ''Request|'' @ s"
| "server_fn_error_encode disp (Response s) = ''Response|'' @ s"
| "server_fn_error_encode disp (ServerError s) = ''ServerError|'' @ s"
| "server_fn_error_encode disp (MiddlewareError s) = ''MiddlewareError|'' @ s"
| "server_fn_error_encode disp (Deserialization s) = ''Deserialization|'' @ s"
| "server_fn_error_encode disp (Serialization s) = ''Serialization|'' @ s"
| "server_fn_error_encode disp (Args s) = ''Args|'' @ s"
| "server_fn_error_encode disp (MissingArg s) = ''MissingArg|'' @ s"

fun str_split_once :: "char \<Rightarrow> string \<Rightarrow> (string \<times> string) option" where
  "str_split_once c [] = None"
| "str_split_once c (d # s) = (if d = c then Some ([], s) else map_option (\<lambda>(a, b). (d # a, b)) (str_split_once c s))"

definition server_fn_error_decode ::
  "rust_env \<Rightarrow> (string \<Rightarrow> 'c option) \<Rightarrow> string \<Rightarrow> string + 'c server_fn_error" where
  "server_fn_error_decode rs parse bytes =
     (if \<not> valid_utf8 bytes then Inl (''UTF-8 conversion error: '' @ utf8_message rs bytes)
      else case str_split_once (CHR ''|'') bytes of
        None \<Rightarrow> Inl (''Invalid format: missing delimiter in '' @ debug_str rs bytes)
      | Some (ty, data) \<Rightarrow>
          if ty = ''WrappedServerFn'' then (case parse data of
              Some c \<Rightarrow> Inr (WrappedServerError c)
            | None \<Rightarrow> Inl (''Failed to parse CustErr from '' @ debug_str rs data))
          else if ty = ''Registration'' then Inr (Registration data)
          else if ty = ''Request'' then Inr (Request data)
          else if ty = ''Response'' then Inr (Response data)
          else if ty = ''ServerError'' then Inr (ServerError data)
          else if ty = ''MiddlewareError'' then Inr (MiddlewareError data)
          else if ty = ''Deserialization'' then Inr (Deserialization data)
          else if ty = ''Serialization'' then Inr (Serialization data)
          else if ty = ''Args'' then Inr (Args data)
          else if ty = ''MissingArg'' then Inr (MissingArg data)
          else Inl (''Unknown error type: '' @ ty))"

fun server_fn_error_from :: "server_fn_error_err \<Rightarrow> 'c server_fn_error" where
  "server_fn_error_from (ErrRegistration s) = Registration s"
| "server_fn_error_from (ErrRequest s) = Request s"
| "server_fn_error_from (ErrServerError s) = ServerError s"
| "server_fn_error_from (ErrMiddlewareError s) = MiddlewareError s"
| "server_fn_error_from (ErrDeserialization s) = Deserialization s"
| "server_fn_error_from (ErrSerialization s) = Serialization s"
| "server_fn_error_from (ErrArgs s) = Args s"
| "server_fn_error_from (ErrMissingArg s) = MissingArg s"
| "server_fn_error_from (ErrResponse s) = Response s"
| "server_fn_error_from (ErrUnsupportedRequestMethod s) = Request s"

definition server_fn_error_impl :: "rust_env \<Rightarrow> ('c \<Rightarrow> string) \<Rightarrow> (string \<Rightarrow> 'c option) \<Rightarrow> 'c server_fn_error error_impl" where
  "server_fn_error_impl rs disp parse =
     \<lparr>err_encode = (\<lambda>e. Inr (server_fn_error_encode disp e)), err_decode = server_fn_error_decode rs parse,
      err_content_type = ''text/plain'', from_server_fn_error = server_fn_error_from,
      status_code = (\<lambda>e. INTERNAL_SERVER_ERROR)\<rparr>"

text \<open>\<^verbatim>\<open>NoCustomError\<close>, the default for custom errors.\<close>

definition no_custom_display :: "unit \<Rightarrow> string" where
  "no_custom_display u = ''Unit Type Displayed''"

definition no_custom_from_str :: "string \<Rightarrow> unit option" where
  "no_custom_from_str s = Some ()"

subsection \<open>Errors in a URL\<close>

text \<open>A URL is what precedes its query, and the decoded pairs of the query.\<close>

record query_url =
  url_rest :: string
  url_pairs :: "(string \<times> string) list"

record url_env =
  url_parse :: "string \<Rightarrow> query_url option"
  url_print :: "query_url \<Rightarrow> string"
  base64_encode :: "string \<Rightarrow> string"
  base64_decode :: "string \<Rightarrow> string + string"

definition to_url :: "url_env \<Rightarrow> 'e error_impl \<Rightarrow> string \<Rightarrow> 'e \<Rightarrow> string \<Rightarrow> string option" where
  "to_url ue E path err base = (case url_parse ue base of
     None \<Rightarrow> None
   | Some u \<Rightarrow> Some (url_print ue (u\<lparr>url_pairs := url_pairs u @
       [(''__path'', path), (''__err'', base64_encode ue (part_body (ser E err)))]\<rparr>)))"

definition is_error_key :: "string \<Rightarrow> bool" where
  "is_error_key k \<longleftrightarrow> k = ''__path'' \<or> k = ''__err''"

definition strip_error_info :: "url_env \<Rightarrow> string \<Rightarrow> string" where
  "strip_error_info ue path = (case url_parse ue path of
     Some u \<Rightarrow> url_print ue (u\<lparr>url_pairs := filter (\<lambda>(k, v). \<not> is_error_key k) (url_pairs u)\<rparr>)
   | None \<Rightarrow> path)"

definition decode_err :: "url_env \<Rightarrow> 'e error_impl \<Rightarrow> string \<Rightarrow> 'e" where
  "decode_err ue E err = (case base64_decode ue err of
     Inr decoded \<Rightarrow> de E decoded
   | Inl m \<Rightarrow> from_server_fn_error E (ErrDeserialization m))"

text \<open>
  The router takes the last value of a parameter (\<^verbatim>\<open>get_str\<close>), and a server action starts with the
  error of the URL if the path is that of its function.
\<close>

definition query_get :: "(string \<times> string) list \<Rightarrow> string \<Rightarrow> string option" where
  "query_get ps k = map_of (rev ps) k"

definition action_error :: "url_env \<Rightarrow> 'e error_impl \<Rightarrow> string \<Rightarrow> query_url \<Rightarrow> 'e option" where
  "action_error ue E path u =
     (case (query_get (url_pairs u) ''__path'', query_get (url_pairs u) ''__err'') of
        (Some p, Some err) \<Rightarrow> if p = path then Some (decode_err ue E err) else None
      | _ \<Rightarrow> None)"

end
