(* ===== verification/Server_Fn.thy ===== *)
theory Server_Fn
  imports Server_Errors "HOL-Library.Sublist"
begin

text \<open>
  Server functions (\<^verbatim>\<open>src/server_fn/src/lib.rs\<close>, \<^verbatim>\<open>codec/\<close>, \<^verbatim>\<open>request/\<close>, \<^verbatim>\<open>response/http.rs\<close>): the HTTP
  protocol on the client and on the server, the registry of functions with their middleware, and
  the frames of the websocket protocol. The codecs are parameters, as is the transport between client and server;
  reading a body does not fail. A request that the HTTP client cannot build is a failure of the transport, which the
  code reports with the same error.
\<close>

subsection \<open>Requests and responses\<close>

datatype request_method = GET | POST | PUT | PATCH | DELETE

record http_req =
  req_method :: request_method
  req_path :: string
  req_query :: "string option"
  req_content_type :: string
  req_accept :: "string option"
  req_referer :: "string option"
  req_body :: string

record http_res =
  res_status :: nat
  res_content_type :: "string option"
  res_error_path :: "string option"
  res_location :: "string option"
  res_redirect :: bool
  res_body :: string
  res_url :: string

text \<open>Which strings the http crate accepts in a header, and its error.\<close>

record http_env =
  header_ok :: "string \<Rightarrow> bool"
  header_message :: string

definition ok_response :: "string \<Rightarrow> string \<Rightarrow> http_res" where
  "ok_response ct data = \<lparr>res_status = 200, res_content_type = Some ct, res_error_path = None, res_location = None,
     res_redirect = False, res_body = data, res_url = []\<rparr>"

definition try_from_bytes :: "http_env \<Rightarrow> 'e error_impl \<Rightarrow> string \<Rightarrow> string \<Rightarrow> 'e + http_res" where
  "try_from_bytes he E ct data =
     (if header_ok he ct then Inr (ok_response ct data)
      else Inl (from_server_fn_error E (ErrResponse (header_message he))))"

definition error_response :: "http_env \<Rightarrow> string \<Rightarrow> response_parts \<Rightarrow> http_res" where
  "error_response he path p =
     (if header_ok he (part_content_type p) then
        (ok_response (part_content_type p) (part_body p))\<lparr>res_status := part_status p,
           res_error_path := (if header_ok he path then Some path else None)\<rparr>
      else (ok_response [] (part_body p))\<lparr>res_status := part_status p, res_content_type := None\<rparr>)"

definition redirect_response :: "http_env \<Rightarrow> string \<Rightarrow> http_res \<Rightarrow> http_res" where
  "redirect_response he path r =
     (if header_ok he path then r\<lparr>res_location := Some path, res_status := 302\<rparr> else r)"

subsection \<open>Codecs\<close>

record 'a codec =
  encode :: "'a \<Rightarrow> string + string"
  decode :: "string \<Rightarrow> string + 'a"
  codec_type :: string

text \<open>
  Where the input travels: as bytes in the body (\<^verbatim>\<open>Post\<close>, \<^verbatim>\<open>Put\<close>, \<^verbatim>\<open>Patch\<close>), in the query (\<^verbatim>\<open>GetUrl\<close>,
  \<^verbatim>\<open>DeleteUrl\<close>), or as a form in the body (\<^verbatim>\<open>PostUrl\<close>, \<^verbatim>\<open>PatchUrl\<close>, \<^verbatim>\<open>PutUrl\<close>).
\<close>

datatype input_place = InBody | InQuery | InForm

record ('i, 'o, 'e) server_fn =
  fn_path :: string
  fn_method :: request_method
  fn_place :: input_place
  input_codec :: "'i codec"
  output_codec :: "'o codec"
  fn_error :: "'e error_impl"
  run_body :: "'i \<Rightarrow> 'e + 'o"

definition try_then :: "'e + 'a \<Rightarrow> ('a \<Rightarrow> 'e + 'b) \<Rightarrow> 'e + 'b" where
  "try_then r f = (case r of Inl e \<Rightarrow> Inl e | Inr x \<Rightarrow> f x)"

definition map_err :: "('m \<Rightarrow> 'e) \<Rightarrow> 'm + 'a \<Rightarrow> 'e + 'a" where
  "map_err f r = (case r of Inl m \<Rightarrow> Inl (f m) | Inr x \<Rightarrow> Inr x)"

lemma try_simps [simp]:
  "try_then (Inl e) f = Inl e" "try_then (Inr x) f = f x" "map_err g (Inl m) = Inl (g m)" "map_err g (Inr x) = Inr x"
  by (simp_all add: try_then_def map_err_def)

definition into_req :: "('i, 'o, 'e) server_fn \<Rightarrow> 'i \<Rightarrow> string \<Rightarrow> 'e + http_req" where
  "into_req F i accepts =
     try_then (map_err (\<lambda>m. from_server_fn_error (fn_error F) (ErrSerialization m)) (encode (input_codec F) i)) (\<lambda>data.
       Inr \<lparr>req_method = fn_method F, req_path = fn_path F,
         req_query = (if fn_place F = InQuery then Some data else None),
         req_content_type = codec_type (input_codec F), req_accept = Some accepts, req_referer = None,
         req_body = (if fn_place F = InQuery then [] else data)\<rparr>)"

definition from_req :: "rust_env \<Rightarrow> ('i, 'o, 'e) server_fn \<Rightarrow> http_req \<Rightarrow> 'e + 'i" where
  "from_req rs F req = (case fn_place F of
     InBody \<Rightarrow> map_err (\<lambda>m. from_server_fn_error (fn_error F) (ErrDeserialization m)) (decode (input_codec F) (req_body req))
   | InQuery \<Rightarrow> map_err (\<lambda>m. from_server_fn_error (fn_error F) (ErrArgs m))
       (decode (input_codec F) (case req_query req of None \<Rightarrow> [] | Some q \<Rightarrow> q))
   | InForm \<Rightarrow>
       if valid_utf8 (req_body req) then
         map_err (\<lambda>m. from_server_fn_error (fn_error F) (ErrArgs m)) (decode (input_codec F) (req_body req))
       else Inl (from_server_fn_error (fn_error F) (ErrDeserialization (utf8_message rs (req_body req)))))"

definition into_res :: "http_env \<Rightarrow> ('i, 'o, 'e) server_fn \<Rightarrow> 'o \<Rightarrow> 'e + http_res" where
  "into_res he F out =
     try_then (map_err (\<lambda>m. from_server_fn_error (fn_error F) (ErrSerialization m)) (encode (output_codec F) out))
       (try_from_bytes he (fn_error F) (codec_type (output_codec F)))"

definition from_res :: "('i, 'o, 'e) server_fn \<Rightarrow> http_res \<Rightarrow> 'e + 'o" where
  "from_res F res =
     map_err (\<lambda>m. from_server_fn_error (fn_error F) (ErrDeserialization m)) (decode (output_codec F) (res_body res))"

subsection \<open>The HTTP protocol\<close>

definition run_server :: "rust_env \<Rightarrow> http_env \<Rightarrow> ('i, 'o, 'e) server_fn \<Rightarrow> http_req \<Rightarrow> 'e + http_res" where
  "run_server rs he F req = try_then (from_req rs F req) (\<lambda>i. try_then (run_body F i) (into_res he F))"

text \<open>\<open>forms\<close> is the feature \<^verbatim>\<open>form-redirects\<close>.\<close>

definition run_on_server ::
  "rust_env \<Rightarrow> http_env \<Rightarrow> url_env \<Rightarrow> bool \<Rightarrow> ('i, 'o, 'e) server_fn \<Rightarrow> http_req \<Rightarrow> http_res" where
  "run_on_server rs he ue forms F req =
     (let accepts_html = (case req_accept req of None \<Rightarrow> False | Some a \<Rightarrow> sublist ''text/html'' a);
          r = run_server rs he F req;
          res = (case r of Inr res \<Rightarrow> res | Inl e \<Rightarrow> error_response he (fn_path F) (ser (fn_error F) e))
      in if forms \<and> accepts_html then
           let base = (case req_referer req of None \<Rightarrow> ''/'' | Some x \<Rightarrow> x);
               referer = (case r of
                   Inl e \<Rightarrow> (case to_url ue (fn_error F) (fn_path F) e base of
                       Some u \<Rightarrow> Some u
                     | None \<Rightarrow> req_referer req)
                 | Inr _ \<Rightarrow> map_option (strip_error_info ue) (req_referer req))
           in redirect_response he (case referer of None \<Rightarrow> ''/'' | Some x \<Rightarrow> x) res
         else res)"

text \<open>The result of a call, and the locations that were passed to the redirect hook.\<close>

definition run_client ::
  "(http_req \<Rightarrow> string + http_res) \<Rightarrow> ('i, 'o, 'e) server_fn \<Rightarrow> 'i \<Rightarrow> ('e + 'o) \<times> string list" where
  "run_client send F i =
     (case try_then (into_req F i (codec_type (output_codec F)))
         (\<lambda>req. map_err (\<lambda>m. from_server_fn_error (fn_error F) (ErrRequest m)) (send req)) of
        Inl e \<Rightarrow> (Inl e, [])
      | Inr res \<Rightarrow>
          let location = (case res_location res of None \<Rightarrow> res_url res | Some l \<Rightarrow> l);
              hook = (if 300 \<le> res_status res \<and> res_status res \<le> 399 \<or> res_redirect res then [location] else [])
          in if 400 \<le> res_status res \<and> res_status res \<le> 599 then (Inl (de (fn_error F) (res_body res)), hook)
             else (case from_res F res of Inl e \<Rightarrow> (Inl e, []) | Inr out \<Rightarrow> (Inr out, hook)))"

subsection \<open>The registry\<close>

type_synonym service = "http_req \<Rightarrow> http_res"

record server_fn_obj =
  obj_handler :: service
  obj_middleware :: "(service \<Rightarrow> service) list"

type_synonym registry = "request_method \<rightharpoonup> (string \<rightharpoonup> server_fn_obj)"

definition register_explicit :: "request_method \<Rightarrow> string \<Rightarrow> server_fn_obj \<Rightarrow> registry \<Rightarrow> registry" where
  "register_explicit m p obj reg =
     reg(m \<mapsto> (case reg m of None \<Rightarrow> Map.empty | Some by_path \<Rightarrow> by_path)(p \<mapsto> obj))"

definition get_server_fn_service :: "registry \<Rightarrow> string \<Rightarrow> request_method \<Rightarrow> service option" where
  "get_server_fn_service reg path m = (case reg m of
     None \<Rightarrow> None
   | Some by_path \<Rightarrow> (case by_path path of
       None \<Rightarrow> None
     | Some obj \<Rightarrow> Some (fold (\<lambda>layer svc. layer svc) (obj_middleware obj) (obj_handler obj))))"

definition not_found_message :: "string \<Rightarrow> string" where
  "not_found_message path = ''Could not find a server function at the route '' @ path @ ''. ''"

text \<open>The hints that follow in the body of the response are left out.\<close>

definition handle_server_fn :: "registry \<Rightarrow> http_req \<Rightarrow> http_res" where
  "handle_server_fn reg req = (case get_server_fn_service reg (req_path req) (req_method req) of
     Some svc \<Rightarrow> svc req
   | None \<Rightarrow> (ok_response [] (not_found_message (req_path req)))\<lparr>res_status := 400, res_content_type := None\<rparr>)"

subsection \<open>Websocket frames\<close>

definition WS_TAG_OK :: char where
  "WS_TAG_OK = CHR 0x00"

definition WS_TAG_ERR :: char where
  "WS_TAG_ERR = CHR 0x01"

definition WS_TAG_END :: char where
  "WS_TAG_END = CHR 0x02"

definition websocket_end_frame :: string where
  "websocket_end_frame = [WS_TAG_END]"

definition is_websocket_end_frame :: "string \<Rightarrow> bool" where
  "is_websocket_end_frame bytes \<longleftrightarrow> length bytes = 1 \<and> bytes ! 0 = WS_TAG_END"

fun serialize_result :: "string + string \<Rightarrow> string" where
  "serialize_result (Inr bytes) = WS_TAG_OK # bytes"
| "serialize_result (Inl bytes) = WS_TAG_ERR # bytes"

definition encode_websocket_frame :: "'a codec \<Rightarrow> 'e error_impl \<Rightarrow> 'e + 'a \<Rightarrow> string" where
  "encode_websocket_frame C E item = (case item of
     Inr v \<Rightarrow> (case encode C v of
         Inr bytes \<Rightarrow> WS_TAG_OK # bytes
       | Inl m \<Rightarrow> serialize_result (Inl (part_body (ser E (from_server_fn_error E (ErrSerialization m))))))
   | Inl e \<Rightarrow> serialize_result (Inl (part_body (ser E e))))"

definition deserialize_result :: "'e error_impl \<Rightarrow> string \<Rightarrow> string + string" where
  "deserialize_result E bytes = (case bytes of
     [] \<Rightarrow> Inl (part_body (ser E (from_server_fn_error E (ErrDeserialization ''Data is empty''))))
   | tag # content \<Rightarrow>
       if tag = WS_TAG_OK then Inr content
       else if tag = WS_TAG_ERR then Inl content
       else Inl (part_body (ser E (from_server_fn_error E (ErrDeserialization ''Invalid data tag'')))))"

text \<open>
  What a receiver makes of a message of the connection, which is a frame or the bytes of an error; the
  input of the server ends at the first end frame, and the forwarding task of the client sends one
  when its input is over.
\<close>

definition receive_item :: "'a codec \<Rightarrow> 'e error_impl \<Rightarrow> string + string \<Rightarrow> 'e + 'a" where
  "receive_item C E message =
     (case (case message of Inl b \<Rightarrow> Inl b | Inr b \<Rightarrow> deserialize_result E b) of
        Inr bytes \<Rightarrow> map_err (\<lambda>m. from_server_fn_error E (ErrDeserialization m)) (decode C bytes)
      | Inl bytes \<Rightarrow> Inl (de E bytes))"

definition server_input :: "'a codec \<Rightarrow> 'e error_impl \<Rightarrow> (string + string) list \<Rightarrow> ('e + 'a) list" where
  "server_input C E messages =
     map (receive_item C E)
       (takeWhile (\<lambda>m. case m of Inr b \<Rightarrow> \<not> is_websocket_end_frame b | Inl _ \<Rightarrow> True) messages)"

definition forward_input :: "'a codec \<Rightarrow> 'e error_impl \<Rightarrow> ('e + 'a) list \<Rightarrow> string list" where
  "forward_input C E items = map (encode_websocket_frame C E) items @ [websocket_end_frame]"

definition server_output :: "'a codec \<Rightarrow> 'e error_impl \<Rightarrow> ('e + 'a) list \<Rightarrow> string list" where
  "server_output C E items = map (encode_websocket_frame C E) items"

definition client_output :: "'a codec \<Rightarrow> 'e error_impl \<Rightarrow> (string + string) list \<Rightarrow> ('e + 'a) list" where
  "client_output C E messages = map (receive_item C E) messages"

end
