(* ===== verification/Url_Query.thy ===== *)
theory Url_Query
  imports Server_Errors
begin

text \<open>
  An instance of the parameters of \<open>Server_Errors\<close> for URLs: absolute URLs without a fragment, whose query is
  a list of pairs in the syntax \<^verbatim>\<open>application/x-www-form-urlencoded\<close>. It shows that what the
  properties assume of URLs can hold; nothing else depends on it.
\<close>

subsection \<open>Bytes\<close>

definition form_safe :: "char \<Rightarrow> bool" where
  "form_safe c \<longleftrightarrow> in_range 0x30 0x39 c \<or> in_range 0x41 0x5A c \<or> in_range 0x61 0x7A c \<or> c \<in> set ''*-._''"

definition hex_char :: "nat \<Rightarrow> char" where
  "hex_char n = ''0123456789ABCDEF'' ! n"

definition form_byte :: "char \<Rightarrow> string" where
  "form_byte c = (if form_safe c then [c] else if c = CHR '' '' then ''+''
     else [CHR 0x25, hex_char (of_char c div 16), hex_char (of_char c mod 16)])"

definition hex_of :: "char \<Rightarrow> nat" where
  "hex_of c = (let n = of_char c in if n < 0x40 then n - 0x30 else n - 0x37)"

fun form_decode :: "string \<Rightarrow> string" where
  "form_decode [] = []"
| "form_decode (c # s) =
     (if c = CHR ''+'' then CHR '' '' # form_decode s
      else if c = CHR 0x25 then (case s of h # l # t \<Rightarrow> char_of (16 * hex_of h + hex_of l) # form_decode t | _ \<Rightarrow> c # form_decode s)
      else c # form_decode s)"

abbreviation form_encode :: "string \<Rightarrow> string" where
  "form_encode s \<equiv> concat (map form_byte s)"

lemma nibble_cases: "n < 16 \<Longrightarrow> n \<in> {0, 1, 2, 3, 4, 5, 6, 7, 8, 9, 10, 11, 12, 13, 14, 15 :: nat}"
  unfolding insert_iff empty_iff by presburger

lemma hex_of_char [simp]: "n < 16 \<Longrightarrow> hex_of (hex_char n) = n"
  using nibble_cases [of n] by (auto simp: hex_of_def hex_char_def)

lemma hex_char_safe: "n < 16 \<Longrightarrow> form_safe (hex_char n)"
  using nibble_cases [of n] by (auto simp: form_safe_def hex_char_def in_range_def)

lemma nibbles: "of_char c div 16 < (16 :: nat)" "char_of (16 * (of_char c div 16) + of_char c mod 16 :: nat) = c"
proof -
  have "(of_char c :: nat) < 256" by simp
  then show "of_char c div 16 < (16 :: nat)" by (simp add: less_mult_imp_div_less)
  have "16 * (of_char c div 16) + of_char c mod 16 = (of_char c :: nat)" by simp
  then show "char_of (16 * (of_char c div 16) + of_char c mod 16 :: nat) = c" using char_of_char [of c] by metis
qed

lemma form_byte_decodes: "form_decode (form_byte c @ t) = c # form_decode t"
proof (cases "form_safe c")
  case True
  then have "c \<noteq> CHR ''+''" "c \<noteq> CHR 0x25" by (auto simp: form_safe_def in_range_def)
  then show ?thesis using True by (simp add: form_byte_def)
next
  case False
  show ?thesis
  proof (cases "c = CHR '' ''")
    case True
    then show ?thesis using False by (simp add: form_byte_def)
  next
    case other: False
    have "form_decode (CHR 0x25 # hex_char n # hex_char m # t) = char_of (16 * n + m) # form_decode t"
      if "n < 16" "m < 16" for n m using that by simp
    from this [OF nibbles(1), of "of_char c mod 16" c] show ?thesis
      using False other nibbles(2) [of c] by (simp add: form_byte_def del: form_decode.simps)
  qed
qed

lemma form_decode_encode [simp]: "form_decode (form_encode s) = s"
  by (induction s) (simp_all add: form_byte_decodes)

lemma form_byte_chars: "set (form_byte c) \<subseteq> {d. form_safe d} \<union> {CHR ''+'', CHR 0x25}"
proof -
  have "form_safe (hex_char (of_char c div 16))" "form_safe (hex_char (of_char c mod 16))"
    by (rule hex_char_safe, simp add: nibbles(1))+
  then show ?thesis by (simp add: form_byte_def)
qed

lemma form_encode_free: "c \<in> {CHR ''&'', CHR ''='', CHR ''#''} \<Longrightarrow> c \<notin> set (form_encode s)"
proof
  assume c: "c \<in> {CHR ''&'', CHR ''='', CHR ''#''}" "c \<in> set (form_encode s)"
  then obtain d where "c \<in> set (form_byte d)" by auto
  then have "form_safe c \<or> c = CHR ''+'' \<or> c = CHR 0x25" using form_byte_chars [of d] by blast
  then show False using c(1) by (auto simp: form_safe_def in_range_def)
qed

subsection \<open>Pairs\<close>

fun print_query :: "(string \<times> string) list \<Rightarrow> string" where
  "print_query [] = []"
| "print_query [(k, v)] = form_encode k @ ''='' @ form_encode v"
| "print_query ((k, v) # p # ps) = form_encode k @ ''='' @ form_encode v @ ''&'' @ print_query (p # ps)"

definition read_pair :: "string \<Rightarrow> string \<times> string" where
  "read_pair s = (case str_split_once (CHR ''='') s of
     None \<Rightarrow> (form_decode s, []) | Some (k, v) \<Rightarrow> (form_decode k, form_decode v))"

fun split_amp :: "string \<Rightarrow> string \<Rightarrow> string list" where
  "split_amp acc [] = [rev acc]"
| "split_amp acc (c # s) = (if c = CHR ''&'' then rev acc # split_amp [] s else split_amp (c # acc) s)"

definition read_query :: "string \<Rightarrow> (string \<times> string) list" where
  "read_query s = map read_pair (filter (\<lambda>p. p \<noteq> []) (split_amp [] s))"

lemma str_split_once_append: "c \<notin> set a \<Longrightarrow> str_split_once c (a @ c # b) = Some (a, b)"
  by (induction a) auto

lemma str_split_once_None: "c \<notin> set a \<Longrightarrow> str_split_once c a = None"
  by (induction a) auto

lemma str_split_once_free: "str_split_once c s = Some (a, b) \<Longrightarrow> c \<notin> set a"
  by (induction s arbitrary: a) (auto split: if_splits)

lemma split_amp_append: "CHR ''&'' \<notin> set a \<Longrightarrow> split_amp acc (a @ s) = split_amp (rev a @ acc) s"
  by (induction a arbitrary: acc) auto

lemma read_pair_print: "read_pair (form_encode k @ CHR ''='' # form_encode v) = (k, v)"
  using form_encode_free [of "CHR ''=''" k] by (simp add: read_pair_def str_split_once_append)

lemma pair_free: "CHR ''&'' \<notin> set (form_encode k @ CHR ''='' # form_encode v)"
  using form_encode_free [of "CHR ''&''" k] form_encode_free [of "CHR ''&''" v] by simp

lemma read_print_query: "read_query (print_query ps) = ps"
proof (induction ps rule: print_query.induct)
  case (2 k v)
  show ?case using split_amp_append [OF pair_free, of "[]" k v "[]"] read_pair_print [of k v] by (simp add: read_query_def)
next
  case (3 k v p ps)
  show ?case
    using 3 split_amp_append [OF pair_free, of "[]" k v "CHR ''&'' # print_query (p # ps)"] read_pair_print [of k v]
    by (simp add: read_query_def)
qed (simp add: read_query_def)

lemma print_query_free: "CHR ''#'' \<notin> set (print_query ps)"
  using form_encode_free [of "CHR ''#''"] by (induction ps rule: print_query.induct) auto

subsection \<open>URLs\<close>

definition query_url_parse :: "string \<Rightarrow> query_url option" where
  "query_url_parse t =
     (case (case str_split_once (CHR ''?'') t of None \<Rightarrow> (t, []) | Some (r, q) \<Rightarrow> (r, read_query q)) of (r, ps) \<Rightarrow>
        if CHR '':'' \<in> set r \<and> CHR ''#'' \<notin> set t then Some \<lparr>url_rest = r, url_pairs = ps\<rparr> else None)"

definition query_url_print :: "query_url \<Rightarrow> string" where
  "query_url_print u = url_rest u @ CHR ''?'' # print_query (url_pairs u)"

lemma query_url_read_back:
  assumes "query_url_parse t = Some u"
  shows "query_url_parse (query_url_print (u\<lparr>url_pairs := ps\<rparr>)) = Some (u\<lparr>url_pairs := ps\<rparr>)"
proof -
  have "x \<in> set s" if "str_split_once c s = Some (a, b)" "x \<in> set a" for c s a b and x :: char
    using that by (induction s arbitrary: a) (auto split: if_splits)
  moreover have "CHR ''?'' \<notin> set s" if "str_split_once (CHR ''?'') s = None" for s
    using that by (induction s) (auto split: if_splits)
  ultimately have "CHR ''?'' \<notin> set (url_rest u)" "CHR '':'' \<in> set (url_rest u)" "CHR ''#'' \<notin> set (url_rest u)"
    using assms by (auto simp: query_url_parse_def str_split_once_free split: option.splits prod.splits if_splits)
  then show ?thesis
    using print_query_free [of ps] by (simp add: query_url_parse_def query_url_print_def str_split_once_append read_print_query)
qed

end
