(* ===== verification/Server_Fn_Props.thy ===== *)
theory Server_Fn_Props
  imports Server_Fn Url_Query
begin

text \<open>
  Calls of server functions behave like calls: over HTTP, from a form without scripts, and over a
  websocket, results and errors arrive as they were returned.
\<close>

subsection \<open>What the protocols need of an error type\<close>

text \<open>Errors that are \<open>ok\<close> can be decoded from their encoding, and are reported with an error status.\<close>

locale server_error =
  fixes E :: "'e error_impl" and ok :: "'e \<Rightarrow> bool"
  assumes error_encodes: "ok e \<Longrightarrow> \<exists>b. err_encode E e = Inr b \<and> err_decode E b = Inr e"
    and error_status: "ok e \<Longrightarrow> 400 \<le> status_code E e \<and> status_code E e \<le> 599"
begin

lemma de_ser: "ok e \<Longrightarrow> de E (part_body (ser E e)) = e"
  using error_encodes [of e] by (auto simp: ser_def de_def)

lemma status_ser: "ok e \<Longrightarrow> 400 \<le> part_status (ser E e) \<and> part_status (ser E e) \<le> 599"
  using error_status [of e] error_encodes [of e] by (auto simp: ser_def)

lemma decode_err_ser:
  "ok e \<Longrightarrow> base64_decode ue (base64_encode ue (part_body (ser E e))) = Inr (part_body (ser E e)) \<Longrightarrow>
   decode_err ue E (base64_encode ue (part_body (ser E e))) = e"
  by (simp add: decode_err_def de_ser)

text \<open>An error in the response is what the client gets.\<close>

lemma client_error:
  assumes "fn_error F = E" "into_req F i (codec_type (output_codec F)) = Inr req" "ok e"
    and "send req = Inr res" "res_body res = part_body (ser E e)" "res_status res = part_status (ser E e)" "\<not> res_redirect res"
  shows "run_client send F i = (Inl e, [])"
  using assms status_ser [OF assms(3)] by (simp add: run_client_def de_ser)

lemma frame_arrives:
  assumes "case item of Inl e \<Rightarrow> ok e | Inr v \<Rightarrow> (\<exists>b. encode C v = Inr b \<and> decode C b = Inr v)"
  shows "receive_item C E (Inr (encode_websocket_frame C E item)) = item"
  using assms de_ser
  by (cases item) (auto simp: receive_item_def encode_websocket_frame_def deserialize_result_def WS_TAG_OK_def WS_TAG_ERR_def)

end



subsection \<open>The error type of the library\<close>

fun payload :: "('c \<Rightarrow> string) \<Rightarrow> 'c server_fn_error \<Rightarrow> string" where
  "payload disp (WrappedServerError c) = disp c"
| "payload disp (Registration s) = s"
| "payload disp (Request s) = s"
| "payload disp (Response s) = s"
| "payload disp (ServerError s) = s"
| "payload disp (MiddlewareError s) = s"
| "payload disp (Deserialization s) = s"
| "payload disp (Serialization s) = s"
| "payload disp (Args s) = s"
| "payload disp (MissingArg s) = s"

lemma decode_encode:
  assumes "valid_utf8 (payload disp e)" "\<forall>c. parse (disp c) = Some c"
  shows "server_fn_error_decode rs parse (server_fn_error_encode disp e) = Inr e"
proof -
  have "valid_utf8 (server_fn_error_encode disp e)" using assms(1) by (cases e) (simp_all add: in_range_def)
  then show ?thesis using assms(2) by (cases e) (simp_all add: server_fn_error_decode_def)
qed

lemma library_error:
  assumes "\<forall>c. parse (disp c) = Some c"
  shows "server_error (server_fn_error_impl rs disp parse) (\<lambda>e. valid_utf8 (payload disp e))"
  using decode_encode [OF _ assms] by unfold_locales (auto simp: server_fn_error_impl_def INTERNAL_SERVER_ERROR_def)

interpretation plain_error: server_error "server_fn_error_impl rs no_custom_display no_custom_from_str"
    "\<lambda>e. valid_utf8 (payload no_custom_display e)" for rs
  by (rule library_error) (simp add: no_custom_from_str_def)

subsection \<open>An example\<close>

text \<open>A codec that sends strings as they are, and a function that greets everybody but one.\<close>

definition plain_codec :: "string codec" where
  "plain_codec = \<lparr>encode = Inr, decode = Inr, codec_type = ''application/json''\<rparr>"

definition plain_rust :: rust_env where
  "plain_rust = \<lparr>debug_str = (\<lambda>s. s), utf8_message = (\<lambda>s. s)\<rparr>"

definition plain_http :: http_env where
  "plain_http = \<lparr>header_ok = (\<lambda>s. True), header_message = ''bad header''\<rparr>"

definition plain_url :: url_env where
  "plain_url = \<lparr>url_parse = query_url_parse, url_print = query_url_print, base64_encode = (\<lambda>s. s), base64_decode = Inr\<rparr>"

abbreviation plain_error_impl :: "unit server_fn_error error_impl" where
  "plain_error_impl \<equiv> server_fn_error_impl plain_rust no_custom_display no_custom_from_str"

definition greet :: "(string, string, unit server_fn_error) server_fn" where
  "greet = \<lparr>fn_path = ''/api/greet'', fn_method = POST, fn_place = InBody, input_codec = plain_codec,
     output_codec = plain_codec, fn_error = plain_error_impl,
     run_body = (\<lambda>name. if name = [] then Inl (ServerError ''no name'') else Inr (''hello '' @ name))\<rparr>"

subsection \<open>Properties\<close>

text \<open>
  C5. Calling a server function over HTTP is calling its body: the client gets the value or the error
  that the body returns, if the codecs decode what they encode and custom errors are parsed from
  what they print.
\<close>

theorem server_fn_call_returns:
  assumes "fn_error F = server_fn_error_impl rs disp parse" "\<forall>c. parse (disp c) = Some c"
    and "encode (input_codec F) i = Inr b" "decode (input_codec F) b = Inr i" "fn_place F = InForm \<Longrightarrow> valid_utf8 b"
    and "\<And>out. run_body F i = Inr out \<Longrightarrow> \<exists>b. encode (output_codec F) out = Inr b \<and> decode (output_codec F) b = Inr out"
    and "\<And>e. run_body F i = Inl e \<Longrightarrow> valid_utf8 (payload disp e)"
    and "header_ok he (codec_type (output_codec F))" "\<not> sublist ''text/html'' (codec_type (output_codec F))"
    and "reg = register_explicit (fn_method F) (fn_path F)
      \<lparr>obj_handler = run_on_server rs he ue forms F, obj_middleware = []\<rparr> reg0"
  shows "run_client (\<lambda>req. Inr (handle_server_fn reg req)) F i = (run_body F i, [])"
proof -
  note lib = library_error [OF assms(2), of rs]
  obtain req where req: "into_req F i (codec_type (output_codec F)) = Inr req" "req_path req = fn_path F" "req_method req = fn_method F"
    "req_accept req = Some (codec_type (output_codec F))" "from_req rs F req = Inr i"
    using assms(3-5) by (auto simp: into_req_def from_req_def split: input_place.split)
  have res: "handle_server_fn reg req = (case try_then (run_body F i) (into_res he F) of
      Inr res \<Rightarrow> res | Inl e \<Rightarrow> error_response he (fn_path F) (ser (fn_error F) e))"
    using req assms(9) by (simp add: assms(10) handle_server_fn_def get_server_fn_service_def register_explicit_def
        run_on_server_def run_server_def Let_def)
  show ?thesis
  proof (cases "run_body F i")
    case (Inl e)
    have body: "res_body (handle_server_fn reg req) = part_body (ser (server_fn_error_impl rs disp parse) e)"
      "res_status (handle_server_fn reg req) = part_status (ser (server_fn_error_impl rs disp parse) e)"
      "\<not> res_redirect (handle_server_fn reg req)"
      by (simp_all add: res Inl error_response_def ok_response_def assms(1))
    show ?thesis unfolding Inl
      by (rule server_error.client_error [OF lib assms(1) req(1) assms(7) [OF Inl] _ body]) simp
  next
    case (Inr out)
    then obtain c where "encode (output_codec F) out = Inr c" "decode (output_codec F) c = Inr out" using assms(6) by blast
    then show ?thesis using req(1) res assms(8)
      by (simp add: Inr run_client_def into_res_def try_from_bytes_def ok_response_def from_res_def)
  qed
qed

theorem server_fn_call_returns_witness:
  "let reg = register_explicit POST ''/api/greet''
       \<lparr>obj_handler = run_on_server plain_rust plain_http plain_url True greet, obj_middleware = []\<rparr> Map.empty
   in run_client (\<lambda>req. Inr (handle_server_fn reg req)) greet ''Ada'' = (Inr ''hello Ada'', []) \<and>
     run_client (\<lambda>req. Inr (handle_server_fn reg req)) greet [] = (Inl (ServerError ''no name''), [])"
proof -
  have "run_client (\<lambda>req. Inr (handle_server_fn (register_explicit (fn_method greet) (fn_path greet)
      \<lparr>obj_handler = run_on_server plain_rust plain_http plain_url True greet, obj_middleware = []\<rparr> Map.empty) req)) greet i =
    (run_body greet i, [])" for i
    by (rule server_fn_call_returns [where b = i and disp = no_custom_display and parse = no_custom_from_str and rs = plain_rust
          and he = plain_http and ue = plain_url and forms = True and ?reg0.0 = Map.empty])
      (auto simp: greet_def plain_codec_def plain_http_def no_custom_from_str_def in_range_def sublist_code split: if_splits)
  from this [of "''Ada''"] this [of "[]"] show ?thesis by (simp add: greet_def)
qed

text \<open>
  C30. A form that is submitted without scripts gets its outcome through the URL it is sent back to. After
  an error, the path of the function and the encoded error are appended to the query of the URL: the
  action of this function finds this error, and the action of any other function finds none,
  although pairs of an earlier error stay in the URL. After a success all pairs of errors are
  removed, and no action finds an error. Assumed of the libraries: printing the URL of the referrer
  with such a query gives a URL that is read back and fits into a header, and base64 is decoded to what was encoded.
\<close>

theorem form_outcome_in_url:
  fixes E' :: "'x error_impl"
  assumes "fn_error F = server_fn_error_impl rs disp parse" "\<forall>c. parse (disp c) = Some c"
    and "req_accept req = Some a" "sublist ''text/html'' a" "req_referer req = Some r" "url_parse ue r = Some u"
    and "\<And>ps. set ps \<subseteq> set (url_pairs u) \<union> {(''__path'', fn_path F)} \<union> {''__err''} \<times> range (base64_encode ue) \<Longrightarrow>
      url_parse ue (url_print ue (u\<lparr>url_pairs := ps\<rparr>)) = Some (u\<lparr>url_pairs := ps\<rparr>) \<and> header_ok he (url_print ue (u\<lparr>url_pairs := ps\<rparr>))"
    and "\<And>b. base64_decode ue (base64_encode ue b) = Inr b"
  shows "\<exists>l v. res_status (run_on_server rs he ue True F req) = 302 \<and>
    res_location (run_on_server rs he ue True F req) = Some l \<and> url_parse ue l = Some v \<and> url_rest v = url_rest u \<and>
    (case run_server rs he F req of
       Inl e \<Rightarrow> url_pairs v = url_pairs u @ [(''__path'', fn_path F), (''__err'', base64_encode ue (part_body (ser (fn_error F) e)))] \<and>
         (valid_utf8 (payload disp e) \<longrightarrow> action_error ue (fn_error F) (fn_path F) v = Some e) \<and>
         (\<forall>p. p \<noteq> fn_path F \<longrightarrow> action_error ue E' p v = None)
     | Inr res \<Rightarrow> url_pairs v = filter (\<lambda>(k, x). \<not> is_error_key k) (url_pairs u) \<and> (\<forall>p. action_error ue E' p v = None))"
proof (cases "run_server rs he F req")
  case (Inl e)
  let ?ps = "url_pairs u @ [(''__path'', fn_path F), (''__err'', base64_encode ue (part_body (ser (fn_error F) e)))]"
  let ?v = "u\<lparr>url_pairs := ?ps\<rparr>"
  have "run_on_server rs he ue True F req = redirect_response he (url_print ue ?v) (error_response he (fn_path F) (ser (fn_error F) e))"
    using assms(3-6) Inl by (simp add: run_on_server_def to_url_def Let_def)
  moreover have "action_error ue (fn_error F) (fn_path F) ?v = Some e" if "valid_utf8 (payload disp e)"
    using server_error.decode_err_ser [OF library_error [OF assms(2)] that assms(8)]
    by (simp add: action_error_def query_get_def assms(1))
  moreover have "action_error ue E' p ?v = None" if "p \<noteq> fn_path F" for p
    using that by (simp add: action_error_def query_get_def)
  moreover have "set ?ps \<subseteq> set (url_pairs u) \<union> {(''__path'', fn_path F)} \<union> {''__err''} \<times> range (base64_encode ue)" by auto
  ultimately show ?thesis using assms(7) [of ?ps] Inl
    by (intro exI [of _ "url_print ue ?v"] exI [of _ ?v]) (simp add: redirect_response_def)
next
  case (Inr res)
  let ?ps = "filter (\<lambda>(k, x). \<not> is_error_key k) (url_pairs u)"
  let ?v = "u\<lparr>url_pairs := ?ps\<rparr>"
  have "run_on_server rs he ue True F req = redirect_response he (url_print ue ?v) res"
    using assms(3-6) Inr by (simp add: run_on_server_def strip_error_info_def Let_def)
  moreover have "query_get ?ps ''__path'' = None"
    by (auto simp: query_get_def map_of_eq_None_iff is_error_key_def)
  then have "action_error ue E' p ?v = None" for p by (simp add: action_error_def)
  moreover have "set ?ps \<subseteq> set (url_pairs u) \<union> {(''__path'', fn_path F)} \<union> {''__err''} \<times> range (base64_encode ue)" by auto
  ultimately show ?thesis using assms(7) [of ?ps] Inr
    by (intro exI [of _ "url_print ue ?v"] exI [of _ ?v]) (simp add: redirect_response_def)
qed

definition greet_form :: "string \<Rightarrow> http_req" where
  "greet_form name = \<lparr>req_method = POST, req_path = ''/api/greet'', req_query = None, req_content_type = [],
     req_accept = Some ''text/html'', req_referer = Some ''http://example.org/?__path=/api/old&__err=x&q=1'', req_body = name\<rparr>"

theorem form_outcome_in_url_witness:
  "(\<exists>l v. res_location (run_on_server plain_rust plain_http plain_url True greet (greet_form [])) = Some l \<and>
     query_url_parse l = Some v \<and> action_error plain_url plain_error_impl ''/api/greet'' v = Some (ServerError ''no name'')) \<and>
   (\<exists>l v. res_location (run_on_server plain_rust plain_http plain_url True greet (greet_form ''Ada'')) = Some l \<and>
     query_url_parse l = Some v \<and> url_pairs v = [(''q'', ''1'')])"
proof -
  define u where "u = \<lparr>url_rest = ''http://example.org/'', url_pairs = [(''__path'', ''/api/old''), (''__err'', ''x''), (''q'', ''1'')]\<rparr>"
  have u: "query_url_parse ''http://example.org/?__path=/api/old&__err=x&q=1'' = Some u"
    by (simp add: query_url_parse_def read_query_def read_pair_def u_def)
  have "run_server plain_rust plain_http greet (greet_form []) = Inl (ServerError ''no name'')"
    by (simp add: run_server_def from_req_def greet_def plain_codec_def greet_form_def)
  moreover obtain res where "run_server plain_rust plain_http greet (greet_form ''Ada'') = Inr res"
    by (simp add: run_server_def from_req_def greet_def plain_codec_def greet_form_def into_res_def try_from_bytes_def plain_http_def)
  moreover have "valid_utf8 ''no name''" by (simp add: in_range_def)
  moreover have "\<exists>l v. res_status (run_on_server plain_rust plain_http plain_url True greet (greet_form name)) = 302 \<and>
    res_location (run_on_server plain_rust plain_http plain_url True greet (greet_form name)) = Some l \<and> url_parse plain_url l = Some v \<and>
    url_rest v = url_rest u \<and> (case run_server plain_rust plain_http greet (greet_form name) of
       Inl e \<Rightarrow> url_pairs v = url_pairs u @ [(''__path'', fn_path greet), (''__err'', base64_encode plain_url (part_body (ser (fn_error greet) e)))] \<and>
         (valid_utf8 (payload no_custom_display e) \<longrightarrow> action_error plain_url (fn_error greet) (fn_path greet) v = Some e) \<and>
         (\<forall>p. p \<noteq> fn_path greet \<longrightarrow> action_error plain_url plain_error_impl p v = None)
     | Inr res \<Rightarrow> url_pairs v = filter (\<lambda>(k, x). \<not> is_error_key k) (url_pairs u) \<and>
         (\<forall>p. action_error plain_url plain_error_impl p v = None))" for name
    by (rule form_outcome_in_url [where parse = no_custom_from_str and a = "''text/html''"
          and r = "''http://example.org/?__path=/api/old&__err=x&q=1''"])
      (simp_all add: greet_form_def u query_url_read_back [OF u] plain_url_def, simp_all add: greet_def no_custom_from_str_def plain_http_def)
  from this [of "[]"] this [of "''Ada''"] have
    "\<exists>l v. res_location (run_on_server plain_rust plain_http plain_url True greet (greet_form [])) = Some l \<and>
       query_url_parse l = Some v \<and> action_error plain_url (fn_error greet) (fn_path greet) v = Some (ServerError ''no name'')"
    "\<exists>l v. res_location (run_on_server plain_rust plain_http plain_url True greet (greet_form ''Ada'')) = Some l \<and>
       query_url_parse l = Some v \<and> url_pairs v = filter (\<lambda>(k, x). \<not> is_error_key k) (url_pairs u)"
    using calculation by (auto simp: plain_url_def)
  then show ?thesis by (simp add: greet_def u_def is_error_key_def)
qed



text \<open>
  The client tells errors from values by the status alone: an error type may choose any status, and
  an error with a status below 400 is decoded as a value of the function.
\<close>

theorem error_taken_for_value:
  "let F = greet\<lparr>fn_error := plain_error_impl\<lparr>status_code := (\<lambda>e. 203)\<rparr>\<rparr>;
     reg = register_explicit POST ''/api/greet''
       \<lparr>obj_handler = run_on_server plain_rust plain_http plain_url False F, obj_middleware = []\<rparr> Map.empty
   in run_body F [] = Inl (ServerError ''no name'') \<and>
     run_client (\<lambda>req. Inr (handle_server_fn reg req)) F [] = (Inr ''ServerError|no name'', [])"
  by (simp add: greet_def run_client_def into_req_def plain_codec_def handle_server_fn_def get_server_fn_service_def
      register_explicit_def run_on_server_def run_server_def from_req_def error_response_def ok_response_def ser_def
      server_fn_error_impl_def from_res_def plain_http_def Let_def)

end
