(* ===== verification/Hydration_Data.thy ===== *)
theory Hydration_Data
  imports Leptos_Prelude "HOL-Library.Word"
begin

text \<open>
  The data that a server sends along with the page (\<^verbatim>\<open>src/hydration_context/src\<close>, and the values and
  resources of \<^verbatim>\<open>src/leptos_server/src\<close> that use it): the context that collects the data, the stream of
  scripts that carries it, and the context that reads it in the browser.

  A string is the list of its characters, by their code points. A future is what it does to the context each
  time it is polled. The stream keeps its futures in a \<open>FuturesUnordered\<close> of the futures crate, which polls
  those that were woken, in an order of its own: the positions that are polled are an argument. So are the
  order in which a hash set iterates, and the characters that the standard library takes for
  unprintable or for grapheme extensions.
\<close>

unbundle bit_operations_syntax

subsection \<open>Strings as Rust prints them\<close>

type_synonym utext = "nat list"

definition lit :: "string \<Rightarrow> utext" where
  "lit = map of_char"

definition digit :: "nat \<Rightarrow> nat" where
  "digit n = (if n < 10 then 48 + n else 87 + n)"

function numeral_text :: "nat \<Rightarrow> nat \<Rightarrow> utext" where
  "numeral_text b n = (if b < 2 \<or> n < b then [digit n] else numeral_text b (n div b) @ [digit (n mod b)])"
  by pat_completeness auto

termination numeral_text
  by (relation "measure snd") auto

declare numeral_text.simps [simp del]

text \<open>\<open>char::escape_debug_ext\<close>, as \<open>Debug\<close> of a string calls it: single quotes are left alone.\<close>

definition escape_debug :: "(nat \<Rightarrow> bool) \<Rightarrow> nat \<Rightarrow> utext" where
  "escape_debug unprintable c =
     (if c = 0 then [92, 48] else if c = 9 then [92, 116] else if c = 13 then [92, 114]
      else if c = 10 then [92, 110] else if c = 92 \<or> c = 34 then [92, c]
      else if unprintable c then [92, 117, 123] @ numeral_text 16 c @ [125] else [c])"

definition debug_str :: "(nat \<Rightarrow> bool) \<Rightarrow> utext \<Rightarrow> utext" where
  "debug_str unprintable t = [34] @ concat (map (escape_debug unprintable) t) @ [34]"

definition escape_lt :: "utext \<Rightarrow> utext" where
  "escape_lt t = (if 60 \<in> set t then concat (map (\<lambda>c. if c = 60 then [92, 117, 48, 48, 51, 99] else [c]) t) else t)"

subsection \<open>The context of the server\<close>

text \<open>
  What a future does to the context when it is polled, before it answers; it answers with its data, or that it
  is not ready.
\<close>

datatype resource_future = Ready "context_op list" utext | Later "context_op list" resource_future
and context_op =
    WriteAsync utext resource_future
  | RegisterError utext utext utext
  | SealErrors utext
  | SetIncomplete utext

record ssr_context =
  ctx_id :: "64 word"
  non_hydration_id :: "64 word"
  is_hydrating :: bool
  sync_data :: "(utext \<times> utext) list"
  async_buf :: "(utext \<times> resource_future) list"
  ctx_errors :: "(utext \<times> utext \<times> utext) list"
  sealed_error_boundaries :: "utext set"
  incomplete :: "utext list"

definition ssr_context_new :: ssr_context where
  "ssr_context_new = \<lparr>ctx_id = 0, non_hydration_id = - 1, is_hydrating = True, sync_data = [], async_buf = [],
     ctx_errors = [], sealed_error_boundaries = {}, incomplete = []\<rparr>"

definition new_islands :: ssr_context where
  "new_islands = ssr_context_new\<lparr>is_hydrating := False\<rparr>"

definition serialized_data_id :: "64 word \<Rightarrow> utext" where
  "serialized_data_id n = numeral_text 10 (unat n)"

definition ssr_next_id :: "ssr_context \<Rightarrow> utext \<times> ssr_context" where
  "ssr_next_id c =
     (if is_hydrating c then (serialized_data_id (ctx_id c), c\<lparr>ctx_id := ctx_id c + 1\<rparr>)
      else (serialized_data_id (non_hydration_id c), c\<lparr>non_hydration_id := non_hydration_id c - 1\<rparr>))"

definition write_async :: "utext \<Rightarrow> resource_future \<Rightarrow> ssr_context \<Rightarrow> ssr_context" where
  "write_async i f c = c\<lparr>async_buf := async_buf c @ [(i, f)]\<rparr>"

definition register_error :: "utext \<Rightarrow> utext \<Rightarrow> utext \<Rightarrow> ssr_context \<Rightarrow> ssr_context" where
  "register_error boundary i msg c = c\<lparr>ctx_errors := ctx_errors c @ [(boundary, i, msg)]\<rparr>"

definition seal_errors :: "utext \<Rightarrow> ssr_context \<Rightarrow> ssr_context" where
  "seal_errors boundary c = c\<lparr>sealed_error_boundaries := insert boundary (sealed_error_boundaries c)\<rparr>"

definition set_incomplete_chunk :: "utext \<Rightarrow> ssr_context \<Rightarrow> ssr_context" where
  "set_incomplete_chunk i c = c\<lparr>incomplete := incomplete c @ [i]\<rparr>"

definition ssr_incomplete_chunk :: "ssr_context \<Rightarrow> utext \<Rightarrow> bool" where
  "ssr_incomplete_chunk c i \<longleftrightarrow> i \<in> set (incomplete c)"

definition ssr_errors :: "ssr_context \<Rightarrow> utext \<Rightarrow> (utext \<times> utext) list" where
  "ssr_errors c boundary = map snd (filter (\<lambda>e. fst e = boundary) (ctx_errors c))"

fun apply_op :: "context_op \<Rightarrow> ssr_context \<Rightarrow> ssr_context" where
  "apply_op (WriteAsync i f) c = write_async i f c"
| "apply_op (RegisterError boundary i msg) c = register_error boundary i msg c"
| "apply_op (SealErrors boundary) c = seal_errors boundary c"
| "apply_op (SetIncomplete i) c = set_incomplete_chunk i c"

abbreviation apply_ops :: "context_op list \<Rightarrow> ssr_context \<Rightarrow> ssr_context" where
  "apply_ops \<equiv> fold apply_op"

subsection \<open>The stream of scripts\<close>

text \<open>The pieces of a script, as the code writes them.\<close>

definition write_to_buf :: "(nat \<Rightarrow> bool) \<Rightarrow> utext \<times> utext \<Rightarrow> utext" where
  "write_to_buf u d = debug_str u (fst d) @ lit '': '' @ debug_str u (escape_lt (snd d))"

definition error_entry :: "(nat \<Rightarrow> bool) \<Rightarrow> utext \<times> utext \<times> utext \<Rightarrow> utext" where
  "error_entry u e = lit ''['' @ debug_str u (fst e) @ lit '', '' @ debug_str u (fst (snd e)) @ lit '', '' @
     escape_lt (debug_str u (snd (snd e))) @ lit '']''"

definition push_pending :: "(nat \<Rightarrow> bool) \<Rightarrow> utext \<Rightarrow> utext" where
  "push_pending u i = lit ''__PENDING_RESOURCES.push('' @ debug_str u i @ lit '');''"

definition set_resolved :: "(nat \<Rightarrow> bool) \<Rightarrow> utext \<Rightarrow> utext \<Rightarrow> utext" where
  "set_resolved u i d =
     lit ''__RESOLVED_RESOURCES['' @ debug_str u i @ lit ''] = '' @ debug_str u (escape_lt d) @ lit '';''"

definition push_incomplete :: "(nat \<Rightarrow> bool) \<Rightarrow> utext \<Rightarrow> utext" where
  "push_incomplete u i = lit ''__INCOMPLETE_CHUNKS.push('' @ debug_str u i @ lit '');''"

definition push_error :: "(nat \<Rightarrow> bool) \<Rightarrow> utext \<times> utext \<times> utext \<Rightarrow> utext" where
  "push_error u e = lit ''__SERIALIZED_ERRORS.push('' @ error_entry u e @ lit '');''"

text \<open>The initial chunk; \<open>pending\<close> are the ids of the hash set, in the order of its iteration.\<close>

definition initial_chunk :: "(nat \<Rightarrow> bool) \<Rightarrow> utext list \<Rightarrow> ssr_context \<Rightarrow> utext" where
  "initial_chunk u pending c =
     lit ''__RESOLVED_RESOURCES={'' @ concat (map (\<lambda>d. write_to_buf u d @ lit '','') (sync_data c)) @ lit ''};'' @
     lit ''__SERIALIZED_ERRORS=['' @ concat (map (\<lambda>e. error_entry u e @ lit '','') (ctx_errors c)) @ lit ''];'' @
     lit ''__PENDING_RESOURCES=['' @ concat (map (\<lambda>i. debug_str u i @ lit '','') pending) @ lit ''];'' @
     lit ''__INCOMPLETE_CHUNKS=['' @ concat (map (\<lambda>i. debug_str u i @ lit '','') (incomplete c)) @ lit ''];'' @
     lit ''__RESOURCE_RESOLVERS=[];''"

text \<open>
  The stream: its stage (\<open>once(initial).chain(async_data).chain(once(tail))\<close>) and the fields of \<open>AsyncDataStream\<close>
  that it does not share with the context.
\<close>

datatype stream_stage = Initial utext | Streaming | Ended

record data_stream =
  stage :: stream_stage
  in_flight :: "(utext \<times> resource_future) list"
  incomplete_emitted :: nat
  initial_pending_ids :: "utext set"

type_synonym streaming = "ssr_context \<times> data_stream"

definition pending_data :: "(nat \<Rightarrow> bool) \<Rightarrow> (utext set \<Rightarrow> utext list) \<Rightarrow> ssr_context \<Rightarrow> streaming" where
  "pending_data u order c =
     (let ids = fst ` set (async_buf c) in
      (c\<lparr>sync_data := [], ctx_errors := []\<rparr>,
       \<lparr>stage = Initial (initial_chunk u (order ids) c), in_flight = [],
         incomplete_emitted = length (incomplete c), initial_pending_ids = ids\<rparr>))"

text \<open>
  \<open>while let Poll::Ready(Some((id, data))) = in_flight.poll_next(cx)\<close>: the futures at the given positions are polled one
  after the other, a future that is ready leaves the set, and its data is written. The result says whether any was
  ready.
\<close>

fun poll_future :: "resource_future \<Rightarrow> context_op list \<times> (utext + resource_future)" where
  "poll_future (Ready ops d) = (ops, Inl d)"
| "poll_future (Later ops f) = (ops, Inr f)"

fun drain_ready :: "(nat \<Rightarrow> bool) \<Rightarrow> nat list \<Rightarrow> streaming \<Rightarrow> utext \<times> bool \<times> streaming" where
  "drain_ready u [] (c, s) = ([], False, c, s)"
| "drain_ready u (k # woken) (c, s) =
     (if k < length (in_flight s) then
        (case in_flight s ! k of (i, f) \<Rightarrow>
         case poll_future f of
           (ops, Inl d) \<Rightarrow>
             (case drain_ready u woken
                (apply_ops ops c, s\<lparr>in_flight := take k (in_flight s) @ drop (Suc k) (in_flight s)\<rparr>) of
                (out, _, r) \<Rightarrow>
                  ((if i \<in> initial_pending_ids s then [] else push_pending u i) @ set_resolved u i d @ out, True, r))
         | (ops, Inr f') \<Rightarrow> drain_ready u woken (apply_ops ops c, s\<lparr>in_flight := (in_flight s)[k := (i, f')]\<rparr>))
      else drain_ready u woken (c, s))"

definition stage_futures :: "streaming \<Rightarrow> streaming" where
  "stage_futures st = (case st of (c, s) \<Rightarrow>
     (c\<lparr>async_buf := []\<rparr>, s\<lparr>in_flight := in_flight s @ async_buf c\<rparr>))"

text \<open>The loop of \<open>poll_next\<close>, with the positions that are polled in each round.\<close>

fun poll_loop :: "(nat \<Rightarrow> bool) \<Rightarrow> nat list list \<Rightarrow> streaming \<Rightarrow> utext \<times> streaming" where
  "poll_loop u [] st = ([], stage_futures st)"
| "poll_loop u (woken # rounds) st =
     (case drain_ready u woken (stage_futures st) of (out, any_ready, c, s) \<Rightarrow>
        if any_ready \<and> async_buf c \<noteq> [] then
          (case poll_loop u rounds (c, s) of (out', st') \<Rightarrow> (out @ out', st'))
        else (out, c, s))"

datatype poll_result = PollPending | PollDone | PollChunk utext

definition flush_incomplete :: "(nat \<Rightarrow> bool) \<Rightarrow> streaming \<Rightarrow> utext \<times> streaming" where
  "flush_incomplete u st = (case st of (c, s) \<Rightarrow>
     (concat (map (push_incomplete u) (drop (incomplete_emitted s) (incomplete c))),
      c, s\<lparr>incomplete_emitted := length (incomplete c)\<rparr>))"

definition flush_errors :: "(nat \<Rightarrow> bool) \<Rightarrow> streaming \<Rightarrow> utext \<times> streaming" where
  "flush_errors u st = (case st of (c, s) \<Rightarrow>
     (concat (map (push_error u) (filter (\<lambda>e. fst e \<notin> sealed_error_boundaries c) (ctx_errors c))),
      c\<lparr>ctx_errors := []\<rparr>, s))"

definition poll_async_data :: "(nat \<Rightarrow> bool) \<Rightarrow> nat list list \<Rightarrow> streaming \<Rightarrow> poll_result \<times> streaming" where
  "poll_async_data u rounds st =
     (case poll_loop u rounds st of (resolved, st1) \<Rightarrow>
      case flush_incomplete u st1 of (marks, st2) \<Rightarrow>
      case flush_errors u st2 of (errs, c, s) \<Rightarrow>
      let out = resolved @ marks @ errs; done = in_flight s = [] \<and> async_buf c = [] in
      (if done \<and> out = [] then PollDone else if out = [] then PollPending else PollChunk out, c, s))"

text \<open>One poll of the whole stream. A stream that ended answers so at every later poll.\<close>

definition tail_chunk :: "(nat \<Rightarrow> bool) \<Rightarrow> streaming \<Rightarrow> utext" where
  "tail_chunk u st = fst (flush_incomplete u st)"

definition poll_stream :: "(nat \<Rightarrow> bool) \<Rightarrow> nat list list \<Rightarrow> streaming \<Rightarrow> poll_result \<times> streaming" where
  "poll_stream u rounds st =
     (case stage (snd st) of
        Initial t \<Rightarrow> (PollChunk t, fst st, (snd st)\<lparr>stage := Streaming\<rparr>)
      | Streaming \<Rightarrow>
          (case poll_async_data u rounds st of
             (PollDone, c, s) \<Rightarrow> (PollChunk (tail_chunk u (c, s)), c, s\<lparr>stage := Ended\<rparr>)
           | r \<Rightarrow> r)
      | Ended \<Rightarrow> (PollDone, st))"

text \<open>A response in progress: the stream is polled, and other tasks act on the context, in any order.\<close>

datatype response_event = Poll "nat list list" | Do context_op

fun respond :: "(nat \<Rightarrow> bool) \<Rightarrow> response_event list \<Rightarrow> streaming \<Rightarrow> utext list \<times> streaming" where
  "respond u [] st = ([], st)"
| "respond u (Poll rounds # es) st =
     (case poll_stream u rounds st of
        (PollChunk t, st') \<Rightarrow> (case respond u es st' of (ts, st'') \<Rightarrow> (t # ts, st''))
      | (_, st') \<Rightarrow> respond u es st')"
| "respond u (Do act # es) (c, s) = respond u es (apply_op act c, s)"

end
