(* ===== verification/Hydration_Script.thy ===== *)
theory Hydration_Script
  imports Hydration_Data
begin

text \<open>
  What a browser makes of the scripts: a reader of the statements that occur in them, following the grammar of
  string literals of ECMAScript, and the globals of the page that the statements set. Every literal that the server
  prints is read back as the string it was printed from; the exception is a NUL character before an octal digit,
  which a browser takes for an octal escape.
\<close>

subsection \<open>String literals\<close>

definition is_octal :: "nat \<Rightarrow> bool" where
  "is_octal c \<longleftrightarrow> 48 \<le> c \<and> c \<le> 55"

definition hex_value :: "nat \<Rightarrow> nat option" where
  "hex_value c = (if 48 \<le> c \<and> c \<le> 57 then Some (c - 48) else if 97 \<le> c \<and> c \<le> 102 then Some (c - 87)
     else if 65 \<le> c \<and> c \<le> 70 then Some (c - 55) else None)"

fun read_octal :: "utext \<Rightarrow> nat \<times> utext" where
  "read_octal [] = (0, [])"
| "read_octal [d] = (if is_octal d then (d - 48, []) else (0, [d]))"
| "read_octal (d # e # r) =
     (if \<not> is_octal d then (0, d # e # r) else if is_octal e then (8 * (d - 48) + (e - 48), r) else (d - 48, e # r))"

fun read_braced :: "nat \<Rightarrow> utext \<Rightarrow> (nat \<times> utext) option" where
  "read_braced n [] = None"
| "read_braced n (c # r) =
     (if c = 125 then if n < 0x110000 then Some (n, r) else None
      else case hex_value c of None \<Rightarrow> None | Some h \<Rightarrow> read_braced (16 * n + h) r)"

fun read_hex4 :: "utext \<Rightarrow> (nat \<times> utext) option" where
  "read_hex4 (a # b # c # d # r) =
     (case (hex_value a, hex_value b, hex_value c, hex_value d) of
        (Some a, Some b, Some c, Some d) \<Rightarrow> Some (4096 * a + 256 * b + 16 * c + d, r)
      | _ \<Rightarrow> None)"
| "read_hex4 _ = None"

fun read_escape :: "utext \<Rightarrow> (nat \<times> utext) option" where
  "read_escape [] = None"
| "read_escape (c # r) =
     (if c = 48 then Some (read_octal r) else if c = 110 then Some (10, r) else if c = 114 then Some (13, r)
      else if c = 116 then Some (9, r) else if c = 34 \<or> c = 92 then Some (c, r)
      else if c = 117 then
        (case r of [] \<Rightarrow> None
         | b # r' \<Rightarrow> if b = 123 then (if r' \<noteq> [] \<and> hd r' \<noteq> 125 then read_braced 0 r' else None) else read_hex4 r)
      else None)"

lemma read_octal_shorter: "length (snd (read_octal r)) \<le> length r"
  by (induction r rule: read_octal.induct) auto

lemma read_braced_shorter: "read_braced n r = Some (c, r') \<Longrightarrow> length r' < length r"
  by (induction n r rule: read_braced.induct) (auto split: if_splits option.splits)

lemma read_hex4_shorter: "read_hex4 r = Some (c, r') \<Longrightarrow> length r' < length r"
  by (induction r rule: read_hex4.induct) (auto split: option.splits)

lemma read_escape_shorter:
  assumes "read_escape r = Some (c, r')"
  shows "length r' < length r"
proof (cases r)
  case (Cons b q)
  have "read_octal q = (c, r') \<Longrightarrow> length r' \<le> length q" using read_octal_shorter [of q] by simp
  then show ?thesis
    using assms Cons by (auto split: if_splits list.splits dest!: read_braced_shorter read_hex4_shorter)
qed (use assms in simp)

function read_body :: "utext \<Rightarrow> (utext \<times> utext) option" where
  "read_body [] = None"
| "read_body (c # r) =
     (if c = 34 then Some ([], r) else if c = 10 \<or> c = 13 then None
      else if c = 92 then
        (case read_escape r of None \<Rightarrow> None
         | Some (d, r') \<Rightarrow> map_option (\<lambda>(t, q). (d # t, q)) (read_body r'))
      else map_option (\<lambda>(t, q). (c # t, q)) (read_body r))"
  by pat_completeness auto

termination read_body
  by (relation "measure length") (auto dest: read_escape_shorter)

definition read_string :: "utext \<Rightarrow> (utext \<times> utext) option" where
  "read_string t = (case t of c # r \<Rightarrow> if c = 34 then read_body r else None | [] \<Rightarrow> None)"

subsection \<open>Printed strings are read back\<close>

text \<open>Characters of Rust, and no NUL before an octal digit.\<close>

fun js_readable :: "utext \<Rightarrow> bool" where
  "js_readable [] = True"
| "js_readable (c # t) \<longleftrightarrow> c < 0x110000 \<and> \<not> (c = 0 \<and> t \<noteq> [] \<and> is_octal (hd t)) \<and> js_readable t"

text \<open>How each character is printed, and that it is read back unless octal digits interfere.\<close>

locale literal_printer =
  fixes block :: "nat \<Rightarrow> utext"
  assumes block_nonempty: "block c \<noteq> []"
    and block_octal: "is_octal (hd (block c)) \<Longrightarrow> is_octal c"
    and block_read: "c < 0x110000 \<Longrightarrow> r \<noteq> [] \<Longrightarrow> \<not> (c = 0 \<and> is_octal (hd r)) \<Longrightarrow>
      read_body (block c @ r) = map_option (\<lambda>(t, q). (c # t, q)) (read_body r)"
begin

lemma printed_head:
  "is_octal (hd (concat (map block t) @ 34 # rest)) \<Longrightarrow> t \<noteq> [] \<and> is_octal (hd t)"
  using block_octal [of "hd t"] by (cases t) (simp_all add: is_octal_def block_nonempty)

lemma read_printed:
  "js_readable t \<Longrightarrow> read_body (concat (map block t) @ 34 # rest) = Some (t, rest)"
proof (induction t)
  case (Cons c t)
  have "read_body (block c @ concat (map block t) @ 34 # rest) =
      map_option (\<lambda>(t, q). (c # t, q)) (read_body (concat (map block t) @ 34 # rest))"
  proof (rule block_read)
    show "\<not> (c = 0 \<and> is_octal (hd (concat (map block t) @ 34 # rest)))"
      using Cons.prems printed_head [of t rest] by auto
  qed (use Cons.prems in auto)
  then show ?case using Cons by simp
qed simp

end

lemma hex_value_digit [simp]: "n < 16 \<Longrightarrow> hex_value (digit n) = Some n"
  by (auto simp: hex_value_def digit_def)

lemma digit_not_brace [simp]: "n < 16 \<Longrightarrow> digit n \<noteq> 125"
  by (auto simp: digit_def)

lemma numeral_text_nonempty [simp]: "numeral_text b n \<noteq> []"
  by (subst numeral_text.simps) simp

lemma hd_numeral_text: "hd (numeral_text 16 n) \<noteq> 125"
  by (induction "16 :: nat" n rule: numeral_text.induct) (subst numeral_text.simps, auto simp: hd_append)

lemma read_braced_numeral:
  "read_braced m (numeral_text 16 n @ r) =
     read_braced (m * 16 ^ length (numeral_text 16 n) + n) r"
proof (induction "16 :: nat" n arbitrary: m r rule: numeral_text.induct)
  case (1 n)
  show ?case
  proof (cases "n < 16")
    case True
    then show ?thesis by (simp add: numeral_text.simps [of 16 n] mult.commute)
  next
    case False
    then have "numeral_text 16 n = numeral_text 16 (n div 16) @ [digit (n mod 16)]"
      by (simp add: numeral_text.simps [of 16 n])
    then show ?thesis using False 1 by (simp add: algebra_simps)
  qed
qed

lemma read_escape_braced:
  assumes "c < 0x110000"
  shows "read_escape ([117, 123] @ numeral_text 16 c @ [125] @ r) = Some (c, r)"
  using assms hd_numeral_text [of c] read_braced_numeral [of 0 c "125 # r"] by (simp add: hd_append)

lemma read_octal_other: "\<not> is_octal (hd r) \<Longrightarrow> read_octal r = (0, r)"
  by (cases r rule: read_octal.cases) auto

lemma read_escape_debug:
  assumes "c < 0x110000" "r \<noteq> []" "\<not> (c = 0 \<and> is_octal (hd r))"
  shows "read_body (escape_debug u c @ r) = map_option (\<lambda>(t, q). (c # t, q)) (read_body r)"
  using assms read_escape_braced [OF assms(1), of r]
  by (auto simp: escape_debug_def read_octal_other)

interpretation debug: literal_printer "escape_debug u"
  by unfold_locales (auto simp: read_escape_debug, auto simp: escape_debug_def is_octal_def split: if_splits)

lemma read_debug: "js_readable t \<Longrightarrow> read_string (debug_str u t @ rest) = Some (t, rest)"
  using debug.read_printed [of t u rest] by (simp add: debug_str_def read_string_def)

text \<open>\<open>escape_lt\<close> works character by character.\<close>

definition lt_escaped :: "nat \<Rightarrow> utext" where
  "lt_escaped c = (if c = 60 then [92, 117, 48, 48, 51, 99] else [c])"

lemma escape_lt_eq: "escape_lt t = concat (map lt_escaped t)"
proof -
  have "60 \<notin> set t \<Longrightarrow> concat (map lt_escaped t) = t"
    by (induction t) (auto simp: lt_escaped_def)
  moreover have "lt_escaped = (\<lambda>c. if c = 60 then [92, 117, 48, 48, 51, 99] else [c])"
    by (simp add: lt_escaped_def fun_eq_iff)
  ultimately show ?thesis by (simp add: escape_lt_def)
qed

lemma escape_lt_append [simp]: "escape_lt (s @ t) = escape_lt s @ escape_lt t"
  by (simp add: escape_lt_eq)

lemma escape_lt_concat: "escape_lt (concat ts) = concat (map escape_lt ts)"
  by (induction ts) (simp_all add: escape_lt_eq)

lemma no_lt_escape_lt [simp]: "60 \<notin> set (escape_lt t)"
  by (auto simp: escape_lt_eq lt_escaped_def split: if_splits)

lemma escape_lt_id: "60 \<notin> set t \<Longrightarrow> escape_lt t = t"
  by (simp add: escape_lt_def)

lemma lt_escaped_octal: "is_octal (hd (lt_escaped c)) \<Longrightarrow> is_octal c"
  by (simp add: lt_escaped_def is_octal_def split: if_splits)

lemma hd_escape_lt: "t \<noteq> [] \<Longrightarrow> escape_lt t \<noteq> [] \<and> hd (escape_lt t) = hd (lt_escaped (hd t))"
  by (cases t) (simp_all add: escape_lt_eq lt_escaped_def)

lemma readable_escape_lt: "js_readable t \<Longrightarrow> js_readable (escape_lt t)"
proof (induction t)
  case (Cons c t)
  then show ?case by (cases t) (auto simp: escape_lt_eq lt_escaped_def is_octal_def)
qed (simp add: escape_lt_eq)

lemma digit_not_lt: "n < 16 \<Longrightarrow> digit n \<noteq> 60"
  by (auto simp: digit_def)

lemma no_lt_numeral: "b \<le> 16 \<Longrightarrow> 2 \<le> b \<Longrightarrow> 60 \<notin> set (numeral_text b n)"
proof (induction b n rule: numeral_text.induct)
  case (1 b n)
  have "n mod b < 16" using "1.prems" by (meson le_less_trans less_le_trans mod_less_divisor not_le not_numeral_le_zero neq0_conv)
  then show ?case using 1 digit_not_lt by (subst numeral_text.simps) auto
qed

lemma no_lt_escape_debug: "c \<noteq> 60 \<Longrightarrow> 60 \<notin> set (escape_debug u c)"
  using no_lt_numeral [of 16 c] by (simp add: escape_debug_def)

lemma read_lt_escaped:
  assumes "c < 0x110000" "r \<noteq> []" "\<not> (c = 0 \<and> is_octal (hd r))"
  shows "read_body (escape_lt (escape_debug u c) @ r) = map_option (\<lambda>(t, q). (c # t, q)) (read_body r)"
proof (cases "60 \<in> set (escape_debug u c)")
  case True
  then have "c = 60" "escape_debug u c = [60]"
    using no_lt_escape_debug [of c u] no_lt_numeral [of 16 c] by (auto simp: escape_debug_def split: if_splits)
  then show ?thesis by (simp add: escape_lt_eq lt_escaped_def hex_value_def)
next
  case False
  then show ?thesis using read_escape_debug [OF assms] by (simp add: escape_lt_id)
qed

interpretation escaped_debug: literal_printer "\<lambda>c. escape_lt (escape_debug u c)"
proof unfold_locales
  fix u c
  show "escape_lt (escape_debug u c) \<noteq> []"
    using hd_escape_lt debug.block_nonempty by blast
  show "is_octal (hd (escape_lt (escape_debug u c))) \<Longrightarrow> is_octal c"
    using hd_escape_lt [OF debug.block_nonempty] lt_escaped_octal debug.block_octal by metis
qed (rule read_lt_escaped)

lemma escape_lt_Cons: "escape_lt (c # t) = lt_escaped c @ escape_lt t"
  by (simp add: escape_lt_eq)

lemma read_escaped_debug: "js_readable t \<Longrightarrow> read_string (escape_lt (debug_str u t) @ rest) = Some (t, rest)"
  using escaped_debug.read_printed [of t u rest]
  by (simp add: debug_str_def read_string_def escape_lt_concat comp_def escape_lt_Cons lt_escaped_def escape_lt_id [of "[]"])

subsection \<open>Statements\<close>

datatype statement =
    AllResolved "(utext \<times> utext) list"
  | AllErrors "(utext \<times> utext \<times> utext) list"
  | AllPending "utext list"
  | AllIncomplete "utext list"
  | NoResolvers
  | PushPending utext
  | SetResolved utext utext
  | PushIncomplete utext
  | PushError "utext \<times> utext \<times> utext"

fun strip :: "utext \<Rightarrow> utext \<Rightarrow> utext option" where
  "strip [] t = Some t"
| "strip (c # p) [] = None"
| "strip (c # p) (d # t) = (if c = d then strip p t else None)"

lemma strip_append [simp]: "strip p (p @ t) = Some t"
  by (induction p) auto

text \<open>A reader of one item, of two readers in turn with a text between them, and of items with a comma after each.\<close>

type_synonym 'a reader = "utext \<Rightarrow> ('a \<times> utext) option"

definition then_text :: "'a reader \<Rightarrow> utext \<Rightarrow> 'a reader" where
  "then_text rd p t = (case rd t of None \<Rightarrow> None | Some (x, r) \<Rightarrow> map_option (Pair x) (strip p r))"

definition then_read :: "'a reader \<Rightarrow> 'b reader \<Rightarrow> ('a \<times> 'b) reader" where
  "then_read ra rb t = (case ra t of None \<Rightarrow> None
     | Some (x, r) \<Rightarrow> map_option (\<lambda>(y, q). ((x, y), q)) (rb r))"

fun read_items :: "nat \<Rightarrow> 'a reader \<Rightarrow> utext \<Rightarrow> 'a list reader" where
  "read_items 0 rd close t = None"
| "read_items (Suc n) rd close t =
     (case strip close t of Some r \<Rightarrow> Some ([], r)
      | None \<Rightarrow> (case then_text rd (lit '','') t of None \<Rightarrow> None
          | Some (x, r) \<Rightarrow> map_option (\<lambda>(xs, q). (x # xs, q)) (read_items n rd close r)))"

definition read_pair :: "(utext \<times> utext) reader" where
  "read_pair = then_read (then_text read_string (lit '': '')) read_string"

definition read_error :: "(utext \<times> utext \<times> utext) reader" where
  "read_error t = (case strip (lit ''['') t of None \<Rightarrow> None
     | Some r \<Rightarrow> then_text (then_read (then_text read_string (lit '', ''))
         (then_read (then_text read_string (lit '', '')) read_string)) (lit '']'') r)"

text \<open>The forms of a statement: the text it starts with, and what follows.\<close>

definition form :: "string \<Rightarrow> 'a reader \<Rightarrow> ('a \<Rightarrow> statement) \<Rightarrow> string \<Rightarrow> statement reader" where
  "form start rd f close t = (case strip (lit start) t of None \<Rightarrow> None
     | Some r \<Rightarrow> map_option (\<lambda>(x, q). (f x, q)) (then_text rd (lit close) r))"

definition collection :: "string \<Rightarrow> 'a reader \<Rightarrow> ('a list \<Rightarrow> statement) \<Rightarrow> string \<Rightarrow> statement reader" where
  "collection start rd f close t = (case strip (lit start) t of None \<Rightarrow> None
     | Some r \<Rightarrow> map_option (\<lambda>(x, q). (f x, q)) (read_items (Suc (length t)) rd (lit close) r))"

definition forms :: "statement reader list" where
  "forms = [
     collection ''__RESOLVED_RESOURCES={'' read_pair AllResolved ''};'',
     collection ''__SERIALIZED_ERRORS=['' read_error AllErrors ''];'',
     collection ''__PENDING_RESOURCES=['' read_string AllPending ''];'',
     collection ''__INCOMPLETE_CHUNKS=['' read_string AllIncomplete ''];'',
     form ''__RESOURCE_RESOLVERS=[];'' (\<lambda>t. Some ((), t)) (\<lambda>_. NoResolvers) [],
     form ''__PENDING_RESOURCES.push('' read_string PushPending '');'',
     form ''__RESOLVED_RESOURCES['' (then_read (then_text read_string (lit ''] = '')) read_string)
       (\<lambda>(i, d). SetResolved i d) '';'',
     form ''__INCOMPLETE_CHUNKS.push('' read_string PushIncomplete '');'',
     form ''__SERIALIZED_ERRORS.push('' read_error PushError '');'']"

fun first_form :: "'a reader list \<Rightarrow> 'a reader" where
  "first_form [] t = None"
| "first_form (rd # rds) t = (case rd t of None \<Rightarrow> first_form rds t | r \<Rightarrow> r)"

fun read_script :: "nat \<Rightarrow> utext \<Rightarrow> statement list option" where
  "read_script 0 t = (if t = [] then Some [] else None)"
| "read_script (Suc n) t =
     (if t = [] then Some []
      else case first_form forms t of None \<Rightarrow> None | Some (j, r) \<Rightarrow> map_option (Cons j) (read_script n r))"

text \<open>A script has fewer statements than characters.\<close>

definition script :: "utext \<Rightarrow> statement list option" where
  "script t = read_script (length t) t"

subsection \<open>Printed statements are read back\<close>

text \<open>The text of a statement, in the words of the server.\<close>

fun statement_text :: "(nat \<Rightarrow> bool) \<Rightarrow> statement \<Rightarrow> utext" where
  "statement_text u (AllResolved ds) = lit ''__RESOLVED_RESOURCES={'' @
     concat (map (\<lambda>d. (debug_str u (fst d) @ lit '': '' @ debug_str u (snd d)) @ lit '','') ds) @ lit ''};''"
| "statement_text u (AllErrors es) = lit ''__SERIALIZED_ERRORS=['' @
     concat (map (\<lambda>e. error_entry u e @ lit '','') es) @ lit ''];''"
| "statement_text u (AllPending xs) = lit ''__PENDING_RESOURCES=['' @
     concat (map (\<lambda>i. debug_str u i @ lit '','') xs) @ lit ''];''"
| "statement_text u (AllIncomplete xs) = lit ''__INCOMPLETE_CHUNKS=['' @
     concat (map (\<lambda>i. debug_str u i @ lit '','') xs) @ lit ''];''"
| "statement_text u NoResolvers = lit ''__RESOURCE_RESOLVERS=[];''"
| "statement_text u (PushPending i) = push_pending u i"
| "statement_text u (SetResolved i d) =
     lit ''__RESOLVED_RESOURCES['' @ debug_str u i @ lit ''] = '' @ debug_str u d @ lit '';''"
| "statement_text u (PushIncomplete i) = push_incomplete u i"
| "statement_text u (PushError e) = push_error u e"

abbreviation script_text :: "(nat \<Rightarrow> bool) \<Rightarrow> statement list \<Rightarrow> utext" where
  "script_text u js \<equiv> concat (map (statement_text u) js)"

definition error_readable :: "utext \<times> utext \<times> utext \<Rightarrow> bool" where
  "error_readable e \<longleftrightarrow> js_readable (fst e) \<and> js_readable (fst (snd e)) \<and> js_readable (snd (snd e))"

fun statement_readable :: "statement \<Rightarrow> bool" where
  "statement_readable (AllResolved ds) \<longleftrightarrow> (\<forall>d \<in> set ds. js_readable (fst d) \<and> js_readable (snd d))"
| "statement_readable (AllErrors es) \<longleftrightarrow> (\<forall>e \<in> set es. error_readable e)"
| "statement_readable (AllPending xs) \<longleftrightarrow> (\<forall>x \<in> set xs. js_readable x)"
| "statement_readable (AllIncomplete xs) \<longleftrightarrow> (\<forall>x \<in> set xs. js_readable x)"
| "statement_readable NoResolvers \<longleftrightarrow> True"
| "statement_readable (PushPending i) \<longleftrightarrow> js_readable i"
| "statement_readable (SetResolved i d) \<longleftrightarrow> js_readable i \<and> js_readable d"
| "statement_readable (PushIncomplete i) \<longleftrightarrow> js_readable i"
| "statement_readable (PushError e) \<longleftrightarrow> error_readable e"

lemma then_text_read: "rd (s @ p @ t) = Some (x, p @ t) \<Longrightarrow> then_text rd p (s @ p @ t) = Some (x, t)"
  by (simp add: then_text_def)

lemma read_items_printed:
  assumes "\<And>x r. x \<in> set xs \<Longrightarrow> rd (pr x @ r) = Some (x, r)"
    and "\<And>x r. x \<in> set xs \<Longrightarrow> strip close (pr x @ r) = None"
    and "length xs < n"
  shows "read_items n rd close (concat (map (\<lambda>x. pr x @ lit '','') xs) @ close @ t) = Some (xs, t)"
  using assms
proof (induction xs arbitrary: n)
  case Nil
  then show ?case by (cases n) auto
next
  case (Cons x xs)
  then obtain m where n: "n = Suc m" "length xs < m" by (cases n) auto
  let ?r = "concat (map (\<lambda>x. pr x @ lit '','') xs) @ close @ t"
  have "then_text rd (lit '','') (pr x @ lit '','' @ ?r) = Some (x, ?r)"
    by (rule then_text_read) (simp add: Cons.prems(1))
  moreover have "read_items m rd close ?r = Some (xs, t)"
    by (rule Cons.IH) (use Cons.prems n in auto)
  ultimately show ?case using Cons.prems(2) [of x] n by simp
qed

lemma read_string_then: "js_readable t \<Longrightarrow> then_text read_string p (debug_str u t @ p @ r) = Some (t, r)"
  by (rule then_text_read) (rule read_debug)

lemma read_pair_printed:
  "js_readable (fst d) \<Longrightarrow> js_readable (snd d) \<Longrightarrow>
     read_pair ((debug_str u (fst d) @ lit '': '' @ debug_str u (snd d)) @ r) = Some (d, r)"
  by (simp add: read_pair_def then_read_def read_string_then read_debug)

lemma read_error_printed: "error_readable e \<Longrightarrow> read_error (error_entry u e @ r) = Some (e, r)"
proof -
  assume e: "error_readable e"
  let ?rd = "then_read (then_text read_string (lit '', '')) (then_read (then_text read_string (lit '', '')) read_string)"
  have "?rd (debug_str u (fst e) @ lit '', '' @ debug_str u (fst (snd e)) @ lit '', '' @
      escape_lt (debug_str u (snd (snd e))) @ lit '']'' @ r) = Some ((fst e, fst (snd e), snd (snd e)), lit '']'' @ r)"
    using e by (simp add: error_readable_def then_read_def read_string_then read_escaped_debug)
  then have "then_text ?rd (lit '']'') (debug_str u (fst e) @ lit '', '' @ debug_str u (fst (snd e)) @ lit '', '' @
      escape_lt (debug_str u (snd (snd e))) @ lit '']'' @ r) = Some (e, r)"
    by (simp add: then_text_def)
  then show ?thesis by (simp add: read_error_def error_entry_def)
qed

lemma strip_quote: "p \<noteq> [] \<Longrightarrow> hd p \<noteq> 34 \<Longrightarrow> strip p (debug_str u t @ r) = None"
  by (cases p) (auto simp: debug_str_def)

lemma strip_other:
  "strip (lit ''};'') (debug_str u t @ r) = None"
  "strip (lit ''];'') (debug_str u t @ r) = None"
  "strip (lit ''];'') (error_entry u e @ r) = None"
  by (simp_all add: strip_quote error_entry_def lit_def)

lemma collection_printed:
  assumes "\<And>x r. x \<in> set xs \<Longrightarrow> rd (pr x @ r) = Some (x, r)"
    and "\<And>x r. x \<in> set xs \<Longrightarrow> strip (lit close) (pr x @ r) = None"
  shows "collection start rd f close (lit start @ concat (map (\<lambda>x. pr x @ lit '','') xs) @ lit close @ t) = Some (f xs, t)"
proof -
  have "length xs \<le> length (concat (map (\<lambda>x. pr x @ lit '','') xs))"
    by (induction xs) (auto simp: lit_def)
  then have "read_items (Suc (length (lit start @ concat (map (\<lambda>x. pr x @ lit '','') xs) @ lit close @ t))) rd (lit close)
      (concat (map (\<lambda>x. pr x @ lit '','') xs) @ lit close @ t) = Some (xs, t)"
    by (intro read_items_printed assms) simp_all
  then show ?thesis unfolding collection_def by (simp del: read_items.simps)
qed

lemma form_printed: "rd (s @ lit close @ t) = Some (x, lit close @ t) \<Longrightarrow>
    form start rd f close (lit start @ s @ lit close @ t) = Some (f x, t)"
  by (simp add: form_def then_text_def)

text \<open>Two forms do not start alike.\<close>

fun differ :: "string \<Rightarrow> string \<Rightarrow> bool" where
  "differ (c # p) (d # q) \<longleftrightarrow> c \<noteq> d \<or> differ p q"
| "differ _ _ \<longleftrightarrow> False"

lemma lit_Nil: "lit [] = []"
  by (simp add: lit_def)

lemma strip_differ: "differ p q \<Longrightarrow> strip (lit p) (lit q @ t) = None"
  by (induction p q rule: differ.induct) (auto simp: lit_def)

lemma form_other [simp]:
  "differ start q \<Longrightarrow> form start rd f close (lit q @ t) = None"
  "differ start q \<Longrightarrow> collection start rd g close (lit q @ t) = None"
  by (simp_all add: form_def collection_def strip_differ)

lemma read_all_resolved: "statement_readable (AllResolved ds) \<Longrightarrow>
    first_form forms (statement_text u (AllResolved ds) @ r) = Some (AllResolved ds, r)"
  using collection_printed [of ds read_pair "\<lambda>d. debug_str u (fst d) @ lit '': '' @ debug_str u (snd d)" "''};''"
      "''__RESOLVED_RESOURCES={''" AllResolved r]
  by (simp add: forms_def read_pair_printed [simplified] strip_other)

lemma read_all_errors: "statement_readable (AllErrors es) \<Longrightarrow>
    first_form forms (statement_text u (AllErrors es) @ r) = Some (AllErrors es, r)"
  using collection_printed [of es read_error "error_entry u" "''];''" "''__SERIALIZED_ERRORS=[''" AllErrors r]
  by (simp add: forms_def read_error_printed strip_other)

lemma read_all_ids:
  "statement_readable (AllPending xs) \<Longrightarrow>
     first_form forms (statement_text u (AllPending xs) @ r) = Some (AllPending xs, r)"
  "statement_readable (AllIncomplete xs) \<Longrightarrow>
     first_form forms (statement_text u (AllIncomplete xs) @ r) = Some (AllIncomplete xs, r)"
  using collection_printed [of xs read_string "debug_str u" "''];''" "''__PENDING_RESOURCES=[''" AllPending r]
    collection_printed [of xs read_string "debug_str u" "''];''" "''__INCOMPLETE_CHUNKS=[''" AllIncomplete r]
  by (simp_all add: forms_def read_debug strip_other)

lemma read_no_resolvers: "first_form forms (statement_text u NoResolvers @ r) = Some (NoResolvers, r)"
  using form_printed [of "\<lambda>t. Some ((), t)" "[]" "[]" r "()" "''__RESOURCE_RESOLVERS=[];''" "\<lambda>_. NoResolvers"]
  by (simp add: forms_def lit_Nil)

lemma read_pushed_ids:
  "js_readable i \<Longrightarrow> first_form forms (statement_text u (PushPending i) @ r) = Some (PushPending i, r)"
  "js_readable i \<Longrightarrow> first_form forms (statement_text u (PushIncomplete i) @ r) = Some (PushIncomplete i, r)"
  using form_printed [of read_string "debug_str u i" "'');''" r i "''__PENDING_RESOURCES.push(''" PushPending]
    form_printed [of read_string "debug_str u i" "'');''" r i "''__INCOMPLETE_CHUNKS.push(''" PushIncomplete]
  by (simp_all add: forms_def push_pending_def push_incomplete_def read_debug)

lemma read_pushed_error:
  "error_readable e \<Longrightarrow> first_form forms (statement_text u (PushError e) @ r) = Some (PushError e, r)"
  using form_printed [of read_error "error_entry u e" "'');''" r e "''__SERIALIZED_ERRORS.push(''" PushError]
  by (simp add: forms_def push_error_def read_error_printed)

lemma read_set_resolved:
  assumes "js_readable i" "js_readable d"
  shows "first_form forms (statement_text u (SetResolved i d) @ r) = Some (SetResolved i d, r)"
proof -
  let ?s = "debug_str u i @ lit ''] = '' @ debug_str u d"
  let ?rd = "then_read (then_text read_string (lit ''] = '')) read_string"
  have "?rd (?s @ lit '';'' @ r) = Some ((i, d), lit '';'' @ r)"
    using assms by (simp add: then_read_def read_string_then read_debug)
  from form_printed [of ?rd ?s "'';''" r "(i, d)", OF this, of "''__RESOLVED_RESOURCES[''" "\<lambda>(i, d). SetResolved i d"]
  show ?thesis by (simp add: forms_def)
qed

lemma read_statement_text: "statement_readable j \<Longrightarrow> first_form forms (statement_text u j @ r) = Some (j, r)"
  by (cases j) (simp_all add: read_all_resolved read_all_errors read_all_ids read_no_resolvers read_pushed_ids
      read_pushed_error read_set_resolved del: statement_text.simps)

lemma statement_text_nonempty: "statement_text u j \<noteq> []"
  by (cases j) (simp_all add: lit_def push_pending_def push_incomplete_def push_error_def)

lemma read_script_text:
  "list_all statement_readable js \<Longrightarrow> length js \<le> n \<Longrightarrow> read_script n (script_text u js) = Some js"
proof (induction js arbitrary: n)
  case Nil
  then show ?case by (cases n) simp_all
next
  case (Cons j js)
  then obtain m where "n = Suc m" by (cases n) auto
  then show ?case using Cons read_statement_text [of j u] statement_text_nonempty [of u j] by simp
qed

theorem script_read_back: "list_all statement_readable js \<Longrightarrow> script (script_text u js) = Some js"
proof -
  have "length js \<le> length (script_text u js)"
    by (induction js) (use statement_text_nonempty in \<open>auto simp: Suc_le_eq intro: le_less_trans
        dest: length_greater_0_conv [THEN iffD2]\<close>)
  then show "list_all statement_readable js \<Longrightarrow> script (script_text u js) = Some js"
    unfolding script_def by (rule read_script_text [rotated])
qed

end
