(* ===== verification/Hydration_Browser.thy ===== *)
theory Hydration_Browser
  imports Hydration_Script
begin

text \<open>
  The page that the scripts set up, the context that reads it in the browser
  (\<^verbatim>\<open>src/hydration_context/src/hydrate.rs\<close>), and the values that are sent through it: \<open>SharedValue\<close> and resources
  (\<^verbatim>\<open>src/leptos_server/src\<close>). The encoding of a value is an argument.
\<close>

subsection \<open>The globals of the page\<close>

text \<open>A variable that no script has set is \<open>None\<close>; using it is an error.\<close>

record js_page =
  js_resolved :: "(utext \<times> utext) list option"
  js_errors :: "(utext \<times> utext \<times> utext) list option"
  js_pending :: "utext list option"
  js_incomplete :: "utext list option"

definition blank_page :: js_page where
  "blank_page = \<lparr>js_resolved = None, js_errors = None, js_pending = None, js_incomplete = None\<rparr>"

text \<open>A later binding of a property comes first.\<close>

fun run_statement :: "statement \<Rightarrow> js_page \<Rightarrow> js_page option" where
  "run_statement (AllResolved ds) p = Some (p\<lparr>js_resolved := Some (rev ds)\<rparr>)"
| "run_statement (AllErrors es) p = Some (p\<lparr>js_errors := Some es\<rparr>)"
| "run_statement (AllPending xs) p = Some (p\<lparr>js_pending := Some xs\<rparr>)"
| "run_statement (AllIncomplete xs) p = Some (p\<lparr>js_incomplete := Some xs\<rparr>)"
| "run_statement NoResolvers p = Some p"
| "run_statement (PushPending i) p =
     map_option (\<lambda>xs. p\<lparr>js_pending := Some (xs @ [i])\<rparr>) (js_pending p)"
| "run_statement (SetResolved i d) p =
     map_option (\<lambda>ds. p\<lparr>js_resolved := Some ((i, d) # ds)\<rparr>) (js_resolved p)"
| "run_statement (PushIncomplete i) p =
     map_option (\<lambda>xs. p\<lparr>js_incomplete := Some (xs @ [i])\<rparr>) (js_incomplete p)"
| "run_statement (PushError e) p =
     map_option (\<lambda>es. p\<lparr>js_errors := Some (es @ [e])\<rparr>) (js_errors p)"

fun run_script :: "statement list \<Rightarrow> js_page \<Rightarrow> js_page option" where
  "run_script [] p = Some p"
| "run_script (j # js) p = (case run_statement j p of None \<Rightarrow> None | Some q \<Rightarrow> run_script js q)"

text \<open>The page after the scripts of a response.\<close>

definition load_page :: "utext list \<Rightarrow> js_page option" where
  "load_page chunks = (case script (concat chunks) of None \<Rightarrow> None | Some js \<Rightarrow> run_script js blank_page)"

subsection \<open>The context of the browser\<close>

text \<open>The browser runs WebAssembly, where a \<^verbatim>\<open>usize\<close> has 32 bits; the server is taken to have 64.\<close>

record hydrate_context =
  browser_id :: "32 word"
  browser_is_hydrating :: bool
  during_hydration :: bool
  globals :: js_page

definition hydrate_context_new :: "js_page \<Rightarrow> hydrate_context" where
  "hydrate_context_new p = \<lparr>browser_id = 0, browser_is_hydrating = True, during_hydration = True, globals = p\<rparr>"

definition hydrate_next_id :: "hydrate_context \<Rightarrow> utext \<times> hydrate_context" where
  "hydrate_next_id c = (serialized_data_id (ucast (browser_id c)), c\<lparr>browser_id := browser_id c + 1\<rparr>)"

definition hydrate_read_data :: "hydrate_context \<Rightarrow> utext \<Rightarrow> utext option" where
  "hydrate_read_data c i =
     (if \<not> during_hydration c then None else case js_resolved (globals c) of None \<Rightarrow> None | Some ds \<Rightarrow> map_of ds i)"

definition serialized_errors :: "js_page \<Rightarrow> (utext \<times> utext \<times> utext) list" where
  "serialized_errors p = (case js_errors p of None \<Rightarrow> [] | Some es \<Rightarrow> es)"

definition incomplete_chunks :: "js_page \<Rightarrow> utext list" where
  "incomplete_chunks p = (case js_incomplete p of None \<Rightarrow> [] | Some xs \<Rightarrow> xs)"

definition hydrate_errors :: "hydrate_context \<Rightarrow> utext \<Rightarrow> (utext \<times> utext) list" where
  "hydrate_errors c boundary =
     (if \<not> during_hydration c then []
      else map snd (filter (\<lambda>e. fst e = boundary) (serialized_errors (globals c))))"

definition hydrate_incomplete_chunk :: "hydrate_context \<Rightarrow> utext \<Rightarrow> bool" where
  "hydrate_incomplete_chunk c i \<longleftrightarrow> during_hydration c \<and> i \<in> set (incomplete_chunks (globals c))"

definition hydration_complete :: "hydrate_context \<Rightarrow> hydrate_context" where
  "hydration_complete c = c\<lparr>during_hydration := False\<rparr>"

subsection \<open>Either context\<close>

datatype shared_context = Server ssr_context | Browser hydrate_context

fun get_is_hydrating :: "shared_context \<Rightarrow> bool" where
  "get_is_hydrating (Server c) = is_hydrating c"
| "get_is_hydrating (Browser c) = browser_is_hydrating c"

fun set_is_hydrating :: "bool \<Rightarrow> shared_context \<Rightarrow> shared_context" where
  "set_is_hydrating b (Server c) = Server (c\<lparr>is_hydrating := b\<rparr>)"
| "set_is_hydrating b (Browser c) = Browser (c\<lparr>browser_is_hydrating := b\<rparr>)"

fun context_next_id :: "shared_context \<Rightarrow> utext \<times> shared_context" where
  "context_next_id (Server c) = apsnd Server (ssr_next_id c)"
| "context_next_id (Browser c) = apsnd Browser (hydrate_next_id c)"

fun read_data :: "shared_context \<Rightarrow> utext \<Rightarrow> utext option" where
  "read_data (Server c) i = None"
| "read_data (Browser c) i = hydrate_read_data c i"

fun is_during_hydration :: "shared_context \<Rightarrow> bool" where
  "is_during_hydration (Server c) = False"
| "is_during_hydration (Browser c) = during_hydration c"

fun context_write_async :: "utext \<Rightarrow> resource_future \<Rightarrow> shared_context \<Rightarrow> shared_context" where
  "context_write_async i f (Server c) = Server (write_async i f c)"
| "context_write_async i f (Browser c) = Browser c"

text \<open>Ids within a scope, as below a suspended boundary (\<open>SerializedDataIdScope\<close>).\<close>

record id_scope =
  scope_parent :: utext
  scope_next :: "64 word"

definition id_scope_new :: "utext \<Rightarrow> id_scope" where
  "id_scope_new parent = \<lparr>scope_parent = parent, scope_next = 0\<rparr>"

definition scope_next_id :: "id_scope \<Rightarrow> utext \<times> id_scope" where
  "scope_next_id sc = (scope_parent sc @ lit ''-'' @ numeral_text 10 (unat (scope_next sc)), sc\<lparr>scope_next := scope_next sc + 1\<rparr>)"

definition next_serialized_data_id ::
    "id_scope option \<Rightarrow> shared_context \<Rightarrow> utext \<times> id_scope option \<times> shared_context" where
  "next_serialized_data_id scope sc =
     (case scope of
        Some s \<Rightarrow>
          if get_is_hydrating sc then (case scope_next_id s of (i, s') \<Rightarrow> (i, Some s', sc))
          else (case context_next_id sc of (i, sc') \<Rightarrow> (i, scope, sc'))
      | None \<Rightarrow> (case context_next_id sc of (i, sc') \<Rightarrow> (i, scope, sc')))"

subsection \<open>Values and resources\<close>

text \<open>
  An encoding, with \<open>into_encoded_string\<close> and \<open>from_encoded_str\<close> included: either direction may fail.
\<close>

record 'v value_codec =
  encode_value :: "'v \<Rightarrow> utext option"
  decode_value :: "utext \<Rightarrow> 'v option"

text \<open>\<open>SharedValue::new_with_encoding\<close>, where a context is current; \<open>initial\<close> is what the function would return.\<close>

definition new_with_encoding ::
    "'v value_codec \<Rightarrow> 'v \<Rightarrow> id_scope option \<times> shared_context \<Rightarrow> 'v \<times> id_scope option \<times> shared_context" where
  "new_with_encoding codec initial st =
     (case next_serialized_data_id (fst st) (snd st) of (i, scope, sc) \<Rightarrow>
      if is_during_hydration sc then
        (case read_data sc i of
           None \<Rightarrow> initial
         | Some data \<Rightarrow> (case decode_value codec data of None \<Rightarrow> initial | Some v \<Rightarrow> v), scope, sc)
      else
        (initial, scope,
         if get_is_hydrating sc then
           (case encode_value codec initial of
              Some t \<Rightarrow> context_write_async i (Ready [] t) sc
            | None \<Rightarrow> sc)
         else sc))"

text \<open>\<open>initial_value\<close> of a resource, and the resource on the server, whose data is ready after some polls.\<close>

definition initial_value :: "'v value_codec \<Rightarrow> utext \<Rightarrow> shared_context \<Rightarrow> 'v option" where
  "initial_value codec i sc = (case read_data sc i of None \<Rightarrow> None | Some data \<Rightarrow> decode_value codec data)"

definition resource_payload :: "'v value_codec \<Rightarrow> 'v option \<Rightarrow> utext" where
  "resource_payload codec v = (case v of None \<Rightarrow> [] | Some v \<Rightarrow>
     (case encode_value codec v of Some t \<Rightarrow> t | None \<Rightarrow> []))"

primrec resource_ready :: "'v value_codec \<Rightarrow> context_op list list \<Rightarrow> 'v option \<Rightarrow> resource_future" where
  "resource_ready codec [] v = Ready [] (resource_payload codec v)"
| "resource_ready codec (ops # opss) v = Later ops (resource_ready codec opss v)"

definition new_resource ::
    "'v value_codec \<Rightarrow> context_op list list \<Rightarrow> 'v option \<Rightarrow> id_scope option \<times> shared_context
      \<Rightarrow> 'v option \<times> id_scope option \<times> shared_context" where
  "new_resource codec opss loaded st =
     (case next_serialized_data_id (fst st) (snd st) of (i, scope, sc) \<Rightarrow>
      (initial_value codec i sc, scope,
       if get_is_hydrating sc then context_write_async i (resource_ready codec opss loaded) sc else sc))"

end
