(* ===== verification/Hydration_Stream.thy ===== *)
theory Hydration_Stream
  imports Hydration_Browser "HOL-Library.Multiset"
begin

text \<open>
  The stream of scripts, step by step: every text that it sends is the text of statements, and the statements
  account for what was registered on the context, by the code of the page and by the futures. The order of
  the operations on the context, which depends on the polls, is a list that the proofs carry along.
\<close>

subsection \<open>What futures and operations amount to\<close>

fun fut_result :: "resource_future \<Rightarrow> utext" where
  "fut_result (Ready ops d) = d"
| "fut_result (Later ops f) = fut_result f"

text \<open>All the operations of a future, and of an operation with the futures it registers.\<close>

fun fut_ops :: "resource_future \<Rightarrow> context_op multiset"
  and op_ops :: "context_op \<Rightarrow> context_op multiset" where
  "fut_ops (Ready ops d) = (\<Sum>act\<leftarrow>ops. op_ops act)"
| "fut_ops (Later ops f) = (\<Sum>act\<leftarrow>ops. op_ops act) + fut_ops f"
| "op_ops (WriteAsync i f) = add_mset (WriteAsync i f) (fut_ops f)"
| "op_ops (RegisterError b i m) = {#RegisterError b i m#}"
| "op_ops (SealErrors b) = {#SealErrors b#}"
| "op_ops (SetIncomplete i) = {#SetIncomplete i#}"

abbreviation all_ops :: "context_op list \<Rightarrow> context_op multiset" where
  "all_ops ops \<equiv> (\<Sum>act\<leftarrow>ops. op_ops act)"

abbreviation futs_ops :: "(utext \<times> resource_future) list \<Rightarrow> context_op multiset" where
  "futs_ops fs \<equiv> (\<Sum>e\<leftarrow>fs. fut_ops (snd e))"

text \<open>The parts of a list of operations.\<close>

fun op_write :: "context_op \<Rightarrow> (utext \<times> utext) list" where
  "op_write (WriteAsync i f) = [(i, fut_result f)]"
| "op_write _ = []"

fun op_error :: "context_op \<Rightarrow> (utext \<times> utext \<times> utext) list" where
  "op_error (RegisterError b i m) = [(b, i, m)]"
| "op_error _ = []"

fun op_mark :: "context_op \<Rightarrow> utext list" where
  "op_mark (SetIncomplete i) = [i]"
| "op_mark _ = []"

fun op_seal :: "context_op \<Rightarrow> utext list" where
  "op_seal (SealErrors b) = [b]"
| "op_seal _ = []"

text \<open>The parts of a list of statements after the opening ones.\<close>

fun st_resolved :: "statement \<Rightarrow> (utext \<times> utext) list" where
  "st_resolved (SetResolved i d) = [(i, d)]"
| "st_resolved _ = []"

fun st_error :: "statement \<Rightarrow> (utext \<times> utext \<times> utext) list" where
  "st_error (PushError e) = [e]"
| "st_error _ = []"

fun st_mark :: "statement \<Rightarrow> utext list" where
  "st_mark (PushIncomplete i) = [i]"
| "st_mark _ = []"

fun st_pending :: "statement \<Rightarrow> utext list" where
  "st_pending (PushPending i) = [i]"
| "st_pending _ = []"

fun is_push :: "statement \<Rightarrow> bool" where
  "is_push (PushPending i) = True"
| "is_push (SetResolved i d) = True"
| "is_push (PushIncomplete i) = True"
| "is_push (PushError e) = True"
| "is_push _ = False"

abbreviation part :: "('a \<Rightarrow> 'b list) \<Rightarrow> 'a list \<Rightarrow> 'b list" where
  "part f xs \<equiv> concat (map f xs)"

lemma part_none [simp]: "part (\<lambda>x. []) xs = []"
  by (induction xs) auto

text \<open>Every id is pending before it is resolved.\<close>

fun announced :: "utext set \<Rightarrow> statement list \<Rightarrow> bool" where
  "announced P [] = True"
| "announced P (j # js) \<longleftrightarrow> (\<forall>i d. j = SetResolved i d \<longrightarrow> i \<in> P) \<and> announced (P \<union> set (st_pending j)) js"

lemma announced_append: "announced P (xs @ ys) \<longleftrightarrow> announced P xs \<and> announced (P \<union> set (part st_pending xs)) ys"
  by (induction xs arbitrary: P) (auto simp: Un_assoc)

subsection \<open>The invariant\<close>

text \<open>
  After the operations \<open>acts\<close> of \<open>registered\<close>, the statements \<open>js\<close> have been sent: \<open>es0\<close>, \<open>ps\<close> and \<open>is0\<close> are the errors, ids
  and markers of the initial chunk.
\<close>

definition escaped_data :: "utext \<times> utext \<Rightarrow> utext \<times> utext" where
  "escaped_data = apsnd escape_lt"

definition owed_data :: "(utext \<times> resource_future) list \<Rightarrow> (utext \<times> utext) list" where
  "owed_data = map (escaped_data \<circ> apsnd fut_result)"

definition accounts :: "context_op multiset \<Rightarrow> context_op list \<Rightarrow> streaming \<Rightarrow> bool" where
  "accounts registered acts st \<longleftrightarrow> mset acts + futs_ops (async_buf (fst st)) + futs_ops (in_flight (snd st)) = registered"

definition data_sent :: "utext list \<Rightarrow> context_op list \<Rightarrow> statement list \<Rightarrow> streaming \<Rightarrow> bool" where
  "data_sent ps acts js st \<longleftrightarrow>
     mset (part st_resolved js) + mset (owed_data (async_buf (fst st))) + mset (owed_data (in_flight (snd st)))
       = mset (map escaped_data (part op_write acts)) \<and>
     announced (set ps) js \<and> initial_pending_ids (snd st) \<subseteq> set ps \<and>
     set (part st_pending js) \<subseteq> fst ` set (part st_resolved js)"

definition marks_sent :: "utext list \<Rightarrow> context_op list \<Rightarrow> statement list \<Rightarrow> streaming \<Rightarrow> bool" where
  "marks_sent is0 acts js st \<longleftrightarrow>
     incomplete (fst st) = part op_mark acts \<and> incomplete_emitted (snd st) \<le> length (incomplete (fst st)) \<and>
     is0 @ part st_mark js = take (incomplete_emitted (snd st)) (incomplete (fst st))"

definition unsealed :: "ssr_context \<Rightarrow> (utext \<times> utext \<times> utext) list \<Rightarrow> (utext \<times> utext \<times> utext) list" where
  "unsealed c = filter (\<lambda>e. fst e \<notin> sealed_error_boundaries c)"

definition errors_sent ::
    "(utext \<times> utext \<times> utext) list \<Rightarrow> context_op list \<Rightarrow> statement list \<Rightarrow> streaming \<Rightarrow> bool" where
  "errors_sent es0 acts js st \<longleftrightarrow>
     sealed_error_boundaries (fst st) = set (part op_seal acts) \<and>
     unsealed (fst st) (es0 @ part st_error js @ ctx_errors (fst st)) = unsealed (fst st) (part op_error acts) \<and>
     set (es0 @ part st_error js @ ctx_errors (fst st)) \<subseteq> set (part op_error acts)"

definition sent ::
    "(utext \<times> utext \<times> utext) list \<Rightarrow> utext list \<Rightarrow> utext list \<Rightarrow> context_op multiset \<Rightarrow> context_op list
      \<Rightarrow> statement list \<Rightarrow> streaming \<Rightarrow> bool" where
  "sent es0 ps is0 registered acts js st \<longleftrightarrow>
     accounts registered acts st \<and> data_sent ps acts js st \<and> marks_sent is0 acts js st \<and> errors_sent es0 acts js st \<and>
     list_all is_push js"

lemmas sent_defs = sent_def accounts_def data_sent_def marks_sent_def errors_sent_def

subsection \<open>Steps\<close>

lemma unsealed_append: "unsealed c (xs @ ys) = unsealed c xs @ unsealed c ys"
  by (simp add: unsealed_def)

lemma unsealed_more:
  "unsealed c xs = unsealed c ys \<Longrightarrow> sealed_error_boundaries c \<subseteq> sealed_error_boundaries c' \<Longrightarrow>
     unsealed c' xs = unsealed c' ys"
proof -
  assume eq: "unsealed c xs = unsealed c ys" and sub: "sealed_error_boundaries c \<subseteq> sealed_error_boundaries c'"
  have "unsealed c' zs = filter (\<lambda>e. fst e \<notin> sealed_error_boundaries c') (unsealed c zs)" for zs
    unfolding unsealed_def filter_filter by (rule filter_cong) (use sub in auto)
  then show "unsealed c' xs = unsealed c' ys" using eq by simp
qed

lemma owed_data_append [simp]: "owed_data (xs @ ys) = owed_data xs @ owed_data ys"
  by (simp add: owed_data_def)

lemma sent_op:
  assumes "sent es0 ps is0 registered acts js (c, s)"
  shows "sent es0 ps is0 (registered + op_ops act) (acts @ [act]) js (apply_op act c, s)"
proof (cases act)
  case (WriteAsync i f)
  then show ?thesis
    using assms by (auto simp: sent_defs write_async_def unsealed_def owed_data_def escaped_data_def)
next
  case (RegisterError b i m)
  then show ?thesis using assms by (auto simp: sent_defs register_error_def unsealed_def)
next
  case (SealErrors b)
  then show ?thesis
    using assms unsealed_more [of c _ _ "seal_errors b c"] by (auto simp: sent_defs seal_errors_def)
next
  case (SetIncomplete i)
  then show ?thesis using assms by (auto simp: sent_defs set_incomplete_chunk_def unsealed_def)
qed

lemma sent_ops:
  assumes "sent es0 ps is0 registered acts js (c, s)"
  shows "sent es0 ps is0 (registered + all_ops ops) (acts @ ops) js (apply_ops ops c, s)"
  using assms
proof (induction ops arbitrary: registered acts c)
  case (Cons act ops)
  show ?case using Cons.IH [OF sent_op [OF Cons.prems, of act]] by (simp add: add.assoc)
qed simp

text \<open>A future of the set is polled: it stays, or it leaves with its data.\<close>

lemma poll_future_cases:
  "poll_future f = (ops, r) \<Longrightarrow>
     (case r of Inl d \<Rightarrow> f = Ready ops d | Inr f' \<Rightarrow> f = Later ops f')"
  by (cases f) auto

lemma sent_later:
  assumes sent: "sent es0 ps is0 registered acts js (c, s)"
    and fs: "in_flight s = xs @ (i, Later ops f) # ys"
  shows "sent es0 ps is0 registered (acts @ ops) js (apply_ops ops c, s\<lparr>in_flight := xs @ (i, f) # ys\<rparr>)"
proof -
  obtain rest where rest: "registered = rest + all_ops ops"
    and "mset acts + futs_ops (async_buf c) + futs_ops (xs @ (i, f) # ys) = rest"
    using sent fs by (auto simp: sent_defs ac_simps)
  then have "sent es0 ps is0 rest acts js (c, s\<lparr>in_flight := xs @ (i, f) # ys\<rparr>)"
    using sent fs by (auto simp: sent_defs owed_data_def)
  from sent_ops [OF this, of ops] show ?thesis by (simp add: rest)
qed

definition answer :: "data_stream \<Rightarrow> utext \<Rightarrow> utext \<Rightarrow> statement list" where
  "answer s i d = (if i \<in> initial_pending_ids s then [] else [PushPending i]) @ [SetResolved i (escape_lt d)]"

lemma answer_text:
  "script_text u (answer s i d) =
     (if i \<in> initial_pending_ids s then [] else push_pending u i) @ set_resolved u i d"
  by (simp add: answer_def set_resolved_def)

lemma sent_ready:
  assumes sent: "sent es0 ps is0 registered acts js (c, s)"
    and fs: "in_flight s = xs @ (i, Ready ops d) # ys"
  shows "sent es0 ps is0 registered (acts @ ops) (js @ answer s i d) (apply_ops ops c, s\<lparr>in_flight := xs @ ys\<rparr>)"
proof -
  obtain rest where rest: "registered = rest + all_ops ops"
    and "mset acts + futs_ops (async_buf c) + futs_ops (xs @ ys) = rest"
    using sent fs by (auto simp: sent_defs ac_simps)
  moreover have "announced (set ps) (js @ answer s i d)"
    using sent by (auto simp: sent_defs announced_append answer_def)
  ultimately have "sent es0 ps is0 rest acts (js @ answer s i d) (c, s\<lparr>in_flight := xs @ ys\<rparr>)"
    using sent fs by (auto simp: sent_defs owed_data_def escaped_data_def answer_def)
  from sent_ops [OF this, of ops] show ?thesis by (simp add: rest)
qed

lemma drain_ready_sent:
  assumes "sent es0 ps is0 registered acts js (c, s)" "drain_ready u woken (c, s) = (out, any, c', s')"
  shows "\<exists>acts' js'. out = script_text u js' \<and> sent es0 ps is0 registered acts' (js @ js') (c', s')"
  using assms
proof (induction woken arbitrary: acts js c s out any)
  case Nil
  then show ?case by (intro exI [of _ acts] exI [of _ "[]"]) auto
next
  case (Cons k woken)
  show ?case
  proof (cases "k < length (in_flight s)")
    case False
    then show ?thesis using Cons by auto
  next
    case True
    obtain i f where if_k: "in_flight s ! k = (i, f)" by (cases "in_flight s ! k")
    let ?xs = "take k (in_flight s)" and ?ys = "drop (Suc k) (in_flight s)"
    have fs: "in_flight s = ?xs @ (i, f) # ?ys" using True if_k id_take_nth_drop by metis
    show ?thesis
    proof (cases f)
      case (Ready ops d)
      note st = sent_ready [OF Cons.prems(1) fs [unfolded Ready]]
      obtain out' any' where run: "drain_ready u woken (apply_ops ops c, s\<lparr>in_flight := ?xs @ ?ys\<rparr>) = (out', any', c', s')"
        and out: "out = script_text u (answer s i d) @ out'"
        using Cons.prems(2) True if_k Ready answer_text [of u s i d] by (auto split: prod.splits)
      from Cons.IH [OF st run] obtain acts' js' where
        "out' = script_text u js'" "sent es0 ps is0 registered acts' ((js @ answer s i d) @ js') (c', s')" by blast
      then show ?thesis using out by (intro exI [of _ acts'] exI [of _ "answer s i d @ js'"]) simp
    next
      case (Later ops f')
      have upd: "(in_flight s)[k := (i, f')] = ?xs @ (i, f') # ?ys" using True by (rule upd_conv_take_nth_drop)
      note st = sent_later [OF Cons.prems(1) fs [unfolded Later]]
      show ?thesis using Cons.IH [OF st] Cons.prems(2) True if_k Later upd by simp
    qed
  qed
qed

lemma stage_futures_sent:
  "sent es0 ps is0 registered acts js st \<Longrightarrow> sent es0 ps is0 registered acts js (stage_futures st)"
  by (auto simp: sent_defs stage_futures_def unsealed_def owed_data_def ac_simps split: prod.split)

lemma poll_loop_sent:
  assumes "sent es0 ps is0 registered acts js st" "poll_loop u rounds st = (out, st')"
  shows "\<exists>acts' js'. out = script_text u js' \<and> sent es0 ps is0 registered acts' (js @ js') st'"
  using assms
proof (induction rounds arbitrary: acts js st out)
  case Nil
  then show ?case by (intro exI [of _ acts] exI [of _ "[]"]) (auto intro: stage_futures_sent)
next
  case (Cons woken rounds)
  obtain c s where cs: "stage_futures st = (c, s)" by (cases "stage_futures st")
  obtain out1 any c1 s1 where drain: "drain_ready u woken (c, s) = (out1, any, c1, s1)"
    by (cases "drain_ready u woken (c, s)") auto
  from drain_ready_sent [OF _ drain, of es0 ps is0 registered acts js] obtain acts1 js1 where
    1: "out1 = script_text u js1" "sent es0 ps is0 registered acts1 (js @ js1) (c1, s1)"
    using stage_futures_sent [OF Cons.prems(1)] cs by auto
  show ?case
  proof (cases "any \<and> async_buf c1 \<noteq> []")
    case True
    obtain out2 where loop: "poll_loop u rounds (c1, s1) = (out2, st')" and "out = out1 @ out2"
      using Cons.prems(2) cs drain True by (auto split: prod.splits)
    moreover from Cons.IH [OF 1(2) loop] obtain acts2 js2 where
      "out2 = script_text u js2" "sent es0 ps is0 registered acts2 ((js @ js1) @ js2) st'" by blast
    ultimately show ?thesis using 1(1) by (intro exI [of _ acts2] exI [of _ "js1 @ js2"]) simp
  next
    case False
    then have "out = out1" "st' = (c1, s1)" using Cons.prems(2) cs drain by (auto split: if_splits)
    then show ?thesis using 1 by blast
  qed
qed

lemma flush_incomplete_sent:
  assumes "sent es0 ps is0 registered acts js st" "flush_incomplete u st = (out, st')"
  shows "\<exists>js'. out = script_text u js' \<and> sent es0 ps is0 registered acts (js @ js') st'"
proof (intro exI conjI)
  let ?js = "map PushIncomplete (drop (incomplete_emitted (snd st)) (incomplete (fst st)))"
  show "out = script_text u ?js"
    using assms(2) by (auto simp: flush_incomplete_def comp_def split: prod.splits)
  have "announced P (map PushIncomplete xs)" "list_all is_push (map PushIncomplete xs)" for xs P
    by (induction xs) auto
  then show "sent es0 ps is0 registered acts (js @ ?js) st'"
    using assms
    by (auto simp: sent_defs flush_incomplete_def announced_append unsealed_def comp_def
        simp flip: append_assoc split: prod.splits)
qed

lemma flush_errors_sent:
  assumes "sent es0 ps is0 registered acts js st" "flush_errors u st = (out, st')"
  shows "\<exists>js'. out = script_text u js' \<and> sent es0 ps is0 registered acts (js @ js') st'"
proof (intro exI conjI)
  let ?js = "map PushError (unsealed (fst st) (ctx_errors (fst st)))"
  show "out = script_text u ?js"
    using assms(2) by (auto simp: flush_errors_def unsealed_def comp_def split: prod.splits)
  have "announced P (map PushError xs)" "list_all is_push (map PushError xs)" for xs P
    by (induction xs) auto
  then show "sent es0 ps is0 registered acts (js @ ?js) st'"
    using assms by (auto simp: sent_defs flush_errors_def announced_append unsealed_def comp_def split: prod.splits)
qed

subsection \<open>Polls\<close>

fun poll_text :: "poll_result \<Rightarrow> utext" where
  "poll_text (PollChunk t) = t"
| "poll_text _ = []"

lemma poll_async_data_sent:
  assumes "sent es0 ps is0 registered acts js st" "poll_async_data u rounds st = (r, st')"
  shows "\<exists>acts' js'. poll_text r = script_text u js' \<and> sent es0 ps is0 registered acts' (js @ js') st'"
proof -
  obtain out1 st1 where 1: "poll_loop u rounds st = (out1, st1)" by (cases "poll_loop u rounds st")
  obtain out2 st2 where 2: "flush_incomplete u st1 = (out2, st2)" by (cases "flush_incomplete u st1")
  obtain out3 st3 where 3: "flush_errors u st2 = (out3, st3)" by (cases "flush_errors u st2")
  obtain acts1 js1 where s1: "out1 = script_text u js1" "sent es0 ps is0 registered acts1 (js @ js1) st1"
    using poll_loop_sent [OF assms(1) 1] by blast
  obtain js2 where s2: "out2 = script_text u js2" "sent es0 ps is0 registered acts1 ((js @ js1) @ js2) st2"
    using flush_incomplete_sent [OF s1(2) 2] by blast
  obtain js3 where s3: "out3 = script_text u js3" "sent es0 ps is0 registered acts1 (((js @ js1) @ js2) @ js3) st3"
    using flush_errors_sent [OF s2(2) 3] by blast
  have "st' = st3" "poll_text r = out1 @ out2 @ out3"
    using assms(2) 1 2 3 by (auto simp: poll_async_data_def Let_def split: prod.splits if_splits)
  then show ?thesis using s1 s2 s3 by (intro exI [of _ acts1] exI [of _ "js1 @ js2 @ js3"]) simp
qed

lemma poll_async_data_done:
  assumes "poll_async_data u rounds st = (PollDone, c, s)"
  shows "in_flight s = [] \<and> async_buf c = [] \<and> ctx_errors c = [] \<and> incomplete_emitted s = length (incomplete c)"
  using assms
  by (auto simp: poll_async_data_def flush_incomplete_def flush_errors_def Let_def split: prod.splits if_splits)

lemma drain_ready_stage: "stage (snd (snd (snd (drain_ready u woken st)))) = stage (snd st)"
  by (induction u woken st rule: drain_ready.induct) (auto split: prod.splits sum.splits)

lemma poll_loop_stage: "stage (snd (snd (poll_loop u rounds st))) = stage (snd st)"
proof (induction rounds arbitrary: st)
  case Nil
  then show ?case by (simp add: stage_futures_def split: prod.split)
next
  case (Cons woken rounds)
  have "stage (snd (snd (snd (drain_ready u woken (stage_futures st))))) = stage (snd st)"
    by (simp add: drain_ready_stage stage_futures_def split: prod.split)
  moreover have "poll_loop u rounds st1 = (x, y) \<Longrightarrow> stage (snd y) = stage (snd st1)" for st1 x y
    using Cons [of st1] by simp
  ultimately show ?case by (force split: prod.splits)
qed

lemma poll_async_data_stage: "stage (snd (snd (poll_async_data u rounds st))) = stage (snd st)"
  using poll_loop_stage [of u rounds st]
  by (auto simp: poll_async_data_def flush_incomplete_def flush_errors_def Let_def split: prod.splits)

text \<open>What is computed and not yet sent: the initial chunk.\<close>

definition unsent :: "streaming \<Rightarrow> utext" where
  "unsent st = (case stage (snd st) of Initial t \<Rightarrow> t | _ \<Rightarrow> [])"

lemma sent_stage [simp]: "sent es0 ps is0 registered acts js (c, s\<lparr>stage := x\<rparr>) = sent es0 ps is0 registered acts js (c, s)"
  by (simp add: sent_defs)

lemma poll_stream_sent:
  assumes "sent es0 ps is0 registered acts js st" "poll_stream u rounds st = (r, st')"
  shows "\<exists>acts' js'. poll_text r @ unsent st' = unsent st @ script_text u js' \<and>
      sent es0 ps is0 registered acts' (js @ js') st'"
proof (cases "stage (snd st)")
  case (Initial t)
  then show ?thesis using assms
    by (intro exI [of _ acts] exI [of _ "[]"]) (auto simp: poll_stream_def unsent_def split: prod.splits)
next
  case Streaming
  obtain r1 c s where poll: "poll_async_data u rounds st = (r1, c, s)" by (cases "poll_async_data u rounds st") auto
  obtain acts' js' where s: "poll_text r1 = script_text u js'" "sent es0 ps is0 registered acts' (js @ js') (c, s)"
    using poll_async_data_sent [OF assms(1) poll] by blast
  have stage: "stage s = Streaming" using poll_async_data_stage [of u rounds st] poll Streaming by simp
  have "poll_text r @ unsent st' = unsent st @ script_text u js' \<and> sent es0 ps is0 registered acts' (js @ js') st'"
  proof (cases "r1 = PollDone")
    case True
    then have "tail_chunk u (c, s) = []"
      using poll poll_async_data_done by (simp add: tail_chunk_def flush_incomplete_def)
    then show ?thesis using assms(2) poll s Streaming True by (auto simp: poll_stream_def unsent_def)
  next
    case False
    then have "r = r1" "st' = (c, s)"
      using assms(2) poll Streaming by (auto simp: poll_stream_def split: poll_result.splits)
    then show ?thesis using s Streaming stage by (simp add: unsent_def)
  qed
  then show ?thesis by blast
next
  case Ended
  then show ?thesis using assms
    by (intro exI [of _ acts] exI [of _ "[]"]) (auto simp: poll_stream_def unsent_def)
qed

lemma poll_stream_ended:
  assumes "poll_stream u rounds st = (r, c, s)" "stage (snd st) \<noteq> Ended" "stage s = Ended"
  shows "in_flight s = [] \<and> async_buf c = [] \<and> ctx_errors c = [] \<and> incomplete_emitted s = length (incomplete c)"
proof (cases "stage (snd st)")
  case Streaming
  obtain r1 st1 where poll: "poll_async_data u rounds st = (r1, st1)" by (cases "poll_async_data u rounds st")
  then have "stage (snd st1) = Streaming" using poll_async_data_stage [of u rounds st] Streaming by simp
  then show ?thesis using assms poll Streaming poll_async_data_done [of u rounds st]
    by (cases r1) (auto simp: poll_stream_def split: prod.splits)
qed (use assms in \<open>auto simp: poll_stream_def\<close>)

fun event_ops :: "response_event \<Rightarrow> context_op list" where
  "event_ops (Do act) = [act]"
| "event_ops (Poll rounds) = []"

lemma respond_sent:
  assumes "sent es0 ps is0 registered acts js st" "respond u es st = (ts, st')"
  shows "\<exists>acts' js'. concat ts @ unsent st' = unsent st @ script_text u js' \<and>
      sent es0 ps is0 (registered + all_ops (part event_ops es)) acts' (js @ js') st'"
  using assms
proof (induction u es st arbitrary: registered acts js ts rule: respond.induct)
  case (1 u st)
  then show ?case by (intro exI [of _ acts] exI [of _ "[]"]) auto
next
  case (2 u rounds es st)
  obtain r st1 where poll: "poll_stream u rounds st = (r, st1)" by (cases "poll_stream u rounds st")
  obtain acts1 js1 where 1: "poll_text r @ unsent st1 = unsent st @ script_text u js1"
    "sent es0 ps is0 registered acts1 (js @ js1) st1"
    using poll_stream_sent [OF "2.prems"(1) poll] by blast
  obtain ts1 where run: "respond u es st1 = (ts1, st')" and ts: "concat ts = poll_text r @ concat ts1"
    using "2.prems"(2) poll by (cases r) (auto split: prod.splits)
  have "\<exists>acts' js'. concat ts1 @ unsent st' = unsent st1 @ script_text u js' \<and>
      sent es0 ps is0 (registered + all_ops (part event_ops es)) acts' ((js @ js1) @ js') st'"
    using "2.IH" [OF poll [symmetric] _ 1(2)] "2.IH" 1(2) run poll by (cases r) blast+
  then obtain acts' js' where "concat ts1 @ unsent st' = unsent st1 @ script_text u js'"
    "sent es0 ps is0 (registered + all_ops (part event_ops es)) acts' ((js @ js1) @ js') st'" by blast
  then have "concat ts @ unsent st' = unsent st @ script_text u (js1 @ js')"
    using 1(1) ts by (metis append_assoc concat_append map_append)
  then show ?case using \<open>sent es0 ps is0 _ acts' _ st'\<close>
    by (intro exI [of _ acts'] exI [of _ "js1 @ js'"]) auto
next
  case (3 u act es c s)
  from "3.IH" [OF sent_op [OF "3.prems"(1), of act]] "3.prems"(2)
  show ?case by (simp add: unsent_def add.assoc)
qed

end
