(* ===== verification/Hydration_Props.thy ===== *)
theory Hydration_Props
  imports Hydration_Stream "HOL-Library.List_Lexorder"
begin

text \<open>
  What the scripts of a response do to a page: all the data arrives, announced before it is resolved; values that
  the server computed are the values of the browser; the stream ends; and no script closes its tag. At the end,
  where an encoding that is not JSON goes wrong.
\<close>

subsection \<open>The scripts of a whole response\<close>

text \<open>A context on which nothing has been registered, whatever ids it has given out.\<close>

definition fresh_context :: "ssr_context \<Rightarrow> bool" where
  "fresh_context c \<longleftrightarrow> sync_data c = [] \<and> async_buf c = [] \<and> ctx_errors c = [] \<and> sealed_error_boundaries c = {} \<and>
     incomplete c = []"

definition first_statements :: "ssr_context \<Rightarrow> utext list \<Rightarrow> statement list" where
  "first_statements c ps = [AllResolved [], AllErrors (ctx_errors c), AllPending ps, AllIncomplete (incomplete c), NoResolvers]"

lemma apply_op_sync [simp]: "sync_data (apply_op act c) = sync_data c"
  by (cases act) (simp_all add: write_async_def register_error_def seal_errors_def set_incomplete_chunk_def)

lemma apply_ops_sync [simp]: "sync_data (apply_ops ops c) = sync_data c"
  by (induction ops arbitrary: c) simp_all

lemma initial_chunk_text: "sync_data c = [] \<Longrightarrow> initial_chunk u ps c = script_text u (first_statements c ps)"
  by (simp add: initial_chunk_def first_statements_def)

abbreviation before_stream :: data_stream where
  "before_stream \<equiv> \<lparr>stage = Streaming, in_flight = [], incomplete_emitted = 0, initial_pending_ids = {}\<rparr>"

lemma sent_before:
  assumes "fresh_context base"
  shows "sent [] ps [] (all_ops ops) ops [] (apply_ops ops base, before_stream)"
proof -
  have "sent [] ps [] {#} [] [] (base, before_stream)"
    using assms by (simp add: sent_defs fresh_context_def unsealed_def owed_data_def)
  from sent_ops [OF this, of ops] show ?thesis by simp
qed

lemma pending_data_sent:
  fixes ops :: "context_op list"
  assumes "\<And>S. finite S \<Longrightarrow> set (order S) = S" "fresh_context base"
  defines "c \<equiv> apply_ops ops base"
  shows "sent (ctx_errors c) (order (fst ` set (async_buf c))) (incomplete c) (all_ops ops) ops [] (pending_data u order c)"
  using sent_before [OF assms(2), of "order (fst ` set (async_buf c))" ops] assms(1) [of "fst ` set (async_buf c)"]
  unfolding c_def [symmetric] by (auto simp: sent_defs pending_data_def Let_def unsealed_def)

lemma response_statements:
  assumes order: "\<And>S. finite S \<Longrightarrow> set (order S) = S"
    and fresh: "fresh_context base"
    and run: "respond u es (pending_data u order (apply_ops ops base)) = (ts, st)"
  defines "c0 \<equiv> apply_ops ops base"
  shows "\<exists>acts js ps. concat ts @ unsent st = script_text u (first_statements c0 ps @ js) \<and>
    sent (ctx_errors c0) ps (incomplete c0) (all_ops (ops @ part event_ops es)) acts js st \<and> set ps = fst ` set (async_buf c0)"
proof -
  let ?ps = "order (fst ` set (async_buf c0))"
  have "unsent (pending_data u order c0) = script_text u (first_statements c0 ?ps)"
    by (simp add: unsent_def pending_data_def Let_def c0_def initial_chunk_text fresh [unfolded fresh_context_def])
  moreover have "set ?ps = fst ` set (async_buf c0)" using order by simp
  ultimately show ?thesis
    using respond_sent [OF pending_data_sent [OF order fresh, of ops u] run] unfolding c0_def by fastforce
qed

text \<open>Running statements that only add.\<close>

lemma run_pushes:
  assumes "list_all is_push js" "js_resolved p = Some ds" "js_errors p = Some es" "js_pending p = Some ps"
    "js_incomplete p = Some is"
  shows "run_script js p = Some (p\<lparr>js_resolved := Some (rev (part st_resolved js) @ ds), js_errors := Some (es @ part st_error js),
    js_pending := Some (ps @ part st_pending js), js_incomplete := Some (is @ part st_mark js)\<rparr>)"
  using assms
proof (induction js arbitrary: p ds es ps "is")
  case (Cons j js)
  then show ?case by (cases j) simp_all
qed simp

lemma run_first_statements:
  assumes "list_all is_push js"
  shows "run_script (first_statements c ps @ js) blank_page = Some \<lparr>js_resolved = Some (rev (part st_resolved js)),
    js_errors = Some (ctx_errors c @ part st_error js), js_pending = Some (ps @ part st_pending js),
    js_incomplete = Some (incomplete c @ part st_mark js)\<rparr>"
  using run_pushes [OF assms] by (simp add: first_statements_def blank_page_def)

lemma announced_split: "announced P (xs @ SetResolved i d # ys) \<Longrightarrow> i \<in> P \<union> set (part st_pending xs)"
  by (simp add: announced_append)

text \<open>Where the texts of the statements come from.\<close>

lemma sent_sources:
  assumes "sent es0 ps is0 registered acts js st"
  shows "(i, d) \<in> set (part st_resolved js) \<Longrightarrow> \<exists>d'. d = escape_lt d' \<and> (i, d') \<in> set (part op_write acts)"
    and "set (part st_pending js) \<subseteq> fst ` set (part op_write acts)"
    and "set es0 \<union> set (part st_error js) \<subseteq> set (part op_error acts)"
    and "set is0 \<union> set (part st_mark js) \<subseteq> set (part op_mark acts)"
proof -
  have "mset (part st_resolved js) \<subseteq># mset (part st_resolved js) + mset (owed_data (async_buf (fst st))) + mset (owed_data (in_flight (snd st)))"
    by (simp add: add.assoc)
  moreover have "\<dots> = mset (map escaped_data (part op_write acts))"
    using assms by (simp only: sent_def data_sent_def)
  ultimately have "mset (part st_resolved js) \<subseteq># mset (map escaped_data (part op_write acts))" by simp
  then have "set (part st_resolved js) \<subseteq> set (map escaped_data (part op_write acts))"
    by (rule set_mset_mono [of "mset _" "mset _", unfolded set_mset_mset])
  then show *: "\<exists>d'. d = escape_lt d' \<and> (i, d') \<in> set (part op_write acts)" if "(i, d) \<in> set (part st_resolved js)" for i d
    using subsetD [OF _ that] by (fastforce simp: escaped_data_def simp del: set_concat)
  show "set (part st_pending js) \<subseteq> fst ` set (part op_write acts)"
  proof
    fix i
    assume "i \<in> set (part st_pending js)"
    then obtain d where "(i, d) \<in> set (part st_resolved js)"
      using assms unfolding sent_def data_sent_def by (metis (no_types, lifting) imageE prod.collapse subsetD)
    with * show "i \<in> fst ` set (part op_write acts)" by (metis fst_conv image_eqI)
  qed
  show "set es0 \<union> set (part st_error js) \<subseteq> set (part op_error acts)"
    using assms(1) by (auto simp: sent_def errors_sent_def)
  have "set (is0 @ part st_mark js) \<subseteq> set (part op_mark acts)"
    using assms(1) unfolding sent_def marks_sent_def by (metis set_take_subset)
  then show "set is0 \<union> set (part st_mark js) \<subseteq> set (part op_mark acts)" by simp
qed

lemma in_all_ops: "act \<in> set ops \<Longrightarrow> act \<in># all_ops ops"
  by (induction ops) (auto, cases act, auto)

lemma sent_acts: "sent es0 ps is0 registered acts js st \<Longrightarrow> act \<in> set acts \<Longrightarrow> act \<in># registered"
  by (auto simp: sent_def accounts_def)

lemma buffered_ids: "fst ` set (async_buf (apply_ops ops c)) \<subseteq> fst ` set (async_buf c) \<union> fst ` set (part op_write ops)"
proof (induction ops arbitrary: c)
  case (Cons act ops)
  have "fst ` set (async_buf (apply_op act c)) \<subseteq> fst ` set (async_buf c) \<union> fst ` set (op_write act)"
    by (cases act) (auto simp: write_async_def register_error_def seal_errors_def set_incomplete_chunk_def)
  then have "fst ` set (async_buf (apply_op act c)) \<union> fst ` set (part op_write ops)
      \<subseteq> fst ` set (async_buf c) \<union> fst ` set (part op_write (act # ops))"
    by (simp only: list.map concat.simps set_append image_Un) blast
  with Cons [of "apply_op act c"] show ?case by (simp only: fold_Cons comp_apply)
qed simp

text \<open>
  A property of texts that holds for all that is registered, and that \<open>escape_lt\<close> establishes for data, holds for the
  texts of all statements.
\<close>

definition op_all :: "(utext \<Rightarrow> bool) \<Rightarrow> (utext \<Rightarrow> bool) \<Rightarrow> context_op \<Rightarrow> bool" where
  "op_all P Q act \<longleftrightarrow> (\<forall>(i, d) \<in> set (op_write act). P i \<and> Q d) \<and>
     (\<forall>(b, i, m) \<in> set (op_error act). P b \<and> P i \<and> Q m) \<and> (\<forall>i \<in> set (op_mark act). P i)"

fun st_all :: "(utext \<Rightarrow> bool) \<Rightarrow> (utext \<Rightarrow> bool) \<Rightarrow> (utext \<Rightarrow> bool) \<Rightarrow> statement \<Rightarrow> bool" where
  "st_all P Q R (AllResolved ds) \<longleftrightarrow> (\<forall>(i, d) \<in> set ds. P i \<and> R d)"
| "st_all P Q R (AllErrors es) \<longleftrightarrow> (\<forall>(b, i, m) \<in> set es. P b \<and> P i \<and> Q m)"
| "st_all P Q R (AllPending xs) \<longleftrightarrow> (\<forall>i \<in> set xs. P i)"
| "st_all P Q R (AllIncomplete xs) \<longleftrightarrow> (\<forall>i \<in> set xs. P i)"
| "st_all P Q R NoResolvers \<longleftrightarrow> True"
| "st_all P Q R (PushPending i) \<longleftrightarrow> P i"
| "st_all P Q R (SetResolved i d) \<longleftrightarrow> P i \<and> R d"
| "st_all P Q R (PushIncomplete i) \<longleftrightarrow> P i"
| "st_all P Q R (PushError e) \<longleftrightarrow> P (fst e) \<and> P (fst (snd e)) \<and> Q (snd (snd e))"

lemma part_all: "x \<in> set (part f xs) \<Longrightarrow> \<exists>y \<in> set xs. x \<in> set (f y)"
  by auto

lemma push_all:
  assumes sent: "sent es0 ps is0 registered acts js st" and ops: "\<forall>act \<in># registered. op_all P Q act"
    and esc: "\<And>d. Q d \<Longrightarrow> R (escape_lt d)" and j: "j \<in> set js"
  shows "st_all P Q R j"
proof -
  have acts: "op_all P Q act" if "act \<in> set acts" for act using ops sent_acts [OF sent that] by blast
  have data: "P i \<and> Q d" if "(i, d) \<in> set (part op_write acts)" for i d
    using part_all [OF that] acts by (fastforce simp: op_all_def)
  have err: "P (fst e) \<and> P (fst (snd e)) \<and> Q (snd (snd e))" if "e \<in> set (part op_error acts)" for e
    using part_all [OF that] acts by (fastforce simp: op_all_def)
  have mark: "P i" if "i \<in> set (part op_mark acts)" for i
    using part_all [OF that] acts by (fastforce simp: op_all_def)
  note src = sent_sources [OF sent]
  have "is_push j" using sent j by (auto simp: sent_def list_all_iff)
  then show ?thesis
  proof (cases j)
    case (SetResolved i d)
    then have "(i, d) \<in> set (part st_resolved js)" using j by force
    then show ?thesis using src(1) [of i d] data esc SetResolved by auto
  next
    case (PushPending i)
    then have "i \<in> set (part st_pending js)" using j by force
    then have "i \<in> fst ` set (part op_write acts)" using src(2) by blast
    then show ?thesis using data PushPending by (metis imageE prod.collapse st_all.simps(6))
  next
    case (PushIncomplete i)
    then have "i \<in> set (part st_mark js)" using j by force
    then have "i \<in> set (part op_mark acts)" using src(4) by blast
    then show ?thesis using mark PushIncomplete by simp
  next
    case (PushError e)
    then have "e \<in> set (part st_error js)" using j by force
    then have "e \<in> set (part op_error acts)" using src(3) by blast
    then show ?thesis using err PushError by simp
  qed simp_all
qed

lemma first_all:
  assumes "fresh_context base" "\<forall>act \<in> set ops. op_all P Q act"
  defines "c \<equiv> apply_ops ops base"
  assumes "set ps = fst ` set (async_buf c)" "j \<in> set (first_statements c ps)"
  shows "st_all P Q R j"
proof -
  have err: "set (ctx_errors c) \<subseteq> set (part op_error ops)" and mark: "incomplete c = part op_mark ops"
    using sent_before [OF assms(1), of ps ops] unfolding c_def [symmetric] by (simp_all add: sent_defs)
  have ids: "set ps \<subseteq> fst ` set (part op_write ops)"
    using buffered_ids [of ops base] assms(1,4) unfolding c_def by (simp add: fresh_context_def)
  have "P i" if "i \<in> set ps" for i
    using ids that assms(2) by (force simp: op_all_def)
  moreover have "P b \<and> P i \<and> Q m" if "(b, i, m) \<in> set (ctx_errors c)" for b i m
    using err that assms(2) by (force simp: op_all_def)
  moreover have "P i" if "i \<in> set (incomplete c)" for i
    using mark that assms(2) by (force simp: op_all_def)
  ultimately show ?thesis
    using assms(5) by (auto simp: first_statements_def)
qed

subsection \<open>Scripts do not close their tag\<close>

abbreviation no_lt :: "utext \<Rightarrow> bool" where
  "no_lt t \<equiv> 60 \<notin> set t"

lemma no_lt_debug: "no_lt t \<Longrightarrow> no_lt (debug_str u t)"
proof -
  assume "no_lt t"
  then have "no_lt (escape_debug u c)" if "c \<in> set t" for c using no_lt_escape_debug [of c u] that by auto
  then show "no_lt (debug_str u t)" by (auto simp: debug_str_def)
qed

lemma no_lt_error_entry: "no_lt (fst e) \<Longrightarrow> no_lt (fst (snd e)) \<Longrightarrow> no_lt (error_entry u e)"
  by (simp add: error_entry_def no_lt_debug lit_def)

lemma no_lt_statement: "st_all no_lt (\<lambda>_. True) no_lt j \<Longrightarrow> no_lt (statement_text u j)"
  by (cases j) (auto simp: no_lt_debug no_lt_error_entry push_pending_def push_incomplete_def push_error_def lit_def)

text \<open>
  C25. Whatever the data and the messages of the errors, no script of a response contains the character that starts
  a tag, so that none of them can end its script element or open another, however the polls and the operations on the
  context interleave. The ids are numbers, which do not contain it either.
\<close>

theorem scripts_stay_in_their_tag:
  assumes "\<And>S. finite S \<Longrightarrow> set (order S) = S" and "fresh_context base"
    and "\<forall>act \<in># all_ops (ops @ part event_ops es). op_all (\<lambda>i. 60 \<notin> set i) (\<lambda>_. True) act"
    and "respond u es (pending_data u order (apply_ops ops base)) = (ts, st)"
  shows "\<forall>t \<in> set ts. 60 \<notin> set t"
proof -
  let ?c = "apply_ops ops base"
  obtain acts js ps where printed: "concat ts @ unsent st = script_text u (first_statements ?c ps @ js)"
    and sent: "sent (ctx_errors ?c) ps (incomplete ?c) (all_ops (ops @ part event_ops es)) acts js st"
    and ps: "set ps = fst ` set (async_buf ?c)"
    using response_statements [OF assms(1,2,4)] by blast
  have "st_all no_lt (\<lambda>_. True) no_lt j" if "j \<in> set (first_statements ?c ps @ js)" for j
    using that push_all [OF sent assms(3)] first_all [OF assms(2) _ ps, of no_lt "\<lambda>_. True"] assms(3) in_all_ops by auto
  then have "no_lt (script_text u (first_statements ?c ps @ js))"
    using no_lt_statement by (simp del: map_append concat_append)
  then show ?thesis using printed by (metis UnI1 concat_eq_concat_iff in_set_conv_decomp concat.simps(2) concat_append set_append UnI2)
qed

theorem scripts_stay_in_their_tag_witness:
  "60 \<notin> set (initial_chunk (\<lambda>_. False) []
     (apply_ops [RegisterError (lit ''0'') (lit ''1'') (lit ''</script>'')] ssr_context_new))"
  using scripts_stay_in_their_tag [of sorted_list_of_set ssr_context_new
      "[RegisterError (lit ''0'') (lit ''1'') (lit ''</script>'')]" "[Poll []]" "\<lambda>_. False"]
  by (simp add: pending_data_def poll_stream_def fresh_context_def ssr_context_new_def register_error_def op_all_def lit_def)

subsection \<open>The data of the page\<close>

lemma statement_readable_all: "st_all js_readable js_readable js_readable j \<Longrightarrow> statement_readable j"
  by (cases j) (auto simp: error_readable_def)

lemma ended_poll:
  assumes "poll_stream u rounds st = (r, c, s)" "stage (snd st) \<noteq> Ended" "stage s = Ended"
  shows "\<exists>t. r = PollChunk t"
  using assms poll_async_data_stage [of u rounds st]
  by (auto simp: poll_stream_def split: stream_stage.splits poll_result.splits prod.splits)

text \<open>A whole response: the events until the poll with which the stream ends.\<close>

definition whole_response ::
    "(nat \<Rightarrow> bool) \<Rightarrow> (utext set \<Rightarrow> utext list) \<Rightarrow> ssr_context \<Rightarrow> response_event list \<Rightarrow> nat list list
      \<Rightarrow> utext list \<times> streaming \<Rightarrow> bool" where
  "whole_response u order c es rounds out \<longleftrightarrow>
     (case respond u es (pending_data u order c) of (ts, st) \<Rightarrow>
      case poll_stream u rounds st of (r, st') \<Rightarrow>
      stage (snd st) \<noteq> Ended \<and> stage (snd st') = Ended \<and> out = (ts @ [poll_text r], st'))"

lemma respond_append_poll:
  "respond u (es @ [Poll rounds]) st = (case respond u es st of (ts, st1) \<Rightarrow> case poll_stream u rounds st1 of (r, st2) \<Rightarrow>
     (ts @ (case r of PollChunk t \<Rightarrow> [t] | _ \<Rightarrow> []), st2))"
  by (induction u es st rule: respond.induct) (auto split: prod.splits poll_result.splits)

lemma whole_response_statements:
  assumes order: "\<And>S. finite S \<Longrightarrow> set (order S) = S"
    and ops: "\<forall>act \<in># all_ops (ops @ part event_ops es). op_all js_readable js_readable act"
    and fresh: "fresh_context base" and whole: "whole_response u order (apply_ops ops base) es rounds (ts, c, s)"
  defines "c0 \<equiv> apply_ops ops base"
  shows "\<exists>acts js ps. script (concat ts) = Some (first_statements c0 ps @ js) \<and>
    mset acts = all_ops (ops @ part event_ops es) \<and> set ps = fst ` set (async_buf c0) \<and> list_all is_push js \<and>
    mset (part st_resolved js) = mset (map escaped_data (part op_write acts)) \<and> announced (set ps) js \<and>
    incomplete c0 @ part st_mark js = incomplete c \<and>
    unsealed c (ctx_errors c0 @ part st_error js) = unsealed c (part op_error acts)"
proof -
  obtain ts1 st where run: "respond u es (pending_data u order c0) = (ts1, st)"
    by (cases "respond u es (pending_data u order c0)")
  obtain t where poll: "poll_stream u rounds st = (PollChunk t, c, s)" and st: "stage (snd st) \<noteq> Ended" "stage s = Ended"
    and ts: "ts = ts1 @ [t]"
    using whole run ended_poll [of u rounds st] unfolding whole_response_def c0_def by (auto split: prod.splits)
  have "respond u (es @ [Poll rounds]) (pending_data u order c0) = (ts, c, s)"
    using run poll ts by (simp add: respond_append_poll)
  then obtain acts js ps where printed: "concat ts @ unsent (c, s) = script_text u (first_statements c0 ps @ js)"
    and sent: "sent (ctx_errors c0) ps (incomplete c0) (all_ops (ops @ part event_ops es)) acts js (c, s)"
    and ps: "set ps = fst ` set (async_buf c0)"
    using response_statements [OF order fresh, of u "es @ [Poll rounds]" ops ts "(c, s)"] unfolding c0_def by auto
  note ended = poll_stream_ended [OF poll st]
  have "st_all js_readable js_readable js_readable j" if "j \<in> set (first_statements c0 ps @ js)" for j
    using that push_all [OF sent ops, of js_readable] first_all [OF fresh _ ps [unfolded c0_def], of js_readable js_readable]
      ops in_all_ops readable_escape_lt unfolding c0_def by auto
  then have "script (script_text u (first_statements c0 ps @ js)) = Some (first_statements c0 ps @ js)"
    by (intro script_read_back) (auto simp: list_all_iff intro: statement_readable_all)
  then have "script (concat ts) = Some (first_statements c0 ps @ js)" using printed st by (simp add: unsent_def)
  then show ?thesis
    using sent ended ps by (intro exI [of _ acts] exI [of _ js] exI [of _ ps]) (simp add: sent_defs owed_data_def)
qed

end
