(* ===== verification/Hydration_Values.thy ===== *)
theory Hydration_Values
  imports Hydration_Props
begin

text \<open>
  The properties of the data that is sent with a page: what arrives, that the values of the server are the values of
  the browser, that the stream ends, and what an encoding that is not JSON loses.
\<close>

subsection \<open>Everything arrives\<close>

lemma mset_part: "mset (part f xs) = (\<Sum>x \<in># mset xs. mset (f x))"
  by (induction xs) auto

lemma mset_unsealed: "mset (unsealed c es) = {# e \<in># mset es. fst e \<notin> sealed_error_boundaries c #}"
  by (simp add: unsealed_def)

lemma announced_run:
  assumes ann: "announced (set ps) js" and push: "list_all is_push js"
    and split: "first_statements c ps @ js = xs @ SetResolved i d # ys"
  shows "\<exists>q. run_script xs blank_page = Some q \<and> i \<in> set (the (js_pending q))"
proof -
  have "\<exists>xs'. xs = first_statements c ps @ xs' \<and> js = xs' @ SetResolved i d # ys"
    using split unfolding append_eq_append_conv2 by (auto simp: first_statements_def Cons_eq_append_conv)
  then obtain xs' where xs: "xs = first_statements c ps @ xs'" "js = xs' @ SetResolved i d # ys" by blast
  then show ?thesis
    using run_first_statements [of xs' c ps] announced_split ann push by auto
qed

text \<open>
  C11. When the stream of a response ends, its scripts can be read and run on the page, and then the page has the data of
  every resource that was registered, by the application or by a resource while it was loading, before or while the
  stream was polled, each exactly once; the markers of incomplete chunks in their order; and the errors of all boundaries
  that were not sealed. No resource is resolved before it was announced as pending. This holds for every order in which
  the resources get ready.
\<close>

theorem scripts_deliver_data:
  assumes "\<And>S. finite S \<Longrightarrow> set (order S) = S" and "fresh_context base"
    and "\<forall>act \<in># all_ops (ops @ part event_ops es). op_all js_readable js_readable act"
    and "whole_response u order (apply_ops ops base) es rounds (ts, c, s)"
  defines "registered \<equiv> all_ops (ops @ part event_ops es)"
  shows "\<exists>js p. script (concat ts) = Some js \<and> run_script js blank_page = Some p \<and>
    mset (the (js_resolved p)) = {# escaped_data x. x \<in># \<Sum>act \<in># registered. mset (op_write act) #} \<and>
    js_incomplete p = Some (incomplete c) \<and>
    {# e \<in># mset (serialized_errors p). fst e \<notin> sealed_error_boundaries c #} =
      {# e \<in># \<Sum>act \<in># registered. mset (op_error act). fst e \<notin> sealed_error_boundaries c #} \<and>
    (\<forall>xs i d ys. js = xs @ SetResolved i d # ys \<longrightarrow>
      (\<exists>q. run_script xs blank_page = Some q \<and> i \<in> set (the (js_pending q))))"
proof -
  let ?c = "apply_ops ops base"
  obtain acts js ps where js: "script (concat ts) = Some (first_statements ?c ps @ js)" and acts: "mset acts = registered"
    and push: "list_all is_push js" and data: "mset (part st_resolved js) = mset (map escaped_data (part op_write acts))"
    and ann: "announced (set ps) js" and marks: "incomplete ?c @ part st_mark js = incomplete c"
    and errs: "unsealed c (ctx_errors ?c @ part st_error js) = unsealed c (part op_error acts)"
    using whole_response_statements [OF assms(1,3,2,4)] unfolding registered_def by blast
  note run = run_first_statements [OF push, of ?c ps]
  have "mset (unsealed c (ctx_errors ?c @ part st_error js)) =
      {# e \<in># \<Sum>act \<in># registered. mset (op_error act). fst e \<notin> sealed_error_boundaries c #}"
    unfolding errs mset_unsealed mset_part acts ..
  moreover have "mset (part st_resolved js) = {# escaped_data x. x \<in># \<Sum>act \<in># registered. mset (op_write act) #}"
    using data by (simp only: mset_map mset_part [of op_write] acts)
  ultimately show ?thesis
    using js run marks announced_run [OF ann push]
    by (intro exI [of _ "first_statements ?c ps @ js"] exI conjI) (auto simp: serialized_errors_def mset_unsealed)
qed

subsection \<open>The stream ends\<close>

fun fut_weight :: "resource_future \<Rightarrow> nat" and op_weight :: "context_op \<Rightarrow> nat" where
  "fut_weight (Ready ops d) = Suc (\<Sum>act\<leftarrow>ops. op_weight act)"
| "fut_weight (Later ops f) = Suc ((\<Sum>act\<leftarrow>ops. op_weight act) + fut_weight f)"
| "op_weight (WriteAsync i f) = fut_weight f"
| "op_weight (RegisterError b i m) = 0"
| "op_weight (SealErrors b) = 0"
| "op_weight (SetIncomplete i) = 0"

definition buf_weight :: "ssr_context \<Rightarrow> nat" where
  "buf_weight c = (\<Sum>e\<leftarrow>async_buf c. fut_weight (snd e))"

definition data_weight :: "streaming \<Rightarrow> nat" where
  "data_weight st = buf_weight (fst st) + (\<Sum>e\<leftarrow>in_flight (snd st). fut_weight (snd e))"

lemma buf_weight_ops: "buf_weight (apply_ops ops c) = buf_weight c + (\<Sum>act\<leftarrow>ops. op_weight act)"
proof (induction ops arbitrary: c)
  case (Cons act ops)
  have "buf_weight (apply_op act c) = buf_weight c + op_weight act"
    by (cases act) (simp_all add: buf_weight_def write_async_def register_error_def seal_errors_def set_incomplete_chunk_def)
  then show ?case using Cons by simp
qed simp

lemma fut_weight_pos: "0 < fut_weight f"
  by (cases f) simp_all

lemma drain_ready_weight:
  "data_weight (snd (snd (drain_ready u woken (c, s)))) \<le> data_weight (c, s) \<and>
   (0 \<in> set woken \<longrightarrow> in_flight s \<noteq> [] \<longrightarrow>
     data_weight (snd (snd (drain_ready u woken (c, s)))) < data_weight (c, s))"
proof (induction woken arbitrary: c s)
  case (Cons k woken)
  have step: "data_weight (snd (snd (drain_ready u (k # woken) (c, s)))) < data_weight (c, s)"
    if k: "k < length (in_flight s)"
  proof -
    obtain i f where if_k: "in_flight s ! k = (i, f)" by (cases "in_flight s ! k")
    let ?xs = "take k (in_flight s)" and ?ys = "drop (Suc k) (in_flight s)"
    have fs: "in_flight s = ?xs @ (i, f) # ?ys" using k if_k id_take_nth_drop by metis
    have w: "data_weight (c, s) = buf_weight c + (\<Sum>e\<leftarrow>?xs. fut_weight (snd e)) + fut_weight f + (\<Sum>e\<leftarrow>?ys. fut_weight (snd e))"
      using arg_cong [OF fs, of "\<lambda>fs. \<Sum>e\<leftarrow>fs. fut_weight (snd e)"] by (simp add: data_weight_def)
    show ?thesis
    proof (cases f)
      case (Ready ops d)
      have "data_weight (apply_ops ops c, s\<lparr>in_flight := ?xs @ ?ys\<rparr>) < data_weight (c, s)"
        using w Ready by (simp add: data_weight_def buf_weight_ops)
      then show ?thesis
        using Cons.IH [of "apply_ops ops c" "s\<lparr>in_flight := ?xs @ ?ys\<rparr>"] k if_k Ready
        by (auto split: prod.splits)
    next
      case (Later ops f')
      have "(in_flight s)[k := (i, f')] = ?xs @ (i, f') # ?ys" using k by (rule upd_conv_take_nth_drop)
      moreover have "data_weight (apply_ops ops c, s\<lparr>in_flight := ?xs @ (i, f') # ?ys\<rparr>) < data_weight (c, s)"
        using w Later by (simp add: data_weight_def buf_weight_ops)
      ultimately show ?thesis
        using Cons.IH [of "apply_ops ops c" "s\<lparr>in_flight := ?xs @ (i, f') # ?ys\<rparr>"] k if_k Later by simp
    qed
  qed
  have skip: "drain_ready u (k # woken) (c, s) = drain_ready u woken (c, s)" if "\<not> k < length (in_flight s)"
    using that by simp
  show ?case
  proof (cases "k < length (in_flight s)")
    case True
    then show ?thesis using step by (simp only: less_imp_le simp_thms)
  next
    case False
    then have "k \<noteq> 0 \<or> in_flight s = []" by (cases "in_flight s") auto
    then show ?thesis unfolding skip [OF False] using Cons.IH [of c s] by auto
  qed
qed simp

lemma stage_futures_weight: "data_weight (stage_futures st) = data_weight st"
  by (simp add: stage_futures_def data_weight_def buf_weight_def split: prod.split)

lemma staged_nonempty: "0 < data_weight st \<Longrightarrow> in_flight (snd (stage_futures st)) \<noteq> []"
  by (auto simp: stage_futures_def data_weight_def buf_weight_def split: prod.splits)

lemma poll_loop_weight:
  "data_weight (snd (poll_loop u rounds st)) \<le> data_weight st \<and>
   (rounds \<noteq> [] \<longrightarrow> 0 \<in> set (hd rounds) \<longrightarrow> 0 < data_weight st \<longrightarrow>
     data_weight (snd (poll_loop u rounds st)) < data_weight st)"
proof (induction rounds arbitrary: st)
  case Nil
  show ?case by (simp add: stage_futures_weight)
next
  case (Cons woken rounds)
  obtain c s where cs: "stage_futures st = (c, s)" by (cases "stage_futures st")
  obtain out any st1 where drain: "drain_ready u woken (c, s) = (out, any, st1)"
    by (cases "drain_ready u woken (c, s)") auto
  have le: "data_weight st1 \<le> data_weight st"
    using drain_ready_weight [of u woken c s] drain cs stage_futures_weight [of st] by simp
  have less: "data_weight st1 < data_weight st" if "0 \<in> set woken" "0 < data_weight st"
    using drain_ready_weight [of u woken c s] drain cs stage_futures_weight [of st] staged_nonempty [of st] that by simp
  have loop: "data_weight (snd (poll_loop u (woken # rounds) st)) \<le> data_weight st1"
    using Cons.IH [of st1] cs drain by (cases st1) (auto split: prod.splits)
  show ?case using order_trans [OF loop le] le_less_trans [OF loop less] by (simp only: list.sel) blast
qed

lemma poll_async_data_weight:
  "data_weight (snd (poll_async_data u rounds st)) = data_weight (snd (poll_loop u rounds st))"
  by (auto simp: poll_async_data_def flush_incomplete_def flush_errors_def data_weight_def buf_weight_def Let_def
      split: prod.splits)

lemma weight_zero: "data_weight (c, s) = 0 \<longleftrightarrow> async_buf c = [] \<and> in_flight s = []"
proof -
  have "(\<Sum>e\<leftarrow>fs. fut_weight (snd e)) = 0 \<longleftrightarrow> fs = []" for fs :: "(utext \<times> resource_future) list"
    using fut_weight_pos by (cases fs) (auto simp: neq0_conv [symmetric] simp del: neq0_conv)
  then show ?thesis by (simp add: data_weight_def buf_weight_def)
qed

text \<open>Nothing but data is left to send.\<close>

definition flushed :: "streaming \<Rightarrow> bool" where
  "flushed st \<longleftrightarrow> ctx_errors (fst st) = [] \<and> incomplete_emitted (snd st) = length (incomplete (fst st))"

lemma poll_async_data_flushed: "flushed (snd (poll_async_data u rounds st))"
  by (auto simp: flushed_def poll_async_data_def flush_incomplete_def flush_errors_def Let_def split: prod.splits)


lemma poll_async_data_idle:
  assumes "data_weight st = 0" "flushed st"
  shows "fst (poll_async_data u rounds st) = PollDone"
proof -
  obtain c s where st: "st = (c, s)" by (cases st)
  have idle: "async_buf c = []" "in_flight s = []" using assms(1) st weight_zero by simp_all
  have drain: "drain_ready u woken (c, s) = ([], False, c, s)" for woken
    using idle by (induction woken) simp_all
  have "stage_futures (c, s) = (c, s)" using idle by (simp add: stage_futures_def)
  then have "poll_loop u rounds (c, s) = ([], c, s)" using drain by (cases rounds) simp_all
  then show ?thesis
    using assms(2) idle st
    by (simp add: poll_async_data_def flush_incomplete_def flush_errors_def flushed_def Let_def)
qed

abbreviation polls :: "(nat \<Rightarrow> bool) \<Rightarrow> nat list list list \<Rightarrow> streaming \<Rightarrow> streaming" where
  "polls u rs st \<equiv> snd (respond u (map Poll rs) st)"

lemma polls_Cons: "polls u (r # rs) st = polls u rs (snd (poll_stream u r st))"
  by (auto split: prod.splits poll_result.splits)

lemma polls_ended: "stage (snd st) = Ended \<Longrightarrow> stage (snd (polls u rs st)) = Ended"
proof (induction rs arbitrary: st)
  case (Cons r rs)
  then have "poll_stream u r st = (PollDone, st)" by (simp add: poll_stream_def)
  then show ?case using Cons by simp
qed simp

text \<open>A poll makes progress if some future that is waiting is polled: it was woken.\<close>

definition progress :: "nat list list \<Rightarrow> bool" where
  "progress rounds \<longleftrightarrow> rounds \<noteq> [] \<and> 0 \<in> set (hd rounds)"

lemma poll_streaming:
  assumes "stage (snd st) = Streaming" "poll_stream u r st = (x, st')"
  shows "stage (snd st') = Ended \<or>
    stage (snd st') = Streaming \<and> flushed st' \<and> (progress r \<longrightarrow> 0 < data_weight st \<longrightarrow> data_weight st' < data_weight st) \<and>
    data_weight st' \<le> data_weight st \<and> \<not> (data_weight st = 0 \<and> flushed st)"
proof (cases "fst (poll_async_data u r st) = PollDone")
  case True
  then show ?thesis using assms by (auto simp: poll_stream_def split: prod.splits)
next
  case False
  then have "st' = snd (poll_async_data u r st)"
    using assms by (auto simp: poll_stream_def split: prod.splits poll_result.splits)
  then show ?thesis
    using False assms(1) poll_async_data_stage [of u r st] poll_async_data_flushed [of u r st]
      poll_async_data_idle [of st u r] poll_async_data_weight [of u r st] poll_loop_weight [of u r st]
    by (auto simp: progress_def)
qed

lemma polls_end:
  assumes "stage (snd st) = Streaming" "\<forall>r \<in> set rs. progress r"
    "data_weight st + (if flushed st then 0 else 1) < length rs"
  shows "stage (snd (polls u rs st)) = Ended"
  using assms
proof (induction rs arbitrary: st)
  case (Cons r rs)
  obtain x st' where poll: "poll_stream u r st = (x, st')" by (cases "poll_stream u r st")
  show ?case
  proof (cases "stage (snd st') = Ended")
    case True
    then show ?thesis using poll polls_ended [of st' u rs] by (simp add: polls_Cons del: respond.simps list.map)
  next
    case False
    note step = poll_streaming [OF Cons.prems(1) poll]
    have "data_weight st' + (if flushed st' then 0 else 1) < length rs"
      using step False Cons.prems by (auto split: if_splits)
    moreover have "stage (snd st') = Streaming" "\<forall>r \<in> set rs. progress r" using step False Cons.prems(2) by auto
    ultimately have "stage (snd (polls u rs st')) = Ended" by (intro Cons.IH)
    then show ?thesis using poll by (simp add: polls_Cons del: respond.simps list.map)
  qed
qed simp

text \<open>
  C31. The stream of the data ends: if every poll of it polls at least one of the futures that are waiting, then it ends
  after as many polls as the registered futures have left, with the futures that they register in turn, and three more,
  however the futures are chosen.
\<close>

theorem data_stream_ends:
  assumes "\<forall>rounds \<in> set rs. progress rounds" "buf_weight c + 3 \<le> length rs"
  shows "stage (snd (snd (respond u (map Poll rs) (pending_data u order c)))) = Ended"
proof -
  obtain r rs' where rs: "rs = r # rs'" using assms(2) by (cases rs) auto
  let ?st = "snd (poll_stream u r (pending_data u order c))"
  have "stage (snd ?st) = Streaming" "data_weight ?st = buf_weight c"
    by (simp_all add: poll_stream_def pending_data_def Let_def data_weight_def buf_weight_def)
  then show ?thesis
    using polls_end [of ?st rs' u] assms rs by (simp add: polls_Cons del: respond.simps list.map)
qed

subsection \<open>Examples\<close>

text \<open>One resource that is ready at once: the initial chunk, its data, and the end.\<close>

lemma set_resolved_nonempty: "set_resolved u i d \<noteq> []"
  by (simp add: set_resolved_def lit_def)

lemma one_resource_response:
  assumes "fresh_context base"
  shows "\<exists>ts c s. whole_response u order (apply_ops [WriteAsync i (Ready [] d)] base) [Poll [], Poll [[0]]] [] (ts, c, s)"
  using assms
  by (simp add: whole_response_def pending_data_def poll_stream_def poll_async_data_def stage_futures_def
      flush_incomplete_def flush_errors_def fresh_context_def write_async_def set_resolved_nonempty Let_def)

lemma sorted_order: "finite S \<Longrightarrow> set (sorted_list_of_set S) = (S :: utext set)"
  by simp

theorem scripts_deliver_data_witness:
  "\<exists>ts js p. script (concat ts) = Some js \<and> run_script js blank_page = Some p \<and>
     mset (the (js_resolved p)) = {# (lit ''0'', escape_lt (lit ''1 < 2'')) #}"
proof -
  let ?ops = "[WriteAsync (lit ''0'') (Ready [] (lit ''1 < 2''))]" and ?es = "[Poll [], Poll [[0]]]"
  have fresh: "fresh_context ssr_context_new" by (simp add: fresh_context_def ssr_context_new_def)
  obtain ts c s where whole: "whole_response (\<lambda>_. False) sorted_list_of_set (apply_ops ?ops ssr_context_new) ?es [] (ts, c, s)"
    using one_resource_response [OF fresh] by blast
  have ops: "\<forall>act \<in># all_ops (?ops @ part event_ops ?es). op_all js_readable js_readable act"
    by (simp add: op_all_def lit_def)
  have "(\<Sum>act \<in># all_ops (?ops @ part event_ops ?es). mset (op_write act)) = {# (lit ''0'', lit ''1 < 2'') #}" by simp
  then show ?thesis
    using scripts_deliver_data [OF sorted_order fresh ops whole] by (auto simp: escaped_data_def)
qed

theorem data_stream_ends_witness:
  "stage (snd (snd (respond (\<lambda>_. False) (map Poll (replicate 5 [[0]]))
     (pending_data (\<lambda>_. False) sorted_list_of_set
       (apply_ops [WriteAsync (lit ''0'') (Later [SetIncomplete (lit ''1'')] (Ready [] (lit ''2'')))] ssr_context_new))))) = Ended"
  by (rule data_stream_ends) (simp_all add: progress_def buf_weight_def write_async_def ssr_context_new_def)

end
