(* ===== verification/Hydration_Shared.thy ===== *)
theory Hydration_Shared
  imports Hydration_Values
begin

text \<open>
  Values that the server computes and the browser takes over: the ids agree, the data arrives, and the encoding is
  undone, if it stands the escaping of tags. The encoding of plain strings does not.
\<close>

subsection \<open>Ids\<close>

definition decimal_value :: "utext \<Rightarrow> nat" where
  "decimal_value t = foldl (\<lambda>n d. 10 * n + (d - 48)) 0 t"

lemma decimal_value_text: "decimal_value (numeral_text 10 n) = n"
proof (induction "10 :: nat" n rule: numeral_text.induct)
  case (1 n)
  show ?case
  proof (cases "n < 10")
    case True
    then show ?thesis by (simp add: numeral_text.simps [of 10 n] decimal_value_def digit_def)
  next
    case False
    then show ?thesis using 1 by (simp add: numeral_text.simps [of 10 n] decimal_value_def digit_def)
  qed
qed

lemma serialized_data_id_inj: "serialized_data_id m = serialized_data_id n \<longleftrightarrow> m = n"
  by (metis decimal_value_text serialized_data_id_def word_unat_eq_iff)

lemma readable_digits: "\<forall>c \<in> set t. 0 < c \<and> c < 128 \<Longrightarrow> js_readable t"
  by (induction t) auto

lemma digit_range: "n < 16 \<Longrightarrow> 0 < digit n \<and> digit n < 128"
  by (simp add: digit_def)

lemma numeral_text_range: "\<forall>c \<in> set (numeral_text 10 n). 0 < c \<and> c < 128"
  by (induction "10 :: nat" n rule: numeral_text.induct)
    (subst numeral_text.simps, use digit_range in \<open>auto simp: less_imp_le\<close>)

lemma readable_id: "js_readable (serialized_data_id n)"
  using readable_digits numeral_text_range by (simp add: serialized_data_id_def)

subsection \<open>Values in order\<close>

fun create_values ::
    "'v value_codec \<Rightarrow> 'v list \<Rightarrow> id_scope option \<times> shared_context \<Rightarrow> 'v list \<times> id_scope option \<times> shared_context" where
  "create_values codec [] st = ([], st)"
| "create_values codec (v # vs) st =
     (case new_with_encoding codec v st of (x, st') \<Rightarrow>
      case create_values codec vs st' of (xs, st'') \<Rightarrow> (x # xs, st''))"

fun value_ops :: "'v value_codec \<Rightarrow> 64 word \<Rightarrow> 'v list \<Rightarrow> context_op list" where
  "value_ops codec n [] = []"
| "value_ops codec n (v # vs) =
     WriteAsync (serialized_data_id n) (Ready [] (the (encode_value codec v))) # value_ops codec (n + 1) vs"

lemma apply_op_ctx_id: "apply_op act (c\<lparr>ctx_id := n\<rparr>) = (apply_op act c)\<lparr>ctx_id := n\<rparr>"
  by (cases act) (simp_all add: write_async_def register_error_def seal_errors_def set_incomplete_chunk_def)

lemma apply_ops_ctx_id: "apply_ops ops (c\<lparr>ctx_id := n\<rparr>) = (apply_ops ops c)\<lparr>ctx_id := n\<rparr>"
  by (induction ops arbitrary: c) (simp_all add: apply_op_ctx_id)

lemma create_values_server:
  assumes "is_hydrating c" "\<forall>v \<in> set vs. encode_value codec v \<noteq> None"
  shows "create_values codec vs (None, Server c) =
    (vs, None, Server (apply_ops (value_ops codec (ctx_id c) vs) (c\<lparr>ctx_id := ctx_id c + of_nat (length vs)\<rparr>)))"
  using assms
proof (induction vs arbitrary: c)
  case (Cons v vs)
  obtain t where t: "encode_value codec v = Some t" using Cons.prems(2) by auto
  let ?op = "WriteAsync (serialized_data_id (ctx_id c)) (Ready [] t)"
  let ?c = "(apply_op ?op c)\<lparr>ctx_id := ctx_id c + 1\<rparr>"
  have "new_with_encoding codec v (None, Server c) = (v, None, Server ?c)"
    using t Cons.prems(1) apply_op_ctx_id [of ?op _ c]
    by (simp add: new_with_encoding_def next_serialized_data_id_def ssr_next_id_def)
  moreover have "create_values codec vs (None, Server ?c) = (vs, None, Server (apply_ops (value_ops codec (ctx_id ?c) vs)
      (?c\<lparr>ctx_id := ctx_id ?c + of_nat (length vs)\<rparr>)))"
    by (rule Cons.IH) (use Cons.prems in \<open>simp_all add: write_async_def\<close>)
  moreover have "apply_op ?op (c\<lparr>ctx_id := n\<rparr>) = (apply_op ?op c)\<lparr>ctx_id := n\<rparr>" for n by (rule apply_op_ctx_id)
  ultimately show ?case using t by (simp add: add.assoc del: apply_op.simps)
qed simp

lemma create_values_browser:
  assumes "during_hydration b" "length ws = length vs"
    and "\<And>k. k < length vs \<Longrightarrow>
      \<exists>x. hydrate_read_data b (serialized_data_id (ucast (browser_id b + of_nat k))) = Some x \<and> decode_value codec x = Some (vs ! k)"
  shows "fst (create_values codec ws (None, Browser b)) = vs"
  using assms(2,1,3)
proof (induction ws vs arbitrary: b rule: list_induct2)
  case (Cons w ws v vs)
  let ?b = "b\<lparr>browser_id := browser_id b + 1\<rparr>"
  have "fst (create_values codec ws (None, Browser ?b)) = vs"
  proof (rule Cons.IH)
    fix k
    assume "k < length vs"
    then show "\<exists>x. hydrate_read_data ?b (serialized_data_id (ucast (browser_id ?b + of_nat k))) = Some x \<and> decode_value codec x = Some (vs ! k)"
      using Cons.prems(1) Cons.prems(2) [of "Suc k"] by (simp add: hydrate_read_data_def add.assoc)
  qed (use Cons.prems in simp)
  moreover obtain x where "hydrate_read_data b (serialized_data_id (ucast (browser_id b))) = Some x" "decode_value codec x = Some v"
    using Cons.prems(2) [of 0] by auto
  then have "new_with_encoding codec w (None, Browser b) = (v, None, Browser ?b)"
    using Cons.prems(1) by (simp add: new_with_encoding_def next_serialized_data_id_def hydrate_next_id_def hydrate_read_data_def)
  ultimately show ?case by (cases "create_values codec ws (None, Browser ?b)") simp
qed simp

lemma value_ops_writes:
  "part op_write (value_ops codec n vs) =
     map (\<lambda>k. (serialized_data_id (n + of_nat k), the (encode_value codec (vs ! k)))) [0..<length vs]"
proof (induction vs arbitrary: n)
  case (Cons v vs)
  have "[0..<Suc (length vs)] = 0 # map Suc [0..<length vs]" by (simp only: map_Suc_upt upt_conv_Cons zero_less_Suc)
  then show ?case using Cons [of "n + 1"] by (simp add: comp_def add.assoc del: upt_Suc)
qed simp

lemma value_ops_all: "all_ops (value_ops codec n vs) = mset (value_ops codec n vs)"
  by (induction vs arbitrary: n) simp_all

lemma op_all_write: "op_all P Q (WriteAsync i f) \<longleftrightarrow> P i \<and> Q (fut_result f)"
  by (simp add: op_all_def)

lemma value_ops_readable:
  "\<forall>v \<in> set vs. js_readable (the (encode_value codec v)) \<Longrightarrow> act \<in> set (value_ops codec n vs) \<Longrightarrow> op_all js_readable js_readable act"
  by (induction vs arbitrary: n) (auto simp: op_all_write readable_id)

subsection \<open>Values arrive\<close>

lemma map_of_unique: "(i, d) \<in> set xs \<Longrightarrow> (\<And>d'. (i, d') \<in> set xs \<Longrightarrow> d' = d) \<Longrightarrow> map_of xs i = Some d"
  by (metis map_of_SomeD weak_map_of_SomeI)

text \<open>
  The server creates the values \<open>vs\<close> and sends a whole response, during which other data may be registered under other
  ids.
\<close>

definition sends_values ::
    "(nat \<Rightarrow> bool) \<Rightarrow> (utext set \<Rightarrow> utext list) \<Rightarrow> 'v value_codec \<Rightarrow> 'v list \<Rightarrow> response_event list \<Rightarrow> nat list list
      \<Rightarrow> utext list \<Rightarrow> bool" where
  "sends_values u order codec vs es rounds ts \<longleftrightarrow>
     (case create_values codec vs (None, Server ssr_context_new) of
        (xs, _, Server c) \<Rightarrow> xs = vs \<and> (\<exists>st. whole_response u order c es rounds (ts, st))
      | _ \<Rightarrow> False) \<and>
     (\<forall>act \<in># all_ops (part event_ops es). op_all js_readable js_readable act \<and>
        (\<forall>k < length vs. serialized_data_id (of_nat k) \<notin> fst ` set (op_write act)))"

lemma ucast_of_nat_small: "k < 2 ^ 32 \<Longrightarrow> (ucast (of_nat k :: 32 word) :: 64 word) = of_nat k"
  by (simp add: word_unat_eq_iff unsigned_ucast_eq unat_of_nat take_bit_nat_eq_self)

lemma of_nat_eq_small: "j < 2 ^ 64 \<Longrightarrow> k < 2 ^ 64 \<Longrightarrow> (of_nat j :: 64 word) = of_nat k \<longleftrightarrow> j = k"
  by (auto dest: arg_cong [of _ _ unat] simp: unat_of_nat)

lemma values_arrive:
  assumes order: "\<And>S. finite S \<Longrightarrow> set (order S) = S"
    and enc: "\<forall>v \<in> set vs. encode_value codec v \<noteq> None \<and> js_readable (the (encode_value codec v))"
    and len: "length vs < 2 ^ 64" and sends: "sends_values u order codec vs es rounds ts"
  shows "\<exists>p. load_page ts = Some p \<and> (\<forall>k < length vs. hydrate_read_data (hydrate_context_new p) (serialized_data_id (of_nat k)) =
    Some (escape_lt (the (encode_value codec (vs ! k)))))"
proof -
  let ?base = "ssr_context_new\<lparr>ctx_id := of_nat (length vs)\<rparr>" and ?ops = "value_ops codec 0 vs"
  let ?ids = "\<lambda>k. serialized_data_id (of_nat k)"
  have fresh: "fresh_context ?base" by (simp add: fresh_context_def ssr_context_new_def)
  have new: "ctx_id ssr_context_new = 0" "is_hydrating ssr_context_new" by (simp_all add: ssr_context_new_def)
  have created: "create_values codec vs (None, Server ssr_context_new) = (vs, None, Server (apply_ops ?ops ?base))"
    using create_values_server [of ssr_context_new vs codec] enc new by auto
  then obtain c s where whole: "whole_response u order (apply_ops ?ops ?base) es rounds (ts, c, s)"
    using sends by (auto simp: sends_values_def)
  have all: "all_ops (?ops @ part event_ops es) = mset ?ops + all_ops (part event_ops es)" by (simp add: value_ops_all)
  have ops: "\<forall>act \<in># all_ops (?ops @ part event_ops es). op_all js_readable js_readable act"
    using sends value_ops_readable [of vs codec _ 0] enc unfolding all sends_values_def by auto
  obtain acts js ps where js: "script (concat ts) = Some (first_statements (apply_ops ?ops ?base) ps @ js)"
    and acts: "mset acts = all_ops (?ops @ part event_ops es)" and push: "list_all is_push js"
    and data: "mset (part st_resolved js) = mset (map escaped_data (part op_write acts))"
    using whole_response_statements [OF order ops fresh whole] by blast
  obtain p where p: "load_page ts = Some p" "js_resolved p = Some (rev (part st_resolved js))"
    using js run_first_statements [OF push] by (auto simp: load_page_def)
  have set_data: "set (part st_resolved js) = escaped_data ` set (part op_write acts)"
    using data by (metis mset_eq_setD set_map)
  have set_acts: "set acts = set ?ops \<union> set_mset (all_ops (part event_ops es))"
    using arg_cong [OF acts, of set_mset] unfolding all by simp
  have "map_of (rev (part st_resolved js)) (?ids k) = Some (escape_lt (the (encode_value codec (vs ! k))))" if k: "k < length vs" for k
  proof (rule map_of_unique)
    have "(?ids k, the (encode_value codec (vs ! k))) \<in> set (part op_write ?ops)"
      unfolding value_ops_writes using k by auto
    then show "(?ids k, escape_lt (the (encode_value codec (vs ! k)))) \<in> set (rev (part st_resolved js))"
      unfolding set_rev set_data using set_acts by (force simp: escaped_data_def)
  next
    fix d'
    assume "(?ids k, d') \<in> set (rev (part st_resolved js))"
    then obtain d where d: "d' = escape_lt d" "(?ids k, d) \<in> set (part op_write acts)"
      unfolding set_rev set_data by (auto simp: escaped_data_def simp del: set_concat)
    from part_all [OF d(2)] obtain act where act: "act \<in> set acts" "(?ids k, d) \<in> set (op_write act)" by blast
    have "act \<notin># all_ops (part event_ops es)"
      using sends act(2) k by (force simp: sends_values_def)
    then have "(?ids k, d) \<in> set (part op_write ?ops)" using act set_acts by auto
    then obtain j where "j < length vs" "?ids k = ?ids j" "d = the (encode_value codec (vs ! j))"
      unfolding value_ops_writes by auto
    then show "d' = escape_lt (the (encode_value codec (vs ! k)))"
      using d(1) len k by (simp add: serialized_data_id_inj of_nat_eq_small)
  qed
  then show ?thesis using p by (simp add: hydrate_read_data_def hydrate_context_new_def)
qed

text \<open>
  C4. The values that the server computes are the values of the browser: if the server creates shared values and sends the
  page, and the browser runs its scripts and creates as many shared values in the same order, then it gets those of the
  server, whatever it would have computed itself, and whatever else was registered and in whatever order it got ready. The
  encoding has to read its own text also with the character that starts a tag written as an escape, as JSON does, and
  there are fewer values than the identifiers of the browser, which are 32 bits wide.
\<close>

theorem values_survive_hydration:
  assumes "\<And>S. finite S \<Longrightarrow> set (order S) = S"
    and "\<And>v. v \<in> set vs \<Longrightarrow> \<exists>t. encode_value codec v = Some t \<and> js_readable t \<and> decode_value codec (escape_lt t) = Some v"
    and "length vs < 2 ^ 32" and "sends_values u order codec vs es rounds ts" and "length ws = length vs"
  shows "\<exists>p. load_page ts = Some p \<and> fst (create_values codec ws (None, Browser (hydrate_context_new p))) = vs"
proof -
  have "\<forall>v \<in> set vs. encode_value codec v \<noteq> None \<and> js_readable (the (encode_value codec v))" using assms(2) by fastforce
  moreover have "length vs < 2 ^ 64" using assms(3) by simp
  ultimately obtain p where p: "load_page ts = Some p"
    "\<And>k. k < length vs \<Longrightarrow> hydrate_read_data (hydrate_context_new p) (serialized_data_id (of_nat k)) =
       Some (escape_lt (the (encode_value codec (vs ! k))))"
    using values_arrive [OF assms(1) _ _ assms(4)] by blast
  have "decode_value codec (escape_lt (the (encode_value codec (vs ! k)))) = Some (vs ! k)" if "k < length vs" for k
    using assms(2) [of "vs ! k"] that by fastforce
  then have "fst (create_values codec ws (None, Browser (hydrate_context_new p))) = vs"
    using p(2) assms(3) by (intro create_values_browser assms(5)) (simp_all add: hydrate_context_new_def ucast_of_nat_small)
  then show ?thesis using p(1) by blast
qed

text \<open>
  C38. A value with the encoding of plain strings (\<open>SharedValue::new_str\<close>) arrives changed if it contains the character that
  starts a tag: the server writes that character as an escape before it prints the text as a literal of JavaScript, so
  that the browser reads the escape itself as a part of the text.
\<close>

theorem plain_text_arrives_changed:
  assumes "\<And>S. finite S \<Longrightarrow> set (order S) = S" and "js_readable t" and "60 \<in> set t"
    and "sends_values u order \<lparr>encode_value = Some, decode_value = Some\<rparr> [t] es rounds ts"
  shows "\<exists>p t'. load_page ts = Some p \<and> t' \<noteq> t \<and>
    fst (create_values \<lparr>encode_value = Some, decode_value = Some\<rparr> [w] (None, Browser (hydrate_context_new p))) = [t']"
proof -
  let ?codec = "\<lparr>encode_value = Some, decode_value = Some\<rparr> :: utext value_codec"
  obtain p where p: "load_page ts = Some p"
    "hydrate_read_data (hydrate_context_new p) (serialized_data_id 0) = Some (escape_lt t)"
    using values_arrive [of order "[t]" ?codec u es rounds ts] assms by auto
  have "fst (create_values ?codec [w] (None, Browser (hydrate_context_new p))) = [escape_lt t]"
    using p(2) by (intro create_values_browser) (simp_all add: hydrate_context_new_def)
  moreover have "escape_lt t \<noteq> t" using no_lt_escape_lt [of t] assms(3) by metis
  ultimately show ?thesis using p(1) by blast
qed

subsection \<open>Examples\<close>

definition flag_codec :: "bool value_codec" where
  "flag_codec = \<lparr>encode_value = (\<lambda>b. Some (if b then [60] else [48])),
     decode_value = (\<lambda>t. if t = [48] then Some False else if t = [60] \<or> t = [92, 117, 48, 48, 51, 99] then Some True else None)\<rparr>"

lemma one_value_sent:
  assumes "encode_value codec v = Some t"
  shows "\<exists>ts. sends_values u order codec [v] [Poll [], Poll [[0]]] [] ts"
proof -
  let ?base = "ssr_context_new\<lparr>ctx_id := 1\<rparr>"
  have new: "ctx_id ssr_context_new = 0" "is_hydrating ssr_context_new" by (simp_all add: ssr_context_new_def)
  have "create_values codec [v] (None, Server ssr_context_new) =
      ([v], None, Server (apply_ops [WriteAsync (serialized_data_id 0) (Ready [] t)] ?base))"
    using create_values_server [of ssr_context_new "[v]" codec] new assms by simp
  moreover have "fresh_context ?base" by (simp add: fresh_context_def ssr_context_new_def)
  then obtain ts c s where
    "whole_response u order (apply_ops [WriteAsync (serialized_data_id 0) (Ready [] t)] ?base) [Poll [], Poll [[0]]] [] (ts, c, s)"
    using one_resource_response by blast
  ultimately show ?thesis by (auto simp: sends_values_def)
qed

theorem values_survive_hydration_witness:
  "\<exists>ts p. load_page ts = Some p \<and> fst (create_values flag_codec [False] (None, Browser (hydrate_context_new p))) = [True]"
proof -
  obtain ts where "sends_values (\<lambda>_. False) sorted_list_of_set flag_codec [True] [Poll [], Poll [[0]]] [] ts"
    using one_value_sent [of flag_codec True "[60]"] by (auto simp: flag_codec_def)
  from values_survive_hydration [OF sorted_order _ _ this, of "[False]"] show ?thesis
    by (auto simp: flag_codec_def escape_lt_def)
qed

theorem plain_text_arrives_changed_witness:
  "\<exists>ts p t'. load_page ts = Some p \<and> t' \<noteq> lit ''a < b'' \<and>
    fst (create_values \<lparr>encode_value = Some, decode_value = Some\<rparr> [[]] (None, Browser (hydrate_context_new p))) = [t']"
proof -
  obtain ts where "sends_values (\<lambda>_. False) sorted_list_of_set \<lparr>encode_value = Some, decode_value = Some\<rparr> [lit ''a < b'']
      [Poll [], Poll [[0]]] [] ts"
    using one_value_sent [of "\<lparr>encode_value = Some, decode_value = Some\<rparr>" "lit ''a < b''" "lit ''a < b''"] by auto
  from plain_text_arrives_changed [OF sorted_order _ _ this, of "[]"] show ?thesis
    by (auto simp: lit_def)
qed

end
