(* ===== verification/Meta_Tags.thy ===== *)
theory Meta_Tags
  imports Leptos_Prelude "HOL-Library.Sublist"
begin

text \<open>
  Document metadata (\<^verbatim>\<open>src/meta/src/lib.rs\<close>, \<^verbatim>\<open>title.rs\<close>): the stacks of titles and formatters, and the
  injection of the collected tags into the first chunk of a page that is streamed from the server.
  A text is its current value, and notifications are left out.
\<close>

subsection \<open>Titles\<close>

record title_context =
  next_title :: nat
  text_stack :: "(nat \<times> string) list"
  formatter_stack :: "(nat \<times> (string \<Rightarrow> string)) list"

record title_view_state =
  title_id :: nat
  saved_formatter :: "(string \<Rightarrow> string) option"
  saved_text :: "string option"
  title_mounted :: bool

definition next_title_id :: "title_context \<Rightarrow> nat \<times> title_context" where
  "next_title_id t = (next_title t, t\<lparr>next_title := next_title t + 1\<rparr>)"

definition push_opt :: "nat \<Rightarrow> 'a option \<Rightarrow> (nat \<times> 'a) list \<Rightarrow> (nat \<times> 'a) list" where
  "push_opt i x st = (case x of None \<Rightarrow> st | Some y \<Rightarrow> st @ [(i, y)])"

definition push_text_and_formatter ::
  "nat \<Rightarrow> string option \<Rightarrow> (string \<Rightarrow> string) option \<Rightarrow> title_context \<Rightarrow> title_context" where
  "push_text_and_formatter i text formatter t =
     t\<lparr>text_stack := push_opt i text (text_stack t), formatter_stack := push_opt i formatter (formatter_stack t)\<rparr>"

text \<open>\<open>Vec::remove\<close> at the first position with the identifier, if there is one.\<close>

fun remove_first :: "nat \<Rightarrow> (nat \<times> 'a) list \<Rightarrow> 'a option \<times> (nat \<times> 'a) list" where
  "remove_first i [] = (None, [])"
| "remove_first i ((j, x) # st) =
     (if j = i then (Some x, st) else case remove_first i st of (y, st') \<Rightarrow> (y, (j, x) # st'))"

fun replace_first :: "nat \<Rightarrow> 'a \<Rightarrow> (nat \<times> 'a) list \<Rightarrow> (nat \<times> 'a) list" where
  "replace_first i x [] = []"
| "replace_first i x ((j, y) # st) = (if j = i then (j, x) # st else (j, y) # replace_first i x st)"

definition update_stack :: "nat \<Rightarrow> 'a option \<Rightarrow> (nat \<times> 'a) list \<Rightarrow> (nat \<times> 'a) list" where
  "update_stack i new st = (case new of
     None \<Rightarrow> snd (remove_first i st)
   | Some x \<Rightarrow> if i \<in> fst ` set st then replace_first i x st else st @ [(i, x)])"

definition update_text_and_formatter ::
  "nat \<Rightarrow> string option \<Rightarrow> (string \<Rightarrow> string) option \<Rightarrow> title_context \<Rightarrow> title_context" where
  "update_text_and_formatter i text formatter t =
     t\<lparr>text_stack := update_stack i text (text_stack t), formatter_stack := update_stack i formatter (formatter_stack t)\<rparr>"

definition remove_id ::
  "nat \<Rightarrow> title_context \<Rightarrow> (string option \<times> (string \<Rightarrow> string) option) \<times> title_context" where
  "remove_id i t =
     (case remove_first i (text_stack t) of (text, ts) \<Rightarrow> case remove_first i (formatter_stack t) of (formatter, fs) \<Rightarrow>
        ((text, formatter), t\<lparr>text_stack := ts, formatter_stack := fs\<rparr>))"

definition title_as_string :: "title_context \<Rightarrow> string option" where
  "title_as_string t =
     (if text_stack t = [] then None
      else let title = snd (last (text_stack t)) in
        Some (if formatter_stack t = [] then title else snd (last (formatter_stack t)) title))"

definition title_build :: "string option \<Rightarrow> (string \<Rightarrow> string) option \<Rightarrow> title_context \<Rightarrow> title_view_state \<times> title_context" where
  "title_build text formatter t = (case next_title_id t of (i, t') \<Rightarrow>
     (\<lparr>title_id = i, saved_formatter = formatter, saved_text = text, title_mounted = False\<rparr>, t'))"

definition title_hydrate :: "string option \<Rightarrow> (string \<Rightarrow> string) option \<Rightarrow> title_context \<Rightarrow> title_view_state \<times> title_context" where
  "title_hydrate text formatter t = (case next_title_id t of (i, t') \<Rightarrow>
     (\<lparr>title_id = i, saved_formatter = None, saved_text = None, title_mounted = True\<rparr>,
      push_text_and_formatter i text formatter t'))"

definition title_rebuild ::
  "string option \<Rightarrow> (string \<Rightarrow> string) option \<Rightarrow> title_view_state \<Rightarrow> title_context \<Rightarrow> title_view_state \<times> title_context" where
  "title_rebuild text formatter v t =
     (if title_mounted v then (v, update_text_and_formatter (title_id v) text formatter t)
      else (v\<lparr>saved_text := text, saved_formatter := formatter\<rparr>, t))"

definition title_mount :: "title_view_state \<Rightarrow> title_context \<Rightarrow> title_view_state \<times> title_context" where
  "title_mount v t =
     (v\<lparr>title_mounted := True, saved_text := None, saved_formatter := None\<rparr>,
      push_text_and_formatter (title_id v) (saved_text v) (saved_formatter v) t)"

definition title_unmount :: "title_view_state \<Rightarrow> title_context \<Rightarrow> title_view_state \<times> title_context" where
  "title_unmount v t = (case remove_id (title_id v) t of ((text, formatter), t') \<Rightarrow>
     (v\<lparr>title_mounted := False, saved_text := (if text = None then saved_text v else text),
        saved_formatter := (if formatter = None then saved_formatter v else formatter)\<rparr>, t'))"

definition title_drop :: "title_view_state \<Rightarrow> title_context \<Rightarrow> title_context" where
  "title_drop v t = snd (remove_id (title_id v) t)"

subsection \<open>Injection\<close>

fun str_find :: "string \<Rightarrow> string \<Rightarrow> nat option" where
  "str_find pat [] = (if pat = [] then Some 0 else None)"
| "str_find pat (c # s) = (if prefix pat (c # s) then Some 0 else map_option Suc (str_find pat s))"

definition insert_str :: "nat \<Rightarrow> string \<Rightarrow> string \<Rightarrow> string" where
  "insert_str pos x s = take pos s @ x @ drop pos s"

definition title_tag :: "string option \<Rightarrow> string" where
  "title_tag title = (case title of None \<Rightarrow> [] | Some t \<Rightarrow> ''<title>'' @ t @ ''</title>'')"

definition inject_tags :: "string option \<Rightarrow> string \<Rightarrow> string \<Rightarrow> string result" where
  "inject_tags title meta_buf first_chunk =
     (if title = None \<and> meta_buf = [] then Inr first_chunk
      else case str_find ''</head>'' first_chunk of
        None \<Rightarrow> Inl Panic
      | Some head_loc \<Rightarrow>
          let marker_loc = (case str_find ''<!--HEAD-->'' first_chunk of
              Some p \<Rightarrow> p + length ''<!--HEAD-->'' | None \<Rightarrow> head_loc)
          in Inr (take marker_loc first_chunk @ meta_buf @ title_tag title @ drop marker_loc first_chunk))"

definition inject_attrs :: "string \<Rightarrow> string \<Rightarrow> string \<Rightarrow> string" where
  "inject_attrs tag attrs chunk =
     (if attrs = [] then chunk
      else case str_find tag chunk of None \<Rightarrow> chunk | Some i \<Rightarrow> insert_str (i + length tag) attrs chunk)"

text \<open>The tags, the attributes of \<^verbatim>\<open><html>\<close> and of \<^verbatim>\<open><body>\<close> that the channels hold, and the chunks of the page.\<close>

definition inject_meta_context ::
  "title_context \<Rightarrow> string list \<Rightarrow> string list \<Rightarrow> string list \<Rightarrow> string list \<Rightarrow> string list result" where
  "inject_meta_context title elements html body stream =
     (let first_chunk = (case stream of [] \<Rightarrow> [] | c # cs \<Rightarrow> c) in
      and_then (inject_tags (title_as_string title) (concat elements) first_chunk) (\<lambda>chunk.
        Inr (inject_attrs ''<body'' (concat body) (inject_attrs ''<html'' (concat html) chunk) # tl stream)))"

subsection \<open>Finding a string\<close>

lemma prefix_shorter: "length p \<le> length s \<Longrightarrow> prefix p (s @ t) \<longleftrightarrow> prefix p s"
  by (metis prefix_length_prefix prefix_order.trans prefixI prefix_prefix)

lemma str_find_append: "str_find p (s @ p) = Some (length s) \<Longrightarrow> str_find p (s @ p @ t) = Some (length s)"
proof (induction s)
  case Nil
  have "prefix p (p @ t)" by simp
  then show ?case by (cases "p @ t") auto
next
  case (Cons c s)
  have "\<not> prefix p (c # s @ p)" using Cons(2) by (auto split: if_splits)
  then have "\<not> prefix p (c # s @ p @ t)" using prefix_shorter [of p "c # s @ p" t] by simp
  then show ?case using Cons by (auto split: if_splits)
qed

lemma inject_attrs_at:
  assumes "str_find tag (s @ tag) = Some (length s)"
  shows "inject_attrs tag attrs (s @ tag @ t) = s @ tag @ attrs @ t"
  using str_find_append [OF assms, of t] by (simp add: inject_attrs_def insert_str_def)

text \<open>
  Where the tags belong in a page: right after the marker of \<^verbatim>\<open><MetaTags/>\<close> if there is one, and
  otherwise at the end of the head.
\<close>

definition tags_belong :: "string \<Rightarrow> string \<Rightarrow> bool" where
  "tags_belong before after \<longleftrightarrow>
     (\<exists>s. before = s @ ''<!--HEAD-->'' \<and> str_find ''<!--HEAD-->'' (before @ after) = Some (length s) \<and>
        str_find ''</head>'' (before @ after) \<noteq> None) \<or>
     str_find ''<!--HEAD-->'' (before @ after) = None \<and> str_find ''</head>'' (before @ after) = Some (length before)"

lemma inject_tags_at:
  assumes "tags_belong before after"
  shows "inject_tags title buf (before @ after) = Inr (before @ buf @ title_tag title @ after)"
  using assms by (auto simp: tags_belong_def inject_tags_def title_tag_def Let_def)

lemma inject_tags_no_head:
  assumes "str_find ''</head>'' chunk = None" "title \<noteq> None \<or> buf \<noteq> []"
  shows "inject_tags title buf chunk = Inl Panic"
  using assms by (auto simp: inject_tags_def)

subsection \<open>Titles come and go\<close>

lemma remove_pushed: "i \<notin> fst ` set st \<Longrightarrow> remove_first i (push_opt i x st) = (x, st)"
  by (induction st) (auto simp: push_opt_def split: option.splits)

lemma remove_absent: "i \<notin> fst ` set st \<Longrightarrow> remove_first i st = (None, st)"
  by (induction st) auto

definition title_fresh :: "title_view_state \<Rightarrow> title_context \<Rightarrow> bool" where
  "title_fresh v t \<longleftrightarrow> title_id v \<notin> fst ` set (text_stack t) \<and> title_id v \<notin> fst ` set (formatter_stack t)"

subsection \<open>Properties\<close>

text \<open>
  Mounting a title puts its text in use, with its own formatter or else the one that was in use
  before, and unmounting it brings back what was there: the state keeps its text and formatter for
  the next time.
\<close>

theorem title_mount_unmount:
  assumes "title_fresh v t" "\<not> title_mounted v"
  shows "case title_mount v t of (w, u) \<Rightarrow>
    title_as_string u = (case saved_text v of
        None \<Rightarrow> map_option (\<lambda>x. case saved_formatter v of None \<Rightarrow> x | Some f \<Rightarrow> f (snd (last (text_stack t)))) (title_as_string t)
      | Some s \<Rightarrow> Some (case saved_formatter v of
          Some f \<Rightarrow> f s
        | None \<Rightarrow> if formatter_stack t = [] then s else snd (last (formatter_stack t)) s)) \<and>
    title_unmount w u = (v, t) \<and> title_drop w u = t"
proof -
  have "remove_first (title_id v) (push_opt (title_id v) (saved_text v) (text_stack t)) = (saved_text v, text_stack t)"
    "remove_first (title_id v) (push_opt (title_id v) (saved_formatter v) (formatter_stack t)) = (saved_formatter v, formatter_stack t)"
    using assms(1) by (auto simp: title_fresh_def intro: remove_pushed)
  moreover have "title_as_string (push_text_and_formatter (title_id v) (saved_text v) (saved_formatter v) t) = (case saved_text v of
        None \<Rightarrow> map_option (\<lambda>x. case saved_formatter v of None \<Rightarrow> x | Some f \<Rightarrow> f (snd (last (text_stack t)))) (title_as_string t)
      | Some s \<Rightarrow> Some (case saved_formatter v of
          Some f \<Rightarrow> f s
        | None \<Rightarrow> if formatter_stack t = [] then s else snd (last (formatter_stack t)) s))"
    by (auto simp: title_as_string_def push_text_and_formatter_def push_opt_def Let_def split: option.split)
  ultimately show ?thesis using assms(2)
    by (cases v; cases t) (auto simp: title_mount_def title_unmount_def title_drop_def remove_id_def push_text_and_formatter_def)
qed

theorem title_mount_unmount_witness:
  "let t = \<lparr>next_title = 2, text_stack = [(0, ''Home'')], formatter_stack = [(0, (@) ''Leptos: '')]\<rparr>;
     v = \<lparr>title_id = 1, saved_formatter = None, saved_text = Some ''About'', title_mounted = False\<rparr>;
     (w, u) = title_mount v t
   in title_as_string u = Some ''Leptos: About'' \<and> title_as_string (snd (title_unmount w u)) = Some ''Leptos: Home''"
  using title_mount_unmount [of "\<lparr>title_id = 1, saved_formatter = None, saved_text = Some ''About'', title_mounted = False\<rparr>"
      "\<lparr>next_title = 2, text_stack = [(0, ''Home'')], formatter_stack = [(0, (@) ''Leptos: '')]\<rparr>"]
  by (auto simp: title_fresh_def title_as_string_def split: prod.splits)

text \<open>
  C32. The tags of a page reach its head: in the first chunk of a page, the collected tags and the title
  are inserted right after the marker of \<^verbatim>\<open><MetaTags/>\<close> or, in a page without this marker, right before the
  end of the head; the attributes for \<^verbatim>\<open><html>\<close> and \<^verbatim>\<open><body>\<close> are inserted into the first of these tags.
  Apart from these three insertions the page is as it was rendered. The place of the tags is assumed to be between
  the \<^verbatim>\<open><html\<close> and the \<^verbatim>\<open><body\<close> that are found. A page without an end of the head
  is a panic, unless there are neither tags nor a title.
\<close>

theorem meta_tags_in_head:
  assumes "tags_belong (a @ ''<html'' @ b) (c @ ''<body'' @ d)"
    and "str_find ''<html'' (a @ ''<html'') = Some (length a)"
    and "str_find ''<body'' ((a @ ''<html'' @ concat html @ b @ concat tags @ title_tag (title_as_string t) @ c) @ ''<body'') =
      Some (length (a @ ''<html'' @ concat html @ b @ concat tags @ title_tag (title_as_string t) @ c))"
  shows "inject_meta_context t tags html body ((a @ ''<html'' @ b @ c @ ''<body'' @ d) # cs) =
      Inr ((a @ ''<html'' @ concat html @ b @ concat tags @ title_tag (title_as_string t) @ c @ ''<body'' @ concat body @ d) # cs) \<and>
    (str_find ''</head>'' chunk = None \<and> (title_as_string t \<noteq> None \<or> concat tags \<noteq> []) \<longrightarrow>
      inject_meta_context t tags html body (chunk # cs) = Inl Panic)"
proof -
  have "inject_tags (title_as_string t) (concat tags) ((a @ ''<html'' @ b) @ c @ ''<body'' @ d) =
    Inr ((a @ ''<html'' @ b) @ concat tags @ title_tag (title_as_string t) @ c @ ''<body'' @ d)"
    using assms(1) by (rule inject_tags_at)
  then show ?thesis
    using inject_attrs_at [OF assms(2), of "concat html" "b @ concat tags @ title_tag (title_as_string t) @ c @ ''<body'' @ d"]
      inject_attrs_at [OF assms(3), of "concat body" d] inject_tags_no_head [of chunk "title_as_string t" "concat tags"]
    by (simp add: inject_meta_context_def del: concat_eq_Nil_conv)
qed

theorem meta_tags_in_head_witness:
  "inject_meta_context \<lparr>next_title = 1, text_stack = [(0, ''T'')], formatter_stack = []\<rparr> [''<meta x>''] ['' lang=en''] []
     [''<html><head><!--HEAD--></head><body>'', ''</body>''] =
   Inr [''<html lang=en><head><!--HEAD--><meta x><title>T</title></head><body>'', ''</body>''] \<and>
   inject_meta_context \<lparr>next_title = 1, text_stack = [(0, ''T'')], formatter_stack = []\<rparr> [] [] ['' dark'']
     [''<html><head><meta y></head><body>'', ''</body>''] =
   Inr [''<html><head><meta y><title>T</title></head><body dark>'', ''</body>'']"
  using meta_tags_in_head [of "[]" "''><head><!--HEAD-->''" "''</head>''" "''>''" "['' lang=en'']" "[''<meta x>'']"
      "\<lparr>next_title = 1, text_stack = [(0, ''T'')], formatter_stack = []\<rparr>" "[]" "[''</body>'']"]
    meta_tags_in_head [of "[]" "''><head><meta y>''" "''</head>''" "''>''" "[]" "[]"
      "\<lparr>next_title = 1, text_stack = [(0, ''T'')], formatter_stack = []\<rparr>" "['' dark'']" "[''</body>'']"]
  by (simp add: title_as_string_def title_tag_def tags_belong_def)

text \<open>
  The title is written into the page as it is, without escaping: a text with markup in it ends the
  title and starts an element of its own.
\<close>

theorem title_is_not_escaped:
  "inject_meta_context \<lparr>next_title = 1, text_stack = [(0, ''</title><script>'')], formatter_stack = []\<rparr> [] [] []
     [''<head></head>''] = Inr [''<head><title></title><script></title></head>'']"
  by (simp add: inject_meta_context_def inject_tags_def inject_attrs_def title_as_string_def title_tag_def)

end
