(* ===== verification/Const_Concat.thy ===== *)
theory Const_Concat
  imports Utf8
begin









subsection \<open>What the loops write\<close>






















end
