(* ===== verification/Spec2Isabelle.thy ===== *)
theory Spec2Isabelle
  imports Reactive_Props Owner_Props Route_Props Keyed_Correct Hot_Reload_Correct Ssr_Correct Store_Keyed_Patch View_Limits
    Async_Derived Server_Fn_Props Hydration_Shared Meta_Tags Const_Concat
begin

text \<open>
  \<^bold>\<open>A verification library for Leptos.\<close>

  Leptos is a web framework in Rust. A program is a graph of signals, memos and effects
  (\<^verbatim>\<open>src/reactive_graph\<close>), whose nodes belong to a tree of owners that releases them; stores
  (\<^verbatim>\<open>src/reactive_stores\<close>) give reactive access to the fields of a data structure; views are
  rendered, hydrated and rebuilt by \<^verbatim>\<open>src/tachys\<close>, which also streams them from a server; the
  data that the server computed travels with the page (\<^verbatim>\<open>src/hydration_context\<close>,
  \<^verbatim>\<open>src/leptos_server\<close>), and the browser calls the server through server functions
  (\<^verbatim>\<open>src/server_fn\<close>), dispatched by actions; the router (\<^verbatim>\<open>src/router\<close>) matches paths against
  route definitions; \<^verbatim>\<open>src/meta\<close> adds the title and tags of a page; \<^verbatim>\<open>src/leptos_hot_reload\<close>
  computes the patches that a development server sends to the browser. The theories model these
  parts from the source, component by component, as executable functions.

  \<^bold>\<open>Shared.\<close> \<open>Leptos_Prelude\<close>: results of fallible code (\<open>Panic\<close> is a Rust panic, \<open>OutOfFuel\<close> a
  recursion that did not end within its fuel), loops over a state, and the insertion-ordered set
  of the indexmap crate as far as it is used. \<open>Vec_Model\<close>: vectors with a capacity, and the
  interface \<open>pruned_vec\<close> of a vector that drops dead entries before it grows.

  \<^bold>\<open>The reactive graph\<close> (\<^verbatim>\<open>graph/\<close>, \<^verbatim>\<open>computed/\<close>, \<^verbatim>\<open>signal/\<close>, \<^verbatim>\<open>effect/\<close>, \<^verbatim>\<open>traits.rs\<close>).
  \<open>Graph_Sets\<close> has the edge sets. \<open>Reactive_Graph\<close> has the nodes, the observer and the
  operations: marking (\<open>mark_dirty\<close>, \<open>mark_check\<close>), \<open>update_if_necessary\<close>, reads, writes, and one
  poll of the task of an effect. A closure is the tree of its reads and writes.
  \<open>Reactive_Frame\<close>, \<open>Reactive_Inv\<close>, \<open>Reactive_Mark\<close> and \<open>Reactive_Update\<close> prove the invariant of
  the update algorithm; \<open>Reactive_Spec\<close> states the abstract specification, in which the value of
  a memo is computed from scratch, and \<open>Reactive_Correct\<close> and \<open>Reactive_Effects\<close> that the graph
  refines it. \<open>Reactive_Props\<close> has the properties: every read agrees with the specification
  after any history of operations, effects react, marking and caching, and two places where a
  dependency is lost or added. A memo is recomputed with fuel; \<open>Suc (2 * length ops)\<close> is enough
  for a history \<open>ops\<close>, since edges lead from older to newer nodes.

  \<^bold>\<open>The ownership tree\<close> (\<^verbatim>\<open>owner.rs\<close>, \<^verbatim>\<open>owner/\<close>). \<open>Owner_Tree\<close> has owners, the arena of items,
  cleanup and the dropping of handles, pausing and the current owner; \<open>Owner_Context\<close> context
  values and the two storages, through the interface \<open>storage\<close>. \<open>Owner_Cleanup\<close> shows, over the
  interfaces \<open>releasing\<close> and \<open>conserving\<close>, that a cleanup disposes of everything below the owner
  and runs every cleanup function once. \<open>Owner_Props\<close> has the properties, among them that histories
  of operations do not panic and keep the tree well-formed, \<open>unset\<close> included as long as no cleanup
  function looks at the current owner. A cleanup function is a list of what it does to the runtime:
  note something, dispose of an item, or look at the current owner. Fuel above the number
  of owners is enough for the loops up the tree, and fuel above the weight of the tree for a
  cleanup; a history of operations keeps the weight below twice its length.

  \<^bold>\<open>The router\<close> (\<^verbatim>\<open>matching/\<close>, \<^verbatim>\<open>static_routes.rs\<close>, \<^verbatim>\<open>params.rs\<close>, \<^verbatim>\<open>location/\<close>).
  \<open>Route_Segments\<close> matches segments against the bytes of a path, with the interface
  \<open>splitting_segment\<close>; \<open>Route_Nested\<close> nested routes, the base path, the generated routes and
  rendering modes; \<open>Route_Paths\<close> optional parameters, links, static paths, parameters and
  locations. \<open>Route_Props\<close>: matching returns and accounts for the whole path, printing and
  matching are inverse, the expansion of optional parameters is complete, and the errors found.

  \<^bold>\<open>Keyed lists\<close> (\<^verbatim>\<open>tachys/src/view/keyed.rs\<close>). \<open>Keyed_Diff\<close> has the difference of two lists of
  keys and its application to the rendered items and the document; \<open>Keyed_Correct\<close> that every
  kept item keeps its state, that the positions are right, and when the document is in order.

  \<^bold>\<open>Streaming\<close> (\<^verbatim>\<open>tachys/src/ssr/mod.rs\<close>). \<open>Ssr_Stream\<close> has the stream builder and its polling;
  a future is the number of times it is pending, with its value. \<open>Ssr_Correct\<close> shows, over the
  interface \<open>progressing\<close>, that every stream ends within its weight in polls, and that in-order
  streaming delivers the text that was pushed.

  \<^bold>\<open>Hot reloading\<close> (\<^verbatim>\<open>leptos_hot_reload/src\<close>). \<open>Hot_Reload\<close> has the comparison of two views;
  \<open>Hot_Reload_Client\<close> the client (\<^verbatim>\<open>patch.js\<close>) that applies the patches to a document of elements and
  texts; \<open>Hot_Reload_Correct\<close> that the patches of static views turn the old document into the new
  one, if none of them changes the name of an element, where the client loses children.

  \<^bold>\<open>Stores\<close> (\<^verbatim>\<open>reactive_stores/src\<close>, and the patches derived by \<^verbatim>\<open>reactive_stores_macro\<close>).
  \<open>Store_Keys\<close> has the keys of a keyed field; \<open>Store_Fields\<close> the store, its fields with their
  paths, readers, writers and subscriptions, and the iterators; \<open>Store_Patch\<close> the patches, by
  type. \<open>Store_Correct\<close> shows who is woken by a write, that a keyed item is found again, and,
  over the interface \<open>segment_registry\<close>, that keys keep their segments; \<open>Store_Patch_Correct\<close>
  that a patch notifies the differences of the values and nothing else; \<open>Store_Keyed_Patch\<close> the
  same for keyed collections, and where their patches go wrong.

  \<^bold>\<open>Views\<close> (\<^verbatim>\<open>tachys/src/view\<close>, \<^verbatim>\<open>html\<close>, \<^verbatim>\<open>hydration.rs\<close>, \<^verbatim>\<open>renderer/dom.rs\<close>).
  \<open>Dom_Model\<close> has the document, over the operations of the DOM that the renderer calls, and thrown
  errors; \<open>Dom_Correct\<close> what the operations keep. \<open>View_Attrs\<close> has attributes and classes,
  \<open>View_Html\<close> views and their rendering to HTML, \<open>View_Render\<close> building, mounting, rebuilding and hydrating;
  \<open>View_Hydrate\<close> shows that hydration finds the nodes of the page. \<open>View_Frame\<close>, \<open>View_States\<close> and \<open>View_Shown\<close> say when a
  state agrees with the document and which view it shows; \<open>View_Attrs_Correct\<close>,
  \<open>View_Attrs_Page\<close>, \<open>View_Build_Correct\<close>, \<open>View_Replace\<close>, \<open>View_Rebuild_Lists\<close> and
  \<open>View_Rebuild_Correct\<close> that building and rebuilding keep it so; \<open>View_Markup\<close> has the page of a
  view, as a tree, and that the HTML is this page written down. \<open>View_Props\<close> has the properties: an application, mounted or hydrated, shows its last
  view after any sequence of rebuilds, the rendered page keeps texts apart, and rebuilding keeps the type of
  a state. They hold for types of views in which the attributes of an element do not overlap and every alternative
  of a branch has a node, without \<^verbatim>\<open>StaticVec\<close> and \<^verbatim>\<open>AnyView\<close> in an \<^verbatim>\<open>EitherKeepAlive\<close> (\<open>wf_vty\<close>), for views whose
  shown sides are given (\<open>filled\<close>), and, for hydration, without errors (\<open>hydratable\<close>). Numbers are compared as values
  and represented by what is printed, so that a zero is shown up to its sign. \<open>View_Limits\<close> has what
  happens where these conditions fail.

  \<^bold>\<open>Actions and asynchronous values\<close> (\<^verbatim>\<open>reactive_graph/src/actions\<close>). \<open>Actions\<close> has actions and multi-actions as step relations on
  dispatches, aborts and the ends of tasks, and shows, over the interface \<open>tracked_system\<close>, that they
  show what their history says. \<open>Async_Derived\<close> (\<^verbatim>\<open>computed/async_derived\<close>) has asynchronous derived values in the
  same way: they catch up with their sources within three steps of their task, and a written value stays;
  it also has two histories after which they do not.

  \<^bold>\<open>Server functions\<close> (\<^verbatim>\<open>server_fn/src\<close>). \<open>Utf8\<close> says which bytes are strings. \<open>Server_Errors\<close> has the errors and
  their encodings, also in URLs; \<open>Server_Fn\<close> calls over HTTP on both sides, the registry, and the frames of
  websockets. \<open>Server_Fn_Props\<close> shows, over the interface \<open>server_error\<close> of an error type, that a call
  returns what the function returns, that a form reports its outcome, and that websocket streams arrive.
  \<open>Url_Query\<close> has query strings as the url crate documents them, as an instance of what is assumed of it.

  \<^bold>\<open>Data of the page\<close> (\<^verbatim>\<open>hydration_context/src\<close>, \<^verbatim>\<open>leptos_server/src\<close>). \<open>Hydration_Data\<close> has the context of the
  server and the stream of scripts; a future is what it does to the context at each poll.
  \<open>Hydration_Script\<close> reads the scripts as a browser does, with the interface \<open>literal_printer\<close> of printed
  string literals; \<open>Hydration_Browser\<close> has the page, the context of the browser, shared values and the data
  of resources. \<open>Hydration_Stream\<close> has the invariant of the stream, \<open>Hydration_Props\<close>, \<open>Hydration_Values\<close> and
  \<open>Hydration_Shared\<close> the properties: everything that is registered arrives, announced before; the values
  of the server are those of the browser; the stream ends; no script closes its tag.

  \<^bold>\<open>Metadata and templates.\<close> \<open>Meta_Tags\<close> has the title and the injection of tags into the first chunk of a
  page (\<^verbatim>\<open>meta/src\<close>); \<open>Const_Concat\<close> the concatenation of strings at compile time into a buffer of fixed
  size (\<^verbatim>\<open>const_str_slice_concat/src\<close>).

  \<^bold>\<open>Parameters.\<close> Code that is not in the repository is an argument of the definitions: how much
  indexmap and the vectors of the standard library grow, percent coding and the parsing of URLs,
  the order in which a hash map iterates (\<open>iterates_once\<close>: over every key once), the encodings of
  serializers, which futures a \<open>FuturesUnordered\<close> polls, which characters Rust takes for unprintable, and
  the rendering of a view into a stream. Allocation, hashing and locks between threads are not modelled:
  one thread runs, and a lock is a flag where the code can meet its own lock (stores, owners).

  \<^bold>\<open>Not modelled.\<close> The procedural macros, apart from the patches of stores: they generate Rust
  syntax, and what they generate for views is modelled where it is run. The integrations with axum
  and actix, and the clients, middleware, streaming and multipart codecs of server functions: adapters
  to third-party servers and streams. Suspense boundaries and transitions. Of views: styles, properties, events, inner HTML, templates, islands, extra
  attributes, and views from signals and futures, which connect effects to rebuilds. The components of
  \<^verbatim>\<open>leptos/src\<close> and of the router, configuration, immediate and render effects, the keyed patches of
  maps, and the wrappers that only delegate to a modelled type.
\<close>

end
